(* ===== verification/Prelude.thy ===== *)
theory Prelude
  imports Main "HOL-Library.Word" "HOL-Library.Monad_Syntax"
begin

text \<open>
  Shared vocabulary of the development: the machine words of the C code, the
  convention for code that ends the process, the network byte order of 16 and
  32 bit words as byte lists, and generic lemmas on lists and options.

  Conventions. A failed \<open>ASSERT\<close>, a fatal \<open>msg (M_FATAL, ...)\<close> and an
  out-of-bounds check of \<open>index_verify\<close> end the process: the model returns
  \<open>None\<close>. A C function that returns false or NULL and continues is modelled
  by a boolean (or an inner option) next to the new state. The C type int is
  modelled by \<open>int\<close> where the values stay far from the limits of the type, and
  unsigned words of the wire formats are modelled at their width.
\<close>

unbundle bit_operations_syntax

type_synonym u8 = "8 word"
type_synonym u16 = "16 word"
type_synonym u32 = "32 word"
type_synonym u64 = "64 word"
type_synonym bytes = "8 word list"

named_theorems aborts \<open>when an operation that may end the process returns\<close>
named_theorems wf_intros \<open>preservation of the data structure invariants\<close>
named_theorems net_order \<open>facts on network byte order\<close>

section \<open>Operations that may end the process\<close>

definition ASSERT :: "bool \<Rightarrow> unit option" where
  "ASSERT b = (if b then Some () else None)"

lemma ASSERT_simps [simp]: "ASSERT True = Some ()" "ASSERT False = None"
  by (simp_all add: ASSERT_def)

lemma ASSERT_Some [aborts]: "ASSERT b = Some u \<longleftrightarrow> b"
  by (simp add: ASSERT_def)

lemma bind_Some [aborts]: "Option.bind m f = Some y \<longleftrightarrow> (\<exists>x. m = Some x \<and> f x = Some y)"
  by (cases m) auto

lemma bind_ASSERT [simp]: "Option.bind (ASSERT b) f = (if b then f () else None)"
  by (simp add: ASSERT_def)

section \<open>Network byte order\<close>

definition htons :: "u16 \<Rightarrow> bytes" where
  "htons w = [ucast (drop_bit 8 w), ucast w]"

definition htonl :: "u32 \<Rightarrow> bytes" where
  "htonl w = [ucast (drop_bit 24 w), ucast (drop_bit 16 w), ucast (drop_bit 8 w), ucast w]"

definition ntohs :: "bytes \<Rightarrow> u16" where
  "ntohs bs = (push_bit 8 (ucast (bs ! 0)) OR ucast (bs ! 1))"

definition ntohl :: "bytes \<Rightarrow> u32" where
  "ntohl bs = (push_bit 24 (ucast (bs ! 0)) OR push_bit 16 (ucast (bs ! 1))
     OR push_bit 8 (ucast (bs ! 2)) OR ucast (bs ! 3))"

lemma length_htons [simp]: "length (htons w) = 2"
  by (simp add: htons_def)

lemma length_htonl [simp]: "length (htonl w) = 4"
  by (simp add: htonl_def)

lemma ntohs_htons [simp, net_order]: "ntohs (htons w) = w"
  unfolding ntohs_def htons_def
  by (rule bit_word_eqI) (auto simp: bit_simps not_le)

lemma ntohl_htonl [simp, net_order]: "ntohl (htonl w) = w"
proof (rule bit_word_eqI)
  fix n assume n: "n < LENGTH(32)"
  consider "n < 8" | "8 \<le> n" "n < 16" | "16 \<le> n" "n < 24" | "24 \<le> n" by linarith
  then show "bit (ntohl (htonl w)) n = bit w n"
    using n by cases (auto simp: ntohl_def htonl_def bit_simps)
qed

lemma length_2_conv: "length xs = 2 \<longleftrightarrow> (\<exists>a b. xs = [a, b])"
  by (auto simp: length_Suc_conv numeral_2_eq_2)

lemma length_4_conv: "length xs = 4 \<longleftrightarrow> (\<exists>a b c d. xs = [a, b, c, d])"
  by (auto simp: length_Suc_conv eval_nat_numeral)

lemma htons_ntohs [net_order]: "length bs = 2 \<Longrightarrow> htons (ntohs bs) = bs"
  unfolding ntohs_def htons_def
  by (auto simp: length_2_conv intro!: bit_word_eqI) (auto simp: bit_simps dest: bit_imp_le_length)

lemma htonl_ntohl [net_order]: "length bs = 4 \<Longrightarrow> htonl (ntohl bs) = bs"
  unfolding ntohl_def htonl_def
  by (auto simp: length_4_conv intro!: bit_word_eqI) (auto simp: bit_simps dest: bit_imp_le_length)

lemma htonl_inject: "htonl a = htonl b \<longleftrightarrow> a = b"
  by (metis ntohl_htonl)

lemma htons_inject: "htons a = htons b \<longleftrightarrow> a = b"
  by (metis ntohs_htons)

section \<open>Words\<close>

lemma unat_plus_one: "i < t \<Longrightarrow> unat (i + 1) = Suc (unat i)" for i t :: "'a::len word"
proof -
  assume "i < t"
  then have lt: "unat i < unat t" by (simp add: word_less_nat_alt)
  have "unat t < 2 ^ LENGTH('a)" by (rule unsigned_less)
  with lt have "Suc (unat i) < 2 ^ LENGTH('a)" by linarith
  then show ?thesis by (simp add: unat_word_ariths)
qed

lemma unat_minus: "j \<le> i \<Longrightarrow> unat (i - j) = unat i - unat j" for i j :: "'a::len word"
  by (simp add: unat_sub)

lemma uint_less_int [simp]: "uint d < int n \<longleftrightarrow> unat d < n" for d :: "'a::len word"
  using of_nat_less_iff[of "unat d" n, where 'a = int] by simp

lemma uint_less_of_unat: "unat d < n \<Longrightarrow> int n = m \<Longrightarrow> uint d < m" for d :: "'a::len word"
  by auto

lemma unat_of_int32: "0 \<le> i \<Longrightarrow> i < 2 ^ 32 \<Longrightarrow> unat (word_of_int i :: u32) = nat i"
proof -
  assume "0 \<le> i" "i < 2 ^ 32"
  then have "uint (word_of_int i :: u32) = i" by (simp add: uint_word_of_int)
  moreover have "unat (word_of_int i :: u32) = nat (uint (word_of_int i :: u32))" by simp
  ultimately show ?thesis by simp
qed

lemma unat_of_nat_small: "n < 2 ^ LENGTH('a) \<Longrightarrow> unat (of_nat n :: 'a::len word) = n"
  by (simp add: unat_of_nat take_bit_nat_eq_self)

lemma sint_small: "unat d < 2 ^ 31 \<Longrightarrow> sint d = uint d" for d :: u32
proof -
  assume "unat d < 2 ^ 31"
  then have "uint d < 2 ^ 31" by (rule uint_less_of_unat) simp
  moreover have "- (2 ^ 31) \<le> uint d" by (rule order_trans[of _ 0]) simp_all
  ultimately have "signed_take_bit 31 (uint d) = uint d"
    by (intro signed_take_bit_int_eq_self)
  then show ?thesis by (simp add: sint_uint)
qed

text \<open>The conversion of a wider signed value to a C \<open>int\<close>.\<close>

definition c_int :: "int \<Rightarrow> int" where
  "c_int x = signed_take_bit 31 x"

lemma c_int_id [simp]: "- (2 ^ 31) \<le> x \<Longrightarrow> x < 2 ^ 31 \<Longrightarrow> c_int x = x"
  unfolding c_int_def by (rule signed_take_bit_int_eq_self) auto

section \<open>Lists\<close>

lemma take_take_append: "take c (xs @ take c ys) = take c (xs @ ys)"
  by (simp add: min_def)

lemma take_drop_append: "take n (drop m xs) @ drop (m + n) xs = drop m xs"
  by (metis append_take_drop_id drop_drop add.commute)

section \<open>Runs of a receiver\<close>

text \<open>
  A receiver handles one event at a time and either rejects it or accepts a key (a sequence
  number, a packet identifier). \<open>run_receiver\<close> collects the keys accepted over a list of
  events; \<open>None\<close> means that an event ended the process.

  The locale \<open>replay_guard\<close> is the contract of a replay protection: what is \<open>covered\<close> is
  never accepted, what is accepted becomes covered, and nothing that is covered is ever
  forgotten. Its conclusion is that no key is accepted twice.
\<close>

fun run_receiver :: "('e \<Rightarrow> 's \<Rightarrow> ('k option \<times> 's) option) \<Rightarrow> 'e list \<Rightarrow> 's \<Rightarrow> ('k list \<times> 's) option" where
  "run_receiver step [] s = Some ([], s)"
| "run_receiver step (e # es) s = do {
     (k, s) \<leftarrow> step e s;
     (ks, s) \<leftarrow> run_receiver step es s;
     Some (case k of None \<Rightarrow> ks | Some k \<Rightarrow> k # ks, s) }"

locale replay_guard =
  fixes inv :: "'s \<Rightarrow> bool"
    and covered :: "'s \<Rightarrow> 'k \<Rightarrow> bool"
    and okev :: "'e \<Rightarrow> bool"
    and step :: "'e \<Rightarrow> 's \<Rightarrow> ('k option \<times> 's) option"
  assumes step_total: "inv s \<Longrightarrow> okev e \<Longrightarrow> \<exists>k s'. step e s = Some (k, s') \<and> inv s'"
    and step_fresh: "inv s \<Longrightarrow> okev e \<Longrightarrow> step e s = Some (Some k, s') \<Longrightarrow> \<not> covered s k \<and> covered s' k"
    and step_keeps: "inv s \<Longrightarrow> okev e \<Longrightarrow> step e s = Some (r, s') \<Longrightarrow> covered s k \<Longrightarrow> covered s' k"
begin

lemma run_no_replay:
  assumes "inv s" "\<forall>e \<in> set es. okev e"
  shows "\<exists>ks s'. run_receiver step es s = Some (ks, s') \<and> inv s' \<and> distinct ks
    \<and> (\<forall>k. covered s k \<longrightarrow> k \<notin> set ks \<and> covered s' k) \<and> (\<forall>k \<in> set ks. covered s' k)"
  using assms
proof (induction es arbitrary: s)
  case Nil
  then show ?case by simp
next
  case (Cons e es)
  then obtain k s1 where s1: "step e s = Some (k, s1)" "inv s1"
    using step_total[of s e] by auto
  then obtain ks s' where r: "run_receiver step es s1 = Some (ks, s')" "inv s'" "distinct ks"
    "\<forall>k. covered s1 k \<longrightarrow> k \<notin> set ks \<and> covered s' k" "\<forall>k \<in> set ks. covered s' k"
    using Cons.IH[of s1] Cons.prems by auto
  have keeps: "covered s k' \<Longrightarrow> covered s1 k'" for k'
    using step_keeps[OF Cons.prems(1) _ s1(1)] Cons.prems(2) by auto
  show ?case
  proof (cases k)
    case None
    then show ?thesis using s1 r keeps by auto
  next
    case (Some k0)
    then have "\<not> covered s k0" "covered s1 k0"
      using step_fresh[of s e k0 s1] Cons.prems s1 by auto
    then show ?thesis using s1 r keeps Some by auto
  qed
qed

end

end
