(* ===== verification/C_Integer.thy ===== *)
theory C_Integer
  imports Prelude
begin

text \<open>
  The integer helpers of \<open>integer.h\<close>: minimum, maximum and clamping, index arithmetic on
  a circle, index verification, and rounding up to a power of two.
\<close>

section \<open>Integer arithmetic\<close>

definition max_uint :: "u32 \<Rightarrow> u32 \<Rightarrow> u32" where
  "max_uint x y = (if x > y then x else y)"

definition min_uint :: "u32 \<Rightarrow> u32 \<Rightarrow> u32" where
  "min_uint x y = (if x < y then x else y)"

definition max_int :: "int \<Rightarrow> int \<Rightarrow> int" where
  "max_int x y = (if x > y then x else y)"

definition min_int :: "int \<Rightarrow> int \<Rightarrow> int" where
  "min_int x y = (if x < y then x else y)"

definition constrain_int :: "int \<Rightarrow> int \<Rightarrow> int \<Rightarrow> int" where
  "constrain_int x mi ma =
     (if mi > ma then mi else if x < mi then mi else if x > ma then ma else x)"

definition modulo_subtract :: "int \<Rightarrow> int \<Rightarrow> int \<Rightarrow> int option" where
  "modulo_subtract x y m = do {
     let d1 = x - y;
     let d2 = (if x > y then - m else m) + d1;
     ASSERT (0 \<le> x \<and> x < m \<and> 0 \<le> y \<and> y < m);
     Some (if \<bar>d1\<bar> > \<bar>d2\<bar> then d2 else d1) }"

definition modulo_add :: "int \<Rightarrow> int \<Rightarrow> int \<Rightarrow> int option" where
  "modulo_add x y m = do {
     let sum = x + y;
     ASSERT (0 \<le> x \<and> x < m \<and> - m \<le> y \<and> y \<le> m);
     let sum = (if sum \<ge> m then sum - m else sum);
     let sum = (if sum < 0 then sum + m else sum);
     Some sum }"

text \<open>
  The loop of \<open>adjust_power_of_2\<close> doubles a 64 bit \<open>size_t\<close> and asserts that it did not
  wrap to zero. It runs at most 64 times, which \<open>adjust_power_of_2_total\<close> shows.
\<close>

datatype 'a loop = Out_Of_Fuel | Aborted | Returned 'a

fun adjust_loop :: "nat \<Rightarrow> u64 \<Rightarrow> u64 \<Rightarrow> u64 loop" where
  "adjust_loop 0 u ret = Out_Of_Fuel"
| "adjust_loop (Suc fuel) u ret =
     (if ret < u
      then let ret' = push_bit 1 ret in
           if ret' > 0 then adjust_loop fuel u ret' else Aborted
      else Returned ret)"

definition adjust_power_of_2 :: "u64 \<Rightarrow> u64 loop" where
  "adjust_power_of_2 u = adjust_loop 65 u 1"

definition index_verify :: "int \<Rightarrow> int \<Rightarrow> int option" where
  "index_verify index sz = (if index < 0 \<or> index \<ge> sz then None else Some index)"

definition round_down_uint :: "u32 \<Rightarrow> u32 \<Rightarrow> u32 option" where
  "round_down_uint num multiple =
     (if multiple = 0 then None else Some ((num div multiple) * multiple))"

lemma min_int_eq [simp]: "min_int x y = min x y"
  by (simp add: min_int_def min_def)

lemma max_int_eq [simp]: "max_int x y = max x y"
  by (simp add: max_int_def max_def)

lemma constrain_int_range: "mi \<le> ma \<Longrightarrow> mi \<le> constrain_int x mi ma \<and> constrain_int x mi ma \<le> ma"
  by (simp add: constrain_int_def)

lemma constrain_int_id: "mi \<le> x \<Longrightarrow> x \<le> ma \<Longrightarrow> constrain_int x mi ma = x"
  by (simp add: constrain_int_def)

lemma modulo_add_mod:
  "0 \<le> x \<Longrightarrow> x < m \<Longrightarrow> - m \<le> y \<Longrightarrow> y \<le> m \<Longrightarrow> modulo_add x y m = Some ((x + y) mod m)"
proof -
  assume a: "0 \<le> x" "x < m" "- m \<le> y" "y \<le> m"
  show ?thesis
  proof (cases "x + y \<ge> m")
    case True
    then have "(x + y) mod m = x + y - m"
      using a mod_pos_pos_trivial[of "x + y - m" m] by (simp add: minus_mod_self2)
    then show ?thesis using a True by (simp add: modulo_add_def Let_def)
  next
    case False
    show ?thesis
    proof (cases "x + y < 0")
      case True
      then have "(x + y) mod m = x + y + m"
        using a mod_pos_pos_trivial[of "x + y + m" m] by simp
      then show ?thesis using a True False by (simp add: modulo_add_def Let_def)
    next
      case False
      then show ?thesis using a \<open>\<not> m \<le> x + y\<close> by (simp add: modulo_add_def Let_def)
    qed
  qed
qed

lemma modulo_add_aborts:
  "\<not> (0 \<le> x \<and> x < m \<and> - m \<le> y \<and> y \<le> m) \<Longrightarrow> modulo_add x y m = None"
  by (auto simp: modulo_add_def Let_def)

lemma index_verify_Some [aborts]: "index_verify i n = Some j \<longleftrightarrow> 0 \<le> i \<and> i < n \<and> j = i"
  by (auto simp: index_verify_def)

section \<open>Powers of two\<close>

lemma adjust_loop_correct:
  assumes "k \<le> 63" "unat ret = 2 ^ k" "63 - k < fuel" "unat u \<le> 2 ^ 63"
    and "k = 0 \<or> 2 ^ (k - 1) < unat u"
  shows "\<exists>r j. adjust_loop fuel u ret = Returned r \<and> unat r = 2 ^ j \<and> unat u \<le> 2 ^ j
    \<and> (j = 0 \<or> 2 ^ (j - 1) < unat u)"
  using assms
proof (induction fuel arbitrary: k ret)
  case 0
  then show ?case by simp
next
  case (Suc fuel)
  show ?case
  proof (cases "ret < u")
    case True
    then have lt: "2 ^ k < unat u" using Suc.prems(2) by (simp add: word_less_nat_alt)
    then have "(2::nat) ^ k < 2 ^ 63" using Suc.prems(4) by linarith
    then have k: "k < 63" using power_less_imp_less_exp[of "2::nat" k 63] by simp
    have sh: "unat (push_bit 1 ret) = 2 ^ Suc k"
    proof -
      have "(2::nat) ^ Suc k < 2 ^ 64" using k by (intro power_strict_increasing) auto
      then have "(2 * 2 ^ k) mod 18446744073709551616 = (2::nat) * 2 ^ k" by simp
      then have "unat (2 * ret) = 2 * 2 ^ k"
        using Suc.prems(2) by (simp add: unat_word_ariths)
      then show ?thesis by (simp add: push_bit_eq_mult mult.commute)
    qed
    then have "0 < push_bit 1 ret" by (simp add: word_less_nat_alt)
    moreover have "\<exists>r j. adjust_loop fuel u (push_bit 1 ret) = Returned r \<and> unat r = 2 ^ j
      \<and> unat u \<le> 2 ^ j \<and> (j = 0 \<or> 2 ^ (j - 1) < unat u)"
      by (rule Suc.IH[of "Suc k"]) (use k sh Suc.prems lt in auto)
    ultimately show ?thesis using True by (simp add: Let_def)
  next
    case False
    then show ?thesis using Suc.prems by (auto simp: word_less_nat_alt)
  qed
qed

lemma adjust_power_of_2_total:
  assumes "unat u \<le> 2 ^ 63"
  obtains r j where "adjust_power_of_2 u = Returned r" "unat r = 2 ^ j" "unat u \<le> 2 ^ j"
    "j = 0 \<or> 2 ^ (j - 1) < unat u"
  using adjust_loop_correct[of 0 1 65 u] assms unfolding adjust_power_of_2_def by force

end
