(* ===== verification/Circ_List.thy ===== *)
theory Circ_List
  imports C_Integer
begin

text \<open>
  The circular list of \<open>circ_list.h\<close>: an array \<open>x_list\<close> of \<open>x_cap\<close> cells with a head index
  and a size. Its contract is the locale \<open>circ_window\<close>: a bounded window whose newest
  element has index 0 and which forgets its oldest element when it is full. The array
  implementation is shown to provide that contract, so the replay filter is proved
  against the window alone.
\<close>

section \<open>The array implementation\<close>

record 'a circ_list =
  x_head :: int
  x_size :: int
  x_cap :: int
  x_list :: "'a list"

definition CIRC_LIST_PUSH :: "'a circ_list \<Rightarrow> 'a \<Rightarrow> 'a circ_list option" where
  "CIRC_LIST_PUSH obj v = do {
     h \<leftarrow> modulo_add (x_head obj) (-1) (x_cap obj);
     Some (obj\<lparr>x_head := h, x_list := (x_list obj)[nat h := v],
               x_size := min_int (x_size obj + 1) (x_cap obj)\<rparr>) }"

definition CIRC_LIST_SIZE :: "'a circ_list \<Rightarrow> int" where
  "CIRC_LIST_SIZE obj = x_size obj"

definition CIRC_LIST_INDEX :: "'a circ_list \<Rightarrow> int \<Rightarrow> int option" where
  "CIRC_LIST_INDEX obj index = do {
     i \<leftarrow> index_verify index (x_size obj);
     modulo_add (x_head obj) i (x_cap obj) }"

definition CIRC_LIST_ITEM :: "'a circ_list \<Rightarrow> int \<Rightarrow> 'a option" where
  "CIRC_LIST_ITEM obj index = do {
     i \<leftarrow> CIRC_LIST_INDEX obj index;
     Some (x_list obj ! nat i) }"

definition CIRC_LIST_STORE :: "'a circ_list \<Rightarrow> int \<Rightarrow> 'a \<Rightarrow> 'a circ_list option" where
  "CIRC_LIST_STORE obj index v = do {
     i \<leftarrow> CIRC_LIST_INDEX obj index;
     Some (obj\<lparr>x_list := (x_list obj)[nat i := v]\<rparr>) }"

definition CIRC_LIST_RESET :: "'a circ_list \<Rightarrow> 'a circ_list" where
  "CIRC_LIST_RESET obj = obj\<lparr>x_head := 0, x_size := 0\<rparr>"

definition CIRC_LIST_ALLOC :: "'a \<Rightarrow> int \<Rightarrow> 'a circ_list" where
  "CIRC_LIST_ALLOC zero sz =
     \<lparr>x_head = 0, x_size = 0, x_cap = sz, x_list = replicate (nat sz) zero\<rparr>"

section \<open>The contract of a bounded window\<close>

locale circ_window =
  fixes inv :: "'q \<Rightarrow> bool"
    and win :: "'q \<Rightarrow> 'a list"
    and cap :: "'q \<Rightarrow> nat"
    and push :: "'q \<Rightarrow> 'a \<Rightarrow> 'q option"
    and item :: "'q \<Rightarrow> int \<Rightarrow> 'a option"
    and store :: "'q \<Rightarrow> int \<Rightarrow> 'a \<Rightarrow> 'q option"
    and reset :: "'q \<Rightarrow> 'q"
  assumes win_bound: "inv q \<Longrightarrow> length (win q) \<le> cap q"
    and push_win: "inv q \<Longrightarrow> \<exists>q'. push q v = Some q' \<and> inv q' \<and> cap q' = cap q
          \<and> win q' = take (cap q) (v # win q)"
    and item_win: "inv q \<Longrightarrow>
          item q i = (if 0 \<le> i \<and> i < int (length (win q)) then Some (win q ! nat i) else None)"
    and store_win: "inv q \<Longrightarrow> 0 \<le> i \<Longrightarrow> i < int (length (win q)) \<Longrightarrow>
          \<exists>q'. store q i v = Some q' \<and> inv q' \<and> cap q' = cap q \<and> win q' = (win q)[nat i := v]"
    and reset_win: "inv q \<Longrightarrow> inv (reset q) \<and> cap (reset q) = cap q \<and> win (reset q) = []"
begin

lemma push_E:
  assumes "inv q"
  obtains q' where "push q v = Some q'" "inv q'" "cap q' = cap q"
    "win q' = take (cap q) (v # win q)"
  using push_win[OF assms] by blast

lemma store_E:
  assumes "inv q" "0 \<le> i" "i < int (length (win q))"
  obtains q' where "store q i v = Some q'" "inv q'" "cap q' = cap q" "win q' = (win q)[nat i := v]"
  using store_win[OF assms] by blast

lemma pushed_item:
  assumes "inv q" "push q v = Some q'" "0 < cap q"
  shows "item q' 0 = Some v"
proof -
  obtain q'' where "push q v = Some q''" "inv q''" "win q'' = take (cap q) (v # win q)"
    using push_E[OF assms(1)] by metis
  then show ?thesis using assms by (cases "cap q") (auto simp: item_win)
qed

text \<open>What \<open>n\<close> pushes of the same value leave in the window.\<close>

lemma push_shift:
  assumes "inv q" "push q v = Some q'" "win q = take (cap q) (replicate n v @ w)"
  shows "win q' = take (cap q) (replicate (Suc n) v @ w)"
proof -
  obtain q'' where "push q v = Some q''" "win q'' = take (cap q) (v # win q)"
    using push_E[OF assms(1)] by metis
  then have "win q' = take (cap q) (v # take (cap q) (replicate n v @ w))"
    using assms by simp
  also have "\<dots> = take (cap q) (v # (replicate n v @ w))"
    by (cases "cap q") (simp_all del: take_append add: min_absorb1)
  finally show ?thesis by simp
qed

end

section \<open>The array implements the window\<close>

definition circ_inv :: "'a circ_list \<Rightarrow> bool" where
  "circ_inv q \<longleftrightarrow> 0 < x_cap q \<and> 0 \<le> x_head q \<and> x_head q < x_cap q
     \<and> 0 \<le> x_size q \<and> x_size q \<le> x_cap q \<and> int (length (x_list q)) = x_cap q"

definition circ_win :: "'a circ_list \<Rightarrow> 'a list" where
  "circ_win q = map (\<lambda>i. x_list q ! nat ((x_head q + int i) mod x_cap q)) [0 ..< nat (x_size q)]"

definition circ_cap :: "'a circ_list \<Rightarrow> nat" where
  "circ_cap q = nat (x_cap q)"

lemma length_circ_win [simp]: "length (circ_win q) = nat (x_size q)"
  by (simp add: circ_win_def)

lemma CIRC_LIST_INDEX_inv:
  "circ_inv q \<Longrightarrow> CIRC_LIST_INDEX q i
     = (if 0 \<le> i \<and> i < x_size q then Some ((x_head q + i) mod x_cap q) else None)"
  by (auto simp: CIRC_LIST_INDEX_def index_verify_def circ_inv_def intro!: modulo_add_mod)

lemma circ_item_win:
  "circ_inv q \<Longrightarrow> CIRC_LIST_ITEM q i
     = (if 0 \<le> i \<and> i < int (length (circ_win q)) then Some (circ_win q ! nat i) else None)"
  by (auto simp: CIRC_LIST_ITEM_def CIRC_LIST_INDEX_inv circ_win_def)

lemma mod_shift_inj:
  fixes i j m h :: int
  assumes "0 \<le> i" "i < m" "0 \<le> j" "j < m" "(h + i) mod m = (h + j) mod m"
  shows "i = j"
proof -
  have "(h + i - h) mod m = (h + j - h) mod m"
    using assms(5) by (metis mod_diff_left_eq)
  then show ?thesis using assms by simp
qed

lemma circ_store_win:
  assumes "circ_inv q" "0 \<le> i" "i < int (length (circ_win q))"
  shows "\<exists>q'. CIRC_LIST_STORE q i v = Some q' \<and> circ_inv q' \<and> circ_cap q' = circ_cap q
           \<and> circ_win q' = (circ_win q)[nat i := v]"
proof -
  let ?k = "(x_head q + i) mod x_cap q"
  let ?q = "q\<lparr>x_list := (x_list q)[nat ?k := v]\<rparr>"
  have pos: "0 < x_cap q" and sz: "x_size q \<le> x_cap q" "0 \<le> x_size q"
    and len: "length (x_list q) = nat (x_cap q)"
    using assms(1) by (auto simp: circ_inv_def)
  have k: "nat ?k < length (x_list q)"
    using pos len by (simp add: nat_less_iff)
  have "CIRC_LIST_STORE q i v = Some ?q"
    using assms sz by (simp add: CIRC_LIST_STORE_def CIRC_LIST_INDEX_inv)
  moreover have "circ_win ?q = (circ_win q)[nat i := v]"
  proof (rule nth_equalityI)
    fix j assume "j < length (circ_win ?q)"
    then have j: "int j < x_size q" by simp
    have "nat ((x_head q + int j) mod x_cap q) = nat ?k \<longleftrightarrow> j = nat i"
    proof
      assume "nat ((x_head q + int j) mod x_cap q) = nat ?k"
      then have "(x_head q + int j) mod x_cap q = ?k" using pos by (simp add: eq_nat_nat_iff)
      then show "j = nat i" using mod_shift_inj[of "int j" "x_cap q" i "x_head q"] assms j sz by auto
    next
      assume "j = nat i" then show "nat ((x_head q + int j) mod x_cap q) = nat ?k" using assms by simp
    qed
    then show "circ_win ?q ! j = (circ_win q)[nat i := v] ! j"
      using j k assms by (auto simp: circ_win_def nth_list_update)
  qed simp
  moreover have "circ_inv ?q" "circ_cap ?q = circ_cap q"
    using assms(1) by (auto simp: circ_inv_def circ_cap_def)
  ultimately show ?thesis by blast
qed

lemma circ_win_nth: "j < nat (x_size q) \<Longrightarrow>
  circ_win q ! j = x_list q ! nat ((x_head q + int j) mod x_cap q)"
  by (simp add: circ_win_def)

lemma circ_push_win:
  assumes "circ_inv q"
  shows "\<exists>q'. CIRC_LIST_PUSH q v = Some q' \<and> circ_inv q' \<and> circ_cap q' = circ_cap q
           \<and> circ_win q' = take (circ_cap q) (v # circ_win q)"
proof -
  define h where "h = (x_head q - 1) mod x_cap q"
  define q' where "q' = q\<lparr>x_head := h, x_list := (x_list q)[nat h := v],
    x_size := min (x_size q + 1) (x_cap q)\<rparr>"
  have pos: "0 < x_cap q" and hd: "0 \<le> x_head q" "x_head q < x_cap q"
    and sz: "x_size q \<le> x_cap q" "0 \<le> x_size q" and len: "length (x_list q) = nat (x_cap q)"
    using assms by (auto simp: circ_inv_def)
  have hb: "0 \<le> h" "h < x_cap q" using pos by (auto simp: h_def)
  have "modulo_add (x_head q) (-1) (x_cap q) = Some h"
    using modulo_add_mod[of "x_head q" "x_cap q" "-1"] pos hd by (simp add: h_def)
  then have push: "CIRC_LIST_PUSH q v = Some q'" by (simp add: CIRC_LIST_PUSH_def q'_def)
  have inv: "circ_inv q'" "circ_cap q' = circ_cap q"
    using assms hb by (auto simp: circ_inv_def circ_cap_def q'_def)
  have win: "circ_win q' = take (circ_cap q) (v # circ_win q)"
  proof (rule nth_equalityI)
    show "length (circ_win q') = length (take (circ_cap q) (v # circ_win q))"
      using sz by (auto simp: circ_cap_def q'_def min_def)
  next
    fix j assume "j < length (circ_win q')"
    then have j: "j < nat (x_size q')" "int j < x_size q + 1" "int j < x_cap q"
      by (auto simp: q'_def zless_nat_eq_int_zless)
    show "circ_win q' ! j = take (circ_cap q) (v # circ_win q) ! j"
    proof (cases j)
      case 0
      have "circ_win q' ! 0 = x_list q' ! nat (h mod x_cap q)"
        using circ_win_nth[of 0 q'] j 0 by (simp add: q'_def)
      also have "\<dots> = v" using hb len by (simp add: q'_def nat_less_iff)
      finally show ?thesis using 0 pos by (simp add: circ_cap_def)
    next
      case (Suc k)
      let ?k = "(x_head q + int k) mod x_cap q"
      have eq: "(h + int j) mod x_cap q = ?k"
        using Suc mod_add_left_eq[of "x_head q - 1" "x_cap q" "int j"] by (simp add: h_def)
      have "?k \<noteq> h"
      proof
        assume "?k = h"
        then have "?k = (x_head q + (x_cap q - 1)) mod x_cap q"
          using mod_add_self2[of "x_head q - 1" "x_cap q"] by (simp add: h_def algebra_simps)
        then have "int k = x_cap q - 1"
          by (rule mod_shift_inj[rotated 4]) (use j Suc pos in linarith)+
        then show False using j Suc by simp
      qed
      moreover have "0 \<le> ?k" using pos by simp
      ultimately have ne: "nat h \<noteq> nat ?k" using hb by (simp add: eq_nat_nat_iff)
      have "circ_win q' ! j = x_list q' ! nat ((h + int j) mod x_cap q)"
        using circ_win_nth[OF j(1)] by (simp add: q'_def)
      also have "\<dots> = x_list q ! nat ?k" unfolding eq using ne by (simp add: q'_def)
      also have "\<dots> = circ_win q ! k" using j Suc by (simp add: circ_win_nth)
      finally show ?thesis using Suc j by (simp add: circ_cap_def)
    qed
  qed
  show ?thesis using push inv win by blast
qed

lemma circ_reset_win:
  "circ_inv q \<Longrightarrow> circ_inv (CIRC_LIST_RESET q) \<and> circ_cap (CIRC_LIST_RESET q) = circ_cap q
     \<and> circ_win (CIRC_LIST_RESET q) = []"
  by (auto simp: circ_inv_def circ_cap_def circ_win_def CIRC_LIST_RESET_def)

lemma circ_alloc:
  "0 < n \<Longrightarrow> circ_inv (CIRC_LIST_ALLOC z n) \<and> circ_cap (CIRC_LIST_ALLOC z n) = nat n
     \<and> circ_win (CIRC_LIST_ALLOC z n) = []"
  by (auto simp: circ_inv_def circ_cap_def circ_win_def CIRC_LIST_ALLOC_def)

interpretation circ: circ_window circ_inv circ_win circ_cap CIRC_LIST_PUSH CIRC_LIST_ITEM
  CIRC_LIST_STORE CIRC_LIST_RESET
proof (unfold_locales, goal_cases)
  case 1 then show ?case by (auto simp: circ_inv_def circ_cap_def)
next
  case 2 then show ?case by (rule circ_push_win)
next
  case 3 then show ?case by (rule circ_item_win)
next
  case 4 then show ?case by (rule circ_store_win)
next
  case 5 then show ?case by (rule circ_reset_win)
qed

lemma circ_size: "circ_inv q \<Longrightarrow> CIRC_LIST_SIZE q = int (length (circ_win q))"
  by (simp add: CIRC_LIST_SIZE_def circ_inv_def)

declare length_circ_win [simp del]

end
