(* ===== verification/Buffer.thy ===== *)
theory Buffer
  imports C_Integer
begin

text \<open>
  The packet buffer of \<open>buffer.h\<close> and \<open>buffer.c\<close>: a block of memory with a window of content
  \<open>offset .. offset + len\<close>. A buffer is a record of the C fields; \<open>b_data\<close> is the whole
  block, \<open>None\<close> for a null pointer, and a pointer into the block is its index. Operations
  return whether they succeeded and the buffer after the call.

  The contract the protocol code relies on is the locale \<open>byte_store\<close>: a buffer holds a
  byte string, a write appends, a prepend goes in front, a read takes from the front, and
  each of them either does exactly that or fails and changes nothing.
\<close>

section \<open>State\<close>

record buffer =
  b_capacity :: int
  b_offset :: int
  b_len :: int
  b_data :: "bytes option"

definition BUF_SIZE_MAX :: int where
  "BUF_SIZE_MAX = 1000000"

definition clear_buf :: buffer where
  "clear_buf = \<lparr>b_capacity = 0, b_offset = 0, b_len = 0, b_data = None\<rparr>"

definition buf_defined :: "buffer \<Rightarrow> bool" where
  "buf_defined buf \<longleftrightarrow> b_data buf \<noteq> None"

definition buf_valid :: "buffer \<Rightarrow> bool" where
  "buf_valid buf \<longleftrightarrow> b_data buf \<noteq> None \<and> b_len buf \<ge> 0"

definition buf_bptr :: "buffer \<Rightarrow> int option" where
  "buf_bptr buf = (if buf_valid buf then Some (b_offset buf) else None)"

definition buf_len :: "buffer \<Rightarrow> int" where
  "buf_len buf = (if buf_valid buf then b_len buf else 0)"

definition buf_blast :: "buffer \<Rightarrow> int option" where
  "buf_blast buf =
     (if buf_len buf > 0 then map_option (\<lambda>p. p + buf_len buf - 1) (buf_bptr buf) else None)"

definition buf_size_valid :: "nat \<Rightarrow> bool" where
  "buf_size_valid sz \<longleftrightarrow> int sz < BUF_SIZE_MAX"

definition buf_size_valid_signed :: "int \<Rightarrow> bool" where
  "buf_size_valid_signed sz \<longleftrightarrow> sz \<ge> - BUF_SIZE_MAX \<and> sz < BUF_SIZE_MAX"

definition buf_reset :: "buffer \<Rightarrow> buffer" where
  "buf_reset buf = buf\<lparr>b_capacity := 0, b_offset := 0, b_len := 0, b_data := None\<rparr>"

definition buf_reset_len :: "buffer \<Rightarrow> buffer" where
  "buf_reset_len buf = buf\<lparr>b_len := 0, b_offset := 0\<rparr>"

definition buf_init_dowork :: "buffer \<Rightarrow> int \<Rightarrow> bool \<times> buffer" where
  "buf_init_dowork buf offset =
     (if offset < 0 \<or> offset > b_capacity buf \<or> b_data buf = None then (False, buf)
      else (True, buf\<lparr>b_len := 0, b_offset := offset\<rparr>))"

text \<open>Memory: the bytes at an index, and the block after a \<open>memcpy\<close> to an index.\<close>

definition peek :: "bytes \<Rightarrow> int \<Rightarrow> nat \<Rightarrow> bytes" where
  "peek d i n = take n (drop (nat i) d)"

definition poke :: "bytes \<Rightarrow> int \<Rightarrow> bytes \<Rightarrow> bytes" where
  "poke d i bs = take (nat i) d @ bs @ drop (nat i + length bs) d"

definition buf_poke :: "buffer \<Rightarrow> int \<Rightarrow> bytes \<Rightarrow> buffer" where
  "buf_poke buf i bs = buf\<lparr>b_data := map_option (\<lambda>d. poke d i bs) (b_data buf)\<rparr>"

definition buf_contents :: "buffer \<Rightarrow> bytes" where
  "buf_contents buf = (case b_data buf of None \<Rightarrow> []
     | Some d \<Rightarrow> peek d (b_offset buf) (nat (buf_len buf)))"

section \<open>Allocation and sizes\<close>

definition array_mult_safe :: "nat \<Rightarrow> nat \<Rightarrow> nat \<Rightarrow> nat option" where
  "array_mult_safe m1 m2 extra =
     (let limit = 0xFFFFFFFF;
          res = (m1 * m2 + extra) mod 2 ^ 64 in
      if m1 > limit \<or> m2 > limit \<or> extra > limit \<or> res > limit then None else Some res)"

definition alloc_buf :: "nat \<Rightarrow> buffer option" where
  "alloc_buf sz = do {
     ASSERT (buf_size_valid sz);
     Some \<lparr>b_capacity = int sz, b_offset = 0, b_len = 0, b_data = Some (replicate sz 0)\<rparr> }"

definition buf_set_write :: "bytes \<Rightarrow> int \<Rightarrow> buffer option" where
  "buf_set_write d sz = do {
     ASSERT (0 \<le> sz \<and> buf_size_valid (nat sz));
     Some \<lparr>b_capacity = sz, b_offset = 0, b_len = 0,
           b_data = Some (if sz > 0 then poke d 0 [0] else d)\<rparr> }"

definition buf_set_read :: "bytes \<Rightarrow> nat \<Rightarrow> buffer option" where
  "buf_set_read d sz = do {
     ASSERT (buf_size_valid sz);
     Some \<lparr>b_capacity = int sz, b_offset = 0, b_len = int sz, b_data = Some d\<rparr> }"

definition buf_clear :: "buffer \<Rightarrow> buffer" where
  "buf_clear buf =
     (let buf = (if b_capacity buf > 0
                 then buf_poke buf 0 (replicate (nat (b_capacity buf)) 0) else buf)
      in buf\<lparr>b_len := 0, b_offset := 0\<rparr>)"

definition buf_safe :: "buffer \<Rightarrow> nat \<Rightarrow> bool" where
  "buf_safe buf n \<longleftrightarrow> buf_valid buf \<and> buf_size_valid n
     \<and> b_offset buf + b_len buf + int n \<le> b_capacity buf"

definition buf_safe_bidir :: "buffer \<Rightarrow> int \<Rightarrow> bool" where
  "buf_safe_bidir buf n \<longleftrightarrow>
     (if buf_valid buf \<and> buf_size_valid_signed n
      then let newlen = b_len buf + n in newlen \<ge> 0 \<and> b_offset buf + newlen \<le> b_capacity buf
      else False)"

definition buf_forward_capacity :: "buffer \<Rightarrow> int" where
  "buf_forward_capacity buf =
     (if buf_valid buf
      then let ret = b_capacity buf - (b_offset buf + b_len buf) in if ret < 0 then 0 else ret
      else 0)"

definition buf_forward_capacity_total :: "buffer \<Rightarrow> int" where
  "buf_forward_capacity_total buf =
     (if buf_valid buf
      then let ret = b_capacity buf - b_offset buf in if ret < 0 then 0 else ret
      else 0)"

definition buf_reverse_capacity :: "buffer \<Rightarrow> int" where
  "buf_reverse_capacity buf = (if buf_valid buf then b_offset buf else 0)"

section \<open>Moving the window\<close>

definition buf_inc_len :: "buffer \<Rightarrow> int \<Rightarrow> bool \<times> buffer" where
  "buf_inc_len buf inc =
     (if \<not> buf_safe_bidir buf inc then (False, buf)
      else (True, buf\<lparr>b_len := b_len buf + inc\<rparr>))"

definition buf_prepend :: "buffer \<Rightarrow> int \<Rightarrow> int option \<times> buffer" where
  "buf_prepend buf sz =
     (if \<not> buf_valid buf \<or> sz < 0 \<or> sz > b_offset buf then (None, buf)
      else let buf = buf\<lparr>b_offset := b_offset buf - sz, b_len := b_len buf + sz\<rparr>
           in (buf_bptr buf, buf))"

definition buf_advance :: "buffer \<Rightarrow> int \<Rightarrow> bool \<times> buffer" where
  "buf_advance buf sz =
     (if \<not> buf_valid buf \<or> sz < 0 \<or> b_len buf < sz then (False, buf)
      else (True, buf\<lparr>b_offset := b_offset buf + sz, b_len := b_len buf - sz\<rparr>))"

definition buf_write_alloc :: "buffer \<Rightarrow> nat \<Rightarrow> int option \<times> buffer" where
  "buf_write_alloc buf sz =
     (if \<not> buf_safe buf sz then (None, buf)
      else (map_option (\<lambda>p. p + b_len buf) (buf_bptr buf), buf\<lparr>b_len := b_len buf + int sz\<rparr>))"

definition buf_write_alloc_prepend :: "buffer \<Rightarrow> int \<Rightarrow> bool \<Rightarrow> int option \<times> buffer" where
  "buf_write_alloc_prepend buf sz prepend =
     (if prepend then buf_prepend buf sz
      else if sz < 0 then (None, buf) else buf_write_alloc buf (nat sz))"

definition buf_read_alloc :: "buffer \<Rightarrow> int \<Rightarrow> int option \<times> buffer" where
  "buf_read_alloc buf sz =
     (if sz < 0 \<or> b_len buf < sz then (None, buf)
      else (buf_bptr buf, buf\<lparr>b_offset := b_offset buf + sz, b_len := b_len buf - sz\<rparr>))"

section \<open>Writing\<close>

definition buf_write :: "buffer \<Rightarrow> bytes \<Rightarrow> bool \<times> buffer" where
  "buf_write dest src =
     (case buf_write_alloc dest (length src) of
        (None, dest) \<Rightarrow> (False, dest)
      | (Some cp, dest) \<Rightarrow> (True, buf_poke dest cp src))"

definition buf_write_prepend :: "buffer \<Rightarrow> bytes \<Rightarrow> bool \<times> buffer" where
  "buf_write_prepend dest src =
     (case buf_prepend dest (int (length src)) of
        (None, dest) \<Rightarrow> (False, dest)
      | (Some cp, dest) \<Rightarrow> (True, buf_poke dest cp src))"

definition buf_write_u8 :: "buffer \<Rightarrow> u8 \<Rightarrow> bool \<times> buffer" where
  "buf_write_u8 dest v = buf_write dest [v]"

definition buf_write_u16 :: "buffer \<Rightarrow> u16 \<Rightarrow> bool \<times> buffer" where
  "buf_write_u16 dest v = buf_write dest (htons v)"

definition buf_write_u32 :: "buffer \<Rightarrow> u32 \<Rightarrow> bool \<times> buffer" where
  "buf_write_u32 dest v = buf_write dest (htonl v)"

definition buf_copy :: "buffer \<Rightarrow> buffer \<Rightarrow> bool \<times> buffer" where
  "buf_copy dest src = buf_write dest (buf_contents src)"

definition buf_copy_n :: "buffer \<Rightarrow> buffer \<Rightarrow> int \<Rightarrow> bool \<times> buffer \<times> buffer" where
  "buf_copy_n dest src n =
     (case buf_read_alloc src n of
        (None, src) \<Rightarrow> (False, dest, src)
      | (Some cp, src) \<Rightarrow>
          (case buf_write dest (peek (the (b_data src)) cp (nat n)) of
             (ok, dest) \<Rightarrow> (ok, dest, src)))"

definition buf_copy_range :: "buffer \<Rightarrow> int \<Rightarrow> buffer \<Rightarrow> int \<Rightarrow> int \<Rightarrow> bool \<times> buffer" where
  "buf_copy_range dest dest_index src src_index src_len =
     (if src_index < 0 \<or> src_len < 0 \<or> src_index + src_len > b_len src \<or> dest_index < 0
         \<or> b_offset dest + dest_index + src_len > b_capacity dest
      then (False, dest)
      else let dest = buf_poke dest (b_offset dest + dest_index)
                        (peek (the (b_data src)) (b_offset src + src_index) (nat src_len))
           in (True, if dest_index + src_len > b_len dest
                     then dest\<lparr>b_len := dest_index + src_len\<rparr> else dest))"

definition buf_copy_excess :: "buffer \<Rightarrow> buffer \<Rightarrow> int \<Rightarrow> bool \<times> buffer \<times> buffer" where
  "buf_copy_excess dest src n =
     (if n < 0 then (False, dest, src)
      else if b_len src > n
      then let b = src; src = src\<lparr>b_len := n\<rparr> in
           (case buf_advance b n of
              (False, b) \<Rightarrow> (False, dest, src)
            | (True, b) \<Rightarrow> (case buf_copy dest b of (ok, dest) \<Rightarrow> (ok, dest, src)))
      else (True, dest, src))"

definition buf_assign :: "buffer \<Rightarrow> buffer \<Rightarrow> bool \<times> buffer" where
  "buf_assign dest src =
     (case buf_init_dowork dest (b_offset src) of
        (False, dest) \<Rightarrow> (False, dest)
      | (True, dest) \<Rightarrow> buf_write dest (buf_contents src))"

text \<open>
  \<open>clone_buf\<close> allocates a block of the same capacity and copies the content to the content's
  place; the rest of the fresh block is the parameter \<open>junk\<close>.
\<close>

definition clone_buf :: "bytes \<Rightarrow> buffer \<Rightarrow> buffer" where
  "clone_buf junk buf =
     (let ret = \<lparr>b_capacity = b_capacity buf, b_offset = b_offset buf, b_len = b_len buf,
                 b_data = Some junk\<rparr>
      in case buf_bptr ret of None \<Rightarrow> ret | Some p \<Rightarrow> buf_poke ret p (buf_contents buf))"

text \<open>
  \<open>buf_sub\<close> reserves \<open>size\<close> bytes of a buffer and returns a second buffer over the reserved
  bytes. The two share memory, so the model also returns the index of the reserved bytes, and
  \<open>buf_sub_done\<close> puts the bytes of the second buffer back at that index.
\<close>

definition buf_sub :: "buffer \<Rightarrow> int \<Rightarrow> bool \<Rightarrow> buffer \<times> buffer \<times> int" where
  "buf_sub buf sz prepend =
     (case buf_write_alloc_prepend buf sz prepend of
        (None, buf) \<Rightarrow> (clear_buf, buf, 0)
      | (Some p, buf) \<Rightarrow>
          (clear_buf\<lparr>b_capacity := sz, b_data := Some (peek (the (b_data buf)) p (nat sz))\<rparr>, buf, p))"

definition buf_sub_done :: "buffer \<Rightarrow> buffer \<Rightarrow> int \<Rightarrow> buffer" where
  "buf_sub_done sub buf p = buf_poke buf p (the (b_data sub))"

section \<open>Reading\<close>

definition buf_read :: "buffer \<Rightarrow> nat \<Rightarrow> bytes option \<times> buffer" where
  "buf_read src sz =
     (case buf_read_alloc src (int sz) of
        (None, src) \<Rightarrow> (None, src)
      | (Some cp, src) \<Rightarrow> (Some (peek (the (b_data src)) cp sz), src))"

definition buf_read_u8 :: "buffer \<Rightarrow> int \<times> buffer" where
  "buf_read_u8 buf =
     (if buf_len buf < 1 then (-1, buf)
      else let ret = uint (the (b_data buf) ! nat (the (buf_bptr buf)))
           in (ret, snd (buf_advance buf 1)))"

definition buf_read_u16 :: "buffer \<Rightarrow> int \<times> buffer" where
  "buf_read_u16 buf =
     (case buf_read buf 2 of
        (None, buf) \<Rightarrow> (-1, buf)
      | (Some bs, buf) \<Rightarrow> (uint (ntohs bs), buf))"

definition buf_read_u32 :: "buffer \<Rightarrow> u32 \<times> bool \<times> buffer" where
  "buf_read_u32 buf =
     (case buf_read buf 4 of
        (None, buf) \<Rightarrow> (0, False, buf)
      | (Some bs, buf) \<Rightarrow> (ntohl bs, True, buf))"

definition buf_equal :: "buffer \<Rightarrow> buffer \<Rightarrow> bool" where
  "buf_equal a b \<longleftrightarrow> buf_len a = buf_len b \<and> buf_contents a = buf_contents b"

definition buf_string_match :: "buffer \<Rightarrow> bytes \<Rightarrow> bool" where
  "buf_string_match src match =
     (if int (length match) \<noteq> b_len src then False else buf_contents src = match)"

definition buf_string_match_head :: "buffer \<Rightarrow> bytes \<Rightarrow> bool" where
  "buf_string_match_head src match =
     (if int (length match) > b_len src then False
      else take (length match) (buf_contents src) = match)"

definition buf_string_compare_advance :: "buffer \<Rightarrow> bytes \<Rightarrow> bool \<times> buffer" where
  "buf_string_compare_advance src match =
     (if buf_string_match_head src match
      then (True, snd (buf_advance src (int (length match))))
      else (False, src))"

section \<open>Memory lemmas\<close>

lemma length_peek [simp]: "nat i + n \<le> length d \<Longrightarrow> length (peek d i n) = n"
  by (simp add: peek_def)

lemma length_poke [simp]: "nat i + length bs \<le> length d \<Longrightarrow> length (poke d i bs) = length d"
  by (simp add: poke_def)

lemma peek_poke_same:
  "nat i \<le> length d \<Longrightarrow> peek (poke d i bs) i (length bs) = bs"
  by (simp add: peek_def poke_def)

lemma peek_poke_append:
  assumes "0 \<le> i" "nat i + n \<le> length d"
  shows "peek (poke d (i + int n) bs) i (n + length bs) = peek d i n @ bs"
proof -
  have e: "nat (i + int n) = nat i + n" using assms(1) by (simp add: nat_add_distrib)
  have "drop (nat i) (take (nat i + n) d) = take n (drop (nat i) d)"
    by (simp add: drop_take)
  then show ?thesis using assms by (simp add: peek_def poke_def e min_absorb2)
qed

lemma peek_poke_prepend:
  assumes "0 \<le> i" "nat i + length bs \<le> length d"
  shows "peek (poke d i bs) i (length bs + n) = bs @ peek d (i + int (length bs)) n"
  using assms by (simp add: peek_def poke_def nat_add_distrib)

lemma peek_take: "k \<le> n \<Longrightarrow> take k (peek d i n) = peek d i k"
  by (simp add: peek_def min_absorb1)

lemma peek_drop: "0 \<le> i \<Longrightarrow> k \<le> n \<Longrightarrow> drop k (peek d i n) = peek d (i + int k) (n - k)"
  by (simp add: peek_def drop_take nat_add_distrib add.commute)

section \<open>The contract of a byte store\<close>

locale byte_store =
  fixes wf :: "'b \<Rightarrow> bool"
    and contents :: "'b \<Rightarrow> bytes"
    and tail_room :: "'b \<Rightarrow> nat"
    and head_room :: "'b \<Rightarrow> nat"
    and put :: "'b \<Rightarrow> bytes \<Rightarrow> bool \<times> 'b"
    and pre :: "'b \<Rightarrow> bytes \<Rightarrow> bool \<times> 'b"
    and take_from :: "'b \<Rightarrow> nat \<Rightarrow> bytes option \<times> 'b"
  assumes write_full: "wf b \<Longrightarrow> tail_room b < length bs \<Longrightarrow> put b bs = (False, b)"
    and write_room: "wf b \<Longrightarrow> length bs \<le> tail_room b \<Longrightarrow> \<exists>b'. put b bs = (True, b') \<and> wf b'
          \<and> contents b' = contents b @ bs \<and> tail_room b' = tail_room b - length bs \<and> head_room b' = head_room b"
    and prepend_full: "wf b \<Longrightarrow> head_room b < length bs \<Longrightarrow> pre b bs = (False, b)"
    and prepend_room: "wf b \<Longrightarrow> length bs \<le> head_room b \<Longrightarrow> \<exists>b'. pre b bs = (True, b') \<and> wf b'
          \<and> contents b' = bs @ contents b \<and> tail_room b' = tail_room b \<and> head_room b' = head_room b - length bs"
    and read_short: "wf b \<Longrightarrow> length (contents b) < n \<Longrightarrow> take_from b n = (None, b)"
    and read_enough: "wf b \<Longrightarrow> n \<le> length (contents b) \<Longrightarrow>
          \<exists>b'. take_from b n = (Some (take n (contents b)), b') \<and> wf b'
          \<and> contents b' = drop n (contents b) \<and> tail_room b' = tail_room b \<and> head_room b' = head_room b + n"
begin

lemma write_cases:
  assumes "wf b"
  obtains (full) "put b bs = (False, b)" "tail_room b < length bs"
  | (room) b' where "put b bs = (True, b')" "length bs \<le> tail_room b" "wf b'"
      "contents b' = contents b @ bs" "tail_room b' = tail_room b - length bs" "head_room b' = head_room b"
proof (cases "length bs \<le> tail_room b")
  case True
  then show ?thesis using write_room[OF assms True] that(2) by blast
next
  case False
  then show ?thesis using write_full[OF assms] that(1) by simp
qed

lemma write_true:
  assumes "wf b" "put b bs = (True, b')"
  shows "wf b' \<and> contents b' = contents b @ bs \<and> length bs \<le> tail_room b
    \<and> tail_room b' = tail_room b - length bs \<and> head_room b' = head_room b"
  using assms(2) by (cases rule: write_cases[OF assms(1), of bs]) auto

lemma prepend_true:
  assumes "wf b" "pre b bs = (True, b')"
  shows "wf b' \<and> contents b' = bs @ contents b \<and> length bs \<le> head_room b
    \<and> tail_room b' = tail_room b \<and> head_room b' = head_room b - length bs"
proof (cases "length bs \<le> head_room b")
  case True
  then show ?thesis using prepend_room[OF assms(1) True] assms(2) by auto
next
  case False
  then show ?thesis using prepend_full[OF assms(1)] assms(2) by auto
qed

lemma read_some:
  assumes "wf b" "take_from b n = (Some bs, b')"
  shows "wf b' \<and> contents b = bs @ contents b' \<and> length bs = n"
proof (cases "n \<le> length (contents b)")
  case True
  then show ?thesis using read_enough[OF assms(1) True] assms(2) by auto
next
  case False
  then show ?thesis using read_short[OF assms(1)] assms(2) by auto
qed

lemma read_prefix:
  assumes "wf b" "contents b = bs @ rest"
  obtains b' where "take_from b (length bs) = (Some bs, b')" "wf b'" "contents b' = rest"
    "tail_room b' = tail_room b" "head_room b' = head_room b + length bs"
  using read_enough[OF assms(1), of "length bs"] assms(2) by auto

text \<open>What was prepended is what the next take_from returns; what was written follows it.\<close>

lemma read_prepend:
  assumes "wf b" "pre b bs = (True, b')"
  obtains b'' where "take_from b' (length bs) = (Some bs, b'')" "wf b''" "contents b'' = contents b"
  using prepend_true[OF assms] read_prefix[of b' bs "contents b"] by metis

lemma read_write_empty:
  assumes "wf b" "contents b = []" "put b bs = (True, b')"
  obtains b'' where "take_from b' (length bs) = (Some bs, b'')" "wf b''" "contents b'' = []"
  using write_true[OF assms(1,3)] read_prefix[of b' bs "[]"] assms(2) by auto

end

section \<open>The packet buffer is a byte store\<close>

definition buf_wf :: "buffer \<Rightarrow> bool" where
  "buf_wf b \<longleftrightarrow> (case b_data b of None \<Rightarrow> False | Some d \<Rightarrow> int (length d) = b_capacity b)
     \<and> 0 \<le> b_offset b \<and> 0 \<le> b_len b \<and> b_offset b + b_len b \<le> b_capacity b
     \<and> b_capacity b < BUF_SIZE_MAX"

definition buf_back :: "buffer \<Rightarrow> nat" where
  "buf_back b = nat (b_capacity b - (b_offset b + b_len b))"

definition buf_front :: "buffer \<Rightarrow> nat" where
  "buf_front b = nat (b_offset b)"

lemma buf_wf_E:
  assumes "buf_wf b"
  obtains d where "b_data b = Some d" "int (length d) = b_capacity b" "0 \<le> b_offset b"
    "0 \<le> b_len b" "b_offset b + b_len b \<le> b_capacity b" "b_capacity b < BUF_SIZE_MAX"
  using assms by (auto simp: buf_wf_def split: option.splits)

lemma buf_wf_valid [simp]: "buf_wf b \<Longrightarrow> buf_valid b"
  by (auto simp: buf_wf_def buf_valid_def split: option.splits)

lemma buf_contents_wf: "buf_wf b \<Longrightarrow> b_data b = Some d \<Longrightarrow>
  buf_contents b = peek d (b_offset b) (nat (b_len b))"
  by (simp add: buf_contents_def buf_len_def)

lemma length_buf_contents: "buf_wf b \<Longrightarrow> int (length (buf_contents b)) = b_len b"
  by (erule buf_wf_E) (simp add: buf_contents_def buf_len_def buf_valid_def)

lemma buf_len_wf: "buf_wf b \<Longrightarrow> buf_len b = int (length (buf_contents b))"
  by (simp add: length_buf_contents buf_len_def)

lemma alloc_buf_wf:
  "alloc_buf n = Some b \<Longrightarrow> buf_wf b \<and> buf_contents b = [] \<and> buf_back b = n \<and> buf_front b = 0"
  by (auto simp: alloc_buf_def buf_wf_def buf_size_valid_def buf_contents_def buf_len_def
      buf_valid_def peek_def buf_back_def buf_front_def split: if_splits)

lemma buf_init_wf:
  assumes "buf_wf b" "buf_init_dowork b off = (True, b')"
  shows "buf_wf b' \<and> buf_contents b' = [] \<and> buf_front b' = nat off
    \<and> buf_back b' = nat (b_capacity b - off) \<and> b_capacity b' = b_capacity b"
  using assms by (auto simp: buf_init_dowork_def buf_wf_def buf_contents_def buf_len_def
      buf_valid_def peek_def buf_back_def buf_front_def split: if_splits option.splits)

lemma buf_init_ok:
  "buf_wf b \<Longrightarrow> fst (buf_init_dowork b off) \<longleftrightarrow> 0 \<le> off \<and> off \<le> b_capacity b"
  by (auto simp: buf_init_dowork_def buf_wf_def split: option.splits)

lemma buf_write_room:
  assumes wf: "buf_wf b" and room: "length bs \<le> buf_back b"
  shows "\<exists>b'. buf_write b bs = (True, b') \<and> buf_wf b' \<and> buf_contents b' = buf_contents b @ bs
    \<and> buf_back b' = buf_back b - length bs \<and> buf_front b' = buf_front b"
proof -
  obtain d where d: "b_data b = Some d" "int (length d) = b_capacity b" "0 \<le> b_offset b"
    "0 \<le> b_len b" "b_offset b + b_len b \<le> b_capacity b" "b_capacity b < BUF_SIZE_MAX"
    using wf by (rule buf_wf_E)
  let ?p = "b_offset b + b_len b"
  let ?b = "b\<lparr>b_len := b_len b + int (length bs), b_data := Some (poke d ?p bs)\<rparr>"
  have le: "?p + int (length bs) \<le> b_capacity b" using room d by (simp add: buf_back_def)
  have len: "nat ?p + length bs \<le> length d" using le d by simp
  have val: "buf_valid b" using wf by simp
  have safe: "buf_safe b (length bs)"
    using val le d by (simp add: buf_safe_def buf_size_valid_def)
  have bp: "buf_bptr b = Some (b_offset b)" using val by (simp add: buf_bptr_def)
  have "buf_write b bs = (True, ?b)"
    using safe bp d by (simp add: buf_write_def buf_write_alloc_def buf_poke_def)
  moreover have "buf_contents ?b = buf_contents b @ bs"
    using peek_poke_append[of "b_offset b" "nat (b_len b)" d bs] d len
    by (simp add: buf_contents_def buf_len_def buf_valid_def nat_add_distrib)
  moreover have "buf_wf ?b" using d le len by (simp add: buf_wf_def)
  moreover have "buf_back ?b = buf_back b - length bs" "buf_front ?b = buf_front b"
    using d le by (simp_all add: buf_back_def buf_front_def nat_diff_distrib)
  ultimately show ?thesis by blast
qed

lemma buf_prepend_room:
  assumes wf: "buf_wf b" and room: "length bs \<le> buf_front b"
  shows "\<exists>b'. buf_write_prepend b bs = (True, b') \<and> buf_wf b' \<and> buf_contents b' = bs @ buf_contents b
    \<and> buf_back b' = buf_back b \<and> buf_front b' = buf_front b - length bs"
proof -
  obtain d where d: "b_data b = Some d" "int (length d) = b_capacity b" "0 \<le> b_offset b"
    "0 \<le> b_len b" "b_offset b + b_len b \<le> b_capacity b" "b_capacity b < BUF_SIZE_MAX"
    using wf by (rule buf_wf_E)
  let ?p = "b_offset b - int (length bs)"
  let ?b = "b\<lparr>b_offset := ?p, b_len := b_len b + int (length bs), b_data := Some (poke d ?p bs)\<rparr>"
  have le: "0 \<le> ?p" using room d by (simp add: buf_front_def)
  have len: "nat ?p + length bs \<le> length d" using le d by simp
  have "buf_write_prepend b bs = (True, ?b)"
    using wf le d by (simp add: buf_write_prepend_def buf_prepend_def buf_bptr_def buf_valid_def buf_poke_def)
  moreover have "buf_contents ?b = bs @ buf_contents b"
    using peek_poke_prepend[of ?p bs d "nat (b_len b)"] d le len
    by (simp add: buf_contents_def buf_len_def buf_valid_def nat_add_distrib add.commute)
  moreover have "buf_wf ?b" using d le len by (simp add: buf_wf_def)
  moreover have "buf_back ?b = buf_back b" "buf_front ?b = buf_front b - length bs"
    using d le by (simp_all add: buf_back_def buf_front_def nat_diff_distrib)
  ultimately show ?thesis by blast
qed

lemma buf_advance_wf:
  assumes wf: "buf_wf b" and n: "n \<le> length (buf_contents b)"
  shows "\<exists>b'. buf_advance b (int n) = (True, b') \<and> buf_wf b' \<and> buf_contents b' = drop n (buf_contents b)
    \<and> buf_back b' = buf_back b \<and> buf_front b' = buf_front b + n"
proof -
  obtain d where d: "b_data b = Some d" "int (length d) = b_capacity b" "0 \<le> b_offset b"
    "0 \<le> b_len b" "b_offset b + b_len b \<le> b_capacity b" "b_capacity b < BUF_SIZE_MAX"
    using wf by (rule buf_wf_E)
  have n': "int n \<le> b_len b" using n length_buf_contents[OF wf] by simp
  let ?b = "b\<lparr>b_offset := b_offset b + int n, b_len := b_len b - int n\<rparr>"
  have "buf_advance b (int n) = (True, ?b)"
    using wf n' by (simp add: buf_advance_def)
  moreover have "buf_contents ?b = drop n (buf_contents b)"
    using d n' peek_drop[of "b_offset b" n "nat (b_len b)" d]
    by (simp add: buf_contents_def buf_len_def buf_valid_def nat_diff_distrib)
  moreover have "buf_wf ?b" using d n' by (simp add: buf_wf_def)
  moreover have "buf_back ?b = buf_back b" "buf_front ?b = buf_front b + n"
    using d n' by (simp_all add: buf_back_def buf_front_def nat_add_distrib)
  ultimately show ?thesis by blast
qed

lemma buf_read_enough:
  assumes wf: "buf_wf b" and n: "n \<le> length (buf_contents b)"
  shows "\<exists>b'. buf_read b n = (Some (take n (buf_contents b)), b') \<and> buf_wf b'
    \<and> buf_contents b' = drop n (buf_contents b)
    \<and> buf_back b' = buf_back b \<and> buf_front b' = buf_front b + n"
proof -
  obtain d where d: "b_data b = Some d" "0 \<le> b_offset b" "0 \<le> b_len b"
    using wf by (rule buf_wf_E)
  have n': "int n \<le> b_len b" using n length_buf_contents[OF wf] by simp
  obtain b' where b': "buf_advance b (int n) = (True, b')" "buf_wf b'"
    "buf_contents b' = drop n (buf_contents b)" "buf_back b' = buf_back b"
    "buf_front b' = buf_front b + n"
    using buf_advance_wf[OF assms] by blast
  have "buf_read b n = (Some (take n (buf_contents b)), b')"
    using b'(1) wf n' d peek_take[of n "nat (b_len b)" d "b_offset b"]
    by (auto simp: buf_read_def buf_read_alloc_def buf_advance_def buf_bptr_def
        buf_contents_wf[OF wf d(1)] split: if_splits)
  then show ?thesis using b' by blast
qed

interpretation buf: byte_store buf_wf buf_contents buf_back buf_front buf_write
  buf_write_prepend buf_read
proof (unfold_locales, goal_cases)
  case (1 b bs)
  then have "\<not> buf_safe b (length bs)"
    by (auto simp: buf_safe_def buf_back_def elim: buf_wf_E)
  then show ?case by (simp add: buf_write_def buf_write_alloc_def)
next
  case 2 then show ?case by (rule buf_write_room)
next
  case (3 b bs)
  then show ?case by (auto simp: buf_write_prepend_def buf_prepend_def buf_front_def)
next
  case 4 then show ?case by (rule buf_prepend_room)
next
  case (5 b n)
  then show ?case using length_buf_contents[of b]
    by (simp add: buf_read_def buf_read_alloc_def)
next
  case 6 then show ?case by (rule buf_read_enough)
qed

lemma buf_capacity_parts: "buf_wf b \<Longrightarrow>
  b_capacity b = int (buf_front b) + int (length (buf_contents b)) + int (buf_back b)"
  using length_buf_contents[of b] by (auto simp: buf_front_def buf_back_def elim!: buf_wf_E)

lemma buf_copy_n_wf:
  assumes d: "buf_wf d" "buf_contents d = []" and s: "buf_wf s" "n \<le> length (buf_contents s)"
    and room: "n \<le> buf_back d"
  obtains d' s' where "buf_copy_n d s (int n) = (True, d', s')" "buf_wf d'" "buf_wf s'"
    "buf_contents d' = take n (buf_contents s)" "buf_contents s' = drop n (buf_contents s)"
    "buf_front d' = buf_front d" "b_capacity d' = b_capacity d"
proof -
  obtain s' where s': "buf_read s n = (Some (take n (buf_contents s)), s')" "buf_wf s'"
    "buf_contents s' = drop n (buf_contents s)"
    using buf.read_enough[OF s] by blast
  have "n \<le> buf_back d \<Longrightarrow> length (take n (buf_contents s)) \<le> buf_back d" by simp
  from buf.write_room[OF d(1) this[OF room]]
  obtain d' where d': "buf_write d (take n (buf_contents s)) = (True, d')" "buf_wf d'"
    "buf_contents d' = take n (buf_contents s)" "buf_back d' = buf_back d - n" "buf_front d' = buf_front d"
    using d(2) s(2) by auto
  have "buf_copy_n d s (int n) = (True, d', s')"
    using s'(1) d'(1) by (auto simp: buf_read_def buf_copy_n_def split: option.splits prod.splits)
  moreover have "b_capacity d' = b_capacity d"
    using buf_capacity_parts[OF d(1)] buf_capacity_parts[OF d'(2)] d'(3-5) d(2) s(2) room by simp
  ultimately show ?thesis using that s' d' by blast
qed

subsection \<open>Reserved parts of a buffer\<close>

lemma buf_full_data:
  assumes "buf_wf b" "buf_front b = 0" "buf_back b = 0"
  shows "b_data b = Some (buf_contents b)"
proof -
  obtain d where d: "b_data b = Some d" "int (length d) = b_capacity b" "0 \<le> b_offset b"
    using assms(1) by (rule buf_wf_E)
  then have "b_offset b = 0" using assms(2) by (simp add: buf_front_def)
  moreover have "length d = length (buf_contents b)"
    using buf_capacity_parts[OF assms(1)] d assms(2,3) by simp
  ultimately show ?thesis using d buf_contents_wf[OF assms(1) d(1)] length_buf_contents[OF assms(1)]
    by (simp add: peek_def)
qed

lemma buf_sub_room:
  assumes wf: "buf_wf b" and n: "n \<le> (if prepend then buf_front b else buf_back b)"
  obtains sub b1 p where "buf_sub b (int n) prepend = (sub, b1, p)" "buf_defined sub" "buf_wf sub"
    "buf_contents sub = []" "buf_back sub = n" "buf_front sub = 0"
    "\<And>sub'. buf_wf sub' \<Longrightarrow> buf_front sub' = 0 \<Longrightarrow> buf_back sub' = 0 \<Longrightarrow> length (buf_contents sub') = n \<Longrightarrow>
      buf_wf (buf_sub_done sub' b1 p) \<and> buf_contents (buf_sub_done sub' b1 p) =
        (if prepend then buf_contents sub' @ buf_contents b else buf_contents b @ buf_contents sub')"
proof -
  obtain d where d: "b_data b = Some d" "int (length d) = b_capacity b" "0 \<le> b_offset b"
    "0 \<le> b_len b" "b_offset b + b_len b \<le> b_capacity b" "b_capacity b < BUF_SIZE_MAX"
    using wf by (rule buf_wf_E)
  have val: "buf_valid b" using wf by simp
  let ?p = "if prepend then b_offset b - int n else b_offset b + b_len b"
  let ?b = "if prepend then b\<lparr>b_offset := ?p, b_len := b_len b + int n\<rparr> else b\<lparr>b_len := b_len b + int n\<rparr>"
  let ?sub = "clear_buf\<lparr>b_capacity := int n, b_data := Some (peek d ?p n)\<rparr>"
  have nn: "int n < BUF_SIZE_MAX" using n d by (auto simp: buf_front_def buf_back_def split: if_splits)
  have room: "0 \<le> ?p" "nat ?p + n \<le> length d"
    using n d by (auto simp: buf_front_def buf_back_def split: if_splits)
  have "buf_sub b (int n) prepend = (?sub, ?b, ?p)"
  proof (cases prepend)
    case True
    then have "int n \<le> b_offset b" using n d by (simp add: buf_front_def)
    then show ?thesis using True d val
      by (simp add: buf_sub_def buf_write_alloc_prepend_def buf_prepend_def buf_bptr_def buf_valid_def Let_def)
  next
    case False
    then have "b_offset b + b_len b + int n \<le> b_capacity b" using n d by (simp add: buf_back_def)
    then show ?thesis using False d val nn
      by (simp add: buf_sub_def buf_write_alloc_prepend_def buf_write_alloc_def buf_safe_def
          buf_size_valid_def buf_bptr_def)
  qed
  moreover have "buf_defined ?sub" by (simp add: buf_defined_def)
  moreover have "buf_wf ?sub" using room nn by (simp add: buf_wf_def clear_buf_def)
  moreover have "buf_contents ?sub = []" "buf_back ?sub = n" "buf_front ?sub = 0"
    by (simp_all add: buf_contents_def buf_len_def buf_valid_def clear_buf_def peek_def
        buf_back_def buf_front_def)
  moreover have "buf_wf (buf_sub_done sub' ?b ?p) \<and> buf_contents (buf_sub_done sub' ?b ?p) =
        (if prepend then buf_contents sub' @ buf_contents b else buf_contents b @ buf_contents sub')"
    if s: "buf_wf sub'" "buf_front sub' = 0" "buf_back sub' = 0" "length (buf_contents sub') = n" for sub'
  proof -
    have dt: "b_data sub' = Some (buf_contents sub')" by (rule buf_full_data) (use s in auto)
    have e: "buf_sub_done sub' ?b ?p = ?b\<lparr>b_data := Some (poke d ?p (buf_contents sub'))\<rparr>"
      using dt d(1) by (simp add: buf_sub_done_def buf_poke_def)
    have w: "buf_wf (buf_sub_done sub' ?b ?p)"
      unfolding e using d room s(4) n by (auto simp: buf_wf_def buf_front_def buf_back_def split: if_splits)
    show ?thesis
    proof (cases prepend)
      case True
      then have "peek (poke d ?p (buf_contents sub')) ?p (n + nat (b_len b))
          = buf_contents sub' @ peek d (?p + int n) (nat (b_len b))"
        using peek_poke_prepend[of ?p "buf_contents sub'" d "nat (b_len b)"] room s(4) by simp
      then show ?thesis using w True d n s(4) unfolding e
        by (simp add: buf_contents_def buf_len_def buf_valid_def nat_add_distrib buf_front_def add.commute)
    next
      case False
      then show ?thesis using w d room s(4) peek_poke_append[of "b_offset b" "nat (b_len b)" d "buf_contents sub'"]
        unfolding e by (simp add: buf_contents_def buf_len_def buf_valid_def nat_add_distrib)
    qed
  qed
  ultimately show ?thesis by (rule that)
qed

lemma buf_sub_full:
  assumes "buf_wf b" "n > (if prepend then buf_front b else buf_back b)"
  shows "buf_sub b (int n) prepend = (clear_buf, b, 0)" "\<not> buf_defined clear_buf"
  using assms by (auto simp: buf_sub_def buf_write_alloc_prepend_def buf_prepend_def
        buf_write_alloc_def buf_safe_def buf_front_def buf_back_def buf_defined_def clear_buf_def elim!: buf_wf_E)

section \<open>Wire formats over the packet buffer\<close>

text \<open>
  A wire format: an encoding as bytes and a reader that takes the encoding off the front of a
  buffer. The law is the round trip; it follows that the encoding is prefix free and that what
  was written to an empty buffer or prepended to any buffer is read back.
\<close>

locale buffer_codec =
  fixes valid :: "'a \<Rightarrow> bool"
    and enc :: "'a \<Rightarrow> bytes"
    and get :: "buffer \<Rightarrow> ('a \<times> buffer) option"
  assumes get_enc: "valid x \<Longrightarrow> buf_wf b \<Longrightarrow> buf_contents b = enc x @ rest \<Longrightarrow>
      \<exists>b'. get b = Some (x, b') \<and> buf_wf b' \<and> buf_contents b' = rest"
begin

lemma enc_prefix_free:
  assumes "valid x" "valid y" "buf_wf b" "buf_contents b = enc x @ r" "enc x @ r = enc y @ s"
  shows "x = y \<and> r = s"
proof -
  obtain b1 where b1: "get b = Some (x, b1)" "buf_contents b1 = r"
    using get_enc[OF assms(1,3,4)] by blast
  obtain b2 where "get b = Some (y, b2)" "buf_contents b2 = s"
    using get_enc[OF assms(2,3), of s] assms(4,5) by metis
  then show ?thesis using b1 by simp
qed

lemma get_write_empty:
  assumes "valid x" "buf_wf b" "buf_contents b = []" "buf_write b (enc x) = (True, b')"
  obtains b'' where "get b' = Some (x, b'')" "buf_wf b''" "buf_contents b'' = []"
proof -
  have "buf_wf b'" "buf_contents b' = enc x @ []" using buf.write_true[OF assms(2,4)] assms(3) by simp_all
  from get_enc[OF assms(1) this] show ?thesis using that by blast
qed

lemma get_prepend:
  assumes "valid x" "buf_wf b" "buf_write_prepend b (enc x) = (True, b')"
  obtains b'' where "get b' = Some (x, b'')" "buf_wf b''" "buf_contents b'' = buf_contents b"
proof -
  have "buf_wf b'" "buf_contents b' = enc x @ buf_contents b" using buf.prepend_true[OF assms(2,3)] by simp_all
  from get_enc[OF assms(1) this] show ?thesis using that by blast
qed

end

end
