(* ===== verification/Packet_Id.thy ===== *)
theory Packet_Id
  imports Circ_List Buffer
begin

text \<open>
  Packet identifiers and the replay filter (\<open>packet_id.h\<close>, \<open>packet_id.c\<close>), and the check
  \<open>crypto_check_replay\<close> of \<open>crypto.c\<close> that drives it for every received packet. The global
  clock \<open>now\<close> is an argument. \<open>time_t\<close> is \<open>int\<close>; packet ids are 32 bit words.

  The receiver keeps the highest time and id and a window of arrival times, newest first,
  in which 0 marks an id that was not seen and 1 an id that has expired.
\<close>

section \<open>State\<close>

record packet_id_rec =
  last_reap :: int
  rec_time :: int
  rec_id :: u32
  seq_backtrack :: int
  time_backtrack :: int
  max_backtrack_stat :: int
  initialized :: bool
  seq_list :: "int circ_list option"

record packet_id_send =
  send_id :: u32
  send_time :: int

record packet_id_net =
  net_id :: u32
  net_time :: int

record packet_id =
  pid_send :: packet_id_send
  pid_rec :: packet_id_rec

definition PACKET_ID_MAX :: u32 where "PACKET_ID_MAX = - 1"
definition PACKET_ID_WRAP_TRIGGER :: u32 where "PACKET_ID_WRAP_TRIGGER = 0xFF000000"
definition SEQ_UNSEEN :: int where "SEQ_UNSEEN = 0"
definition SEQ_EXPIRED :: int where "SEQ_EXPIRED = 1"
definition SEQ_REAP_INTERVAL :: int where "SEQ_REAP_INTERVAL = 5"
definition MIN_SEQ_BACKTRACK :: int where "MIN_SEQ_BACKTRACK = 0"
definition MAX_SEQ_BACKTRACK :: int where "MAX_SEQ_BACKTRACK = 65536"
definition MIN_TIME_BACKTRACK :: int where "MIN_TIME_BACKTRACK = 0"
definition MAX_TIME_BACKTRACK :: int where "MAX_TIME_BACKTRACK = 600"

definition packet_id_rec_zero :: packet_id_rec where
  "packet_id_rec_zero = \<lparr>last_reap = 0, rec_time = 0, rec_id = 0, seq_backtrack = 0,
     time_backtrack = 0, max_backtrack_stat = 0, initialized = False, seq_list = None\<rparr>"

section \<open>The receive filter\<close>

definition packet_id_init :: "int \<Rightarrow> int \<Rightarrow> packet_id option" where
  "packet_id_init seq_bt time_bt = do {
     let r = packet_id_rec_zero;
     r \<leftarrow> (if seq_bt \<noteq> 0 then do {
             ASSERT (MIN_SEQ_BACKTRACK \<le> seq_bt \<and> seq_bt \<le> MAX_SEQ_BACKTRACK);
             ASSERT (MIN_TIME_BACKTRACK \<le> time_bt \<and> time_bt \<le> MAX_TIME_BACKTRACK);
             Some (r\<lparr>seq_list := Some (CIRC_LIST_ALLOC 0 seq_bt),
                     seq_backtrack := seq_bt, time_backtrack := time_bt\<rparr>) }
           else Some r);
     Some \<lparr>pid_send = \<lparr>send_id = 0, send_time = 0\<rparr>, pid_rec = r\<lparr>initialized := True\<rparr>\<rparr> }"

definition packet_id_free :: "packet_id \<Rightarrow> packet_id" where
  "packet_id_free p = \<lparr>pid_send = \<lparr>send_id = 0, send_time = 0\<rparr>, pid_rec = packet_id_rec_zero\<rparr>"

text \<open>The loop of \<open>packet_id_add\<close>: one unseen entry for each id up to the new one.\<close>

function push_unseen :: "u32 \<Rightarrow> u32 \<Rightarrow> int circ_list \<Rightarrow> (u32 \<times> int circ_list) option" where
  "push_unseen target i q =
     (if i < target
      then do { q \<leftarrow> CIRC_LIST_PUSH q SEQ_UNSEEN; push_unseen target (i + 1) q }
      else Some (i, q))"
  by pat_completeness auto
termination
proof (relation "measure (\<lambda>(target, i, q). unat target - unat i)", goal_cases)
  case (2 target i q q')
  then have "unat (i + 1) = Suc (unat i)" "unat i < unat target"
    by (auto simp: word_less_nat_alt unat_plus_one)
  then show ?case by simp
qed simp

definition packet_id_add :: "int \<Rightarrow> packet_id_rec \<Rightarrow> packet_id_net \<Rightarrow> packet_id_rec option" where
  "packet_id_add now p pin =
     (case seq_list p of
        Some q \<Rightarrow> do {
          let bt = (word_of_int (seq_backtrack p) :: u32);
          let (p, q) =
            (if CIRC_LIST_SIZE q = 0 \<or> net_time pin > rec_time p
                \<or> (net_id pin \<ge> bt \<and> net_id pin - bt > rec_id p)
             then (p\<lparr>rec_time := net_time pin,
                     rec_id := (if net_id pin > bt then net_id pin - bt else 0)\<rparr>,
                   CIRC_LIST_RESET q)
             else (p, q));
          (i, q) \<leftarrow> push_unseen (net_id pin) (rec_id p) q;
          let p = p\<lparr>rec_id := i\<rparr>;
          let diff = rec_id p - net_id pin;
          q \<leftarrow> (if diff < word_of_int (CIRC_LIST_SIZE q) \<and> now > SEQ_EXPIRED
                then CIRC_LIST_STORE q (sint diff) now else Some q);
          Some (p\<lparr>seq_list := Some q\<rparr>) }
      | None \<Rightarrow> Some (p\<lparr>rec_time := net_time pin, rec_id := net_id pin\<rparr>))"

text \<open>The loop of \<open>packet_id_reap\<close> from index \<open>i\<close>.\<close>

function reap_loop :: "int \<Rightarrow> int \<Rightarrow> int \<Rightarrow> bool \<Rightarrow> int circ_list \<Rightarrow> int circ_list option" where
  "reap_loop now tb i expire q =
     (if i < CIRC_LIST_SIZE q
      then do {
        t \<leftarrow> CIRC_LIST_ITEM q i;
        if t = SEQ_EXPIRED then Some q
        else do {
          let expire = (if \<not> expire \<and> t \<noteq> 0 \<and> t + tb < now then True else expire);
          q' \<leftarrow> (if expire then CIRC_LIST_STORE q i SEQ_EXPIRED else Some q);
          reap_loop now tb (i + 1) expire q' } }
      else Some q)"
  by pat_completeness auto

lemma CIRC_LIST_STORE_size: "CIRC_LIST_STORE q i v = Some q' \<Longrightarrow> CIRC_LIST_SIZE q' = CIRC_LIST_SIZE q"
  by (auto simp: CIRC_LIST_STORE_def CIRC_LIST_SIZE_def aborts)

termination reap_loop
  by (relation "measure (\<lambda>(now, tb, i, expire, q). nat (CIRC_LIST_SIZE q - i))")
    (auto split: if_splits dest: CIRC_LIST_STORE_size)

definition packet_id_reap :: "int \<Rightarrow> packet_id_rec \<Rightarrow> packet_id_rec option" where
  "packet_id_reap now p = do {
     p \<leftarrow> (if time_backtrack p \<noteq> 0 then do {
             q \<leftarrow> seq_list p;
             q \<leftarrow> reap_loop now (time_backtrack p) 0 False q;
             Some (p\<lparr>seq_list := Some q\<rparr>) }
           else Some p);
     Some (p\<lparr>last_reap := now\<rparr>) }"

definition packet_id_reap_test :: "int \<Rightarrow> packet_id_rec \<Rightarrow> packet_id_rec option" where
  "packet_id_reap_test now p =
     (if last_reap p + SEQ_REAP_INTERVAL \<le> now then packet_id_reap now p else Some p)"

definition packet_id_test :: "packet_id_rec \<Rightarrow> packet_id_net \<Rightarrow> (bool \<times> packet_id_rec) option" where
  "packet_id_test p pin = do {
     ASSERT (initialized p);
     if net_id pin = 0 then Some (False, p)
     else if seq_backtrack p \<noteq> 0 then
       (if net_time pin = rec_time p then
          (if net_id pin > rec_id p then Some (True, p)
           else do {
             let diff = rec_id p - net_id pin;
             let p = (if sint diff > max_backtrack_stat p
                      then p\<lparr>max_backtrack_stat := sint diff\<rparr> else p);
             q \<leftarrow> seq_list p;
             if diff \<ge> word_of_int (CIRC_LIST_SIZE q) then Some (False, p)
             else do {
               v \<leftarrow> CIRC_LIST_ITEM q (sint diff);
               Some (v = 0, p) } })
        else if net_time pin < rec_time p then Some (False, p)
        else Some (True, p))
     else
       (if net_time pin = rec_time p
        then Some (rec_id p = 0 \<or> net_id pin = rec_id p + 1, p)
        else if net_time pin < rec_time p then Some (False, p)
        else Some (net_id pin = 1, p)) }"

section \<open>Sending\<close>

definition packet_id_send_update :: "int \<Rightarrow> packet_id_send \<Rightarrow> bool \<Rightarrow> bool \<times> packet_id_send" where
  "packet_id_send_update now p long_form =
     (let p = (if send_time p = 0 then p\<lparr>send_time := now\<rparr> else p) in
      if send_id p = PACKET_ID_MAX then
        (if \<not> long_form \<or> now \<le> send_time p then (False, p)
         else (True, p\<lparr>send_time := now, send_id := 0 + 1\<rparr>))
      else (True, p\<lparr>send_id := send_id p + 1\<rparr>))"

definition htontime :: "int \<Rightarrow> bytes" where
  "htontime t = htonl (word_of_int t)"

definition ntohtime :: "bytes \<Rightarrow> int" where
  "ntohtime bs = uint (ntohl bs)"

definition packet_id_write ::
  "int \<Rightarrow> packet_id_send \<Rightarrow> buffer \<Rightarrow> bool \<Rightarrow> bool \<Rightarrow> bool \<times> packet_id_send \<times> buffer" where
  "packet_id_write now p buf long_form prepend =
     (case packet_id_send_update now p long_form of
        (False, p) \<Rightarrow> (False, p, buf)
      | (True, p) \<Rightarrow>
          let nid = htonl (send_id p); ntime = htontime (send_time p) in
          if prepend then
            (case (if long_form then buf_write_prepend buf ntime else (True, buf)) of
               (False, buf) \<Rightarrow> (False, p, buf)
             | (True, buf) \<Rightarrow>
                 (case buf_write_prepend buf nid of (ok, buf) \<Rightarrow> (ok, p, buf)))
          else
            (case buf_write buf nid of
               (False, buf) \<Rightarrow> (False, p, buf)
             | (True, buf) \<Rightarrow>
                 (case (if long_form then buf_write buf ntime else (True, buf)) of
                    (ok, buf) \<Rightarrow> (ok, p, buf))))"

definition packet_id_read :: "buffer \<Rightarrow> bool \<Rightarrow> bool \<times> packet_id_net \<times> buffer" where
  "packet_id_read buf long_form =
     (let pin = \<lparr>net_id = 0, net_time = 0\<rparr> in
      case buf_read buf 4 of
        (None, buf) \<Rightarrow> (False, pin, buf)
      | (Some nid, buf) \<Rightarrow>
          let pin = pin\<lparr>net_id := ntohl nid\<rparr> in
          if long_form then
            (case buf_read buf 4 of
               (None, buf) \<Rightarrow> (False, pin, buf)
             | (Some nt, buf) \<Rightarrow> (True, pin\<lparr>net_time := ntohtime nt\<rparr>, buf))
          else (True, pin, buf))"

definition packet_id_size :: "bool \<Rightarrow> nat" where
  "packet_id_size long_form = 4 + (if long_form then 4 else 0)"

definition reset_packet_id_send :: "packet_id_send \<Rightarrow> packet_id_send" where
  "reset_packet_id_send p = p\<lparr>send_time := 0, send_id := 0\<rparr>"

definition packet_id_close_to_wrapping :: "packet_id_send \<Rightarrow> bool" where
  "packet_id_close_to_wrapping p \<longleftrightarrow> send_id p \<ge> PACKET_ID_WRAP_TRIGGER"

definition check_timestamp_delta :: "int \<Rightarrow> int \<Rightarrow> u32 \<Rightarrow> bool" where
  "check_timestamp_delta now remote max_delta =
     (let d = (if now \<ge> remote then word_of_int (now - remote) else word_of_int (remote - now) :: u32)
      in d \<le> max_delta)"

section \<open>Persistence\<close>

text \<open>
  The replay-persist file. Opening, locking, reading, seeking and writing are the operating
  system's: their results are arguments (the descriptor, the image when a whole image was
  read, whether the seek and the write succeeded).
\<close>

record packet_id_persist =
  pp_fd :: int
  pp_time :: int
  pp_id :: u32
  pp_time_last_written :: int
  pp_id_last_written :: u32

definition packet_id_persist_init :: packet_id_persist where
  "packet_id_persist_init = \<lparr>pp_fd = -1, pp_time = 0, pp_id = 0,
     pp_time_last_written = 0, pp_id_last_written = 0\<rparr>"

definition packet_id_persist_enabled :: "packet_id_persist \<Rightarrow> bool" where
  "packet_id_persist_enabled p \<longleftrightarrow> pp_fd p \<ge> 0"

definition packet_id_persist_close :: "packet_id_persist \<Rightarrow> packet_id_persist" where
  "packet_id_persist_close p =
     (if packet_id_persist_enabled p then packet_id_persist_init else p)"

definition packet_id_persist_load ::
  "packet_id_persist \<Rightarrow> int \<Rightarrow> bool \<Rightarrow> (int \<times> u32) option \<Rightarrow> packet_id_persist option" where
  "packet_id_persist_load p fd locked img =
     (if \<not> packet_id_persist_enabled p then
        let p = p\<lparr>pp_fd := fd\<rparr> in
        if pp_fd p = -1 then Some p
        else do {
          ASSERT locked;
          Some (case img of
                  Some (t, i) \<Rightarrow> p\<lparr>pp_time := t, pp_time_last_written := t,
                                    pp_id := i, pp_id_last_written := i\<rparr>
                | None \<Rightarrow> p) }
      else Some p)"

definition packet_id_persist_save ::
  "packet_id_persist \<Rightarrow> bool \<Rightarrow> bool \<Rightarrow> packet_id_persist \<times> (int \<times> u32) option" where
  "packet_id_persist_save p seek_ok write_ok =
     (if packet_id_persist_enabled p \<and> pp_time p \<noteq> 0
         \<and> (pp_time p \<noteq> pp_time_last_written p \<or> pp_id p \<noteq> pp_id_last_written p)
      then if seek_ok \<and> write_ok
           then (p\<lparr>pp_time_last_written := pp_time p, pp_id_last_written := pp_id p\<rparr>,
                 Some (pp_time p, pp_id p))
           else (p, None)
      else (p, None))"

definition packet_id_persist_load_obj :: "packet_id_persist \<Rightarrow> packet_id \<Rightarrow> packet_id" where
  "packet_id_persist_load_obj p pid =
     (if packet_id_persist_enabled p \<and> pp_time p \<noteq> 0
      then pid\<lparr>pid_rec := (pid_rec pid)\<lparr>rec_time := pp_time p, rec_id := pp_id p\<rparr>\<rparr>
      else pid)"

definition packet_id_persist_save_obj :: "packet_id_persist \<Rightarrow> packet_id \<Rightarrow> packet_id_persist" where
  "packet_id_persist_save_obj p pid =
     (if packet_id_persist_enabled p \<and> rec_time (pid_rec pid) \<noteq> 0
      then p\<lparr>pp_time := rec_time (pid_rec pid), pp_id := rec_id (pid_rec pid)\<rparr>
      else p)"

section \<open>The check of a received packet\<close>

record crypto_replay =
  cr_packet_id :: packet_id
  cr_pid_persist :: "packet_id_persist option"
  cr_long_form :: bool

definition crypto_check_replay ::
  "int \<Rightarrow> crypto_replay \<Rightarrow> packet_id_net \<Rightarrow> (bool \<times> crypto_replay) option" where
  "crypto_check_replay now opt pin = do {
     r \<leftarrow> packet_id_reap_test now (pid_rec (cr_packet_id opt));
     (ok, r) \<leftarrow> packet_id_test r pin;
     if ok then do {
       r \<leftarrow> packet_id_add now r pin;
       let opt = opt\<lparr>cr_packet_id := (cr_packet_id opt)\<lparr>pid_rec := r\<rparr>\<rparr>;
       Some (True, case cr_pid_persist opt of
                     Some pp \<Rightarrow> if cr_long_form opt
                       then opt\<lparr>cr_pid_persist := Some (packet_id_persist_save_obj pp (cr_packet_id opt))\<rparr>
                       else opt
                   | None \<Rightarrow> opt) }
     else Some (False, opt\<lparr>cr_packet_id := (cr_packet_id opt)\<lparr>pid_rec := r\<rparr>\<rparr>) }"

end
