(* ===== verification/Replay.thy ===== *)
theory Replay
  imports Packet_Id
begin

text \<open>
  The replay filter accepts no packet identifier twice. The window is used through the
  contract \<open>circ_window\<close> only; the conclusion is the one of the locale \<open>replay_guard\<close>,
  interpreted on the check that \<open>crypto.c\<close> makes for every received packet.
\<close>

section \<open>The invariant of the receiver\<close>

definition pid_win :: "packet_id_rec \<Rightarrow> int list" where
  "pid_win p = (case seq_list p of None \<Rightarrow> [] | Some q \<Rightarrow> circ_win q)"

definition pid_shape :: "packet_id_rec \<Rightarrow> bool" where
  "pid_shape p \<longleftrightarrow> initialized p \<and>
     (case seq_list p of
        None \<Rightarrow> seq_backtrack p = 0 \<and> time_backtrack p = 0
      | Some q \<Rightarrow> circ_inv q \<and> x_cap q = seq_backtrack p \<and> 0 < seq_backtrack p
          \<and> seq_backtrack p \<le> MAX_SEQ_BACKTRACK)"

definition pid_inv :: "packet_id_rec \<Rightarrow> bool" where
  "pid_inv p \<longleftrightarrow> pid_shape p \<and> (seq_list p \<noteq> None \<and> pid_win p = [] \<longrightarrow> rec_id p = 0)"

text \<open>An identifier that the receiver will never accept again.\<close>

definition pid_covered :: "packet_id_rec \<Rightarrow> packet_id_net \<Rightarrow> bool" where
  "pid_covered p k \<longleftrightarrow> net_id k \<noteq> 0 \<and>
     (net_time k < rec_time p \<or>
      net_time k = rec_time p \<and> net_id k \<le> rec_id p \<and>
      (seq_list p = None \<or> length (pid_win p) \<le> unat (rec_id p - net_id k)
         \<or> pid_win p ! unat (rec_id p - net_id k) \<noteq> 0))"

lemma pid_shape_Some:
  assumes "pid_shape p" "seq_list p = Some q"
  shows "circ_inv q" "x_cap q = seq_backtrack p" "circ_cap q = nat (seq_backtrack p)"
    "0 < seq_backtrack p" "seq_backtrack p \<le> 65536"
    "unat (word_of_int (seq_backtrack p) :: u32) = nat (seq_backtrack p)"
    "length (circ_win q) \<le> nat (seq_backtrack p)"
    "unat (word_of_int (CIRC_LIST_SIZE q) :: u32) = length (circ_win q)"
proof -
  show a: "circ_inv q" "x_cap q = seq_backtrack p" "circ_cap q = nat (seq_backtrack p)"
    "0 < seq_backtrack p" "seq_backtrack p \<le> 65536"
    using assms by (auto simp: pid_shape_def MAX_SEQ_BACKTRACK_def circ_cap_def)
  show b: "length (circ_win q) \<le> nat (seq_backtrack p)"
    using circ.win_bound[OF a(1)] a(3) by simp
  show "unat (word_of_int (seq_backtrack p) :: u32) = nat (seq_backtrack p)"
    by (rule unat_of_int32) (use a in auto)
  have "length (circ_win q) \<le> 65536" using a(5) b by linarith
  then have "int (length (circ_win q)) < 2 ^ 32" by simp
  then show "unat (word_of_int (CIRC_LIST_SIZE q) :: u32) = length (circ_win q)"
    unfolding circ_size[OF a(1)] by (subst unat_of_int32) auto
qed

lemma pid_inv_shape [simp]: "pid_inv p \<Longrightarrow> pid_shape p"
  by (simp add: pid_inv_def)

lemma pid_inv_empty: "pid_inv p \<Longrightarrow> seq_list p = Some q \<Longrightarrow> circ_win q = [] \<Longrightarrow> rec_id p = 0"
  by (simp add: pid_inv_def pid_win_def)

section \<open>The test\<close>

lemma packet_id_test_window:
  assumes inv: "pid_shape p" and q: "seq_list p = Some q"
  shows "\<exists>s. packet_id_test p k = Some
     (net_id k \<noteq> 0 \<and> (net_time k > rec_time p \<or> net_time k = rec_time p \<and>
        (net_id k > rec_id p \<or> unat (rec_id p - net_id k) < length (circ_win q)
           \<and> circ_win q ! unat (rec_id p - net_id k) = 0)), p\<lparr>max_backtrack_stat := s\<rparr>)"
proof -
  note i = pid_shape_Some[OF inv q]
  let ?d = "rec_id p - net_id k"
  have stat: "\<exists>s. (if c then p\<lparr>max_backtrack_stat := x\<rparr> else p) = p\<lparr>max_backtrack_stat := s\<rparr>" for c x
    by (cases c) (auto intro: exI[of _ "max_backtrack_stat p"])
  have item: "unat ?d < length (circ_win q) \<Longrightarrow>
      CIRC_LIST_ITEM q (sint ?d) = Some (circ_win q ! unat ?d)"
    using circ.item_win[OF i(1), of "sint ?d"] sint_small[of ?d] i(5,7) by simp
  have refl: "\<exists>s. p = p\<lparr>max_backtrack_stat := s\<rparr>"
    by (rule exI[of _ "max_backtrack_stat p"]) simp
  have init: "initialized p" "seq_backtrack p \<noteq> 0" using inv i(4) by (auto simp: pid_shape_def)
  show ?thesis
  proof (cases "net_id k = 0 \<or> net_time k \<noteq> rec_time p \<or> net_id k > rec_id p")
    case True
    then show ?thesis using init refl
      by (auto simp: packet_id_test_def not_less Let_def)
  next
    case False
    show ?thesis
    proof (cases "unat ?d < length (circ_win q)")
      case True
      then have "\<not> word_of_int (CIRC_LIST_SIZE q) \<le> ?d"
        using i(8) by (simp add: word_le_nat_alt)
      then show ?thesis
        using False True item[OF True] init q stat refl
        by (auto simp: packet_id_test_def Let_def split: if_splits)
    next
      case big: False
      then have "word_of_int (CIRC_LIST_SIZE q) \<le> ?d"
        using i(8) by (simp add: word_le_nat_alt)
      then show ?thesis
        using False big init q stat refl by (auto simp: packet_id_test_def Let_def)
    qed
  qed
qed

lemma packet_id_test_linear:
  assumes "pid_shape p" "seq_list p = None"
  shows "packet_id_test p k = Some
     (net_id k \<noteq> 0 \<and> (net_time k > rec_time p \<and> net_id k = 1 \<or> net_time k = rec_time p \<and>
        (rec_id p = 0 \<or> net_id k = rec_id p + 1)), p)"
  using assms by (auto simp: packet_id_test_def pid_shape_def)

lemma pid_shape_stat [simp]: "pid_shape (p\<lparr>max_backtrack_stat := s\<rparr>) = pid_shape p"
  by (simp add: pid_shape_def cong: option.case_cong)

lemma pid_inv_stat [simp]: "pid_inv (p\<lparr>max_backtrack_stat := s\<rparr>) = pid_inv p"
  by (simp add: pid_inv_def pid_win_def cong: option.case_cong)

lemma pid_covered_stat [simp]: "pid_covered (p\<lparr>max_backtrack_stat := s\<rparr>) k = pid_covered p k"
  by (simp add: pid_covered_def pid_win_def)

lemma packet_id_test_stat:
  assumes inv: "pid_inv p" and t: "packet_id_test p k = Some (ok, p')"
  shows "\<exists>p''. packet_id_test (p\<lparr>max_backtrack_stat := s\<rparr>) k = Some (ok, p'')"
proof (cases "seq_list p")
  case None
  then show ?thesis
    using packet_id_test_linear[OF pid_inv_shape[OF inv], of k] packet_id_test_linear[of "p\<lparr>max_backtrack_stat := s\<rparr>" k]
      inv t by simp
next
  case (Some q)
  then show ?thesis
    using packet_id_test_window[OF pid_inv_shape[OF inv], of q k]
      packet_id_test_window[of "p\<lparr>max_backtrack_stat := s\<rparr>" q k] inv t by auto
qed

lemma packet_id_test_total:
  assumes "pid_inv p"
  obtains ok s where "packet_id_test p k = Some (ok, p\<lparr>max_backtrack_stat := s\<rparr>)"
proof (cases "seq_list p")
  case None
  have "p = p\<lparr>max_backtrack_stat := max_backtrack_stat p\<rparr>" by simp
  then show ?thesis using packet_id_test_linear[OF pid_inv_shape[OF assms] None, of k] that by metis
next
  case (Some q)
  then show ?thesis using packet_id_test_window[OF pid_inv_shape[OF assms] Some, of k] that by blast
qed

lemma packet_id_test_covered:
  assumes "pid_inv p" "packet_id_test p k = Some (True, p')"
  shows "net_id k \<noteq> 0 \<and> \<not> pid_covered p k"
proof (cases "seq_list p")
  case None
  have "rec_id p + 1 \<le> rec_id p \<Longrightarrow> rec_id p + 1 = 0"
    by (metis less_le_not_le linorder_not_le word_less_nat_alt lessI unatSuc add.commute)
  then show ?thesis
    using packet_id_test_linear[OF pid_inv_shape[OF assms(1)] None, of k] assms(2) None
    by (auto simp: pid_covered_def)
next
  case (Some q)
  then show ?thesis
    using packet_id_test_window[OF pid_inv_shape[OF assms(1)] Some, of k] assms(2)
    by (auto simp: pid_covered_def pid_win_def)
qed

section \<open>Recording an accepted packet\<close>

declare push_unseen.simps [simp del] reap_loop.simps [simp del]

lemma circ_cap_eqD: "circ_inv q \<Longrightarrow> circ_inv q' \<Longrightarrow> circ_cap q' = circ_cap q \<Longrightarrow> x_cap q' = x_cap q"
  by (auto simp: circ_inv_def circ_cap_def)

lemma push_unseen_win:
  "circ_inv q \<Longrightarrow> i \<le> target \<Longrightarrow> \<exists>q'. push_unseen target i q = Some (target, q') \<and> circ_inv q'
     \<and> circ_cap q' = circ_cap q
     \<and> circ_win q' = take (circ_cap q) (replicate (unat target - unat i) 0 @ circ_win q)"
proof (induction target i q rule: push_unseen.induct)
  case (1 target i q)
  show ?case
  proof (cases "i < target")
    case True
    obtain q1 where q1: "CIRC_LIST_PUSH q SEQ_UNSEEN = Some q1" "circ_inv q1"
      "circ_cap q1 = circ_cap q" "circ_win q1 = take (circ_cap q) (SEQ_UNSEEN # circ_win q)"
      using circ.push_E[OF "1.prems"(1)] by metis
    have le: "i + 1 \<le> target" and k: "unat target - unat i = Suc (unat target - unat (i + 1))"
      using True unat_plus_one[OF True] by (auto simp: word_le_nat_alt word_less_nat_alt)
    obtain q' where q': "push_unseen target (i + 1) q1 = Some (target, q')" "circ_inv q'"
      "circ_cap q' = circ_cap q1"
      "circ_win q' = take (circ_cap q1) (replicate (unat target - unat (i + 1)) 0 @ circ_win q1)"
      using "1.IH"[OF True q1(1) q1(2) le] by blast
    have "circ_win q' = take (circ_cap q) (replicate (unat target - unat i) 0 @ circ_win q)"
      unfolding q'(4) q1(3,4) k
      by (simp add: take_take_append SEQ_UNSEEN_def replicate_app_Cons_same[symmetric]
          del: replicate_app_Cons_same take_append take_Suc_Cons)
    then show ?thesis using True q1 q'
      by (subst push_unseen.simps) auto
  next
    case False
    then have "i = target" using "1.prems"(2) by simp
    then show ?thesis using "1.prems" False circ.win_bound[of q]
      by (subst push_unseen.simps) auto
  qed
qed

lemma add_store:
  fixes d :: u32
  assumes "circ_inv q" "unat d < length (circ_win q)" "length (circ_win q) \<le> 65536"
  obtains q' where "d < word_of_int (CIRC_LIST_SIZE q)" "CIRC_LIST_STORE q (sint d) v = Some q'"
    "circ_inv q'" "circ_cap q' = circ_cap q" "circ_win q' = (circ_win q)[unat d := v]"
proof -
  have "unat (word_of_int (CIRC_LIST_SIZE q) :: u32) = length (circ_win q)"
    unfolding circ_size[OF assms(1)] using assms(3) by (subst unat_of_int32) auto
  then have "d < word_of_int (CIRC_LIST_SIZE q)" using assms(2) by (simp add: word_less_nat_alt)
  moreover have "sint d = uint d" using assms by (intro sint_small) simp
  ultimately show ?thesis
    using circ.store_win[OF assms(1), of "sint d" v] assms(2) that by auto
qed

lemma unat_diff_add:
  "k \<le> n \<Longrightarrow> n \<le> i \<Longrightarrow> unat (i - k) = (unat i - unat n) + unat (n - k)" for i n k :: u32
  by (simp add: unat_minus word_le_nat_alt)

text \<open>Case 1 of \<open>packet_id_add\<close>: the window starts anew below the new identifier.\<close>

lemma packet_id_add_restart:
  assumes inv: "pid_shape p" and q: "seq_list p = Some q" and k0: "net_id k \<noteq> 0" and now: "1 < now"
    and restart: "circ_win q = [] \<or> net_time k > rec_time p \<or>
      (net_id k \<ge> word_of_int (seq_backtrack p)
        \<and> net_id k - word_of_int (seq_backtrack p) > rec_id p)"
  obtains q' n where "packet_id_add now p k
      = Some (p\<lparr>rec_time := net_time k, rec_id := net_id k, seq_list := Some q'\<rparr>)"
    "circ_inv q'" "circ_cap q' = circ_cap q" "circ_win q' = (replicate n 0)[0 := now]"
    "0 < n" "n \<le> nat (seq_backtrack p)" "n = min (unat (net_id k)) (nat (seq_backtrack p))"
proof -
  note i = pid_shape_Some[OF inv q]
  let ?bt = "word_of_int (seq_backtrack p) :: u32"
  let ?i1 = "if net_id k > ?bt then net_id k - ?bt else 0"
  let ?n = "unat (net_id k) - unat ?i1"
  have n: "0 < ?n" "?n \<le> nat (seq_backtrack p)" and le: "?i1 \<le> net_id k"
    using k0 i(4,6) by (auto simp: word_less_nat_alt word_le_nat_alt unat_minus unat_gt_0)
  have nn: "?n = min (unat (net_id k)) (nat (seq_backtrack p))"
    using i(6) by (auto simp: word_less_nat_alt word_le_nat_alt unat_minus)
  have c: "CIRC_LIST_SIZE q = 0 \<or> net_time k > rec_time p \<or>
      (net_id k \<ge> ?bt \<and> net_id k - ?bt > rec_id p)"
    using restart by (auto simp: circ_size[OF i(1)])
  have rs: "circ_inv (CIRC_LIST_RESET q)" "circ_cap (CIRC_LIST_RESET q) = circ_cap q"
    "circ_win (CIRC_LIST_RESET q) = []"
    using circ.reset_win[OF i(1)] by auto
  obtain q1 where q1: "push_unseen (net_id k) ?i1 (CIRC_LIST_RESET q) = Some (net_id k, q1)"
    "circ_inv q1" "circ_cap q1 = circ_cap q" "circ_win q1 = replicate ?n 0"
    using push_unseen_win[OF rs(1) le] rs n(2) i(3) by auto
  have "unat (0::u32) < length (circ_win q1)" "length (circ_win q1) \<le> 65536"
    using q1(4) n i(5) by auto
  then obtain q2 where q2: "(0::u32) < word_of_int (CIRC_LIST_SIZE q1)"
    "CIRC_LIST_STORE q1 (sint (0::u32)) now = Some q2"
    "circ_inv q2" "circ_cap q2 = circ_cap q1" "circ_win q2 = (replicate ?n 0)[0 := now]"
    using add_store[OF q1(2), of 0 now] q1(4) by (metis unat_0)
  have "packet_id_add now p k
      = Some (p\<lparr>rec_time := net_time k, rec_id := net_id k, seq_list := Some q2\<rparr>)"
    using c q q1(1) q2(1,2) now by (simp add: packet_id_add_def Let_def SEQ_EXPIRED_def)
  then show ?thesis using q2 q1(3) n nn that by metis
qed

text \<open>Case 2: the window is kept; it moves when the identifier is the highest so far.\<close>

lemma packet_id_add_keep:
  assumes inv: "pid_shape p" and q: "seq_list p = Some q" and now: "1 < now"
    and keep: "circ_win q \<noteq> []" "net_time k = rec_time p"
      "\<not> (net_id k \<ge> word_of_int (seq_backtrack p)
        \<and> net_id k - word_of_int (seq_backtrack p) > rec_id p)"
    and new: "net_id k > rec_id p \<or> unat (rec_id p - net_id k) < length (circ_win q)"
  obtains q' where "packet_id_add now p k
      = Some (p\<lparr>rec_id := max (rec_id p) (net_id k), seq_list := Some q'\<rparr>)"
    "circ_inv q'" "circ_cap q' = circ_cap q"
    "circ_win q' = (take (circ_cap q) (replicate (unat (net_id k) - unat (rec_id p)) 0 @ circ_win q))
       [unat (max (rec_id p) (net_id k) - net_id k) := now]"
proof -
  note i = pid_shape_Some[OF inv q]
  let ?m = "max (rec_id p) (net_id k)"
  let ?w = "take (circ_cap q) (replicate (unat (net_id k) - unat (rec_id p)) 0 @ circ_win q)"
  obtain q1 where q1: "push_unseen (net_id k) (rec_id p) q = Some (?m, q1)"
    "circ_inv q1" "circ_cap q1 = circ_cap q" "circ_win q1 = ?w"
  proof (cases "rec_id p \<le> net_id k")
    case True
    then show ?thesis using push_unseen_win[OF i(1) True] that by (auto simp: max_def)
  next
    case False
    then have "push_unseen (net_id k) (rec_id p) q = Some (?m, q)"
      by (subst push_unseen.simps) (auto simp: max_def)
    moreover have "?w = circ_win q" using False circ.win_bound[OF i(1)]
      by (simp add: word_le_nat_alt)
    ultimately show ?thesis using that i(1) by simp
  qed
  have d: "unat (?m - net_id k) < length (circ_win q1)"
    using new keep(1) i(3,4,7) q1(4)
    by (auto simp: max_def word_le_nat_alt word_less_nat_alt)
  have l: "length (circ_win q1) \<le> 65536"
    using circ.win_bound[OF q1(2)] q1(3) i(3,5) by simp
  obtain q2 where q2: "?m - net_id k < word_of_int (CIRC_LIST_SIZE q1)"
    "CIRC_LIST_STORE q1 (sint (?m - net_id k)) now = Some q2"
    "circ_inv q2" "circ_cap q2 = circ_cap q1"
    "circ_win q2 = (circ_win q1)[unat (?m - net_id k) := now]"
    using add_store[OF q1(2) d l] by metis
  have "CIRC_LIST_SIZE q \<noteq> 0" using keep(1) by (simp add: circ_size[OF i(1)])
  then have "packet_id_add now p k = Some (p\<lparr>rec_id := ?m, seq_list := Some q2\<rparr>)"
    using keep q q1(1) q2(1,2) now
    by (cases "net_id k \<ge> word_of_int (seq_backtrack p)")
      (simp_all add: packet_id_add_def Let_def SEQ_EXPIRED_def)
  then show ?thesis using q2 q1 that by metis
qed

text \<open>Both cases keep the invariant, cover the new identifier and keep what was covered.\<close>

lemma packet_id_add_window:
  assumes inv: "pid_inv p" and q: "seq_list p = Some q" and now: "1 < now"
    and acc: "packet_id_test p k = Some (True, p0)"
  shows "\<exists>p'. packet_id_add now p k = Some p' \<and> pid_inv p' \<and> pid_covered p' k
    \<and> (\<forall>k'. pid_covered p k' \<longrightarrow> pid_covered p' k')"
proof -
  note i = pid_shape_Some[OF pid_inv_shape[OF inv] q]
  let ?bt = "word_of_int (seq_backtrack p) :: u32"
  have k0: "net_id k \<noteq> 0" and new: "net_time k > rec_time p \<or> net_time k = rec_time p \<and>
      (net_id k > rec_id p \<or> unat (rec_id p - net_id k) < length (circ_win q))"
    using packet_id_test_window[OF pid_inv_shape[OF inv] q, of k] acc by auto
  show ?thesis
  proof (cases "circ_win q = [] \<or> net_time k > rec_time p \<or>
      (net_id k \<ge> ?bt \<and> net_id k - ?bt > rec_id p)")
    case True
    obtain q' n where r: "packet_id_add now p k
        = Some (p\<lparr>rec_time := net_time k, rec_id := net_id k, seq_list := Some q'\<rparr>)"
      "circ_inv q'" "circ_cap q' = circ_cap q" "circ_win q' = (replicate n 0)[0 := now]"
      "0 < n" "n \<le> nat (seq_backtrack p)"
      using packet_id_add_restart[OF pid_inv_shape[OF inv] q k0 now True] by metis
    let ?p = "p\<lparr>rec_time := net_time k, rec_id := net_id k, seq_list := Some q'\<rparr>"
    have "pid_inv ?p"
      using inv q r circ_cap_eqD[OF i(1) r(2,3)] by (auto simp: pid_inv_def pid_shape_def pid_win_def)
    moreover have "pid_covered ?p k"
      using k0 r(4,5) now by (simp add: pid_covered_def pid_win_def)
    moreover have "pid_covered ?p k'" if c: "pid_covered p k'" for k'
    proof (cases "net_time k' < net_time k")
      case True
      then show ?thesis using c by (simp add: pid_covered_def)
    next
      case False
      then have t: "net_time k' = rec_time p" "net_time k = rec_time p"
        and k': "net_id k' \<noteq> 0" "net_id k' \<le> rec_id p"
        using c new by (auto simp: pid_covered_def)
      then have "circ_win q \<noteq> []" using pid_inv_empty[OF inv q] by auto
      then have far: "net_id k \<ge> ?bt" "net_id k - ?bt > rec_id p" using True t by auto
      then have "nat (seq_backtrack p) + unat (rec_id p) < unat (net_id k)"
        using i(6) by (simp add: word_le_nat_alt word_less_nat_alt unat_minus)
      then have "net_id k' \<le> net_id k" "n \<le> unat (net_id k - net_id k')"
        using k'(2) r(6) by (auto simp: word_le_nat_alt unat_minus)
      then show ?thesis using t k' r(4) by (simp add: pid_covered_def pid_win_def)
    qed
    ultimately show ?thesis using r(1) by blast
  next
    case False
    then have keep: "circ_win q \<noteq> []" "net_time k = rec_time p"
      "\<not> (net_id k \<ge> ?bt \<and> net_id k - ?bt > rec_id p)" using new by auto
    have new': "net_id k > rec_id p \<or> unat (rec_id p - net_id k) < length (circ_win q)"
      using new keep(2) by auto
    let ?m = "max (rec_id p) (net_id k)"
    let ?j = "unat (net_id k) - unat (rec_id p)"
    let ?w = "take (circ_cap q) (replicate ?j 0 @ circ_win q)"
    obtain q' where r: "packet_id_add now p k = Some (p\<lparr>rec_id := ?m, seq_list := Some q'\<rparr>)"
      "circ_inv q'" "circ_cap q' = circ_cap q" "circ_win q' = ?w[unat (?m - net_id k) := now]"
      using packet_id_add_keep[OF pid_inv_shape[OF inv] q now keep new'] by metis
    let ?p = "p\<lparr>rec_id := ?m, seq_list := Some q'\<rparr>"
    have lw: "length (circ_win q') = min (circ_cap q) (?j + length (circ_win q))"
      by (simp add: r(4) min.commute)
    have "0 < length (circ_win q')" using lw keep(1) i(3,4) by (simp add: min_def)
    then have "pid_inv ?p"
      using inv q r circ_cap_eqD[OF i(1) r(2,3)] by (auto simp: pid_inv_def pid_shape_def pid_win_def)
    moreover have d: "unat (?m - net_id k) < length (circ_win q')"
      using new' keep(1) lw i(3,4,7) by (auto simp: max_def)
    then have "circ_win q' ! unat (?m - net_id k) = now" using r(4) by simp
    then have "pid_covered ?p k"
      using k0 keep(2) now by (simp add: pid_covered_def pid_win_def)
    moreover have "pid_covered ?p k'" if c: "pid_covered p k'" for k'
    proof (cases "net_time k' < rec_time p")
      case True
      then show ?thesis using c by (simp add: pid_covered_def)
    next
      case False
      then have k': "net_time k' = rec_time p" "net_id k' \<noteq> 0" "net_id k' \<le> rec_id p"
        and slot: "length (circ_win q) \<le> unat (rec_id p - net_id k')
          \<or> circ_win q ! unat (rec_id p - net_id k') \<noteq> 0"
        using c q by (auto simp: pid_covered_def pid_win_def)
      have m: "unat (?m - net_id k') = ?j + unat (rec_id p - net_id k')"
        using k'(3) unat_diff_add[of "net_id k'" "rec_id p" "net_id k"]
        by (auto simp: max_def word_le_nat_alt)
      have "length (circ_win q') \<le> unat (?m - net_id k') \<or> circ_win q' ! unat (?m - net_id k') \<noteq> 0"
      proof (cases "unat (?m - net_id k') < length (circ_win q')")
        case True
        then have "?w ! unat (?m - net_id k') = (replicate ?j 0 @ circ_win q) ! unat (?m - net_id k')"
          using lw by (intro nth_take) simp
        then have "?w ! unat (?m - net_id k') = circ_win q ! unat (rec_id p - net_id k')"
          using m by (simp add: nth_append)
        moreover have "unat (rec_id p - net_id k') < length (circ_win q)"
          using True lw m by simp
        moreover have "circ_win q' ! unat (?m - net_id k') = (if unat (?m - net_id k) =
            unat (?m - net_id k') then now else ?w ! unat (?m - net_id k'))"
          unfolding r(4) by (rule nth_list_update) (use d r(4) in simp)
        ultimately show ?thesis using slot now by (auto simp del: take_append)
      qed simp
      then show ?thesis using k' by (auto simp: pid_covered_def pid_win_def max_def)
    qed
    ultimately show ?thesis using r(1) by blast
  qed
qed

lemma packet_id_add_linear:
  assumes inv: "pid_inv p" and q: "seq_list p = None"
    and acc: "packet_id_test p k = Some (True, p0)"
  shows "\<exists>p'. packet_id_add now p k = Some p' \<and> pid_inv p' \<and> pid_covered p' k
    \<and> (\<forall>k'. pid_covered p k' \<longrightarrow> pid_covered p' k')"
proof -
  let ?p = "p\<lparr>rec_time := net_time k, rec_id := net_id k\<rparr>"
  have k: "net_id k \<noteq> 0" "net_time k > rec_time p \<or> net_time k = rec_time p \<and>
      (rec_id p = 0 \<or> net_id k = rec_id p + 1)"
    using packet_id_test_linear[OF pid_inv_shape[OF inv] q, of k] acc by auto
  have le: "rec_id p \<le> rec_id p + 1" if "rec_id p + 1 \<noteq> 0"
    using that unatSuc[of "rec_id p"] by (simp add: word_le_nat_alt add.commute)
  have "packet_id_add now p k = Some ?p" using q by (simp add: packet_id_add_def)
  moreover have "pid_inv ?p" using inv q by (simp add: pid_inv_def pid_shape_def pid_win_def)
  moreover have "pid_covered ?p k" using k q by (simp add: pid_covered_def)
  moreover have "\<forall>k'. pid_covered p k' \<longrightarrow> pid_covered ?p k'"
    using k q le by (auto simp: pid_covered_def intro: order_trans)
  ultimately show ?thesis by blast
qed

section \<open>Expiry\<close>

lemma reap_loop_win:
  "circ_inv q \<Longrightarrow> 0 \<le> i \<Longrightarrow> \<exists>q'. reap_loop now tb i ex q = Some q' \<and> circ_inv q'
     \<and> circ_cap q' = circ_cap q \<and> length (circ_win q') = length (circ_win q)
     \<and> (\<forall>j < length (circ_win q). circ_win q ! j \<noteq> 0 \<longrightarrow> circ_win q' ! j \<noteq> 0)"
proof (induction now tb i ex q rule: reap_loop.induct)
  case (1 now tb i ex q)
  show ?case
  proof (cases "i < CIRC_LIST_SIZE q")
    case False
    then show ?thesis using "1.prems" by (subst reap_loop.simps) auto
  next
    case True
    then have il: "i < int (length (circ_win q))" using circ_size[OF "1.prems"(1)] by simp
    obtain t where t: "CIRC_LIST_ITEM q i = Some t" "t = circ_win q ! nat i"
      using circ.item_win[OF "1.prems"(1), of i] "1.prems"(2) il by simp
    show ?thesis
    proof (cases "t = SEQ_EXPIRED")
      case tx: True
      then show ?thesis using "1.prems" True t by (subst reap_loop.simps) auto
    next
      case tx: False
      define ex' where "ex' = (if \<not> ex \<and> t \<noteq> 0 \<and> t + tb < now then True else ex)"
      obtain q1 where q1: "(if ex' then CIRC_LIST_STORE q i SEQ_EXPIRED else Some q) = Some q1"
        "circ_inv q1" "circ_cap q1 = circ_cap q" "length (circ_win q1) = length (circ_win q)"
        "\<forall>j < length (circ_win q). circ_win q ! j \<noteq> 0 \<longrightarrow> circ_win q1 ! j \<noteq> 0"
      proof (cases ex')
        case True
        obtain q1 where s: "CIRC_LIST_STORE q i SEQ_EXPIRED = Some q1" "circ_inv q1"
          "circ_cap q1 = circ_cap q" "circ_win q1 = (circ_win q)[nat i := SEQ_EXPIRED]"
          using circ.store_E[OF "1.prems" il] by metis
        have "nat i < length (circ_win q)" using il "1.prems"(2) by (simp add: nat_less_iff)
        then show ?thesis
          by (intro that[of q1]) (use s True in \<open>auto simp: nth_list_update SEQ_EXPIRED_def\<close>)
      next
        case False
        then show ?thesis using that[of q] "1.prems" by simp
      qed
      obtain q' where q': "reap_loop now tb (i + 1) ex' q1 = Some q'" "circ_inv q'"
        "circ_cap q' = circ_cap q1" "length (circ_win q') = length (circ_win q1)"
        "\<forall>j < length (circ_win q1). circ_win q1 ! j \<noteq> 0 \<longrightarrow> circ_win q' ! j \<noteq> 0"
        using "1.IH"[OF True t(1) tx ex'_def q1(1) q1(2)] "1.prems"(2) by auto
      have "reap_loop now tb i ex q = Some q'"
        using True t(1) tx q1(1) q'(1)
        by (subst reap_loop.simps) (simp add: Let_def ex'_def[symmetric])
      then show ?thesis using q' q1 by auto
    qed
  qed
qed

lemma packet_id_reap_step:
  assumes inv: "pid_inv p"
  shows "\<exists>p'. packet_id_reap_test now p = Some p' \<and> pid_inv p'
    \<and> (\<forall>k. pid_covered p k \<longrightarrow> pid_covered p' k)"
proof (cases "last_reap p + SEQ_REAP_INTERVAL \<le> now \<and> time_backtrack p \<noteq> 0")
  case False
  then show ?thesis using inv
    by (auto simp: packet_id_reap_test_def packet_id_reap_def pid_inv_def pid_shape_def pid_covered_def pid_win_def
        cong: option.case_cong)
next
  case True
  then obtain q where q: "seq_list p = Some q" using inv by (auto simp: pid_inv_def pid_shape_def pid_win_def split: option.splits)
  note i = pid_shape_Some[OF pid_inv_shape[OF inv] q]
  obtain q' where q': "reap_loop now (time_backtrack p) 0 False q = Some q'" "circ_inv q'"
    "circ_cap q' = circ_cap q" "length (circ_win q') = length (circ_win q)"
    "\<forall>j < length (circ_win q). circ_win q ! j \<noteq> 0 \<longrightarrow> circ_win q' ! j \<noteq> 0"
    using reap_loop_win[OF i(1), of 0] by blast
  let ?p = "p\<lparr>seq_list := Some q', last_reap := now\<rparr>"
  have "packet_id_reap_test now p = Some ?p"
    using True q q'(1) by (simp add: packet_id_reap_test_def packet_id_reap_def)
  moreover have "pid_inv ?p"
    using inv q q' pid_inv_empty[OF inv q] circ_cap_eqD[OF i(1) q'(2,3)] by (auto simp: pid_inv_def pid_shape_def pid_win_def)
  moreover have "\<forall>k. pid_covered p k \<longrightarrow> pid_covered ?p k"
    using q q'(4,5) by (auto simp: pid_covered_def pid_win_def not_le)
  ultimately show ?thesis by blast
qed

section \<open>The check of a received packet\<close>

definition replay_inv :: "crypto_replay \<Rightarrow> bool" where
  "replay_inv opt \<longleftrightarrow> pid_inv (pid_rec (cr_packet_id opt))"

definition replay_covered :: "crypto_replay \<Rightarrow> packet_id_net \<Rightarrow> bool" where
  "replay_covered opt k \<longleftrightarrow> pid_covered (pid_rec (cr_packet_id opt)) k"

text \<open>A received packet: the clock at its arrival and its identifier.\<close>

definition replay_step ::
  "int \<times> packet_id_net \<Rightarrow> crypto_replay \<Rightarrow> (packet_id_net option \<times> crypto_replay) option" where
  "replay_step e opt = (case e of (now, k) \<Rightarrow> do {
     (ok, opt) \<leftarrow> crypto_check_replay now opt k;
     Some (if ok then Some k else None, opt) })"

lemma crypto_check_replay_step:
  assumes inv: "replay_inv opt" and now: "1 < now"
  shows "\<exists>ok opt'. crypto_check_replay now opt k = Some (ok, opt') \<and> replay_inv opt'
    \<and> (ok \<longrightarrow> \<not> replay_covered opt k \<and> replay_covered opt' k)
    \<and> (\<forall>k'. replay_covered opt k' \<longrightarrow> replay_covered opt' k')"
proof -
  let ?r = "pid_rec (cr_packet_id opt)"
  have i: "pid_inv ?r" using inv by (simp add: replay_inv_def)
  obtain r1 where r1: "packet_id_reap_test now ?r = Some r1" "pid_inv r1"
    "\<forall>k. pid_covered ?r k \<longrightarrow> pid_covered r1 k"
    using packet_id_reap_step[OF i] by blast
  obtain ok s where t: "packet_id_test r1 k = Some (ok, r1\<lparr>max_backtrack_stat := s\<rparr>)"
    using packet_id_test_total[OF r1(2)] by metis
  let ?r2 = "r1\<lparr>max_backtrack_stat := s\<rparr>"
  show ?thesis
  proof (cases ok)
    case False
    then show ?thesis using r1 t
      by (auto simp: crypto_check_replay_def replay_inv_def replay_covered_def)
  next
    case True
    have fresh: "\<not> pid_covered r1 k" using packet_id_test_covered[OF r1(2), of k] t True by simp
    have i2: "pid_inv ?r2" using r1(2) by simp
    obtain p0 where acc: "packet_id_test ?r2 k = Some (True, p0)"
      using packet_id_test_stat[OF r1(2) t, of s] True by auto
    have "\<exists>p'. packet_id_add now ?r2 k = Some p' \<and> pid_inv p' \<and> pid_covered p' k
      \<and> (\<forall>k'. pid_covered ?r2 k' \<longrightarrow> pid_covered p' k')"
      using packet_id_add_linear[OF i2 _ acc] packet_id_add_window[OF i2 _ now acc]
      by (cases "seq_list ?r2") blast+
    then obtain p' where p': "packet_id_add now ?r2 k = Some p'" "pid_inv p'" "pid_covered p' k"
      "\<forall>k'. pid_covered r1 k' \<longrightarrow> pid_covered p' k'"
      by auto
    then show ?thesis using r1 t True fresh
      by (auto simp: crypto_check_replay_def replay_inv_def replay_covered_def Let_def split: option.splits)
  qed
qed

interpretation replay: replay_guard replay_inv replay_covered "\<lambda>(now, k). 1 < now" replay_step
proof (unfold_locales, goal_cases)
  case (1 s e)
  then show ?case using crypto_check_replay_step[of s "fst e" "snd e"]
    by (cases e) (auto simp: replay_step_def)
next
  case (2 s e k s')
  then show ?case using crypto_check_replay_step[of s "fst e" "snd e"]
    by (cases e) (auto simp: replay_step_def split: if_splits)
next
  case (3 s e r s' k)
  then show ?case using crypto_check_replay_step[of s "fst e" "snd e"]
    by (cases e) (auto simp: replay_step_def)
qed

lemma packet_id_init_inv:
  assumes "packet_id_init bt tb = Some pid"
  shows "pid_inv (pid_rec pid)"
  using assms circ_alloc[of bt "0::int"]
  by (auto simp: packet_id_init_def Let_def pid_inv_def pid_shape_def pid_win_def packet_id_rec_zero_def MIN_SEQ_BACKTRACK_def
      CIRC_LIST_ALLOC_def split: if_splits)

definition replay_start :: "packet_id \<Rightarrow> packet_id_persist option \<Rightarrow> bool \<Rightarrow> crypto_replay" where
  "replay_start pid pp lf = \<lparr>cr_packet_id = pid, cr_pid_persist = pp, cr_long_form = lf\<rparr>"

text \<open>
  C1. Replay protection. From the state that \<open>packet_id_init\<close> leaves, in the window mode (UDP)
  as well as in the linear mode (TCP, no backtrack), any sequence of received packets, with any
  identifiers and any clock past the reserved values 0 and 1, is handled without a failed
  assertion, and no packet identifier is accepted twice.
\<close>

theorem packet_id_no_replay:
  assumes "packet_id_init seq_bt time_bt = Some pid"
    and "\<forall>(now, k) \<in> set events. 1 < now"
  shows "\<exists>accepted opt. run_receiver replay_step events (replay_start pid pp lf) = Some (accepted, opt)
    \<and> distinct accepted"
proof -
  have "replay_inv (replay_start pid pp lf)"
    using packet_id_init_inv[OF assms(1)] by (simp add: replay_inv_def replay_start_def)
  from replay.run_no_replay[OF this] assms(2) show ?thesis by fastforce
qed

lemma packet_id_no_replay_witness:
  "\<exists>pid accepted opt. packet_id_init 64 15 = Some pid
    \<and> run_receiver replay_step [(10, \<lparr>net_id = 1, net_time = 5\<rparr>), (10, \<lparr>net_id = 1, net_time = 5\<rparr>)]
        (replay_start pid None True) = Some (accepted, opt) \<and> distinct accepted"
proof -
  obtain pid where p: "packet_id_init 64 15 = Some pid"
    by (simp add: packet_id_init_def MIN_SEQ_BACKTRACK_def MAX_SEQ_BACKTRACK_def
        MIN_TIME_BACKTRACK_def MAX_TIME_BACKTRACK_def)
  show ?thesis
    using p packet_id_no_replay[OF p, of "[(10, \<lparr>net_id = 1, net_time = 5\<rparr>), (10, \<lparr>net_id = 1, net_time = 5\<rparr>)]"
        None True] by auto
qed

end
