(* ===== verification/Packet_Id_Props.thy ===== *)
theory Packet_Id_Props
  imports Replay
begin

text \<open>
  The send side of \<open>packet_id.c\<close> (identifiers never repeat), the wire form of packet
  identifiers, and what the persisted state of a receiver does and does not protect.
\<close>

section \<open>The wire form\<close>

definition packet_id_enc :: "bool \<Rightarrow> packet_id_net \<Rightarrow> bytes" where
  "packet_id_enc long_form k = htonl (net_id k) @ (if long_form then htontime (net_time k) else [])"

definition packet_id_wire :: "bool \<Rightarrow> packet_id_net \<Rightarrow> bool" where
  "packet_id_wire long_form k \<longleftrightarrow>
     (if long_form then 0 \<le> net_time k \<and> net_time k < 2 ^ 32 else net_time k = 0)"

definition packet_id_get :: "bool \<Rightarrow> buffer \<Rightarrow> (packet_id_net \<times> buffer) option" where
  "packet_id_get long_form b =
     (case packet_id_read b long_form of (ok, k, b) \<Rightarrow> if ok then Some (k, b) else None)"

lemma ntohtime_htontime: "0 \<le> t \<Longrightarrow> t < 2 ^ 32 \<Longrightarrow> ntohtime (htontime t) = t"
  by (simp add: ntohtime_def htontime_def uint_word_of_int)

lemma length_htontime [simp]: "length (htontime t) = 4"
  by (simp add: htontime_def)

lemma length_packet_id_enc: "length (packet_id_enc lf k) = packet_id_size lf"
  by (simp add: packet_id_enc_def packet_id_size_def)

lemma packet_id_read_enc:
  assumes "packet_id_wire lf k" "buf_wf b" "buf_contents b = packet_id_enc lf k @ rest"
  shows "\<exists>b'. packet_id_read b lf = (True, k, b') \<and> buf_wf b' \<and> buf_contents b' = rest"
proof -
  let ?r = "(if lf then htontime (net_time k) else []) @ rest"
  have "buf_contents b = htonl (net_id k) @ ?r" using assms(3) by (simp add: packet_id_enc_def)
  from buf.read_prefix[OF assms(2) this]
  obtain b1 where b1: "buf_read b 4 = (Some (htonl (net_id k)), b1)" "buf_wf b1" "buf_contents b1 = ?r"
    by (metis length_htonl)
  show ?thesis
  proof (cases lf)
    case True
    then have "buf_contents b1 = htontime (net_time k) @ rest" using b1(3) by simp
    from buf.read_prefix[OF b1(2) this]
    obtain b2 where "buf_read b1 4 = (Some (htontime (net_time k)), b2)" "buf_wf b2"
      "buf_contents b2 = rest" by (metis length_htontime)
    then show ?thesis using b1(1) assms(1) True
      by (simp add: packet_id_read_def ntohtime_htontime packet_id_wire_def)
  next
    case False
    then show ?thesis using b1 assms(1) by (simp add: packet_id_read_def packet_id_wire_def)
  qed
qed

interpretation pid_codec: buffer_codec "packet_id_wire lf" "packet_id_enc lf" "packet_id_get lf" for lf
proof (unfold_locales, goal_cases)
  case (1 x b rest)
  then show ?case using packet_id_read_enc[of lf x b rest] by (auto simp: packet_id_get_def)
qed

lemma packet_id_write_contents:
  assumes wf: "buf_wf b" and w: "packet_id_write now p b lf prep = (True, p', b')"
  shows "packet_id_send_update now p lf = (True, p') \<and> buf_wf b' \<and> buf_contents b' =
    (if prep then packet_id_enc lf \<lparr>net_id = send_id p', net_time = send_time p'\<rparr> @ buf_contents b
     else buf_contents b @ packet_id_enc lf \<lparr>net_id = send_id p', net_time = send_time p'\<rparr>)"
proof (cases prep)
  case True
  then obtain b1 where s: "packet_id_send_update now p lf = (True, p')"
    and b1: "(if lf then buf_write_prepend b (htontime (send_time p')) else (True, b)) = (True, b1)"
      "buf_write_prepend b1 (htonl (send_id p')) = (True, b')"
    using w by (auto simp: packet_id_write_def Let_def split: prod.splits bool.splits if_splits)
  have "buf_wf b1 \<and> buf_contents b1 = (if lf then htontime (send_time p') else []) @ buf_contents b"
    using b1(1) wf buf.prepend_true[OF wf] by (auto split: if_splits)
  then show ?thesis using buf.prepend_true[of b1, OF _ b1(2)] s True by (simp add: packet_id_enc_def)
next
  case False
  then obtain b1 where s: "packet_id_send_update now p lf = (True, p')"
    and b1: "buf_write b (htonl (send_id p')) = (True, b1)"
      "(if lf then buf_write b1 (htontime (send_time p')) else (True, b1)) = (True, b')"
    using w by (auto simp: packet_id_write_def Let_def split: prod.splits bool.splits if_splits)
  have 1: "buf_wf b1 \<and> buf_contents b1 = buf_contents b @ htonl (send_id p')"
    using buf.write_true[OF wf b1(1)] by simp
  then have "buf_wf b' \<and> buf_contents b' = buf_contents b1 @ (if lf then htontime (send_time p') else [])"
    using b1(2) buf.write_true[of b1] by (auto split: if_splits)
  then show ?thesis using s 1 False by (simp add: packet_id_enc_def)
qed

text \<open>
  C17. Round trip of the packet identifier. What \<open>packet_id_write\<close> put in front of a buffer, or
  behind the contents of an empty one, is read back by \<open>packet_id_read\<close> as the identifier just
  generated, and the rest of the buffer is left as it was.
\<close>

theorem packet_id_roundtrip:
  assumes "buf_wf b" and "prep \<or> buf_contents b = []"
    and "packet_id_write now p b lf prep = (True, p', b')"
    and "0 \<le> send_time p'" "send_time p' < 2 ^ 32"
  shows "\<exists>b''. packet_id_read b' lf
      = (True, \<lparr>net_id = send_id p', net_time = (if lf then send_time p' else 0)\<rparr>, b'')
    \<and> buf_wf b'' \<and> buf_contents b'' = (if prep then buf_contents b else [])"
proof -
  let ?k = "\<lparr>net_id = send_id p', net_time = (if lf then send_time p' else 0)\<rparr>"
  have "buf_wf b' \<and> buf_contents b' = packet_id_enc lf ?k @ (if prep then buf_contents b else [])"
    using packet_id_write_contents[OF assms(1,3)] assms(2) by (auto simp: packet_id_enc_def)
  then show ?thesis
    using packet_id_read_enc[of lf ?k b'] assms(4,5) by (simp add: packet_id_wire_def)
qed

lemma packet_id_roundtrip_witness:
  "\<exists>b b' p' b''. alloc_buf 32 = Some b
    \<and> packet_id_write 7 \<lparr>send_id = 4, send_time = 0\<rparr> b True False = (True, p', b')
    \<and> packet_id_read b' True = (True, \<lparr>net_id = 5, net_time = 7\<rparr>, b'')"
proof -
  obtain b where b: "alloc_buf 32 = Some b" by (simp add: alloc_buf_def buf_size_valid_def BUF_SIZE_MAX_def)
  note w = alloc_buf_wf[OF b]
  obtain b1 where b1: "buf_write b (htonl 5) = (True, b1)" "buf_wf b1" "buf_back b1 = 28"
    using buf.write_room[of b "htonl 5"] w by auto
  obtain b2 where b2: "buf_write b1 (htontime 7) = (True, b2)"
    using buf.write_room[of b1 "htontime 7"] b1(2,3) by auto
  have pw: "packet_id_write 7 \<lparr>send_id = 4, send_time = 0\<rparr> b True False
      = (True, \<lparr>send_id = 5, send_time = 7\<rparr>, b2)"
    using b1(1) b2 by (simp add: packet_id_write_def packet_id_send_update_def PACKET_ID_MAX_def)
  show ?thesis using packet_id_roundtrip[OF _ _ pw] w b pw by auto
qed

section \<open>The send side\<close>

text \<open>The identifiers that a sender puts on the packets it sends at the given clock readings.\<close>

fun send_run :: "bool \<Rightarrow> int list \<Rightarrow> packet_id_send \<Rightarrow> packet_id_net list" where
  "send_run lf [] p = []"
| "send_run lf (now # nows) p =
     (case packet_id_send_update now p lf of
        (True, p) \<Rightarrow> \<lparr>net_id = send_id p, net_time = send_time p\<rparr> # send_run lf nows p
      | (False, p) \<Rightarrow> send_run lf nows p)"

definition pid_less :: "packet_id_net \<Rightarrow> packet_id_net \<Rightarrow> bool" where
  "pid_less a b \<longleftrightarrow> net_time a < net_time b \<or> net_time a = net_time b \<and> net_id a < net_id b"

lemma word_plus_one_gt: "w \<noteq> - 1 \<Longrightarrow> w < w + 1" for w :: "'a::len word"
proof -
  assume "w \<noteq> - 1"
  then have "1 + w \<noteq> 0" by (metis add_eq_0_iff2 add.commute)
  then show ?thesis using unatSuc[of w] by (simp add: word_less_nat_alt add.commute)
qed

lemma send_update_step:
  assumes "packet_id_send_update now p lf = (ok, p')" "0 \<le> now" "0 \<le> send_time p"
  shows "0 \<le> send_time p'"
    "ok \<Longrightarrow> pid_less \<lparr>net_id = send_id p, net_time = send_time p\<rparr> \<lparr>net_id = send_id p', net_time = send_time p'\<rparr>"
    "\<not> ok \<Longrightarrow> send_id p' = send_id p \<and> send_time p \<le> send_time p'"
    "ok \<Longrightarrow> send_id p' \<noteq> 0"
  using assms word_plus_one_gt[of "send_id p"]
  by (auto simp: packet_id_send_update_def pid_less_def PACKET_ID_MAX_def Let_def split: if_splits)

lemma pid_less_trans: "pid_less a b \<Longrightarrow> pid_less b c \<Longrightarrow> pid_less a c"
  by (auto simp: pid_less_def)

lemma send_run_sorted:
  assumes "\<forall>now \<in> set nows. 0 \<le> now" "0 \<le> send_time p"
  shows "sorted_wrt pid_less (send_run lf nows p) \<and>
    (\<forall>k \<in> set (send_run lf nows p). net_id k \<noteq> 0 \<and> pid_less \<lparr>net_id = send_id p, net_time = send_time p\<rparr> k)"
  using assms
proof (induction nows arbitrary: p)
  case (Cons now nows)
  obtain ok p' where u: "packet_id_send_update now p lf = (ok, p')" by (metis surj_pair)
  note s = send_update_step[OF u]
  have IH: "sorted_wrt pid_less (send_run lf nows p')"
    "\<forall>k \<in> set (send_run lf nows p'). net_id k \<noteq> 0 \<and> pid_less \<lparr>net_id = send_id p', net_time = send_time p'\<rparr> k"
    using Cons.IH[of p'] Cons.prems s(1) by auto
  show ?case
  proof (cases ok)
    case True
    then show ?thesis using u IH s Cons.prems by (auto intro: pid_less_trans)
  next
    case False
    then have "pid_less \<lparr>net_id = send_id p, net_time = send_time p\<rparr> k"
      if "pid_less \<lparr>net_id = send_id p', net_time = send_time p'\<rparr> k" for k
      using s(3) that Cons.prems by (auto simp: pid_less_def)
    then show ?thesis using u IH False by auto
  qed
qed simp

lemma sorted_pid_less_distinct: "sorted_wrt pid_less ks \<Longrightarrow> distinct ks"
  by (induction ks) (auto simp: pid_less_def)

lemma send_run_short: "sorted_wrt (<) (map net_id (send_run False nows p)) \<and>
  (\<forall>k \<in> set (send_run False nows p). send_id p < net_id k)"
proof (induction nows arbitrary: p)
  case (Cons now nows)
  have step: "packet_id_send_update now p False = (ok, p') \<Longrightarrow>
      if ok then send_id p < send_id p' else send_id p' = send_id p" for ok p'
    using word_plus_one_gt[of "send_id p"]
    by (auto simp: packet_id_send_update_def PACKET_ID_MAX_def Let_def split: if_splits)
  obtain ok p' where u: "packet_id_send_update now p False = (ok, p')" by (metis surj_pair)
  then show ?case using Cons.IH[of p'] step[OF u]
    by (cases ok) (auto intro: less_trans)
qed simp

text \<open>
  C15. A sender never reuses a packet identifier. For any clock readings, going forwards or
  backwards, the identifiers that \<open>packet_id_send_update\<close> generates increase strictly in the
  order on (time, id), so that they are distinct; the identifier 0, which every receiver
  rejects, is never generated. In the short form the identifier alone increases: it does not wrap.
\<close>

theorem packet_id_send_increasing:
  assumes "\<forall>now \<in> set nows. 0 \<le> now" "0 \<le> send_time p"
  shows "sorted_wrt pid_less (send_run lf nows p) \<and> distinct (send_run lf nows p)
    \<and> (\<forall>k \<in> set (send_run lf nows p). net_id k \<noteq> 0)
    \<and> (\<not> lf \<longrightarrow> sorted_wrt (<) (map net_id (send_run lf nows p)))"
  using send_run_sorted[OF assms] sorted_pid_less_distinct send_run_short by (cases lf) auto

lemma packet_id_send_increasing_witness:
  "distinct (send_run True [5, 3, 9, 9] \<lparr>send_id = PACKET_ID_MAX - 1, send_time = 0\<rparr>)
    \<and> length (send_run True [5, 3, 9, 9] \<lparr>send_id = PACKET_ID_MAX - 1, send_time = 0\<rparr>) = 3"
  using packet_id_send_increasing[of "[5, 3, 9, 9]" "\<lparr>send_id = PACKET_ID_MAX - 1, send_time = 0\<rparr>" True]
  by (simp add: packet_id_send_update_def PACKET_ID_MAX_def)

section \<open>What the replay-persist file protects\<close>

text \<open>
  C16. The gap of \<open>--replay-persist\<close>. A receiver that starts from the persisted state \<open>(t, n)\<close>
  rejects every identifier up to \<open>(t, n)\<close> at first, as it must; but \<open>packet_id_add\<close> treats the
  empty window as a new sequence, so that the first newer packet \<open>(t, m)\<close> opens a window below
  \<open>m\<close> in which the identifiers up to \<open>n\<close> count as unseen: they are accepted again.
\<close>

theorem packet_id_persist_gap:
  assumes init: "packet_id_init bt tb = Some pid" and bt: "0 < bt" and now: "1 < now"
    and pp: "packet_id_persist_enabled pp" "pp_time pp = t" "pp_id pp = n" "t \<noteq> 0"
    and j: "j \<noteq> 0" "j \<le> n" and m: "n < m" "unat m - unat j < nat bt"
  defines "r \<equiv> pid_rec (packet_id_persist_load_obj pp pid)"
  shows "\<exists>r1 r2 r3 r4. packet_id_test r \<lparr>net_id = j, net_time = t\<rparr> = Some (False, r1)
    \<and> packet_id_test r1 \<lparr>net_id = m, net_time = t\<rparr> = Some (True, r2)
    \<and> packet_id_add now r2 \<lparr>net_id = m, net_time = t\<rparr> = Some r3
    \<and> packet_id_test r3 \<lparr>net_id = j, net_time = t\<rparr> = Some (True, r4)"
proof -
  have sh: "pid_shape (pid_rec pid)" using packet_id_init_inv[OF init] by simp
  obtain q where q: "seq_list (pid_rec pid) = Some q" "circ_win q = []"
    "seq_backtrack (pid_rec pid) = bt"
    using init bt circ_alloc[of bt "0::int"]
    by (auto simp: packet_id_init_def Let_def packet_id_rec_zero_def CIRC_LIST_ALLOC_def
        MAX_SEQ_BACKTRACK_def split: if_splits)
  have r: "r = (pid_rec pid)\<lparr>rec_time := t, rec_id := n\<rparr>"
    using pp by (simp add: r_def packet_id_persist_load_obj_def)
  have rs: "pid_shape r" "seq_list r = Some q" "rec_time r = t" "rec_id r = n" "seq_backtrack r = bt"
    using sh q unfolding r by (simp_all add: pid_shape_def cong: option.case_cong)
  obtain s1 where t1: "packet_id_test r \<lparr>net_id = j, net_time = t\<rparr> = Some (False, r\<lparr>max_backtrack_stat := s1\<rparr>)"
    using packet_id_test_window[OF rs(1,2), of "\<lparr>net_id = j, net_time = t\<rparr>"] j q(2) rs by (auto simp: not_less)
  let ?r1 = "r\<lparr>max_backtrack_stat := s1\<rparr>"
  have m0: "m \<noteq> 0" using m(1) by (metis word_not_simps(1))
  obtain s2 where t2: "packet_id_test ?r1 \<lparr>net_id = m, net_time = t\<rparr>
      = Some (True, ?r1\<lparr>max_backtrack_stat := s2\<rparr>)"
    using packet_id_test_window[of ?r1 q "\<lparr>net_id = m, net_time = t\<rparr>"] rs m m0 by auto
  let ?r2 = "?r1\<lparr>max_backtrack_stat := s2\<rparr>"
  obtain q' l where a: "packet_id_add now ?r2 \<lparr>net_id = m, net_time = t\<rparr>
      = Some (?r2\<lparr>rec_time := t, rec_id := m, seq_list := Some q'\<rparr>)"
    "circ_inv q'" "circ_cap q' = circ_cap q" "circ_win q' = (replicate l 0)[0 := now]"
    "l = min (unat m) (nat bt)"
    by (rule packet_id_add_restart[of ?r2 q "\<lparr>net_id = m, net_time = t\<rparr>" now])
      (use rs(1,2,5) q(2) m0 now in simp_all)
  let ?r3 = "?r2\<lparr>rec_time := t, rec_id := m, seq_list := Some q'\<rparr>"
  have "circ_inv q" using pid_shape_Some(1)[OF rs(1,2)] .
  then have s3: "pid_shape ?r3"
    using rs circ_cap_eqD[OF _ a(2,3)] a(2) by (auto simp: pid_shape_def)
  have "unat (m - j) = unat m - unat j" "0 < unat m - unat j" "unat j < unat m" "0 < unat j"
    using j m by (auto simp: word_le_nat_alt word_less_nat_alt unat_minus unat_gt_0)
  then have "unat (m - j) < length (circ_win q')" "circ_win q' ! unat (m - j) = 0" "j \<le> m"
    using a(4,5) m(2) by (auto simp: word_le_nat_alt)
  then obtain s4 where t4: "packet_id_test ?r3 \<lparr>net_id = j, net_time = t\<rparr>
      = Some (True, ?r3\<lparr>max_backtrack_stat := s4\<rparr>)"
    using packet_id_test_window[OF s3, of q' "\<lparr>net_id = j, net_time = t\<rparr>"] j(1) by auto
  then show ?thesis using t1 t2 a(1) by blast
qed

lemma packet_id_persist_gap_witness:
  "\<exists>pid r1 r2 r3 r4. packet_id_init 64 15 = Some pid
    \<and> packet_id_test (pid_rec (packet_id_persist_load_obj (packet_id_persist_init\<lparr>pp_fd := 3, pp_time := 7, pp_id := 9\<rparr>) pid))
        \<lparr>net_id = 9, net_time = 7\<rparr> = Some (False, r1)
    \<and> packet_id_test r1 \<lparr>net_id = 10, net_time = 7\<rparr> = Some (True, r2)
    \<and> packet_id_add 20 r2 \<lparr>net_id = 10, net_time = 7\<rparr> = Some r3
    \<and> packet_id_test r3 \<lparr>net_id = 9, net_time = 7\<rparr> = Some (True, r4)"
proof -
  obtain pid where p: "packet_id_init 64 15 = Some pid"
    by (simp add: packet_id_init_def MIN_SEQ_BACKTRACK_def MAX_SEQ_BACKTRACK_def
        MIN_TIME_BACKTRACK_def MAX_TIME_BACKTRACK_def)
  show ?thesis
    using p packet_id_persist_gap[OF p, of 20 "packet_id_persist_init\<lparr>pp_fd := 3, pp_time := 7, pp_id := 9\<rparr>" 7 9 9 10]
    by (simp add: packet_id_persist_init_def packet_id_persist_enabled_def)
qed

end
