(* ===== verification/Crypto.thy ===== *)
theory Crypto
  imports Packet_Id_Props
begin

text \<open>
  The data channel encryption of \<open>crypto.c\<close>: sealing a packet with an AEAD cipher, with a CBC,
  OFB or CFB cipher and an HMAC, or with neither; opening a received packet, with every error
  path; the replay check behind the authentication; the overhead computations.

  The ciphers and digests are the crypto library's. They are a parameter of the model, a record
  of the functions of \<open>crypto_backend.h\<close> over an abstract type of contexts: a context is a
  value, and a call returns whether it succeeded, the bytes it wrote and the context after it.
  Random bytes for the IV are an argument.
\<close>

section \<open>The interface of the crypto library\<close>

record ('c, 'h) crypto_backend =
  cipher_ctx_mode_aead :: "'c \<Rightarrow> bool"
  cipher_ctx_mode_cbc :: "'c \<Rightarrow> bool"
  cipher_ctx_mode_ofb_cfb :: "'c \<Rightarrow> bool"
  cipher_ctx_iv_length :: "'c \<Rightarrow> nat"
  cipher_ctx_block_size :: "'c \<Rightarrow> nat"
  cipher_ctx_reset :: "'c \<Rightarrow> bytes \<Rightarrow> bool \<times> 'c"
  cipher_ctx_update_ad :: "'c \<Rightarrow> bytes \<Rightarrow> bool \<times> 'c"
  cipher_ctx_update :: "'c \<Rightarrow> bytes \<Rightarrow> bool \<times> bytes \<times> 'c"
  cipher_ctx_final :: "'c \<Rightarrow> bool \<times> bytes \<times> 'c"
  cipher_ctx_get_tag :: "'c \<Rightarrow> nat \<Rightarrow> bool \<times> bytes"
  cipher_ctx_final_check_tag :: "'c \<Rightarrow> bytes \<Rightarrow> bool \<times> bytes \<times> 'c"
  hmac_ctx_size :: "'h \<Rightarrow> nat"
  hmac_ctx_reset :: "'h \<Rightarrow> 'h"
  hmac_ctx_update :: "'h \<Rightarrow> bytes \<Rightarrow> 'h"
  hmac_ctx_final :: "'h \<Rightarrow> bytes \<times> 'h"

section \<open>State\<close>

definition OPENVPN_MAX_IV_LENGTH :: nat where "OPENVPN_MAX_IV_LENGTH = 16"
definition OPENVPN_AEAD_TAG_LENGTH :: nat where "OPENVPN_AEAD_TAG_LENGTH = 16"
definition OPENVPN_AEAD_MIN_IV_LEN :: nat where "OPENVPN_AEAD_MIN_IV_LEN = 4 + 8"
definition OPENVPN_MAX_CIPHER_BLOCK_SIZE :: nat where "OPENVPN_MAX_CIPHER_BLOCK_SIZE = 32"
definition OPENVPN_MAX_HMAC_SIZE :: nat where "OPENVPN_MAX_HMAC_SIZE = 64"
definition MAX_HMAC_KEY_LENGTH :: nat where "MAX_HMAC_KEY_LENGTH = 64"

record ('c, 'h) key_ctx =
  kc_cipher :: "'c option"
  kc_hmac :: "'h option"
  kc_implicit_iv :: bytes
  kc_implicit_iv_len :: nat

record ('c, 'h) crypto_options =
  co_encrypt :: "('c, 'h) key_ctx"
  co_decrypt :: "('c, 'h) key_ctx"
  co_replay :: crypto_replay
  co_ignore_packet_id :: bool

abbreviation co_send :: "('c, 'h) crypto_options \<Rightarrow> packet_id_send" where
  "co_send opt \<equiv> pid_send (cr_packet_id (co_replay opt))"

definition co_set_send :: "('c, 'h) crypto_options \<Rightarrow> packet_id_send \<Rightarrow> ('c, 'h) crypto_options" where
  "co_set_send opt s = opt\<lparr>co_replay := (co_replay opt)\<lparr>cr_packet_id := (cr_packet_id (co_replay opt))\<lparr>pid_send := s\<rparr>\<rparr>\<rparr>"

definition co_set_encrypt :: "('c, 'h) crypto_options \<Rightarrow> 'c \<Rightarrow> ('c, 'h) crypto_options" where
  "co_set_encrypt opt c = opt\<lparr>co_encrypt := (co_encrypt opt)\<lparr>kc_cipher := Some c\<rparr>\<rparr>"

definition co_set_decrypt :: "('c, 'h) crypto_options \<Rightarrow> 'c \<Rightarrow> ('c, 'h) crypto_options" where
  "co_set_decrypt opt c = opt\<lparr>co_decrypt := (co_decrypt opt)\<lparr>kc_cipher := Some c\<rparr>\<rparr>"

definition packet_id_initialized :: "packet_id \<Rightarrow> bool" where
  "packet_id_initialized pid = initialized (pid_rec pid)"

text \<open>The mode of a context that may be absent: a null context has none.\<close>

definition ctx_mode :: "('c \<Rightarrow> bool) \<Rightarrow> 'c option \<Rightarrow> bool" where
  "ctx_mode m c = (case c of None \<Rightarrow> False | Some c \<Rightarrow> m c)"

text \<open>
  The library writes its output at the end of the buffer, then \<open>buf_inc_len\<close> accounts for it
  and ends the process when it does not fit.
\<close>

definition buf_put_out :: "buffer \<Rightarrow> bytes \<Rightarrow> buffer option" where
  "buf_put_out b bs =
     (case buf_inc_len (buf_poke b (b_offset b + b_len b) bs) (int (length bs)) of
        (ok, b) \<Rightarrow> do { ASSERT ok; Some b })"

section \<open>Sealing with an AEAD cipher\<close>

definition openvpn_encrypt_aead ::
  "('c, 'h) crypto_backend \<Rightarrow> int \<Rightarrow> buffer \<Rightarrow> buffer \<Rightarrow> ('c, 'h) crypto_options
     \<Rightarrow> (buffer \<times> ('c, 'h) crypto_options) option" where
  "openvpn_encrypt_aead cb now buf work opt = do {
     let ctx = co_encrypt opt;
     let mac_len = OPENVPN_AEAD_TAG_LENGTH;
     c \<leftarrow> kc_cipher ctx;
     ASSERT (packet_id_initialized (cr_packet_id (co_replay opt)));
     let iv_len = cipher_ctx_iv_length cb c;
     ASSERT (OPENVPN_AEAD_MIN_IV_LEN \<le> iv_len \<and> iv_len \<le> OPENVPN_MAX_IV_LENGTH);
     ivb \<leftarrow> buf_set_write (replicate OPENVPN_MAX_IV_LENGTH 0) (int iv_len);
     (case packet_id_write now (co_send opt) ivb False False of
        (False, s, _) \<Rightarrow> Some (buf\<lparr>b_len := 0\<rparr>, co_set_send opt s)
      | (True, s, ivb) \<Rightarrow> do {
          let opt = co_set_send opt s;
          let (ok, ivb) = buf_write ivb (take (kc_implicit_iv_len ctx) (kc_implicit_iv ctx));
          ASSERT ok;
          ASSERT (b_len ivb = int iv_len);
          let iv = take iv_len (the (b_data ivb));
          let (ok, work) = buf_write work (take (iv_len - kc_implicit_iv_len ctx) iv);
          ASSERT ok;
          let (ok, c) = cipher_ctx_reset cb c iv;
          ASSERT ok;
          (case buf_write_alloc work mac_len of
             (None, _) \<Rightarrow> None
           | (Some mac_out, work) \<Rightarrow>
               if \<not> buf_safe work (nat (b_len buf) + cipher_ctx_block_size cb c)
               then Some (buf\<lparr>b_len := 0\<rparr>, co_set_encrypt opt c)
               else do {
                 let ad = take (length (buf_contents work) - mac_len) (buf_contents work);
                 let (ok, c) = cipher_ctx_update_ad cb c ad;
                 ASSERT ok;
                 let (ok, out, c) = cipher_ctx_update cb c (buf_contents buf);
                 ASSERT ok;
                 work \<leftarrow> buf_put_out work out;
                 let (ok, out, c) = cipher_ctx_final cb c;
                 ASSERT ok;
                 work \<leftarrow> buf_put_out work out;
                 let (ok, tag) = cipher_ctx_get_tag cb c mac_len;
                 ASSERT ok;
                 Some (buf_poke work mac_out tag, co_set_encrypt opt c) }) }) }"

section \<open>Sealing with a CBC, OFB or CFB cipher and an HMAC\<close>

text \<open>
  The first stage leaves the packet in the work buffer together with the place of the HMAC and
  the start of the bytes it covers; \<open>Inl\<close> is the error exit.
\<close>

definition encrypt_v1_cipher ::
  "('c, 'h) crypto_backend \<Rightarrow> bytes \<Rightarrow> int \<Rightarrow> buffer \<Rightarrow> buffer \<Rightarrow> 'c \<Rightarrow> ('c, 'h) crypto_options
     \<Rightarrow> ((buffer + (buffer \<times> (int \<times> int) option)) \<times> ('c, 'h) crypto_options) option" where
  "encrypt_v1_cipher cb rnd now buf work c opt = do {
     let ctx = co_encrypt opt;
     let pid = cr_packet_id (co_replay opt);
     let iv_size = cipher_ctx_iv_length cb c;
     (mac, work) \<leftarrow> (case kc_hmac ctx of
         None \<Rightarrow> Some (None, work)
       | Some h \<Rightarrow> (case buf_write_alloc work (hmac_ctx_size cb h) of
                      (None, _) \<Rightarrow> None
                    | (Some p, work) \<Rightarrow> Some (Some (p, b_offset work + b_len work), work)));
     let iv_buf = replicate OPENVPN_MAX_IV_LENGTH 0;
     (ok, iv_buf, buf, opt) \<leftarrow>
       (if cipher_ctx_mode_cbc cb c then
          (let iv_buf = poke iv_buf 0 (take iv_size rnd) in
           if packet_id_initialized pid then
             (case packet_id_write now (co_send opt) buf (cr_long_form (co_replay opt)) True of
                (ok, s, buf) \<Rightarrow> Some (ok, iv_buf, buf, co_set_send opt s))
           else Some (True, iv_buf, buf, opt))
        else if cipher_ctx_mode_ofb_cfb cb c then do {
          ASSERT (packet_id_initialized pid);
          b \<leftarrow> buf_set_write iv_buf (int iv_size);
          (case packet_id_write now (co_send opt) b True False of
             (ok, s, b) \<Rightarrow> do { ASSERT ok; Some (True, the (b_data b), buf, co_set_send opt s) }) }
        else None);
     if \<not> ok then Some (Inl (buf\<lparr>b_len := 0\<rparr>), opt)
     else do {
       let iv = take iv_size iv_buf;
       let (ok, work) = buf_write work iv;
       ASSERT ok;
       let (ok, c) = cipher_ctx_reset cb c iv;
       ASSERT ok;
       if \<not> buf_safe work (nat (b_len buf) + cipher_ctx_block_size cb c)
       then Some (Inl (buf\<lparr>b_len := 0\<rparr>), co_set_encrypt opt c)
       else do {
         let (ok, out, c) = cipher_ctx_update cb c (buf_contents buf);
         ASSERT ok;
         work \<leftarrow> buf_put_out work out;
         let (ok, out, c) = cipher_ctx_final cb c;
         ASSERT ok;
         work \<leftarrow> buf_put_out work out;
         ASSERT (\<not> cipher_ctx_mode_cbc cb c \<or> length out = iv_size);
         Some (Inr (work, mac), co_set_encrypt opt c) } } }"

definition encrypt_v1_plain ::
  "('c, 'h) crypto_backend \<Rightarrow> int \<Rightarrow> buffer \<Rightarrow> buffer \<Rightarrow> ('c, 'h) crypto_options
     \<Rightarrow> ((buffer + (buffer \<times> (int \<times> int) option)) \<times> ('c, 'h) crypto_options) option" where
  "encrypt_v1_plain cb now buf work opt = do {
     let pid = cr_packet_id (co_replay opt);
     let (ok, buf, opt) =
       (if packet_id_initialized pid then
          (case packet_id_write now (co_send opt) buf (cr_long_form (co_replay opt)) True of
             (ok, s, buf) \<Rightarrow> (ok, buf, co_set_send opt s))
        else (True, buf, opt));
     if \<not> ok then Some (Inl (buf\<lparr>b_len := 0\<rparr>), opt)
     else do {
       (mac, buf) \<leftarrow> (case kc_hmac (co_encrypt opt) of
           None \<Rightarrow> Some (None, buf)
         | Some h \<Rightarrow> (case buf_prepend buf (int (hmac_ctx_size cb h)) of
                        (None, _) \<Rightarrow> None
                      | (Some p, buf') \<Rightarrow> Some (Some (p, b_offset buf), buf')));
       let buf = (if buf_len work > 0 then snd (buf_write_prepend buf (buf_contents work)) else buf);
       Some (Inr (buf, mac), opt) } }"

definition openvpn_encrypt_v1 ::
  "('c, 'h) crypto_backend \<Rightarrow> bytes \<Rightarrow> int \<Rightarrow> buffer \<Rightarrow> buffer \<Rightarrow> ('c, 'h) crypto_options
     \<Rightarrow> (buffer \<times> ('c, 'h) crypto_options) option" where
  "openvpn_encrypt_v1 cb rnd now buf work opt =
     (if b_len buf > 0 then do {
        (r, opt) \<leftarrow> (case kc_cipher (co_encrypt opt) of
            Some c \<Rightarrow> encrypt_v1_cipher cb rnd now buf work c opt
          | None \<Rightarrow> encrypt_v1_plain cb now buf work opt);
        (case r of
           Inl buf \<Rightarrow> Some (buf, opt)
         | Inr (work, mac) \<Rightarrow>
             (case (kc_hmac (co_encrypt opt), mac) of
                (Some h, Some (mac_out, hmac_start)) \<Rightarrow>
                  let h = hmac_ctx_reset cb h;
                      n = nat (b_offset work + b_len work - hmac_start);
                      h = hmac_ctx_update cb h (peek (the (b_data work)) hmac_start n);
                      (tag, h) = hmac_ctx_final cb h
                  in Some (buf_poke work mac_out tag,
                           opt\<lparr>co_encrypt := (co_encrypt opt)\<lparr>kc_hmac := Some h\<rparr>\<rparr>)
              | _ \<Rightarrow> Some (work, opt))) }
      else Some (buf, opt))"

definition openvpn_encrypt ::
  "('c, 'h) crypto_backend \<Rightarrow> bytes \<Rightarrow> int \<Rightarrow> buffer \<Rightarrow> buffer \<Rightarrow> ('c, 'h) crypto_options option
     \<Rightarrow> (buffer \<times> ('c, 'h) crypto_options option) option" where
  "openvpn_encrypt cb rnd now buf work opt =
     (case opt of
        Some opt \<Rightarrow>
          if b_len buf > 0 then do {
            (buf, opt) \<leftarrow> (if ctx_mode (cipher_ctx_mode_aead cb) (kc_cipher (co_encrypt opt))
              then openvpn_encrypt_aead cb now buf work opt
              else openvpn_encrypt_v1 cb rnd now buf work opt);
            Some (buf, Some opt) }
          else Some (buf, Some opt)
      | None \<Rightarrow> Some (buf, None))"

section \<open>Opening a received packet\<close>

text \<open>The exit of \<open>CRYPT_ERROR\<close> and of a failed replay check: the packet is emptied.\<close>

definition crypt_error ::
  "buffer \<Rightarrow> ('c, 'h) crypto_options \<Rightarrow> (bool \<times> buffer \<times> ('c, 'h) crypto_options) option" where
  "crypt_error buf opt = Some (False, buf\<lparr>b_len := 0\<rparr>, opt)"

text \<open>The replay check, then the plaintext takes the place of the packet.\<close>

definition decrypt_accept ::
  "int \<Rightarrow> packet_id_net option \<Rightarrow> buffer \<Rightarrow> buffer \<Rightarrow> ('c, 'h) crypto_options
     \<Rightarrow> (bool \<times> buffer \<times> ('c, 'h) crypto_options) option" where
  "decrypt_accept now pin buf work opt =
     (case pin of
        None \<Rightarrow> Some (True, work, opt)
      | Some pin \<Rightarrow> do {
          (ok, rp) \<leftarrow> crypto_check_replay now (co_replay opt) pin;
          let opt = opt\<lparr>co_replay := rp\<rparr>;
          if ok then Some (True, work, opt) else crypt_error buf opt })"

definition openvpn_decrypt_aead ::
  "('c, 'h) crypto_backend \<Rightarrow> int \<Rightarrow> int \<Rightarrow> int \<Rightarrow> buffer \<Rightarrow> buffer \<Rightarrow> ('c, 'h) crypto_options
     \<Rightarrow> (bool \<times> buffer \<times> ('c, 'h) crypto_options) option" where
  "openvpn_decrypt_aead cb now headroom ad_start buf work opt = do {
     let ctx = co_decrypt opt;
     ASSERT (b_len buf > 0);
     c \<leftarrow> kc_cipher ctx;
     ASSERT (0 \<le> ad_start \<and> ad_start \<le> b_offset buf);
     let (ok, work) = buf_init_dowork work headroom;
     ASSERT ok;
     ASSERT (packet_id_initialized (cr_packet_id (co_replay opt)));
     let iv_len = cipher_ctx_iv_length cb c;
     ASSERT (kc_implicit_iv_len ctx \<le> iv_len);
     if b_len buf + int (kc_implicit_iv_len ctx) < int iv_len then crypt_error buf opt
     else do {
       let iv = peek (the (b_data buf)) (b_offset buf) (iv_len - kc_implicit_iv_len ctx)
                  @ take (kc_implicit_iv_len ctx) (kc_implicit_iv ctx);
       let (ok, c) = cipher_ctx_reset cb c iv;
       let opt = co_set_decrypt opt c;
       if \<not> ok then crypt_error buf opt
       else (case packet_id_read buf False of
         (False, _, buf) \<Rightarrow> crypt_error buf opt
       | (True, pin, buf) \<Rightarrow>
         (let tag_size = OPENVPN_AEAD_TAG_LENGTH in
          if b_len buf < int tag_size then crypt_error buf opt
          else do {
            let tag = peek (the (b_data buf)) (b_offset buf) tag_size;
            let (ok, buf) = buf_advance buf (int tag_size);
            ASSERT ok;
            if b_len buf < 1 then crypt_error buf opt
            else if \<not> buf_safe work (nat (b_len buf) + cipher_ctx_block_size cb c)
            then crypt_error buf opt
            else do {
              let ad = peek (the (b_data buf)) ad_start (nat (b_offset buf - ad_start - int tag_size));
              let (ok, c) = cipher_ctx_update_ad cb c ad;
              ASSERT ok;
              let (ok, out, c) = cipher_ctx_update cb c (buf_contents buf);
              if \<not> ok then crypt_error buf (co_set_decrypt opt c)
              else do {
                work \<leftarrow> buf_put_out work out;
                let (ok, out, c) = cipher_ctx_final_check_tag cb c tag;
                let opt = co_set_decrypt opt c;
                if \<not> ok then crypt_error buf opt
                else do {
                  work \<leftarrow> buf_put_out work out;
                  decrypt_accept now (Some pin) buf work opt } } } })) } }"

text \<open>
  The HMAC check of the other modes: the bytes behind the HMAC when it is right, \<open>None\<close> when it
  is missing or wrong.
\<close>

definition decrypt_v1_auth ::
  "('c, 'h) crypto_backend \<Rightarrow> buffer \<Rightarrow> ('c, 'h) crypto_options
     \<Rightarrow> (bool \<times> buffer \<times> ('c, 'h) crypto_options) option" where
  "decrypt_v1_auth cb buf opt =
     (case kc_hmac (co_decrypt opt) of
        None \<Rightarrow> Some (True, buf, opt)
      | Some h \<Rightarrow>
          let h = hmac_ctx_reset cb h;
              n = hmac_ctx_size cb h;
              set = (\<lambda>h. opt\<lparr>co_decrypt := (co_decrypt opt)\<lparr>kc_hmac := Some h\<rparr>\<rparr>)
          in if b_len buf < int n then Some (False, buf, set h)
             else
               let (local_hmac, h) = hmac_ctx_final cb (hmac_ctx_update cb h (drop n (buf_contents buf)))
               in if take n local_hmac \<noteq> take n (buf_contents buf) then Some (False, buf, set h)
                  else (case buf_advance buf (int n) of
                          (ok, buf) \<Rightarrow> do { ASSERT ok; Some (True, buf, set h) }))"

definition decrypt_v1_cipher ::
  "('c, 'h) crypto_backend \<Rightarrow> int \<Rightarrow> int \<Rightarrow> buffer \<Rightarrow> buffer \<Rightarrow> 'c \<Rightarrow> ('c, 'h) crypto_options
     \<Rightarrow> (bool \<times> buffer \<times> ('c, 'h) crypto_options) option" where
  "decrypt_v1_cipher cb now headroom buf work c opt = do {
     let pid = cr_packet_id (co_replay opt);
     let iv_size = cipher_ctx_iv_length cb c;
     let (ok, work) = buf_init_dowork work headroom;
     ASSERT ok;
     if b_len buf < int iv_size then crypt_error buf opt
     else do {
       let iv_buf = poke (replicate OPENVPN_MAX_IV_LENGTH 0) 0 (take iv_size (buf_contents buf));
       let (ok, buf) = buf_advance buf (int iv_size);
       ASSERT ok;
       if b_len buf < 1 then crypt_error buf opt
       else do {
         let (ok, c) = cipher_ctx_reset cb c (take iv_size iv_buf);
         let opt = co_set_decrypt opt c;
         if \<not> ok then crypt_error buf opt
         else if \<not> buf_safe work (nat (b_len buf) + cipher_ctx_block_size cb c)
         then crypt_error buf opt
         else do {
           let (ok, out, c) = cipher_ctx_update cb c (buf_contents buf);
           let opt = co_set_decrypt opt c;
           if \<not> ok then crypt_error buf opt
           else do {
             work \<leftarrow> buf_put_out work out;
             let (ok, out, c) = cipher_ctx_final cb c;
             let opt = co_set_decrypt opt c;
             if \<not> ok then crypt_error buf opt
             else do {
               work \<leftarrow> buf_put_out work out;
               if cipher_ctx_mode_cbc cb c then
                 (if packet_id_initialized pid then
                    (case packet_id_read work (cr_long_form (co_replay opt)) of
                       (False, _, _) \<Rightarrow> crypt_error buf opt
                     | (True, pin, work) \<Rightarrow> decrypt_accept now (Some pin) buf work opt)
                  else decrypt_accept now None buf work opt)
               else if cipher_ctx_mode_ofb_cfb cb c then do {
                 ASSERT (packet_id_initialized pid);
                 b \<leftarrow> buf_set_read iv_buf iv_size;
                 (case packet_id_read b True of
                    (False, _, _) \<Rightarrow> crypt_error buf opt
                  | (True, pin, _) \<Rightarrow> decrypt_accept now (Some pin) buf work opt) }
               else None } } } } } }"

definition openvpn_decrypt_v1 ::
  "('c, 'h) crypto_backend \<Rightarrow> int \<Rightarrow> int \<Rightarrow> buffer \<Rightarrow> buffer \<Rightarrow> ('c, 'h) crypto_options
     \<Rightarrow> (bool \<times> buffer \<times> ('c, 'h) crypto_options) option" where
  "openvpn_decrypt_v1 cb now headroom buf work opt =
     (if b_len buf > 0 then do {
        (ok, buf, opt) \<leftarrow> decrypt_v1_auth cb buf opt;
        if \<not> ok then crypt_error buf opt
        else (case kc_cipher (co_decrypt opt) of
            Some c \<Rightarrow> decrypt_v1_cipher cb now headroom buf work c opt
          | None \<Rightarrow>
              if packet_id_initialized (cr_packet_id (co_replay opt)) then
                (case packet_id_read buf (cr_long_form (co_replay opt)) of
                   (False, _, _) \<Rightarrow> crypt_error buf opt
                 | (True, pin, work) \<Rightarrow>
                     decrypt_accept now (if co_ignore_packet_id opt then None else Some pin) buf work opt)
              else decrypt_accept now None buf buf opt) }
      else Some (True, buf, opt))"

definition openvpn_decrypt ::
  "('c, 'h) crypto_backend \<Rightarrow> int \<Rightarrow> int \<Rightarrow> int \<Rightarrow> buffer \<Rightarrow> buffer \<Rightarrow> ('c, 'h) crypto_options option
     \<Rightarrow> (bool \<times> buffer \<times> ('c, 'h) crypto_options option) option" where
  "openvpn_decrypt cb now headroom ad_start buf work opt =
     (case opt of
        Some opt \<Rightarrow>
          if b_len buf > 0 then do {
            (ok, buf, opt) \<leftarrow> (if ctx_mode (cipher_ctx_mode_aead cb) (kc_cipher (co_decrypt opt))
              then openvpn_decrypt_aead cb now headroom ad_start buf work opt
              else openvpn_decrypt_v1 cb now headroom buf work opt);
            Some (ok, buf, Some opt) }
          else Some (True, buf, Some opt)
      | None \<Rightarrow> Some (True, buf, None))"

section \<open>The overhead of a configuration\<close>

text \<open>What the library says of the configured cipher and digest; \<open>None\<close> is \<open>none\<close>.\<close>

record cipher_info =
  kt_mode_cbc :: bool
  kt_mode_aead :: bool
  kt_iv_size :: nat
  kt_block_size :: nat
  kt_tag_size :: nat

record key_type =
  kt_cipher :: "cipher_info option"
  kt_digest :: "nat option"

definition calculate_crypto_overhead :: "key_type \<Rightarrow> nat \<Rightarrow> bool \<Rightarrow> nat" where
  "calculate_crypto_overhead kt pkt_id_size occ =
     (case kt_cipher kt of
        None \<Rightarrow> pkt_id_size + (case kt_digest kt of None \<Rightarrow> 0 | Some n \<Rightarrow> n)
      | Some ci \<Rightarrow>
          (if \<not> kt_mode_cbc ci then pkt_id_size else 0)
          + (if kt_mode_aead ci
             then kt_tag_size ci + (if occ then kt_iv_size ci + kt_block_size ci else 0)
             else (if occ then kt_block_size ci else 0) + kt_iv_size ci
                  + (case kt_digest kt of None \<Rightarrow> 0 | Some n \<Rightarrow> n)))"

definition crypto_max_overhead :: nat where
  "crypto_max_overhead = packet_id_size True + OPENVPN_MAX_IV_LENGTH
     + OPENVPN_MAX_CIPHER_BLOCK_SIZE + nat (max_int (int OPENVPN_MAX_HMAC_SIZE) (int OPENVPN_AEAD_TAG_LENGTH))"

text \<open>The implicit part of the IV, taken from the HMAC key that an AEAD cipher does not use.\<close>

definition key_ctx_update_implicit_iv ::
  "('c, 'h) crypto_backend \<Rightarrow> ('c, 'h) key_ctx \<Rightarrow> bytes \<Rightarrow> ('c, 'h) key_ctx option" where
  "key_ctx_update_implicit_iv cb ctx key =
     (case kc_cipher ctx of
        Some c \<Rightarrow>
          if cipher_ctx_mode_aead cb c then do {
            ASSERT (OPENVPN_AEAD_MIN_IV_LEN \<le> cipher_ctx_iv_length cb c);
            let n = cipher_ctx_iv_length cb c - 4;
            ASSERT (n \<le> OPENVPN_MAX_IV_LENGTH);
            ASSERT (n \<le> length key);
            Some (ctx\<lparr>kc_implicit_iv := poke (kc_implicit_iv ctx) 0 (take n key), kc_implicit_iv_len := n\<rparr>) }
          else Some ctx
      | None \<Rightarrow> Some ctx)"

end
