(* ===== verification/Crypto_Props.thy ===== *)
theory Crypto_Props
  imports Crypto
begin

text \<open>
  What the data channel encryption promises, over any crypto library with the documented
  behaviour: the layout of a sealed packet, the round trip of the AEAD mode and of the CBC mode
  with its HMAC, and the fate of arbitrary received packets.
\<close>

section \<open>Writing the output of the library\<close>

lemma buf_put_out_room:
  assumes "buf_wf b" "length bs \<le> buf_back b"
  obtains b' where "buf_put_out b bs = Some b'" "buf_wf b'" "buf_contents b' = buf_contents b @ bs"
    "buf_back b' = buf_back b - length bs" "buf_front b' = buf_front b" "b_offset b' = b_offset b"
    "b_capacity b' = b_capacity b"
proof -
  obtain d where d: "b_data b = Some d" "int (length d) = b_capacity b" "0 \<le> b_offset b"
    "0 \<le> b_len b" "b_offset b + b_len b \<le> b_capacity b" "b_capacity b < BUF_SIZE_MAX"
    using assms(1) by (rule buf_wf_E)
  have le: "b_offset b + (b_len b + int (length bs)) \<le> b_capacity b" using assms(2) d by (simp add: buf_back_def)
  obtain b' where b': "buf_write b bs = (True, b')" "buf_wf b'" "buf_contents b' = buf_contents b @ bs"
    "buf_back b' = buf_back b - length bs" "buf_front b' = buf_front b"
    using buf_write_room[OF assms] by blast
  have "b' = buf_poke (b\<lparr>b_len := b_len b + int (length bs)\<rparr>) (b_offset b + b_len b) bs"
    using b'(1) assms(1) by (auto simp: buf_write_def buf_write_alloc_def buf_bptr_def buf_valid_def
        split: if_splits)
  moreover have "buf_put_out b bs = Some ((buf_poke b (b_offset b + b_len b) bs)\<lparr>b_len := b_len b + int (length bs)\<rparr>)"
    using d le by (simp add: buf_put_out_def buf_inc_len_def buf_safe_bidir_def buf_valid_def
        buf_size_valid_signed_def buf_poke_def BUF_SIZE_MAX_def)
  ultimately have "buf_put_out b bs = Some b'" "b_offset b' = b_offset b" "b_capacity b' = b_capacity b"
    by (simp_all add: buf_poke_def)
  then show ?thesis using b' that by blast
qed

lemma buf_safe_room: "buf_wf b \<Longrightarrow> n < nat BUF_SIZE_MAX \<Longrightarrow> buf_safe b n \<longleftrightarrow> n \<le> buf_back b"
  by (auto simp: buf_safe_def buf_size_valid_def buf_back_def buf_valid_def elim!: buf_wf_E)

lemma buf_safe_D: "buf_wf b \<Longrightarrow> buf_safe b n \<Longrightarrow> n \<le> buf_back b"
  by (auto simp: buf_safe_def buf_size_valid_def buf_back_def buf_valid_def elim!: buf_wf_E)

lemma buf_back_small: "buf_wf b \<Longrightarrow> buf_back b < nat BUF_SIZE_MAX"
  by (auto simp: buf_back_def BUF_SIZE_MAX_def elim!: buf_wf_E)

lemma buf_safe_room_I: "buf_wf b \<Longrightarrow> n \<le> buf_back b \<Longrightarrow> buf_safe b n"
  using buf_safe_room[of b n] buf_back_small[of b] by simp

text \<open>Reserving bytes at the end and filling them in later.\<close>

lemma buf_reserve:
  assumes wf: "buf_wf b" and room: "n \<le> buf_back b"
  obtains p b1 junk where "buf_write_alloc b n = (Some p, b1)" "p = b_offset b + b_len b" "buf_wf b1"
    "length junk = n" "buf_contents b1 = buf_contents b @ junk" "buf_back b1 = buf_back b - n"
    "b_offset b1 = b_offset b" "b_len b1 = b_len b + int n" "b_capacity b1 = b_capacity b"
proof -
  obtain d where d: "b_data b = Some d" "int (length d) = b_capacity b" "0 \<le> b_offset b"
    "0 \<le> b_len b" "b_offset b + b_len b \<le> b_capacity b" "b_capacity b < BUF_SIZE_MAX"
    using wf by (rule buf_wf_E)
  let ?b = "b\<lparr>b_len := b_len b + int n\<rparr>"
  have le: "b_offset b + b_len b + int n \<le> b_capacity b" using room d by (simp add: buf_back_def)
  have 1: "buf_write_alloc b n = (Some (b_offset b + b_len b), ?b)"
    using buf_safe_room_I[OF wf room] wf by (simp add: buf_write_alloc_def buf_bptr_def)
  have 2: "buf_wf ?b" using d le by (simp add: buf_wf_def)
  have "buf_contents ?b = peek d (b_offset b) (nat (b_len b) + n)"
    using d by (simp add: buf_contents_def buf_len_def buf_valid_def nat_add_distrib)
  also have "\<dots> = peek d (b_offset b) (nat (b_len b)) @ peek d (b_offset b + b_len b) n"
    unfolding peek_def take_add using d by (simp add: nat_add_distrib add.commute)
  finally have 3: "buf_contents ?b = buf_contents b @ peek d (b_offset b + b_len b) n"
    by (simp add: buf_contents_wf[OF wf d(1)])
  have 4: "length (peek d (b_offset b + b_len b) n) = n" using d le by simp
  have 5: "buf_back ?b = buf_back b - n" using d le by (simp add: buf_back_def nat_diff_distrib)
  show ?thesis by (rule that[OF 1 refl 2 4 3 5]) simp_all
qed

lemma buf_poke_in:
  assumes wf: "buf_wf b" and c: "buf_contents b = xs @ ys @ zs" and l: "length bs = length ys"
  shows "buf_wf (buf_poke b (b_offset b + int (length xs)) bs)
    \<and> buf_contents (buf_poke b (b_offset b + int (length xs)) bs) = xs @ bs @ zs"
proof -
  obtain d where d: "b_data b = Some d" "int (length d) = b_capacity b" "0 \<le> b_offset b"
    "0 \<le> b_len b" "b_offset b + b_len b \<le> b_capacity b" "b_capacity b < BUF_SIZE_MAX"
    using wf by (rule buf_wf_E)
  have bl: "b_len b = int (length xs + length ys + length zs)" using length_buf_contents[OF wf] c by simp
  have nb: "nat (b_len b) = length xs + length ys + length zs" using bl by linarith
  let ?p = "b_offset b + int (length xs)"
  have np: "nat ?p = nat (b_offset b) + length xs" using d by simp
  have pk: "take (length xs + length ys + length zs) (drop (nat (b_offset b)) d) = xs @ ys @ zs"
    using c buf_contents_wf[OF wf d(1)] nb by (simp add: peek_def)
  define dd where "dd = drop (nat (b_offset b)) d"
  have dl: "length xs + length ys + length zs \<le> length dd" using d bl by (simp add: dd_def)
  have dsp: "dd = xs @ ys @ zs @ drop (length xs + length ys + length zs) dd"
    using pk append_take_drop_id[of "length xs + length ys + length zs" dd] by (simp add: dd_def)
  have fit: "nat ?p + length bs \<le> length d" using d bl l np by simp
  have 1: "buf_wf (buf_poke b ?p bs)" using d fit by (simp add: buf_wf_def buf_poke_def)
  have t1: "take (length xs) dd = xs" by (subst dsp) simp
  have t2: "drop (length xs + length bs) dd = zs @ drop (length xs + length ys + length zs) dd"
    by (subst dsp) (simp add: l)
  have "take (nat (b_offset b) + length xs) d = take (nat (b_offset b)) d @ xs"
    using t1 by (simp add: take_add dd_def)
  moreover have "drop (nat (b_offset b) + length xs + length bs) d = drop (length xs + length bs) dd"
    by (simp add: dd_def add.commute add.left_commute)
  ultimately have "poke d ?p bs = take (nat (b_offset b)) d @ xs @ bs @ zs @ drop (length xs + length ys + length zs) dd"
    using t2 by (simp add: poke_def np)
  then have "peek (poke d ?p bs) (b_offset b) (length xs + length ys + length zs) = xs @ bs @ zs"
    using d nb l by (simp add: peek_def)
  then have "buf_contents (buf_poke b ?p bs) = xs @ bs @ zs"
    using d nb by (simp add: buf_contents_def buf_len_def buf_valid_def buf_poke_def)
  then show ?thesis using 1 by blast
qed

section \<open>The AEAD mode\<close>

definition aead_seal ::
  "('c, 'h) crypto_backend \<Rightarrow> 'c \<Rightarrow> bytes \<Rightarrow> bytes \<Rightarrow> bytes \<Rightarrow> (bytes \<times> bytes \<times> 'c) option" where
  "aead_seal cb c iv ad pt =
     (let (ok1, c) = cipher_ctx_reset cb c iv;
          (ok2, c) = cipher_ctx_update_ad cb c ad;
          (ok3, out1, c) = cipher_ctx_update cb c pt;
          (ok4, out2, c) = cipher_ctx_final cb c;
          (ok5, tag) = cipher_ctx_get_tag cb c OPENVPN_AEAD_TAG_LENGTH
      in if ok1 \<and> ok2 \<and> ok3 \<and> ok4 \<and> ok5 then Some (out1 @ out2, tag, c) else None)"

definition aead_open ::
  "('c, 'h) crypto_backend \<Rightarrow> 'c \<Rightarrow> bytes \<Rightarrow> bytes \<Rightarrow> bytes \<Rightarrow> bytes \<Rightarrow> (bytes \<times> 'c) option" where
  "aead_open cb c iv ad ct tag =
     (let (ok1, c) = cipher_ctx_reset cb c iv;
          (ok2, c) = cipher_ctx_update_ad cb c ad;
          (ok3, out1, c) = cipher_ctx_update cb c ct;
          (ok4, out2, c) = cipher_ctx_final_check_tag cb c tag
      in if ok1 \<and> ok2 \<and> ok3 \<and> ok4 then Some (out1 @ out2, c) else None)"

text \<open>
  Two contexts of one AEAD key: what one seals the other opens, under the same IV and the same
  additional data; the ciphertext is as long as the plaintext.
\<close>

definition aead_pair :: "('c, 'h) crypto_backend \<Rightarrow> 'c \<Rightarrow> 'c \<Rightarrow> bool" where
  "aead_pair cb e d \<longleftrightarrow> cipher_ctx_mode_aead cb e \<and> cipher_ctx_mode_aead cb d
     \<and> cipher_ctx_iv_length cb d = cipher_ctx_iv_length cb e
     \<and> OPENVPN_AEAD_MIN_IV_LEN \<le> cipher_ctx_iv_length cb e \<and> cipher_ctx_iv_length cb e \<le> OPENVPN_MAX_IV_LENGTH
     \<and> (\<forall>iv. cipher_ctx_block_size cb (snd (cipher_ctx_reset cb e iv)) = cipher_ctx_block_size cb e
          \<and> cipher_ctx_block_size cb (snd (cipher_ctx_reset cb d iv)) = cipher_ctx_block_size cb e)
     \<and> (\<forall>iv ad pt. length iv = cipher_ctx_iv_length cb e \<longrightarrow>
          (\<exists>ct tag e' d'. aead_seal cb e iv ad pt = Some (ct, tag, e') \<and> length ct = length pt
             \<and> length tag = OPENVPN_AEAD_TAG_LENGTH \<and> aead_open cb d iv ad ct tag = Some (pt, d')))"

text \<open>The IV of a packet: its identifier and the implicit part of the key.\<close>

definition aead_iv :: "('c, 'h) key_ctx \<Rightarrow> u32 \<Rightarrow> bytes" where
  "aead_iv k i = htonl i @ take (kc_implicit_iv_len k) (kc_implicit_iv k)"

definition aead_key_ok :: "('c, 'h) crypto_backend \<Rightarrow> ('c, 'h) key_ctx \<Rightarrow> 'c \<Rightarrow> bool" where
  "aead_key_ok cb k c \<longleftrightarrow> kc_cipher k = Some c \<and> kc_implicit_iv_len k + 4 = cipher_ctx_iv_length cb c
     \<and> length (kc_implicit_iv k) = OPENVPN_MAX_IV_LENGTH"

lemma buf_write_raw:
  assumes "b_data b = Some d" "0 \<le> b_len b" "0 \<le> b_offset b"
    and "b_offset b + b_len b + int (length bs) \<le> b_capacity b" "b_capacity b < BUF_SIZE_MAX"
  shows "buf_write b bs = (True, b\<lparr>b_len := b_len b + int (length bs),
    b_data := Some (poke d (b_offset b + b_len b) bs)\<rparr>)"
  using assms by (simp add: buf_write_def buf_write_alloc_def buf_safe_def buf_valid_def buf_size_valid_def
      buf_bptr_def buf_poke_def)

lemma aead_iv_build:
  assumes n: "k + 4 = iv_len" "iv_len \<le> 16" "length impl = 16"
    and u: "packet_id_send_update now s False = (True, s')"
  obtains ivb ivb1 ivb2 where "buf_set_write (replicate OPENVPN_MAX_IV_LENGTH 0) (int iv_len) = Some ivb"
    "packet_id_write now s ivb False False = (True, s', ivb1)"
    "buf_write ivb1 (take k impl) = (True, ivb2)" "b_len ivb2 = int iv_len"
    "take iv_len (the (b_data ivb2)) = htonl (send_id s') @ take k impl"
proof -
  let ?d0 = "poke (replicate 16 (0::u8)) 0 [0]"
  let ?b0 = "\<lparr>b_capacity = int iv_len, b_offset = 0, b_len = 0, b_data = Some ?d0\<rparr>"
  let ?pid = "htonl (send_id s')"
  let ?d1 = "poke ?d0 0 ?pid"
  let ?b1 = "\<lparr>b_capacity = int iv_len, b_offset = 0, b_len = 4, b_data = Some ?d1\<rparr>"
  let ?d2 = "poke ?d1 4 (take k impl)"
  let ?b2 = "\<lparr>b_capacity = int iv_len, b_offset = 0, b_len = int iv_len, b_data = Some ?d2\<rparr>"
  have k: "length (take k impl) = k" using n by simp
  have 1: "buf_set_write (replicate OPENVPN_MAX_IV_LENGTH 0) (int iv_len) = Some ?b0"
    using n by (simp add: buf_set_write_def buf_size_valid_def BUF_SIZE_MAX_def OPENVPN_MAX_IV_LENGTH_def)
  have w1: "buf_write ?b0 ?pid = (True, ?b1)"
    using n by (subst buf_write_raw[where d = ?d0]) (simp_all add: BUF_SIZE_MAX_def)
  have 2: "packet_id_write now s ?b0 False False = (True, s', ?b1)"
    by (simp add: packet_id_write_def u w1)
  have 3: "buf_write ?b1 (take k impl) = (True, ?b2)"
    using n k by (subst buf_write_raw[where d = ?d1]) (auto simp: BUF_SIZE_MAX_def simp del: length_take)
  have l1: "length ?d1 = 16" by (simp add: poke_def)
  have e: "iv_len - 4 = k" "4 \<le> iv_len" using n(1) by simp_all
  have t4: "take 4 ?d1 = ?pid" by (simp add: poke_def)
  have "take iv_len ?d2 = ?pid @ take k impl"
    using k l1 t4 e by (simp add: poke_def[of ?d1] min_def n(2) del: length_take)
  then show ?thesis using that[OF 1 2 3] by simp
qed

lemma openvpn_encrypt_aead_seals:
  fixes tx :: "('c, 'h) crypto_options"
  assumes pair: "aead_pair cb e d" and key: "aead_key_ok cb (co_encrypt tx) e"
    and ini: "packet_id_initialized (cr_packet_id (co_replay tx))"
    and u: "packet_id_send_update now (co_send tx) False = (True, s)"
    and buf: "buf_wf buf" "buf_contents buf = pt"
    and work: "buf_wf work" "buf_contents work = hdr"
    and room: "4 + OPENVPN_AEAD_TAG_LENGTH + length pt + cipher_ctx_block_size cb e \<le> buf_back work"
  obtains out ct tag e' where
    "openvpn_encrypt_aead cb now buf work tx = Some (out, co_set_encrypt (co_set_send tx s) e')"
    "aead_seal cb e (aead_iv (co_encrypt tx) (send_id s)) (hdr @ htonl (send_id s)) pt = Some (ct, tag, e')"
    "buf_wf out" "buf_contents out = hdr @ htonl (send_id s) @ tag @ ct" "b_offset out = b_offset work"
    "length ct = length pt" "length tag = OPENVPN_AEAD_TAG_LENGTH"
proof -
  let ?k = "kc_implicit_iv_len (co_encrypt tx)"
  let ?impl = "kc_implicit_iv (co_encrypt tx)"
  let ?iv = "aead_iv (co_encrypt tx) (send_id s)"
  let ?ad = "hdr @ htonl (send_id s)"
  have iv: "?k + 4 = cipher_ctx_iv_length cb e" "cipher_ctx_iv_length cb e \<le> 16" "length ?impl = 16"
    "kc_cipher (co_encrypt tx) = Some e" "12 \<le> cipher_ctx_iv_length cb e"
    using pair key by (auto simp: aead_pair_def aead_key_ok_def OPENVPN_MAX_IV_LENGTH_def OPENVPN_AEAD_MIN_IV_LEN_def)
  obtain ivb ivb1 ivb2 where ivb: "buf_set_write (replicate OPENVPN_MAX_IV_LENGTH 0) (int (cipher_ctx_iv_length cb e)) = Some ivb"
    "packet_id_write now (co_send tx) ivb False False = (True, s, ivb1)"
    "buf_write ivb1 (take ?k ?impl) = (True, ivb2)" "b_len ivb2 = int (cipher_ctx_iv_length cb e)"
    "take (cipher_ctx_iv_length cb e) (the (b_data ivb2)) = ?iv"
    using aead_iv_build[OF iv(1-3) u] unfolding aead_iv_def by metis
  have liv: "length ?iv = cipher_ctx_iv_length cb e" using iv by (simp add: aead_iv_def)
  obtain ct tag e' d' where sl: "aead_seal cb e ?iv ?ad pt = Some (ct, tag, e')" "length ct = length pt"
    "length tag = OPENVPN_AEAD_TAG_LENGTH" "aead_open cb d ?iv ?ad ct tag = Some (pt, d')"
    using pair liv unfolding aead_pair_def by metis
  obtain c1 where c1: "cipher_ctx_reset cb e ?iv = (True, c1)"
    and bs: "cipher_ctx_block_size cb c1 = cipher_ctx_block_size cb e"
    using sl(1) pair unfolding aead_pair_def
    by (auto simp: aead_seal_def Let_def split: prod.splits if_splits) (metis snd_conv)
  obtain c2 o1 c3 o2 where c: "cipher_ctx_update_ad cb c1 ?ad = (True, c2)"
    "cipher_ctx_update cb c2 pt = (True, o1, c3)" "cipher_ctx_final cb c3 = (True, o2, e')"
    "cipher_ctx_get_tag cb e' OPENVPN_AEAD_TAG_LENGTH = (True, tag)" "ct = o1 @ o2"
    using sl(1) c1 by (auto simp: aead_seal_def Let_def split: prod.splits if_splits)
  have e4: "cipher_ctx_iv_length cb e - ?k = 4" using iv(1) by simp
  have t4: "take 4 ?iv = htonl (send_id s)" by (simp add: aead_iv_def)
  have t4': "take 4 (the (b_data ivb2)) = htonl (send_id s)"
    using t4 unfolding ivb(5)[symmetric] using iv(5) by (simp add: min_def)
  obtain w1 where w1: "buf_write work (htonl (send_id s)) = (True, w1)" "buf_wf w1" "buf_contents w1 = ?ad"
    "buf_back w1 = buf_back work - 4" "buf_front w1 = buf_front work"
    using buf_write_room[OF work(1), of "htonl (send_id s)"] room work(2) by auto
  have o1: "b_offset w1 = b_offset work" using w1(5) w1(2) work(1) by (auto simp: buf_front_def elim!: buf_wf_E)
  have rt: "OPENVPN_AEAD_TAG_LENGTH \<le> buf_back w1" using room w1(4) by simp
  obtain p w2 junk where w2: "buf_write_alloc w1 OPENVPN_AEAD_TAG_LENGTH = (Some p, w2)" "p = b_offset w1 + b_len w1"
    "buf_wf w2" "length junk = OPENVPN_AEAD_TAG_LENGTH" "buf_contents w2 = ?ad @ junk"
    "buf_back w2 = buf_back w1 - OPENVPN_AEAD_TAG_LENGTH" "b_offset w2 = b_offset w1"
    by (rule buf_reserve[OF w1(2) rt]) (auto simp: w1(3))
  have lb: "nat (b_len buf) = length pt" using length_buf_contents[OF buf(1)] buf(2) by simp
  have sf: "buf_safe w2 (nat (b_len buf) + cipher_ctx_block_size cb c1)"
    by (rule buf_safe_room_I[OF w2(3)]) (use room w2(6) w1(4) lb bs in simp)
  have r: "length o1 + length o2 \<le> buf_back w2" using room w2(6) w1(4) c(5) sl(2) by simp
  obtain w3 where w3: "buf_put_out w2 o1 = Some w3" "buf_wf w3" "buf_contents w3 = (?ad @ junk) @ o1"
    "buf_back w3 = buf_back w2 - length o1" "b_offset w3 = b_offset w2"
    by (rule buf_put_out_room[OF w2(3), of o1]) (use r w2(5) in auto)
  obtain w4 where w4: "buf_put_out w3 o2 = Some w4" "buf_wf w4" "buf_contents w4 = ?ad @ junk @ ct"
    "b_offset w4 = b_offset w3"
    using buf_put_out_room[OF w3(2), of o2] r w3(3,4) c(5) by (auto simp: le_diff_conv2)
  have p: "p = b_offset w4 + int (length ?ad)"
    using w2(2) length_buf_contents[OF w1(2)] w1(3) w4(4) w3(5) w2(7) by simp
  have fin: "buf_wf (buf_poke w4 p tag)" "buf_contents (buf_poke w4 p tag) = ?ad @ tag @ ct"
    using buf_poke_in[OF w4(2,3), of tag] p sl(3) w2(4) by auto
  have adt: "take (length (buf_contents w2) - OPENVPN_AEAD_TAG_LENGTH) (buf_contents w2) = ?ad"
    using w2(4,5) by simp
  have "openvpn_encrypt_aead cb now buf work tx = Some (buf_poke w4 p tag, co_set_encrypt (co_set_send tx s) e')"
    unfolding openvpn_encrypt_aead_def
    using iv ini ivb c1 c e4 t4' w1(1) w2(1) sf buf(2) w3(1) w4(1) adt
    by (simp add: Let_def OPENVPN_MAX_IV_LENGTH_def OPENVPN_AEAD_MIN_IV_LEN_def)
  moreover have "b_offset (buf_poke w4 p tag) = b_offset work"
    using w4(4) w3(5) w2(7) o1 by (simp add: buf_poke_def)
  ultimately show ?thesis using that sl(1,2,3) fin by simp
qed

text \<open>The window after \<open>n\<close> bytes were taken off the front.\<close>

definition buf_adv :: "buffer \<Rightarrow> nat \<Rightarrow> buffer" where
  "buf_adv b n = b\<lparr>b_offset := b_offset b + int n, b_len := b_len b - int n\<rparr>"

lemma buf_adv_simps [simp]:
  "b_offset (buf_adv b n) = b_offset b + int n" "b_len (buf_adv b n) = b_len b - int n"
  "b_data (buf_adv b n) = b_data b" "buf_adv (buf_adv b n) m = buf_adv b (n + m)"
  "b_capacity (buf_adv b n) = b_capacity b"
  by (simp_all add: buf_adv_def)

lemma buf_adv_wf:
  assumes "buf_wf b" "n \<le> length (buf_contents b)"
  shows "buf_advance b (int n) = (True, buf_adv b n)" "buf_wf (buf_adv b n)"
    "buf_contents (buf_adv b n) = drop n (buf_contents b)"
proof -
  have "int n \<le> b_len b" using assms length_buf_contents[OF assms(1)] by simp
  then show a: "buf_advance b (int n) = (True, buf_adv b n)"
    using assms(1) by (simp add: buf_advance_def buf_adv_def)
  show "buf_wf (buf_adv b n)" "buf_contents (buf_adv b n) = drop n (buf_contents b)"
    using buf_advance_wf[OF assms] a by auto
qed

lemma buf_read_adv:
  assumes "buf_wf b" "n \<le> length (buf_contents b)"
  shows "buf_read b n = (Some (take n (buf_contents b)), buf_adv b n)"
proof -
  obtain b' where b': "buf_read b n = (Some (take n (buf_contents b)), b')"
    using buf_read_enough[OF assms] by blast
  have "int n \<le> b_len b" using assms length_buf_contents[OF assms(1)] by simp
  then have "snd (buf_read b n) = buf_adv b n"
    using assms(1) by (simp add: buf_read_def buf_read_alloc_def buf_adv_def buf_bptr_def)
  then show ?thesis using b' by simp
qed

lemma packet_id_read_short_form:
  assumes "buf_wf b"
  shows "packet_id_read b False = (if 4 \<le> length (buf_contents b)
    then (True, \<lparr>net_id = ntohl (take 4 (buf_contents b)), net_time = 0\<rparr>, buf_adv b 4)
    else (False, \<lparr>net_id = 0, net_time = 0\<rparr>, b))"
  using buf_read_adv[OF assms, of 4] buf.read_short[OF assms, of 4]
  by (auto simp: packet_id_read_def)

lemma co_set_simps [simp]:
  "co_set_decrypt (co_set_decrypt opt a) c = co_set_decrypt opt c"
  "co_replay (co_set_decrypt opt a) = co_replay opt"
  "co_decrypt (co_set_send opt u) = co_decrypt opt"
  "co_ignore_packet_id (co_set_decrypt opt a) = co_ignore_packet_id opt"
  "co_replay (co_set_encrypt opt a) = co_replay opt"
  by (simp_all add: co_set_decrypt_def co_set_send_def co_set_encrypt_def)

lemma peek_front:
  assumes "buf_wf b" "b_data b = Some d" "n \<le> length (buf_contents b)"
  shows "peek d (b_offset b) n = take n (buf_contents b)"
proof -
  have "n \<le> nat (b_len b)" using length_buf_contents[OF assms(1)] assms(3) by simp
  then show ?thesis using buf_contents_wf[OF assms(1,2)] peek_take by simp
qed

lemma peek_ad:
  assumes "0 \<le> a" "a \<le> b_offset b" "b_data b = Some d" "buf_wf b" "n \<le> length (buf_contents b)"
  shows "peek d a (nat (b_offset b + int n - a)) = peek d a (nat (b_offset b - a)) @ take n (buf_contents b)"
proof -
  have nn: "nat (b_offset b + int n - a) = nat (b_offset b - a) + n" using assms(2) by simp
  have "take n (drop (nat (b_offset b)) d) = take n (buf_contents b)"
    using peek_front[OF assms(4,3,5)] by (simp add: peek_def)
  moreover have "nat (b_offset b - a) + nat a = nat (b_offset b)" using assms(1,2) by simp
  ultimately show ?thesis unfolding nn by (simp add: peek_def take_add)
qed

lemma openvpn_decrypt_aead_opens:
  fixes rx :: "('c, 'h) crypto_options"
  assumes key: "aead_key_ok cb (co_decrypt rx) d"
    and bs: "\<forall>iv. cipher_ctx_block_size cb (snd (cipher_ctx_reset cb d iv)) = bsize"
    and ini: "packet_id_initialized (cr_packet_id (co_replay rx))"
    and buf: "buf_wf buf" "buf_contents buf = htonl i @ tag @ ct" "length tag = OPENVPN_AEAD_TAG_LENGTH" "ct \<noteq> []"
    and ad: "0 \<le> a" "a \<le> b_offset buf" "peek (the (b_data buf)) a (nat (b_offset buf - a)) = hdr"
    and opn: "aead_open cb d (aead_iv (co_decrypt rx) i) (hdr @ htonl i) ct tag = Some (pt, d')"
    and lp: "length pt \<le> length ct"
    and work: "buf_wf work" "0 \<le> hr" "hr + int (length ct) + int bsize \<le> b_capacity work"
  obtains out where
    "openvpn_decrypt_aead cb now hr a buf work rx
       = decrypt_accept now (Some \<lparr>net_id = i, net_time = 0\<rparr>) (buf_adv buf 20) out (co_set_decrypt rx d')"
    "buf_wf out" "buf_contents out = pt"
proof -
  let ?k = "kc_implicit_iv_len (co_decrypt rx)"
  let ?impl = "take ?k (kc_implicit_iv (co_decrypt rx))"
  let ?iv = "aead_iv (co_decrypt rx) i"
  have iv: "?k + 4 = cipher_ctx_iv_length cb d" "kc_cipher (co_decrypt rx) = Some d"
    using key by (auto simp: aead_key_ok_def)
  obtain dt where dt: "b_data buf = Some dt" using buf(1) by (rule buf_wf_E)
  have tl: "length tag = 16" using buf(3) by (simp add: OPENVPN_AEAD_TAG_LENGTH_def)
  have bl: "b_len buf = 20 + int (length ct)" using length_buf_contents[OF buf(1)] buf(2) tl by simp
  have lct: "0 < length ct" using buf(4) by simp
  have e4: "cipher_ctx_iv_length cb d - ?k = 4" using iv(1) by simp
  have l20: "20 \<le> length (buf_contents buf)" "4 \<le> length (buf_contents buf)" using buf(2) tl by simp_all
  have p4: "peek dt (b_offset buf) 4 = htonl i"
    using peek_front[OF buf(1) dt l20(2)] buf(2) by simp
  obtain c1 where c1: "cipher_ctx_reset cb d ?iv = (True, c1)"
    using opn by (auto simp: aead_open_def Let_def split: prod.splits if_splits)
  obtain c2 o1 c3 o2 where c: "cipher_ctx_update_ad cb c1 (hdr @ htonl i) = (True, c2)"
    "cipher_ctx_update cb c2 ct = (True, o1, c3)" "cipher_ctx_final_check_tag cb c3 tag = (True, o2, d')"
    "pt = o1 @ o2"
    using opn c1 by (auto simp: aead_open_def Let_def split: prod.splits if_splits)
  have bs1: "cipher_ctx_block_size cb c1 = bsize" using bs c1 by (metis snd_conv)
  have ini_w: "fst (buf_init_dowork work hr)" using buf_init_ok[OF work(1), of hr] work(2,3) lct by simp
  then obtain w0 where w0: "buf_init_dowork work hr = (True, w0)" by (cases "buf_init_dowork work hr") auto
  have w0': "buf_wf w0" "buf_contents w0 = []" "buf_back w0 = nat (b_capacity work - hr)"
    using buf_init_wf[OF work(1) w0] by auto
  have rd: "packet_id_read buf False = (True, \<lparr>net_id = i, net_time = 0\<rparr>, buf_adv buf 4)"
    using packet_id_read_short_form[OF buf(1)] l20 buf(2) by simp
  have b4: "buf_wf (buf_adv buf 4)" "buf_contents (buf_adv buf 4) = tag @ ct"
    using buf_adv_wf[OF buf(1) l20(2)] buf(2) by simp_all
  have a20: "buf_advance (buf_adv buf 4) 16 = (True, buf_adv buf 20)"
    using buf_adv_wf(1)[OF b4(1), of 16] b4(2) tl by simp
  have b20: "buf_contents (buf_adv buf 20) = ct" using buf_adv_wf(3)[OF buf(1) l20(1)] buf(2) tl by simp
  have tg: "peek dt (b_offset buf + 4) 16 = tag"
    using peek_front[OF b4(1), of dt 16] dt b4(2) tl by simp
  have adk: "peek dt a (nat (b_offset buf + 20 - a - 16)) = hdr @ htonl i"
    using peek_ad[OF ad(1,2) dt buf(1) l20(2)] ad(3) dt buf(2) by (simp add: algebra_simps)
  have bk: "length ct + bsize \<le> buf_back w0" using w0'(3) work(3) by simp
  have sf: "buf_safe w0 (nat (b_len (buf_adv buf 20)) + cipher_ctx_block_size cb c1)"
    by (rule buf_safe_room_I[OF w0'(1)]) (use bk bl bs1 in simp)
  have r: "length o1 + length o2 \<le> buf_back w0" using bk lp c(4) by simp
  obtain w1 where w1: "buf_put_out w0 o1 = Some w1" "buf_wf w1" "buf_contents w1 = o1"
    "buf_back w1 = buf_back w0 - length o1"
    by (rule buf_put_out_room[OF w0'(1), of o1]) (use r w0'(2) in auto)
  obtain w2 where w2: "buf_put_out w1 o2 = Some w2" "buf_wf w2" "buf_contents w2 = pt"
    by (rule buf_put_out_room[OF w1(2), of o2]) (use r w1(3,4) c(4) in auto)
  have sf': "buf_safe w0 (nat (int (length ct)) + bsize)" using sf bl bs1 by simp
  have "openvpn_decrypt_aead cb now hr a buf work rx
    = decrypt_accept now (Some \<lparr>net_id = i, net_time = 0\<rparr>) (buf_adv buf 20) w2 (co_set_decrypt rx d')"
    unfolding openvpn_decrypt_aead_def
    using iv ini w0 c1 c(1-3) e4 rd a20 b20 tg adk sf' bs1 w1(1) w2(1) dt bl lct ad(1,2) p4
    by (simp add: Let_def OPENVPN_AEAD_TAG_LENGTH_def aead_iv_def)
  then show ?thesis using that w2(2,3) by blast
qed

section \<open>Arbitrary received packets\<close>

text \<open>
  The documented behaviour of the library that the receiver relies on whatever it is given:
  the parameters of a context never change, additional data is always taken, and the output
  is at most one block longer than the input.
\<close>

definition same_params :: "('c, 'h) crypto_backend \<Rightarrow> 'c \<Rightarrow> 'c \<Rightarrow> bool" where
  "same_params cb c c' \<longleftrightarrow> cipher_ctx_iv_length cb c' = cipher_ctx_iv_length cb c
     \<and> cipher_ctx_block_size cb c' = cipher_ctx_block_size cb c
     \<and> cipher_ctx_mode_aead cb c' = cipher_ctx_mode_aead cb c"

definition backend_sane :: "('c, 'h) crypto_backend \<Rightarrow> bool" where
  "backend_sane cb \<longleftrightarrow>
     (\<forall>c iv. same_params cb c (snd (cipher_ctx_reset cb c iv)))
     \<and> (\<forall>c ad. fst (cipher_ctx_update_ad cb c ad) \<and> same_params cb c (snd (cipher_ctx_update_ad cb c ad)))
     \<and> (\<forall>c inp. same_params cb c (snd (snd (cipher_ctx_update cb c inp)))
          \<and> length (fst (snd (cipher_ctx_update cb c inp))) \<le> length inp + cipher_ctx_block_size cb c)
     \<and> (\<forall>c tag. same_params cb c (snd (snd (cipher_ctx_final_check_tag cb c tag))))
     \<and> (\<forall>c inp tag. length (fst (snd (cipher_ctx_update cb c inp)))
          + length (fst (snd (cipher_ctx_final_check_tag cb (snd (snd (cipher_ctx_update cb c inp))) tag)))
          \<le> length inp + cipher_ctx_block_size cb c)"

text \<open>The state of a receiver in AEAD mode.\<close>

definition rx_inv :: "('c, 'h) crypto_backend \<Rightarrow> ('c, 'h) crypto_options \<Rightarrow> bool" where
  "rx_inv cb rx \<longleftrightarrow> replay_inv (co_replay rx)
     \<and> (case kc_cipher (co_decrypt rx) of None \<Rightarrow> False
        | Some c \<Rightarrow> cipher_ctx_mode_aead cb c \<and> kc_implicit_iv_len (co_decrypt rx) \<le> cipher_ctx_iv_length cb c)"

definition rx_covered :: "('c, 'h) crypto_options \<Rightarrow> packet_id_net \<Rightarrow> bool" where
  "rx_covered rx k \<longleftrightarrow> replay_covered (co_replay rx) k"

definition packet_pin :: "buffer \<Rightarrow> packet_id_net" where
  "packet_pin b = fst (snd (packet_id_read b False))"

lemma replay_inv_initialized: "replay_inv r \<Longrightarrow> packet_id_initialized (cr_packet_id r)"
  by (simp add: replay_inv_def pid_inv_def pid_shape_def packet_id_initialized_def)

text \<open>What every exit of the receiver guarantees.\<close>

definition rx_result :: "('c, 'h) crypto_backend \<Rightarrow> packet_id_net \<Rightarrow> ('c, 'h) crypto_options
    \<Rightarrow> (bool \<times> buffer \<times> ('c, 'h) crypto_options) option \<Rightarrow> bool" where
  "rx_result cb k rx r \<longleftrightarrow> (case r of None \<Rightarrow> False
     | Some (ok, b, rx') \<Rightarrow> rx_inv cb rx' \<and> (ok \<longrightarrow> \<not> rx_covered rx k \<and> rx_covered rx' k)
         \<and> (\<not> ok \<longrightarrow> b_len b = 0) \<and> (\<forall>k'. rx_covered rx k' \<longrightarrow> rx_covered rx' k'))"

lemma rx_result_error: "rx_inv cb rx' \<Longrightarrow> co_replay rx' = co_replay rx \<Longrightarrow> rx_result cb k rx (crypt_error b rx')"
  by (simp add: rx_result_def crypt_error_def rx_covered_def)

lemma rx_result_accept:
  assumes "rx_inv cb rx'" "co_replay rx' = co_replay rx" "1 < now"
  shows "rx_result cb k rx (decrypt_accept now (Some k) b w rx')"
proof -
  have "replay_inv (co_replay rx)" using assms(1,2) by (simp add: rx_inv_def)
  from crypto_check_replay_step[OF this assms(3), of k]
  obtain ok r where "crypto_check_replay now (co_replay rx) k = Some (ok, r)" "replay_inv r"
    "ok \<longrightarrow> \<not> replay_covered (co_replay rx) k \<and> replay_covered r k"
    "\<forall>k'. replay_covered (co_replay rx) k' \<longrightarrow> replay_covered r k'" by blast
  then show ?thesis using assms(1,2)
    by (cases ok) (auto simp: decrypt_accept_def rx_result_def rx_inv_def rx_covered_def crypt_error_def
        Let_def split: option.splits)
qed

lemma rx_inv_decrypt:
  assumes "rx_inv cb rx" "kc_cipher (co_decrypt rx) = Some c" "same_params cb c c'"
  shows "rx_inv cb (co_set_decrypt rx c')"
  using assms by (auto simp: rx_inv_def co_set_decrypt_def same_params_def)

lemma same_params_trans: "same_params cb a b \<Longrightarrow> same_params cb b c \<Longrightarrow> same_params cb a c"
  by (simp add: same_params_def)

lemma openvpn_decrypt_aead_total:
  fixes rx :: "('c, 'h) crypto_options"
  assumes sane: "backend_sane cb" and inv: "rx_inv cb rx" and now: "1 < now"
    and buf: "buf_wf buf" "0 < b_len buf" and a: "0 \<le> a" "a \<le> b_offset buf"
    and work: "buf_wf work" "0 \<le> hr" "hr \<le> b_capacity work"
  shows "rx_result cb (packet_pin buf) rx (openvpn_decrypt_aead cb now hr a buf work rx)"
proof -
  obtain c where c: "kc_cipher (co_decrypt rx) = Some c" "kc_implicit_iv_len (co_decrypt rx) \<le> cipher_ctx_iv_length cb c"
    using inv by (auto simp: rx_inv_def split: option.splits)
  have rp: "packet_id_initialized (cr_packet_id (co_replay rx))"
    using inv by (simp add: rx_inv_def replay_inv_initialized)
  obtain w0 where w0: "buf_init_dowork work hr = (True, w0)"
    using buf_init_ok[OF work(1), of hr] work(2,3) by (cases "buf_init_dowork work hr") auto
  have w0': "buf_wf w0" using buf_init_wf[OF work(1) w0] by simp
  let ?iv = "peek (the (b_data buf)) (b_offset buf) (cipher_ctx_iv_length cb c - kc_implicit_iv_len (co_decrypt rx))
      @ take (kc_implicit_iv_len (co_decrypt rx)) (kc_implicit_iv (co_decrypt rx))"
  obtain ok1 c1 where c1: "cipher_ctx_reset cb c ?iv = (ok1, c1)" by (metis surj_pair)
  have s1: "same_params cb c c1" using sane c1 unfolding backend_sane_def by (metis snd_conv)
  note err = rx_result_error[OF rx_inv_decrypt[OF inv c(1)], simplified]
  note acc = rx_result_accept[OF rx_inv_decrypt[OF inv c(1)], simplified]
  show ?thesis
  proof (cases "b_len buf + int (kc_implicit_iv_len (co_decrypt rx)) < int (cipher_ctx_iv_length cb c) \<or> \<not> ok1
      \<or> length (buf_contents buf) < 21")
    case True
    have i0: "rx_result cb k rx (crypt_error b rx)" for k b by (rule rx_result_error[OF inv refl])
    have bl: "b_len buf = int (length (buf_contents buf))" using length_buf_contents[OF buf(1)] by simp
    have adv: "4 \<le> length (buf_contents buf) \<Longrightarrow> 16 \<le> length (buf_contents buf) - 4 \<Longrightarrow>
        buf_advance (buf_adv buf 4) 16 = (True, buf_adv buf 20)"
      using buf_adv_wf[OF buf(1), of 4] buf_adv_wf(1)[of "buf_adv buf 4" 16] by simp
    show ?thesis
      unfolding openvpn_decrypt_aead_def
      using True c rp w0 c1 a buf(2) i0 err[OF s1] adv bl packet_id_read_short_form[OF buf(1)]
      by (simp add: Let_def OPENVPN_AEAD_TAG_LENGTH_def) blast
  next
    case False
    then have f: "\<not> b_len buf + int (kc_implicit_iv_len (co_decrypt rx)) < int (cipher_ctx_iv_length cb c)" "ok1"
      "21 \<le> length (buf_contents buf)" by auto
    have l: "4 \<le> length (buf_contents buf)" "20 \<le> length (buf_contents buf)" using f(3) by auto
    have bl: "b_len buf = int (length (buf_contents buf))" using length_buf_contents[OF buf(1)] by simp
    have rd: "packet_id_read buf False = (True, packet_pin buf, buf_adv buf 4)"
      using packet_id_read_short_form[OF buf(1)] l by (simp add: packet_pin_def)
    note b4 = buf_adv_wf[OF buf(1) l(1)] and b20 = buf_adv_wf[OF buf(1) l(2)]
    have a20: "buf_advance (buf_adv buf 4) 16 = (True, buf_adv buf 20)"
      using buf_adv_wf(1)[OF b4(2), of 16] b4(3) f(3) by simp
    let ?tag = "peek (the (b_data (buf_adv buf 4))) (b_offset (buf_adv buf 4)) 16"
    let ?ad = "peek (the (b_data (buf_adv buf 20))) a (nat (b_offset (buf_adv buf 20) - a - int 16))"
    obtain ok2 c2 where c2: "cipher_ctx_update_ad cb c1 ?ad = (ok2, c2)" by (metis surj_pair)
    have s2: "ok2" "same_params cb c c2"
      using sane c2 same_params_trans[OF s1] unfolding backend_sane_def by (metis fst_conv, metis snd_conv)
    let ?ct = "buf_contents (buf_adv buf 20)"
    obtain ok3 o1 c3 where c3: "cipher_ctx_update cb c2 ?ct = (ok3, o1, c3)" by (metis surj_pair)
    obtain ok4 o2 c4 where c4: "cipher_ctx_final_check_tag cb c3 ?tag = (ok4, o2, c4)" by (metis surj_pair)
    have s3: "same_params cb c c3" "length o1 + length o2 \<le> length ?ct + cipher_ctx_block_size cb c2"
      using sane c3 c4 same_params_trans[OF s2(2)] unfolding backend_sane_def by (metis snd_conv, metis fst_conv snd_conv)
    have s4: "same_params cb c c4" using sane c4 same_params_trans[OF s3(1)] unfolding backend_sane_def by (metis snd_conv)
    show ?thesis
    proof (cases "buf_safe w0 (nat (b_len (buf_adv buf 20)) + cipher_ctx_block_size cb c1) \<and> ok3")
      case False
      then show ?thesis
        unfolding openvpn_decrypt_aead_def
        using f bl c rp w0 c1 a buf(2) rd a20 c2 s2(1) c3 err[OF s1] err[OF s2(2)] err[OF s3(1)]
        by (auto simp: Let_def OPENVPN_AEAD_TAG_LENGTH_def)
    next
      case True
      have "length ?ct + cipher_ctx_block_size cb c1 \<le> buf_back w0"
        using buf_safe_D[OF w0' conjunct1[OF True]] length_buf_contents[OF b20(2)] by simp
      then have r: "length o1 + length o2 \<le> buf_back w0"
        using s3(2) s1 s2(2) by (simp add: same_params_def)
      obtain w1 where w1: "buf_put_out w0 o1 = Some w1" "buf_wf w1" "buf_back w1 = buf_back w0 - length o1"
        by (rule buf_put_out_room[OF w0', of o1]) (use r in auto)
      obtain w2 where w2: "buf_put_out w1 o2 = Some w2"
        by (rule buf_put_out_room[OF w1(2), of o2]) (use r w1(3) in auto)
      show ?thesis
        unfolding openvpn_decrypt_aead_def
        using f bl c rp w0 c1 a buf(2) rd a20 c2 s2(1) c3 c4 True w1(1) w2 err[OF s4] acc[OF s4 _ now]
        by (auto simp: Let_def OPENVPN_AEAD_TAG_LENGTH_def)
    qed
  qed
qed

section \<open>The CBC mode with an HMAC\<close>

definition cbc_seal :: "('c, 'h) crypto_backend \<Rightarrow> 'c \<Rightarrow> bytes \<Rightarrow> bytes \<Rightarrow> (bytes \<times> bytes \<times> 'c) option" where
  "cbc_seal cb c iv pt =
     (let (ok1, c) = cipher_ctx_reset cb c iv;
          (ok2, out1, c) = cipher_ctx_update cb c pt;
          (ok3, out2, c) = cipher_ctx_final cb c
      in if ok1 \<and> ok2 \<and> ok3 then Some (out1, out2, c) else None)"

definition cbc_open :: "('c, 'h) crypto_backend \<Rightarrow> 'c \<Rightarrow> bytes \<Rightarrow> bytes \<Rightarrow> (bytes \<times> 'c) option" where
  "cbc_open cb c iv ct =
     (case cbc_seal cb c iv ct of None \<Rightarrow> None | Some (out1, out2, c) \<Rightarrow> Some (out1 @ out2, c))"

text \<open>
  Two contexts of one CBC key: what one encrypts the other decrypts under the same IV; the
  ciphertext is at most one block longer, and its last block is as long as the IV.
\<close>

definition cbc_pair :: "('c, 'h) crypto_backend \<Rightarrow> 'c \<Rightarrow> 'c \<Rightarrow> bool" where
  "cbc_pair cb e d \<longleftrightarrow> cipher_ctx_mode_cbc cb e \<and> \<not> cipher_ctx_mode_aead cb e \<and> \<not> cipher_ctx_mode_aead cb d
     \<and> cipher_ctx_iv_length cb d = cipher_ctx_iv_length cb e
     \<and> 0 < cipher_ctx_iv_length cb e \<and> cipher_ctx_iv_length cb e \<le> OPENVPN_MAX_IV_LENGTH
     \<and> (\<forall>iv. cipher_ctx_block_size cb (snd (cipher_ctx_reset cb e iv)) = cipher_ctx_block_size cb e
          \<and> cipher_ctx_block_size cb (snd (cipher_ctx_reset cb d iv)) = cipher_ctx_block_size cb e)
     \<and> (\<forall>iv pt. length iv = cipher_ctx_iv_length cb e \<longrightarrow>
          (\<exists>o1 o2 e' d'. cbc_seal cb e iv pt = Some (o1, o2, e') \<and> length o2 = cipher_ctx_iv_length cb e
             \<and> length pt \<le> length (o1 @ o2) \<and> length (o1 @ o2) \<le> length pt + cipher_ctx_block_size cb e
             \<and> cbc_open cb d iv (o1 @ o2) = Some (pt, d') \<and> cipher_ctx_mode_cbc cb d'))"

definition hmac_of :: "('c, 'h) crypto_backend \<Rightarrow> 'h \<Rightarrow> bytes \<Rightarrow> bytes" where
  "hmac_of cb h m = fst (hmac_ctx_final cb (hmac_ctx_update cb (hmac_ctx_reset cb h) m))"

text \<open>Two HMAC contexts of one key; a context that is absent computes nothing.\<close>

definition hmac_pair :: "('c, 'h) crypto_backend \<Rightarrow> 'h option \<Rightarrow> 'h option \<Rightarrow> bool" where
  "hmac_pair cb h h' \<longleftrightarrow> (case (h, h') of
       (None, None) \<Rightarrow> True
     | (Some h, Some h') \<Rightarrow> (\<forall>m. length (hmac_of cb h m) = hmac_ctx_size cb h \<and> hmac_of cb h' m = hmac_of cb h m)
         \<and> hmac_ctx_size cb (hmac_ctx_reset cb h') = hmac_ctx_size cb h
     | _ \<Rightarrow> False)"

definition mac_of :: "('c, 'h) crypto_backend \<Rightarrow> 'h option \<Rightarrow> bytes \<Rightarrow> bytes" where
  "mac_of cb h m = (case h of None \<Rightarrow> [] | Some h \<Rightarrow> hmac_of cb h m)"

definition mac_size :: "('c, 'h) crypto_backend \<Rightarrow> 'h option \<Rightarrow> nat" where
  "mac_size cb h = (case h of None \<Rightarrow> 0 | Some h \<Rightarrow> hmac_ctx_size cb h)"

lemma packet_id_write_front:
  assumes wf: "buf_wf b" and u: "packet_id_send_update now p lf = (True, s)"
    and room: "packet_id_size lf \<le> buf_front b"
  obtains b' where "packet_id_write now p b lf True = (True, s, b')" "buf_wf b'"
    "buf_contents b' = packet_id_enc lf \<lparr>net_id = send_id s, net_time = send_time s\<rparr> @ buf_contents b"
proof -
  let ?t = "if lf then htontime (send_time s) else []"
  obtain b1 where b1: "(if lf then buf_write_prepend b (htontime (send_time s)) else (True, b)) = (True, b1)"
    "buf_wf b1" "4 \<le> buf_front b1"
    using buf_prepend_room[OF wf, of "htontime (send_time s)"] room wf
    by (cases lf) (auto simp: packet_id_size_def)
  obtain b2 where b2: "buf_write_prepend b1 (htonl (send_id s)) = (True, b2)"
    using buf_prepend_room[OF b1(2), of "htonl (send_id s)"] b1(3) by auto
  have w: "packet_id_write now p b lf True = (True, s, b2)"
    using u b1(1) b2 by (simp add: packet_id_write_def Let_def)
  show ?thesis using that[OF w] packet_id_write_contents[OF wf w] by simp
qed

text \<open>The work buffer with the place of the HMAC reserved.\<close>

lemma mac_reserve:
  assumes wf: "buf_wf work" and room: "mac_size cb h \<le> buf_back work"
  obtains mac w junk where "(case h of None \<Rightarrow> Some (None, work)
       | Some h \<Rightarrow> (case buf_write_alloc work (hmac_ctx_size cb h) of
                      (None, _) \<Rightarrow> None
                    | (Some p, work) \<Rightarrow> Some (Some (p, b_offset work + b_len work), work))) = Some (mac, w)"
    "buf_wf w" "buf_contents w = buf_contents work @ junk" "length junk = mac_size cb h"
    "buf_back w = buf_back work - mac_size cb h" "b_offset w = b_offset work"
    "mac = map_option (\<lambda>h. (b_offset work + int (length (buf_contents work)),
        b_offset work + int (length (buf_contents work)) + int (mac_size cb (Some h)))) h"
proof (cases h)
  case None
  show ?thesis by (rule that[of None work "[]"]) (simp_all add: None wf mac_size_def)
next
  case (Some h')
  have r: "hmac_ctx_size cb h' \<le> buf_back work" using room Some by (simp add: mac_size_def)
  obtain p w junk where w: "buf_write_alloc work (hmac_ctx_size cb h') = (Some p, w)" "p = b_offset work + b_len work"
    "buf_wf w" "length junk = hmac_ctx_size cb h'" "buf_contents w = buf_contents work @ junk"
    "buf_back w = buf_back work - hmac_ctx_size cb h'" "b_offset w = b_offset work"
    "b_len w = b_len work + int (hmac_ctx_size cb h')"
    by (rule buf_reserve[OF wf r]) blast
  show ?thesis
    by (rule that[of "Some (p, b_offset w + b_len w)" w junk])
      (use w Some length_buf_contents[OF wf] in \<open>simp_all add: mac_size_def\<close>)
qed

lemma encrypt_v1_cipher_seals:
  fixes tx :: "('c, 'h) crypto_options"
  assumes pair: "cbc_pair cb e d"
    and ini: "packet_id_initialized (cr_packet_id (co_replay tx))"
    and u: "packet_id_send_update now (co_send tx) lf = (True, s)" "lf = cr_long_form (co_replay tx)"
    and buf: "buf_wf buf" "buf_contents buf = pt" "packet_id_size lf \<le> buf_front buf"
    and work: "buf_wf work" "buf_contents work = hdr"
    and h: "h = kc_hmac (co_encrypt tx)"
    and iv: "iv = take (cipher_ctx_iv_length cb e) rnd" "cipher_ctx_iv_length cb e \<le> length rnd"
    and room: "mac_size cb h + cipher_ctx_iv_length cb e + (packet_id_size lf + length pt)
        + cipher_ctx_block_size cb e \<le> buf_back work"
  obtains w junk o1 o2 e' where
    "encrypt_v1_cipher cb rnd now buf work e tx = Some (Inr (w, map_option (\<lambda>h. (b_offset work + int (length hdr),
        b_offset work + int (length hdr) + int (mac_size cb (Some h)))) h), co_set_encrypt (co_set_send tx s) e')"
    "cbc_seal cb e iv (packet_id_enc lf \<lparr>net_id = send_id s, net_time = send_time s\<rparr> @ pt) = Some (o1, o2, e')"
    "buf_wf w" "buf_contents w = hdr @ junk @ iv @ o1 @ o2" "length junk = mac_size cb h" "b_offset w = b_offset work"
proof -
  let ?n = "cipher_ctx_iv_length cb e"
  let ?p = "packet_id_enc lf \<lparr>net_id = send_id s, net_time = send_time s\<rparr> @ pt"
  have P: "cipher_ctx_mode_cbc cb e" "?n \<le> 16" "length iv = ?n"
    using pair iv by (auto simp: cbc_pair_def OPENVPN_MAX_IV_LENGTH_def)
  obtain mac w1 junk where w1: "(case h of None \<Rightarrow> Some (None, work)
       | Some h \<Rightarrow> (case buf_write_alloc work (hmac_ctx_size cb h) of
                      (None, _) \<Rightarrow> None
                    | (Some p, work) \<Rightarrow> Some (Some (p, b_offset work + b_len work), work))) = Some (mac, w1)"
    "buf_wf w1" "buf_contents w1 = hdr @ junk" "length junk = mac_size cb h"
    "buf_back w1 = buf_back work - mac_size cb h" "b_offset w1 = b_offset work"
    "mac = map_option (\<lambda>h. (b_offset work + int (length hdr),
        b_offset work + int (length hdr) + int (mac_size cb (Some h)))) h"
    by (rule mac_reserve[OF work(1), of cb h]) (use room in \<open>auto simp: work(2)\<close>)
  obtain b1 where b1: "packet_id_write now (co_send tx) buf lf True = (True, s, b1)" "buf_wf b1" "buf_contents b1 = ?p"
    using packet_id_write_front[OF buf(1) u(1) buf(3)] buf(2) by metis
  have lb: "nat (b_len b1) = packet_id_size lf + length pt"
    using length_buf_contents[OF b1(2)] b1(3) by (simp add: length_packet_id_enc)
  have tiv: "take ?n (poke (replicate OPENVPN_MAX_IV_LENGTH 0) 0 (take ?n rnd)) = iv"
    using iv P(2) by (simp add: poke_def min_def)
  obtain o1 o2 e' where sl: "cbc_seal cb e iv ?p = Some (o1, o2, e')" "length o2 = ?n"
    "length (o1 @ o2) \<le> length ?p + cipher_ctx_block_size cb e"
    using pair P(3) unfolding cbc_pair_def by metis
  obtain c1 where c1: "cipher_ctx_reset cb e iv = (True, c1)"
    using sl(1) by (auto simp: cbc_seal_def Let_def split: prod.splits if_splits)
  have bs: "cipher_ctx_block_size cb c1 = cipher_ctx_block_size cb e"
    using pair c1 unfolding cbc_pair_def by (metis snd_conv)
  obtain c2 where c: "cipher_ctx_update cb c1 ?p = (True, o1, c2)" "cipher_ctx_final cb c2 = (True, o2, e')"
    using sl(1) c1 by (auto simp: cbc_seal_def Let_def split: prod.splits if_splits)
  have rt: "length iv \<le> buf_back w1" using room w1(5) P(3) by simp
  obtain w2 where w2: "buf_write w1 iv = (True, w2)" "buf_wf w2" "buf_contents w2 = (hdr @ junk) @ iv"
    "buf_back w2 = buf_back w1 - length iv" "buf_front w2 = buf_front w1"
    using buf_write_room[OF w1(2) rt] w1(3) by auto
  have off: "b_offset w2 = b_offset work" using w2(5,2) w1(2,6) by (auto simp: buf_front_def elim!: buf_wf_E)
  have bk: "packet_id_size lf + length pt + cipher_ctx_block_size cb e \<le> buf_back w2"
    using room w1(5) w2(4) P(3) by simp
  have sf: "buf_safe w2 (nat (b_len b1) + cipher_ctx_block_size cb c1)"
    by (rule buf_safe_room_I[OF w2(2)]) (use bk lb bs in simp)
  have r: "length o1 + length o2 \<le> buf_back w2" using sl(3) bk by (simp add: length_packet_id_enc)
  obtain w3 where w3: "buf_put_out w2 o1 = Some w3" "buf_wf w3" "buf_contents w3 = ((hdr @ junk) @ iv) @ o1"
    "buf_back w3 = buf_back w2 - length o1" "b_offset w3 = b_offset w2"
    by (rule buf_put_out_room[OF w2(2), of o1]) (use r w2(3) in auto)
  obtain w4 where w4: "buf_put_out w3 o2 = Some w4" "buf_wf w4" "buf_contents w4 = (((hdr @ junk) @ iv) @ o1) @ o2"
    "b_offset w4 = b_offset w3"
    by (rule buf_put_out_room[OF w3(2), of o2]) (use r w3(3,4) in auto)
  have "encrypt_v1_cipher cb rnd now buf work e tx = Some (Inr (w4, mac), co_set_encrypt (co_set_send tx s) e')"
    unfolding encrypt_v1_cipher_def
    using w1(1) P(1) ini b1(1) tiv w2(1) c1 c sf b1(3) w3(1) w4(1) sl(2)
    unfolding h u(2)[symmetric] by (simp add: Let_def)
  then show ?thesis using that sl(1) w4 w3(5) off w1(4,7) by simp
qed

lemma openvpn_encrypt_v1_seals:
  fixes tx :: "('c, 'h) crypto_options"
  assumes pair: "cbc_pair cb e d" "kc_cipher (co_encrypt tx) = Some e"
    and ini: "packet_id_initialized (cr_packet_id (co_replay tx))"
    and u: "packet_id_send_update now (co_send tx) lf = (True, s)" "lf = cr_long_form (co_replay tx)"
    and buf: "buf_wf buf" "buf_contents buf = pt" "packet_id_size lf \<le> buf_front buf" "pt \<noteq> []"
    and work: "buf_wf work" "buf_contents work = hdr"
    and h: "h = kc_hmac (co_encrypt tx)" "hmac_pair cb h h'"
    and iv: "iv = take (cipher_ctx_iv_length cb e) rnd" "cipher_ctx_iv_length cb e \<le> length rnd"
    and room: "mac_size cb h + cipher_ctx_iv_length cb e + (packet_id_size lf + length pt)
        + cipher_ctx_block_size cb e \<le> buf_back work"
  obtains out tx' o1 o2 e' where
    "openvpn_encrypt_v1 cb rnd now buf work tx = Some (out, tx')" "co_replay tx' = co_replay (co_set_send tx s)"
    "cbc_seal cb e iv (packet_id_enc lf \<lparr>net_id = send_id s, net_time = send_time s\<rparr> @ pt) = Some (o1, o2, e')"
    "buf_wf out" "buf_contents out = hdr @ mac_of cb h (iv @ o1 @ o2) @ iv @ o1 @ o2"
proof -
  obtain w junk o1 o2 e' where w: "encrypt_v1_cipher cb rnd now buf work e tx = Some (Inr (w, map_option (\<lambda>h. (b_offset work + int (length hdr),
        b_offset work + int (length hdr) + int (mac_size cb (Some h)))) h), co_set_encrypt (co_set_send tx s) e')"
    "cbc_seal cb e iv (packet_id_enc lf \<lparr>net_id = send_id s, net_time = send_time s\<rparr> @ pt) = Some (o1, o2, e')"
    "buf_wf w" "buf_contents w = hdr @ junk @ iv @ o1 @ o2" "length junk = mac_size cb h" "b_offset w = b_offset work"
    by (rule encrypt_v1_cipher_seals[OF pair(1) ini u buf(1-3) work h(1) iv room])
  have "int (length pt) = b_len buf" using length_buf_contents[OF buf(1)] buf(2) by simp
  moreover have "0 < int (length pt)" using buf(4) by simp
  ultimately have bl: "0 < b_len buf" by linarith
  have hh: "kc_hmac (co_encrypt (co_set_encrypt (co_set_send tx s) e')) = h"
    by (simp add: h co_set_encrypt_def co_set_send_def)
  show ?thesis
  proof (cases h)
    case None
    then have "openvpn_encrypt_v1 cb rnd now buf work tx = Some (w, co_set_encrypt (co_set_send tx s) e')"
      using bl pair(2) w(1) hh by (simp add: openvpn_encrypt_v1_def)
    moreover have "buf_contents w = hdr @ mac_of cb h (iv @ o1 @ o2) @ iv @ o1 @ o2"
      using None w(4,5) by (simp add: mac_of_def mac_size_def)
    ultimately show ?thesis using that w(2,3) by simp
  next
    case (Some hc)
    let ?start = "b_offset work + int (length hdr) + int (hmac_ctx_size cb hc)"
    let ?m = "iv @ o1 @ o2"
    let ?t = "hmac_of cb hc ?m"
    have lt: "length ?t = hmac_ctx_size cb hc" using h(2) Some by (cases h') (auto simp: hmac_pair_def)
    obtain dt where dt: "b_data w = Some dt" using w(3) by (rule buf_wf_E)
    have bw: "b_len w = int (length (hdr @ junk @ ?m))" using length_buf_contents[OF w(3)] w(4) by simp
    have st: "b_offset (buf_adv w (length (hdr @ junk))) = ?start" using w(5,6) Some by (simp add: mac_size_def)
    have le: "length (hdr @ junk) \<le> length (buf_contents w)" using w(4) by simp
    have n: "nat (b_offset w + b_len w - ?start) = length ?m" using bw w(5,6) Some by (simp add: mac_size_def)
    have "peek dt ?start (length ?m) = ?m"
      using peek_front[OF buf_adv_wf(2)[OF w(3) le], of dt "length ?m"] buf_adv_wf(3)[OF w(3) le] w(4) dt
      unfolding st by simp
    then have e: "openvpn_encrypt_v1 cb rnd now buf work tx = Some (buf_poke w (b_offset work + int (length hdr)) ?t,
        (co_set_encrypt (co_set_send tx s) e')\<lparr>co_encrypt := (co_encrypt (co_set_encrypt (co_set_send tx s) e'))
          \<lparr>kc_hmac := Some (snd (hmac_ctx_final cb (hmac_ctx_update cb (hmac_ctx_reset cb hc) ?m)))\<rparr>\<rparr>)"
      using bl pair(2) w(1) hh Some n dt
      by (simp add: openvpn_encrypt_v1_def Let_def mac_size_def hmac_of_def split: prod.splits)
    have "buf_wf (buf_poke w (b_offset w + int (length hdr)) ?t)
      \<and> buf_contents (buf_poke w (b_offset w + int (length hdr)) ?t) = hdr @ ?t @ ?m"
      by (rule buf_poke_in[OF w(3,4)]) (use lt w(5) Some in \<open>simp add: mac_size_def\<close>)
    then show ?thesis using that[OF e _ w(2)] w(6) Some by (simp add: mac_of_def)
  qed
qed

lemma decrypt_v1_auth_ok:
  fixes rx :: "('c, 'h) crypto_options"
  assumes "hmac_pair cb h (kc_hmac (co_decrypt rx))" "buf_wf buf" "buf_contents buf = mac_of cb h m @ m"
  obtains b' rx' where "decrypt_v1_auth cb buf rx = Some (True, b', rx')" "buf_wf b'" "buf_contents b' = m"
    "co_replay rx' = co_replay rx" "kc_cipher (co_decrypt rx') = kc_cipher (co_decrypt rx)"
proof (cases h)
  case None
  then have "kc_hmac (co_decrypt rx) = None" using assms(1) by (auto simp: hmac_pair_def split: option.splits)
  then show ?thesis using that[of buf rx] assms(2,3) None by (simp add: decrypt_v1_auth_def mac_of_def)
next
  case (Some hc)
  then obtain hd' where h': "kc_hmac (co_decrypt rx) = Some hd'"
    "length (hmac_of cb hc m) = hmac_ctx_size cb hc" "hmac_of cb hd' m = hmac_of cb hc m"
    "hmac_ctx_size cb (hmac_ctx_reset cb hd') = hmac_ctx_size cb hc"
    using assms(1) by (auto simp: hmac_pair_def split: option.splits)
  let ?n = "hmac_ctx_size cb hc"
  have c: "buf_contents buf = hmac_of cb hc m @ m" using assms(3) Some by (simp add: mac_of_def)
  have le: "?n \<le> length (buf_contents buf)" using c h'(2) by simp
  obtain t h2 where f: "hmac_ctx_final cb (hmac_ctx_update cb (hmac_ctx_reset cb hd') m) = (t, h2)" by (metis surj_pair)
  have t: "t = hmac_of cb hc m" using f h'(3) by (simp add: hmac_of_def)
  have "\<not> b_len buf < int ?n" using le length_buf_contents[OF assms(2)] by simp
  then have "decrypt_v1_auth cb buf rx = Some (True, buf_adv buf ?n,
      rx\<lparr>co_decrypt := (co_decrypt rx)\<lparr>kc_hmac := Some h2\<rparr>\<rparr>)"
    using h' c f t buf_adv_wf(1)[OF assms(2) le] by (simp add: decrypt_v1_auth_def Let_def)
  then show ?thesis using that buf_adv_wf(2,3)[OF assms(2) le] c h'(2) by simp
qed

lemma decrypt_v1_cipher_opens:
  fixes rx :: "('c, 'h) crypto_options"
  assumes ivn: "cipher_ctx_iv_length cb d \<le> OPENVPN_MAX_IV_LENGTH" "length iv = cipher_ctx_iv_length cb d"
    and bs: "\<forall>iv. cipher_ctx_block_size cb (snd (cipher_ctx_reset cb d iv)) = bsize"
    and opn: "cbc_open cb d iv ct = Some (packet_id_enc lf k @ pt, d')" "cipher_ctx_mode_cbc cb d'"
    and ini: "packet_id_initialized (cr_packet_id (co_replay rx))" and lf: "lf = cr_long_form (co_replay rx)"
    and k: "packet_id_wire lf k"
    and buf: "buf_wf buf" "buf_contents buf = iv @ ct" "ct \<noteq> []"
    and work: "buf_wf work" "0 \<le> hr" "hr + int (length ct) + int bsize \<le> b_capacity work"
    and lp: "length (packet_id_enc lf k @ pt) \<le> length ct"
  obtains b' out where "decrypt_v1_cipher cb now hr buf work d rx
      = decrypt_accept now (Some k) b' out (co_set_decrypt rx d')" "buf_wf out" "buf_contents out = pt"
proof -
  let ?n = "cipher_ctx_iv_length cb d"
  have le: "?n \<le> length (buf_contents buf)" using buf(2) ivn(2) by simp
  have bl: "b_len buf = int ?n + int (length ct)" using length_buf_contents[OF buf(1)] buf(2) ivn(2) by simp
  have lct: "0 < length ct" using buf(3) by simp
  obtain w0 where w0: "buf_init_dowork work hr = (True, w0)"
    using buf_init_ok[OF work(1), of hr] work(2,3) by (cases "buf_init_dowork work hr") auto
  have w0': "buf_wf w0" "buf_contents w0 = []" "buf_back w0 = nat (b_capacity work - hr)"
    using buf_init_wf[OF work(1) w0] by auto
  note ba = buf_adv_wf[OF buf(1) le]
  have bc: "buf_contents (buf_adv buf ?n) = ct" using ba(3) buf(2) ivn(2) by simp
  have tiv: "take ?n (poke (replicate OPENVPN_MAX_IV_LENGTH 0) 0 (take ?n (buf_contents buf))) = iv"
    using buf(2) ivn by (simp add: poke_def)
  obtain c1 where c1: "cipher_ctx_reset cb d iv = (True, c1)"
    using opn(1) by (auto simp: cbc_open_def cbc_seal_def Let_def split: prod.splits if_splits option.splits)
  obtain o1 c2 o2 where c: "cipher_ctx_update cb c1 ct = (True, o1, c2)" "cipher_ctx_final cb c2 = (True, o2, d')"
    "packet_id_enc lf k @ pt = o1 @ o2"
    using opn(1) c1 by (auto simp: cbc_open_def cbc_seal_def Let_def split: prod.splits if_splits option.splits)
  have bs1: "cipher_ctx_block_size cb c1 = bsize" using bs c1 by (metis snd_conv)
  have bk: "length ct + bsize \<le> buf_back w0" using w0'(3) work(3) by simp
  have sf: "buf_safe w0 (nat (int (length ct)) + bsize)"
    by (rule buf_safe_room_I[OF w0'(1)]) (use bk in simp)
  have r: "length o1 + length o2 \<le> buf_back w0" using bk lp unfolding c(3) by simp
  obtain w1 where w1: "buf_put_out w0 o1 = Some w1" "buf_wf w1" "buf_contents w1 = o1"
    "buf_back w1 = buf_back w0 - length o1"
    by (rule buf_put_out_room[OF w0'(1), of o1]) (use r w0'(2) in auto)
  obtain w2 where w2: "buf_put_out w1 o2 = Some w2" "buf_wf w2" "buf_contents w2 = packet_id_enc lf k @ pt"
    by (rule buf_put_out_room[OF w1(2), of o2]) (use r w1(3,4) in \<open>auto simp: c(3)\<close>)
  obtain w3 where w3: "packet_id_read w2 lf = (True, k, w3)" "buf_wf w3" "buf_contents w3 = pt"
    using packet_id_read_enc[OF k w2(2,3)] by blast
  have "decrypt_v1_cipher cb now hr buf work d rx
      = decrypt_accept now (Some k) (buf_adv buf ?n) w3 (co_set_decrypt rx d')"
    unfolding decrypt_v1_cipher_def
    using w0 bl ba(1) lct tiv c1 sf bs1 bc c(1,2) w1(1) w2(1) opn(2) ini w3(1)[unfolded lf] by (simp add: Let_def)
  then show ?thesis using that w3(2,3) by blast
qed

lemma decrypt_accept_result:
  assumes "crypto_check_replay now (co_replay rx) k = Some (ok, r)" "buf_wf out"
  shows "\<exists>b'. decrypt_accept now (Some k) b out rx = Some (ok, b', rx\<lparr>co_replay := r\<rparr>)
    \<and> buf_contents b' = (if ok then buf_contents out else [])"
  using assms by (auto simp: decrypt_accept_def crypt_error_def buf_contents_def buf_len_def peek_def split: option.splits)

end
