(* ===== verification/Session_Id.thy ===== *)
theory Session_Id
  imports Buffer
begin

text \<open>
  Session identifiers (\<open>session_id.h\<close>): eight bytes that name one side of a TLS session. A
  session identifier is the list of its bytes. The random generation and the printing of
  \<open>session_id.c\<close> are not modelled.
\<close>

type_synonym session_id = bytes

definition SID_SIZE :: nat where "SID_SIZE = 8"

definition x_session_id_zero :: session_id where "x_session_id_zero = replicate SID_SIZE 0"

definition session_id_equal :: "session_id \<Rightarrow> session_id \<Rightarrow> bool" where
  "session_id_equal sid1 sid2 \<longleftrightarrow> sid1 = sid2"

definition session_id_defined :: "session_id \<Rightarrow> bool" where
  "session_id_defined sid1 \<longleftrightarrow> sid1 \<noteq> x_session_id_zero"

definition session_id_read :: "buffer \<Rightarrow> session_id option \<times> buffer" where
  "session_id_read buf = buf_read buf SID_SIZE"

definition session_id_write_prepend :: "session_id \<Rightarrow> buffer \<Rightarrow> bool \<times> buffer" where
  "session_id_write_prepend sid buf = buf_write_prepend buf sid"

definition session_id_write :: "session_id \<Rightarrow> buffer \<Rightarrow> bool \<times> buffer" where
  "session_id_write sid buf = buf_write buf sid"

definition sid_ok :: "session_id \<Rightarrow> bool" where
  "sid_ok sid \<longleftrightarrow> length sid = SID_SIZE"

lemma session_id_read_enc:
  assumes "sid_ok sid" "buf_wf b" "buf_contents b = sid @ rest"
  shows "\<exists>b'. session_id_read b = (Some sid, b') \<and> buf_wf b' \<and> buf_contents b' = rest"
proof -
  obtain b' where "buf_read b (length sid) = (Some sid, b')" "buf_wf b'" "buf_contents b' = rest"
    by (rule buf.read_prefix[OF assms(2,3)])
  then show ?thesis using assms(1) by (simp add: session_id_read_def sid_ok_def)
qed

end
