(* ===== verification/Key_State.thy ===== *)
theory Key_State
  imports Crypto Session_Id
begin

text \<open>
  The data channel keys of a tunnel (\<open>ssl.c\<close>, \<open>ssl_common.h\<close>): a session holds the key in use
  and the retiring one, the lame duck; a tunnel holds the active session, the one being
  negotiated and the one kept for its lame duck. Modelled are the life of the keys (their
  initialisation with a fresh key id, soft resets, expiry, moving and resetting of sessions),
  and the choice of the key for a received and for an outgoing packet.

  The parts of a key state that negotiate the keys (the TLS object, the reliability layer, the
  buffers and the random material) and the control channel wrapping of a session are not part
  of this record.
\<close>

section \<open>Addresses\<close>

text \<open>
  The union of the socket addresses: the port is at the same place in both families, and the
  word behind it is the IPv4 address or the IPv6 flow information.
\<close>

datatype sa_family = AF_UNSPEC | AF_INET | AF_INET6

record openvpn_sockaddr =
  sa_family :: sa_family
  sa_port :: u16
  sa_word :: u32
  sa_in6 :: bytes

definition addr_undefined :: openvpn_sockaddr where
  "addr_undefined = \<lparr>sa_family = AF_UNSPEC, sa_port = 0, sa_word = 0, sa_in6 = replicate 16 0\<rparr>"

definition addr_port_match :: "openvpn_sockaddr \<Rightarrow> openvpn_sockaddr \<Rightarrow> bool option" where
  "addr_port_match a1 a2 =
     (case sa_family a1 of
        AF_INET \<Rightarrow> Some (sa_word a1 = sa_word a2 \<and> sa_port a1 = sa_port a2)
      | AF_INET6 \<Rightarrow> Some (sa_in6 a1 = sa_in6 a2 \<and> sa_port a1 = sa_port a2)
      | AF_UNSPEC \<Rightarrow> None)"

section \<open>State\<close>

definition S_ERROR :: int where "S_ERROR = - 1"
definition S_UNDEF :: int where "S_UNDEF = 0"
definition S_INITIAL :: int where "S_INITIAL = 1"
definition S_ACTIVE :: int where "S_ACTIVE = 6"
definition S_GENERATED_KEYS :: int where "S_GENERATED_KEYS = 7"

definition P_KEY_ID_MASK :: nat where "P_KEY_ID_MASK = 7"
definition P_OPCODE_SHIFT :: nat where "P_OPCODE_SHIFT = 3"
definition P_CONTROL_SOFT_RESET_V1 :: nat where "P_CONTROL_SOFT_RESET_V1 = 3"
definition P_DATA_V1 :: nat where "P_DATA_V1 = 6"
definition P_CONTROL_HARD_RESET_CLIENT_V2 :: nat where "P_CONTROL_HARD_RESET_CLIENT_V2 = 7"
definition P_CONTROL_HARD_RESET_SERVER_V2 :: nat where "P_CONTROL_HARD_RESET_SERVER_V2 = 8"
definition P_DATA_V2 :: nat where "P_DATA_V2 = 9"
definition P_CONTROL_HARD_RESET_CLIENT_V3 :: nat where "P_CONTROL_HARD_RESET_CLIENT_V3 = 10"

definition is_hard_reset_method2 :: "nat \<Rightarrow> bool" where
  "is_hard_reset_method2 op \<longleftrightarrow> op = P_CONTROL_HARD_RESET_CLIENT_V2
     \<or> op = P_CONTROL_HARD_RESET_SERVER_V2 \<or> op = P_CONTROL_HARD_RESET_CLIENT_V3"

datatype ks_auth_state = KS_AUTH_FALSE | KS_AUTH_DEFERRED | KS_AUTH_TRUE

record ('c, 'h) key_state =
  ks_state :: int
  ks_key_id :: nat
  ks_initial_opcode :: nat
  ks_must_die :: int
  ks_session_id_remote :: session_id
  ks_remote_addr :: openvpn_sockaddr
  ks_crypto_options :: "('c, 'h) crypto_options"
  ks_key_ctx_initialized :: bool
  ks_authenticated :: ks_auth_state
  ks_auth_deferred_expire :: int
  ks_n_bytes :: int
  ks_n_packets :: int

record tls_options =
  opt_server :: bool
  opt_tls_crypt_v2 :: bool
  opt_replay :: bool
  opt_replay_window :: int
  opt_replay_time :: int
  opt_transition_window :: int
  opt_single_session :: bool

record ('c, 'h) tls_session =
  ss_initial_opcode :: nat
  ss_session_id :: session_id
  ss_key_id :: nat
  ss_primary :: "('c, 'h) key_state"
  ss_lame_duck :: "('c, 'h) key_state"

datatype multi_status = CAS_NOT_CONNECTED | CAS_WAITING_AUTH | CAS_PENDING | CAS_PENDING_DEFERRED
  | CAS_PENDING_DEFERRED_PARTIAL | CAS_FAILED | CAS_WAITING_OPTIONS_IMPORT | CAS_CONNECT_DONE

datatype tm_index = TM_ACTIVE | TM_UNTRUSTED | TM_LAME_DUCK

record ('c, 'h) tls_multi =
  tm_opt :: tls_options
  tm_save_ks :: "nat option"
  tm_multi_state :: multi_status
  tm_n_soft_errors :: int
  tm_peer_id :: u32
  tm_use_peer_id :: bool
  tm_active :: "('c, 'h) tls_session"
  tm_untrusted :: "('c, 'h) tls_session"
  tm_lame_duck :: "('c, 'h) tls_session"

text \<open>The C enumeration is ordered by its position.\<close>

primrec multi_status_pos :: "multi_status \<Rightarrow> nat" where
  "multi_status_pos CAS_NOT_CONNECTED = 0"
| "multi_status_pos CAS_WAITING_AUTH = 1"
| "multi_status_pos CAS_PENDING = 2"
| "multi_status_pos CAS_PENDING_DEFERRED = 3"
| "multi_status_pos CAS_PENDING_DEFERRED_PARTIAL = 4"
| "multi_status_pos CAS_FAILED = 5"
| "multi_status_pos CAS_WAITING_OPTIONS_IMPORT = 6"
| "multi_status_pos CAS_CONNECT_DONE = 7"

lemma multi_status_pos_inj: "multi_status_pos a = multi_status_pos b \<Longrightarrow> a = b"
  by (cases a; cases b) simp_all

instantiation multi_status :: linorder
begin

definition less_eq_multi_status :: "multi_status \<Rightarrow> multi_status \<Rightarrow> bool" where
  "a \<le> b \<longleftrightarrow> multi_status_pos a \<le> multi_status_pos b"

definition less_multi_status :: "multi_status \<Rightarrow> multi_status \<Rightarrow> bool" where
  "a < b \<longleftrightarrow> multi_status_pos a < multi_status_pos b"

instance
  by standard (auto simp: less_eq_multi_status_def less_multi_status_def intro: multi_status_pos_inj)

end

lemma CAS_CONNECT_DONE_top: "\<not> s < CAS_CONNECT_DONE \<longleftrightarrow> s = CAS_CONNECT_DONE"
  by (cases s) (simp_all add: less_multi_status_def)

section \<open>The life of a key\<close>

definition key_ctx_zero :: "('c, 'h) key_ctx" where
  "key_ctx_zero = \<lparr>kc_cipher = None, kc_hmac = None, kc_implicit_iv = replicate OPENVPN_MAX_IV_LENGTH 0,
     kc_implicit_iv_len = 0\<rparr>"

definition packet_id_zero :: packet_id where
  "packet_id_zero = \<lparr>pid_send = \<lparr>send_id = 0, send_time = 0\<rparr>, pid_rec = packet_id_rec_zero\<rparr>"

definition crypto_options_zero :: "('c, 'h) crypto_options" where
  "crypto_options_zero = \<lparr>co_encrypt = key_ctx_zero, co_decrypt = key_ctx_zero,
     co_replay = \<lparr>cr_packet_id = packet_id_zero, cr_pid_persist = None, cr_long_form = False\<rparr>,
     co_ignore_packet_id = False\<rparr>"

definition key_state_zero :: "('c, 'h) key_state" where
  "key_state_zero = \<lparr>ks_state = S_UNDEF, ks_key_id = 0, ks_initial_opcode = 0, ks_must_die = 0,
     ks_session_id_remote = replicate SID_SIZE 0, ks_remote_addr = addr_undefined,
     ks_crypto_options = crypto_options_zero, ks_key_ctx_initialized = False,
     ks_authenticated = KS_AUTH_FALSE, ks_auth_deferred_expire = 0, ks_n_bytes = 0, ks_n_packets = 0\<rparr>"

text \<open>The key id after this one: it counts up to the mask, then recycles to 1.\<close>

definition next_key_id :: "nat \<Rightarrow> nat" where
  "next_key_id k = (let k = (k + 1) AND P_KEY_ID_MASK in if k = 0 then 1 else k)"

definition key_state_init ::
  "tls_options \<Rightarrow> ('c, 'h) tls_session \<Rightarrow> (('c, 'h) key_state \<times> ('c, 'h) tls_session) option" where
  "key_state_init opt session = do {
     let ks = key_state_zero\<lparr>ks_initial_opcode := ss_initial_opcode session,
                             ks_state := S_INITIAL, ks_key_id := ss_key_id session\<rparr>;
     let session = session\<lparr>ss_initial_opcode := P_CONTROL_SOFT_RESET_V1,
                           ss_key_id := next_key_id (ss_key_id session)\<rparr>;
     pid \<leftarrow> (if opt_replay opt then packet_id_init (opt_replay_window opt) (opt_replay_time opt)
             else Some packet_id_zero);
     let co = ks_crypto_options ks;
     Some (ks\<lparr>ks_crypto_options := co\<lparr>co_replay := (co_replay co)\<lparr>cr_packet_id := pid, cr_pid_persist := None\<rparr>\<rparr>\<rparr>,
           session) }"

definition key_state_free :: "('c, 'h) key_state \<Rightarrow> bool \<Rightarrow> ('c, 'h) key_state" where
  "key_state_free ks clear =
     (if clear then key_state_zero
      else let co = ks_crypto_options ks in
        ks\<lparr>ks_state := S_UNDEF, ks_key_ctx_initialized := False,
           ks_crypto_options := co\<lparr>co_encrypt := key_ctx_zero, co_decrypt := key_ctx_zero,
             co_replay := (co_replay co)\<lparr>cr_packet_id := packet_id_free (cr_packet_id (co_replay co))\<rparr>\<rparr>\<rparr>)"

definition key_state_soft_reset ::
  "int \<Rightarrow> tls_options \<Rightarrow> ('c, 'h) tls_session \<Rightarrow> ('c, 'h) tls_session option" where
  "key_state_soft_reset now opt session = do {
     let ks = (ss_primary session)\<lparr>ks_must_die := now + opt_transition_window opt\<rparr>;
     let session = session\<lparr>ss_lame_duck := ks\<rparr>;
     (ks', session) \<leftarrow> key_state_init opt session;
     Some (session\<lparr>ss_primary := ks'\<lparr>ks_session_id_remote := ks_session_id_remote ks,
                                     ks_remote_addr := ks_remote_addr ks\<rparr>\<rparr>) }"

definition tls_session_zero :: "('c, 'h) tls_session" where
  "tls_session_zero = \<lparr>ss_initial_opcode = 0, ss_session_id = replicate SID_SIZE 0, ss_key_id = 0,
     ss_primary = key_state_zero, ss_lame_duck = key_state_zero\<rparr>"

text \<open>The random session id, drawn until it is not zero, is an argument.\<close>

definition tls_session_init :: "session_id \<Rightarrow> tls_options \<Rightarrow> ('c, 'h) tls_session option" where
  "tls_session_init sid opt = do {
     let session = tls_session_zero\<lparr>ss_session_id := sid,
       ss_initial_opcode := (if opt_server opt then P_CONTROL_HARD_RESET_SERVER_V2
                             else if opt_tls_crypt_v2 opt then P_CONTROL_HARD_RESET_CLIENT_V3
                             else P_CONTROL_HARD_RESET_CLIENT_V2)\<rparr>;
     (ks, session) \<leftarrow> key_state_init opt session;
     Some (session\<lparr>ss_primary := ks\<rparr>) }"

definition tls_session_free :: "('c, 'h) tls_session \<Rightarrow> bool \<Rightarrow> ('c, 'h) tls_session" where
  "tls_session_free session clear =
     (if clear then tls_session_zero
      else session\<lparr>ss_primary := key_state_free (ss_primary session) False,
                   ss_lame_duck := key_state_free (ss_lame_duck session) False\<rparr>)"

primrec tm_session :: "tm_index \<Rightarrow> ('c, 'h) tls_multi \<Rightarrow> ('c, 'h) tls_session" where
  "tm_session TM_ACTIVE multi = tm_active multi"
| "tm_session TM_UNTRUSTED multi = tm_untrusted multi"
| "tm_session TM_LAME_DUCK multi = tm_lame_duck multi"

primrec tm_set_session :: "tm_index \<Rightarrow> ('c, 'h) tls_session \<Rightarrow> ('c, 'h) tls_multi \<Rightarrow> ('c, 'h) tls_multi" where
  "tm_set_session TM_ACTIVE s multi = multi\<lparr>tm_active := s\<rparr>"
| "tm_set_session TM_UNTRUSTED s multi = multi\<lparr>tm_untrusted := s\<rparr>"
| "tm_set_session TM_LAME_DUCK s multi = multi\<lparr>tm_lame_duck := s\<rparr>"

definition move_session ::
  "session_id \<Rightarrow> ('c, 'h) tls_multi \<Rightarrow> tm_index \<Rightarrow> tm_index \<Rightarrow> bool \<Rightarrow> ('c, 'h) tls_multi option" where
  "move_session sid multi dest src reinit_src = do {
     ASSERT (src \<noteq> dest);
     let multi = tm_set_session dest (tm_session src multi) multi;
     s \<leftarrow> (if reinit_src then tls_session_init sid (tm_opt multi) else Some tls_session_zero);
     Some (tm_set_session src s multi) }"

definition reset_session :: "session_id \<Rightarrow> ('c, 'h) tls_multi \<Rightarrow> tm_index \<Rightarrow> ('c, 'h) tls_multi option" where
  "reset_session sid multi i = do {
     s \<leftarrow> tls_session_init sid (tm_opt multi);
     Some (tm_set_session i s multi) }"

definition compute_earliest_wakeup :: "int \<Rightarrow> int \<Rightarrow> int" where
  "compute_earliest_wakeup earliest seconds_from_now =
     (let earliest = (if seconds_from_now < earliest then seconds_from_now else earliest)
      in if earliest < 0 then 0 else earliest)"

definition lame_duck_must_die :: "int \<Rightarrow> ('c, 'h) tls_session \<Rightarrow> int \<Rightarrow> (bool \<times> int) option" where
  "lame_duck_must_die now session wakeup =
     (let lame = ss_lame_duck session in
      if ks_state lame \<ge> S_INITIAL then do {
        ASSERT (ks_must_die lame \<noteq> 0);
        if now < ks_must_die lame
        then Some (False, compute_earliest_wakeup wakeup (ks_must_die lame - now))
        else Some (True, wakeup) }
      else Some (ks_state lame = S_ERROR, wakeup))"

definition tls_multi_init_finalize ::
  "session_id \<Rightarrow> session_id \<Rightarrow> ('c, 'h) tls_multi \<Rightarrow> ('c, 'h) tls_multi option" where
  "tls_multi_init_finalize sid1 sid2 multi = do {
     s \<leftarrow> tls_session_init sid1 (tm_opt multi);
     let multi = multi\<lparr>tm_active := s\<rparr>;
     if opt_single_session (tm_opt multi) then Some multi
     else do {
       s \<leftarrow> tls_session_init sid2 (tm_opt multi);
       Some (multi\<lparr>tm_untrusted := s\<rparr>) } }"

section \<open>The keys in the order the data channel scans them\<close>

definition KEY_SCAN_SIZE :: nat where "KEY_SCAN_SIZE = 3"

definition get_key_scan :: "('c, 'h) tls_multi \<Rightarrow> nat \<Rightarrow> ('c, 'h) key_state option" where
  "get_key_scan multi i =
     (if i = 0 then Some (ss_primary (tm_active multi))
      else if i = 1 then Some (ss_lame_duck (tm_active multi))
      else if i = 2 then Some (ss_lame_duck (tm_lame_duck multi))
      else None)"

definition set_key_scan :: "nat \<Rightarrow> ('c, 'h) key_state \<Rightarrow> ('c, 'h) tls_multi \<Rightarrow> ('c, 'h) tls_multi" where
  "set_key_scan i ks multi =
     (if i = 0 then multi\<lparr>tm_active := (tm_active multi)\<lparr>ss_primary := ks\<rparr>\<rparr>
      else if i = 1 then multi\<lparr>tm_active := (tm_active multi)\<lparr>ss_lame_duck := ks\<rparr>\<rparr>
      else multi\<lparr>tm_lame_duck := (tm_lame_duck multi)\<lparr>ss_lame_duck := ks\<rparr>\<rparr>)"

text \<open>The scan for the key of a received packet: its index, if there is one.\<close>

definition decrypt_key_match ::
  "('c, 'h) key_state \<Rightarrow> openvpn_sockaddr \<Rightarrow> nat \<Rightarrow> bool \<Rightarrow> bool option" where
  "decrypt_key_match ks from_addr key_id floated =
     (if ks_state ks \<ge> S_GENERATED_KEYS \<and> key_id = ks_key_id ks \<and> ks_authenticated ks = KS_AUTH_TRUE
      then if floated then Some True else addr_port_match from_addr (ks_remote_addr ks)
      else Some False)"

fun scan_decrypt_key ::
  "('c, 'h) tls_multi \<Rightarrow> openvpn_sockaddr \<Rightarrow> nat \<Rightarrow> bool \<Rightarrow> nat list \<Rightarrow> nat option option" where
  "scan_decrypt_key multi from_addr key_id floated [] = Some None"
| "scan_decrypt_key multi from_addr key_id floated (i # is') = do {
     ks \<leftarrow> get_key_scan multi i;
     m \<leftarrow> decrypt_key_match ks from_addr key_id floated;
     if m then Some (Some i) else scan_decrypt_key multi from_addr key_id floated is' }"

text \<open>
  The data packet of a peer: the tunnel, the buffer behind the header, the index of the key to
  decrypt with and the start of the authenticated header.
\<close>

definition handle_data_channel_packet ::
  "('c, 'h) tls_multi \<Rightarrow> openvpn_sockaddr \<Rightarrow> buffer \<Rightarrow> bool
     \<Rightarrow> (('c, 'h) tls_multi \<times> buffer \<times> (nat \<times> int option) option) option" where
  "handle_data_channel_packet multi from_addr buf floated = do {
     p \<leftarrow> buf_bptr buf;
     let c = the (b_data buf) ! nat p;
     let op = unat (drop_bit P_OPCODE_SHIFT c);
     let key_id = unat (c AND of_nat P_KEY_ID_MASK);
     r \<leftarrow> scan_decrypt_key multi from_addr key_id floated [0..<KEY_SCAN_SIZE];
     (case r of
        None \<Rightarrow> Some (multi, buf\<lparr>b_len := 0\<rparr>, None)
      | Some i \<Rightarrow> do {
          ks \<leftarrow> get_key_scan multi i;
          if \<not> ks_key_ctx_initialized ks then Some (multi, buf\<lparr>b_len := 0\<rparr>, None)
          else do {
            let ad = (if op = P_DATA_V2 then Some p else None);
            let (ok, buf) = buf_advance buf 1;
            ASSERT ok;
            let ad = (if op = P_DATA_V1 then buf_bptr buf else ad);
            if op = P_DATA_V2 \<and> b_len buf < 4
            then Some (multi\<lparr>tm_n_soft_errors := tm_n_soft_errors multi + 1\<rparr>, buf\<lparr>b_len := 0\<rparr>, None)
            else do {
              let (ok, buf) = (if op = P_DATA_V2 then buf_advance buf 3 else (True, buf));
              ASSERT ok;
              let ks = ks\<lparr>ks_n_packets := ks_n_packets ks + 1, ks_n_bytes := ks_n_bytes ks + b_len buf\<rparr>;
              Some (set_key_scan i ks multi, buf, Some (i, ad)) } } }) }"

section \<open>The key of an outgoing packet\<close>

text \<open>
  The first usable key whose grace period for a deferred authentication is over, else the first
  usable key.
\<close>

fun select_key :: "int \<Rightarrow> ('c, 'h) tls_multi \<Rightarrow> nat option \<Rightarrow> nat list \<Rightarrow> nat option option" where
  "select_key now multi sel [] = Some sel"
| "select_key now multi sel (i # is') = do {
     ks \<leftarrow> get_key_scan multi i;
     if ks_state ks \<ge> S_GENERATED_KEYS \<and> ks_authenticated ks = KS_AUTH_TRUE then do {
       ASSERT (ks_key_ctx_initialized ks);
       let sel = (case sel of None \<Rightarrow> Some i | Some j \<Rightarrow> Some j);
       if now \<ge> ks_auth_deferred_expire ks then Some (Some i)
       else select_key now multi sel is' }
     else select_key now multi sel is' }"

definition tls_select_encryption_key :: "int \<Rightarrow> ('c, 'h) tls_multi \<Rightarrow> nat option option" where
  "tls_select_encryption_key now multi = select_key now multi None [0..<KEY_SCAN_SIZE]"

definition tls_pre_encrypt ::
  "int \<Rightarrow> ('c, 'h) tls_multi \<Rightarrow> buffer \<Rightarrow> (('c, 'h) tls_multi \<times> buffer \<times> nat option) option" where
  "tls_pre_encrypt now multi buf =
     (let multi = multi\<lparr>tm_save_ks := None\<rparr> in
      if b_len buf \<le> 0 then Some (multi, buf\<lparr>b_len := 0\<rparr>, None)
      else do {
        sel \<leftarrow> tls_select_encryption_key now multi;
        (case sel of
           Some i \<Rightarrow> Some (multi\<lparr>tm_save_ks := Some i\<rparr>, buf, Some i)
         | None \<Rightarrow> Some (multi, buf\<lparr>b_len := 0\<rparr>, None)) })"

definition tls_prepend_opcode_v1 :: "('c, 'h) tls_multi \<Rightarrow> buffer \<Rightarrow> buffer option" where
  "tls_prepend_opcode_v1 multi buf = do {
     i \<leftarrow> tm_save_ks multi;
     ks \<leftarrow> get_key_scan multi i;
     let op = push_bit P_OPCODE_SHIFT (of_nat P_DATA_V1) OR (of_nat (ks_key_id ks) :: u8);
     (case buf_write_prepend buf [op] of (ok, buf) \<Rightarrow> do { ASSERT ok; Some buf }) }"

definition tls_prepend_opcode_v2 :: "('c, 'h) tls_multi \<Rightarrow> buffer \<Rightarrow> buffer option" where
  "tls_prepend_opcode_v2 multi buf = do {
     i \<leftarrow> tm_save_ks multi;
     ks \<leftarrow> get_key_scan multi i;
     let peer = htonl (push_bit 24 (push_bit P_OPCODE_SHIFT (of_nat P_DATA_V2) OR of_nat (ks_key_id ks))
                       OR (tm_peer_id multi AND 0xFFFFFF));
     (case buf_write_prepend buf peer of (ok, buf) \<Rightarrow> do { ASSERT ok; Some buf }) }"

definition tls_post_encrypt :: "('c, 'h) tls_multi \<Rightarrow> buffer \<Rightarrow> ('c, 'h) tls_multi option" where
  "tls_post_encrypt multi buf =
     (let sel = tm_save_ks multi; multi = multi\<lparr>tm_save_ks := None\<rparr> in
      if b_len buf > 0 then do {
        i \<leftarrow> sel;
        ks \<leftarrow> get_key_scan multi i;
        Some (set_key_scan i (ks\<lparr>ks_n_packets := ks_n_packets ks + 1, ks_n_bytes := ks_n_bytes ks + b_len buf\<rparr>) multi) }
      else Some multi)"

section \<open>A packet through the data channel\<close>

definition set_crypto_options ::
  "nat \<Rightarrow> ('c, 'h) crypto_options option \<Rightarrow> ('c, 'h) tls_multi \<Rightarrow> ('c, 'h) tls_multi" where
  "set_crypto_options i co multi =
     (case (co, get_key_scan multi i) of
        (Some co, Some ks) \<Rightarrow> set_key_scan i (ks\<lparr>ks_crypto_options := co\<rparr>) multi
      | _ \<Rightarrow> multi)"

text \<open>The encryption stage of \<open>encrypt_sign\<close>, from the choice of the key on.\<close>

definition encrypt_sign ::
  "('c, 'h) crypto_backend \<Rightarrow> bytes \<Rightarrow> int \<Rightarrow> int \<Rightarrow> buffer \<Rightarrow> buffer \<Rightarrow> ('c, 'h) tls_multi
     \<Rightarrow> (buffer \<times> ('c, 'h) tls_multi) option" where
  "encrypt_sign cb rnd now headroom buf encrypt_buf multi = do {
     let buf = (if tm_multi_state multi < CAS_CONNECT_DONE then buf\<lparr>b_len := 0\<rparr> else buf);
     let (ok, work) = buf_init_dowork encrypt_buf headroom;
     ASSERT ok;
     (multi, buf, sel) \<leftarrow> tls_pre_encrypt now multi buf;
     work \<leftarrow> (if b_len buf > 0 \<and> tm_use_peer_id multi then tls_prepend_opcode_v2 multi work else Some work);
     let co = (case sel of None \<Rightarrow> None | Some i \<Rightarrow> map_option ks_crypto_options (get_key_scan multi i));
     (buf, co) \<leftarrow> openvpn_encrypt cb rnd now buf work co;
     let multi = (case sel of None \<Rightarrow> multi | Some i \<Rightarrow> set_crypto_options i co multi);
     buf \<leftarrow> (if b_len buf > 0 \<and> \<not> tm_use_peer_id multi then tls_prepend_opcode_v1 multi buf else Some buf);
     multi \<leftarrow> tls_post_encrypt multi buf;
     Some (buf, multi) }"

text \<open>
  The data packets of \<open>process_incoming_link_part1\<close>: \<open>tls_pre_decrypt\<close> hands them to
  \<open>handle_data_channel_packet\<close>, and what comes back is decrypted.
\<close>

definition process_incoming_data ::
  "('c, 'h) crypto_backend \<Rightarrow> int \<Rightarrow> int \<Rightarrow> openvpn_sockaddr \<Rightarrow> buffer \<Rightarrow> buffer \<Rightarrow> bool \<Rightarrow> ('c, 'h) tls_multi
     \<Rightarrow> (bool \<times> buffer \<times> ('c, 'h) tls_multi) option" where
  "process_incoming_data cb now headroom from_addr buf decrypt_buf floated multi =
     (if b_len buf > 0 then do {
        (multi, buf, sel) \<leftarrow> handle_data_channel_packet multi from_addr buf floated;
        let buf = (if tm_multi_state multi < CAS_CONNECT_DONE then buf\<lparr>b_len := 0\<rparr> else buf);
        (case sel of
           None \<Rightarrow> Some (True, buf, multi)
         | Some (i, ad) \<Rightarrow> do {
             ks \<leftarrow> get_key_scan multi i;
             (ok, buf, co) \<leftarrow> openvpn_decrypt cb now headroom (case ad of None \<Rightarrow> - 1 | Some a \<Rightarrow> a) buf decrypt_buf
                (Some (ks_crypto_options ks));
             Some (ok, buf, set_crypto_options i co multi) }) }
      else Some (True, buf, multi))"

end
