(* ===== verification/Key_State_Props.thy ===== *)
theory Key_State_Props
  imports Key_State
begin

text \<open>
  The life of the data channel keys as a step relation, its invariant (the two keys of a session
  never share an id, a lame duck always has an expiry), and what a soft reset does to the keys
  that are in use.
\<close>

section \<open>The steps of a tunnel\<close>

definition S_SENT_KEY :: int where "S_SENT_KEY = 4"

inductive tls_step :: "('c, 'h) tls_multi \<Rightarrow> ('c, 'h) tls_multi \<Rightarrow> bool" where
  soft_reset: "S_SENT_KEY \<le> ks_state (ss_primary (tm_session i m)) \<Longrightarrow> 0 < now \<Longrightarrow>
    0 \<le> opt_transition_window (tm_opt m) \<Longrightarrow>
    key_state_soft_reset now (tm_opt m) (tm_session i m) = Some s \<Longrightarrow> tls_step m (tm_set_session i s m)"
| negotiate: "S_INITIAL \<le> ks_state (ss_primary (tm_session i m)) \<Longrightarrow>
    ks_key_id ks = ks_key_id (ss_primary (tm_session i m)) \<Longrightarrow> ks_state ks \<noteq> S_UNDEF \<Longrightarrow>
    tls_step m (tm_set_session i ((tm_session i m)\<lparr>ss_primary := ks\<rparr>) m)"
| kill_lame_duck: "lame_duck_must_die now (tm_session i m) w = Some (True, w') \<Longrightarrow>
    tls_step m (tm_set_session i ((tm_session i m)\<lparr>ss_lame_duck :=
      key_state_free (ss_lame_duck (tm_session i m)) True\<rparr>) m)"
| preserve_lame_duck: "ks_state (ss_primary (tm_active m)) = S_ERROR \<Longrightarrow>
    S_ACTIVE \<le> ks_state (ss_lame_duck (tm_active m)) \<Longrightarrow>
    move_session sid m TM_LAME_DUCK TM_ACTIVE True = Some m' \<Longrightarrow> tls_step m m'"
| reset: "ks_state (ss_primary (tm_session i m)) = S_ERROR \<Longrightarrow> reset_session sid m i = Some m' \<Longrightarrow> tls_step m m'"
| kill_session: "lame_duck_must_die now (tm_lame_duck m) w = Some (True, w') \<Longrightarrow>
    tls_step m (m\<lparr>tm_lame_duck := tls_session_free (tm_lame_duck m) True\<rparr>)"
| promote: "S_SENT_KEY \<le> ks_state (ss_primary (tm_untrusted m)) \<Longrightarrow>
    move_session sid m TM_ACTIVE TM_UNTRUSTED True = Some m' \<Longrightarrow> tls_step m m'"

inductive tls_reachable :: "tls_options \<Rightarrow> ('c, 'h) tls_multi \<Rightarrow> bool" for opt where
  start: "tm_opt m = opt \<Longrightarrow> tm_active m = tls_session_zero \<Longrightarrow> tm_untrusted m = tls_session_zero \<Longrightarrow>
    tm_lame_duck m = tls_session_zero \<Longrightarrow> tls_multi_init_finalize sid1 sid2 m = Some m' \<Longrightarrow> tls_reachable opt m'"
| step: "tls_reachable opt m \<Longrightarrow> tls_step m m' \<Longrightarrow> tls_reachable opt m'"

section \<open>The invariant\<close>

definition session_keys_ok :: "('c, 'h) tls_session \<Rightarrow> bool" where
  "session_keys_ok s \<longleftrightarrow> ss_key_id s \<le> P_KEY_ID_MASK
     \<and> (ks_state (ss_primary s) \<noteq> S_UNDEF \<longrightarrow> ks_key_id (ss_primary s) \<le> P_KEY_ID_MASK
          \<and> ss_key_id s = next_key_id (ks_key_id (ss_primary s)))
     \<and> (ks_state (ss_lame_duck s) \<noteq> S_UNDEF \<longrightarrow> ks_state (ss_primary s) \<noteq> S_UNDEF
          \<and> ks_must_die (ss_lame_duck s) \<noteq> 0 \<and> ks_key_id (ss_lame_duck s) \<le> P_KEY_ID_MASK
          \<and> ks_key_id (ss_primary s) = next_key_id (ks_key_id (ss_lame_duck s)))"

definition multi_keys_ok :: "('c, 'h) tls_multi \<Rightarrow> bool" where
  "multi_keys_ok m \<longleftrightarrow> (\<forall>i. session_keys_ok (tm_session i m))"

lemma next_key_id_eq: "k \<le> P_KEY_ID_MASK \<Longrightarrow> next_key_id k = (if k = 7 then 1 else k + 1)"
proof -
  have "\<forall>k \<in> set [0..<8]. next_key_id k = (if k = 7 then 1 else k + 1)" by code_simp
  then show "k \<le> P_KEY_ID_MASK \<Longrightarrow> next_key_id k = (if k = 7 then 1 else k + 1)"
    by (simp add: P_KEY_ID_MASK_def)
qed

lemma next_key_id_neq:
  assumes "k \<le> P_KEY_ID_MASK"
  shows "next_key_id k \<noteq> k" "next_key_id k \<noteq> 0" "next_key_id k \<le> P_KEY_ID_MASK"
  using assms next_key_id_eq[OF assms] by (auto simp: P_KEY_ID_MASK_def)

lemma tm_session_set [simp]:
  "tm_session i (tm_set_session j s m) = (if i = j then s else tm_session i m)"
  by (cases i; cases j) simp_all

lemma key_state_init_ids:
  assumes "key_state_init opt s = Some (ks, s')"
  shows "ks_state ks = S_INITIAL \<and> ks_key_id ks = ss_key_id s \<and> ss_key_id s' = next_key_id (ss_key_id s)
    \<and> ss_lame_duck s' = ss_lame_duck s \<and> ks_remote_addr ks = addr_undefined"
  using assms by (auto simp: key_state_init_def Let_def key_state_zero_def aborts split: if_splits)

lemma session_keys_zero [simp]: "session_keys_ok tls_session_zero"
  by (simp add: session_keys_ok_def tls_session_zero_def key_state_zero_def)

lemma session_keys_init:
  assumes "tls_session_init sid opt = Some s"
  shows "session_keys_ok s"
proof -
  obtain s0 ks s1 where s: "key_state_init opt s0 = Some (ks, s1)" "s = s1\<lparr>ss_primary := ks\<rparr>"
    "ss_key_id s0 = 0" "ss_lame_duck s0 = key_state_zero"
    using assms by (auto simp: tls_session_init_def Let_def aborts tls_session_zero_def)
  then show ?thesis using key_state_init_ids[OF s(1)]
    by (simp add: session_keys_ok_def key_state_zero_def next_key_id_neq)
qed

lemma session_keys_soft_reset:
  assumes ok: "session_keys_ok s" and live: "S_SENT_KEY \<le> ks_state (ss_primary s)"
    and now: "0 < now" "0 \<le> opt_transition_window opt" and r: "key_state_soft_reset now opt s = Some s'"
  shows "session_keys_ok s' \<and> ss_lame_duck s' = (ss_primary s)\<lparr>ks_must_die := now + opt_transition_window opt\<rparr>"
proof -
  let ?l = "(ss_primary s)\<lparr>ks_must_die := now + opt_transition_window opt\<rparr>"
  obtain ks s1 where i: "key_state_init opt (s\<lparr>ss_lame_duck := ?l\<rparr>) = Some (ks, s1)"
    "s' = s1\<lparr>ss_primary := ks\<lparr>ks_session_id_remote := ks_session_id_remote (ss_primary s),
      ks_remote_addr := ks_remote_addr (ss_primary s)\<rparr>\<rparr>"
    using r by (auto simp: key_state_soft_reset_def Let_def aborts)
  have st: "ks_state (ss_primary s) \<noteq> S_UNDEF" using live by (simp add: S_SENT_KEY_def S_UNDEF_def)
  show ?thesis using ok st now key_state_init_ids[OF i(1)] next_key_id_neq(3)
    by (simp add: i(2) session_keys_ok_def S_INITIAL_def S_UNDEF_def)
qed

lemma session_keys_negotiate:
  "session_keys_ok s \<Longrightarrow> S_INITIAL \<le> ks_state (ss_primary s) \<Longrightarrow> ks_key_id ks = ks_key_id (ss_primary s) \<Longrightarrow>
    ks_state ks \<noteq> S_UNDEF \<Longrightarrow> session_keys_ok (s\<lparr>ss_primary := ks\<rparr>)"
  by (auto simp: session_keys_ok_def S_INITIAL_def S_UNDEF_def)

lemma session_keys_kill: "session_keys_ok s \<Longrightarrow> session_keys_ok (s\<lparr>ss_lame_duck := key_state_free k True\<rparr>)"
  by (simp add: session_keys_ok_def key_state_free_def key_state_zero_def)

lemma move_session_keys:
  assumes "multi_keys_ok m" "move_session sid m dest src True = Some m'"
  shows "multi_keys_ok m'"
  using assms by (auto simp: move_session_def multi_keys_ok_def aborts Let_def split: if_splits dest: session_keys_init)

lemma reset_session_keys:
  assumes "multi_keys_ok m" "reset_session sid m i = Some m'"
  shows "multi_keys_ok m'"
  using assms by (auto simp: reset_session_def multi_keys_ok_def aborts Let_def dest: session_keys_init)

lemma multi_keys_set: "multi_keys_ok m \<Longrightarrow> session_keys_ok s \<Longrightarrow> multi_keys_ok (tm_set_session i s m)"
  by (simp add: multi_keys_ok_def)

lemma multi_keys_session: "multi_keys_ok m \<Longrightarrow> session_keys_ok (tm_session i m)"
  by (simp add: multi_keys_ok_def)

lemma tls_step_keys: "tls_step m m' \<Longrightarrow> multi_keys_ok m \<Longrightarrow> multi_keys_ok m'"
proof (induction rule: tls_step.induct)
  case (soft_reset i m now s)
  then show ?case using session_keys_soft_reset multi_keys_session by (metis multi_keys_set)
next
  case (negotiate i m ks)
  then show ?case by (intro multi_keys_set session_keys_negotiate multi_keys_session)
next
  case (kill_lame_duck now i m w w')
  then show ?case by (intro multi_keys_set session_keys_kill multi_keys_session)
next
  case (kill_session now m w w')
  then show ?case using multi_keys_set[of m tls_session_zero TM_LAME_DUCK] by (simp add: tls_session_free_def)
qed (auto dest: move_session_keys reset_session_keys)

lemma tls_reachable_keys: "tls_reachable opt m \<Longrightarrow> multi_keys_ok m"
proof (induction rule: tls_reachable.induct)
  case (start m sid1 sid2 m')
  have z: "multi_keys_ok m"
    unfolding multi_keys_ok_def
  proof
    fix i show "session_keys_ok (tm_session i m)" using start by (cases i) simp_all
  qed
  obtain s1 where s1: "tls_session_init sid1 (tm_opt m) = Some s1"
    and m': "m' = m\<lparr>tm_active := s1\<rparr> \<or>
      (\<exists>s2. tls_session_init sid2 (tm_opt m) = Some s2 \<and> m' = m\<lparr>tm_active := s1, tm_untrusted := s2\<rparr>)"
    using start(5) by (auto simp: tls_multi_init_finalize_def Let_def aborts split: if_splits)
  have 1: "multi_keys_ok (m\<lparr>tm_active := s1\<rparr>)"
    using multi_keys_set[OF z session_keys_init[OF s1], of TM_ACTIVE] by simp
  from m' show ?case
  proof (elim disjE exE conjE)
    fix s2 assume "tls_session_init sid2 (tm_opt m) = Some s2" "m' = m\<lparr>tm_active := s1, tm_untrusted := s2\<rparr>"
    then show ?case using multi_keys_set[OF 1 session_keys_init, of sid2 "tm_opt m" s2 TM_UNTRUSTED] by simp
  qed (use 1 in simp)
next
  case (step m m')
  then show ?case using tls_step_keys by blast
qed

text \<open>
  C26. Key rotation. In every reachable state of a tunnel, whatever sequence of negotiations,
  renegotiations, expiries, errors and session takeovers led to it, the assertion that a lame
  duck has an expiry cannot fail, and in each session the key in use and a live lame duck have
  different ids, the id 0 being that of the very first key, which has no predecessor.
\<close>

theorem key_rotation_safe:
  assumes "tls_reachable opt m"
  shows "lame_duck_must_die now (tm_session i m) w \<noteq> None
    \<and> (ks_state (ss_lame_duck (tm_session i m)) \<noteq> S_UNDEF \<longrightarrow>
        ks_key_id (ss_primary (tm_session i m)) \<noteq> ks_key_id (ss_lame_duck (tm_session i m))
        \<and> ks_key_id (ss_primary (tm_session i m)) \<noteq> 0)"
proof -
  have k: "session_keys_ok (tm_session i m)" using multi_keys_session[OF tls_reachable_keys[OF assms]] .
  have "lame_duck_must_die now (tm_session i m) w \<noteq> None"
    using k by (auto simp: lame_duck_must_die_def session_keys_ok_def S_INITIAL_def S_UNDEF_def Let_def)
  moreover have "ks_state (ss_lame_duck (tm_session i m)) \<noteq> S_UNDEF \<longrightarrow>
      ks_key_id (ss_primary (tm_session i m)) \<noteq> ks_key_id (ss_lame_duck (tm_session i m))
      \<and> ks_key_id (ss_primary (tm_session i m)) \<noteq> 0"
    using k next_key_id_neq by (auto simp: session_keys_ok_def)
  ultimately show ?thesis by blast
qed

text \<open>A concrete tunnel after its first renegotiation.\<close>

definition demo_opt :: tls_options where
  "demo_opt = \<lparr>opt_server = False, opt_tls_crypt_v2 = False, opt_replay = True, opt_replay_window = 64,
     opt_replay_time = 15, opt_transition_window = 3600, opt_single_session = True\<rparr>"

lemma packet_id_init_64: "\<exists>pid. packet_id_init 64 15 = Some pid"
  by (simp add: packet_id_init_def MIN_SEQ_BACKTRACK_def MAX_SEQ_BACKTRACK_def
      MIN_TIME_BACKTRACK_def MAX_TIME_BACKTRACK_def)

lemma key_state_init_demo: "\<exists>ks s'. key_state_init demo_opt s = Some (ks, s')"
  using packet_id_init_64 by (auto simp: key_state_init_def demo_opt_def Let_def)

lemma soft_reset_demo: "\<exists>s'. key_state_soft_reset now demo_opt s = Some s'"
proof -
  let ?k = "(ss_primary s)\<lparr>ks_must_die := now + opt_transition_window demo_opt\<rparr>"
  obtain ks s1 where "key_state_init demo_opt (s\<lparr>ss_lame_duck := ?k\<rparr>) = Some (ks, s1)"
    using key_state_init_demo by blast
  then show ?thesis by (simp add: key_state_soft_reset_def Let_def)
qed

lemma session_init_demo: "\<exists>s :: ('c, 'h) tls_session. tls_session_init sid demo_opt = Some s \<and> ks_state (ss_primary s) = S_INITIAL"
proof -
  let ?s = "(tls_session_zero :: ('c, 'h) tls_session)\<lparr>ss_session_id := sid, ss_initial_opcode := P_CONTROL_HARD_RESET_CLIENT_V2\<rparr>"
  obtain ks s1 where i: "key_state_init demo_opt ?s = Some (ks, s1)" using key_state_init_demo by blast
  have "\<not> opt_server demo_opt" "\<not> opt_tls_crypt_v2 demo_opt" by (simp_all add: demo_opt_def)
  then show ?thesis using i key_state_init_ids[OF i] by (simp add: tls_session_init_def)
qed

lemma demo_rekey:
  "\<exists>m :: (unit, unit) tls_multi. tls_reachable demo_opt m
    \<and> ks_state (ss_lame_duck (tm_active m)) = S_GENERATED_KEYS"
proof -
  define m0 :: "(unit, unit) tls_multi" where "m0 = \<lparr>tm_opt = demo_opt, tm_save_ks = None,
    tm_multi_state = CAS_CONNECT_DONE, tm_n_soft_errors = 0, tm_peer_id = 0, tm_use_peer_id = True,
    tm_active = tls_session_zero, tm_untrusted = tls_session_zero, tm_lame_duck = tls_session_zero\<rparr>"
  obtain s1 where s1: "tls_session_init [1, 2, 3, 4, 5, 6, 7, 8] demo_opt = Some (s1 :: (unit, unit) tls_session)"
    "ks_state (ss_primary s1) = S_INITIAL"
    using session_init_demo by blast
  let ?m1 = "m0\<lparr>tm_active := s1\<rparr>"
  have "tls_multi_init_finalize [1, 2, 3, 4, 5, 6, 7, 8] [] m0 = Some ?m1"
    using s1 by (simp add: tls_multi_init_finalize_def m0_def demo_opt_def)
  then have r1: "tls_reachable demo_opt ?m1"
    by (intro tls_reachable.start[of m0]) (simp_all add: m0_def)
  let ?k = "(ss_primary s1)\<lparr>ks_state := S_GENERATED_KEYS\<rparr>"
  let ?m2 = "tm_set_session TM_ACTIVE ((tm_session TM_ACTIVE ?m1)\<lparr>ss_primary := ?k\<rparr>) ?m1"
  have "tls_step ?m1 ?m2"
    by (rule tls_step.negotiate) (use s1(2) in \<open>simp_all add: S_GENERATED_KEYS_def S_UNDEF_def\<close>)
  then have r2: "tls_reachable demo_opt ?m2" by (rule tls_reachable.step[OF r1])
  obtain s2 where s2: "key_state_soft_reset 100 demo_opt (tm_session TM_ACTIVE ?m2) = Some s2"
    using soft_reset_demo by blast
  have e: "session_keys_ok (tm_session TM_ACTIVE ?m2)" by (rule multi_keys_session[OF tls_reachable_keys[OF r2]])
  have l: "S_SENT_KEY \<le> ks_state (ss_primary (tm_session TM_ACTIVE ?m2))"
    by (simp add: S_SENT_KEY_def S_GENERATED_KEYS_def)
  have o: "tm_opt ?m2 = demo_opt" by (simp add: m0_def)
  have w: "0 \<le> opt_transition_window demo_opt" by (simp add: demo_opt_def)
  have "tls_step ?m2 (tm_set_session TM_ACTIVE s2 ?m2)"
    by (rule tls_step.soft_reset[where now = 100, OF l]) (use s2 o w in auto)
  then have "tls_reachable demo_opt (tm_set_session TM_ACTIVE s2 ?m2)" by (rule tls_reachable.step[OF r2])
  moreover have "ks_state (ss_lame_duck (tm_active (tm_set_session TM_ACTIVE s2 ?m2))) = S_GENERATED_KEYS"
    using session_keys_soft_reset[OF e l _ w s2] by simp
  ultimately show ?thesis by blast
qed

lemma key_rotation_safe_witness:
  "\<exists>m :: (unit, unit) tls_multi. tls_reachable demo_opt m
    \<and> lame_duck_must_die 200 (tm_session TM_ACTIVE m) 5 \<noteq> None
    \<and> ks_key_id (ss_primary (tm_active m)) \<noteq> ks_key_id (ss_lame_duck (tm_active m))"
proof -
  obtain m :: "(unit, unit) tls_multi" where m: "tls_reachable demo_opt m"
    "ks_state (ss_lame_duck (tm_active m)) = S_GENERATED_KEYS"
    using demo_rekey by blast
  show ?thesis using key_rotation_safe[OF m(1), of 200 TM_ACTIVE 5] m
    by (intro exI[of _ m]) (simp add: S_GENERATED_KEYS_def S_UNDEF_def)
qed

section \<open>Renegotiation without interruption\<close>

definition usable_key :: "('c, 'h) key_state \<Rightarrow> bool" where
  "usable_key ks \<longleftrightarrow> S_GENERATED_KEYS \<le> ks_state ks \<and> ks_authenticated ks = KS_AUTH_TRUE \<and> ks_key_ctx_initialized ks"

lemma scan_list: "[0..<KEY_SCAN_SIZE] = [0, 1, 2]"
  by (simp add: KEY_SCAN_SIZE_def upt_rec)

text \<open>
  C30. A renegotiation does not interrupt the data channel. When a soft reset starts on a session
  whose key is in use, the packets sent afterwards are encrypted with the very same key, now
  the lame duck, and a packet of the peer under its id still finds it, from the peer's address
  or after an announced change of address.
\<close>

theorem soft_reset_seamless:
  assumes "usable_key (ss_primary (tm_active m))" and "ks_auth_deferred_expire (ss_primary (tm_active m)) \<le> now"
    and "key_state_soft_reset now0 opt (tm_active m) = Some s"
    and "floated \<or> addr_port_match peer (ks_remote_addr (ss_primary (tm_active m))) = Some True"
  shows "tls_select_encryption_key now (m\<lparr>tm_active := s\<rparr>) = Some (Some 1)
    \<and> scan_decrypt_key (m\<lparr>tm_active := s\<rparr>) peer (ks_key_id (ss_primary (tm_active m))) floated [0..<KEY_SCAN_SIZE]
        = Some (Some 1)
    \<and> get_key_scan (m\<lparr>tm_active := s\<rparr>) 1
        = Some ((ss_primary (tm_active m))\<lparr>ks_must_die := now0 + opt_transition_window opt\<rparr>)"
proof -
  let ?k = "ss_primary (tm_active m)"
  let ?l = "?k\<lparr>ks_must_die := now0 + opt_transition_window opt\<rparr>"
  obtain ks s1 where i: "key_state_init opt ((tm_active m)\<lparr>ss_lame_duck := ?l\<rparr>) = Some (ks, s1)"
    "s = s1\<lparr>ss_primary := ks\<lparr>ks_session_id_remote := ks_session_id_remote ?k, ks_remote_addr := ks_remote_addr ?k\<rparr>\<rparr>"
    using assms(3) by (auto simp: key_state_soft_reset_def Let_def aborts)
  have p: "ks_state (ss_primary s) = S_INITIAL" "ss_lame_duck s = ?l"
    using key_state_init_ids[OF i(1)] by (simp_all add: i(2))
  have 0: "\<not> S_GENERATED_KEYS \<le> S_INITIAL" by (simp add: S_GENERATED_KEYS_def S_INITIAL_def)
  have 1: "get_key_scan (m\<lparr>tm_active := s\<rparr>) 0 = Some (ss_primary s)" "get_key_scan (m\<lparr>tm_active := s\<rparr>) 1 = Some ?l"
    using p by (simp_all add: get_key_scan_def)
  have 2: "decrypt_key_match (ss_primary s) peer (ks_key_id ?k) floated = Some False"
    "decrypt_key_match ?l peer (ks_key_id ?k) floated = Some True"
    using p(1) 0 assms(1,4) by (auto simp: decrypt_key_match_def usable_key_def)
  show ?thesis unfolding tls_select_encryption_key_def scan_list
    using 1 2 p(1) 0 assms(1,2) by (simp add: usable_key_def)
qed

lemma soft_reset_seamless_witness:
  "\<exists>(m :: (unit, unit) tls_multi) s. key_state_soft_reset 100 demo_opt (tm_active m) = Some s
    \<and> tls_select_encryption_key 200 (m\<lparr>tm_active := s\<rparr>) = Some (Some 1)"
proof -
  define k :: "(unit, unit) key_state" where
    "k = key_state_zero\<lparr>ks_state := S_GENERATED_KEYS, ks_authenticated := KS_AUTH_TRUE, ks_key_ctx_initialized := True\<rparr>"
  define m :: "(unit, unit) tls_multi" where "m = \<lparr>tm_opt = demo_opt, tm_save_ks = None,
    tm_multi_state = CAS_CONNECT_DONE, tm_n_soft_errors = 0, tm_peer_id = 0, tm_use_peer_id = True,
    tm_active = tls_session_zero\<lparr>ss_primary := k\<rparr>, tm_untrusted = tls_session_zero, tm_lame_duck = tls_session_zero\<rparr>"
  obtain s where s: "key_state_soft_reset 100 demo_opt (tm_active m) = Some s"
    using soft_reset_demo by blast
  have "usable_key (ss_primary (tm_active m))" "ks_auth_deferred_expire (ss_primary (tm_active m)) \<le> 200"
    by (simp_all add: m_def k_def usable_key_def key_state_zero_def)
  from soft_reset_seamless[OF this s, of True] s show ?thesis by blast
qed

end
