(* ===== verification/Data_Channel.thy ===== *)
theory Data_Channel
  imports Crypto_Props Key_State_Props
begin

text \<open>
  The data channel end to end: a packet through \<open>encrypt_sign\<close> of the sender and the incoming
  data path of the receiver, with the header of either version, and the receiver's behaviour on
  packets that are not the sender's.
\<close>

section \<open>The header of a data packet\<close>

lemma get_key_scan_save [simp]: "get_key_scan (m\<lparr>tm_save_ks := x\<rparr>) i = get_key_scan m i"
  by (simp add: get_key_scan_def)

lemma get_set_key_scan:
  "get_key_scan m i = Some ks \<Longrightarrow> get_key_scan (set_key_scan i ks' m) i = Some ks'"
  by (auto simp: get_key_scan_def set_key_scan_def split: if_splits)

lemma set_key_scan_simps [simp]:
  "tm_save_ks (set_key_scan i ks m) = tm_save_ks m" "tm_multi_state (set_key_scan i ks m) = tm_multi_state m"
  "tm_use_peer_id (set_key_scan i ks m) = tm_use_peer_id m" "tm_peer_id (set_key_scan i ks m) = tm_peer_id m"
  by (simp_all add: set_key_scan_def)

definition opcode_v1 :: "nat \<Rightarrow> u8" where
  "opcode_v1 k = push_bit P_OPCODE_SHIFT (of_nat P_DATA_V1) OR of_nat k"

definition opcode_v2 :: "nat \<Rightarrow> u8" where
  "opcode_v2 k = push_bit P_OPCODE_SHIFT (of_nat P_DATA_V2) OR of_nat k"

lemma opcode_bytes:
  assumes "k \<le> P_KEY_ID_MASK"
  shows "unat (drop_bit P_OPCODE_SHIFT (opcode_v1 k)) = P_DATA_V1" "unat (opcode_v1 k AND of_nat P_KEY_ID_MASK) = k"
    "unat (drop_bit P_OPCODE_SHIFT (opcode_v2 k)) = P_DATA_V2" "unat (opcode_v2 k AND of_nat P_KEY_ID_MASK) = k"
proof -
  have "\<forall>k \<in> set [0..<8]. unat (drop_bit P_OPCODE_SHIFT (opcode_v1 k)) = P_DATA_V1
    \<and> unat (opcode_v1 k AND of_nat P_KEY_ID_MASK) = k
    \<and> unat (drop_bit P_OPCODE_SHIFT (opcode_v2 k)) = P_DATA_V2 \<and> unat (opcode_v2 k AND of_nat P_KEY_ID_MASK) = k"
    by code_simp
  then show "unat (drop_bit P_OPCODE_SHIFT (opcode_v1 k)) = P_DATA_V1" "unat (opcode_v1 k AND of_nat P_KEY_ID_MASK) = k"
    "unat (drop_bit P_OPCODE_SHIFT (opcode_v2 k)) = P_DATA_V2" "unat (opcode_v2 k AND of_nat P_KEY_ID_MASK) = k"
    using assms by (simp_all add: P_KEY_ID_MASK_def)
qed

definition header_v2 :: "u32 \<Rightarrow> nat \<Rightarrow> bytes" where
  "header_v2 peer k = htonl (push_bit 24 (push_bit P_OPCODE_SHIFT (of_nat P_DATA_V2) OR of_nat k)
                       OR (peer AND 0xFFFFFF))"

lemma length_header_v2 [simp]: "length (header_v2 peer k) = 4"
  by (simp add: header_v2_def)

lemma header_v2_opcode:
  assumes "k \<le> P_KEY_ID_MASK"
  shows "hd (header_v2 peer k) = opcode_v2 k"
proof -
  have m: "(0xFFFFFF :: u32) = mask 24" by code_simp
  have k: "(of_nat k :: u8) = ucast (of_nat k :: u32)" "(of_nat P_DATA_V2 :: u8) = ucast (of_nat P_DATA_V2 :: u32)"
    by (simp_all add: P_DATA_V2_def unsigned_of_nat of_nat_take_bit take_bit_word_eq_self)
  show ?thesis unfolding header_v2_def htonl_def opcode_v2_def m k list.sel
    by (rule bit_word_eqI) (auto simp: bit_simps P_OPCODE_SHIFT_def)
qed

definition data_header :: "('c, 'h) tls_multi \<Rightarrow> nat \<Rightarrow> bytes" where
  "data_header m k = (if tm_use_peer_id m then header_v2 (tm_peer_id m) k else [opcode_v1 k])"

section \<open>The receiver\<close>

lemma handle_data_channel_packet_finds:
  assumes k: "k \<le> P_KEY_ID_MASK"
    and scan: "scan_decrypt_key m peer k floated [0..<KEY_SCAN_SIZE] = Some (Some j)"
    and key: "get_key_scan m j = Some ks" "ks_key_ctx_initialized ks"
    and buf: "buf_wf buf" "buf_contents buf = hdr @ rest" "4 \<le> length rest"
    and hdr: "hdr = [opcode_v1 k] \<or> hdr = header_v2 pid k"
  obtains m' where "handle_data_channel_packet m peer buf floated = Some (m', buf_adv buf (length hdr),
      Some (j, Some (if hdr = [opcode_v1 k] then b_offset buf + 1 else b_offset buf)))"
    "tm_multi_state m' = tm_multi_state m" "\<exists>ks'. get_key_scan m' j = Some ks' \<and> ks_crypto_options ks' = ks_crypto_options ks"
proof -
  obtain d where d: "b_data buf = Some d" using buf(1) by (rule buf_wf_E)
  have lh: "1 \<le> length hdr" "length hdr = 1 \<or> length hdr = 4" using hdr by auto
  have le: "1 \<le> length (buf_contents buf)" "length hdr \<le> length (buf_contents buf)" using buf(2) lh by auto
  have bl: "b_len buf = int (length hdr) + int (length rest)" using length_buf_contents[OF buf(1)] buf(2) by simp
  have bp: "buf_bptr buf = Some (b_offset buf)" using buf(1) by (simp add: buf_bptr_def)
  have off: "0 \<le> b_offset buf" using buf(1) by (rule buf_wf_E)
  have "peek d (b_offset buf) 1 = [hd hdr]"
    using peek_front[OF buf(1) d le(1)] buf(2) lh(1) by (cases hdr) auto
  moreover have "nat (b_offset buf) < length d"
    using buf(1) bl d lh by (auto elim!: buf_wf_E)
  ultimately have c: "d ! nat (b_offset buf) = hd hdr"
    by (simp add: peek_def take_Suc hd_drop_conv_nth)
  note a1 = buf_adv_wf[OF buf(1) le(1)]
  have bp1: "buf_bptr (buf_adv buf 1) = Some (b_offset buf + 1)" using a1(2) by (simp add: buf_bptr_def)
  let ?ks = "\<lambda>b. ks\<lparr>ks_n_packets := ks_n_packets ks + 1, ks_n_bytes := ks_n_bytes ks + b_len b\<rparr>"
  have st: "tm_multi_state (set_key_scan j (?ks b) m) = tm_multi_state m"
    "\<exists>ks'. get_key_scan (set_key_scan j (?ks b) m) j = Some ks' \<and> ks_crypto_options ks' = ks_crypto_options ks" for b
    using get_set_key_scan[OF key(1)] by auto
  from hdr show ?thesis
  proof
    assume h: "hdr = [opcode_v1 k]"
    have "handle_data_channel_packet m peer buf floated = Some (set_key_scan j (?ks (buf_adv buf 1)) m,
        buf_adv buf 1, Some (j, Some (b_offset buf + 1)))"
      using bp d c h scan key a1(1) bp1 opcode_bytes[OF k]
      by (simp add: handle_data_channel_packet_def Let_def P_DATA_V1_def P_DATA_V2_def)
    then show ?thesis by (intro that[OF _ st[of "buf_adv buf 1"]]) (simp add: h)
  next
    assume h: "hdr = header_v2 pid k"
    then have l: "length hdr = 4" by simp
    have a4: "buf_advance (buf_adv buf 1) 3 = (True, buf_adv buf 4)"
      using buf_adv_wf(1)[OF a1(2), of 3] a1(3) buf(2) l by simp
    have ne: "hdr \<noteq> [opcode_v1 k]" using l by auto
    have re: "rest \<noteq> []" using buf(3) by auto
    have "hd hdr = opcode_v2 k" using h header_v2_opcode[OF k] by simp
    then have "handle_data_channel_packet m peer buf floated = Some (set_key_scan j (?ks (buf_adv buf 4)) m,
        buf_adv buf 4, Some (j, Some (b_offset buf)))"
      using bp d c scan key a1(1) a4 opcode_bytes[OF k] bl l re
      by (simp add: handle_data_channel_packet_def Let_def P_DATA_V1_def P_DATA_V2_def)
    then show ?thesis by (intro that[OF _ st[of "buf_adv buf 4"]]) (simp add: l ne)
  qed
qed

text \<open>A packet of the peer reaches the replay check with the plaintext that was sealed.\<close>

lemma process_incoming_opens:
  fixes m :: "('c, 'h) tls_multi"
  assumes k: "k \<le> P_KEY_ID_MASK"
    and scan: "scan_decrypt_key m peer k floated [0..<KEY_SCAN_SIZE] = Some (Some j)"
    and key: "get_key_scan m j = Some ks" "ks_key_ctx_initialized ks" "rx = ks_crypto_options ks"
    and up: "tm_multi_state m = CAS_CONNECT_DONE"
    and rx: "aead_key_ok cb (co_decrypt rx) d" "cipher_ctx_mode_aead cb d"
      "packet_id_initialized (cr_packet_id (co_replay rx))"
      "\<forall>iv. cipher_ctx_block_size cb (snd (cipher_ctx_reset cb d iv)) = bsize"
    and hdr: "hdr = [opcode_v1 k] \<or> hdr = header_v2 pid k" "ad = (if hdr = [opcode_v1 k] then [] else hdr)"
    and buf: "buf_wf buf" "buf_contents buf = hdr @ htonl i @ tag @ ct" "length tag = OPENVPN_AEAD_TAG_LENGTH" "ct \<noteq> []"
    and opn: "aead_open cb d (aead_iv (co_decrypt rx) i) (ad @ htonl i) ct tag = Some (pt, d')"
    and lp: "length pt \<le> length ct"
    and work: "buf_wf work" "0 \<le> hr" "hr + int (length ct) + int bsize \<le> b_capacity work"
    and rep: "crypto_check_replay now (co_replay rx) \<lparr>net_id = i, net_time = 0\<rparr> = Some (ok, r)"
  shows "\<exists>b' m'. process_incoming_data cb now hr peer buf work floated m = Some (ok, b', m')
    \<and> buf_contents b' = (if ok then pt else [])"
proof -
  let ?v1 = "hdr = [opcode_v1 k]"
  let ?n = "length hdr"
  let ?b = "buf_adv buf ?n"
  let ?a = "if ?v1 then b_offset buf + 1 else b_offset buf"
  have lr: "4 \<le> length (htonl i @ tag @ ct)" by simp
  obtain m1 ks1 where h: "handle_data_channel_packet m peer buf floated = Some (m1, ?b, Some (j, Some ?a))"
    "tm_multi_state m1 = CAS_CONNECT_DONE" "get_key_scan m1 j = Some ks1" "ks_crypto_options ks1 = rx"
    using handle_data_channel_packet_finds[OF k scan key(1,2) buf(1,2) lr hdr(1)] up key(3) by metis
  have le: "?n \<le> length (buf_contents buf)" using buf(2) by simp
  note ba = buf_adv_wf[OF buf(1) le]
  have bc: "buf_contents ?b = htonl i @ tag @ ct" using ba(3) buf(2) by simp
  obtain dt where dt: "b_data buf = Some dt" using buf(1) by (rule buf_wf_E)
  have off: "0 \<le> b_offset buf" using buf(1) by (rule buf_wf_E)
  have "0 < length ct" using buf(4) by simp
  then have bl: "0 < b_len buf" "0 < b_len ?b"
    using length_buf_contents[OF buf(1)] length_buf_contents[OF ba(2)] buf(2) bc by simp_all
  have adp: "0 \<le> ?a" "?a \<le> b_offset ?b" "peek (the (b_data ?b)) ?a (nat (b_offset ?b - ?a)) = ad"
    using off hdr peek_front[OF buf(1) dt le] buf(2) dt by (auto simp: peek_def)
  obtain out where o: "openvpn_decrypt_aead cb now hr ?a ?b work rx
      = decrypt_accept now (Some \<lparr>net_id = i, net_time = 0\<rparr>) (buf_adv ?b 20) out (co_set_decrypt rx d')"
    "buf_wf out" "buf_contents out = pt"
    by (rule openvpn_decrypt_aead_opens[OF rx(1,4,3) ba(2) bc buf(3,4) adp opn lp work])
  have "crypto_check_replay now (co_replay (co_set_decrypt rx d')) \<lparr>net_id = i, net_time = 0\<rparr> = Some (ok, r)"
    using rep by simp
  from decrypt_accept_result[OF this o(2), of "buf_adv ?b 20"]
  obtain b' where b': "openvpn_decrypt_aead cb now hr ?a ?b work rx
      = Some (ok, b', (co_set_decrypt rx d')\<lparr>co_replay := r\<rparr>)" "buf_contents b' = (if ok then pt else [])"
    using o(1,3) by auto
  have "kc_cipher (co_decrypt rx) = Some d" using rx(1) by (simp add: aead_key_ok_def)
  then have "openvpn_decrypt cb now hr ?a ?b work (Some rx)
      = Some (ok, b', Some ((co_set_decrypt rx d')\<lparr>co_replay := r\<rparr>))"
    using b'(1) bl(2) rx(2) by (simp add: openvpn_decrypt_def ctx_mode_def)
  then show ?thesis using bl(1) h b'(2) by (simp add: process_incoming_data_def)
qed

section \<open>The sender\<close>

lemma buf_init_room:
  assumes "buf_wf w" "0 \<le> hr" "hr \<le> b_capacity w"
  obtains w0 where "buf_init_dowork w hr = (True, w0)" "buf_wf w0" "buf_contents w0 = []"
    "buf_front w0 = nat hr" "buf_back w0 = nat (b_capacity w - hr)"
proof -
  have "fst (buf_init_dowork w hr)" using buf_init_ok[OF assms(1), of hr] assms(2,3) by blast
  then obtain w0 where w0: "buf_init_dowork w hr = (True, w0)" by (cases "buf_init_dowork w hr") auto
  show ?thesis by (rule that[OF w0]) (use buf_init_wf[OF assms(1) w0] in auto)
qed

lemma select_key_save [simp]: "select_key now (m\<lparr>tm_save_ks := x\<rparr>) sel is' = select_key now m sel is'"
  by (induction is' arbitrary: sel) (auto simp: Let_def intro!: bind_option_cong)

lemma encrypt_sign_seals:
  fixes m :: "('c, 'h) tls_multi"
  assumes sel: "tls_select_encryption_key now m = Some (Some j)"
    and key: "get_key_scan m j = Some ks" "tx = ks_crypto_options ks" "k = ks_key_id ks"
    and up: "tm_multi_state m = CAS_CONNECT_DONE"
    and tx: "aead_pair cb e d" "aead_key_ok cb (co_encrypt tx) e" "packet_id_initialized (cr_packet_id (co_replay tx))"
      "packet_id_send_update now (co_send tx) False = (True, s)"
    and buf: "buf_wf buf" "buf_contents buf = pt" "pt \<noteq> []"
    and work: "buf_wf work" "4 \<le> hr"
      "hr + 20 + int (length pt) + int (cipher_ctx_block_size cb e) \<le> b_capacity work"
    and hdr: "hdr = data_header m k" "ad = (if tm_use_peer_id m then hdr else [])"
  obtains out m' ct tag e' where "encrypt_sign cb rnd now hr buf work m = Some (out, m')"
    "aead_seal cb e (aead_iv (co_encrypt tx) (send_id s)) (ad @ htonl (send_id s)) pt = Some (ct, tag, e')"
    "buf_wf out" "buf_contents out = hdr @ htonl (send_id s) @ tag @ ct" "length ct = length pt"
    "length tag = OPENVPN_AEAD_TAG_LENGTH"
proof -
  let ?m = "m\<lparr>tm_save_ks := Some j\<rparr>"
  have bl: "0 < b_len buf" using length_buf_contents[OF buf(1)] buf(2,3) by (cases pt) auto
  obtain w0 where w0: "buf_init_dowork work hr = (True, w0)" "buf_wf w0" "buf_contents w0 = []"
    "buf_front w0 = nat hr" "buf_back w0 = nat (b_capacity work - hr)"
    by (rule buf_init_room[OF work(1), of hr]) (use work(2,3) in auto)
  have rm: "4 + OPENVPN_AEAD_TAG_LENGTH + length pt + cipher_ctx_block_size cb e \<le> buf_back w0"
    using w0(5) work(3) by (simp add: OPENVPN_AEAD_TAG_LENGTH_def)
  have pre: "tls_pre_encrypt now m buf = Some (?m, buf, Some j)"
    using bl sel by (simp add: tls_pre_encrypt_def Let_def tls_select_encryption_key_def)
  obtain w1 where w1: "(if tm_use_peer_id m then tls_prepend_opcode_v2 ?m w0 else Some w0) = Some w1"
    "buf_wf w1" "buf_contents w1 = ad" "buf_back w1 = buf_back w0" "\<not> tm_use_peer_id m \<Longrightarrow> w1 = w0"
  proof (cases "tm_use_peer_id m")
    case True
    have "length (header_v2 (tm_peer_id m) k) \<le> buf_front w0" using w0(4) work(2) by simp
    from buf_prepend_room[OF w0(2) this] obtain w1 where "buf_write_prepend w0 (header_v2 (tm_peer_id m) k) = (True, w1)"
      "buf_wf w1" "buf_contents w1 = header_v2 (tm_peer_id m) k" "buf_back w1 = buf_back w0" using w0(3) by auto
    then show ?thesis using that[of w1] True key hdr
      by (simp add: tls_prepend_opcode_v2_def data_header_def header_v2_def)
  qed (use that[of w0] w0 hdr in simp)
  obtain out ct tag e' where o: "openvpn_encrypt_aead cb now buf w1 tx = Some (out, co_set_encrypt (co_set_send tx s) e')"
    "aead_seal cb e (aead_iv (co_encrypt tx) (send_id s)) (ad @ htonl (send_id s)) pt = Some (ct, tag, e')"
    "buf_wf out" "buf_contents out = ad @ htonl (send_id s) @ tag @ ct" "b_offset out = b_offset w1"
    "length ct = length pt" "length tag = OPENVPN_AEAD_TAG_LENGTH"
    by (rule openvpn_encrypt_aead_seals[OF tx(1,2,3,4) buf(1,2) w1(2,3)]) (use rm w1(4) in auto)
  have mode: "kc_cipher (co_encrypt tx) = Some e" "cipher_ctx_mode_aead cb e"
    using tx(1,2) by (auto simp: aead_key_ok_def aead_pair_def)
  have enc: "openvpn_encrypt cb rnd now buf w1 (Some tx) = Some (out, Some (co_set_encrypt (co_set_send tx s) e'))"
    using bl o(1) mode by (simp add: openvpn_encrypt_def ctx_mode_def)
  let ?ks = "ks\<lparr>ks_crypto_options := co_set_encrypt (co_set_send tx s) e'\<rparr>"
  let ?m2 = "set_key_scan j ?ks ?m"
  have g2: "get_key_scan ?m2 j = Some ?ks" by (rule get_set_key_scan[of _ _ ks]) (simp add: key(1))
  have ob: "0 < b_len out" using length_buf_contents[OF o(3)] o(4) by simp
  obtain out2 where o2: "(if tm_use_peer_id m then Some out else tls_prepend_opcode_v1 ?m2 out) = Some out2"
    "buf_wf out2" "buf_contents out2 = hdr @ htonl (send_id s) @ tag @ ct" "0 < b_len out2"
  proof (cases "tm_use_peer_id m")
    case False
    have "buf_front out = nat hr" using o(5) w1(5)[OF False] w0(4) by (simp add: buf_front_def)
    then have "length [opcode_v1 k] \<le> buf_front out" using work(2) by simp
    from buf_prepend_room[OF o(3) this] obtain out2 where p: "buf_write_prepend out [opcode_v1 k] = (True, out2)"
      "buf_wf out2" "buf_contents out2 = [opcode_v1 k] @ htonl (send_id s) @ tag @ ct" using o(4) hdr(2) False by auto
    have "0 < b_len out2" using length_buf_contents[OF p(2)] p(3) by simp
    then show ?thesis using that[of out2] p False g2 key(3) hdr
      by (simp add: tls_prepend_opcode_v1_def data_header_def opcode_v1_def)
  qed (use that[of out] o ob hdr in simp)
  obtain m3 where m3: "tls_post_encrypt ?m2 out2 = Some m3"
    using o2(4) g2 by (simp add: tls_post_encrypt_def Let_def)
  have "encrypt_sign cb rnd now hr buf work m = Some (out2, m3)"
    unfolding encrypt_sign_def
    using up w0(1) pre bl w1(1) key enc ob o2(1) m3
    by (auto simp: set_crypto_options_def split: if_splits)
  then show ?thesis using that o2 o(2,6,7) by blast
qed

section \<open>End to end\<close>

text \<open>The keys of the two sides agree: one AEAD key, the same implicit IV and key id.\<close>

definition keys_agree ::
  "('c, 'h) crypto_backend \<Rightarrow> 'c \<Rightarrow> 'c \<Rightarrow> ('c, 'h) key_state \<Rightarrow> ('c, 'h) key_state \<Rightarrow> bool" where
  "keys_agree cb e d tk rk \<longleftrightarrow> aead_pair cb e d
     \<and> aead_key_ok cb (co_encrypt (ks_crypto_options tk)) e \<and> aead_key_ok cb (co_decrypt (ks_crypto_options rk)) d
     \<and> kc_implicit_iv (co_decrypt (ks_crypto_options rk)) = kc_implicit_iv (co_encrypt (ks_crypto_options tk))
     \<and> packet_id_initialized (cr_packet_id (co_replay (ks_crypto_options tk)))
     \<and> packet_id_initialized (cr_packet_id (co_replay (ks_crypto_options rk)))
     \<and> ks_key_ctx_initialized rk \<and> ks_key_id tk \<le> P_KEY_ID_MASK"

lemma send_update_short:
  assumes "send_id p \<noteq> PACKET_ID_MAX"
  shows "\<exists>s. packet_id_send_update now p False = (True, s) \<and> send_id s = send_id p + 1"
  using assms by (simp add: packet_id_send_update_def Let_def)

text \<open>
  C2. Round trip of the data channel. Let the sender have a usable key and identifiers left, let
  the receiver know a key of the same id for the sender's address, and let the two contexts be
  those of one AEAD key. Then, with either version of the packet header, \<open>encrypt_sign\<close> produces
  a packet, and the incoming data path of the receiver turns this packet into exactly the
  payload when the replay check accepts its identifier, and into nothing when it does not.
\<close>

theorem data_channel_roundtrip:
  assumes keys: "keys_agree cb e d tk rk"
    and tm: "tls_select_encryption_key now tm = Some (Some i)" "get_key_scan tm i = Some tk"
      "tm_multi_state tm = CAS_CONNECT_DONE" "send_id (co_send (ks_crypto_options tk)) \<noteq> PACKET_ID_MAX"
    and rm: "scan_decrypt_key rm peer (ks_key_id tk) floated [0..<KEY_SCAN_SIZE] = Some (Some j)"
      "get_key_scan rm j = Some rk" "tm_multi_state rm = CAS_CONNECT_DONE"
    and buf: "buf_wf buf" "buf_contents buf = pt" "pt \<noteq> []"
    and work: "buf_wf work" "4 \<le> hr" "hr + 20 + int (length pt) + int (cipher_ctx_block_size cb e) \<le> b_capacity work"
    and work': "buf_wf work'" "0 \<le> hr'" "hr' + int (length pt) + int (cipher_ctx_block_size cb e) \<le> b_capacity work'"
    and rep: "crypto_check_replay now' (co_replay (ks_crypto_options rk))
        \<lparr>net_id = send_id (co_send (ks_crypto_options tk)) + 1, net_time = 0\<rparr> = Some (ok, r)"
  shows "\<exists>out tm'. encrypt_sign cb rnd now hr buf work tm = Some (out, tm') \<and> buf_wf out
    \<and> (\<forall>rbuf. buf_wf rbuf \<and> buf_contents rbuf = buf_contents out \<longrightarrow>
        (\<exists>b rm'. process_incoming_data cb now' hr' peer rbuf work' floated rm = Some (ok, b, rm')
           \<and> buf_contents b = (if ok then pt else [])))"
proof -
  let ?tx = "ks_crypto_options tk" and ?rx = "ks_crypto_options rk" and ?k = "ks_key_id tk"
  let ?hdr = "data_header tm ?k"
  let ?ad = "if tm_use_peer_id tm then ?hdr else []"
  have K: "aead_pair cb e d" "aead_key_ok cb (co_encrypt ?tx) e" "aead_key_ok cb (co_decrypt ?rx) d"
    "kc_implicit_iv (co_decrypt ?rx) = kc_implicit_iv (co_encrypt ?tx)"
    "packet_id_initialized (cr_packet_id (co_replay ?tx))" "packet_id_initialized (cr_packet_id (co_replay ?rx))"
    "ks_key_ctx_initialized rk" "?k \<le> P_KEY_ID_MASK"
    using keys by (auto simp: keys_agree_def)
  have bs: "\<forall>iv. cipher_ctx_block_size cb (snd (cipher_ctx_reset cb d iv)) = cipher_ctx_block_size cb e"
    and md: "cipher_ctx_mode_aead cb d" and ivl: "cipher_ctx_iv_length cb d = cipher_ctx_iv_length cb e"
    using K(1) by (auto simp: aead_pair_def)
  have il: "kc_implicit_iv_len (co_decrypt ?rx) = kc_implicit_iv_len (co_encrypt ?tx)"
    using K(2,3) ivl by (simp add: aead_key_ok_def)
  then have iv: "aead_iv (co_decrypt ?rx) x = aead_iv (co_encrypt ?tx) x" for x
    using K(4) by (simp add: aead_iv_def)
  obtain s where s: "packet_id_send_update now (co_send ?tx) False = (True, s)" "send_id s = send_id (co_send ?tx) + 1"
    using send_update_short[OF tm(4)] by blast
  obtain out tm' ct tag e' where o: "encrypt_sign cb rnd now hr buf work tm = Some (out, tm')"
    "aead_seal cb e (aead_iv (co_encrypt ?tx) (send_id s)) (?ad @ htonl (send_id s)) pt = Some (ct, tag, e')"
    "buf_wf out" "buf_contents out = ?hdr @ htonl (send_id s) @ tag @ ct" "length ct = length pt"
    "length tag = OPENVPN_AEAD_TAG_LENGTH"
    by (rule encrypt_sign_seals[OF tm(1,2) refl refl tm(3) K(1,2,5) s(1) buf work refl refl])
  have "length (aead_iv (co_encrypt ?tx) (send_id s)) = cipher_ctx_iv_length cb e"
    using K(1,2) by (auto simp: aead_iv_def aead_key_ok_def aead_pair_def OPENVPN_MAX_IV_LENGTH_def)
  then obtain d' where opn: "aead_open cb d (aead_iv (co_decrypt ?rx) (send_id s)) (?ad @ htonl (send_id s)) ct tag = Some (pt, d')"
    using K(1) o(2) unfolding aead_pair_def iv by (metis option.inject prod.inject)
  have h: "?hdr = [opcode_v1 ?k] \<or> ?hdr = header_v2 (tm_peer_id tm) ?k"
    "?ad = (if ?hdr = [opcode_v1 ?k] then [] else ?hdr)"
    using length_header_v2[of "tm_peer_id tm" ?k] by (auto simp: data_header_def simp del: length_header_v2)
  have ct: "ct \<noteq> []" using o(5) buf(3) by auto
  have "\<exists>b rm'. process_incoming_data cb now' hr' peer rbuf work' floated rm = Some (ok, b, rm')
      \<and> buf_contents b = (if ok then pt else [])" if rb: "buf_wf rbuf" "buf_contents rbuf = buf_contents out" for rbuf
  proof -
    have c: "buf_contents rbuf = ?hdr @ htonl (send_id s) @ tag @ ct" using rb(2) o(4) by simp
    show ?thesis
      by (rule process_incoming_opens[OF K(8) rm(1,2) K(7) refl rm(3) K(3) md K(6) bs h rb(1) c o(6) ct opn _ work'(1,2)])
        (use o(5) work'(3) rep s(2) in auto)
  qed
  then show ?thesis using o(1,3) by blast
qed

text \<open>A concrete library: a cipher that flips bits and a tag that repeats IV and header.\<close>

definition demo_aead :: "(bytes \<times> bytes, unit) crypto_backend" where
  "demo_aead = \<lparr>cipher_ctx_mode_aead = (\<lambda>_. True), cipher_ctx_mode_cbc = (\<lambda>_. False),
     cipher_ctx_mode_ofb_cfb = (\<lambda>_. False), cipher_ctx_iv_length = (\<lambda>_. 12), cipher_ctx_block_size = (\<lambda>_. 16),
     cipher_ctx_reset = (\<lambda>c iv. (True, (iv, []))), cipher_ctx_update_ad = (\<lambda>(iv, _) ad. (True, (iv, ad))),
     cipher_ctx_update = (\<lambda>c inp. (True, map (\<lambda>x. x XOR 85) inp, c)), cipher_ctx_final = (\<lambda>c. (True, [], c)),
     cipher_ctx_get_tag = (\<lambda>(iv, ad) n. (True, take n (iv @ ad @ replicate 16 0))),
     cipher_ctx_final_check_tag = (\<lambda>(iv, ad) tag. (tag = take 16 (iv @ ad @ replicate 16 0), [], (iv, ad))),
     hmac_ctx_size = (\<lambda>_. 0), hmac_ctx_reset = (\<lambda>h. h), hmac_ctx_update = (\<lambda>h _. h), hmac_ctx_final = (\<lambda>h. ([], h))\<rparr>"

lemma demo_flip: "map ((\<lambda>x. x XOR 85) \<circ> (\<lambda>x. x XOR 85)) pt = (pt :: bytes)"
  by (induction pt) (simp_all add: xor.assoc)

lemma demo_aead_pair: "aead_pair demo_aead e d"
  by (auto simp: aead_pair_def demo_aead_def OPENVPN_AEAD_MIN_IV_LEN_def OPENVPN_MAX_IV_LENGTH_def
      OPENVPN_AEAD_TAG_LENGTH_def aead_seal_def aead_open_def demo_flip split: prod.splits)

definition demo_key_ctx :: "(bytes \<times> bytes, unit) key_ctx" where
  "demo_key_ctx = \<lparr>kc_cipher = Some ([], []), kc_hmac = None, kc_implicit_iv = replicate 16 3, kc_implicit_iv_len = 8\<rparr>"

lemma demo_key_ok: "aead_key_ok demo_aead demo_key_ctx ([], [])"
  by (simp add: aead_key_ok_def demo_key_ctx_def demo_aead_def OPENVPN_MAX_IV_LENGTH_def)

text \<open>A receiver that replays strictly in order, as over TCP.\<close>

definition demo_pid :: packet_id where
  "demo_pid = the (packet_id_init 0 0)"

lemma demo_pid: "packet_id_init 0 0 = Some demo_pid"
  by (simp add: demo_pid_def packet_id_init_def)

lemma demo_pid_state: "demo_pid = \<lparr>pid_send = \<lparr>send_id = 0, send_time = 0\<rparr>, pid_rec = packet_id_rec_zero\<lparr>initialized := True\<rparr>\<rparr>"
  by (simp add: demo_pid_def packet_id_init_def)

definition demo_key :: "(bytes \<times> bytes, unit) key_state" where
  "demo_key = key_state_zero\<lparr>ks_state := S_GENERATED_KEYS, ks_authenticated := KS_AUTH_TRUE, ks_key_ctx_initialized := True,
     ks_key_id := 5, ks_crypto_options := \<lparr>co_encrypt = demo_key_ctx, co_decrypt = demo_key_ctx,
       co_replay = replay_start demo_pid None False, co_ignore_packet_id = False\<rparr>\<rparr>"

definition demo_multi :: "(bytes \<times> bytes, unit) tls_multi" where
  "demo_multi = \<lparr>tm_opt = demo_opt, tm_save_ks = None, tm_multi_state = CAS_CONNECT_DONE, tm_n_soft_errors = 0,
     tm_peer_id = 7, tm_use_peer_id = True, tm_active = tls_session_zero\<lparr>ss_primary := demo_key\<rparr>,
     tm_untrusted = tls_session_zero, tm_lame_duck = tls_session_zero\<rparr>"

lemma demo_keys_agree: "keys_agree demo_aead ([], []) ([], []) demo_key demo_key"
  using demo_aead_pair demo_key_ok
  by (simp add: keys_agree_def demo_key_def replay_start_def demo_pid_state packet_id_initialized_def P_KEY_ID_MASK_def)

lemma demo_replay: "\<exists>r. crypto_check_replay 100 (replay_start demo_pid None False) \<lparr>net_id = 1, net_time = 0\<rparr> = Some (True, r)"
  by (simp add: crypto_check_replay_def replay_start_def demo_pid_state packet_id_rec_zero_def packet_id_reap_test_def
      packet_id_reap_def packet_id_test_def packet_id_add_def SEQ_REAP_INTERVAL_def)

lemma data_channel_roundtrip_witness:
  "\<exists>buf work out tm' b rm'. buf_contents buf = [1, 2, 3]
    \<and> encrypt_sign demo_aead [] 100 16 buf work demo_multi = Some (out, tm')
    \<and> process_incoming_data demo_aead 100 16 addr_undefined out work True demo_multi = Some (True, b, rm')
    \<and> buf_contents b = [1, 2, 3]"
proof -
  obtain b0 where b0: "alloc_buf 200 = Some b0" by (simp add: alloc_buf_def buf_size_valid_def BUF_SIZE_MAX_def)
  note a = alloc_buf_wf[OF b0]
  obtain buf where buf: "buf_write b0 [1, 2, 3] = (True, buf)" "buf_wf buf" "buf_contents buf = [1, 2, 3]"
    using buf_write_room[of b0 "[1, 2, 3]"] a by auto
  have cap: "b_capacity b0 = 200" using buf_capacity_parts[of b0] a by simp
  have k0: "get_key_scan demo_multi 0 = Some demo_key" by (simp add: get_key_scan_def demo_multi_def)
  have sel: "tls_select_encryption_key 100 demo_multi = Some (Some 0)"
    unfolding tls_select_encryption_key_def scan_list
    using k0 by (simp add: demo_key_def key_state_zero_def)
  have scan: "scan_decrypt_key demo_multi addr_undefined (ks_key_id demo_key) True [0..<KEY_SCAN_SIZE] = Some (Some 0)"
    unfolding scan_list using k0 by (simp add: demo_key_def decrypt_key_match_def)
  have st: "tm_multi_state demo_multi = CAS_CONNECT_DONE" by (simp add: demo_multi_def)
  have sid: "send_id (co_send (ks_crypto_options demo_key)) = 0"
    by (simp add: demo_key_def replay_start_def demo_pid_state)
  obtain r where r: "crypto_check_replay 100 (co_replay (ks_crypto_options demo_key))
      \<lparr>net_id = send_id (co_send (ks_crypto_options demo_key)) + 1, net_time = 0\<rparr> = Some (True, r)"
    unfolding sid using demo_replay by (auto simp: demo_key_def)
  have bs: "cipher_ctx_block_size demo_aead ([], []) = 16" by (simp add: demo_aead_def)
  obtain out tm' where o: "encrypt_sign demo_aead [] 100 16 buf b0 demo_multi = Some (out, tm')" "buf_wf out"
    "\<And>rbuf. buf_wf rbuf \<Longrightarrow> buf_contents rbuf = buf_contents out \<Longrightarrow>
      \<exists>b rm'. process_incoming_data demo_aead 100 16 addr_undefined rbuf b0 True demo_multi = Some (True, b, rm')
        \<and> buf_contents b = [1, 2, 3]"
    using data_channel_roundtrip[OF demo_keys_agree sel k0 st _ scan k0 st buf(2,3) _ _ _ _ _ _ _ r, where hr = 16
        and work = b0 and hr' = 16 and work' = b0 and rnd = "[]"] a bs cap sid by (auto simp: PACKET_ID_MAX_def)
  show ?thesis using o buf(3) by blast
qed

end
