(* ===== verification/Data_Channel_Props.thy ===== *)
theory Data_Channel_Props
  imports Data_Channel
begin

text \<open>
  The receiver against arbitrary packets, as an instance of the replay guard, and the round trip
  of the CBC mode with its HMAC.
\<close>

section \<open>The receiver of a data channel is a replay guard\<close>

text \<open>
  A received packet: the clock, the start of the authenticated header and the buffer behind it.
  An accepted packet is known by its identifier, which stands in the clear.
\<close>

type_synonym data_event = "int \<times> int \<times> buffer"

definition data_step ::
  "('c, 'h) crypto_backend \<Rightarrow> int \<Rightarrow> buffer \<Rightarrow> data_event \<Rightarrow> ('c, 'h) crypto_options
     \<Rightarrow> (packet_id_net option \<times> ('c, 'h) crypto_options) option" where
  "data_step cb hr work e rx = (case e of (now, a, buf) \<Rightarrow> do {
     (ok, buf', rx') \<leftarrow> openvpn_decrypt cb now hr a buf work (Some rx);
     rx' \<leftarrow> rx';
     Some (if ok \<and> b_len buf > 0 then Some (packet_pin buf) else None, rx') })"

definition data_event_ok :: "data_event \<Rightarrow> bool" where
  "data_event_ok e \<longleftrightarrow> (case e of (now, a, buf) \<Rightarrow> 1 < now \<and> buf_wf buf \<and> 0 \<le> a \<and> a \<le> b_offset buf)"

definition rx_env :: "('c, 'h) crypto_backend \<Rightarrow> int \<Rightarrow> buffer \<Rightarrow> bool" where
  "rx_env cb hr work \<longleftrightarrow> backend_sane cb \<and> buf_wf work \<and> 0 \<le> hr \<and> hr \<le> b_capacity work"

lemma data_step_result:
  assumes "rx_env cb hr work" "rx_inv cb rx" "data_event_ok e"
  shows "\<exists>k rx'. data_step cb hr work e rx = Some (k, rx') \<and> rx_inv cb rx'
    \<and> (\<forall>k'. k = Some k' \<longrightarrow> \<not> rx_covered rx k' \<and> rx_covered rx' k') \<and> (\<forall>k'. rx_covered rx k' \<longrightarrow> rx_covered rx' k')"
proof -
  obtain now a buf where e: "e = (now, a, buf)" "1 < now" "buf_wf buf" "0 \<le> a" "a \<le> b_offset buf"
    using assms(3) by (cases e) (auto simp: data_event_ok_def)
  show ?thesis
  proof (cases "0 < b_len buf")
    case False
    then show ?thesis using assms(2) by (simp add: data_step_def e(1) openvpn_decrypt_def)
  next
    case True
    have m: "ctx_mode (cipher_ctx_mode_aead cb) (kc_cipher (co_decrypt rx))"
      using assms(2) by (auto simp: rx_inv_def ctx_mode_def split: option.splits)
    have "rx_result cb (packet_pin buf) rx (openvpn_decrypt_aead cb now hr a buf work rx)"
      using openvpn_decrypt_aead_total[OF _ assms(2) e(2,3) True e(4,5)] assms(1) by (simp add: rx_env_def)
    then obtain ok b rx' where r: "openvpn_decrypt_aead cb now hr a buf work rx = Some (ok, b, rx')" "rx_inv cb rx'"
      "ok \<longrightarrow> \<not> rx_covered rx (packet_pin buf) \<and> rx_covered rx' (packet_pin buf)"
      "\<forall>k'. rx_covered rx k' \<longrightarrow> rx_covered rx' k'"
      by (auto simp: rx_result_def split: option.splits)
    then show ?thesis using m True by (simp add: data_step_def e(1) openvpn_decrypt_def)
  qed
qed

interpretation data_guard: replay_guard "\<lambda>rx. rx_env cb hr work \<and> rx_inv cb rx" rx_covered data_event_ok
  "data_step cb hr work" for cb :: "('c, 'h) crypto_backend" and hr work
proof (unfold_locales, goal_cases)
  case (1 s e) then show ?case using data_step_result[of cb hr work s e] by blast
next
  case (2 s e k s') then show ?case using data_step_result[of cb hr work s e] by auto
next
  case (3 s e r s' k) then show ?case using data_step_result[of cb hr work s e] by auto
qed

lemma key_ctx_update_implicit_iv_ok:
  assumes "key_ctx_update_implicit_iv cb k key = Some k'" "kc_cipher k = Some c" "cipher_ctx_mode_aead cb c"
  shows "kc_cipher k' = Some c \<and> kc_implicit_iv_len k' \<le> cipher_ctx_iv_length cb c"
  using assms by (auto simp: key_ctx_update_implicit_iv_def Let_def aborts split: if_splits)

text \<open>
  C3. Hostile packets. A receiver starts with a fresh replay state and a key whose implicit IV
  was set by \<open>key_ctx_update_implicit_iv\<close>, over any library whose contexts keep their parameters
  and whose output is at most a block longer than the input. Then any sequence of packets of any
  contents is handled without a failed assertion, and no packet identifier is accepted twice,
  whatever the library says of their authenticity.
\<close>

theorem data_channel_no_replay:
  assumes "backend_sane cb" and "buf_wf work" "0 \<le> hr" "hr \<le> b_capacity work"
    and "packet_id_init seq_bt time_bt = Some pid" and "co_replay rx = replay_start pid pp lf"
    and "kc_cipher k = Some c" "cipher_ctx_mode_aead cb c"
    and "key_ctx_update_implicit_iv cb k key = Some (co_decrypt rx)"
    and "\<forall>e \<in> set events. data_event_ok e"
  shows "\<exists>accepted rx'. run_receiver (data_step cb hr work) events rx = Some (accepted, rx') \<and> distinct accepted"
proof -
  have "replay_inv (co_replay rx)"
    using packet_id_init_inv[OF assms(5)] by (simp add: assms(6) replay_inv_def replay_start_def)
  moreover have "kc_cipher (co_decrypt rx) = Some c"
    "kc_implicit_iv_len (co_decrypt rx) \<le> cipher_ctx_iv_length cb c"
    using key_ctx_update_implicit_iv_ok[OF assms(9,7,8)] by simp_all
  ultimately have "rx_inv cb rx" using assms(8) by (simp add: rx_inv_def)
  moreover have "rx_env cb hr work" using assms(1-4) by (simp add: rx_env_def)
  ultimately show ?thesis using data_guard.run_no_replay[of cb hr work rx events] assms(10) by blast
qed

lemma demo_sane: "backend_sane demo_aead"
  by (simp add: backend_sane_def same_params_def demo_aead_def split: prod.splits)

lemma data_channel_no_replay_witness:
  "\<exists>work buf rx accepted rx'. alloc_buf 200 = Some work
    \<and> run_receiver (data_step demo_aead 16 work) [(100, 0, buf), (101, 0, buf)] rx = Some (accepted, rx')
    \<and> distinct accepted"
proof -
  obtain b0 where b0: "alloc_buf 200 = Some b0" by (simp add: alloc_buf_def buf_size_valid_def BUF_SIZE_MAX_def)
  note a = alloc_buf_wf[OF b0]
  have cap: "b_capacity b0 = 200" using buf_capacity_parts[of b0] a by simp
  obtain buf where buf: "buf_write b0 (replicate 40 9) = (True, buf)" "buf_wf buf" "buf_front buf = 0"
    using buf_write_room[of b0 "replicate 40 9"] a by auto
  define k where "k = demo_key_ctx\<lparr>kc_implicit_iv_len := 0\<rparr>"
  obtain k' where k: "key_ctx_update_implicit_iv demo_aead k (replicate 64 1) = Some k'" "kc_cipher k = Some ([], [])"
    by (simp add: key_ctx_update_implicit_iv_def k_def demo_key_ctx_def demo_aead_def OPENVPN_AEAD_MIN_IV_LEN_def
        OPENVPN_MAX_IV_LENGTH_def Let_def)
  let ?rx = "\<lparr>co_encrypt = k', co_decrypt = k', co_replay = replay_start demo_pid None False, co_ignore_packet_id = False\<rparr>"
  have off: "b_offset buf = 0" using buf(2,3) by (auto simp: buf_front_def elim!: buf_wf_E)
  have m: "cipher_ctx_mode_aead demo_aead ([], [])" by (simp add: demo_aead_def)
  have "\<exists>accepted rx'. run_receiver (data_step demo_aead 16 b0) [(100, 0, buf), (101, 0, buf)] ?rx = Some (accepted, rx')
      \<and> distinct accepted"
    by (rule data_channel_no_replay[OF demo_sane _ _ _ demo_pid _ k(2) m, where key = "replicate 64 1" and pp = None and lf = False])
      (use a cap k(1) buf(2) off in \<open>auto simp: data_event_ok_def\<close>)
  then show ?thesis using b0 by blast
qed

section \<open>Round trip of the CBC mode\<close>

text \<open>
  C7. Round trip of the CBC mode with an HMAC, or with none (\<open>--auth none\<close>). When the two
  contexts are those of one cipher key and one HMAC key, what \<open>openvpn_encrypt\<close> puts behind the
  header is turned by \<open>openvpn_decrypt\<close> into the payload exactly when the replay check accepts
  the identifier that was sealed with it, in the short and in the long form, whatever the random
  IV.
\<close>

theorem cbc_roundtrip:
  assumes pair: "cbc_pair cb e d" "kc_cipher (co_encrypt tx) = Some e" "kc_cipher (co_decrypt rx) = Some d"
    and mac: "hmac_pair cb (kc_hmac (co_encrypt tx)) (kc_hmac (co_decrypt rx))"
    and ini: "packet_id_initialized (cr_packet_id (co_replay tx))" "packet_id_initialized (cr_packet_id (co_replay rx))"
    and lf: "lf = cr_long_form (co_replay tx)" "lf = cr_long_form (co_replay rx)"
    and u: "packet_id_send_update now (co_send tx) lf = (True, s)" "0 \<le> send_time s" "send_time s < 2 ^ 32"
    and buf: "buf_wf buf" "buf_contents buf = pt" "packet_id_size lf \<le> buf_front buf" "pt \<noteq> []"
    and work: "buf_wf work" "buf_contents work = hdr"
    and rnd: "cipher_ctx_iv_length cb e \<le> length rnd"
    and room: "mac_size cb (kc_hmac (co_encrypt tx)) + cipher_ctx_iv_length cb e + (packet_id_size lf + length pt)
        + cipher_ctx_block_size cb e \<le> buf_back work"
    and work': "buf_wf work'" "0 \<le> hr"
      "hr + int (packet_id_size lf + length pt + 2 * cipher_ctx_block_size cb e) \<le> b_capacity work'"
    and rep: "crypto_check_replay now' (co_replay rx)
        \<lparr>net_id = send_id s, net_time = (if lf then send_time s else 0)\<rparr> = Some (ok, r)"
  shows "\<exists>out tx' body. openvpn_encrypt cb rnd now buf work (Some tx) = Some (out, Some tx')
    \<and> buf_contents out = hdr @ body
    \<and> (\<forall>rbuf. buf_wf rbuf \<and> buf_contents rbuf = body \<longrightarrow>
        (\<exists>b rx'. openvpn_decrypt cb now' hr a rbuf work' (Some rx) = Some (ok, b, Some rx')
           \<and> buf_contents b = (if ok then pt else [])))"
proof -
  let ?h = "kc_hmac (co_encrypt tx)"
  let ?n = "cipher_ctx_iv_length cb e"
  let ?iv = "take ?n rnd"
  let ?k = "\<lparr>net_id = send_id s, net_time = (if lf then send_time s else 0)\<rparr>"
  have P: "\<not> cipher_ctx_mode_aead cb e" "\<not> cipher_ctx_mode_aead cb d" "cipher_ctx_iv_length cb d = ?n"
    "?n \<le> OPENVPN_MAX_IV_LENGTH"
    "\<forall>iv. cipher_ctx_block_size cb (snd (cipher_ctx_reset cb d iv)) = cipher_ctx_block_size cb e"
    using pair(1) by (auto simp: cbc_pair_def)
  have enc: "packet_id_enc lf \<lparr>net_id = send_id s, net_time = send_time s\<rparr> = packet_id_enc lf ?k"
    by (simp add: packet_id_enc_def)
  obtain out tx' o1 o2 e' where o: "openvpn_encrypt_v1 cb rnd now buf work tx = Some (out, tx')"
    "cbc_seal cb e ?iv (packet_id_enc lf ?k @ pt) = Some (o1, o2, e')"
    "buf_contents out = hdr @ mac_of cb ?h (?iv @ o1 @ o2) @ ?iv @ o1 @ o2"
    using openvpn_encrypt_v1_seals[OF pair(1,2) ini(1) u(1) lf(1) buf work refl mac refl rnd room] unfolding enc by metis
  have liv: "length ?iv = ?n" using rnd by simp
  obtain d' where d': "length (packet_id_enc lf ?k @ pt) \<le> length (o1 @ o2)" "cipher_ctx_mode_cbc cb d'"
    "length (o1 @ o2) \<le> length (packet_id_enc lf ?k @ pt) + cipher_ctx_block_size cb e"
    "cbc_open cb d ?iv (o1 @ o2) = Some (packet_id_enc lf ?k @ pt, d')"
  proof -
    have "\<exists>p1 p2 e2 d'. cbc_seal cb e ?iv (packet_id_enc lf ?k @ pt) = Some (p1, p2, e2) \<and> length p2 = ?n
      \<and> length (packet_id_enc lf ?k @ pt) \<le> length (p1 @ p2)
      \<and> length (p1 @ p2) \<le> length (packet_id_enc lf ?k @ pt) + cipher_ctx_block_size cb e
      \<and> cbc_open cb d ?iv (p1 @ p2) = Some (packet_id_enc lf ?k @ pt, d') \<and> cipher_ctx_mode_cbc cb d'"
      using pair(1) liv unfolding cbc_pair_def by blast
    then show ?thesis using o(2) that by (elim exE conjE) simp
  qed
  have wire: "packet_id_wire lf ?k" using u(2,3) by (simp add: packet_id_wire_def)
  have le: "length (packet_id_enc lf ?k) = packet_id_size lf" by (rule length_packet_id_enc)
  have ivb: "cipher_ctx_iv_length cb d \<le> OPENVPN_MAX_IV_LENGTH" and livd: "length ?iv = cipher_ctx_iv_length cb d"
    using P(3,4) liv by simp_all
  have rw: "hr + int (length (o1 @ o2)) + int (cipher_ctx_block_size cb e) \<le> b_capacity work'"
    using d'(3) work'(3) le by simp
  have ne: "o1 @ o2 \<noteq> []" using d'(1) buf(4) by auto
  have bl: "0 < b_len buf" using length_buf_contents[OF buf(1)] buf(2,4) by (cases pt) auto
  have e1: "openvpn_encrypt cb rnd now buf work (Some tx) = Some (out, Some tx')"
    using bl o(1) pair(2) P(1) by (simp add: openvpn_encrypt_def ctx_mode_def)
  have "\<exists>b rx'. openvpn_decrypt cb now' hr a rbuf work' (Some rx) = Some (ok, b, Some rx')
           \<and> buf_contents b = (if ok then pt else [])"
    if rb: "buf_wf rbuf" "buf_contents rbuf = mac_of cb ?h (?iv @ o1 @ o2) @ ?iv @ o1 @ o2" for rbuf
  proof -
    obtain b1 rx1 where au: "decrypt_v1_auth cb rbuf rx = Some (True, b1, rx1)" "buf_wf b1"
      "buf_contents b1 = ?iv @ o1 @ o2" "co_replay rx1 = co_replay rx" "kc_cipher (co_decrypt rx1) = Some d"
      using decrypt_v1_auth_ok[OF mac rb] pair(3) by metis
    obtain b' w where v: "decrypt_v1_cipher cb now' hr b1 work' d rx1
        = decrypt_accept now' (Some ?k) b' w (co_set_decrypt rx1 d')" "buf_wf w" "buf_contents w = pt"
    proof (rule decrypt_v1_cipher_opens[OF ivb livd P(5) d'(4,2) _ _ wire au(2,3) ne work'(1,2) rw d'(1)])
      show "packet_id_initialized (cr_packet_id (co_replay rx1))" "lf = cr_long_form (co_replay rx1)"
        using ini(2) lf(2) au(4) by simp_all
    qed
    have "crypto_check_replay now' (co_replay (co_set_decrypt rx1 d')) ?k = Some (ok, r)"
      using rep au(4) by simp
    from decrypt_accept_result[OF this v(2), of b']
    obtain b2 where b2: "decrypt_v1_cipher cb now' hr b1 work' d rx1 = Some (ok, b2, (co_set_decrypt rx1 d')\<lparr>co_replay := r\<rparr>)"
      "buf_contents b2 = (if ok then pt else [])" using v(1,3) by auto
    have "0 < length (buf_contents rbuf)" unfolding rb(2) using ne by simp
    then have "0 < b_len rbuf" unfolding length_buf_contents[OF rb(1), symmetric] by simp
    then have "openvpn_decrypt cb now' hr a rbuf work' (Some rx)
        = Some (ok, b2, Some ((co_set_decrypt rx1 d')\<lparr>co_replay := r\<rparr>))"
      using au(1,5) b2(1) P(2) pair(3) by (simp add: openvpn_decrypt_def openvpn_decrypt_v1_def ctx_mode_def)
    then show ?thesis using b2(2) by blast
  qed
  then show ?thesis using e1 o(3) by blast
qed

text \<open>A concrete library: a cipher that appends a padding byte, and a constant HMAC.\<close>

definition demo_cbc :: "(bool, unit) crypto_backend" where
  "demo_cbc = \<lparr>cipher_ctx_mode_aead = (\<lambda>_. False), cipher_ctx_mode_cbc = (\<lambda>_. True),
     cipher_ctx_mode_ofb_cfb = (\<lambda>_. False), cipher_ctx_iv_length = (\<lambda>_. 1), cipher_ctx_block_size = (\<lambda>_. 1),
     cipher_ctx_reset = (\<lambda>c iv. (True, c)), cipher_ctx_update_ad = (\<lambda>c ad. (False, c)),
     cipher_ctx_update = (\<lambda>c inp. (True, if c then butlast inp else inp, c)),
     cipher_ctx_final = (\<lambda>c. (True, if c then [] else [0], c)),
     cipher_ctx_get_tag = (\<lambda>c n. (False, [])), cipher_ctx_final_check_tag = (\<lambda>c tag. (False, [], c)),
     hmac_ctx_size = (\<lambda>_. 2), hmac_ctx_reset = (\<lambda>h. h), hmac_ctx_update = (\<lambda>h _. h), hmac_ctx_final = (\<lambda>h. ([7, 7], h))\<rparr>"

lemma demo_cbc_seal: "cbc_seal demo_cbc False iv pt = Some (pt, [0], False)"
  by (simp add: cbc_seal_def demo_cbc_def)

lemma demo_cbc_open: "cbc_open demo_cbc True iv (pt @ [0]) = Some (pt, True)"
  by (simp add: cbc_open_def cbc_seal_def demo_cbc_def)

lemma demo_cbc_params: "cipher_ctx_iv_length demo_cbc c = 1" "cipher_ctx_block_size demo_cbc c = 1"
  "cipher_ctx_mode_cbc demo_cbc c" "\<not> cipher_ctx_mode_aead demo_cbc c" "mac_size demo_cbc (Some ()) = 2"
  by (simp_all add: demo_cbc_def mac_size_def)

lemma demo_cbc_pair: "cbc_pair demo_cbc False True"
  unfolding cbc_pair_def using demo_cbc_seal demo_cbc_open
  by (auto simp: demo_cbc_params OPENVPN_MAX_IV_LENGTH_def)

lemma demo_hmac_pair: "hmac_pair demo_cbc (Some ()) (Some ())"
  by (simp add: hmac_pair_def hmac_of_def demo_cbc_def)

lemma cbc_roundtrip_witness:
  "\<exists>buf work tx rx out tx' body. buf_contents buf = [1, 2, 3]
    \<and> openvpn_encrypt demo_cbc [9] 100 buf work (Some tx) = Some (out, Some tx')
    \<and> buf_contents out = [5] @ body
    \<and> (\<forall>rbuf. buf_wf rbuf \<and> buf_contents rbuf = body \<longrightarrow>
        (\<exists>b rx'. openvpn_decrypt demo_cbc 100 16 0 rbuf work (Some rx) = Some (True, b, Some rx')
           \<and> buf_contents b = [1, 2, 3]))"
proof -
  obtain b0 where b0: "alloc_buf 200 = Some b0" by (simp add: alloc_buf_def buf_size_valid_def BUF_SIZE_MAX_def)
  note a = alloc_buf_wf[OF b0]
  have cap: "b_capacity b0 = 200" using buf_capacity_parts[of b0] a by simp
  obtain b1 where b1: "buf_init_dowork b0 16 = (True, b1)" "buf_wf b1" "buf_contents b1 = []" "buf_front b1 = 16"
    "buf_back b1 = 184"
    by (rule buf_init_room[of b0 16]) (use a cap in auto)
  obtain buf where buf: "buf_wf buf" "buf_contents buf = [1, 2, 3]" "buf_front buf = 16"
    using buf_write_room[OF b1(2), of "[1, 2, 3]"] b1 by auto
  obtain work where work: "buf_wf work" "buf_contents work = [5]" "buf_back work = 183" "buf_front work = 16"
    using buf_write_room[OF b1(2), of "[5]"] b1 by auto
  have wc: "b_capacity work = 200" using buf_capacity_parts[OF work(1)] work by simp
  let ?k = "\<lambda>c. \<lparr>kc_cipher = Some c, kc_hmac = Some (), kc_implicit_iv = [], kc_implicit_iv_len = 0\<rparr>"
  let ?o = "\<lparr>co_encrypt = ?k False, co_decrypt = ?k True, co_replay = replay_start demo_pid None False, co_ignore_packet_id = False\<rparr>"
  have i: "packet_id_initialized (cr_packet_id (co_replay ?o))"
    by (simp add: replay_start_def demo_pid_state packet_id_initialized_def)
  have u: "packet_id_send_update 100 (co_send ?o) False = (True, \<lparr>send_id = 1, send_time = 100\<rparr>)"
    by (simp add: replay_start_def demo_pid_state packet_id_send_update_def PACKET_ID_MAX_def)
  obtain r where r: "crypto_check_replay 100 (co_replay ?o) \<lparr>net_id = 1, net_time = 0\<rparr> = Some (True, r)"
    using demo_replay by auto
  have "\<exists>out tx' body. openvpn_encrypt demo_cbc [9] 100 buf work (Some ?o) = Some (out, Some tx')
    \<and> buf_contents out = [5] @ body
    \<and> (\<forall>rbuf. buf_wf rbuf \<and> buf_contents rbuf = body \<longrightarrow>
        (\<exists>b rx'. openvpn_decrypt demo_cbc 100 16 0 rbuf work (Some ?o) = Some (True, b, Some rx')
           \<and> buf_contents b = (if True then [1, 2, 3] else [])))"
    by (rule cbc_roundtrip[OF demo_cbc_pair _ _ _ i i _ _ u _ _ buf(1,2) _ _ work(1,2) _ _ work(1), where r = r])
      (use demo_hmac_pair buf work wc r in \<open>simp_all add: demo_cbc_params replay_start_def packet_id_size_def\<close>)
  from this[unfolded if_True] buf(2) show ?thesis by blast
qed

end
