(* ===== verification/C_Time.thy ===== *)
theory C_Time
  imports C_Integer
begin

text \<open>
  Time: the filtered clock and the limiter of event rates (\<open>otime.c\<close>), the arithmetic on
  \<open>struct timeval\<close> (\<open>otime.h\<close>), intervals and recurring timers (\<open>interval.h\<close>,
  \<open>interval.c\<close>), and the event selection of the traffic shaper (\<open>shaper.c\<close>). The time of the
  system is an argument of every operation that reads it.
\<close>

section \<open>The filtered clock\<close>

record clock =
  ck_now :: int
  now_adj :: int
  now_usec :: int

definition update_now :: "clock \<Rightarrow> int \<Rightarrow> clock" where
  "update_now c system_time =
     (let forward_threshold = 86400; backward_trigger = 10; real_time = system_time + now_adj c in
      if real_time > ck_now c then
        let overshoot = real_time - ck_now c - 1 in
        if overshoot > forward_threshold \<and> now_adj c \<ge> overshoot
        then c\<lparr>now_adj := now_adj c - overshoot, ck_now := real_time - overshoot\<rparr>
        else c\<lparr>ck_now := real_time\<rparr>
      else if real_time < ck_now c - backward_trigger
      then c\<lparr>now_adj := now_adj c + (ck_now c - real_time)\<rparr>
      else c)"

record timeval =
  tv_sec :: int
  tv_usec :: int

definition update_now_usec :: "clock \<Rightarrow> timeval \<Rightarrow> clock" where
  "update_now_usec c tv =
     (let last_now = ck_now c; c = update_now c (tv_sec tv) in
      if ck_now c > last_now \<or> (ck_now c = last_now \<and> tv_usec tv > now_usec c)
      then c\<lparr>now_usec := tv_usec tv\<rparr> else c)"

text \<open>\<open>None\<close> stands for a failed \<open>gettimeofday\<close>: the time value is then left as it was.\<close>

definition openvpn_gettimeofday :: "clock \<Rightarrow> timeval option \<Rightarrow> timeval \<Rightarrow> int \<times> timeval \<times> clock" where
  "openvpn_gettimeofday c sys tv =
     (case sys of
        None \<Rightarrow> (-1, tv, c)
      | Some s \<Rightarrow> let c = update_now_usec c s in (0, \<lparr>tv_sec = ck_now c, tv_usec = now_usec c\<rparr>, c))"

definition update_time :: "clock \<Rightarrow> int \<Rightarrow> clock" where
  "update_time c system_time = (update_now c system_time)\<lparr>now_usec := 0\<rparr>"

definition openvpn_time :: "clock \<Rightarrow> int \<Rightarrow> int \<times> clock" where
  "openvpn_time c system_time = (let c = update_time c system_time in (ck_now c, c))"

section \<open>Time values\<close>

definition tv_clear :: timeval where
  "tv_clear = \<lparr>tv_sec = 0, tv_usec = 0\<rparr>"

definition tv_defined :: "timeval \<Rightarrow> bool" where
  "tv_defined tv \<longleftrightarrow> tv_sec tv > 0 \<and> tv_usec tv > 0"

definition tv_subtract :: "timeval \<Rightarrow> timeval \<Rightarrow> int \<Rightarrow> int" where
  "tv_subtract tv1 tv2 max_seconds =
     (let max_usec = max_seconds * 1000000; sec_diff = c_int (tv_sec tv1 - tv_sec tv2) in
      if sec_diff > max_seconds + 10 then max_usec
      else if sec_diff < - (max_seconds + 10) then - max_usec
      else constrain_int (sec_diff * 1000000 + (tv_usec tv1 - tv_usec tv2)) (- max_usec) max_usec)"

definition tv_add :: "timeval \<Rightarrow> timeval \<Rightarrow> timeval" where
  "tv_add dest src =
     (let sec = tv_sec dest + tv_sec src; usec = tv_usec dest + tv_usec src;
          sec = sec + drop_bit 20 usec; usec = usec AND 0x000FFFFF in
      if usec \<ge> 1000000 then \<lparr>tv_sec = sec + 1, tv_usec = usec - 1000000\<rparr>
      else \<lparr>tv_sec = sec, tv_usec = usec\<rparr>)"

definition tv_lt :: "timeval \<Rightarrow> timeval \<Rightarrow> bool" where
  "tv_lt t1 t2 = (if tv_sec t1 < tv_sec t2 then True
     else if tv_sec t1 > tv_sec t2 then False else tv_usec t1 < tv_usec t2)"

definition tv_le :: "timeval \<Rightarrow> timeval \<Rightarrow> bool" where
  "tv_le t1 t2 = (if tv_sec t1 < tv_sec t2 then True
     else if tv_sec t1 > tv_sec t2 then False else tv_usec t1 \<le> tv_usec t2)"

definition tv_ge :: "timeval \<Rightarrow> timeval \<Rightarrow> bool" where
  "tv_ge t1 t2 = (if tv_sec t1 > tv_sec t2 then True
     else if tv_sec t1 < tv_sec t2 then False else tv_usec t1 \<ge> tv_usec t2)"

definition tv_gt :: "timeval \<Rightarrow> timeval \<Rightarrow> bool" where
  "tv_gt t1 t2 = (if tv_sec t1 > tv_sec t2 then True
     else if tv_sec t1 < tv_sec t2 then False else tv_usec t1 > tv_usec t2)"

definition tv_eq :: "timeval \<Rightarrow> timeval \<Rightarrow> bool" where
  "tv_eq t1 t2 \<longleftrightarrow> tv_sec t1 = tv_sec t2 \<and> tv_usec t1 = tv_usec t2"

function borrow_usec :: "int \<Rightarrow> int \<Rightarrow> int \<times> int" where
  "borrow_usec sec usec = (if usec < 0 then borrow_usec (sec - 1) (usec + 1000000) else (sec, usec))"
  by auto
termination by (relation "measure (\<lambda>(s, u). nat (- u))") auto

definition tv_delta :: "timeval \<Rightarrow> timeval \<Rightarrow> timeval" where
  "tv_delta t1 t2 =
     (let sec = c_int (tv_sec t2 - tv_sec t1); usec = c_int (tv_usec t2 - tv_usec t1);
          (sec, usec) = borrow_usec sec usec in
      if sec < 0 then \<lparr>tv_sec = 0, tv_usec = 0\<rparr> else \<lparr>tv_sec = sec, tv_usec = usec\<rparr>)"

definition TV_WITHIN_SIGMA_MAX_SEC :: int where "TV_WITHIN_SIGMA_MAX_SEC = 600"

definition tv_within_sigma :: "timeval \<Rightarrow> timeval \<Rightarrow> int \<Rightarrow> bool" where
  "tv_within_sigma t1 t2 sigma =
     (let delta = tv_subtract t1 t2 TV_WITHIN_SIGMA_MAX_SEC in - sigma \<le> delta \<and> delta \<le> sigma)"

definition interval_earliest_wakeup :: "int \<Rightarrow> int \<Rightarrow> int \<Rightarrow> int" where
  "interval_earliest_wakeup wakeup at current =
     (if at > current then
        let delta = c_int (at - current); wakeup = (if delta < wakeup then delta else wakeup) in
        if wakeup < 0 then 0 else wakeup
      else wakeup)"

section \<open>The limiter of event rates\<close>

record frequency_limit =
  fl_max :: int
  fl_per :: int
  fl_n :: int
  fl_reset :: int

definition frequency_limit_init :: "int \<Rightarrow> int \<Rightarrow> frequency_limit option" where
  "frequency_limit_init mx per = do {
     ASSERT (mx \<ge> 0 \<and> per \<ge> 0);
     Some \<lparr>fl_max = mx, fl_per = per, fl_n = 0, fl_reset = 0\<rparr> }"

definition frequency_limit_event_allowed :: "int \<Rightarrow> frequency_limit \<Rightarrow> bool \<times> frequency_limit" where
  "frequency_limit_event_allowed now f =
     (if fl_per f \<noteq> 0 then
        let f = (if now \<ge> fl_reset f + fl_per f then f\<lparr>fl_reset := now, fl_n := 0\<rparr> else f);
            f = f\<lparr>fl_n := fl_n f + 1\<rparr> in
        (fl_n f \<le> fl_max f, f)
      else (True, f))"

section \<open>Intervals\<close>

record interval =
  iv_refresh :: int
  iv_horizon :: int
  iv_future_trigger :: int
  iv_last_action :: int
  iv_last_test_true :: int

definition interval_init :: "int \<Rightarrow> int \<Rightarrow> interval" where
  "interval_init horizon refresh = \<lparr>iv_refresh = refresh, iv_horizon = horizon,
     iv_future_trigger = 0, iv_last_action = 0, iv_last_test_true = 0\<rparr>"

definition interval_test :: "int \<Rightarrow> interval \<Rightarrow> bool \<times> interval" where
  "interval_test now iv =
     (let trigger = (iv_future_trigger iv \<noteq> 0 \<and> now \<ge> iv_future_trigger iv);
          iv = (if trigger then iv\<lparr>iv_future_trigger := 0\<rparr> else iv) in
      if iv_last_action iv + iv_horizon iv > now
         \<or> iv_last_test_true iv + iv_refresh iv \<le> now \<or> trigger
      then (True, iv\<lparr>iv_last_test_true := now\<rparr>)
      else (False, iv))"

definition interval_schedule_wakeup :: "int \<Rightarrow> interval \<Rightarrow> int \<Rightarrow> int" where
  "interval_schedule_wakeup now iv wakeup =
     interval_earliest_wakeup
       (interval_earliest_wakeup wakeup (iv_last_test_true iv + iv_refresh iv) now)
       (iv_future_trigger iv) now"

definition interval_future_trigger :: "int \<Rightarrow> interval \<Rightarrow> int \<Rightarrow> interval" where
  "interval_future_trigger now iv wakeup =
     (if wakeup \<noteq> 0 then iv\<lparr>iv_future_trigger := now + wakeup\<rparr> else iv)"

definition interval_action :: "int \<Rightarrow> interval \<Rightarrow> interval" where
  "interval_action now iv = iv\<lparr>iv_last_action := now\<rparr>"

section \<open>Recurring timers\<close>

record event_timeout =
  et_defined :: bool
  et_n :: int
  et_last :: int

definition event_timeout_defined :: "event_timeout \<Rightarrow> bool" where
  "event_timeout_defined et = et_defined et"

definition event_timeout_clear :: event_timeout where
  "event_timeout_clear = \<lparr>et_defined = False, et_n = 0, et_last = 0\<rparr>"

definition event_timeout_init :: "int \<Rightarrow> int \<Rightarrow> event_timeout" where
  "event_timeout_init n local_now =
     \<lparr>et_defined = True, et_n = (if n \<ge> 0 then n else 0), et_last = local_now\<rparr>"

definition event_timeout_reset :: "int \<Rightarrow> event_timeout \<Rightarrow> event_timeout" where
  "event_timeout_reset now et = (if et_defined et then et\<lparr>et_last := now\<rparr> else et)"

definition event_timeout_modify_wakeup :: "event_timeout \<Rightarrow> int \<Rightarrow> event_timeout" where
  "event_timeout_modify_wakeup et n =
     (if et_defined et then et\<lparr>et_n := (if n \<ge> 0 then n else 0)\<rparr> else et)"

definition event_timeout_remaining :: "int \<Rightarrow> event_timeout \<Rightarrow> int" where
  "event_timeout_remaining now et = c_int (et_last et - now + et_n et)"

definition event_timeout_trigger ::
  "int \<Rightarrow> event_timeout \<Rightarrow> timeval option \<Rightarrow> int \<Rightarrow> bool \<times> event_timeout \<times> timeval option" where
  "event_timeout_trigger now et tv retry =
     (if et_defined et then
        let wakeup = et_last et - now + et_n et;
            (ret, et, wakeup) =
              (if wakeup \<le> 0 then
                 if retry < 0 then (True, et\<lparr>et_last := now\<rparr>, et_n et) else (False, et, retry)
               else (False, et, wakeup));
            tv = (case tv of None \<Rightarrow> None
                  | Some t \<Rightarrow> if wakeup < tv_sec t then Some \<lparr>tv_sec = wakeup, tv_usec = 0\<rparr> else Some t)
        in (ret, et, tv)
      else (False, et, tv))"

section \<open>Microsecond timers and the shaper's event selection\<close>

definition USEC_TIMER_MAX :: int where "USEC_TIMER_MAX = 60"

record usec_timer =
  ut_start :: timeval
  ut_end :: timeval

definition usec_timer_start :: "clock \<Rightarrow> timeval option \<Rightarrow> usec_timer \<times> clock" where
  "usec_timer_start c sys =
     (case openvpn_gettimeofday c sys tv_clear of (_, tv, c) \<Rightarrow> (\<lparr>ut_start = tv, ut_end = tv_clear\<rparr>, c))"

definition usec_timer_end :: "clock \<Rightarrow> timeval option \<Rightarrow> usec_timer \<Rightarrow> usec_timer \<times> clock" where
  "usec_timer_end c sys obj =
     (case openvpn_gettimeofday c sys (ut_end obj) of (_, tv, c) \<Rightarrow> (obj\<lparr>ut_end := tv\<rparr>, c))"

definition usec_timer_interval_defined :: "usec_timer \<Rightarrow> bool" where
  "usec_timer_interval_defined obj \<longleftrightarrow> tv_sec (ut_start obj) \<noteq> 0 \<and> tv_sec (ut_end obj) \<noteq> 0"

definition usec_timer_interval :: "usec_timer \<Rightarrow> int" where
  "usec_timer_interval obj = tv_subtract (ut_end obj) (ut_start obj) USEC_TIMER_MAX"

definition shaper_soonest_event :: "timeval \<Rightarrow> int \<Rightarrow> bool \<times> timeval" where
  "shaper_soonest_event tv delay =
     (if delay < 1000000 then
        if tv_sec tv \<noteq> 0 then (True, \<lparr>tv_sec = 0, tv_usec = delay\<rparr>)
        else if delay < tv_usec tv then (True, tv\<lparr>tv_usec := delay\<rparr>)
        else (False, tv)
      else
        let sec = delay div 1000000; usec = delay mod 1000000 in
        if sec < tv_sec tv then (True, \<lparr>tv_sec = sec, tv_usec = usec\<rparr>)
        else if sec = tv_sec tv then
          if usec < tv_usec tv then (True, tv\<lparr>tv_usec := usec\<rparr>) else (False, tv)
        else (False, tv))"

declare borrow_usec.simps [simp del]

section \<open>Properties\<close>

subsection \<open>The clock\<close>

definition clock_run :: "int list \<Rightarrow> clock \<Rightarrow> clock" where
  "clock_run = fold (\<lambda>t c. update_now c t)"

lemma update_now_mono: "ck_now c \<le> ck_now (update_now c t)"
  by (simp add: update_now_def Let_def)

text \<open>
  After an update the adjusted time of the system is at most 10 seconds behind the clock, and
  the clock has moved no further than to the adjusted time.
\<close>

lemma update_now_bounds:
  "t + now_adj (update_now c t) \<ge> ck_now (update_now c t) - 10
   \<and> ck_now (update_now c t) \<le> max (ck_now c) (t + now_adj c)"
  by (simp add: update_now_def Let_def)

text \<open>
  The clock of OpenVPN never runs backwards. Whatever the system clock does (it may jump in
  either direction), a sequence of \<open>update_now\<close> never decreases \<open>now\<close>, the adjustment keeps the
  adjusted system time at most 10 seconds behind \<open>now\<close>, and as long as the adjustment has not
  been used, \<open>now\<close> never exceeds the greatest time the system has reported.
\<close>

theorem update_now_monotone:
  "ck_now c \<le> ck_now (clock_run ts c)
   \<and> t + now_adj (clock_run (ts @ [t]) c) \<ge> ck_now (clock_run (ts @ [t]) c) - 10
   \<and> ck_now (update_now (clock_run ts c) t) \<le> max (ck_now (clock_run ts c)) (t + now_adj (clock_run ts c))"
proof -
  have "ck_now c \<le> ck_now (clock_run ts c)"
    by (induction ts arbitrary: c) (auto simp: clock_run_def intro: order_trans[OF update_now_mono])
  then show ?thesis using update_now_bounds[of "clock_run ts c" t] by (simp add: clock_run_def)
qed

subsection \<open>Time values\<close>

definition tv_usecs :: "timeval \<Rightarrow> int" where
  "tv_usecs tv = tv_sec tv * 1000000 + tv_usec tv"

definition tv_norm :: "timeval \<Rightarrow> bool" where
  "tv_norm tv \<longleftrightarrow> 0 \<le> tv_usec tv \<and> tv_usec tv < 1000000"

lemma tv_order:
  assumes "tv_norm t1" "tv_norm t2"
  shows "tv_lt t1 t2 \<longleftrightarrow> tv_usecs t1 < tv_usecs t2" "tv_le t1 t2 \<longleftrightarrow> tv_usecs t1 \<le> tv_usecs t2"
    "tv_ge t1 t2 \<longleftrightarrow> tv_usecs t1 \<ge> tv_usecs t2" "tv_gt t1 t2 \<longleftrightarrow> tv_usecs t1 > tv_usecs t2"
    "tv_eq t1 t2 \<longleftrightarrow> tv_usecs t1 = tv_usecs t2"
proof -
  consider "tv_sec t1 + 1 \<le> tv_sec t2" | "tv_sec t1 = tv_sec t2" | "tv_sec t2 + 1 \<le> tv_sec t1" by linarith
  then have "(tv_lt t1 t2 \<longleftrightarrow> tv_usecs t1 < tv_usecs t2) \<and> (tv_le t1 t2 \<longleftrightarrow> tv_usecs t1 \<le> tv_usecs t2)
    \<and> (tv_ge t1 t2 \<longleftrightarrow> tv_usecs t1 \<ge> tv_usecs t2) \<and> (tv_gt t1 t2 \<longleftrightarrow> tv_usecs t1 > tv_usecs t2)
    \<and> (tv_eq t1 t2 \<longleftrightarrow> tv_usecs t1 = tv_usecs t2)"
    using assms by cases (auto simp: tv_norm_def tv_usecs_def tv_lt_def tv_le_def tv_ge_def tv_gt_def tv_eq_def)
  then show "tv_lt t1 t2 \<longleftrightarrow> tv_usecs t1 < tv_usecs t2" "tv_le t1 t2 \<longleftrightarrow> tv_usecs t1 \<le> tv_usecs t2"
    "tv_ge t1 t2 \<longleftrightarrow> tv_usecs t1 \<ge> tv_usecs t2" "tv_gt t1 t2 \<longleftrightarrow> tv_usecs t1 > tv_usecs t2"
    "tv_eq t1 t2 \<longleftrightarrow> tv_usecs t1 = tv_usecs t2" by blast+
qed

lemma and_mask20: "u AND 0x000FFFFF = u mod 2 ^ 20" for u :: int
  using take_bit_eq_mask[of 20 u] by (simp add: take_bit_eq_mod mask_eq_exp_minus_1)

text \<open>
  C35. What \<open>tv_add\<close> computes. The carry from the microseconds is taken in units of \<open>2^20\<close>
  instead of one million: every such carry loses 48576 microseconds, and the sum is right
  exactly when the microseconds add up to less than \<open>2^20\<close>. The result is always normalised.
\<close>

theorem tv_add_carry:
  assumes "0 \<le> tv_usec d" "0 \<le> tv_usec s"
  shows "tv_usecs (tv_add d s) = tv_usecs d + tv_usecs s - 48576 * ((tv_usec d + tv_usec s) div 2 ^ 20)
    \<and> tv_norm (tv_add d s)
    \<and> (tv_usecs (tv_add d s) = tv_usecs d + tv_usecs s \<longleftrightarrow> tv_usec d + tv_usec s < 2 ^ 20)"
proof -
  let ?u = "tv_usec d + tv_usec s"
  have u: "?u = (?u div 2 ^ 20) * 2 ^ 20 + ?u mod 2 ^ 20" by simp
  have m: "0 \<le> ?u mod 1048576" "?u mod 1048576 < 1048576" by simp_all
  have e: "tv_usecs (tv_add d s) = tv_usecs d + tv_usecs s - 48576 * (?u div 2 ^ 20)"
    using u by (simp add: tv_add_def and_mask20 drop_bit_eq_div tv_usecs_def Let_def)
  have n: "tv_norm (tv_add d s)"
    using less_trans[OF m(2), of 2000000] by (simp add: tv_add_def and_mask20 tv_norm_def Let_def)
  have "?u div 2 ^ 20 = 0 \<longleftrightarrow> ?u < 2 ^ 20"
    using assms by (auto simp: zdiv_eq_0_iff)
  then show ?thesis using e n by auto
qed

lemma tv_add_carry_witness:
  "tv_usecs (tv_add \<lparr>tv_sec = 0, tv_usec = 999999\<rparr> \<lparr>tv_sec = 0, tv_usec = 999999\<rparr>) = 1951422"
  using tv_add_carry[of "\<lparr>tv_sec = 0, tv_usec = 999999\<rparr>" "\<lparr>tv_sec = 0, tv_usec = 999999\<rparr>"]
  by (simp add: tv_usecs_def)

lemma tv_subtract_bounds: "0 \<le> m \<Longrightarrow> - (m * 1000000) \<le> tv_subtract a b m \<and> tv_subtract a b m \<le> m * 1000000"
  using constrain_int_range[of "- (m * 1000000)" "m * 1000000"]
  by (auto simp: tv_subtract_def Let_def)

lemma borrow_usec_spec:
  "\<exists>s' u'. borrow_usec s u = (s', u') \<and> s' * 1000000 + u' = s * 1000000 + u \<and> 0 \<le> u'
     \<and> (0 \<le> u \<longrightarrow> u' = u) \<and> (u < 0 \<longrightarrow> u' < 1000000)"
proof (induction s u rule: borrow_usec.induct)
  case (1 s u)
  show ?case
  proof (cases "u < 0")
    case True
    then obtain s' u' where "borrow_usec (s - 1) (u + 1000000) = (s', u')"
      "s' * 1000000 + u' = (s - 1) * 1000000 + (u + 1000000)" "0 \<le> u'"
      "0 \<le> u + 1000000 \<longrightarrow> u' = u + 1000000" "u + 1000000 < 0 \<longrightarrow> u' < 1000000"
      using "1.IH" by blast
    then show ?thesis using True by (subst borrow_usec.simps) auto
  next
    case False
    then show ?thesis by (subst borrow_usec.simps) auto
  qed
qed

subsection \<open>The limiter\<close>

definition limiter_run :: "int list \<Rightarrow> frequency_limit \<Rightarrow> nat \<times> frequency_limit" where
  "limiter_run ts f = fold (\<lambda>t (n, f). case frequency_limit_event_allowed t f of
     (ok, f) \<Rightarrow> (if ok then Suc n else n, f)) ts (0, f)"

lemma limiter_snoc:
  "limiter_run (ts @ [t]) f = (case limiter_run ts f of (n, g) \<Rightarrow>
     (case frequency_limit_event_allowed t g of (ok, h) \<Rightarrow> (if ok then Suc n else n, h)))"
  by (simp add: limiter_run_def)

text \<open>
  The state after a run of events inside a window of one period: either the period of the
  limiter has not been renewed since the start, or it was renewed inside the window and is
  renewed no more.
\<close>

lemma limiter_window:
  assumes "0 < fl_per f" "\<forall>t \<in> set ts. a \<le> t \<and> t < a + fl_per f" "0 \<le> fl_n f" "0 \<le> fl_max f"
  shows "case limiter_run ts f of (n, g) \<Rightarrow> fl_per g = fl_per f \<and> fl_max g = fl_max f \<and> 0 \<le> fl_n g
    \<and> (fl_reset g = fl_reset f \<and> fl_n g = fl_n f + int (length ts) \<and> int n \<le> max 0 (min (fl_n g) (fl_max f) - fl_n f)
       \<or> a \<le> fl_reset g \<and> int n \<le> fl_max f + min (fl_n g) (fl_max f))"
  using assms(2)
proof (induction ts rule: rev_induct)
  case Nil
  then show ?case using assms by (simp add: limiter_run_def)
next
  case (snoc t ts)
  obtain n g where r: "limiter_run ts f = (n, g)" by (metis surj_pair)
  note IH = snoc.IH[unfolded r prod.case]
  have t: "a \<le> t" "t < a + fl_per f" using snoc.prems by auto
  show ?case
    using IH t snoc.prems assms(1,3,4) unfolding limiter_snoc r
    by (auto simp: frequency_limit_event_allowed_def Let_def min_def max_def split: if_splits)
qed

text \<open>
  C36. The limiter bounds the rate of new connections. Of the events inside any window of one
  period, whatever the order of their times, at most twice the configured maximum is allowed,
  from any state of the limiter; with a period of 0 everything is allowed.
\<close>

theorem frequency_limit_rate:
  assumes "frequency_limit_init mx per = Some f"
  shows "case limiter_run before f of (_, g) \<Rightarrow>
    if per = 0 then fst (limiter_run window g) = length window
    else (\<forall>t \<in> set window. a \<le> t \<and> t < a + per) \<longrightarrow> int (fst (limiter_run window g)) \<le> 2 * mx"
proof -
  have i: "0 \<le> mx" "0 \<le> per" "f = \<lparr>fl_max = mx, fl_per = per, fl_n = 0, fl_reset = 0\<rparr>"
    using assms(1) by (auto simp: frequency_limit_init_def split: if_splits)
  have keep: "fl_per (snd (limiter_run ts h)) = fl_per h \<and> fl_max (snd (limiter_run ts h)) = fl_max h
      \<and> (0 \<le> fl_n h \<longrightarrow> 0 \<le> fl_n (snd (limiter_run ts h)))
      \<and> (fl_per h = 0 \<longrightarrow> fst (limiter_run ts h) = length ts)" for ts h
    by (induction ts rule: rev_induct)
      (auto simp: limiter_snoc limiter_run_def frequency_limit_event_allowed_def Let_def split: prod.splits)
  obtain m g where g: "limiter_run before f = (m, g)" by (metis surj_pair)
  then have gi: "fl_per g = per" "fl_max g = mx" "0 \<le> fl_n g" using keep[of before f] i(3) by auto
  obtain n h where h: "limiter_run window g = (n, h)" by (metis surj_pair)
  have "int n \<le> 2 * mx" if "per \<noteq> 0" "\<forall>t \<in> set window. a \<le> t \<and> t < a + per"
    using limiter_window[of g window a] that i(1,2) gi h by simp linarith
  then show ?thesis using g h keep[of window g] gi by auto
qed

lemma frequency_limit_rate_witness:
  "case limiter_run [] \<lparr>fl_max = 1, fl_per = 10, fl_n = 0, fl_reset = 0\<rparr> of (_, g) \<Rightarrow>
     int (fst (limiter_run [9, 10, 11, 12, 13] g)) \<le> 2"
  using frequency_limit_rate[where mx = 1 and per = 10 and before = "[]" and a = 5
      and f = "\<lparr>fl_max = 1, fl_per = 10, fl_n = 0, fl_reset = 0\<rparr>" and window = "[9, 10, 11, 12, 13]"]
  by (simp add: frequency_limit_init_def split: prod.splits)

subsection \<open>Recurring timers\<close>

text \<open>
  A recurring timer, tested at the given times: the times at which it fires, and the timeout
  that each test leaves for the event loop.
\<close>

fun timer_run :: "int list \<Rightarrow> event_timeout \<Rightarrow> int list" where
  "timer_run [] et = []"
| "timer_run (t # ts) et = (case event_timeout_trigger t et None (-1) of (fired, et, _) \<Rightarrow>
     (if fired then t # timer_run ts et else timer_run ts et))"

lemma event_timeout_trigger_cases:
  assumes "et_defined et"
  shows "event_timeout_trigger now et tv (-1) =
    (let fired = (et_last et + et_n et \<le> now);
         wakeup = (if fired then et_n et else et_last et + et_n et - now) in
     (fired, if fired then et\<lparr>et_last := now\<rparr> else et,
      case tv of None \<Rightarrow> None
      | Some t \<Rightarrow> Some (if wakeup < tv_sec t then \<lparr>tv_sec = wakeup, tv_usec = 0\<rparr> else t)))"
  using assms by (auto simp: event_timeout_trigger_def Let_def split: option.splits)

lemma timer_run_last:
  "et_defined et \<Longrightarrow> 0 \<le> et_n et \<Longrightarrow> sorted (et_last et # ts) \<Longrightarrow>
   sorted_wrt (\<lambda>a b. a + et_n et \<le> b) (et_last et # timer_run ts et)"
proof (induction ts arbitrary: et)
  case (Cons t ts)
  show ?case
  proof (cases "et_last et + et_n et \<le> t")
    case True
    then have "sorted_wrt (\<lambda>a b. a + et_n et \<le> b) (t # timer_run ts (et\<lparr>et_last := t\<rparr>))"
      using Cons.IH[of "et\<lparr>et_last := t\<rparr>"] Cons.prems by simp
    then show ?thesis using True Cons.prems
      by (auto simp: event_timeout_trigger_cases Let_def)
  next
    case False
    then show ?thesis using Cons.IH[of et] Cons.prems
      by (simp add: event_timeout_trigger_cases Let_def)
  qed
qed simp

text \<open>
  C37. A recurring timer. Tested at times that never run backwards, a timer of \<open>n\<close> seconds fires
  only \<open>n\<close> seconds or more after it was armed and after each earlier event; a test at which
  the \<open>n\<close> seconds are over always fires and arms the timer anew; and a test leaves the event
  loop a timeout no longer than what remains until the next event.
\<close>

theorem event_timeout_periodic:
  assumes "0 \<le> n" "sorted (t0 # ts)"
  shows "sorted_wrt (\<lambda>a b. a + n \<le> b) (t0 # timer_run ts (event_timeout_init n t0))
    \<and> (\<forall>now et tv. event_timeout_defined et \<longrightarrow>
         (case event_timeout_trigger now et (Some tv) (-1) of (fired, et', tv') \<Rightarrow>
            (fired \<longleftrightarrow> et_last et + et_n et \<le> now) \<and> (fired \<longrightarrow> et' = event_timeout_reset now et)
            \<and> (\<not> fired \<longrightarrow> et' = et)
            \<and> (\<exists>t. tv' = Some t \<and> tv_sec t \<le> et_last et' + et_n et' - now \<and> tv_sec t \<le> tv_sec tv)))"
  using timer_run_last[of "event_timeout_init n t0" ts] assms
  by (auto simp: event_timeout_init_def event_timeout_trigger_cases event_timeout_defined_def
      event_timeout_reset_def Let_def)

lemma event_timeout_periodic_witness:
  "sorted_wrt (\<lambda>a b. a + 5 \<le> b) (0 # timer_run [4, 5, 9, 12] (event_timeout_init 5 0))
   \<and> timer_run [4, 5, 9, 12] (event_timeout_init 5 0) = [5, 12]"
  using event_timeout_periodic[of 5 0 "[4, 5, 9, 12]"]
  by (simp add: event_timeout_init_def event_timeout_trigger_cases Let_def)

end
