(* ===== verification/Reliable.thy ===== *)
theory Reliable
  imports Session_Id C_Time
begin

text \<open>
  The reliability layer of the control channel (\<open>reliable.c\<close>, \<open>reliable.h\<close>): pending
  acknowledgements, the send and receive windows, retransmission with exponential backoff, and
  the wire form of acknowledgement records.

  A \<open>struct reliable_ack\<close> is the list of its first \<open>len\<close> identifiers, the array of a
  \<open>struct reliable\<close> the list of its first \<open>size\<close> entries: no operation reads beyond them. A
  pointer to the buffer of an entry is the index of the entry.
\<close>

section \<open>Sequence numbers\<close>

definition subtract_pid :: "u32 \<Rightarrow> u32 \<Rightarrow> u32" where
  "subtract_pid test base =
     (if test \<ge> base then test - base else (test + 0x80000000) - (base + 0x80000000))"

definition reliable_pid_in_range1 :: "u32 \<Rightarrow> u32 \<Rightarrow> u32 \<Rightarrow> bool" where
  "reliable_pid_in_range1 test base extent \<longleftrightarrow> subtract_pid test base < extent"

definition reliable_pid_in_range2 :: "u32 \<Rightarrow> u32 \<Rightarrow> u32 \<Rightarrow> bool" where
  "reliable_pid_in_range2 test base extent =
     (if base + extent \<ge> base then test < base + extent
      else test + 0x80000000 < (base + 0x80000000) + extent)"

definition reliable_pid_min :: "u32 \<Rightarrow> u32 \<Rightarrow> bool" where
  "reliable_pid_min p1 p2 \<longleftrightarrow> \<not> reliable_pid_in_range1 p1 p2 0x80000000"

section \<open>Acknowledgements\<close>

type_synonym reliable_ack = "u32 list"

definition RELIABLE_ACK_SIZE :: nat where "RELIABLE_ACK_SIZE = 8"
definition RELIABLE_CAPACITY :: int where "RELIABLE_CAPACITY = 12"
definition N_ACK_RETRANSMIT :: nat where "N_ACK_RETRANSMIT = 3"
definition BIG_TIMEOUT :: int where "BIG_TIMEOUT = 60 * 60 * 24 * 7"

definition ACK_SIZE :: "nat \<Rightarrow> int" where
  "ACK_SIZE n = 1 + (if n \<noteq> 0 then int SID_SIZE else 0) + 4 * int n"

definition reliable_ack_packet_id_present :: "reliable_ack \<Rightarrow> u32 \<Rightarrow> bool" where
  "reliable_ack_packet_id_present ack pid \<longleftrightarrow> pid \<in> set ack"

definition reliable_ack_read_packet_id :: "buffer \<Rightarrow> u32 option \<times> buffer" where
  "reliable_ack_read_packet_id buf =
     (case buf_read buf 4 of
        (Some net_pid, buf) \<Rightarrow> (Some (ntohl net_pid), buf)
      | (None, buf) \<Rightarrow> (None, buf))"

definition reliable_ack_acknowledge_packet_id :: "reliable_ack \<Rightarrow> u32 \<Rightarrow> bool \<times> reliable_ack" where
  "reliable_ack_acknowledge_packet_id ack pid =
     (if \<not> reliable_ack_packet_id_present ack pid \<and> length ack < RELIABLE_ACK_SIZE
      then (True, ack @ [pid]) else (False, ack))"

text \<open>The loop of \<open>reliable_ack_parse\<close>: the identifiers read so far stay in the record on failure.\<close>

fun ack_parse_loop :: "nat \<Rightarrow> buffer \<Rightarrow> reliable_ack \<Rightarrow> bool \<times> reliable_ack \<times> buffer" where
  "ack_parse_loop 0 buf ack = (True, ack, buf)"
| "ack_parse_loop (Suc k) buf ack =
     (case buf_read buf 4 of
        (None, buf) \<Rightarrow> (False, ack, buf)
      | (Some net_pid, buf) \<Rightarrow>
          if length ack \<ge> RELIABLE_ACK_SIZE then (False, ack, buf)
          else ack_parse_loop k buf (ack @ [ntohl net_pid]))"

text \<open>Result, record, session identifier (as it was unless one is read), buffer.\<close>

definition reliable_ack_parse ::
  "buffer \<Rightarrow> session_id \<Rightarrow> bool \<times> reliable_ack \<times> session_id \<times> buffer" where
  "reliable_ack_parse buf sid =
     (case buf_read buf 1 of
        (None, buf) \<Rightarrow> (False, [], sid, buf)
      | (Some cnt, buf) \<Rightarrow>
          (case ack_parse_loop (unat (hd cnt)) buf [] of
             (False, ack, buf) \<Rightarrow> (False, ack, sid, buf)
           | (True, ack, buf) \<Rightarrow>
               if hd cnt \<noteq> 0 then
                 (case session_id_read buf of
                    (None, buf) \<Rightarrow> (False, ack, sid, buf)
                  | (Some s, buf) \<Rightarrow> (True, ack, s, buf))
               else (True, ack, sid, buf)))"

definition reliable_ack_read ::
  "buffer \<Rightarrow> session_id \<Rightarrow> session_id \<Rightarrow> bool \<times> reliable_ack \<times> buffer" where
  "reliable_ack_read buf uninit sid =
     (case reliable_ack_parse buf uninit of
        (False, ack, _, buf) \<Rightarrow> (False, ack, buf)
      | (True, ack, remote, buf) \<Rightarrow>
          if length ack \<ge> 1 \<and> (\<not> session_id_defined remote \<or> \<not> session_id_equal remote sid)
          then (False, ack, buf) else (True, ack, buf))"

text \<open>The inner loop of \<open>copy_acks_to_lru\<close>: entries move one place to the right until \<open>i\<close> is met.\<close>

fun lru_shift :: "u32 \<Rightarrow> u32 \<Rightarrow> reliable_ack \<Rightarrow> reliable_ack \<times> u32 \<times> bool" where
  "lru_shift i move [] = ([], move, False)"
| "lru_shift i move (tmp # xs) =
     (if tmp = i then (move # xs, tmp, True)
      else case lru_shift i tmp xs of (ys, move', found) \<Rightarrow> (move # ys, move', found))"

definition lru_insert :: "u32 \<Rightarrow> reliable_ack \<Rightarrow> reliable_ack" where
  "lru_insert i lru =
     (let lru = (if lru = [] then [i] else lru) in
      case lru_shift i i lru of (lru, move, idfound) \<Rightarrow>
        if \<not> idfound \<and> length lru < RELIABLE_ACK_SIZE then lru @ [move] else lru)"

definition copy_acks_to_lru :: "reliable_ack \<Rightarrow> reliable_ack \<Rightarrow> nat \<Rightarrow> reliable_ack option" where
  "copy_acks_to_lru ack lru n = do {
     ASSERT (length ack \<ge> n);
     Some (fold lru_insert (rev (take n ack)) lru) }"

fun write_pids :: "buffer \<Rightarrow> u32 list \<Rightarrow> buffer option" where
  "write_pids sub [] = Some sub"
| "write_pids sub (pid # pids) =
     (case buf_write sub (htonl pid) of (ok, sub) \<Rightarrow> do { ASSERT ok; write_pids sub pids })"

definition reliable_ack_write ::
  "reliable_ack \<Rightarrow> reliable_ack \<Rightarrow> buffer \<Rightarrow> session_id \<Rightarrow> nat \<Rightarrow> bool
   \<Rightarrow> (bool \<times> reliable_ack \<times> reliable_ack \<times> buffer) option" where
  "reliable_ack_write ack lru buf sid mx prepend = do {
     let n = min (length ack) mx;
     lru \<leftarrow> copy_acks_to_lru ack lru n;
     let total_acks = min mx (length lru);
     case buf_sub buf (ACK_SIZE total_acks) prepend of (sub, buf, p) \<Rightarrow>
       if \<not> buf_defined sub then Some (False, ack, lru, buf)
       else do {
         let (ok, sub) = buf_write_u8 sub (of_nat total_acks);
         ASSERT ok;
         sub \<leftarrow> write_pids sub (take total_acks lru);
         sub \<leftarrow> (if total_acks \<noteq> 0 then do {
                   ASSERT (session_id_defined sid);
                   let (ok, sub) = session_id_write sid sub;
                   ASSERT ok;
                   Some sub }
                 else Some sub);
         Some (True, drop n ack, lru, buf_sub_done sub buf p) } }"

section \<open>The windows\<close>

record reliable_entry =
  e_active :: bool
  e_timeout :: int
  e_next_try :: int
  e_packet_id :: u32
  e_n_acks :: nat
  e_opcode :: int
  e_buf :: buffer

record reliable =
  initial_timeout :: int
  rel_packet_id :: u32
  rel_offset :: int
  rel_hold :: bool
  rel_array :: "reliable_entry list"

definition rel_size :: "reliable \<Rightarrow> nat" where
  "rel_size rel = length (rel_array rel)"

definition rel_upd :: "reliable \<Rightarrow> nat \<Rightarrow> (reliable_entry \<Rightarrow> reliable_entry) \<Rightarrow> reliable" where
  "rel_upd rel i f = rel\<lparr>rel_array := (rel_array rel)[i := f (rel_array rel ! i)]\<rparr>"

definition reliable_init :: "nat \<Rightarrow> int \<Rightarrow> int \<Rightarrow> bool \<Rightarrow> reliable option" where
  "reliable_init buf_size off array_size hold = do {
     ASSERT (array_size > 0 \<and> array_size \<le> RELIABLE_CAPACITY);
     b \<leftarrow> alloc_buf buf_size;
     let (ok, b) = buf_init_dowork b off;
     ASSERT ok;
     Some \<lparr>initial_timeout = 0, rel_packet_id = 0, rel_offset = off, rel_hold = hold,
       rel_array = replicate (nat array_size)
         \<lparr>e_active = False, e_timeout = 0, e_next_try = 0, e_packet_id = 0, e_n_acks = 0,
           e_opcode = 0, e_buf = b\<rparr>\<rparr> }"

definition reliable_empty :: "reliable \<Rightarrow> bool" where
  "reliable_empty rel \<longleftrightarrow> (\<forall>e \<in> set (rel_array rel). \<not> e_active e)"

definition purge_entry :: "u32 \<Rightarrow> reliable_entry \<Rightarrow> reliable_entry" where
  "purge_entry pid e =
     (if e_active e \<and> e_packet_id e = pid then e\<lparr>e_active := False\<rparr>
      else if e_active e \<and> e_packet_id e < pid then e\<lparr>e_n_acks := e_n_acks e + 1\<rparr>
      else e)"

definition reliable_send_purge :: "reliable \<Rightarrow> reliable_ack \<Rightarrow> reliable" where
  "reliable_send_purge rel ack =
     fold (\<lambda>pid rel. rel\<lparr>rel_array := map (purge_entry pid) (rel_array rel)\<rparr>) ack rel"

definition reliable_can_get :: "reliable \<Rightarrow> bool" where
  "reliable_can_get rel \<longleftrightarrow> (\<exists>e \<in> set (rel_array rel). \<not> e_active e)"

definition reliable_not_replay :: "reliable \<Rightarrow> u32 \<Rightarrow> bool" where
  "reliable_not_replay rel i \<longleftrightarrow> \<not> reliable_pid_min i (rel_packet_id rel)
     \<and> (\<forall>e \<in> set (rel_array rel). \<not> (e_active e \<and> e_packet_id e = i))"

definition reliable_wont_break_sequentiality :: "reliable \<Rightarrow> u32 \<Rightarrow> bool" where
  "reliable_wont_break_sequentiality rel i =
     reliable_pid_in_range2 i (rel_packet_id rel) (of_nat (rel_size rel))"

text \<open>The index of the first entry that satisfies a test, as the loops of the file look for it.\<close>

fun find_entry :: "(reliable_entry \<Rightarrow> bool) \<Rightarrow> reliable_entry list \<Rightarrow> nat \<Rightarrow> nat option" where
  "find_entry P [] i = None"
| "find_entry P (e # es) i = (if P e then Some i else find_entry P es (Suc i))"

definition reliable_get_buf :: "reliable \<Rightarrow> (nat option \<times> reliable) option" where
  "reliable_get_buf rel =
     (case find_entry (\<lambda>e. \<not> e_active e) (rel_array rel) 0 of
        None \<Rightarrow> Some (None, rel)
      | Some i \<Rightarrow>
          (case buf_init_dowork (e_buf (rel_array rel ! i)) (rel_offset rel) of
             (ok, b) \<Rightarrow> do { ASSERT ok; Some (Some i, rel_upd rel i (\<lambda>e. e\<lparr>e_buf := b\<rparr>)) }))"

text \<open>The smallest active identifier, if there is an active entry.\<close>

definition min_active :: "reliable_entry list \<Rightarrow> u32 option" where
  "min_active es = fold (\<lambda>e m. if e_active e
     then (case m of None \<Rightarrow> Some (e_packet_id e)
           | Some x \<Rightarrow> if reliable_pid_min (e_packet_id e) x then Some (e_packet_id e) else Some x)
     else m) es None"

definition reliable_get_num_output_sequenced_available :: "reliable \<Rightarrow> int" where
  "reliable_get_num_output_sequenced_available rel =
     (case min_active (rel_array rel) of
        None \<Rightarrow> int (rel_size rel)
      | Some m \<Rightarrow> sint (of_nat (rel_size rel) - subtract_pid (rel_packet_id rel) m))"

definition reliable_get_buf_output_sequenced :: "reliable \<Rightarrow> (nat option \<times> reliable) option" where
  "reliable_get_buf_output_sequenced rel =
     (if (case min_active (rel_array rel) of None \<Rightarrow> True
          | Some m \<Rightarrow> reliable_pid_in_range1 (rel_packet_id rel) m (of_nat (rel_size rel)))
      then reliable_get_buf rel else Some (None, rel))"

definition reliable_get_entry_sequenced :: "reliable \<Rightarrow> nat option" where
  "reliable_get_entry_sequenced rel =
     find_entry (\<lambda>e. e_active e \<and> e_packet_id e = rel_packet_id rel) (rel_array rel) 0"

definition entry_due :: "int \<Rightarrow> reliable_entry \<Rightarrow> bool" where
  "entry_due now e \<longleftrightarrow> e_active e \<and> (e_n_acks e \<ge> N_ACK_RETRANSMIT \<or> now \<ge> e_next_try e)"

definition reliable_can_send :: "int \<Rightarrow> reliable \<Rightarrow> bool" where
  "reliable_can_send now rel \<longleftrightarrow>
     length (filter (entry_due now) (rel_array rel)) > 0 \<and> \<not> rel_hold rel"

text \<open>The loop of \<open>reliable_send\<close>: the index of the due entry with the smallest identifier.\<close>

fun send_best :: "int \<Rightarrow> reliable_entry list \<Rightarrow> reliable_entry list \<Rightarrow> nat \<Rightarrow> nat option \<Rightarrow> nat option" where
  "send_best now arr [] i best = best"
| "send_best now arr (e # es) i best = send_best now arr es (Suc i)
     (if entry_due now e \<and>
         (case best of None \<Rightarrow> True | Some b \<Rightarrow> reliable_pid_min (e_packet_id e) (e_packet_id (arr ! b)))
      then Some i else best)"

definition reliable_send :: "int \<Rightarrow> reliable \<Rightarrow> (nat \<times> int) option \<times> reliable" where
  "reliable_send now rel =
     (case send_best now (rel_array rel) (rel_array rel) 0 None of
        None \<Rightarrow> (None, rel)
      | Some i \<Rightarrow> (Some (i, e_opcode (rel_array rel ! i)),
          rel_upd rel i (\<lambda>e. e\<lparr>e_next_try := now + e_timeout e, e_timeout := c_int (e_timeout e * 2),
                               e_n_acks := 0\<rparr>)))"

definition reliable_schedule_now :: "int \<Rightarrow> reliable \<Rightarrow> reliable" where
  "reliable_schedule_now now rel = rel\<lparr>rel_hold := False, rel_array := map (\<lambda>e.
     if e_active e then e\<lparr>e_next_try := now, e_timeout := initial_timeout rel\<rparr> else e) (rel_array rel)\<rparr>"

fun send_timeout_loop :: "int \<Rightarrow> reliable_entry list \<Rightarrow> int \<Rightarrow> int" where
  "send_timeout_loop now [] ret = ret"
| "send_timeout_loop now (e # es) ret =
     (if e_active e then
        if e_next_try e \<le> now then 0
        else send_timeout_loop now es (min_int ret (c_int (e_next_try e - now)))
      else send_timeout_loop now es ret)"

definition reliable_send_timeout :: "int \<Rightarrow> reliable \<Rightarrow> int" where
  "reliable_send_timeout now rel = send_timeout_loop now (rel_array rel) BIG_TIMEOUT"

definition reliable_mark_active_incoming :: "reliable \<Rightarrow> nat \<Rightarrow> u32 \<Rightarrow> int \<Rightarrow> reliable option" where
  "reliable_mark_active_incoming rel i pid opcode = do {
     ASSERT (i < rel_size rel);
     ASSERT (\<not> reliable_pid_min pid (rel_packet_id rel));
     Some (rel_upd rel i (\<lambda>e. e\<lparr>e_active := True, e_packet_id := pid, e_opcode := opcode,
       e_next_try := 0, e_timeout := 0, e_n_acks := 0\<rparr>)) }"

definition reliable_mark_active_outgoing :: "reliable \<Rightarrow> nat \<Rightarrow> int \<Rightarrow> reliable option" where
  "reliable_mark_active_outgoing rel i opcode = do {
     ASSERT (i < rel_size rel);
     let pid = rel_packet_id rel;
     let (ok, b) = buf_write_prepend (e_buf (rel_array rel ! i)) (htonl pid);
     ASSERT ok;
     Some ((rel_upd rel i (\<lambda>e. e\<lparr>e_packet_id := pid, e_buf := b, e_active := True,
       e_opcode := opcode, e_next_try := 0, e_timeout := initial_timeout rel\<rparr>))
       \<lparr>rel_packet_id := pid + 1\<rparr>) }"

definition reliable_mark_deleted :: "reliable \<Rightarrow> nat \<Rightarrow> reliable option" where
  "reliable_mark_deleted rel i = do {
     ASSERT (i < rel_size rel);
     Some ((rel_upd rel i (\<lambda>e. e\<lparr>e_active := False\<rparr>))
       \<lparr>rel_packet_id := e_packet_id (rel_array rel ! i) + 1\<rparr>) }"

end
