(* ===== verification/Reliable_Ack.thy ===== *)
theory Reliable_Ack
  imports Reliable
begin

text \<open>
  Acknowledgement records: the cache of recent acknowledgements is a move-to-front list, no
  acknowledgement is lost when records are written, and the wire form is read back.
\<close>

section \<open>The cache of acknowledgements\<close>

lemma lru_shift_found: "i \<in> set xs \<Longrightarrow> lru_shift i m xs = (m # remove1 i xs, i, True)"
  by (induction xs arbitrary: m) auto

lemma lru_shift_not_found: "i \<notin> set xs \<Longrightarrow> lru_shift i m xs = (butlast (m # xs), last (m # xs), False)"
  by (induction xs arbitrary: m) auto

lemma take_butlast_eq: "length xs = Suc n \<Longrightarrow> butlast xs = take n xs"
  by (simp add: butlast_conv_take)

lemma lru_insert_eq:
  assumes "length lru \<le> RELIABLE_ACK_SIZE"
  shows "lru_insert i lru = take RELIABLE_ACK_SIZE (i # remove1 i lru)"
proof (cases "i \<in> set lru")
  case True
  then have "lru \<noteq> []" by auto
  moreover have "length (i # remove1 i lru) \<le> RELIABLE_ACK_SIZE"
    using True assms length_pos_if_in_set[OF True] by (simp add: length_remove1)
  ultimately show ?thesis using True by (simp add: lru_insert_def lru_shift_found)
next
  case False
  show ?thesis
  proof (cases "lru = []")
    case True
    then show ?thesis by (simp add: lru_insert_def RELIABLE_ACK_SIZE_def)
  next
    case ne: False
    have s: "lru_shift i i lru = (butlast (i # lru), last (i # lru), False)"
      by (rule lru_shift_not_found[OF False])
    show ?thesis
    proof (cases "length lru < RELIABLE_ACK_SIZE")
      case True
      then show ?thesis using ne s False
        by (simp add: lru_insert_def remove1_idem append_butlast_last_id del: butlast.simps last.simps)
    next
      case l: False
      then have "length (i # lru) = Suc RELIABLE_ACK_SIZE" using assms by simp
      then show ?thesis using ne s False l assms
        by (simp add: lru_insert_def remove1_idem take_butlast_eq del: butlast.simps last.simps take_Suc_Cons)
    qed
  qed
qed

lemma take_remove1: "take k (remove1 x (take (Suc k) zs)) = take k (remove1 x zs)"
proof (induction zs arbitrary: k)
  case (Cons z zs)
  then show ?case by (cases k) auto
qed simp

lemma take_Cons_remove1: "take m (x # remove1 x (take m zs)) = take m (x # remove1 x zs)"
proof (cases m)
  case (Suc k)
  then show ?thesis using take_remove1[of k x zs] by simp
qed simp

text \<open>Copying acknowledgements moves them to the front of the cache.\<close>

lemma copy_acks_eq:
  assumes "distinct xs" "distinct lru" "length lru \<le> RELIABLE_ACK_SIZE"
  shows "fold lru_insert (rev xs) lru = take RELIABLE_ACK_SIZE (xs @ filter (\<lambda>i. i \<notin> set xs) lru)"
  using assms(1)
proof (induction xs)
  case Nil
  then show ?case using assms(3) by (simp add: filter_True)
next
  case (Cons x xs)
  let ?L = "take RELIABLE_ACK_SIZE (xs @ filter (\<lambda>i. i \<notin> set xs) lru)"
  have "fold lru_insert (rev (x # xs)) lru = lru_insert x ?L" using Cons by simp
  also have "\<dots> = take RELIABLE_ACK_SIZE (x # remove1 x ?L)" by (rule lru_insert_eq) simp
  also have "\<dots> = take RELIABLE_ACK_SIZE (x # remove1 x (xs @ filter (\<lambda>i. i \<notin> set xs) lru))"
    by (rule take_Cons_remove1)
  also have "remove1 x (xs @ filter (\<lambda>i. i \<notin> set xs) lru) = xs @ filter (\<lambda>i. x \<noteq> i \<and> i \<notin> set xs) lru"
    using Cons.prems assms(2)
    by (simp add: remove1_append distinct_remove1_removeAll filter_filter removeAll_filter_not_eq)
      (auto intro: filter_cong)
  also have "filter (\<lambda>i. x \<noteq> i \<and> i \<notin> set xs) lru = filter (\<lambda>i. i \<notin> set (x # xs)) lru"
    by (rule filter_cong) auto
  finally show ?case by simp
qed

lemma copy_acks_inv:
  assumes "distinct xs" "distinct lru" "length lru \<le> RELIABLE_ACK_SIZE" "length xs \<le> RELIABLE_ACK_SIZE"
  shows "distinct (fold lru_insert (rev xs) lru)"
    "length (fold lru_insert (rev xs) lru) \<le> RELIABLE_ACK_SIZE"
    "take (length xs) (fold lru_insert (rev xs) lru) = xs"
  using assms by (auto simp: copy_acks_eq dest: in_set_takeD)

section \<open>The wire form\<close>

definition ack_record_enc :: "u32 list \<times> session_id \<Rightarrow> bytes" where
  "ack_record_enc r = (case r of (pids, sid) \<Rightarrow>
     [of_nat (length pids)] @ concat (map htonl pids) @ (if pids = [] then [] else sid))"

definition ack_record_ok :: "session_id \<Rightarrow> u32 list \<times> session_id \<Rightarrow> bool" where
  "ack_record_ok uninit r = (case r of (pids, sid) \<Rightarrow>
     length pids \<le> RELIABLE_ACK_SIZE \<and> sid_ok sid \<and> (pids = [] \<longrightarrow> sid = uninit))"

definition ack_record_get :: "session_id \<Rightarrow> buffer \<Rightarrow> ((u32 list \<times> session_id) \<times> buffer) option" where
  "ack_record_get uninit b = (case reliable_ack_parse b uninit of
     (ok, ack, sid, b) \<Rightarrow> if ok then Some ((ack, sid), b) else None)"

lemma length_concat_htonl [simp]: "length (concat (map htonl pids)) = 4 * length pids"
  by (induction pids) auto

lemma length_ack_record_enc: "sid_ok sid \<Longrightarrow> int (length (ack_record_enc (pids, sid))) = ACK_SIZE (length pids)"
  by (simp add: ack_record_enc_def ACK_SIZE_def sid_ok_def)

lemma ack_parse_loop_enc:
  "buf_wf b \<Longrightarrow> buf_contents b = concat (map htonl pids) @ rest \<Longrightarrow> length acc + length pids \<le> RELIABLE_ACK_SIZE \<Longrightarrow>
   \<exists>b'. ack_parse_loop (length pids) b acc = (True, acc @ pids, b') \<and> buf_wf b' \<and> buf_contents b' = rest"
proof (induction pids arbitrary: b acc)
  case (Cons pid pids)
  have "buf_contents b = htonl pid @ (concat (map htonl pids) @ rest)" using Cons.prems(2) by simp
  from buf.read_prefix[OF Cons.prems(1) this]
  obtain b1 where b1: "buf_read b 4 = (Some (htonl pid), b1)" "buf_wf b1"
    "buf_contents b1 = concat (map htonl pids) @ rest" by (metis length_htonl)
  have "length (acc @ [pid]) + length pids \<le> RELIABLE_ACK_SIZE" using Cons.prems(3) by simp
  from Cons.IH[OF b1(2,3) this] show ?case using b1(1) Cons.prems(3) by auto
qed simp

lemma reliable_ack_parse_enc:
  assumes "ack_record_ok uninit (pids, sid)" "buf_wf b" "buf_contents b = ack_record_enc (pids, sid) @ rest"
  shows "\<exists>b'. reliable_ack_parse b uninit = (True, pids, sid, b') \<and> buf_wf b' \<and> buf_contents b' = rest"
proof -
  have l: "length pids \<le> 8" using assms(1) by (simp add: ack_record_ok_def RELIABLE_ACK_SIZE_def)
  have cnt: "unat (of_nat (length pids) :: u8) = length pids"
    using l by (intro unat_of_nat_small) simp
  let ?r = "concat (map htonl pids) @ (if pids = [] then [] else sid) @ rest"
  have "buf_contents b = [of_nat (length pids)] @ ?r" using assms(3) by (simp add: ack_record_enc_def)
  from buf.read_prefix[OF assms(2) this]
  obtain b1 where b1: "buf_read b 1 = (Some [of_nat (length pids)], b1)" "buf_wf b1" "buf_contents b1 = ?r"
    by (metis length_Cons list.size(3) One_nat_def)
  obtain b2 where b2: "ack_parse_loop (length pids) b1 [] = (True, pids, b2)" "buf_wf b2"
    "buf_contents b2 = (if pids = [] then [] else sid) @ rest"
    using ack_parse_loop_enc[OF b1(2,3), of "[]"] assms(1) by (auto simp: ack_record_ok_def)
  show ?thesis
  proof (cases "pids = []")
    case True
    then show ?thesis using b1(1) b2 assms(1) by (simp add: reliable_ack_parse_def ack_record_ok_def)
  next
    case False
    have ne: "(of_nat (length pids) :: u8) \<noteq> 0" using cnt False by (metis length_0_conv unat_0)
    have "sid_ok sid" using assms(1) by (simp add: ack_record_ok_def)
    then obtain b3 where "session_id_read b2 = (Some sid, b3)" "buf_wf b3" "buf_contents b3 = rest"
      using session_id_read_enc[of sid b2 rest] b2(2,3) False by auto
    then show ?thesis using b1(1) b2 ne cnt by (simp add: reliable_ack_parse_def)
  qed
qed

interpretation ack_codec: buffer_codec "ack_record_ok uninit" ack_record_enc "ack_record_get uninit" for uninit
proof (unfold_locales, goal_cases)
  case (1 x b rest)
  obtain pids sid where "x = (pids, sid)" by (metis surj_pair)
  then show ?case using reliable_ack_parse_enc[of uninit pids sid b rest] 1 by (auto simp: ack_record_get_def)
qed

section \<open>Writing a record\<close>

lemma write_pids_room:
  "buf_wf b \<Longrightarrow> 4 * length pids \<le> buf_back b \<Longrightarrow>
   \<exists>b'. write_pids b pids = Some b' \<and> buf_wf b' \<and> buf_contents b' = buf_contents b @ concat (map htonl pids)
     \<and> buf_back b' = buf_back b - 4 * length pids \<and> buf_front b' = buf_front b"
proof (induction pids arbitrary: b)
  case (Cons pid pids)
  obtain b1 where b1: "buf_write b (htonl pid) = (True, b1)" "buf_wf b1"
    "buf_contents b1 = buf_contents b @ htonl pid" "buf_back b1 = buf_back b - 4" "buf_front b1 = buf_front b"
    using buf.write_room[OF Cons.prems(1), of "htonl pid"] Cons.prems(2) by auto
  have "4 * length pids \<le> buf_back b1" using Cons.prems(2) b1(4) by simp
  from Cons.IH[OF b1(2) this] show ?case using b1 by auto
qed simp

lemma reliable_ack_write_spec:
  fixes ack lru :: reliable_ack and sid :: session_id and mx :: nat
  assumes wf: "buf_wf b" and sid: "sid_ok sid" "session_id_defined sid"
    and ack: "distinct ack" "length ack \<le> RELIABLE_ACK_SIZE"
    and lru: "distinct lru" "length lru \<le> RELIABLE_ACK_SIZE"
  defines "n \<equiv> min (length ack) mx"
  defines "lru' \<equiv> fold lru_insert (rev (take n ack)) lru"
  defines "pids \<equiv> take mx lru'"
  shows "if int (length (ack_record_enc (pids, sid))) \<le> int (if prepend then buf_front b else buf_back b)
    then \<exists>b'. reliable_ack_write ack lru b sid mx prepend = Some (True, drop n ack, lru', b') \<and> buf_wf b'
      \<and> buf_contents b' = (if prepend then ack_record_enc (pids, sid) @ buf_contents b
                           else buf_contents b @ ack_record_enc (pids, sid))
    else reliable_ack_write ack lru b sid mx prepend = Some (False, ack, lru', b)"
proof -
  have lp: "length pids = min mx (length lru')" by (simp add: pids_def min.commute)
  have p8: "length pids \<le> 8"
  proof -
    have "length (take n ack) \<le> RELIABLE_ACK_SIZE" using ack(2) by simp
    then have "length lru' \<le> RELIABLE_ACK_SIZE"
      unfolding lru'_def using copy_acks_inv(2)[of "take n ack" lru] ack lru by simp
    then show ?thesis using lp by (simp add: RELIABLE_ACK_SIZE_def)
  qed
  have copy: "copy_acks_to_lru ack lru n = Some lru'" by (simp add: copy_acks_to_lru_def lru'_def n_def)
  let ?r = "ack_record_enc (pids, sid)"
  have len: "ACK_SIZE (min mx (length lru')) = int (length ?r)"
    using length_ack_record_enc[OF sid(1), of pids] lp by simp
  show ?thesis
  proof (cases "length ?r \<le> (if prepend then buf_front b else buf_back b)")
    case False
    then have "(if prepend then buf_front b else buf_back b) < length ?r" by simp
    note full = buf_sub_full[OF wf this]
    show ?thesis using False copy len full by (simp add: reliable_ack_write_def n_def[symmetric] Let_def)
  next
    case True
    obtain sub b1 p where s: "buf_sub b (int (length ?r)) prepend = (sub, b1, p)" "buf_defined sub" "buf_wf sub"
      "buf_contents sub = []" "buf_back sub = length ?r" "buf_front sub = 0"
      and fin: "\<And>sub'. buf_wf sub' \<Longrightarrow> buf_front sub' = 0 \<Longrightarrow> buf_back sub' = 0 \<Longrightarrow>
        length (buf_contents sub') = length ?r \<Longrightarrow> buf_wf (buf_sub_done sub' b1 p)
        \<and> buf_contents (buf_sub_done sub' b1 p) =
          (if prepend then buf_contents sub' @ buf_contents b else buf_contents b @ buf_contents sub')"
      by (rule buf_sub_room[OF wf True]) (rule that; blast)
    have lr: "length ?r = 1 + 4 * length pids + (if pids = [] then 0 else length sid)"
      by (simp add: ack_record_enc_def)
    obtain s1 where s1: "buf_write_u8 sub (of_nat (length pids)) = (True, s1)" "buf_wf s1"
      "buf_contents s1 = [of_nat (length pids)]" "buf_back s1 = length ?r - 1" "buf_front s1 = 0"
      using buf.write_room[OF s(3), of "[of_nat (length pids)]"] s lr by (auto simp: buf_write_u8_def)
    have "4 * length pids \<le> buf_back s1" using s1(4) lr by simp
    from write_pids_room[OF s1(2) this]
    obtain s2 where s2: "write_pids s1 pids = Some s2" "buf_wf s2"
      "buf_contents s2 = [of_nat (length pids)] @ concat (map htonl pids)"
      "buf_back s2 = (if pids = [] then 0 else length sid)" "buf_front s2 = 0"
      using s1 lr by auto
    obtain s3 where s3: "if length pids \<noteq> 0 then session_id_write sid s2 = (True, s3) else s3 = s2"
      "buf_wf s3" "buf_contents s3 = ?r"
      "buf_back s3 = 0" "buf_front s3 = 0"
    proof (cases "pids = []")
      case True
      then show ?thesis using that[of s2] s2 by (simp add: ack_record_enc_def)
    next
      case False
      then obtain s3 where "buf_write s2 sid = (True, s3)" "buf_wf s3"
        "buf_contents s3 = buf_contents s2 @ sid" "buf_back s3 = 0" "buf_front s3 = 0"
        using buf.write_room[OF s2(2), of sid] s2 by auto
      then show ?thesis using that[of s3] s2 False sid by (simp add: ack_record_enc_def session_id_write_def)
    qed
    have tk: "take (min mx (length lru')) lru' = pids" by (simp add: pids_def min_def)
    have "reliable_ack_write ack lru b sid mx prepend = Some (True, drop n ack, lru', buf_sub_done s3 b1 p)"
      unfolding reliable_ack_write_def n_def[symmetric] Let_def copy
      using len s(1,2) s1(1) s2(1) s3(1)[unfolded lp] sid(2) by (auto simp: tk lp Let_def)
    then show ?thesis using True fin[of s3] s3 by auto
  qed
qed

lemma reliable_ack_read_enc:
  assumes "length pids \<le> RELIABLE_ACK_SIZE" "sid_ok sid" "session_id_defined sid" "sid_ok uninit"
    and "buf_wf b" "buf_contents b = ack_record_enc (pids, sid) @ rest"
  shows "\<exists>b'. reliable_ack_read b uninit sid = (True, pids, b') \<and> buf_wf b' \<and> buf_contents b' = rest"
proof -
  let ?sid = "if pids = [] then uninit else sid"
  have e: "ack_record_enc (pids, sid) = ack_record_enc (pids, ?sid)" by (auto simp: ack_record_enc_def)
  have ok: "ack_record_ok uninit (pids, ?sid)" using assms(1,2,4) by (auto simp: ack_record_ok_def)
  from reliable_ack_parse_enc[OF ok assms(5) assms(6)[unfolded e]]
  obtain b' where b': "reliable_ack_parse b uninit = (True, pids, ?sid, b')" "buf_wf b'" "buf_contents b' = rest"
    by blast
  then show ?thesis using assms(3) by (auto simp: reliable_ack_read_def session_id_equal_def)
qed

text \<open>
  C18. No acknowledgement is lost. For a list of pending acknowledgements and a cache of recent ones,
  both without duplicates, \<open>reliable_ack_write\<close> never fails an assertion. Without room for the record
  the list of pending acknowledgements and the buffer are what they were. Otherwise the
  acknowledgements it removes from the list are the first ones of a record that
  \<open>reliable_ack_read\<close> of the peer accepts for the same session, and the rest of the buffer is left
  as it was. In both cases the first acknowledgements of the list have been put into the cache, which is
  done before the check for room, and the list and the cache stay free of duplicates.
\<close>

theorem reliable_ack_no_loss:
  fixes ack lru :: reliable_ack and sid :: session_id and mx :: nat
  assumes "buf_wf b" "prepend \<or> buf_contents b = []" "sid_ok sid" "session_id_defined sid" "sid_ok uninit"
    and "distinct ack" "length ack \<le> RELIABLE_ACK_SIZE" "distinct lru" "length lru \<le> RELIABLE_ACK_SIZE"
  shows "\<exists>ok ack' lru' b'. reliable_ack_write ack lru b sid mx prepend = Some (ok, ack', lru', b')
    \<and> distinct ack' \<and> distinct lru' \<and> length lru' \<le> RELIABLE_ACK_SIZE
    \<and> copy_acks_to_lru ack lru (min (length ack) mx) = Some lru' \<and> take (min (length ack) mx) lru' = take (min (length ack) mx) ack
    \<and> (\<not> ok \<longrightarrow> ack' = ack \<and> b' = b)
    \<and> (ok \<longrightarrow> (\<exists>pids b''. reliable_ack_read b' uninit sid = (True, pids, b'')
         \<and> ack = take (min (length ack) mx) pids @ ack'
         \<and> buf_contents b'' = (if prepend then buf_contents b else [])))"
proof -
  let ?n = "min (length ack) mx"
  let ?lru = "fold lru_insert (rev (take ?n ack)) lru"
  let ?pids = "take mx ?lru"
  have xs: "distinct (take ?n ack)" "length (take ?n ack) \<le> RELIABLE_ACK_SIZE" using assms(6,7) by auto
  note inv = copy_acks_inv[OF xs(1) assms(8,9) xs(2)]
  have tk: "take ?n ?lru = take ?n ack" using inv(3) by simp
  have cp: "copy_acks_to_lru ack lru ?n = Some ?lru" by (simp add: copy_acks_to_lru_def)
  from tk have first: "take ?n ?pids = take ?n ack" by (simp add: min.commute min.left_commute)
  have p8: "length ?pids \<le> RELIABLE_ACK_SIZE" using inv(2) by simp
  note spec = reliable_ack_write_spec[OF assms(1,3,4,6-9), of mx prepend]
  show ?thesis
  proof (cases "int (length (ack_record_enc (?pids, sid))) \<le> int (if prepend then buf_front b else buf_back b)")
    case False
    then show ?thesis using spec inv assms(6) cp tk by (auto simp: distinct_drop)
  next
    case True
    then obtain b' where b': "reliable_ack_write ack lru b sid mx prepend = Some (True, drop ?n ack, ?lru, b')"
      "buf_wf b'" "buf_contents b' = ack_record_enc (?pids, sid) @ (if prepend then buf_contents b else [])"
      using spec assms(2) by auto
    from reliable_ack_read_enc[OF p8 assms(3-5) b'(2,3)]
    obtain b'' where r: "reliable_ack_read b' uninit sid = (True, ?pids, b'')"
      "buf_contents b'' = (if prepend then buf_contents b else [])" by blast
    moreover have "ack = take ?n ?pids @ drop ?n ack" unfolding first by simp
    ultimately show ?thesis using b'(1) inv assms(6) r cp tk by fastforce
  qed
qed

lemma reliable_ack_no_loss_witness:
  "\<exists>b ok ack' lru' b'. alloc_buf 64 = Some b
    \<and> reliable_ack_write [5, 3] [3, 4] b [1, 2, 3, 4, 5, 6, 7, 8] 4 False = Some (ok, ack', lru', b')
    \<and> (\<not> ok \<longrightarrow> ack' = [5, 3]) \<and> (ok \<longrightarrow> (\<exists>pids b''. reliable_ack_read b' x_session_id_zero [1, 2, 3, 4, 5, 6, 7, 8]
        = (True, pids, b'') \<and> [5, 3] = take 2 pids @ ack'))"
proof -
  obtain b where b: "alloc_buf 64 = Some b" by (simp add: alloc_buf_def buf_size_valid_def BUF_SIZE_MAX_def)
  note w = alloc_buf_wf[OF b]
  show ?thesis
    using reliable_ack_no_loss[of b False "[1, 2, 3, 4, 5, 6, 7, 8]" x_session_id_zero "[5, 3]" "[3, 4]" 4] w b
    by (auto simp: sid_ok_def SID_SIZE_def session_id_defined_def x_session_id_zero_def
        RELIABLE_ACK_SIZE_def eval_nat_numeral)
qed

end
