(* ===== verification/Control_Channel.thy ===== *)
theory Control_Channel
  imports Reliable_Ack
begin

text \<open>
  The transfer of control channel packets (\<open>ssl.c\<close>) over the reliability layer: queueing a
  packet, sending and retransmitting, accepting a received packet, delivering in sequence. The
  protocol is a step relation over a sender, a receiver and a network that loses, duplicates
  and reorders packets.
\<close>

section \<open>The operations of \<open>ssl.c\<close>\<close>

text \<open>\<open>write_outgoing_tls_ciphertext\<close>, body of the loop: the next \<open>len\<close> bytes become a packet.\<close>

definition ctl_queue :: "reliable \<Rightarrow> buffer \<Rightarrow> int \<Rightarrow> int \<Rightarrow> (reliable \<times> buffer) option" where
  "ctl_queue rel tmp len opcode = do {
     (i, rel) \<leftarrow> reliable_get_buf_output_sequenced rel;
     ASSERT (i \<noteq> None);
     let i = the i;
     let (_, b, tmp) = buf_copy_n (e_buf (rel_array rel ! i)) tmp len;
     rel \<leftarrow> reliable_mark_active_outgoing (rel_upd rel i (\<lambda>e. e\<lparr>e_buf := b\<rparr>)) i opcode;
     Some (rel, tmp) }"

text \<open>
  \<open>tls_process_state\<close>, "Reliable to TCP/UDP": the packet to send, if one is due. The wire gets
  a copy of it behind an acknowledgement record.
\<close>

definition ctl_send :: "int \<Rightarrow> reliable \<Rightarrow> (bytes option \<times> reliable) option" where
  "ctl_send now rel =
     (if reliable_can_send now rel then
        (case reliable_send now rel of
           (None, rel) \<Rightarrow> None
         | (Some (i, opcode), rel) \<Rightarrow> Some (Some (buf_contents (e_buf (rel_array rel ! i))), rel))
      else Some (None, rel))"

text \<open>
  \<open>tls_pre_decrypt\<close>, the end: a packet is stored when it fits into the window and is new, and
  it is acknowledged even when it is not new. \<open>False\<close> is the branch to \<open>error\<close>.
\<close>

definition ctl_accept :: "reliable \<Rightarrow> reliable_ack \<Rightarrow> buffer \<Rightarrow> int \<Rightarrow> (bool \<times> reliable \<times> reliable_ack) option" where
  "ctl_accept rel ack buf op =
     (if reliable_can_get rel then
        (case reliable_ack_read_packet_id buf of
           (None, _) \<Rightarrow> Some (True, rel, ack)
         | (Some pid, buf) \<Rightarrow>
             if reliable_wont_break_sequentiality rel pid then
               if reliable_not_replay rel pid then do {
                 (i, rel) \<leftarrow> reliable_get_buf rel;
                 ASSERT (i \<noteq> None);
                 let i = the i;
                 let (ok, b) = buf_copy (e_buf (rel_array rel ! i)) buf;
                 let rel = rel_upd rel i (\<lambda>e. e\<lparr>e_buf := b\<rparr>);
                 if \<not> ok then Some (False, rel, ack)
                 else do {
                   rel \<leftarrow> reliable_mark_active_incoming rel i pid op;
                   Some (True, rel, snd (reliable_ack_acknowledge_packet_id ack pid)) } }
               else Some (True, rel, snd (reliable_ack_acknowledge_packet_id ack pid))
             else Some (True, rel, ack))
      else Some (True, rel, ack))"

text \<open>
  \<open>tls_process_state\<close> and \<open>read_incoming_tls_ciphertext\<close>: the entry next in sequence goes to
  the TLS library, whose answer \<open>status\<close> is 1 when it took the packet, 0 when it is busy.
\<close>

definition ctl_deliver :: "reliable \<Rightarrow> int \<Rightarrow> (bytes option \<times> reliable) option" where
  "ctl_deliver rel status =
     (case reliable_get_entry_sequenced rel of
        None \<Rightarrow> Some (None, rel)
      | Some i \<Rightarrow>
          let b = e_buf (rel_array rel ! i) in
          if (if b_len b \<noteq> 0 then status else 1) = 1 then do {
            rel' \<leftarrow> reliable_mark_deleted rel i;
            Some (Some (buf_contents b), rel') }
          else Some (None, rel))"

section \<open>Windows without wrap-around\<close>

lemma find_entry_Some:
  "find_entry P es k = Some j \<Longrightarrow> k \<le> j \<and> j - k < length es \<and> P (es ! (j - k))"
proof (induction es arbitrary: k)
  case (Cons e es)
  show ?case
  proof (cases "P e")
    case False
    then have "Suc k \<le> j \<and> j - Suc k < length es \<and> P (es ! (j - Suc k))"
      using Cons.IH[of "Suc k"] Cons.prems by simp
    moreover from this have "j - k = Suc (j - Suc k)" by linarith
    ultimately show ?thesis by simp
  qed (use Cons.prems in simp)
qed simp

lemma find_entry_None: "find_entry P es k = None \<longleftrightarrow> (\<forall>e \<in> set es. \<not> P e)"
  by (induction es arbitrary: k) auto

lemma find_entry_0:
  "find_entry P es 0 = Some j \<Longrightarrow> j < length es \<and> P (es ! j)"
  using find_entry_Some[of P es 0 j] by simp

lemma unat_half: "w < 0x80000000 \<longleftrightarrow> unat w < 2 ^ 31" for w :: u32
  by (simp add: word_less_nat_alt)

lemma subtract_pid_eq: "subtract_pid test base = test - base"
  by (simp add: subtract_pid_def)

lemma pid_min_small:
  assumes "unat a < 2 ^ 31" "unat b \<le> 2 ^ 31"
  shows "reliable_pid_min a b \<longleftrightarrow> unat a < unat b"
proof (cases "b \<le> a")
  case True
  then show ?thesis using assms
    by (simp add: reliable_pid_min_def reliable_pid_in_range1_def subtract_pid_eq unat_half unat_minus word_le_nat_alt)
next
  case False
  then have lt: "a < b" by simp
  have "unat (a - b) = 2 ^ 32 + unat a - unat b"
    using lt by (simp add: unat_sub_if' word_less_nat_alt)
  then show ?thesis using assms lt
    by (simp add: reliable_pid_min_def reliable_pid_in_range1_def subtract_pid_eq unat_half word_less_nat_alt)
qed

lemma in_range2_small:
  assumes "unat b + n < 2 ^ 32"
  shows "reliable_pid_in_range2 t b (of_nat n) \<longleftrightarrow> unat t < unat b + n"
proof -
  have n: "unat (of_nat n :: u32) = n" using assms by (intro unat_of_nat_small) simp
  have "unat (b + of_nat n) = unat b + n" using assms n by (simp add: unat_word_ariths)
  then show ?thesis by (simp add: reliable_pid_in_range2_def word_le_nat_alt word_less_nat_alt)
qed

lemma in_range1_small:
  assumes "unat m \<le> unat t" "n < 2 ^ 32"
  shows "reliable_pid_in_range1 t m (of_nat n) \<longleftrightarrow> unat t < unat m + n"
proof -
  have n: "unat (of_nat n :: u32) = n" using assms by (intro unat_of_nat_small) simp
  have "unat (t - m) = unat t - unat m" using assms by (simp add: unat_minus word_le_nat_alt)
  then show ?thesis using n assms
    by (auto simp: reliable_pid_in_range1_def subtract_pid_eq word_less_nat_alt)
qed

lemma min_active_None: "min_active es = None \<longleftrightarrow> (\<forall>e \<in> set es. \<not> e_active e)"
  unfolding min_active_def
  by (induction es rule: rev_induct) (auto split: option.splits)

lemma min_active_Some:
  assumes "\<forall>e \<in> set es. e_active e \<longrightarrow> unat (e_packet_id e) < 2 ^ 31" "min_active es = Some m"
  shows "(\<exists>e \<in> set es. e_active e \<and> e_packet_id e = m)
    \<and> (\<forall>e \<in> set es. e_active e \<longrightarrow> unat m \<le> unat (e_packet_id e))"
  using assms
proof (induction es arbitrary: m rule: rev_induct)
  case (snoc e es)
  have step: "min_active (es @ [e]) = (if e_active e
     then (case min_active es of None \<Rightarrow> Some (e_packet_id e)
           | Some x \<Rightarrow> if reliable_pid_min (e_packet_id e) x then Some (e_packet_id e) else Some x)
     else min_active es)" by (simp add: min_active_def)
  show ?case
  proof (cases "min_active es")
    case None
    have "\<forall>e \<in> set es. \<not> e_active e" using None by (simp add: min_active_None)
    then show ?thesis using snoc.prems step None by (auto split: if_splits)
  next
    case (Some x)
    have IH: "\<exists>e\<in>set es. e_active e \<and> e_packet_id e = x"
      "\<forall>e\<in>set es. e_active e \<longrightarrow> unat x \<le> unat (e_packet_id e)"
      using snoc.IH[OF _ Some] snoc.prems(1) by auto
    have x: "unat x < 2 ^ 31" using IH(1) snoc.prems(1) by auto
    show ?thesis
    proof (cases "e_active e \<and> reliable_pid_min (e_packet_id e) x")
      case True
      then have "unat (e_packet_id e) < unat x"
        using pid_min_small[of "e_packet_id e" x] snoc.prems(1) x by simp
      then show ?thesis using True Some step snoc.prems IH by fastforce
    next
      case False
      then have "m = x" "e_active e \<Longrightarrow> unat x \<le> unat (e_packet_id e)"
        using pid_min_small[of "e_packet_id e" x] snoc.prems x step Some by (auto split: if_splits)
      then show ?thesis using IH by auto
    qed
  qed
qed (simp add: min_active_def)

section \<open>The invariants of the two ends\<close>

definition rel_ok :: "reliable \<Rightarrow> bool" where
  "rel_ok rel \<longleftrightarrow> 0 < rel_size rel \<and> rel_size rel \<le> 12 \<and> 4 \<le> rel_offset rel
     \<and> (\<forall>e \<in> set (rel_array rel). buf_wf (e_buf e) \<and> rel_offset rel \<le> b_capacity (e_buf e))"

definition rel_distinct :: "reliable \<Rightarrow> bool" where
  "rel_distinct rel \<longleftrightarrow> (\<forall>i < rel_size rel. \<forall>j < rel_size rel.
     e_active (rel_array rel ! i) \<and> e_active (rel_array rel ! j)
     \<and> e_packet_id (rel_array rel ! i) = e_packet_id (rel_array rel ! j) \<longrightarrow> i = j)"

text \<open>What a packet carries: its number in front of the payload with that number.\<close>

definition ctl_packet :: "bytes list \<Rightarrow> nat \<Rightarrow> bytes" where
  "ctl_packet sub k = htonl (of_nat k) @ sub ! k"

definition send_inv :: "bytes list \<Rightarrow> reliable \<Rightarrow> bool" where
  "send_inv sub rel \<longleftrightarrow> rel_ok rel \<and> rel_distinct rel
     \<and> unat (rel_packet_id rel) = length sub \<and> length sub \<le> 2 ^ 31
     \<and> (\<forall>e \<in> set (rel_array rel). e_active e \<longrightarrow> unat (e_packet_id e) < length sub
          \<and> length sub \<le> unat (e_packet_id e) + rel_size rel
          \<and> buf_contents (e_buf e) = ctl_packet sub (unat (e_packet_id e)))"

definition rec_inv :: "bytes list \<Rightarrow> nat \<Rightarrow> reliable \<Rightarrow> bool" where
  "rec_inv sub n rel \<longleftrightarrow> rel_ok rel \<and> rel_distinct rel
     \<and> unat (rel_packet_id rel) = n \<and> n \<le> length sub \<and> length sub \<le> 2 ^ 31
     \<and> (\<forall>e \<in> set (rel_array rel). e_active e \<longrightarrow> n \<le> unat (e_packet_id e)
          \<and> unat (e_packet_id e) < n + rel_size rel \<and> unat (e_packet_id e) < length sub
          \<and> buf_contents (e_buf e) = sub ! unat (e_packet_id e))"

definition holds :: "reliable \<Rightarrow> nat \<Rightarrow> bool" where
  "holds rel k \<longleftrightarrow> (\<exists>e \<in> set (rel_array rel). e_active e \<and> unat (e_packet_id e) = k)"

lemma rel_upd_simps [simp]:
  "rel_size (rel_upd rel i f) = rel_size rel" "rel_packet_id (rel_upd rel i f) = rel_packet_id rel"
  "rel_offset (rel_upd rel i f) = rel_offset rel" "initial_timeout (rel_upd rel i f) = initial_timeout rel"
  "rel_hold (rel_upd rel i f) = rel_hold rel"
  "rel_size (rel\<lparr>rel_packet_id := p\<rparr>) = rel_size rel"
  by (simp_all add: rel_upd_def rel_size_def)

lemma rel_upd_nth [simp]:
  "j < rel_size rel \<Longrightarrow> rel_array (rel_upd rel i f) ! j = (if j = i then f (rel_array rel ! j) else rel_array rel ! j)"
  by (simp add: rel_upd_def rel_size_def nth_list_update)

text \<open>Statements on all entries are statements on all indices.\<close>

lemma all_entries: "(\<forall>e \<in> set (rel_array rel). Q e) \<longleftrightarrow> (\<forall>i < rel_size rel. Q (rel_array rel ! i))"
  by (simp add: rel_size_def all_set_conv_all_nth)

lemma holds_nth: "holds rel k \<longleftrightarrow>
  (\<exists>i < rel_size rel. e_active (rel_array rel ! i) \<and> unat (e_packet_id (rel_array rel ! i)) = k)"
  unfolding holds_def rel_size_def Bex_def in_set_conv_nth by blast

lemma holds_cong:
  assumes "rel_size rel' = rel_size rel" "\<And>i. i < rel_size rel \<Longrightarrow>
    e_active (rel_array rel' ! i) = e_active (rel_array rel ! i)
    \<and> (e_active (rel_array rel ! i) \<longrightarrow> e_packet_id (rel_array rel' ! i) = e_packet_id (rel_array rel ! i))"
  shows "holds rel' k \<longleftrightarrow> holds rel k"
  unfolding holds_nth assms(1) by (rule ex_cong1) (use assms(2) in auto)

lemmas rel_nth_defs = rel_ok_def rel_distinct_def send_inv_def rec_inv_def all_entries

text \<open>A free entry: \<open>reliable_get_buf\<close> initialises its buffer, and changes nothing else.\<close>

lemma reliable_get_buf_free:
  assumes ok: "rel_ok rel" and i: "find_entry (\<lambda>e. \<not> e_active e) (rel_array rel) 0 = Some i"
  obtains b where "reliable_get_buf rel = Some (Some i, rel_upd rel i (\<lambda>e. e\<lparr>e_buf := b\<rparr>))"
    "i < rel_size rel" "\<not> e_active (rel_array rel ! i)" "buf_wf b" "buf_contents b = []"
    "int (buf_front b) = rel_offset rel" "buf_back b = nat (b_capacity (e_buf (rel_array rel ! i)) - rel_offset rel)"
    "b_capacity b = b_capacity (e_buf (rel_array rel ! i))"
proof -
  let ?e = "rel_array rel ! i"
  have i': "i < rel_size rel" "\<not> e_active ?e" using find_entry_0[OF i] by (auto simp: rel_size_def)
  have w: "buf_wf (e_buf ?e)" "rel_offset rel \<le> b_capacity (e_buf ?e)" "4 \<le> rel_offset rel"
    using ok i' by (auto simp: rel_ok_def all_entries)
  obtain ok' b where b: "buf_init_dowork (e_buf ?e) (rel_offset rel) = (ok', b)" by (metis surj_pair)
  then have "ok'" using buf_init_ok[OF w(1), of "rel_offset rel"] w by simp
  then have "buf_wf b" "buf_contents b = []" "buf_front b = nat (rel_offset rel)"
    "buf_back b = nat (b_capacity (e_buf ?e) - rel_offset rel)" "b_capacity b = b_capacity (e_buf ?e)"
    using buf_init_wf[OF w(1)] b by auto
  then show ?thesis using that[of b] b \<open>ok'\<close> i i' w(3) by (simp add: reliable_get_buf_def)
qed

lemma reliable_get_buf_none:
  "find_entry (\<lambda>e. \<not> e_active e) (rel_array rel) 0 = None \<Longrightarrow> reliable_get_buf rel = Some (None, rel)"
  by (simp add: reliable_get_buf_def)

text \<open>At most \<open>size\<close> packets are in flight: a free window has a free entry.\<close>

lemma active_count:
  assumes d: "rel_distinct rel" and r: "\<forall>e \<in> set (rel_array rel). e_active e \<and> lo \<le> unat (e_packet_id e) \<and> unat (e_packet_id e) < hi"
  shows "rel_size rel \<le> hi - lo" "rel_size rel = hi - lo \<Longrightarrow> lo \<le> k \<Longrightarrow> k < hi \<Longrightarrow> holds rel k"
proof -
  let ?f = "\<lambda>i. unat (e_packet_id (rel_array rel ! i))"
  have inj: "inj_on ?f {..<rel_size rel}"
  proof (rule inj_onI)
    fix i j assume ij: "i \<in> {..<rel_size rel}" "j \<in> {..<rel_size rel}" and eq: "?f i = ?f j"
    then have "e_packet_id (rel_array rel ! i) = e_packet_id (rel_array rel ! j)"
      by (metis word_unat_eq_iff)
    then show "i = j" using d r ij by (auto simp: rel_distinct_def all_entries)
  qed
  have sub: "?f ` {..<rel_size rel} \<subseteq> {lo..<hi}" using r by (auto simp: all_entries)
  have c: "card (?f ` {..<rel_size rel}) = rel_size rel" using card_image[OF inj] by simp
  then show "rel_size rel \<le> hi - lo" using card_mono[OF _ sub] by simp
  assume "rel_size rel = hi - lo" "lo \<le> k" "k < hi"
  moreover from this have "?f ` {..<rel_size rel} = {lo..<hi}"
    using c by (intro card_subset_eq[OF _ sub]) auto
  ultimately have "k \<in> ?f ` {..<rel_size rel}" by auto
  then show "holds rel k" using r by (auto simp: holds_nth all_entries)
qed

section \<open>Each operation keeps its invariant\<close>

subsection \<open>Queueing\<close>

lemma ctl_packet_append: "k < length sub \<Longrightarrow> ctl_packet (sub @ [p]) k = ctl_packet sub k"
  by (simp add: ctl_packet_def nth_append)

text \<open>A packet can be queued exactly when the window has room below the oldest packet in flight.\<close>

definition send_room :: "reliable \<Rightarrow> bool" where
  "send_room rel \<longleftrightarrow> (\<forall>e \<in> set (rel_array rel). e_active e \<longrightarrow>
     unat (rel_packet_id rel) < unat (e_packet_id e) + rel_size rel)"

lemma send_room_test:
  assumes inv: "send_inv sub rel"
  shows "(case min_active (rel_array rel) of None \<Rightarrow> True
     | Some m \<Rightarrow> reliable_pid_in_range1 (rel_packet_id rel) m (of_nat (rel_size rel))) \<longleftrightarrow> send_room rel"
proof (cases "min_active (rel_array rel)")
  case None
  then have "\<forall>e \<in> set (rel_array rel). \<not> e_active e" by (simp add: min_active_None)
  then show ?thesis unfolding None by (simp add: send_room_def)
next
  case (Some m)
  have bnd: "\<forall>e \<in> set (rel_array rel). e_active e \<longrightarrow> unat (e_packet_id e) < 2 ^ 31"
    using inv by (fastforce simp: send_inv_def)
  from min_active_Some[OF bnd Some]
  obtain e where e: "e \<in> set (rel_array rel)" "e_active e" "e_packet_id e = m"
    and least: "\<forall>e \<in> set (rel_array rel). e_active e \<longrightarrow> unat m \<le> unat (e_packet_id e)" by blast
  have "unat m \<le> unat (rel_packet_id rel)" using e inv by (fastforce simp: send_inv_def)
  moreover have "rel_size rel < 2 ^ 32" using inv by (simp add: send_inv_def rel_ok_def)
  ultimately have "reliable_pid_in_range1 (rel_packet_id rel) m (of_nat (rel_size rel))
      \<longleftrightarrow> unat (rel_packet_id rel) < unat m + rel_size rel" by (rule in_range1_small)
  then show ?thesis using Some e least by (fastforce simp: send_room_def)
qed

lemma send_room_free:
  assumes inv: "send_inv sub rel" and room: "send_room rel"
  obtains i where "find_entry (\<lambda>e. \<not> e_active e) (rel_array rel) 0 = Some i"
proof (cases "find_entry (\<lambda>e. \<not> e_active e) (rel_array rel) 0")
  case None
  then have act: "\<forall>e \<in> set (rel_array rel). e_active e" by (simp add: find_entry_None)
  have "\<forall>e \<in> set (rel_array rel). e_active e
      \<and> Suc (length sub) - rel_size rel \<le> unat (e_packet_id e) \<and> unat (e_packet_id e) < length sub"
    using act inv room by (fastforce simp: send_inv_def send_room_def)
  from active_count(1)[OF _ this] inv have "rel_size rel \<le> length sub - (Suc (length sub) - rel_size rel)"
    by (simp add: send_inv_def)
  moreover have "0 < rel_size rel" using inv by (simp add: send_inv_def rel_ok_def)
  moreover have "0 < length sub"
    using act inv \<open>0 < rel_size rel\<close> by (fastforce simp: send_inv_def all_entries)
  ultimately show ?thesis by linarith
qed (use that in blast)

lemma holds_fill:
  assumes "i < rel_size rel" "\<not> e_active (rel_array rel ! i)" "rel_size rel' = rel_size rel"
    "\<And>j. j < rel_size rel \<Longrightarrow> j \<noteq> i \<Longrightarrow> rel_array rel' ! j = rel_array rel ! j \<or>
       e_active (rel_array rel' ! j) = e_active (rel_array rel ! j)
       \<and> e_packet_id (rel_array rel' ! j) = e_packet_id (rel_array rel ! j)"
    "e_active (rel_array rel' ! i)" "unat (e_packet_id (rel_array rel' ! i)) = p"
  shows "holds rel' k \<longleftrightarrow> k = p \<or> holds rel k"
proof -
  have same: "e_active (rel_array rel' ! j) = e_active (rel_array rel ! j)
      \<and> e_packet_id (rel_array rel' ! j) = e_packet_id (rel_array rel ! j)"
    if "j < rel_size rel" "j \<noteq> i" for j using assms(4)[OF that] by auto
  show ?thesis unfolding holds_nth assms(3) using assms(1,2,5,6) same by metis
qed

lemma ctl_queue_step:
  assumes inv: "send_inv sub rel" and room: "send_room rel" and less: "length sub < 2 ^ 31"
    and tmp: "buf_wf tmp" "n \<le> length (buf_contents tmp)"
    and fits: "\<forall>e \<in> set (rel_array rel). rel_offset rel + int n \<le> b_capacity (e_buf e)"
  shows "\<exists>rel' tmp'. ctl_queue rel tmp (int n) opcode = Some (rel', tmp')
    \<and> send_inv (sub @ [take n (buf_contents tmp)]) rel'
    \<and> buf_wf tmp' \<and> buf_contents tmp' = drop n (buf_contents tmp)
    \<and> rel_size rel' = rel_size rel \<and> rel_offset rel' = rel_offset rel
    \<and> (\<forall>k. holds rel' k \<longleftrightarrow> k = length sub \<or> holds rel k)"
proof -
  have ok: "rel_ok rel" and d: "rel_distinct rel" using inv by (auto simp: send_inv_def)
  obtain i where i: "find_entry (\<lambda>e. \<not> e_active e) (rel_array rel) 0 = Some i"
    by (rule send_room_free[OF inv room])
  obtain b where g: "reliable_get_buf rel = Some (Some i, rel_upd rel i (\<lambda>e. e\<lparr>e_buf := b\<rparr>))"
    "i < rel_size rel" "\<not> e_active (rel_array rel ! i)" "buf_wf b" "buf_contents b = []"
    "int (buf_front b) = rel_offset rel" "buf_back b = nat (b_capacity (e_buf (rel_array rel ! i)) - rel_offset rel)"
    "b_capacity b = b_capacity (e_buf (rel_array rel ! i))"
    by (rule reliable_get_buf_free[OF ok i])
  have "n \<le> buf_back b" using fits g(2,7) by (auto simp: all_entries)
  from buf_copy_n_wf[OF g(4,5) tmp this]
  obtain b1 tmp' where c: "buf_copy_n b tmp (int n) = (True, b1, tmp')" "buf_wf b1" "buf_wf tmp'"
    "buf_contents b1 = take n (buf_contents tmp)" "buf_contents tmp' = drop n (buf_contents tmp)"
    "buf_front b1 = buf_front b" "b_capacity b1 = b_capacity b" by metis
  let ?pid = "rel_packet_id rel"
  have "length (htonl ?pid) \<le> buf_front b1" using c(6) g(6) ok by (simp add: rel_ok_def)
  from buf.prepend_room[OF c(2) this]
  obtain b2 where p: "buf_write_prepend b1 (htonl ?pid) = (True, b2)" "buf_wf b2"
    "buf_contents b2 = htonl ?pid @ take n (buf_contents tmp)" "buf_back b2 = buf_back b1"
    "buf_front b2 = buf_front b1 - 4" using c(4) by auto
  have cap: "b_capacity b2 = b_capacity b1"
    using buf_capacity_parts[OF p(2)] buf_capacity_parts[OF c(2)] p(3-5) c(4,6) g(6) ok by (simp add: rel_ok_def)
  have pid: "unat ?pid = length sub" "of_nat (length sub) = ?pid"
    using inv by (auto simp: send_inv_def dest: sym)
  let ?e = "\<lambda>e. e\<lparr>e_packet_id := ?pid, e_buf := b2, e_active := True, e_opcode := opcode,
     e_next_try := 0, e_timeout := initial_timeout rel\<rparr>"
  let ?rel = "(rel_upd rel i ?e)\<lparr>rel_packet_id := ?pid + 1\<rparr>"
  have arr: "rel_array ?rel ! j = (if j = i then ?e (rel_array rel ! i) else rel_array rel ! j)"
    if "j < rel_size rel" for j using that by auto
  have "ctl_queue rel tmp (int n) opcode = Some (?rel, tmp')"
    using g(1,2) c(1) p(1) send_room_test[OF inv] room
    by (simp add: ctl_queue_def reliable_get_buf_output_sequenced_def reliable_mark_active_outgoing_def Let_def)
      (simp add: rel_upd_def rel_size_def)
  moreover have "send_inv (sub @ [take n (buf_contents tmp)]) ?rel"
  proof -
    have u1: "unat (?pid + 1) = Suc (length sub)"
      using pid(1) less by (simp add: unat_word_ariths)
    have act: "e_active (rel_array rel ! j) \<Longrightarrow> j < rel_size rel \<Longrightarrow>
        unat (e_packet_id (rel_array rel ! j)) < length sub
        \<and> Suc (length sub) \<le> unat (e_packet_id (rel_array rel ! j)) + rel_size rel
        \<and> buf_contents (e_buf (rel_array rel ! j)) = ctl_packet sub (unat (e_packet_id (rel_array rel ! j)))" for j
      using inv room pid(1) by (fastforce simp: send_inv_def send_room_def all_entries)
    have "rel_ok ?rel"
      using ok p(2) cap c(7) g(2,8) arr by (auto simp: rel_ok_def all_entries)
    moreover have "rel_distinct ?rel"
      using d act pid(1) arr g(2) unfolding rel_distinct_def by (auto dest!: act)
    moreover have pk: "ctl_packet (sub @ [take n (buf_contents tmp)]) (length sub) = buf_contents b2"
      by (simp add: ctl_packet_def p(3) pid(2))
    have "unat (e_packet_id (rel_array ?rel ! j)) < Suc (length sub)
        \<and> Suc (length sub) \<le> unat (e_packet_id (rel_array ?rel ! j)) + rel_size rel
        \<and> buf_contents (e_buf (rel_array ?rel ! j))
          = ctl_packet (sub @ [take n (buf_contents tmp)]) (unat (e_packet_id (rel_array ?rel ! j)))"
      if "e_active (rel_array ?rel ! j)" "j < rel_size rel" for j
    proof (cases "j = i")
      case True
      then show ?thesis using arr[OF that(2)] pid(1) pk ok by (simp add: rel_ok_def)
    next
      case False
      then show ?thesis using that arr[OF that(2)] act[of j] ctl_packet_append by auto
    qed
    ultimately show ?thesis
      using u1 less by (simp add: send_inv_def all_entries)
  qed
  moreover have "holds ?rel k \<longleftrightarrow> k = length sub \<or> holds rel k" for k
    unfolding pid(1)[symmetric]
    by (rule holds_fill[of i, OF g(2,3)]) (use arr g(2) in simp_all)
  ultimately show ?thesis using c(3,5) by auto
qed

subsection \<open>Sending and purging\<close>

text \<open>
  Updates that leave identifiers and buffers alone, and deactivate at most: timers,
  retransmission counters, purged packets.
\<close>

definition entry_le :: "reliable_entry \<Rightarrow> reliable_entry \<Rightarrow> bool" where
  "entry_le e e' \<longleftrightarrow> (e_active e' \<longrightarrow> e_active e) \<and> e_packet_id e' = e_packet_id e \<and> e_buf e' = e_buf e"

definition rel_le :: "reliable \<Rightarrow> reliable \<Rightarrow> bool" where
  "rel_le rel rel' \<longleftrightarrow> rel_size rel' = rel_size rel \<and> rel_packet_id rel' = rel_packet_id rel
     \<and> rel_offset rel' = rel_offset rel
     \<and> (\<forall>i < rel_size rel. entry_le (rel_array rel ! i) (rel_array rel' ! i))"

lemma rel_le_inv: "rel_le rel rel' \<Longrightarrow> send_inv sub rel \<Longrightarrow> send_inv sub rel'"
  unfolding send_inv_def rel_ok_def rel_distinct_def all_entries rel_le_def entry_le_def by auto

lemma rel_le_refl [simp]: "rel_le rel rel"
  by (simp add: rel_le_def entry_le_def)

lemma rel_le_trans: "rel_le a b \<Longrightarrow> rel_le b c \<Longrightarrow> rel_le a c"
  by (auto simp: rel_le_def entry_le_def)

lemma send_best_due:
  "send_best now arr es k best = Some i \<Longrightarrow> drop k arr = es \<Longrightarrow>
     (\<forall>b. best = Some b \<longrightarrow> b < length arr \<and> entry_due now (arr ! b)) \<Longrightarrow>
     i < length arr \<and> entry_due now (arr ! i)"
proof (induction es arbitrary: k best)
  case (Cons e es)
  have k: "k < length arr" "arr ! k = e" "drop (Suc k) arr = es"
    using Cons.prems(2) by (metis drop_eq_Nil linorder_not_le list.distinct(1),
      metis nth_via_drop, metis drop_Suc list.sel(3) tl_drop)
  show ?case
    by (rule Cons.IH[OF Cons.prems(1)[unfolded send_best.simps] k(3)])
      (use k Cons.prems(3) in \<open>auto split: if_splits\<close>)
qed auto

lemma send_best_None:
  "send_best now arr es k best = None \<longleftrightarrow> best = None \<and> (\<forall>e \<in> set es. \<not> entry_due now e)"
  by (induction es arbitrary: k best) auto

text \<open>A send takes an active packet as it is; only its timer and its counter change.\<close>

lemma ctl_send_step:
  assumes "ctl_send now rel = r"
  shows "\<exists>out rel'. r = Some (out, rel') \<and> rel_le rel rel' \<and> (\<forall>k. holds rel' k \<longleftrightarrow> holds rel k)
    \<and> (\<forall>m. out = Some m \<longrightarrow> (\<exists>e \<in> set (rel_array rel). e_active e \<and> m = buf_contents (e_buf e)))"
proof (cases "reliable_can_send now rel")
  case False
  then have "r = Some (None, rel)" using assms by (simp add: ctl_send_def)
  then show ?thesis by simp
next
  case True
  then have "\<exists>e \<in> set (rel_array rel). entry_due now e"
    by (auto simp: reliable_can_send_def filter_empty_conv)
  then obtain i where s: "send_best now (rel_array rel) (rel_array rel) 0 None = Some i"
    using send_best_None[of now "rel_array rel" "rel_array rel" 0 None] by (metis not_None_eq)
  have i: "i < rel_size rel" "entry_due now (rel_array rel ! i)"
    using send_best_due[OF s] by (auto simp: rel_size_def)
  let ?f = "\<lambda>e. e\<lparr>e_next_try := now + e_timeout e, e_timeout := c_int (e_timeout e * 2), e_n_acks := 0\<rparr>"
  have r: "r = Some (Some (buf_contents (e_buf (rel_array rel ! i))), rel_upd rel i ?f)"
    using assms True s i(1) by (simp add: ctl_send_def reliable_send_def)
  have "rel_le rel (rel_upd rel i ?f)" by (auto simp: rel_le_def entry_le_def)
  moreover have "holds (rel_upd rel i ?f) k \<longleftrightarrow> holds rel k" for k by (rule holds_cong) auto
  moreover have "rel_array rel ! i \<in> set (rel_array rel)" using i(1) by (simp add: rel_size_def)
  ultimately show ?thesis using r i(2) by (auto simp: entry_due_def)
qed

lemma purge_array: "rel_array (reliable_send_purge rel ack) = fold (\<lambda>pid. map (purge_entry pid)) ack (rel_array rel)"
  "rel_packet_id (reliable_send_purge rel ack) = rel_packet_id rel"
  "rel_offset (reliable_send_purge rel ack) = rel_offset rel"
  unfolding reliable_send_purge_def by (induction ack arbitrary: rel) auto

lemma purge_entry_le: "entry_le e (purge_entry pid e)"
  "e_active (purge_entry pid e) \<longleftrightarrow> e_active e \<and> e_packet_id e \<noteq> pid"
  by (auto simp: entry_le_def purge_entry_def)

text \<open>A purge removes exactly the packets that are acknowledged.\<close>

lemma purge_step:
  "rel_le rel (reliable_send_purge rel ack)
   \<and> (\<forall>i < rel_size rel. e_active (rel_array (reliable_send_purge rel ack) ! i)
        \<longleftrightarrow> e_active (rel_array rel ! i) \<and> e_packet_id (rel_array rel ! i) \<notin> set ack)"
proof (induction ack arbitrary: rel)
  case Nil
  then show ?case by (simp add: reliable_send_purge_def)
next
  case (Cons pid ack)
  let ?rel = "rel\<lparr>rel_array := map (purge_entry pid) (rel_array rel)\<rparr>"
  have "reliable_send_purge rel (pid # ack) = reliable_send_purge ?rel ack"
    by (simp add: reliable_send_purge_def)
  moreover have "rel_le rel ?rel" by (simp add: rel_le_def rel_size_def purge_entry_le)
  moreover have "rel_array ?rel ! i = purge_entry pid (rel_array rel ! i)" if "i < rel_size rel" for i
    using that by (simp add: rel_size_def)
  moreover have "rel_size ?rel = rel_size rel" by (simp add: rel_size_def)
  ultimately show ?case using Cons.IH[of ?rel] rel_le_trans[of rel ?rel]
    by (auto simp: purge_entry_le(2)) (auto simp: purge_entry_le(1)[unfolded entry_le_def])
qed

lemma purge_holds: "holds (reliable_send_purge rel ack) k \<longleftrightarrow> holds rel k \<and> (\<forall>pid \<in> set ack. unat pid \<noteq> k)"
proof -
  note p = purge_step[of rel ack, unfolded rel_le_def entry_le_def]
  have sz: "rel_size (reliable_send_purge rel ack) = rel_size rel" using p by simp
  show ?thesis unfolding holds_nth sz
  proof
    assume "\<exists>i<rel_size rel. e_active (rel_array (reliable_send_purge rel ack) ! i) \<and>
        unat (e_packet_id (rel_array (reliable_send_purge rel ack) ! i)) = k"
    then obtain i where i: "i < rel_size rel" "e_active (rel_array (reliable_send_purge rel ack) ! i)"
      "unat (e_packet_id (rel_array (reliable_send_purge rel ack) ! i)) = k" by blast
    then have "e_active (rel_array rel ! i)" "unat (e_packet_id (rel_array rel ! i)) = k"
      "e_packet_id (rel_array rel ! i) \<notin> set ack" using p by auto
    then show "(\<exists>i<rel_size rel. e_active (rel_array rel ! i) \<and> unat (e_packet_id (rel_array rel ! i)) = k)
        \<and> (\<forall>pid\<in>set ack. unat pid \<noteq> k)" using i(1) by (metis word_unat_eq_iff)
  next
    assume "(\<exists>i<rel_size rel. e_active (rel_array rel ! i) \<and> unat (e_packet_id (rel_array rel ! i)) = k)
        \<and> (\<forall>pid\<in>set ack. unat pid \<noteq> k)"
    then show "\<exists>i<rel_size rel. e_active (rel_array (reliable_send_purge rel ack) ! i) \<and>
        unat (e_packet_id (rel_array (reliable_send_purge rel ack) ! i)) = k" using p by metis
  qed
qed

subsection \<open>Accepting\<close>

lemma ack_read_pid:
  assumes "buf_wf b" "buf_contents b = htonl pid @ rest"
  obtains b' where "reliable_ack_read_packet_id b = (Some pid, b')" "buf_wf b'" "buf_contents b' = rest"
proof -
  obtain b' where "buf_read b 4 = (Some (htonl pid), b')" "buf_wf b'" "buf_contents b' = rest"
    using buf.read_prefix[OF assms] by (metis length_htonl)
  then show ?thesis using that by (simp add: reliable_ack_read_packet_id_def)
qed

lemma acknowledge_set:
  "set (snd (reliable_ack_acknowledge_packet_id ack pid)) \<subseteq> insert pid (set ack)"
  by (auto simp: reliable_ack_acknowledge_packet_id_def)

lemma not_replay_inv:
  assumes inv: "rec_inv sub n rel" and k: "k < length sub"
  shows "reliable_not_replay rel (of_nat k) \<longleftrightarrow> n \<le> k \<and> \<not> holds rel k"
proof -
  have n: "unat (rel_packet_id rel) = n" "n \<le> 2 ^ 31" "k < 2 ^ 31"
    using inv k by (auto simp: rec_inv_def)
  have u: "unat (of_nat k :: u32) = k" using n(3) by (intro unat_of_nat_small) simp
  have "reliable_pid_min (of_nat k) (rel_packet_id rel) \<longleftrightarrow> k < n"
    using pid_min_small[of "of_nat k" "rel_packet_id rel"] n u by simp
  moreover have "e_packet_id e = of_nat k \<longleftrightarrow> unat (e_packet_id e) = k" for e
    using u by (metis word_unat_eq_iff)
  ultimately show ?thesis by (auto simp: reliable_not_replay_def holds_def)
qed

lemma rec_inv_fill:
  assumes inv: "rec_inv sub n rel" and i: "i < rel_size rel" "\<not> e_active (rel_array rel ! i)"
    and k: "n \<le> k" "k < n + rel_size rel" "k < length sub" "\<not> holds rel k"
    and r: "rel_size rel' = rel_size rel" "rel_packet_id rel' = rel_packet_id rel" "rel_offset rel' = rel_offset rel"
    and arr: "\<And>j. j < rel_size rel \<Longrightarrow> rel_array rel' ! j = (if j = i then e else rel_array rel ! j)"
    and e: "e_active e" "unat (e_packet_id e) = k" "buf_wf (e_buf e)"
      "b_capacity (e_buf e) = b_capacity (e_buf (rel_array rel ! i))" "buf_contents (e_buf e) = sub ! k"
  shows "rec_inv sub n rel'"
proof -
  have "rel_ok rel'" using inv i(1) r e(3,4) arr by (simp add: rec_inv_def rel_ok_def all_entries)
  moreover have "rel_distinct rel'"
    unfolding rel_distinct_def r(1)
  proof (intro allI impI, elim conjE)
    fix a b assume ab: "a < rel_size rel" "b < rel_size rel" "e_active (rel_array rel' ! a)"
      "e_active (rel_array rel' ! b)" "e_packet_id (rel_array rel' ! a) = e_packet_id (rel_array rel' ! b)"
    have no: "j < rel_size rel \<Longrightarrow> e_active (rel_array rel ! j) \<Longrightarrow> e_packet_id (rel_array rel ! j) \<noteq> e_packet_id e" for j
      using k(4) e(2) by (auto simp: holds_nth)
    show "a = b"
    proof (cases "a = i \<or> b = i")
      case True
      then show ?thesis using ab no[of a] no[of b] arr[of a] arr[of b] by (auto split: if_splits)
    next
      case False
      then show ?thesis using ab arr inv by (simp add: rec_inv_def rel_distinct_def)
    qed
  qed
  moreover have "e_active (rel_array rel' ! j) \<longrightarrow> n \<le> unat (e_packet_id (rel_array rel' ! j))
          \<and> unat (e_packet_id (rel_array rel' ! j)) < n + rel_size rel
          \<and> unat (e_packet_id (rel_array rel' ! j)) < length sub
          \<and> buf_contents (e_buf (rel_array rel' ! j)) = sub ! unat (e_packet_id (rel_array rel' ! j))"
    if "j < rel_size rel" for j
    using inv that arr[OF that] k e by (cases "j = i") (simp_all add: rec_inv_def all_entries)
  ultimately show ?thesis using inv r by (simp add: rec_inv_def all_entries)
qed

lemma ctl_accept_step:
  assumes inv: "rec_inv sub n rel" and k: "k < length sub"
    and b: "buf_wf b" "buf_contents b = ctl_packet sub k"
  shows "\<exists>ok rel' ack'. ctl_accept rel ack b op = Some (ok, rel', ack') \<and> rec_inv sub n rel'
    \<and> (\<forall>j. holds rel j \<longrightarrow> holds rel' j)
    \<and> (\<forall>pid \<in> set ack'. pid \<in> set ack \<or> unat pid < n \<or> holds rel' (unat pid))"
proof -
  have ok: "rel_ok rel" and d: "rel_distinct rel" using inv by (auto simp: rec_inv_def)
  have kk: "k < 2 ^ 31" using inv k by (simp add: rec_inv_def)
  have u: "unat (of_nat k :: u32) = k" using kk by (intro unat_of_nat_small) simp
  obtain b1 where b1: "reliable_ack_read_packet_id b = (Some (of_nat k), b1)" "buf_wf b1" "buf_contents b1 = sub ! k"
    using ack_read_pid[OF b(1)] b(2) by (metis ctl_packet_def)
  have seq: "reliable_wont_break_sequentiality rel (of_nat k) \<longleftrightarrow> k < n + rel_size rel"
    using in_range2_small[of "rel_packet_id rel" "rel_size rel" "of_nat k"] inv ok u
    by (simp add: reliable_wont_break_sequentiality_def rec_inv_def rel_ok_def)
  let ?ack = "snd (reliable_ack_acknowledge_packet_id ack (of_nat k))"
  consider (out) "\<not> reliable_can_get rel \<or> \<not> k < n + rel_size rel"
    | (old) "reliable_can_get rel" "k < n + rel_size rel" "\<not> (n \<le> k \<and> \<not> holds rel k)"
    | (fresh) "reliable_can_get rel" "k < n + rel_size rel" "n \<le> k" "\<not> holds rel k" by blast
  then show ?thesis
  proof cases
    case out
    then have "ctl_accept rel ack b op = Some (True, rel, ack)"
      using b1(1) seq by (auto simp: ctl_accept_def)
    then show ?thesis using inv by auto
  next
    case old
    then have "\<not> reliable_not_replay rel (of_nat k)" using not_replay_inv[OF inv k] by simp
    then have "ctl_accept rel ack b op = Some (True, rel, ?ack)"
      using b1(1) seq old(1,2) by (simp add: ctl_accept_def)
    moreover have "k < n \<or> holds rel k" using old(3) by auto
    ultimately show ?thesis using inv acknowledge_set[of ack "of_nat k"] u by (fastforce dest: subsetD)
  next
    case fresh
    obtain i where i: "find_entry (\<lambda>e. \<not> e_active e) (rel_array rel) 0 = Some i"
      using fresh(1) find_entry_None[of "\<lambda>e. \<not> e_active e" "rel_array rel" 0]
      by (fastforce simp: reliable_can_get_def)
    obtain b0 where g: "reliable_get_buf rel = Some (Some i, rel_upd rel i (\<lambda>e. e\<lparr>e_buf := b0\<rparr>))"
      "i < rel_size rel" "\<not> e_active (rel_array rel ! i)" "buf_wf b0" "buf_contents b0 = []"
      "int (buf_front b0) = rel_offset rel"
      "buf_back b0 = nat (b_capacity (e_buf (rel_array rel ! i)) - rel_offset rel)"
      "b_capacity b0 = b_capacity (e_buf (rel_array rel ! i))"
      by (rule reliable_get_buf_free[OF ok i])
    obtain cok b2 where c: "buf_copy b0 b1 = (cok, b2)" by (metis surj_pair)
    have w2: "buf_wf b2 \<and> b_capacity b2 = b_capacity b0 \<and> (cok \<longrightarrow> buf_contents b2 = sub ! k)"
    proof (cases "length (sub ! k) \<le> buf_back b0")
      case True
      then obtain b' where b': "buf_write b0 (sub ! k) = (True, b')" "buf_wf b'" "buf_contents b' = sub ! k"
        "buf_back b' = buf_back b0 - length (sub ! k)" "buf_front b' = buf_front b0"
        using buf.write_room[OF g(4)] g(5) by fastforce
      then show ?thesis
        using c b1(3) buf_capacity_parts[OF g(4)] buf_capacity_parts[OF b'(2)] g(5) True by (simp add: buf_copy_def)
    next
      case False
      then show ?thesis using c b1(3) buf.write_full[OF g(4)] g(4) by (simp add: buf_copy_def)
    qed
    let ?r1 = "rel_upd rel i (\<lambda>e. e\<lparr>e_buf := b2\<rparr>)"
    have up: "rel_upd (rel_upd rel i (\<lambda>e. e\<lparr>e_buf := b0\<rparr>)) i (\<lambda>e. e\<lparr>e_buf := b2\<rparr>) = ?r1"
      using g(2) by (simp add: rel_upd_def rel_size_def)
    have buf0: "e_buf (rel_array (rel_upd rel i (\<lambda>e. e\<lparr>e_buf := b0\<rparr>)) ! i) = b0" using g(2) by simp
    show ?thesis
    proof (cases cok)
      case False
      then have "ctl_accept rel ack b op = Some (False, ?r1, ack)"
        using fresh b1(1) seq not_replay_inv[OF inv k] g(1) c by (simp add: ctl_accept_def Let_def up buf0)
      moreover have "rec_inv sub n ?r1"
        using inv w2 g(2,3,8) by (auto simp: rec_inv_def rel_ok_def rel_distinct_def all_entries)
      moreover have "holds ?r1 j \<longleftrightarrow> holds rel j" for j by (rule holds_cong) auto
      ultimately show ?thesis by auto
    next
      case True
      let ?f = "\<lambda>e. e\<lparr>e_active := True, e_packet_id := of_nat k, e_opcode := op,
         e_next_try := 0, e_timeout := 0, e_n_acks := 0\<rparr>"
      let ?r2 = "rel_upd ?r1 i ?f"
      have pm: "\<not> reliable_pid_min (of_nat k) (rel_packet_id rel)"
        using not_replay_inv[OF inv k] fresh by (simp add: reliable_not_replay_def)
      have "ctl_accept rel ack b op = Some (True, ?r2, ?ack)"
        using fresh b1(1) seq not_replay_inv[OF inv k] g(1,2) c True pm
        by (simp add: ctl_accept_def Let_def up buf0 reliable_mark_active_incoming_def)
      moreover have h: "holds ?r2 j \<longleftrightarrow> j = k \<or> holds rel j" for j
        by (rule holds_fill[of i, OF g(2,3)]) (use g(2) u in auto)
      moreover have "rec_inv sub n ?r2"
        by (rule rec_inv_fill[OF inv g(2,3) fresh(3,2) k fresh(4), where e = "?f ((rel_array rel ! i)\<lparr>e_buf := b2\<rparr>)"])
          (use g(2,8) w2 True u in auto)
      ultimately show ?thesis using acknowledge_set[of ack "of_nat k"] u by (fastforce dest: subsetD)
    qed
  qed
qed

subsection \<open>Delivering\<close>

lemma ctl_deliver_step:
  assumes inv: "rec_inv sub n rel"
  shows "\<exists>out rel'. ctl_deliver rel status = Some (out, rel') \<and>
    (case out of None \<Rightarrow> rel' = rel
     | Some m \<Rightarrow> n < length sub \<and> m = sub ! n \<and> rec_inv sub (Suc n) rel' \<and> holds rel n
         \<and> (\<forall>j. holds rel' j \<longleftrightarrow> holds rel j \<and> j \<noteq> n))"
proof (cases "reliable_get_entry_sequenced rel")
  case None
  then show ?thesis by (simp add: ctl_deliver_def)
next
  case (Some i)
  then have i: "i < rel_size rel" "e_active (rel_array rel ! i)" "e_packet_id (rel_array rel ! i) = rel_packet_id rel"
    using find_entry_0 by (fastforce simp: reliable_get_entry_sequenced_def rel_size_def)+
  have n: "unat (rel_packet_id rel) = n" "n < length sub" "length sub \<le> 2 ^ 31"
    "buf_contents (e_buf (rel_array rel ! i)) = sub ! n"
    using inv i by (auto simp: rec_inv_def all_entries)
  let ?rel = "(rel_upd rel i (\<lambda>e. e\<lparr>e_active := False\<rparr>))\<lparr>rel_packet_id := rel_packet_id rel + 1\<rparr>"
  have arr: "rel_array ?rel ! j = (if j = i then (rel_array rel ! i)\<lparr>e_active := False\<rparr> else rel_array rel ! j)"
    if "j < rel_size rel" for j using that by auto
  have u: "unat (rel_packet_id rel + 1) = Suc n" using n by (simp add: unat_word_ariths)
  have only: "j = i" if "j < rel_size rel" "e_active (rel_array rel ! j)" "unat (e_packet_id (rel_array rel ! j)) = n" for j
  proof -
    have "e_packet_id (rel_array rel ! j) = e_packet_id (rel_array rel ! i)"
      using that(3) i(3) n(1) by (metis word_unat_eq_iff)
    then show ?thesis using inv that(1,2) i(1,2) by (auto simp: rec_inv_def rel_distinct_def)
  qed
  have rinv: "rec_inv sub (Suc n) ?rel"
  proof -
    have "rel_ok ?rel" using inv arr by (auto simp: rec_inv_def rel_ok_def all_entries)
    moreover have "rel_distinct ?rel" using inv arr by (auto simp: rec_inv_def rel_distinct_def)
    moreover have "Suc n \<le> unat (e_packet_id (rel_array rel ! j))"
      if "j < rel_size rel" "j \<noteq> i" "e_active (rel_array rel ! j)" for j
    proof -
      have "n \<le> unat (e_packet_id (rel_array rel ! j))" using inv that by (auto simp: rec_inv_def all_entries)
      moreover have "unat (e_packet_id (rel_array rel ! j)) \<noteq> n" using only that by blast
      ultimately show ?thesis by simp
    qed
    ultimately show ?thesis using inv u n arr
      by (auto simp: rec_inv_def all_entries)
  qed
  have hold: "holds ?rel j \<longleftrightarrow> holds rel j \<and> j \<noteq> n" for j
  proof
    assume "holds ?rel j"
    then obtain l where l: "l < rel_size rel" "e_active (rel_array ?rel ! l)" "unat (e_packet_id (rel_array ?rel ! l)) = j"
      by (auto simp: holds_nth)
    then have "l \<noteq> i" using arr[OF l(1)] by auto
    then show "holds rel j \<and> j \<noteq> n" using l arr[OF l(1)] only[of l] by (auto simp: holds_nth)
  next
    assume a: "holds rel j \<and> j \<noteq> n"
    then obtain l where l: "l < rel_size rel" "e_active (rel_array rel ! l)" "unat (e_packet_id (rel_array rel ! l)) = j"
      by (auto simp: holds_nth)
    then have "l \<noteq> i" using a i(3) n(1) by auto
    then show "holds ?rel j" using l arr[OF l(1)] unfolding holds_nth by auto
  qed
  have "holds rel n" unfolding holds_nth using i n(1) by auto
  then show ?thesis using Some rinv hold n i
    by (auto simp: ctl_deliver_def Let_def reliable_mark_deleted_def)
qed

section \<open>The protocol\<close>

text \<open>
  One direction of a control channel: the window of the sender, the window and the pending
  acknowledgements of the receiver, the packets and the acknowledgement records that were ever
  put on the network (each may arrive any number of times, in any order, or never), and, as
  ghost state, the payloads queued so far and the payloads delivered so far.
\<close>

record ctl_state =
  cs_send :: reliable
  cs_rec :: reliable
  cs_ack :: reliable_ack
  cs_lru :: reliable_ack
  cs_data :: "bytes set"
  cs_acks :: "bytes set"
  cs_sub :: "bytes list"
  cs_del :: "bytes list"

inductive ctl_step :: "session_id \<Rightarrow> ctl_state \<Rightarrow> ctl_state \<Rightarrow> bool" for sid where
  queue: "send_room (cs_send s) \<Longrightarrow> length (cs_sub s) < 2 ^ 31 \<Longrightarrow>
    buf_wf tmp \<Longrightarrow> n \<le> length (buf_contents tmp) \<Longrightarrow>
    \<forall>e \<in> set (rel_array (cs_send s)). rel_offset (cs_send s) + int n \<le> b_capacity (e_buf e) \<Longrightarrow>
    ctl_queue (cs_send s) tmp (int n) opcode = Some (rel', tmp') \<Longrightarrow>
    ctl_step sid s (s\<lparr>cs_send := rel', cs_sub := cs_sub s @ [take n (buf_contents tmp)]\<rparr>)"
| send: "ctl_send now (cs_send s) = Some (out, rel') \<Longrightarrow>
    ctl_step sid s (s\<lparr>cs_send := rel', cs_data := cs_data s \<union> set_option out\<rparr>)"
| accept: "m \<in> cs_data s \<Longrightarrow> buf_wf b \<Longrightarrow> buf_contents b = m \<Longrightarrow>
    ctl_accept (cs_rec s) (cs_ack s) b op = Some (ok, rec', ack') \<Longrightarrow>
    ctl_step sid s (s\<lparr>cs_rec := rec', cs_ack := ack'\<rparr>)"
| deliver: "ctl_deliver (cs_rec s) status = Some (out, rec') \<Longrightarrow>
    ctl_step sid s (s\<lparr>cs_rec := rec', cs_del := cs_del s @ (case out of None \<Rightarrow> [] | Some m \<Rightarrow> [m])\<rparr>)"
| ack_out: "buf_wf b \<Longrightarrow> buf_contents b = [] \<Longrightarrow>
    reliable_ack_write (cs_ack s) (cs_lru s) b sid mx False = Some (True, ack', lru', b') \<Longrightarrow>
    ctl_step sid s (s\<lparr>cs_ack := ack', cs_lru := lru', cs_acks := insert (buf_contents b') (cs_acks s)\<rparr>)"
| ack_in: "r \<in> cs_acks s \<Longrightarrow> buf_wf b \<Longrightarrow> buf_contents b = r @ rest \<Longrightarrow> sid_ok uninit \<Longrightarrow>
    reliable_ack_read b uninit sid = (True, pids, b') \<Longrightarrow>
    ctl_step sid s (s\<lparr>cs_send := reliable_send_purge (cs_send s) pids\<rparr>)"

inductive_cases ctl_stepE: "ctl_step sid s s'"

text \<open>A packet is known to the receiver when it is delivered or stored.\<close>

definition known :: "ctl_state \<Rightarrow> nat \<Rightarrow> bool" where
  "known s k \<longleftrightarrow> k < length (cs_del s) \<or> holds (cs_rec s) k"

definition ack_inv :: "session_id \<Rightarrow> ctl_state \<Rightarrow> bool" where
  "ack_inv sid s \<longleftrightarrow> distinct (cs_ack s) \<and> length (cs_ack s) \<le> RELIABLE_ACK_SIZE
     \<and> distinct (cs_lru s) \<and> length (cs_lru s) \<le> RELIABLE_ACK_SIZE
     \<and> (\<forall>pid \<in> set (cs_ack s) \<union> set (cs_lru s). known s (unat pid))
     \<and> (\<forall>r \<in> cs_acks s. \<exists>pids. length pids \<le> RELIABLE_ACK_SIZE \<and> r = ack_record_enc (pids, sid)
          \<and> (\<forall>pid \<in> set pids. known s (unat pid)))"

definition ctl_inv :: "session_id \<Rightarrow> ctl_state \<Rightarrow> bool" where
  "ctl_inv sid s \<longleftrightarrow> send_inv (cs_sub s) (cs_send s)
     \<and> rec_inv (cs_sub s) (length (cs_del s)) (cs_rec s)
     \<and> cs_del s = take (length (cs_del s)) (cs_sub s)
     \<and> (\<forall>m \<in> cs_data s. \<exists>k < length (cs_sub s). m = ctl_packet (cs_sub s) k)
     \<and> ack_inv sid s
     \<and> (\<forall>k < length (cs_sub s). known s k \<or> holds (cs_send s) k)"

lemma rec_inv_append: "rec_inv sub n rel \<Longrightarrow> length sub < 2 ^ 31 \<Longrightarrow> rec_inv (sub @ [p]) n rel"
  by (auto simp: rec_inv_def nth_append)

lemma ctl_accept_ack:
  "ctl_accept rel ack b op = Some (ok, rel', ack') \<Longrightarrow>
   ack' = ack \<or> (\<exists>pid. ack' = snd (reliable_ack_acknowledge_packet_id ack pid))"
  by (auto simp: ctl_accept_def Let_def aborts split: if_splits prod.splits option.splits)

lemma acknowledge_shape:
  "distinct ack \<Longrightarrow> length ack \<le> RELIABLE_ACK_SIZE \<Longrightarrow>
   distinct (snd (reliable_ack_acknowledge_packet_id ack pid))
   \<and> length (snd (reliable_ack_acknowledge_packet_id ack pid)) \<le> RELIABLE_ACK_SIZE"
  by (auto simp: reliable_ack_acknowledge_packet_id_def reliable_ack_packet_id_present_def)

lemma copy_acks_set:
  assumes "distinct xs" "distinct lru" "length lru \<le> RELIABLE_ACK_SIZE"
  shows "set (fold lru_insert (rev xs) lru) \<subseteq> set xs \<union> set lru"
  unfolding copy_acks_eq[OF assms] by (auto dest: in_set_takeD)

text \<open>Whatever grows what the receiver knows keeps the invariant of the acknowledgements.\<close>

lemma ack_inv_known:
  assumes "ack_inv sid s" "\<And>k. known s k \<Longrightarrow> known s' k"
    "cs_ack s' = cs_ack s" "cs_lru s' = cs_lru s" "cs_acks s' = cs_acks s"
  shows "ack_inv sid s'"
  using assms unfolding ack_inv_def by (metis (no_types, lifting))

lemma ctl_inv_queue:
  assumes inv: "ctl_inv sid s" and sid: "sid_ok sid" "session_id_defined sid"
    and st: "send_room (cs_send s)" "length (cs_sub s) < 2 ^ 31" "buf_wf tmp" "n \<le> length (buf_contents tmp)"
      "\<forall>e \<in> set (rel_array (cs_send s)). rel_offset (cs_send s) + int n \<le> b_capacity (e_buf e)"
      "ctl_queue (cs_send s) tmp (int n) opcode = Some (rel', tmp')"
    and eq: "s' = s\<lparr>cs_send := rel', cs_sub := cs_sub s @ [take n (buf_contents tmp)]\<rparr>"
  shows "ctl_inv sid s'"
proof -
  have si: "send_inv (cs_sub s) (cs_send s)" using inv by (simp add: ctl_inv_def)
  let ?p = "take n (buf_contents tmp)"
  have q: "send_inv (cs_sub s @ [?p]) rel'" "\<And>k. holds rel' k \<longleftrightarrow> k = length (cs_sub s) \<or> holds (cs_send s) k"
    using ctl_queue_step[OF si st(1-5), of opcode] st(6) by auto
  have kn: "known s' k = known s k" for k by (simp add: known_def eq)
  have ri: "rec_inv (cs_sub s @ [?p]) (length (cs_del s)) (cs_rec s)"
    using rec_inv_append inv st(2) by (simp add: ctl_inv_def)
  have dl: "length (cs_del s) \<le> length (cs_sub s)" using inv by (simp add: ctl_inv_def rec_inv_def)
  have "\<exists>k<Suc (length (cs_sub s)). m = ctl_packet (cs_sub s @ [?p]) k" if m: "m \<in> cs_data s" for m
  proof -
    obtain k where "k < length (cs_sub s)" "m = ctl_packet (cs_sub s) k"
      using inv m unfolding ctl_inv_def by blast
    then show ?thesis by (intro exI[of _ k]) (simp add: ctl_packet_append)
  qed
  moreover have "ack_inv sid s'"
    by (rule ack_inv_known[of sid s]) (use inv kn in \<open>auto simp: ctl_inv_def eq\<close>)
  ultimately show ?thesis using inv q ri kn dl by (auto simp: ctl_inv_def eq less_Suc_eq)
qed

lemma ctl_inv_send:
  assumes inv: "ctl_inv sid s" and sid: "sid_ok sid" "session_id_defined sid"
    and st: "ctl_send now (cs_send s) = Some (out, rel')"
    and eq: "s' = s\<lparr>cs_send := rel', cs_data := cs_data s \<union> set_option out\<rparr>"
  shows "ctl_inv sid s'"
proof -
  have si: "send_inv (cs_sub s) (cs_send s)" using inv by (simp add: ctl_inv_def)
  have q: "rel_le (cs_send s) rel'" "\<And>k. holds rel' k \<longleftrightarrow> holds (cs_send s) k"
    "\<And>m. out = Some m \<Longrightarrow> \<exists>e \<in> set (rel_array (cs_send s)). e_active e \<and> m = buf_contents (e_buf e)"
    using ctl_send_step[OF st(1)] by auto
  have new: "\<exists>k<length (cs_sub s). m = ctl_packet (cs_sub s) k" if "out = Some m" for m
    using q(3)[OF that] si by (auto simp: send_inv_def)
  have "\<exists>k<length (cs_sub s). m = ctl_packet (cs_sub s) k" if m: "m \<in> cs_data s \<union> set_option out" for m
  proof (cases "m \<in> cs_data s")
    case True
    then show ?thesis using inv unfolding ctl_inv_def by blast
  next
    case False
    then show ?thesis using m new by (cases out) auto
  qed
  moreover have kn: "known s' k = known s k" for k by (simp add: known_def eq)
  moreover have "ack_inv sid s'"
    by (rule ack_inv_known[of sid s]) (use inv kn in \<open>auto simp: ctl_inv_def eq\<close>)
  ultimately show ?thesis using inv q(2) rel_le_inv[OF q(1) si]
    by (simp add: ctl_inv_def eq)
qed

lemma ctl_inv_accept:
  assumes inv: "ctl_inv sid s" and sid: "sid_ok sid" "session_id_defined sid"
    and st: "m \<in> cs_data s" "buf_wf b" "buf_contents b = m"
      "ctl_accept (cs_rec s) (cs_ack s) b op = Some (ok, rec', ack')"
    and eq: "s' = s\<lparr>cs_rec := rec', cs_ack := ack'\<rparr>"
  shows "ctl_inv sid s'"
proof -
  obtain k where k: "k < length (cs_sub s)" "m = ctl_packet (cs_sub s) k"
    using inv st(1) unfolding ctl_inv_def by blast
  have ri: "rec_inv (cs_sub s) (length (cs_del s)) (cs_rec s)" using inv by (simp add: ctl_inv_def)
  have q: "rec_inv (cs_sub s) (length (cs_del s)) rec'" "\<And>j. holds (cs_rec s) j \<Longrightarrow> holds rec' j"
    "\<And>pid. pid \<in> set ack' \<Longrightarrow> pid \<in> set (cs_ack s) \<or> unat pid < length (cs_del s) \<or> holds rec' (unat pid)"
    using ctl_accept_step[OF ri k(1) st(2), of "cs_ack s" op] st(3,4) k(2) by auto
  have kn: "known s j \<Longrightarrow> known s' j" for j using q(2) by (auto simp: known_def eq)
  have ai: "ack_inv sid s" using inv by (simp add: ctl_inv_def)
  have "distinct ack' \<and> length ack' \<le> RELIABLE_ACK_SIZE"
    using ctl_accept_ack[OF st(4)] acknowledge_shape[of "cs_ack s"] ai by (auto simp: ack_inv_def)
  moreover have "known s' (unat pid)" if "pid \<in> set ack'" for pid
    using q(3)[OF that] kn ai by (auto simp: ack_inv_def known_def eq)
  moreover have "\<forall>r \<in> cs_acks s. \<exists>pids. length pids \<le> RELIABLE_ACK_SIZE \<and> r = ack_record_enc (pids, sid)
          \<and> (\<forall>pid \<in> set pids. known s' (unat pid))"
    using ai kn unfolding ack_inv_def by meson
  ultimately have "ack_inv sid s'" using ai kn by (auto simp: ack_inv_def eq)
  then show ?thesis using inv q(1) kn by (auto simp: ctl_inv_def eq)
qed

lemma ctl_inv_deliver:
  assumes inv: "ctl_inv sid s" and sid: "sid_ok sid" "session_id_defined sid"
    and st: "ctl_deliver (cs_rec s) status = Some (out, rec')"
    and eq: "s' = s\<lparr>cs_rec := rec', cs_del := cs_del s @ (case out of None \<Rightarrow> [] | Some m \<Rightarrow> [m])\<rparr>"
  shows "ctl_inv sid s'"
proof -
  have ri: "rec_inv (cs_sub s) (length (cs_del s)) (cs_rec s)" using inv by (simp add: ctl_inv_def)
  note q = ctl_deliver_step[OF ri, of status, unfolded st(1)]
  show ?thesis
  proof (cases out)
    case None
    then show ?thesis using q inv eq by simp
  next
    case (Some m)
    let ?n = "length (cs_del s)"
    have d: "?n < length (cs_sub s)" "m = cs_sub s ! ?n" "rec_inv (cs_sub s) (Suc ?n) rec'"
      "\<And>j. holds rec' j \<longleftrightarrow> holds (cs_rec s) j \<and> j \<noteq> ?n" using q Some by auto
    have hold: "holds (cs_rec s) j \<Longrightarrow> j \<noteq> ?n \<Longrightarrow> holds rec' j" for j using d(4) by blast
    have kn: "known s' j" if "known s j" for j
      using that hold[of j] by (auto simp: known_def eq Some less_Suc_eq)
    have del: "cs_del s = take ?n (cs_sub s)" using inv by (simp add: ctl_inv_def)
    have "take (Suc ?n) (cs_sub s) = take ?n (cs_sub s) @ [m]"
      using d(1,2) by (simp add: take_Suc_conv_app_nth)
    then have "take (Suc ?n) (cs_sub s) = cs_del s @ [m]" using del by metis
    moreover have "ack_inv sid s'"
      by (rule ack_inv_known[of sid s]) (use inv kn in \<open>simp_all add: ctl_inv_def eq\<close>)
    moreover have "\<forall>k < length (cs_sub s). known s' k \<or> holds (cs_send s) k"
      using inv kn unfolding ctl_inv_def by blast
    ultimately show ?thesis using inv d(3) by (simp add: ctl_inv_def eq Some)
  qed
qed

lemma ctl_inv_ack_out:
  assumes inv: "ctl_inv sid s" and sid: "sid_ok sid" "session_id_defined sid"
    and st: "buf_wf b" "buf_contents b = []"
      "reliable_ack_write (cs_ack s) (cs_lru s) b sid mx False = Some (True, ack', lru', b')"
    and eq: "s' = s\<lparr>cs_ack := ack', cs_lru := lru', cs_acks := insert (buf_contents b') (cs_acks s)\<rparr>"
  shows "ctl_inv sid s'"
proof -
  have ai: "ack_inv sid s" using inv by (simp add: ctl_inv_def)
  have a: "distinct (cs_ack s)" "length (cs_ack s) \<le> RELIABLE_ACK_SIZE"
    "distinct (cs_lru s)" "length (cs_lru s) \<le> RELIABLE_ACK_SIZE" using ai by (auto simp: ack_inv_def)
  let ?n = "min (length (cs_ack s)) mx"
  have xs: "distinct (take ?n (cs_ack s))" "length (take ?n (cs_ack s)) \<le> RELIABLE_ACK_SIZE" using a by auto
  have w: "ack' = drop ?n (cs_ack s)" "lru' = fold lru_insert (rev (take ?n (cs_ack s))) (cs_lru s)"
    "buf_contents b' = ack_record_enc (take mx lru', sid)"
    using reliable_ack_write_spec[OF st(1) sid a, of mx False] st(2,3) by (auto split: if_splits)
  have lru: "distinct lru'" "length lru' \<le> RELIABLE_ACK_SIZE" "set lru' \<subseteq> set (cs_ack s) \<union> set (cs_lru s)"
    using copy_acks_inv[OF xs(1) a(3,4) xs(2)] copy_acks_set[OF xs(1) a(3,4)] w(2)
    by (auto dest: in_set_takeD)
  have kn: "known s' k = known s k" for k by (simp add: known_def eq)
  have "known s (unat pid)" if "pid \<in> set ack' \<union> set lru'" for pid
    using that lru(3) w(1) ai by (auto simp: ack_inv_def dest: in_set_dropD)
  moreover have "set (take mx lru') \<subseteq> set lru'" by (rule set_take_subset)
  ultimately have "ack_inv sid s'"
    using ai lru a w(1,3) kn by (auto simp: ack_inv_def eq intro!: exI[of _ "take mx lru'"])
  then show ?thesis using inv kn by (simp add: ctl_inv_def eq)
qed

lemma ctl_inv_ack_in:
  assumes inv: "ctl_inv sid s" and sid: "sid_ok sid" "session_id_defined sid"
    and st: "r \<in> cs_acks s" "buf_wf b" "buf_contents b = r @ rest" "sid_ok uninit"
      "reliable_ack_read b uninit sid = (True, pids, b')"
    and eq: "s' = s\<lparr>cs_send := reliable_send_purge (cs_send s) pids\<rparr>"
  shows "ctl_inv sid s'"
proof -
  have ai: "ack_inv sid s" and si: "send_inv (cs_sub s) (cs_send s)" using inv by (simp_all add: ctl_inv_def)
  obtain ps where ps: "length ps \<le> RELIABLE_ACK_SIZE" "r = ack_record_enc (ps, sid)"
    "\<forall>pid \<in> set ps. known s (unat pid)" using ai st(1) by (auto simp: ack_inv_def)
  have "pids = ps"
    using reliable_ack_read_enc[OF ps(1) sid st(4,2) st(3)[unfolded ps(2)]] st(5) by auto
  have kn: "known s' k = known s k" for k by (simp add: known_def eq)
  have "send_inv (cs_sub s) (reliable_send_purge (cs_send s) pids)"
    using rel_le_inv[OF _ si] purge_step by blast
  moreover have "known s k \<or> holds (reliable_send_purge (cs_send s) pids) k" if "k < length (cs_sub s)" for k
    using inv that ps(3) \<open>pids = ps\<close> by (auto simp: ctl_inv_def purge_holds)
  moreover have "ack_inv sid s'"
    by (rule ack_inv_known[of sid s]) (use inv kn in \<open>auto simp: ctl_inv_def eq\<close>)
  ultimately show ?thesis using inv kn by (simp add: ctl_inv_def eq)
qed

lemma ctl_inv_step:
  assumes "ctl_step sid s s'" "ctl_inv sid s" "sid_ok sid" "session_id_defined sid"
  shows "ctl_inv sid s'"
  using assms(1)
proof (cases rule: ctl_step.cases)
  case queue then show ?thesis using ctl_inv_queue[OF assms(2-4)] by blast
next
  case send then show ?thesis using ctl_inv_send[OF assms(2-4)] by blast
next
  case accept then show ?thesis using ctl_inv_accept[OF assms(2-4)] by blast
next
  case deliver then show ?thesis using ctl_inv_deliver[OF assms(2-4)] by blast
next
  case ack_out then show ?thesis using ctl_inv_ack_out[OF assms(2-4)] by blast
next
  case ack_in then show ?thesis using ctl_inv_ack_in[OF assms(2-4)] by blast
qed

section \<open>What the protocol guarantees\<close>

definition ctl_start :: "reliable \<Rightarrow> reliable \<Rightarrow> ctl_state" where
  "ctl_start S R = \<lparr>cs_send = S, cs_rec = R, cs_ack = [], cs_lru = [], cs_data = {}, cs_acks = {},
     cs_sub = [], cs_del = []\<rparr>"

lemma reliable_init_ok:
  assumes "reliable_init bs off n hold = Some rel" "4 \<le> off"
  shows "rel_ok rel" "rel_packet_id rel = 0" "\<forall>e \<in> set (rel_array rel). \<not> e_active e"
    "rel_size rel = nat n"
proof -
  obtain b where b1: "alloc_buf bs = Some b" and n: "0 < n" "n \<le> 12"
    using assms(1) by (auto simp: reliable_init_def aborts RELIABLE_CAPACITY_def split: if_splits)
  obtain ok b' where "buf_init_dowork b off = (ok, b')" by (metis surj_pair)
  moreover from this have ok using assms(1) b1 n by (auto simp: reliable_init_def RELIABLE_CAPACITY_def split: if_splits)
  ultimately have b: "alloc_buf bs = Some b" "buf_init_dowork b off = (True, b')" "0 < n" "n \<le> 12"
    using b1 n by auto
  then have r: "rel = \<lparr>initial_timeout = 0, rel_packet_id = 0, rel_offset = off, rel_hold = hold,
      rel_array = replicate (nat n) \<lparr>e_active = False, e_timeout = 0, e_next_try = 0, e_packet_id = 0,
        e_n_acks = 0, e_opcode = 0, e_buf = b'\<rparr>\<rparr>"
    using assms(1) by (simp add: reliable_init_def RELIABLE_CAPACITY_def)
  have w: "buf_wf b" using alloc_buf_wf[OF b(1)] by simp
  have "off \<le> b_capacity b" using buf_init_ok[OF w, of off] b(2) by simp
  then show "rel_ok rel" "rel_packet_id rel = 0" "\<forall>e \<in> set (rel_array rel). \<not> e_active e"
    "rel_size rel = nat n"
    using buf_init_wf[OF w b(2)] assms(2) b(3,4) by (auto simp: r rel_ok_def rel_size_def)
qed

lemma ctl_start_inv:
  assumes "reliable_init bs1 off1 n1 h1 = Some S" "4 \<le> off1" "reliable_init bs2 off2 n2 h2 = Some R" "4 \<le> off2"
  shows "ctl_inv sid (ctl_start S R)"
proof -
  note s = reliable_init_ok[OF assms(1,2)] and r = reliable_init_ok[OF assms(3,4)]
  have ds: "rel_distinct S" using s(3) by (simp add: rel_distinct_def all_entries)
  have dr: "rel_distinct R" using r(3) by (simp add: rel_distinct_def all_entries)
  show ?thesis using s r ds dr
    by (simp add: ctl_inv_def ctl_start_def send_inv_def rec_inv_def ack_inv_def)
qed

lemma ctl_reach_inv:
  assumes "(ctl_step sid)\<^sup>*\<^sup>* s0 s" "ctl_inv sid s0" "sid_ok sid" "session_id_defined sid"
  shows "ctl_inv sid s"
  using assms(1,2) by (induction rule: rtranclp_induct) (auto intro: ctl_inv_step[OF _ _ assms(3,4)])

text \<open>A short run for the witnesses: two fresh ends and one queued packet without payload.\<close>

lemma reliable_init_some: "\<exists>rel. reliable_init 64 8 2 False = Some rel"
  by (simp add: reliable_init_def RELIABLE_CAPACITY_def alloc_buf_def buf_size_valid_def BUF_SIZE_MAX_def
      buf_init_dowork_def)

lemma ctl_run_example:
  assumes S: "reliable_init 64 8 2 False = Some S"
  shows "\<exists>s. (ctl_step sid)\<^sup>*\<^sup>* (ctl_start S S) s \<and> cs_sub s = [[]] \<and> cs_del s = []"
proof -
  note s = reliable_init_ok[OF S]
  obtain tmp where "alloc_buf 16 = Some tmp" by (simp add: alloc_buf_def buf_size_valid_def BUF_SIZE_MAX_def)
  then have tmp: "buf_wf tmp" "0 \<le> length (buf_contents tmp)" using alloc_buf_wf by auto
  have si: "send_inv [] S"
    using ctl_start_inv[OF S _ S] by (simp add: ctl_inv_def ctl_start_def)
  have room: "send_room S" using s(3) by (simp add: send_room_def)
  have fits: "\<forall>e \<in> set (rel_array S). rel_offset S + int 0 \<le> b_capacity (e_buf e)"
    using s(1) by (simp add: rel_ok_def)
  obtain rel' tmp' where q: "ctl_queue S tmp (int 0) 0 = Some (rel', tmp')"
    using ctl_queue_step[OF si room _ tmp fits, of 0] by auto
  have "ctl_step sid (ctl_start S S) ((ctl_start S S)\<lparr>cs_send := rel', cs_sub := cs_sub (ctl_start S S) @ [take 0 (buf_contents tmp)]\<rparr>)"
    by (rule ctl_step.queue[where opcode = 0]) (use room tmp fits q in \<open>auto simp: ctl_start_def\<close>)
  then show ?thesis by (intro exI conjI, rule r_into_rtranclp) (auto simp: ctl_start_def)
qed

text \<open>
  C6. In-order, exactly-once transfer. However the network loses, duplicates and reorders the
  packets and the acknowledgement records, the payloads that the receiver delivers are a prefix
  of the payloads that the sender queued, and every queued payload is delivered, stored by the
  receiver, or still in the sender's window for retransmission: nothing is lost, although the
  sender drops what is acknowledged.
\<close>

theorem ctl_transfer_reliable:
  assumes "reliable_init bs1 off1 n1 h1 = Some S" "4 \<le> off1"
    and "reliable_init bs2 off2 n2 h2 = Some R" "4 \<le> off2"
    and "sid_ok sid" "session_id_defined sid"
    and "(ctl_step sid)\<^sup>*\<^sup>* (ctl_start S R) s"
  shows "(\<exists>rest. cs_sub s = cs_del s @ rest)
    \<and> (\<forall>k < length (cs_sub s). k < length (cs_del s) \<or> holds (cs_rec s) k \<or> holds (cs_send s) k)"
proof -
  have inv: "ctl_inv sid s"
    by (rule ctl_reach_inv[OF assms(7) ctl_start_inv[OF assms(1-4)] assms(5,6)])
  then have "cs_sub s = cs_del s @ drop (length (cs_del s)) (cs_sub s)"
    by (metis append_take_drop_id ctl_inv_def)
  then show ?thesis using inv by (auto simp: ctl_inv_def known_def)
qed

lemma ctl_transfer_reliable_witness:
  "\<exists>S s. reliable_init 64 8 2 False = Some S \<and> (ctl_step [1, 2, 3, 4, 5, 6, 7, 8])\<^sup>*\<^sup>* (ctl_start S S) s
    \<and> cs_sub s = [[]] \<and> (\<exists>rest. cs_sub s = cs_del s @ rest) \<and> (holds (cs_rec s) 0 \<or> holds (cs_send s) 0)"
proof -
  let ?sid = "[1, 2, 3, 4, 5, 6, 7, 8] :: bytes"
  have sid: "sid_ok ?sid" "session_id_defined ?sid"
    by (auto simp: sid_ok_def SID_SIZE_def session_id_defined_def x_session_id_zero_def eval_nat_numeral)
  obtain S where S: "reliable_init 64 8 2 False = Some S" using reliable_init_some by blast
  obtain s where s: "(ctl_step ?sid)\<^sup>*\<^sup>* (ctl_start S S) s" "cs_sub s = [[]]" "cs_del s = []"
    using ctl_run_example[OF S] by blast
  have "(\<exists>rest. cs_sub s = cs_del s @ rest) \<and> (\<forall>k < length (cs_sub s). k < length (cs_del s)
      \<or> holds (cs_rec s) k \<or> holds (cs_send s) k)"
    by (rule ctl_transfer_reliable[OF S _ S _ sid s(1)]) simp_all
  then show ?thesis using S s by (intro exI conjI) auto
qed

text \<open>
  C14. No deadlock and no failed assertion. In every reachable state, a full receive window
  holds the packet that is next in sequence, so that it can always be emptied; sending,
  accepting any packet of the network, and delivering never fail an assertion; and a payload
  that fits can be queued exactly when \<open>reliable_get_num_output_sequenced_available\<close> is
  positive.
\<close>

definition ctl_safe :: "ctl_state \<Rightarrow> bool" where
  "ctl_safe s \<longleftrightarrow>
     (\<not> reliable_can_get (cs_rec s) \<longrightarrow> reliable_get_entry_sequenced (cs_rec s) \<noteq> None)
   \<and> (\<forall>now. ctl_send now (cs_send s) \<noteq> None)
   \<and> (\<forall>m \<in> cs_data s. \<forall>b op. buf_wf b \<and> buf_contents b = m \<longrightarrow> ctl_accept (cs_rec s) (cs_ack s) b op \<noteq> None)
   \<and> (\<forall>status. ctl_deliver (cs_rec s) status \<noteq> None)
   \<and> (\<forall>tmp n opcode. length (cs_sub s) < 2 ^ 31 \<and> buf_wf tmp \<and> n \<le> length (buf_contents tmp)
        \<and> (\<forall>e \<in> set (rel_array (cs_send s)). rel_offset (cs_send s) + int n \<le> b_capacity (e_buf e)) \<longrightarrow>
        (ctl_queue (cs_send s) tmp (int n) opcode \<noteq> None
         \<longleftrightarrow> 0 < reliable_get_num_output_sequenced_available (cs_send s)))"

lemma rec_full:
  assumes inv: "rec_inv sub n rel" and full: "\<not> reliable_can_get rel"
  shows "reliable_get_entry_sequenced rel \<noteq> None"
proof -
  have act: "\<forall>e \<in> set (rel_array rel). e_active e" using full by (auto simp: reliable_can_get_def)
  then have r: "\<forall>e \<in> set (rel_array rel). e_active e \<and> n \<le> unat (e_packet_id e)
      \<and> unat (e_packet_id e) < n + rel_size rel"
    using inv by (auto simp: rec_inv_def)
  have "rel_distinct rel" "0 < rel_size rel" using inv by (auto simp: rec_inv_def rel_ok_def)
  then have "holds rel n" using active_count(2)[OF _ r, of n] by simp
  then obtain e where e: "e \<in> set (rel_array rel)" "e_active e" "e_packet_id e = rel_packet_id rel"
    using inv by (auto simp: holds_def rec_inv_def word_unat_eq_iff)
  then show ?thesis unfolding reliable_get_entry_sequenced_def find_entry_None by blast
qed

lemma num_available:
  assumes inv: "send_inv sub rel"
  shows "0 < reliable_get_num_output_sequenced_available rel \<longleftrightarrow> send_room rel"
proof (cases "min_active (rel_array rel)")
  case None
  then have "\<forall>e \<in> set (rel_array rel). \<not> e_active e" by (simp add: min_active_None)
  then show ?thesis using None inv
    by (simp add: reliable_get_num_output_sequenced_available_def send_room_def send_inv_def rel_ok_def)
next
  case (Some m)
  have bnd: "\<forall>e \<in> set (rel_array rel). e_active e \<longrightarrow> unat (e_packet_id e) < 2 ^ 31"
    using inv by (fastforce simp: send_inv_def)
  from min_active_Some[OF bnd Some]
  obtain e where e: "e \<in> set (rel_array rel)" "e_active e" "e_packet_id e = m"
    and least: "\<forall>e \<in> set (rel_array rel). e_active e \<longrightarrow> unat m \<le> unat (e_packet_id e)" by blast
  have w: "unat m \<le> unat (rel_packet_id rel)" "unat (rel_packet_id rel) \<le> unat m + rel_size rel"
    "rel_size rel \<le> 12"
    using e inv by (fastforce simp: send_inv_def rel_ok_def)+
  let ?d = "rel_packet_id rel - m"
  have d: "unat ?d = unat (rel_packet_id rel) - unat m" using w(1) by (simp add: unat_minus word_le_nat_alt)
  have u: "unat (of_nat (rel_size rel) :: u32) = rel_size rel" using w(3) by (intro unat_of_nat_small) simp
  have "unat (of_nat (rel_size rel) - ?d) = rel_size rel - unat ?d"
    using w d u by (simp add: unat_minus word_le_nat_alt)
  moreover from this have "sint (of_nat (rel_size rel) - ?d) = uint (of_nat (rel_size rel) - ?d)"
    using w(3) by (intro sint_small) simp
  ultimately have "sint (of_nat (rel_size rel) - ?d) = int (rel_size rel - unat ?d)"
    by (metis uint_nat)
  then have "0 < reliable_get_num_output_sequenced_available rel \<longleftrightarrow> 0 < rel_size rel - unat ?d"
    unfolding reliable_get_num_output_sequenced_available_def Some option.case subtract_pid_eq
    by (simp only: of_nat_0_less_iff)
  then have "0 < reliable_get_num_output_sequenced_available rel
      \<longleftrightarrow> unat (rel_packet_id rel) < unat m + rel_size rel"
    unfolding d using w by linarith
  then show ?thesis using e least by (fastforce simp: send_room_def)
qed

lemma ctl_inv_safe:
  assumes inv: "ctl_inv sid s"
  shows "ctl_safe s"
proof -
  have si: "send_inv (cs_sub s) (cs_send s)" and ri: "rec_inv (cs_sub s) (length (cs_del s)) (cs_rec s)"
    using inv by (auto simp: ctl_inv_def)
  have a: "ctl_accept (cs_rec s) (cs_ack s) b op \<noteq> None"
    if m: "m \<in> cs_data s" and b: "buf_wf b" "buf_contents b = m" for m b op
  proof -
    obtain k where k: "k < length (cs_sub s)" "m = ctl_packet (cs_sub s) k"
      using inv m unfolding ctl_inv_def by blast
    show ?thesis using ctl_accept_step[OF ri k(1) b(1), of "cs_ack s" op] b(2) k(2) by fastforce
  qed
  have q: "ctl_queue (cs_send s) tmp (int n) opcode \<noteq> None \<longleftrightarrow> send_room (cs_send s)"
    if "length (cs_sub s) < 2 ^ 31" "buf_wf tmp" "n \<le> length (buf_contents tmp)"
      "\<forall>e \<in> set (rel_array (cs_send s)). rel_offset (cs_send s) + int n \<le> b_capacity (e_buf e)" for tmp n opcode
  proof (cases "send_room (cs_send s)")
    case True
    then show ?thesis using ctl_queue_step[OF si True that(1-3) that(4), of opcode] by auto
  next
    case False
    then show ?thesis using send_room_test[OF si]
      by (auto simp: ctl_queue_def reliable_get_buf_output_sequenced_def)
  qed
  have "ctl_send now (cs_send s) \<noteq> None" for now
    using ctl_send_step[of now "cs_send s"] by fastforce
  moreover have "ctl_deliver (cs_rec s) status \<noteq> None" for status
    using ctl_deliver_step[OF ri, of status] by fastforce
  ultimately show ?thesis
    using rec_full[OF ri] a q num_available[OF si] unfolding ctl_safe_def by blast
qed

theorem ctl_no_deadlock:
  assumes "reliable_init bs1 off1 n1 h1 = Some S" "4 \<le> off1"
    and "reliable_init bs2 off2 n2 h2 = Some R" "4 \<le> off2"
    and "sid_ok sid" "session_id_defined sid"
    and "(ctl_step sid)\<^sup>*\<^sup>* (ctl_start S R) s"
  shows "ctl_safe s"
  by (rule ctl_inv_safe, rule ctl_reach_inv[OF assms(7) ctl_start_inv[OF assms(1-4)] assms(5,6)])

lemma ctl_no_deadlock_witness:
  "\<exists>S s. reliable_init 64 8 2 False = Some S \<and> (ctl_step [1, 2, 3, 4, 5, 6, 7, 8])\<^sup>*\<^sup>* (ctl_start S S) s
    \<and> cs_sub s = [[]] \<and> ctl_safe s"
proof -
  let ?sid = "[1, 2, 3, 4, 5, 6, 7, 8] :: bytes"
  obtain S where S: "reliable_init 64 8 2 False = Some S" using reliable_init_some by blast
  obtain s where s: "(ctl_step ?sid)\<^sup>*\<^sup>* (ctl_start S S) s" "cs_sub s = [[]]"
    using ctl_run_example[OF S] by blast
  have sid: "sid_ok ?sid" "session_id_defined ?sid"
    by (auto simp: sid_ok_def SID_SIZE_def session_id_defined_def x_session_id_zero_def eval_nat_numeral)
  have "ctl_safe s" by (rule ctl_no_deadlock[OF S _ S _ sid s(1)]) simp_all
  then show ?thesis using S s by blast
qed

section \<open>The window at the wrap-around\<close>

text \<open>
  C39. Where the window test goes wrong. With the next identifier above \<open>2 ^ 31\<close> and a window
  that does not reach \<open>2 ^ 32\<close>, \<open>reliable_pid_in_range2\<close> compares without wrap-around and takes
  identifier 0 for one inside the window, and the replay test takes it for a later one, although
  it is ahead of the window by \<open>2 ^ 32 - base\<close>: such a packet is stored and acknowledged. The
  transfer above therefore stops at \<open>2 ^ 31\<close> packets.
\<close>

theorem reliable_window_wrap:
  assumes "2 ^ 31 < unat base" "unat base + n < 2 ^ 32"
  shows "reliable_pid_in_range2 0 base (of_nat n) \<and> \<not> reliable_pid_min 0 base
    \<and> \<not> reliable_pid_in_range1 0 base (of_nat n)"
proof -
  have u: "unat (of_nat n :: u32) = n" using assms by (intro unat_of_nat_small) simp
  have "unat (0 - base) = 2 ^ 32 - unat base"
    using assms(1) unat_sub_if'[of 0 base] by (simp split: if_splits)
  then show ?thesis using assms u in_range2_small[of base n 0]
    by (simp add: reliable_pid_min_def reliable_pid_in_range1_def subtract_pid_eq unat_half word_less_nat_alt)
      linarith
qed

lemma reliable_window_wrap_witness:
  "reliable_pid_in_range2 0 0xF0000000 12 \<and> \<not> reliable_pid_min 0 0xF0000000
   \<and> \<not> reliable_pid_in_range1 0 0xF0000000 12"
  using reliable_window_wrap[of "0xF0000000" 12] by simp

end
