(* ===== verification/Fragment.thy ===== *)
theory Fragment
  imports Buffer C_Time
begin

text \<open>
  Internal fragmentation of the data channel (\<open>fragment.c\<close>, \<open>fragment.h\<close>): a datagram that is
  too long is sent in up to 32 parts of equal size, and joined by the receiver from parts that
  arrive in any order.

  The returned buffers share memory with \<open>outgoing_return\<close> or with the reassembly buffer in the
  code; these are initialised before they are used again, so the model returns copies.
\<close>

definition N_FRAG_BUF :: int where "N_FRAG_BUF = 25"
definition FRAG_TTL_SEC :: int where "FRAG_TTL_SEC = 10"
definition FRAG_WAKEUP_INTERVAL :: int where "FRAG_WAKEUP_INTERVAL = 5"
definition FRAG_MAP_MASK :: u32 where "FRAG_MAP_MASK = 0xFFFFFFFF"
definition MAX_FRAGS :: int where "MAX_FRAGS = 32"
definition N_SEQ_ID :: int where "N_SEQ_ID = 256"
definition FRAG_TYPE_MASK :: u32 where "FRAG_TYPE_MASK = 3"
definition FRAG_WHOLE :: int where "FRAG_WHOLE = 0"
definition FRAG_YES_NOTLAST :: int where "FRAG_YES_NOTLAST = 1"
definition FRAG_YES_LAST :: int where "FRAG_YES_LAST = 2"
definition FRAG_SEQ_ID_MASK :: u32 where "FRAG_SEQ_ID_MASK = 0xff"
definition FRAG_SEQ_ID_SHIFT :: nat where "FRAG_SEQ_ID_SHIFT = 2"
definition FRAG_ID_MASK :: u32 where "FRAG_ID_MASK = 0x1f"
definition FRAG_ID_SHIFT :: nat where "FRAG_ID_SHIFT = 10"
definition FRAG_SIZE_MASK :: u32 where "FRAG_SIZE_MASK = 0x3fff"
definition FRAG_SIZE_SHIFT :: nat where "FRAG_SIZE_SHIFT = 15"
definition FRAG_SIZE_ROUND_SHIFT :: nat where "FRAG_SIZE_ROUND_SHIFT = 2"
definition FRAG_SIZE_ROUND_MASK :: int where "FRAG_SIZE_ROUND_MASK = 3"

record fragment =
  fr_defined :: bool
  max_frag_size :: int
  fr_map :: u32
  fr_timestamp :: int
  fr_buf :: buffer

record fragment_list =
  fl_seq_id :: int
  fl_index :: int
  fl_fragments :: "fragment list"

record fragment_master =
  fm_wakeup :: event_timeout
  outgoing_seq_id :: int
  outgoing_frag_size :: int
  outgoing_frag_id :: int
  fm_outgoing :: buffer
  fm_outgoing_return :: buffer
  fm_incoming :: fragment_list

text \<open>The part of a frame that is used: the headroom of its buffers and the fragment size.\<close>

record frag_frame =
  frame_headroom :: int
  max_fragment_size :: int

section \<open>Reassembly buffers\<close>

function get_buf_advance :: "fragment_list \<Rightarrow> int \<Rightarrow> fragment_list option" where
  "get_buf_advance l diff =
     (if diff > 0 then do {
        idx \<leftarrow> modulo_add (fl_index l) 1 N_FRAG_BUF;
        seq \<leftarrow> modulo_add (fl_seq_id l) 1 N_SEQ_ID;
        get_buf_advance (l\<lparr>fl_index := idx, fl_seq_id := seq,
          fl_fragments := (fl_fragments l)[nat idx := (fl_fragments l ! nat idx)\<lparr>fr_defined := False\<rparr>]\<rparr>) (diff - 1) }
      else Some l)"
  by auto
termination by (relation "measure (\<lambda>(l, d). nat d)") auto

definition fragment_list_get_buf :: "fragment_list \<Rightarrow> int \<Rightarrow> (fragment_list \<times> nat) option" where
  "fragment_list_get_buf l seq_id = do {
     diff \<leftarrow> modulo_subtract seq_id (fl_seq_id l) N_SEQ_ID;
     let (l, diff) =
       (if \<bar>diff\<bar> \<ge> N_FRAG_BUF
        then (l\<lparr>fl_fragments := map (\<lambda>fr. fr\<lparr>fr_defined := False\<rparr>) (fl_fragments l),
                fl_index := 0, fl_seq_id := seq_id\<rparr>, 0)
        else (l, diff));
     l \<leftarrow> get_buf_advance l diff;
     idx \<leftarrow> modulo_add (fl_index l) (if diff > 0 then 0 else diff) N_FRAG_BUF;
     Some (l, nat idx) }"

definition fragment_outgoing_defined :: "fragment_master \<Rightarrow> bool" where
  "fragment_outgoing_defined f \<longleftrightarrow> b_len (fm_outgoing f) > 0"

text \<open>\<open>fragment_init\<close> with the random number and the clock as arguments; all else is cleared.\<close>

definition fragment_zero :: fragment where
  "fragment_zero = \<lparr>fr_defined = False, max_frag_size = 0, fr_map = 0, fr_timestamp = 0, fr_buf = clear_buf\<rparr>"

definition fragment_init :: "int \<Rightarrow> u32 \<Rightarrow> fragment_master" where
  "fragment_init now rnd = \<lparr>fm_wakeup = event_timeout_init FRAG_WAKEUP_INTERVAL now,
     outgoing_seq_id = uint (rnd AND word_of_int (N_SEQ_ID - 1)), outgoing_frag_size = 0, outgoing_frag_id = 0,
     fm_outgoing = clear_buf, fm_outgoing_return = clear_buf,
     fm_incoming = \<lparr>fl_seq_id = 0, fl_index = 0,
       fl_fragments = replicate (nat N_FRAG_BUF) fragment_zero\<rparr>\<rparr>"

definition fragment_list_buf_init :: "fragment_list \<Rightarrow> nat \<Rightarrow> fragment_list option" where
  "fragment_list_buf_init l buf_size = do {
     b \<leftarrow> alloc_buf buf_size;
     Some (l\<lparr>fl_fragments := map (\<lambda>fr. fr\<lparr>fr_buf := b\<rparr>) (fl_fragments l)\<rparr>) }"

definition fragment_frame_init :: "fragment_master \<Rightarrow> nat \<Rightarrow> fragment_master option" where
  "fragment_frame_init f buf_size = do {
     l \<leftarrow> fragment_list_buf_init (fm_incoming f) buf_size;
     b \<leftarrow> alloc_buf buf_size;
     Some (f\<lparr>fm_incoming := l, fm_outgoing := b, fm_outgoing_return := b\<rparr>) }"

section \<open>Receiving\<close>

text \<open>
  A fragment for the buffer \<open>frag\<close>; \<open>None\<close> in the second component is the branch to \<open>error\<close>.
  The first component is the buffer as it is left in the list.
\<close>

definition frag_store ::
  "int \<Rightarrow> frag_frame \<Rightarrow> fragment \<Rightarrow> bool \<Rightarrow> int \<Rightarrow> int \<Rightarrow> buffer \<Rightarrow> (fragment \<times> buffer option) option" where
  "frag_store now frame frag last_frag n sz buf =
     (if sz AND FRAG_SIZE_ROUND_MASK \<noteq> 0 then Some (frag, None)
      else do {
        frag \<leftarrow> (if \<not> fr_defined frag \<or> max_frag_size frag \<noteq> sz then
                   (case buf_init_dowork (fr_buf frag) (frame_headroom frame) of
                      (ok, b) \<Rightarrow> do { ASSERT ok; Some (frag\<lparr>fr_defined := True, max_frag_size := sz,
                        fr_map := 0, fr_buf := b\<rparr>) })
                 else Some frag);
        (case buf_copy_range (fr_buf frag) (n * sz) buf 0 (b_len buf) of
           (False, b) \<Rightarrow> Some (frag\<lparr>fr_buf := b\<rparr>, None)
         | (True, b) \<Rightarrow>
             let frag = frag\<lparr>fr_buf := b,
                   fr_map := fr_map frag OR push_bit (nat n) (if last_frag then FRAG_MAP_MASK else 1),
                   fr_timestamp := now\<rparr> in
             if fr_map frag AND FRAG_MAP_MASK = FRAG_MAP_MASK
             then Some (frag\<lparr>fr_defined := False\<rparr>, Some b)
             else Some (frag, Some (buf\<lparr>b_len := 0\<rparr>))) })"

definition fragment_incoming ::
  "int \<Rightarrow> fragment_master \<Rightarrow> buffer \<Rightarrow> frag_frame \<Rightarrow> (fragment_master \<times> buffer) option" where
  "fragment_incoming now f buf frame =
     (if b_len buf > 0 then
        (case buf_read buf 4 of
           (None, buf) \<Rightarrow> Some (f, buf\<lparr>b_len := 0\<rparr>)
         | (Some w, buf) \<Rightarrow>
             let flags = ntohl w; frag_type = uint (flags AND FRAG_TYPE_MASK) in
             if frag_type = FRAG_WHOLE then
               (if flags AND (FRAG_SEQ_ID_MASK OR FRAG_ID_MASK) \<noteq> 0
                then Some (f, buf\<lparr>b_len := 0\<rparr>) else Some (f, buf))
             else if frag_type = FRAG_YES_NOTLAST \<or> frag_type = FRAG_YES_LAST then
               let seq_id = uint (drop_bit FRAG_SEQ_ID_SHIFT flags AND FRAG_SEQ_ID_MASK);
                   n = uint (drop_bit FRAG_ID_SHIFT flags AND FRAG_ID_MASK);
                   sz = (if frag_type = FRAG_YES_LAST
                     then uint (push_bit FRAG_SIZE_ROUND_SHIFT (drop_bit FRAG_SIZE_SHIFT flags AND FRAG_SIZE_MASK))
                     else b_len buf) in do {
                 (l, i) \<leftarrow> fragment_list_get_buf (fm_incoming f) seq_id;
                 (frag, out) \<leftarrow> frag_store now frame (fl_fragments l ! i) (frag_type = FRAG_YES_LAST) n sz buf;
                 Some (f\<lparr>fm_incoming := l\<lparr>fl_fragments := (fl_fragments l)[i := frag]\<rparr>\<rparr>,
                       case out of None \<Rightarrow> buf\<lparr>b_len := 0\<rparr> | Some b \<Rightarrow> b) }
             else Some (f, buf\<lparr>b_len := 0\<rparr>))
      else Some (f, buf))"

section \<open>Sending\<close>

definition fragment_prepend_flags :: "buffer \<Rightarrow> int \<Rightarrow> int \<Rightarrow> int \<Rightarrow> int \<Rightarrow> buffer option" where
  "fragment_prepend_flags buf typ seq_id frag_id frag_size =
     (let flags = (word_of_int typ AND FRAG_TYPE_MASK)
            OR push_bit FRAG_SEQ_ID_SHIFT (word_of_int seq_id AND FRAG_SEQ_ID_MASK)
            OR push_bit FRAG_ID_SHIFT (word_of_int frag_id AND FRAG_ID_MASK);
          flags = (if typ = FRAG_WHOLE \<or> typ = FRAG_YES_NOTLAST then flags
            else flags OR push_bit FRAG_SIZE_SHIFT
                   (word_of_int (drop_bit FRAG_SIZE_ROUND_SHIFT frag_size) AND FRAG_SIZE_MASK)) in
      case buf_write_prepend buf (htonl flags) of (ok, buf) \<Rightarrow> do { ASSERT ok; Some buf })"

definition optimal_fragment_size :: "int \<Rightarrow> int \<Rightarrow> int option" where
  "optimal_fragment_size len mx =
     (let mfs_aligned = mx AND NOT FRAG_SIZE_ROUND_MASK in
      if mfs_aligned = 0 then None
      else let d = len div mfs_aligned; m = len mod mfs_aligned in
        Some (if d > 0 \<and> m > 0 \<and> m < mfs_aligned * 3 div 4
              then min_int mfs_aligned ((mx - ((mx - m) div (d + 1)) + FRAG_SIZE_ROUND_MASK)
                     AND NOT FRAG_SIZE_ROUND_MASK)
              else mfs_aligned))"

definition fragment_ready_to_send ::
  "fragment_master \<Rightarrow> buffer \<Rightarrow> frag_frame \<Rightarrow> (bool \<times> fragment_master \<times> buffer) option" where
  "fragment_ready_to_send f buf frame =
     (if fragment_outgoing_defined f then do {
        let lst = (b_len (fm_outgoing f) \<le> outgoing_frag_size f);
        let sz = (if lst then b_len (fm_outgoing f) else outgoing_frag_size f);
        let (ok, buf) = buf_init_dowork (fm_outgoing_return f) (frame_headroom frame);
        ASSERT ok;
        let (ok, buf, out) = buf_copy_n buf (fm_outgoing f) sz;
        ASSERT ok;
        let f = f\<lparr>fm_outgoing := out, outgoing_frag_id := outgoing_frag_id f + 1\<rparr>;
        buf \<leftarrow> fragment_prepend_flags buf (if lst then FRAG_YES_LAST else FRAG_YES_NOTLAST)
                 (outgoing_seq_id f) (outgoing_frag_id f - 1) (outgoing_frag_size f);
        ASSERT (\<not> lst \<or> b_len (fm_outgoing f) = 0);
        Some (True, f, buf) }
      else Some (False, f, buf))"

definition fragment_outgoing ::
  "fragment_master \<Rightarrow> buffer \<Rightarrow> frag_frame \<Rightarrow> (fragment_master \<times> buffer) option" where
  "fragment_outgoing f buf frame =
     (if b_len buf > 0 then
        if b_len buf > max_fragment_size frame then do {
          sz \<leftarrow> optimal_fragment_size (b_len buf) (max_fragment_size frame);
          let f = f\<lparr>outgoing_frag_size := sz\<rparr>;
          if b_len buf > outgoing_frag_size f * MAX_FRAGS then Some (f, buf\<lparr>b_len := 0\<rparr>)
          else do {
            let (ok, out) = buf_init_dowork (fm_outgoing f) (frame_headroom frame);
            ASSERT ok;
            let (ok, out) = buf_copy out buf;
            ASSERT ok;
            seq \<leftarrow> modulo_add (outgoing_seq_id f) 1 N_SEQ_ID;
            let f = f\<lparr>fm_outgoing := out, outgoing_seq_id := seq, outgoing_frag_id := 0\<rparr>;
            (ok, f, buf) \<leftarrow> fragment_ready_to_send f (buf\<lparr>b_len := 0\<rparr>) frame;
            ASSERT ok;
            Some (f, buf) } }
        else do {
          buf \<leftarrow> fragment_prepend_flags buf FRAG_WHOLE 0 0 0;
          Some (f, buf) }
      else Some (f, buf))"

section \<open>Housekeeping\<close>

definition fragment_ttl_reap :: "int \<Rightarrow> fragment_master \<Rightarrow> fragment_master" where
  "fragment_ttl_reap now f = f\<lparr>fm_incoming := (fm_incoming f)\<lparr>fl_fragments := map
     (\<lambda>fr. if fr_defined fr \<and> fr_timestamp fr + FRAG_TTL_SEC \<le> now then fr\<lparr>fr_defined := False\<rparr> else fr)
     (fl_fragments (fm_incoming f))\<rparr>\<rparr>"

definition fragment_wakeup :: "int \<Rightarrow> fragment_master \<Rightarrow> fragment_master" where
  "fragment_wakeup now f = fragment_ttl_reap now f"

definition fragment_housekeeping ::
  "int \<Rightarrow> fragment_master \<Rightarrow> timeval \<Rightarrow> fragment_master \<times> timeval option" where
  "fragment_housekeeping now f tv =
     (case event_timeout_trigger now (fm_wakeup f) (Some tv) (-1) of
        (fired, et, tv) \<Rightarrow>
          let f = f\<lparr>fm_wakeup := et\<rparr> in (if fired then fragment_wakeup now f else f, tv))"

end
