(* ===== verification/Fragment_Props.thy ===== *)
theory Fragment_Props
  imports Fragment
begin

text \<open>
  Fragmentation is loss free: the size of the parts does not raise their number, the header is
  read back, and a datagram is returned, unchanged, by the receiver exactly when the last
  missing part arrives, in whatever order and however often the parts arrive.
\<close>

section \<open>The size of the parts\<close>

definition frags_needed :: "int \<Rightarrow> int \<Rightarrow> int" where
  "frags_needed len s = (len + s - 1) div s"

lemma align4: "x AND NOT FRAG_SIZE_ROUND_MASK = x - x mod 4" for x :: int
proof -
  have h: "2 \<le> n \<Longrightarrow> Suc (Suc (n - 2)) = n" for n :: nat by simp
  have "x AND NOT (mask 2) = push_bit 2 (drop_bit 2 x)"
    by (rule bit_eqI) (auto simp: bit_simps h)
  also have "\<dots> = x div 4 * 4" by (simp add: push_bit_eq_mult drop_bit_eq_div)
  also have "\<dots> = x - x mod 4" by (simp add: minus_mod_eq_div_mult)
  finally show ?thesis by (simp add: FRAG_SIZE_ROUND_MASK_def mask_eq_exp_minus_1)
qed

lemma round_mask_dvd: "x AND FRAG_SIZE_ROUND_MASK = 0 \<longleftrightarrow> 4 dvd x" for x :: int
proof -
  have "x AND FRAG_SIZE_ROUND_MASK = x mod 4"
    using take_bit_eq_mask[of 2 x] by (simp add: FRAG_SIZE_ROUND_MASK_def take_bit_eq_mod mask_eq_exp_minus_1)
  then show ?thesis by (simp add: dvd_eq_mod_eq_0)
qed

lemma frags_needed_eq: "0 < s \<Longrightarrow> (k - 1) * s < len \<Longrightarrow> len \<le> k * s \<Longrightarrow> frags_needed len s = k"
  unfolding frags_needed_def
  by (rule int_div_pos_eq[where r = "len + s - 1 - s * k"]) (auto simp: algebra_simps)

lemma frags_needed_bounds:
  assumes "0 < s" "0 < len"
  shows "(frags_needed len s - 1) * s < len" "len \<le> frags_needed len s * s"
proof -
  let ?q = "(len + s - 1) div s" and ?r = "(len + s - 1) mod s"
  have e: "len + s - 1 = ?q * s + ?r" by simp
  have r: "0 \<le> ?r" "?r < s" using assms by simp_all
  have "?q * s = len + s - 1 - ?r" using e by linarith
  then show "(frags_needed len s - 1) * s < len" "len \<le> frags_needed len s * s"
    using r by (simp_all add: frags_needed_def left_diff_distrib)
qed

text \<open>The arithmetic of evening out: \<open>d + 1\<close> parts of size \<open>y\<close> or \<open>A\<close> hold the datagram.\<close>

lemma even_out:
  fixes len d A m mx e y :: int
  assumes len: "len = d * A + m" and d: "0 < d" "0 < m" "m < A" "A \<le> mx"
    and e: "e * (d + 1) \<le> mx - m" and y: "mx - e \<le> y"
  shows "len \<le> (d + 1) * min A y" "d * min A y < len" "0 < min A y" "len \<le> (d + 1) * A" "d * A < len"
proof -
  have "d * A + m \<le> d * mx + m" using d by (simp add: mult_left_mono)
  also have "\<dots> \<le> (mx - e) * (d + 1)" using e by (simp add: algebra_simps)
  also have "\<dots> \<le> y * (d + 1)" using y d by (intro mult_right_mono) auto
  finally have l1: "len \<le> (d + 1) * y" using len by (simp add: mult.commute)
  show l2: "len \<le> (d + 1) * A" "d * A < len" using len d by (simp_all add: algebra_simps)
  show s: "len \<le> (d + 1) * min A y" using l1 l2(1) by (auto simp: min_def)
  have "d * min A y \<le> d * A" using d by (intro mult_left_mono) auto
  then show "d * min A y < len" using l2(2) by linarith
  have "0 < len" using l2(2) d by (meson less_trans mult_pos_pos)
  then have "0 < (d + 1) * min A y" using s by linarith
  then show "0 < min A y" using d by (simp add: zero_less_mult_iff)
qed

lemma div_lower: "0 < d \<Longrightarrow> (x div d) * d \<le> x" for x d :: int
  using div_mult_mod_eq[of x d] pos_mod_sign[of d x] by linarith

lemma round_up4: "y \<le> y + 3 - (y + 3) mod 4" for y :: int
  using pos_mod_bound[of 4 "y + 3"] by linarith

lemma optimal_size_ok:
  assumes "4 \<le> mx" "0 < len"
  shows "\<exists>s. optimal_fragment_size len mx = Some s \<and> 0 < s \<and> 4 dvd s \<and> s \<le> mx
    \<and> frags_needed len s = frags_needed len (mx - mx mod 4)"
proof -
  define A where "A = mx - mx mod 4"
  have A: "0 < A" "4 dvd A" "A \<le> mx"
    using assms(1) pos_mod_bound[of 4 mx] pos_mod_sign[of 4 mx] by (auto simp: A_def)
  define d where "d = len div A"
  define m where "m = len mod A"
  have lm: "len = d * A + m" "0 \<le> m" "m < A" using A(1) by (auto simp: d_def m_def)
  have opt: "optimal_fragment_size len mx = Some (if d > 0 \<and> m > 0 \<and> m < A * 3 div 4
      then min A ((mx - (mx - m) div (d + 1) + 3) - (mx - (mx - m) div (d + 1) + 3) mod 4) else A)"
    using A(1) unfolding optimal_fragment_size_def align4 Let_def A_def[symmetric] d_def[symmetric]
      m_def[symmetric] by (simp add: FRAG_SIZE_ROUND_MASK_def)
  show ?thesis
  proof (cases "d > 0 \<and> m > 0 \<and> m < A * 3 div 4")
    case False
    then show ?thesis using opt A unfolding A_def[symmetric] by auto
  next
    case True
    define e where "e = (mx - m) div (d + 1)"
    define y where "y = mx - e + 3 - (mx - e + 3) mod 4"
    have ee: "e * (d + 1) \<le> mx - m" unfolding e_def by (rule div_lower) (use True in simp)
    have yy: "mx - e \<le> y" unfolding y_def by (rule round_up4)
    have o: "optimal_fragment_size len mx = Some (min A y)"
      using True opt by (simp add: y_def e_def)
    note ev = even_out[OF lm(1) _ _ lm(3) A(3) ee yy]
    have "frags_needed len (min A y) = d + 1"
      by (rule frags_needed_eq) (use ev True in auto)
    moreover have "frags_needed len A = d + 1"
      by (rule frags_needed_eq) (use ev True A(1) in auto)
    moreover have "4 dvd y" by (simp add: y_def)
    then have "4 dvd min A y" using A(2) by (simp add: min_def)
    ultimately show ?thesis using o ev(3) True A(3) unfolding A_def[symmetric]
      by (intro exI[of _ "min A y"]) auto
  qed
qed

text \<open>
  C33. The choice of the size. For a limit of at least 4, \<open>optimal_fragment_size\<close> returns a
  positive multiple of 4 that is at most the limit, and the datagram is cut into exactly as many
  parts as with the largest aligned size: evening out the last part costs no packet.
\<close>

theorem optimal_fragment_size_correct:
  assumes "4 \<le> mx" "0 < len"
  shows "\<exists>s. optimal_fragment_size len mx = Some s \<and> 0 < s \<and> 4 dvd s \<and> s \<le> mx
    \<and> frags_needed len s = frags_needed len (mx - mx mod 4)"
  by (rule optimal_size_ok[OF assms])

lemma optimal_fragment_size_correct_witness:
  "\<exists>s. optimal_fragment_size 1500 1003 = Some s \<and> 4 dvd s \<and> frags_needed 1500 s = 2"
  using optimal_fragment_size_correct[of 1003 1500] by (auto simp: frags_needed_def)

section \<open>The header\<close>

lemma frag_masks:
  "x AND FRAG_TYPE_MASK = take_bit 2 x" "x AND FRAG_SEQ_ID_MASK = take_bit 8 x"
  "x AND FRAG_ID_MASK = take_bit 5 x" "x AND FRAG_SIZE_MASK = take_bit 14 x" for x :: u32
  by (simp_all add: take_bit_eq_mask mask_eq_exp_minus_1 FRAG_TYPE_MASK_def FRAG_SEQ_ID_MASK_def
      FRAG_ID_MASK_def FRAG_SIZE_MASK_def)

definition frag_header :: "int \<Rightarrow> int \<Rightarrow> int \<Rightarrow> int \<Rightarrow> u32" where
  "frag_header typ seq_id n sz = take_bit 2 (word_of_int typ) OR push_bit 2 (take_bit 8 (word_of_int seq_id))
     OR push_bit 10 (take_bit 5 (word_of_int n))
     OR (if typ = FRAG_WHOLE \<or> typ = FRAG_YES_NOTLAST then 0
         else push_bit 15 (take_bit 14 (word_of_int (drop_bit 2 sz))))"

lemma frag_fields:
  fixes t s n z :: u32
  defines "F \<equiv> take_bit 2 t OR push_bit 2 (take_bit 8 s) OR push_bit 10 (take_bit 5 n) OR push_bit 15 (take_bit 14 z)"
  shows "take_bit 2 F = take_bit 2 t" "take_bit 8 (drop_bit 2 F) = take_bit 8 s"
    "take_bit 5 (drop_bit 10 F) = take_bit 5 n" "take_bit 14 (drop_bit 15 F) = take_bit 14 z"
  unfolding F_def by (rule bit_word_eqI; auto simp: bit_simps)+

lemma uint_take_bit_id: "0 \<le> x \<Longrightarrow> x < 2 ^ k \<Longrightarrow> k < 32 \<Longrightarrow> uint (take_bit k (word_of_int x :: u32)) = x"
proof -
  assume a: "0 \<le> x" "x < 2 ^ k" "k < 32"
  have "uint (take_bit k (word_of_int x :: u32)) = take_bit k (uint (word_of_int x :: u32))"
    by (simp add: unsigned_take_bit_eq)
  also have "uint (word_of_int x :: u32) = take_bit 32 x" by (simp add: unsigned_of_int)
  also have "take_bit k (take_bit 32 x) = take_bit k x" using a(3) by (simp add: min_def)
  also have "\<dots> = x" using a by (simp add: take_bit_int_eq_self)
  finally show ?thesis .
qed

lemma frag_header_fields:
  assumes "0 \<le> typ" "typ < 3" "0 \<le> s" "s < 256" "0 \<le> n" "n < 32" "0 \<le> k" "k < 2 ^ 14"
  shows "uint (frag_header typ s n (4 * k) AND FRAG_TYPE_MASK) = typ"
    "uint (drop_bit FRAG_SEQ_ID_SHIFT (frag_header typ s n (4 * k)) AND FRAG_SEQ_ID_MASK) = s"
    "uint (drop_bit FRAG_ID_SHIFT (frag_header typ s n (4 * k)) AND FRAG_ID_MASK) = n"
    "typ = FRAG_YES_LAST \<Longrightarrow> uint (push_bit FRAG_SIZE_ROUND_SHIFT
       (drop_bit FRAG_SIZE_SHIFT (frag_header typ s n (4 * k)) AND FRAG_SIZE_MASK)) = 4 * k"
proof -
  define z where "z = (if typ = FRAG_WHOLE \<or> typ = FRAG_YES_NOTLAST then 0 else word_of_int k :: u32)"
  have "drop_bit 2 (4 * k) = k" by (simp add: drop_bit_eq_div)
  then have h: "frag_header typ s n (4 * k) = take_bit 2 (word_of_int typ) OR push_bit 2 (take_bit 8 (word_of_int s))
      OR push_bit 10 (take_bit 5 (word_of_int n)) OR push_bit 15 (take_bit 14 z)"
    by (simp add: frag_header_def z_def)
  note f = frag_fields[of "word_of_int typ" "word_of_int s" "word_of_int n" z]
  show "uint (frag_header typ s n (4 * k) AND FRAG_TYPE_MASK) = typ"
    unfolding frag_masks h f(1) by (rule uint_take_bit_id) (use assms in auto)
  show "uint (drop_bit FRAG_SEQ_ID_SHIFT (frag_header typ s n (4 * k)) AND FRAG_SEQ_ID_MASK) = s"
    unfolding frag_masks h FRAG_SEQ_ID_SHIFT_def f(2) by (rule uint_take_bit_id) (use assms in auto)
  show "uint (drop_bit FRAG_ID_SHIFT (frag_header typ s n (4 * k)) AND FRAG_ID_MASK) = n"
    unfolding frag_masks h FRAG_ID_SHIFT_def f(3) by (rule uint_take_bit_id) (use assms in auto)
  assume "typ = FRAG_YES_LAST"
  then have z: "z = word_of_int k" by (simp add: z_def FRAG_YES_LAST_def FRAG_WHOLE_def FRAG_YES_NOTLAST_def)
  have tk: "uint (take_bit 14 z) = k" unfolding z by (rule uint_take_bit_id) (use assms in auto)
  have "uint (push_bit 2 (take_bit 14 z)) = take_bit 32 (push_bit 2 k)"
    by (simp add: unsigned_push_bit_eq tk)
  also have "\<dots> = 4 * k" using assms(7,8) by (simp add: push_bit_eq_mult take_bit_int_eq_self mult.commute)
  finally show "uint (push_bit FRAG_SIZE_ROUND_SHIFT
       (drop_bit FRAG_SIZE_SHIFT (frag_header typ s n (4 * k)) AND FRAG_SIZE_MASK)) = 4 * k"
    unfolding frag_masks h FRAG_SIZE_SHIFT_def FRAG_SIZE_ROUND_SHIFT_def f(4) .
qed

lemma frag_prepend:
  assumes "buf_wf b" "4 \<le> buf_front b"
  shows "\<exists>b'. fragment_prepend_flags b typ s n sz = Some b' \<and> buf_wf b'
    \<and> buf_contents b' = htonl (frag_header typ s n sz) @ buf_contents b"
proof -
  let ?F = "(word_of_int typ AND FRAG_TYPE_MASK)
            OR push_bit FRAG_SEQ_ID_SHIFT (word_of_int s AND FRAG_SEQ_ID_MASK)
            OR push_bit FRAG_ID_SHIFT (word_of_int n AND FRAG_ID_MASK)"
  have e: "(if typ = FRAG_WHOLE \<or> typ = FRAG_YES_NOTLAST then ?F
            else ?F OR push_bit FRAG_SIZE_SHIFT (word_of_int (drop_bit FRAG_SIZE_ROUND_SHIFT sz) AND FRAG_SIZE_MASK))
      = frag_header typ s n sz"
    by (simp add: frag_header_def frag_masks FRAG_SEQ_ID_SHIFT_def FRAG_ID_SHIFT_def FRAG_SIZE_SHIFT_def
        FRAG_SIZE_ROUND_SHIFT_def or.assoc)
  obtain b' where "buf_write_prepend b (htonl (frag_header typ s n sz)) = (True, b')" "buf_wf b'"
    "buf_contents b' = htonl (frag_header typ s n sz) @ buf_contents b"
    using buf.prepend_room[OF assms(1), of "htonl (frag_header typ s n sz)"] assms(2) by auto
  then show ?thesis unfolding fragment_prepend_flags_def Let_def e by simp
qed

section \<open>The reassembly buffer of a sequence number\<close>

definition flist_ok :: "fragment_list \<Rightarrow> bool" where
  "flist_ok l \<longleftrightarrow> length (fl_fragments l) = 25 \<and> 0 \<le> fl_index l \<and> fl_index l < 25
     \<and> 0 \<le> fl_seq_id l \<and> fl_seq_id l < 256"

lemma modulo_subtract_range:
  assumes "0 \<le> x" "x < 256" "0 \<le> y" "y < 256"
  obtains d where "modulo_subtract x y N_SEQ_ID = Some d" "- 255 \<le> d" "d \<le> 255"
    "(y + d) mod 256 = x" "y + d < 256 \<or> y + d = x + 256" "x = y \<longrightarrow> d = 0"
proof -
  let ?d2 = "(if x > y then - 256 else 256) + (x - y)"
  let ?d = "if \<bar>x - y\<bar> > \<bar>?d2\<bar> then ?d2 else x - y"
  have "modulo_subtract x y N_SEQ_ID = Some ?d"
    using assms by (simp add: modulo_subtract_def N_SEQ_ID_def Let_def)
  moreover have "- 255 \<le> ?d" "?d \<le> 255" using assms by auto
  moreover have "y + ?d = x \<or> y + ?d = x + 256 \<or> y + ?d = x - 256" by auto
  then have "(y + ?d) mod 256 = x"
    using assms minus_mod_self2[of x 256] by (elim disjE) (simp_all only: mod_add_self2 mod_pos_pos_trivial)
  moreover have "y + ?d < 256 \<or> y + ?d = x + 256" using assms by auto
  moreover have "x = y \<longrightarrow> ?d = 0" by auto
  ultimately show ?thesis by (rule that)
qed

declare get_buf_advance.simps [simp del]

lemma modulo_add_small:
  "0 \<le> x \<Longrightarrow> x < m \<Longrightarrow> - m \<le> y \<Longrightarrow> y \<le> m \<Longrightarrow>
   \<exists>z. modulo_add x y m = Some z \<and> 0 \<le> z \<and> z < m \<and> z = (x + y) mod m"
  by (auto simp: modulo_add_mod)

lemma get_buf_advance_spec:
  assumes "flist_ok l" "0 \<le> d" "d \<le> 25"
  shows "\<exists>l'. get_buf_advance l d = Some l' \<and> flist_ok l' \<and> fl_seq_id l' = (fl_seq_id l + d) mod 256
    \<and> (\<forall>i < 25. fl_fragments l' ! i = fl_fragments l ! i \<or> \<not> fr_defined (fl_fragments l' ! i)
         \<and> fr_buf (fl_fragments l' ! i) = fr_buf (fl_fragments l ! i))
    \<and> (0 < d \<longrightarrow> \<not> fr_defined (fl_fragments l' ! nat (fl_index l')))"
  using assms
proof (induction l d rule: get_buf_advance.induct)
  case (1 l d)
  show ?case
  proof (cases "d > 0")
    case False
    then have "d = 0" using "1.prems" by simp
    then show ?thesis using "1.prems" by (subst get_buf_advance.simps) (auto simp: flist_ok_def)
  next
    case True
    obtain idx where idx: "modulo_add (fl_index l) 1 N_FRAG_BUF = Some idx" "0 \<le> idx" "idx < 25"
      using modulo_add_small[of "fl_index l" 25 1] "1.prems" by (auto simp: flist_ok_def N_FRAG_BUF_def)
    obtain seq where seq: "modulo_add (fl_seq_id l) 1 N_SEQ_ID = Some seq" "0 \<le> seq" "seq < 256"
      "seq = (fl_seq_id l + 1) mod 256"
      using modulo_add_small[of "fl_seq_id l" 256 1] "1.prems" by (auto simp: flist_ok_def N_SEQ_ID_def)
    let ?l = "l\<lparr>fl_index := idx, fl_seq_id := seq,
      fl_fragments := (fl_fragments l)[nat idx := (fl_fragments l ! nat idx)\<lparr>fr_defined := False\<rparr>]\<rparr>"
    have ok: "flist_ok ?l" using "1.prems"(1) idx seq by (simp add: flist_ok_def)
    have step: "get_buf_advance l d = get_buf_advance ?l (d - 1)"
      using True idx(1) seq(1) by (subst get_buf_advance.simps) simp
    have "0 \<le> d - 1" "d - 1 \<le> 25" using True "1.prems" by auto
    from "1.IH"[OF True idx(1) seq(1) ok this]
    obtain l' where l': "get_buf_advance ?l (d - 1) = Some l'" "flist_ok l'"
      "fl_seq_id l' = (seq + (d - 1)) mod 256"
      "\<forall>i < 25. fl_fragments l' ! i = fl_fragments ?l ! i \<or> \<not> fr_defined (fl_fragments l' ! i)
         \<and> fr_buf (fl_fragments l' ! i) = fr_buf (fl_fragments ?l ! i)"
      "0 < d - 1 \<longrightarrow> \<not> fr_defined (fl_fragments l' ! nat (fl_index l'))" by auto
    have len: "length (fl_fragments l) = 25" using "1.prems"(1) by (simp add: flist_ok_def)
    have frag: "fl_fragments ?l ! i = fl_fragments l ! i \<or> \<not> fr_defined (fl_fragments ?l ! i)
         \<and> fr_buf (fl_fragments ?l ! i) = fr_buf (fl_fragments l ! i)" if "i < 25" for i
      using that len by (cases "i = nat idx") (simp_all add: nth_list_update)
    have "fl_fragments l' ! i = fl_fragments l ! i \<or> \<not> fr_defined (fl_fragments l' ! i)
         \<and> fr_buf (fl_fragments l' ! i) = fr_buf (fl_fragments l ! i)" if "i < 25" for i
      using l'(4) frag[OF that] that by auto
    moreover have "\<not> fr_defined (fl_fragments l' ! nat (fl_index l'))"
    proof (cases "0 < d - 1")
      case False
      then have "l' = ?l" using l'(1) by (subst (asm) get_buf_advance.simps) auto
      then show ?thesis using len idx by (simp add: nth_list_update)
    qed (use l'(5) in blast)
    moreover have "(seq + (d - 1)) mod 256 = (fl_seq_id l + d) mod 256"
      unfolding seq(4) by (simp add: mod_simps)
    ultimately show ?thesis using step l' by auto
  qed
qed

text \<open>The buffer that is selected stays selected as long as the same sequence number is received.\<close>

lemma fragment_list_get_buf_spec:
  assumes ok: "flist_ok l" and s: "0 \<le> s" "s < 256"
  obtains l' i where "fragment_list_get_buf l s = Some (l', i)" "flist_ok l'" "i < 25"
    "\<forall>j < 25. fl_fragments l' ! j = fl_fragments l ! j \<or> \<not> fr_defined (fl_fragments l' ! j)
         \<and> fr_buf (fl_fragments l' ! j) = fr_buf (fl_fragments l ! j)"
    "\<And>frag. fragment_list_get_buf (l'\<lparr>fl_fragments := (fl_fragments l')[i := frag]\<rparr>) s
       = Some (l'\<lparr>fl_fragments := (fl_fragments l')[i := frag]\<rparr>, i)"
proof -
  obtain d where d: "modulo_subtract s (fl_seq_id l) N_SEQ_ID = Some d" "- 255 \<le> d" "d \<le> 255"
    "(fl_seq_id l + d) mod 256 = s"
    by (rule modulo_subtract_range[of s "fl_seq_id l"]) (use ok s in \<open>auto simp: flist_ok_def\<close>)
  have same: "fragment_list_get_buf (k\<lparr>fl_fragments := fs\<rparr>) s = Some (k\<lparr>fl_fragments := fs\<rparr>, nat (fl_index k))"
    if "flist_ok k" "fl_seq_id k = s" for k fs
  proof -
    have "modulo_subtract s s N_SEQ_ID = Some 0"
      using s by (simp add: modulo_subtract_def N_SEQ_ID_def Let_def)
    moreover have "modulo_add (fl_index k) 0 N_FRAG_BUF = Some (fl_index k)"
      using that(1) by (simp add: modulo_add_def N_FRAG_BUF_def flist_ok_def)
    ultimately show ?thesis using that(2)
      by (simp add: fragment_list_get_buf_def N_FRAG_BUF_def get_buf_advance.simps)
  qed
  show ?thesis
  proof (cases "\<bar>d\<bar> \<ge> 25")
    case True
    let ?l = "l\<lparr>fl_fragments := map (\<lambda>fr. fr\<lparr>fr_defined := False\<rparr>) (fl_fragments l), fl_index := 0, fl_seq_id := s\<rparr>"
    have "fragment_list_get_buf l s = Some (?l, 0)"
      using d(1) True by (simp add: fragment_list_get_buf_def N_FRAG_BUF_def get_buf_advance.simps modulo_add_def)
    moreover have "flist_ok ?l" using ok s by (simp add: flist_ok_def)
    ultimately show ?thesis using that[of ?l 0] same[of ?l] ok by (simp add: flist_ok_def)
  next
    case small: False
    show ?thesis
    proof (cases "0 < d")
      case True
      from get_buf_advance_spec[OF ok, of d] True small
      obtain l' where l': "get_buf_advance l d = Some l'" "flist_ok l'" "fl_seq_id l' = s"
        "\<forall>j < 25. fl_fragments l' ! j = fl_fragments l ! j \<or> \<not> fr_defined (fl_fragments l' ! j)
         \<and> fr_buf (fl_fragments l' ! j) = fr_buf (fl_fragments l ! j)" using d(4) by auto
      have "modulo_add (fl_index l') 0 N_FRAG_BUF = Some (fl_index l')"
        using l'(2) by (simp add: modulo_add_def N_FRAG_BUF_def flist_ok_def)
      then have "fragment_list_get_buf l s = Some (l', nat (fl_index l'))"
        using d(1) True small l'(1) by (simp add: fragment_list_get_buf_def N_FRAG_BUF_def)
      then show ?thesis using that l'(2,4) same[OF l'(2,3)] by (simp add: flist_ok_def nat_less_iff)
    next
      case False
      have adv: "get_buf_advance k d = Some k" for k using False by (simp add: get_buf_advance.simps)
      obtain z where z: "modulo_add (fl_index l) d N_FRAG_BUF = Some z" "0 \<le> z" "z < 25"
        using modulo_add_small[of "fl_index l" 25 d] ok small False by (auto simp: flist_ok_def N_FRAG_BUF_def)
      have g: "fragment_list_get_buf (l\<lparr>fl_fragments := fs\<rparr>) s = Some (l\<lparr>fl_fragments := fs\<rparr>, nat z)" for fs
        using d(1) small False z(1) adv by (simp add: fragment_list_get_buf_def N_FRAG_BUF_def)
      show ?thesis using that[of l "nat z"] g[of "fl_fragments l"] g z ok by simp
    qed
  qed
qed

section \<open>Joining the parts\<close>

definition chunk :: "bytes \<Rightarrow> nat \<Rightarrow> nat \<Rightarrow> bytes" where
  "chunk D fs i = take fs (drop (i * fs) D)"

text \<open>A datagram \<open>D\<close> cut into \<open>k\<close> parts of size \<open>fs\<close>.\<close>

definition frag_cut :: "bytes \<Rightarrow> nat \<Rightarrow> nat \<Rightarrow> bool" where
  "frag_cut D fs k \<longleftrightarrow> 0 < fs \<and> 4 dvd fs \<and> fs < 4 * 2 ^ 14 \<and> 0 < k \<and> k \<le> 32
     \<and> (k - 1) * fs < length D \<and> length D \<le> k * fs"

lemma chunk_end: "frag_cut D fs k \<Longrightarrow> i < k \<Longrightarrow> i * fs + length (chunk D fs i) \<le> length D"
  "frag_cut D fs k \<Longrightarrow> i < k \<Longrightarrow> 0 < length (chunk D fs i)"
proof -
  assume c: "frag_cut D fs k" and i: "i < k"
  have "i * fs \<le> (k - 1) * fs" using i by (intro mult_right_mono) auto
  then have "i * fs < length D" using c unfolding frag_cut_def by linarith
  then show "i * fs + length (chunk D fs i) \<le> length D" "0 < length (chunk D fs i)"
    using c by (auto simp: chunk_def frag_cut_def)
qed

lemma chunk_full: "frag_cut D fs k \<Longrightarrow> i < k - 1 \<Longrightarrow> length (chunk D fs i) = fs"
proof -
  assume c: "frag_cut D fs k" and i: "i < k - 1"
  have "Suc i * fs \<le> (k - 1) * fs" using i by (intro mult_right_mono) auto
  then show ?thesis using c by (auto simp: chunk_def frag_cut_def)
qed

lemma chunk_last: "frag_cut D fs k \<Longrightarrow> (k - 1) * fs + length (chunk D fs (k - 1)) = length D"
proof -
  assume c: "frag_cut D fs k"
  then have "k * fs = (k - 1) * fs + fs" by (cases k) (auto simp: frag_cut_def)
  then show ?thesis using c by (auto simp: chunk_def frag_cut_def)
qed

lemma nth_poke: "nat p + length bs \<le> length d \<Longrightarrow> q < length d \<Longrightarrow>
  poke d p bs ! q = (if nat p \<le> q \<and> q < nat p + length bs then bs ! (q - nat p) else d ! q)"
  by (auto simp: poke_def nth_append min_def add.commute)

text \<open>What a reassembly buffer holds after the parts with the numbers in \<open>S\<close>.\<close>

definition frag_room :: "int \<Rightarrow> bytes \<Rightarrow> buffer \<Rightarrow> bool" where
  "frag_room hr D b \<longleftrightarrow> (\<exists>d. b_data b = Some d \<and> int (length d) = b_capacity b)
     \<and> b_capacity b < BUF_SIZE_MAX \<and> 0 \<le> hr \<and> hr + int (length D) \<le> b_capacity b"

lemma frag_room_code [code]:
  "frag_room hr D b \<longleftrightarrow> (case b_data b of None \<Rightarrow> False | Some d \<Rightarrow> int (length d) = b_capacity b)
     \<and> b_capacity b < BUF_SIZE_MAX \<and> 0 \<le> hr \<and> hr + int (length D) \<le> b_capacity b"
  by (simp add: frag_room_def split: option.split)

definition frag_bytes :: "int \<Rightarrow> nat \<Rightarrow> bytes \<Rightarrow> nat set \<Rightarrow> buffer \<Rightarrow> bool" where
  "frag_bytes hr fs D S b \<longleftrightarrow> frag_room hr D b \<and> b_offset b = hr \<and> 0 \<le> b_len b \<and> b_len b \<le> int (length D)
     \<and> (\<forall>i \<in> S. int (i * fs + length (chunk D fs i)) \<le> b_len b)
     \<and> (\<forall>j < length D. j div fs \<in> S \<longrightarrow> the (b_data b) ! (nat hr + j) = D ! j)"

definition frag_hold :: "int \<Rightarrow> nat \<Rightarrow> bytes \<Rightarrow> nat \<Rightarrow> nat set \<Rightarrow> fragment \<Rightarrow> bool" where
  "frag_hold hr fs D k S fr \<longleftrightarrow>
     (if S = {} then \<not> fr_defined fr \<and> buf_wf (fr_buf fr) \<and> frag_room hr D (fr_buf fr)
      else fr_defined fr \<and> max_frag_size fr = int fs \<and> frag_bytes hr fs D S (fr_buf fr)
        \<and> (\<forall>j < 32. bit (fr_map fr) j \<longleftrightarrow> j \<in> S \<or> k - 1 \<in> S \<and> k - 1 \<le> j))"

lemma buf_copy_range_all:
  assumes d: "b_data dest = Some d" and s: "buf_wf s" and i: "0 \<le> i"
    and fit: "b_offset dest + i + b_len s \<le> b_capacity dest"
  shows "buf_copy_range dest i s 0 (b_len s) = (True, dest\<lparr>
    b_data := Some (poke d (b_offset dest + i) (buf_contents s)), b_len := max (b_len dest) (i + b_len s)\<rparr>)"
proof -
  obtain ds where ds: "b_data s = Some ds" "0 \<le> b_len s" using s by (rule buf_wf_E)
  show ?thesis using d ds i fit buf_contents_wf[OF s ds(1)]
    by (simp add: buf_copy_range_def buf_poke_def Let_def max_def)
qed

lemma frag_copy:
  assumes cut: "frag_cut D fs k" and fb: "frag_bytes hr fs D S b" and i: "i < k"
    and src: "buf_wf s" "buf_contents s = chunk D fs i"
  shows "\<exists>b'. buf_copy_range b (int i * int fs) s 0 (b_len s) = (True, b') \<and> frag_bytes hr fs D (insert i S) b'"
proof -
  obtain d where d: "b_data b = Some d" "int (length d) = b_capacity b"
    using fb by (auto simp: frag_bytes_def frag_room_def)
  have hr: "0 \<le> hr" "hr + int (length D) \<le> b_capacity b" "b_offset b = hr"
    using fb by (auto simp: frag_bytes_def frag_room_def)
  let ?c = "chunk D fs i"
  note e = chunk_end[OF cut i]
  have ls: "b_len s = int (length ?c)" using length_buf_contents[OF src(1)] src(2) by simp
  let ?p = "hr + int i * int fs"
  have np: "nat ?p = nat hr + i * fs" using hr(1) by (simp add: nat_add_distrib nat_mult_distrib)
  have fit: "nat ?p + length ?c \<le> length d"
  proof -
    define X where "X = i * fs + length ?c"
    have "X \<le> length D" using e(1) by (simp add: X_def)
    then have "nat hr + X \<le> length d" using hr d(2) by linarith
    then show ?thesis unfolding np X_def by (simp only: add.assoc)
  qed
  let ?n = "int i * int fs + int (length ?c)"
  have n0: "0 \<le> ?n" by simp
  have "int (i * fs + length ?c) \<le> int (length D)" using e(1) by (simp only: of_nat_le_iff)
  then have nD: "?n \<le> int (length D)" by (simp only: of_nat_add of_nat_mult)
  then have cap: "hr + int i * int fs + int (length ?c) \<le> b_capacity b" using hr(2) by linarith
  let ?b = "b\<lparr>b_data := Some (poke d ?p ?c), b_len := max (b_len b) ?n\<rparr>"
  have "buf_copy_range b (int i * int fs) s 0 (b_len s) = (True, ?b)"
    using buf_copy_range_all[OF d(1) src(1), of "int i * int fs"] cap hr(3) ls src(2) by simp
  moreover have "frag_bytes hr fs D (insert i S) ?b"
  proof -
    have "poke d ?p ?c ! (nat hr + j) = D ! j" if j: "j < length D" "j div fs \<in> insert i S" for j
    proof -
      have lt: "nat hr + j < length d" using j(1) hr d(2) by linarith
      have np2: "(nat ?p \<le> nat hr + j \<and> nat hr + j < nat ?p + length ?c) \<longleftrightarrow> i * fs \<le> j \<and> j < i * fs + length ?c"
        unfolding np by linarith
      show ?thesis
      proof (cases "i * fs \<le> j \<and> j < i * fs + length ?c")
        case True
        then have "poke d ?p ?c ! (nat hr + j) = ?c ! (j - i * fs)"
          using nth_poke[OF fit lt] np2 by (simp add: np)
        also have "\<dots> = D ! j" using True by (auto simp: chunk_def)
        finally show ?thesis .
      next
        case False
        have "j div fs \<noteq> i"
        proof
          assume q: "j div fs = i"
          have "0 < fs" using cut by (simp add: frag_cut_def)
          then have "j div fs * fs \<le> j" "j < fs + j div fs * fs"
            using dividend_less_div_times[of fs j] by simp_all
          then have "i * fs \<le> j" "j < i * fs + fs" unfolding q by simp_all
          then show False using False j(1) by (auto simp: chunk_def)
        qed
        then have "j div fs \<in> S" using j(2) by auto
        moreover have "poke d ?p ?c ! (nat hr + j) = d ! (nat hr + j)"
          using nth_poke[OF fit lt] False unfolding np2 by (simp only: if_False)
        ultimately show ?thesis using fb d(1) j(1) by (simp add: frag_bytes_def)
      qed
    qed
    moreover have "int (length (poke d ?p ?c)) = b_capacity b" using fit d(2) by simp
    moreover have "\<forall>j \<in> insert i S. int (j * fs + length (chunk D fs j)) \<le> max (b_len b) ?n"
      using fb by (auto simp: frag_bytes_def le_max_iff_disj)
    ultimately show ?thesis using fb nD max.coboundedI2[OF n0, of "b_len b"]
      by (simp add: frag_bytes_def frag_room_def)
  qed
  ultimately show ?thesis by blast
qed

lemma frag_complete:
  assumes cut: "frag_cut D fs k" and fb: "frag_bytes hr fs D {..<k} b"
  shows "buf_wf b" "buf_contents b = D"
proof -
  obtain d where d: "b_data b = Some d" "int (length d) = b_capacity b"
    using fb by (auto simp: frag_bytes_def frag_room_def)
  have hr: "0 \<le> hr" "hr + int (length D) \<le> b_capacity b" "b_offset b = hr" "b_len b \<le> int (length D)"
    "b_capacity b < BUF_SIZE_MAX"
    using fb by (auto simp: frag_bytes_def frag_room_def)
  have "k - 1 \<in> {..<k}" using cut by (simp add: frag_cut_def)
  then have "int ((k - 1) * fs + length (chunk D fs (k - 1))) \<le> b_len b"
    using fb unfolding frag_bytes_def by blast
  then have len: "b_len b = int (length D)" using chunk_last[OF cut] hr(4) by linarith
  have ld: "nat hr + length D \<le> length d" using hr d(2) by linarith
  show wf: "buf_wf b" using d hr len by (simp add: buf_wf_def)
  have "peek d hr (length D) = D"
  proof (rule nth_equalityI)
    show "length (peek d hr (length D)) = length D" using ld by (simp add: peek_def)
    fix j assume "j < length (peek d hr (length D))"
    then have j: "j < length D" using ld by (simp add: peek_def)
    have "j < k * fs" using j cut by (simp add: frag_cut_def)
    then have "j div fs < k" using cut by (simp add: frag_cut_def less_mult_imp_div_less)
    then have "d ! (nat hr + j) = D ! j" using fb j d(1) by (simp add: frag_bytes_def)
    then show "peek d hr (length D) ! j = D ! j" using j ld by (simp add: peek_def)
  qed
  then show "buf_contents b = D" using buf_contents_wf[OF wf d(1)] hr(3) len by simp
qed

text \<open>One part arrives: either parts are still missing, or the datagram is complete.\<close>

lemma frag_map_step:
  assumes "k \<le> 32" "i < k" "S \<subset> {..<k}"
    and m: "\<forall>j < 32. bit m j \<longleftrightarrow> j \<in> S \<or> k - 1 \<in> S \<and> k - 1 \<le> j"
  defines "m' \<equiv> m OR push_bit i (if i = k - 1 then FRAG_MAP_MASK else (1::u32))"
  shows "\<forall>j < 32. bit m' j \<longleftrightarrow> j \<in> insert i S \<or> k - 1 \<in> insert i S \<and> k - 1 \<le> j"
    "m' AND FRAG_MAP_MASK = FRAG_MAP_MASK \<longleftrightarrow> insert i S = {..<k}"
proof -
  have full: "FRAG_MAP_MASK = - 1" by (simp add: FRAG_MAP_MASK_def)
  have one: "bit (push_bit i (1::u32)) j \<longleftrightarrow> j = i" if "j < 32" for j
    using that by (auto simp: bit_simps bit_1_iff)
  have all: "bit (push_bit i (- 1 :: u32)) j \<longleftrightarrow> i \<le> j" if "j < 32" for j
    using that by (auto simp: bit_simps)
  show b: "\<forall>j < 32. bit m' j \<longleftrightarrow> j \<in> insert i S \<or> k - 1 \<in> insert i S \<and> k - 1 \<le> j"
    unfolding m'_def bit_or_iff full using m one all by auto
  have "m' AND FRAG_MAP_MASK = FRAG_MAP_MASK \<longleftrightarrow> (\<forall>j < 32. bit m' j)"
  proof -
    have "m' AND FRAG_MAP_MASK = FRAG_MAP_MASK \<longleftrightarrow> m' = - 1" by (simp add: full)
    also have "\<dots> \<longleftrightarrow> (\<forall>j < 32. bit m' j)" by (auto simp: bit_eq_iff bit_simps)
    finally show ?thesis .
  qed
  also have "\<dots> \<longleftrightarrow> insert i S = {..<k}"
  proof
    assume a: "\<forall>j < 32. bit m' j"
    have "j \<in> insert i S" if "j < k" for j
    proof -
      have "j \<in> insert i S \<or> k - 1 \<in> insert i S \<and> k - 1 \<le> j" using a b that assms(1) by auto
      then show ?thesis using that by (metis Suc_pred' diff_le_self le_antisym less_Suc_eq_le not_gr_zero not_less0)
    qed
    then show "insert i S = {..<k}" using assms(2,3) by auto
  next
    assume "insert i S = {..<k}"
    then show "\<forall>j < 32. bit m' j" using b assms(2) by auto
  qed
  finally show "m' AND FRAG_MAP_MASK = FRAG_MAP_MASK \<longleftrightarrow> insert i S = {..<k}" .
qed

lemma frag_begin:
  assumes h: "frag_hold hr fs D k {} fr" and frame: "frame_headroom frame = hr"
  obtains b where "buf_init_dowork (fr_buf fr) hr = (True, b)" "frag_bytes hr fs D {} b"
proof -
  have w: "buf_wf (fr_buf fr)" "frag_room hr D (fr_buf fr)" using h by (auto simp: frag_hold_def)
  have ok: "0 \<le> hr" "hr \<le> b_capacity (fr_buf fr)" using w(2) by (auto simp: frag_room_def)
  obtain ok' b where b: "buf_init_dowork (fr_buf fr) hr = (ok', b)" by (metis surj_pair)
  then have "ok'" using buf_init_ok[OF w(1), of hr] ok by simp
  then have "frag_bytes hr fs D {} b"
    using b w(2) by (auto simp: buf_init_dowork_def frag_bytes_def frag_room_def split: if_splits)
  then show ?thesis using that b \<open>ok'\<close> by simp
qed

lemma frag_store_step:
  assumes cut: "frag_cut D fs k" and h: "frag_hold hr fs D k S fr" and S: "S \<subset> {..<k}" and i: "i < k"
    and src: "buf_wf s" "buf_contents s = chunk D fs i" and frame: "frame_headroom frame = hr"
  shows "\<exists>fr' out. frag_store now frame fr (i = k - 1) (int i) (int fs) s = Some (fr', Some out)
    \<and> (if insert i S = {..<k} then buf_wf out \<and> buf_contents out = D \<and> \<not> fr_defined fr'
       else b_len out = 0 \<and> frag_hold hr fs D k (insert i S) fr')"
proof -
  have al: "\<not> (int fs AND FRAG_SIZE_ROUND_MASK \<noteq> 0)"
    using cut by (simp add: round_mask_dvd frag_cut_def int_dvd_int_iff[symmetric])
  obtain fr0 where fr0: "(if \<not> fr_defined fr \<or> max_frag_size fr \<noteq> int fs then
       (case buf_init_dowork (fr_buf fr) (frame_headroom frame) of
          (ok, b) \<Rightarrow> do { ASSERT ok; Some (fr\<lparr>fr_defined := True, max_frag_size := int fs, fr_map := 0, fr_buf := b\<rparr>) })
     else Some fr) = Some fr0" "fr_defined fr0" "max_frag_size fr0 = int fs" "frag_bytes hr fs D S (fr_buf fr0)"
    "\<forall>j < 32. bit (fr_map fr0) j \<longleftrightarrow> j \<in> S \<or> k - 1 \<in> S \<and> k - 1 \<le> j"
  proof (cases "S = {}")
    case True
    obtain b where b: "buf_init_dowork (fr_buf fr) hr = (True, b)" "frag_bytes hr fs D {} b"
      by (rule frag_begin[OF h[unfolded True] frame])
    then show ?thesis
      using that[of "fr\<lparr>fr_defined := True, max_frag_size := int fs, fr_map := 0, fr_buf := b\<rparr>"] h True
      by (simp add: frag_hold_def frame)
  next
    case False
    then show ?thesis using that[of fr] h by (simp add: frag_hold_def)
  qed
  obtain b where b: "buf_copy_range (fr_buf fr0) (int i * int fs) s 0 (b_len s) = (True, b)"
    "frag_bytes hr fs D (insert i S) b"
    using frag_copy[OF cut fr0(4) i src] by blast
  let ?m = "fr_map fr0 OR push_bit i (if i = k - 1 then FRAG_MAP_MASK else 1)"
  let ?fr = "fr0\<lparr>fr_buf := b, fr_map := ?m, fr_timestamp := now\<rparr>"
  note m = frag_map_step[OF _ i S fr0(5)]
  have k: "k \<le> 32" using cut by (simp add: frag_cut_def)
  have st: "frag_store now frame fr (i = k - 1) (int i) (int fs) s =
     (if ?m AND FRAG_MAP_MASK = FRAG_MAP_MASK then Some (?fr\<lparr>fr_defined := False\<rparr>, Some b)
      else Some (?fr, Some (s\<lparr>b_len := 0\<rparr>)))"
    unfolding frag_store_def if_not_P[OF al] fr0(1) by (simp add: b(1) Let_def)
  show ?thesis
  proof (cases "insert i S = {..<k}")
    case True
    then show ?thesis using st m(2)[OF k] frag_complete[OF cut] b(2) by simp
  next
    case False
    then have "frag_hold hr fs D k (insert i S) ?fr"
      using fr0(2,3) b(2) m(1)[OF k] by (simp add: frag_hold_def)
    then show ?thesis using st m(2)[OF k] False by simp
  qed
qed

section \<open>A fragmented datagram on the wire\<close>

definition frag_wire :: "bytes \<Rightarrow> nat \<Rightarrow> nat \<Rightarrow> int \<Rightarrow> nat \<Rightarrow> bytes" where
  "frag_wire D fs k seq i =
     htonl (frag_header (if i = k - 1 then FRAG_YES_LAST else FRAG_YES_NOTLAST) seq (int i) (int fs)) @ chunk D fs i"

text \<open>The state of the receiver for one sequence number: which buffer it selects, and what that holds.\<close>

definition frag_state :: "int \<Rightarrow> nat \<Rightarrow> bytes \<Rightarrow> nat \<Rightarrow> int \<Rightarrow> nat set \<Rightarrow> fragment_master \<Rightarrow> bool" where
  "frag_state hr fs D k seq S f \<longleftrightarrow> flist_ok (fm_incoming f)
     \<and> (\<exists>l i. fragment_list_get_buf (fm_incoming f) seq = Some (l, i) \<and> i < 25 \<and> flist_ok l
          \<and> frag_hold hr fs D k S (fl_fragments l ! i)
          \<and> (\<forall>fr. fragment_list_get_buf (l\<lparr>fl_fragments := (fl_fragments l)[i := fr]\<rparr>) seq
               = Some (l\<lparr>fl_fragments := (fl_fragments l)[i := fr]\<rparr>, i)))"

lemma fragment_incoming_step:
  assumes cut: "frag_cut D fs k" and st: "frag_state hr fs D k seq S f" and S: "S \<subset> {..<k}" and i: "i < k"
    and seq: "0 \<le> seq" "seq < 256" and frame: "frame_headroom frame = hr"
    and src: "buf_wf s" "buf_contents s = frag_wire D fs k seq i"
  shows "\<exists>f' out. fragment_incoming now f s frame = Some (f', out)
    \<and> (if insert i S = {..<k} then buf_wf out \<and> buf_contents out = D
       else b_len out = 0 \<and> frag_state hr fs D k seq (insert i S) f')"
proof -
  let ?t = "if i = k - 1 then FRAG_YES_LAST else FRAG_YES_NOTLAST"
  let ?h = "frag_header ?t seq (int i) (int fs)"
  obtain q where q: "fs = 4 * q" using cut by (auto simp: frag_cut_def)
  have t: "0 \<le> ?t" "?t < 3" "?t \<noteq> FRAG_WHOLE" "?t = FRAG_YES_NOTLAST \<or> ?t = FRAG_YES_LAST"
    "?t = FRAG_YES_LAST \<longleftrightarrow> i = k - 1"
    by (auto simp: FRAG_YES_LAST_def FRAG_YES_NOTLAST_def FRAG_WHOLE_def)
  have b32: "0 \<le> int i" "int i < 32" "0 \<le> int q" "int q < 2 ^ 14"
    using i cut q by (auto simp: frag_cut_def)
  have fsq: "int fs = 4 * int q" by (simp add: q)
  note hf = frag_header_fields[OF t(1,2) seq b32, folded fsq]
  obtain s1 where s1: "buf_read s 4 = (Some (htonl ?h), s1)" "buf_wf s1" "buf_contents s1 = chunk D fs i"
    using buf.read_prefix[OF src(1), of "htonl ?h" "chunk D fs i"] src(2)
    by (metis frag_wire_def length_htonl)
  have pos: "b_len s > 0" using length_buf_contents[OF src(1)] src(2) by (simp add: frag_wire_def)
  have size: "(if ?t = FRAG_YES_LAST then uint (push_bit FRAG_SIZE_ROUND_SHIFT
      (drop_bit FRAG_SIZE_SHIFT ?h AND FRAG_SIZE_MASK)) else b_len s1) = int fs"
  proof (cases "i = k - 1")
    case True
    then show ?thesis using hf(4) t(5) by simp
  next
    case False
    then have "b_len s1 = int fs"
      using chunk_full[OF cut, of i] length_buf_contents[OF s1(2)] s1(3) i by simp
    then show ?thesis using False t(5) by simp
  qed
  obtain l j where l: "fragment_list_get_buf (fm_incoming f) seq = Some (l, j)" "j < 25" "flist_ok l"
    "frag_hold hr fs D k S (fl_fragments l ! j)"
    and again: "\<And>fr. fragment_list_get_buf (l\<lparr>fl_fragments := (fl_fragments l)[j := fr]\<rparr>) seq
               = Some (l\<lparr>fl_fragments := (fl_fragments l)[j := fr]\<rparr>, j)"
    using st by (auto simp: frag_state_def)
  obtain fr out where fo: "frag_store now frame (fl_fragments l ! j) (i = k - 1) (int i) (int fs) s1 = Some (fr, Some out)"
    "if insert i S = {..<k} then buf_wf out \<and> buf_contents out = D \<and> \<not> fr_defined fr
       else b_len out = 0 \<and> frag_hold hr fs D k (insert i S) fr"
    using frag_store_step[OF cut l(4) S i s1(2,3) frame, of now] by blast
  let ?l = "l\<lparr>fl_fragments := (fl_fragments l)[j := fr]\<rparr>"
  have step: "fragment_incoming now f s frame = Some (f\<lparr>fm_incoming := ?l\<rparr>, out)"
    using pos s1(1) t(3,4) l(1) fo(1) unfolding fragment_incoming_def
    by (simp only: if_True prod.case option.case ntohl_htonl Let_def hf(1-3) size[unfolded t(5)] if_False t(5) simp_thms
        Option.bind.simps)
  have "flist_ok ?l" "j < length (fl_fragments l)" using l(2,3) by (auto simp: flist_ok_def)
  then have "frag_state hr fs D k seq (insert i S) (f\<lparr>fm_incoming := ?l\<rparr>)" if "frag_hold hr fs D k (insert i S) fr"
    using that again[of fr] again l(2) by (auto simp: frag_state_def)
  then show ?thesis using step fo(2) by auto
qed

section \<open>Sending a datagram\<close>

lemma fragment_ready_step:
  assumes cut: "frag_cut D fs k" and i: "i < k"
    and f: "buf_wf (fm_outgoing f)" "buf_contents (fm_outgoing f) = drop (i * fs) D"
      "outgoing_frag_id f = int i" "outgoing_frag_size f = int fs"
    and ret: "buf_wf (fm_outgoing_return f)" "4 \<le> frame_headroom frame"
      "frame_headroom frame + int fs \<le> b_capacity (fm_outgoing_return f)"
  shows "\<exists>f' b'. fragment_ready_to_send f b frame = Some (True, f', b') \<and> buf_wf b'
    \<and> buf_contents b' = frag_wire D fs k (outgoing_seq_id f) i
    \<and> buf_wf (fm_outgoing f') \<and> buf_contents (fm_outgoing f') = drop (Suc i * fs) D
    \<and> outgoing_frag_id f' = int (Suc i) \<and> outgoing_frag_size f' = int fs
    \<and> fm_outgoing_return f' = fm_outgoing_return f \<and> outgoing_seq_id f' = outgoing_seq_id f"
proof -
  have len: "b_len (fm_outgoing f) = int (length D - i * fs)"
    using length_buf_contents[OF f(1)] f(2) by simp
  have ch: "chunk D fs i = take fs (drop (i * fs) D)" by (simp add: chunk_def)
  have pos: "0 < length D - i * fs" using chunk_end(2)[OF cut i] by (auto simp: chunk_def)
  have lst: "b_len (fm_outgoing f) \<le> int fs \<longleftrightarrow> i = k - 1"
  proof
    assume "i = k - 1"
    then have "k * fs = i * fs + fs" using i by (cases k) auto
    then have "length D - i * fs \<le> fs" using cut unfolding frag_cut_def by linarith
    then show "b_len (fm_outgoing f) \<le> int fs" unfolding len by (simp only: of_nat_le_iff)
  next
    assume a: "b_len (fm_outgoing f) \<le> int fs"
    show "i = k - 1"
    proof (rule ccontr)
      assume "i \<noteq> k - 1"
      then have "Suc i * fs \<le> (k - 1) * fs" using i by (intro mult_right_mono) auto
      then have "Suc i * fs < length D" using cut unfolding frag_cut_def by linarith
      moreover have "length D - i * fs \<le> fs" using a unfolding len by (simp only: of_nat_le_iff)
      ultimately show False by simp
    qed
  qed
  let ?n = "length (chunk D fs i)"
  have n: "(if i = k - 1 then b_len (fm_outgoing f) else int fs) = int ?n"
    using lst len by (auto simp: ch min_def)
  have nfs: "?n \<le> fs" by (simp add: ch)
  obtain ok r where r: "buf_init_dowork (fm_outgoing_return f) (frame_headroom frame) = (ok, r)" by (metis surj_pair)
  then have ok using buf_init_ok[OF ret(1), of "frame_headroom frame"] ret by simp
  note rw = buf_init_wf[OF ret(1) r[unfolded this[THEN eqTrueI]]]
  have room: "?n \<le> buf_back r" using rw ret(3) nfs by simp
  have le: "?n \<le> length (buf_contents (fm_outgoing f))" using f(2) by (simp add: ch)
  obtain r' out where c: "buf_copy_n r (fm_outgoing f) (int ?n) = (True, r', out)" "buf_wf r'" "buf_wf out"
    "buf_contents r' = take ?n (buf_contents (fm_outgoing f))"
    "buf_contents out = drop ?n (buf_contents (fm_outgoing f))" "buf_front r' = buf_front r"
    by (rule buf_copy_n_wf[OF _ _ f(1) le room]) (use rw in auto)
  have cr: "buf_contents r' = chunk D fs i" "buf_contents out = drop (Suc i * fs) D"
    using c(4,5) f(2) by (auto simp: ch min_def add.commute)
  have fr: "4 \<le> buf_front r'" using c(6) rw ret(2) by simp
  let ?t = "if i = k - 1 then FRAG_YES_LAST else FRAG_YES_NOTLAST"
  obtain b' where b': "fragment_prepend_flags r' ?t (outgoing_seq_id f) (int i) (int fs) = Some b'" "buf_wf b'"
    "buf_contents b' = htonl (frag_header ?t (outgoing_seq_id f) (int i) (int fs)) @ chunk D fs i"
    using frag_prepend[OF c(2) fr, of ?t "outgoing_seq_id f" "int i" "int fs"] cr(1) by auto
  have z: "i = k - 1 \<Longrightarrow> b_len out = 0"
  proof -
    assume "i = k - 1"
    then have "Suc i * fs = k * fs" using cut by (simp add: frag_cut_def)
    then have "drop (Suc i * fs) D = []" using cut by (simp add: frag_cut_def)
    then show "b_len out = 0" using length_buf_contents[OF c(3)] cr(2) by simp
  qed
  let ?f = "f\<lparr>fm_outgoing := out, outgoing_frag_id := int i + 1\<rparr>"
  have "fragment_ready_to_send f b frame = Some (True, ?f, b')"
  proof -
    have od: "fragment_outgoing_defined f" using pos unfolding fragment_outgoing_defined_def len by (simp only: of_nat_0_less_iff)
    have r1: "buf_init_dowork (fm_outgoing_return f) (frame_headroom frame) = (True, r)" using r \<open>ok\<close> by simp
    show ?thesis
    proof (cases "i = k - 1")
      case True
      then have "b_len (fm_outgoing f) \<le> outgoing_frag_size f" "b_len (fm_outgoing f) = int ?n"
        using lst n f(4) by auto
      then show ?thesis using od r1 c(1) b'(1) f(3,4) z True
        by (simp add: fragment_ready_to_send_def Let_def)
    next
      case False
      then have "\<not> b_len (fm_outgoing f) \<le> outgoing_frag_size f" "outgoing_frag_size f = int ?n"
        using lst n f(4) by auto
      then show ?thesis using od r1 c(1) b'(1) f(3,4) False
        by (simp add: fragment_ready_to_send_def Let_def)
    qed
  qed
  then show ?thesis using b'(2,3) c(3) cr(2) f(4) by (auto simp: frag_wire_def)
qed

text \<open>The packets of a datagram: the first is returned at once, the others one by one.\<close>

fun frag_drain :: "nat \<Rightarrow> fragment_master \<Rightarrow> frag_frame \<Rightarrow> (buffer list \<times> fragment_master) option" where
  "frag_drain 0 f frame = Some ([], f)"
| "frag_drain (Suc n) f frame = do {
     (ready, f, b) \<leftarrow> fragment_ready_to_send f clear_buf frame;
     if ready then do { (bs, f) \<leftarrow> frag_drain n f frame; Some (b # bs, f) } else Some ([], f) }"

definition frag_send :: "fragment_master \<Rightarrow> buffer \<Rightarrow> frag_frame \<Rightarrow> (buffer list \<times> fragment_master) option" where
  "frag_send f b frame = do {
     (f, b) \<leftarrow> fragment_outgoing f b frame;
     (bs, f) \<leftarrow> frag_drain 32 f frame;
     Some (b # bs, f) }"

lemma frag_drain_rest:
  assumes cut: "frag_cut D fs k" and i: "i \<le> k" "k - i \<le> n"
    and f: "buf_wf (fm_outgoing f)" "buf_contents (fm_outgoing f) = drop (i * fs) D"
      "outgoing_frag_id f = int i" "outgoing_frag_size f = int fs"
    and ret: "buf_wf (fm_outgoing_return f)" "4 \<le> frame_headroom frame"
      "frame_headroom frame + int fs \<le> b_capacity (fm_outgoing_return f)"
  shows "\<exists>bs f'. frag_drain n f frame = Some (bs, f') \<and> (\<forall>b \<in> set bs. buf_wf b)
    \<and> map buf_contents bs = map (frag_wire D fs k (outgoing_seq_id f)) [i..<k] \<and> \<not> fragment_outgoing_defined f'"
  using i f ret
proof (induction n arbitrary: f i)
  have nodef: "\<not> fragment_outgoing_defined f" if "i = k" "buf_wf (fm_outgoing f)"
    "buf_contents (fm_outgoing f) = drop (i * fs) D" for f i
    using that cut length_buf_contents[of "fm_outgoing f"]
    by (simp add: fragment_outgoing_defined_def frag_cut_def)
  {
    case 0
    then have "i = k" by simp
    then show ?case using 0 nodef[of i f] by simp
  next
    case (Suc n)
    show ?case
    proof (cases "i < k")
      case False
      then have "i = k" using Suc.prems(1) by simp
      then show ?thesis using Suc.prems nodef[of i f] by (simp add: fragment_ready_to_send_def)
    next
      case True
      obtain f' b' where st: "fragment_ready_to_send f clear_buf frame = Some (True, f', b')" "buf_wf b'"
        "buf_contents b' = frag_wire D fs k (outgoing_seq_id f) i"
        "buf_wf (fm_outgoing f')" "buf_contents (fm_outgoing f') = drop (Suc i * fs) D"
        "outgoing_frag_id f' = int (Suc i)" "outgoing_frag_size f' = int fs"
        "fm_outgoing_return f' = fm_outgoing_return f" "outgoing_seq_id f' = outgoing_seq_id f"
        using fragment_ready_step[OF cut True Suc.prems(3-9)] by metis
      have "Suc i \<le> k" "k - Suc i \<le> n" using True Suc.prems(2) by auto
      from Suc.IH[OF this st(4-7)] Suc.prems(7-9) st(8,9)
      obtain bs f'' where "frag_drain n f' frame = Some (bs, f'')" "\<forall>b \<in> set bs. buf_wf b"
        "map buf_contents bs = map (frag_wire D fs k (outgoing_seq_id f)) [Suc i..<k]"
        "\<not> fragment_outgoing_defined f''" by auto
      then show ?thesis using st(1-3) True by (simp add: upt_conv_Cons)
    qed
  }
qed

definition frag_sender_ok :: "fragment_master \<Rightarrow> frag_frame \<Rightarrow> int \<Rightarrow> bool" where
  "frag_sender_ok f frame len \<longleftrightarrow> buf_wf (fm_outgoing f) \<and> buf_wf (fm_outgoing_return f)
     \<and> 4 \<le> frame_headroom frame \<and> frame_headroom frame + len \<le> b_capacity (fm_outgoing f)
     \<and> frame_headroom frame + max_fragment_size frame \<le> b_capacity (fm_outgoing_return f)
     \<and> 4 \<le> max_fragment_size frame \<and> max_fragment_size frame < 4 * 2 ^ 14
     \<and> len \<le> 32 * (max_fragment_size frame - max_fragment_size frame mod 4)
     \<and> 0 \<le> outgoing_seq_id f \<and> outgoing_seq_id f < 256"

lemma frag_send_spec:
  assumes ok: "frag_sender_ok f frame (b_len b)" and b: "buf_wf b"
    and big: "b_len b > max_fragment_size frame"
  shows "\<exists>fs k bs f'. frag_send f b frame = Some (bs, f') \<and> (\<forall>b \<in> set bs. buf_wf b)
    \<and> frag_cut (buf_contents b) fs k
    \<and> map buf_contents bs = map (frag_wire (buf_contents b) fs k ((outgoing_seq_id f + 1) mod 256)) [0..<k]
    \<and> \<not> fragment_outgoing_defined f' \<and> int fs \<le> max_fragment_size frame"
proof -
  let ?D = "buf_contents b" and ?len = "b_len b" and ?mx = "max_fragment_size frame"
  have ld: "?len = int (length ?D)" using length_buf_contents[OF b] by simp
  have o: "buf_wf (fm_outgoing f)" "buf_wf (fm_outgoing_return f)" "4 \<le> frame_headroom frame"
    "frame_headroom frame + ?len \<le> b_capacity (fm_outgoing f)"
    "frame_headroom frame + ?mx \<le> b_capacity (fm_outgoing_return f)"
    "4 \<le> ?mx" "?mx < 65536" "0 \<le> outgoing_seq_id f" "outgoing_seq_id f < 256"
    using ok by (auto simp: frag_sender_ok_def)
  have lpos: "0 < ?len" using big o(6) by linarith
  obtain s where s: "optimal_fragment_size ?len ?mx = Some s" "0 < s" "4 dvd s" "s \<le> ?mx"
    "frags_needed ?len s = frags_needed ?len (?mx - ?mx mod 4)"
    using optimal_size_ok[OF o(6) lpos] by blast
  define fs where "fs = nat s"
  have sfs: "s = int fs" using s(2) by (simp add: fs_def)
  have fs: "0 < fs" "int fs \<le> ?mx" using s(2,4) sfs by auto
  have "4 dvd fs" using s(3) int_dvd_int_iff[of 4 fs] unfolding sfs by simp
  have "frags_needed ?len s \<le> 32"
  proof -
    let ?A = "?mx - ?mx mod 4"
    have A: "0 < ?A" using o(6) pos_mod_bound[of 4 ?mx] by linarith
    have "(frags_needed ?len ?A - 1) * ?A < 32 * ?A"
      using frags_needed_bounds(1)[OF A lpos] ok by (simp add: frag_sender_ok_def)
    then have "frags_needed ?len ?A - 1 < 32" using A by (simp only: mult_less_cancel_right)
    then show ?thesis using s(5) by simp
  qed
  moreover have "?len \<le> frags_needed ?len s * s" by (rule frags_needed_bounds(2)[OF s(2) lpos])
  ultimately have fits: "optimal_fragment_size ?len ?mx = Some (int fs)" "?len \<le> int fs * 32"
  proof -
    assume a: "frags_needed ?len s \<le> 32" "?len \<le> frags_needed ?len s * s"
    have "frags_needed ?len s * s \<le> 32 * s" by (rule mult_right_mono[OF a(1)]) (use s(2) in simp)
    then have "?len \<le> 32 * s" using a(2) by linarith
    then show "optimal_fragment_size ?len ?mx = Some (int fs)" "?len \<le> int fs * 32"
      using s(1) by (simp_all add: sfs mult.commute)
  qed
  define k where "k = nat (frags_needed ?len (int fs))"
  have kb: "(frags_needed ?len (int fs) - 1) * int fs < ?len" "?len \<le> frags_needed ?len (int fs) * int fs"
    using frags_needed_bounds[of "int fs" ?len] fs(1) lpos by auto
  have kpos: "0 < frags_needed ?len (int fs)"
    using kb(2) lpos fs(1) by (metis less_le_trans mult_pos_pos zero_less_mult_iff of_nat_0_less_iff linorder_not_less mult_nonpos_nonneg order_less_le)
  have kk: "int k = frags_needed ?len (int fs)" "int (k - 1) = frags_needed ?len (int fs) - 1"
    using kpos by (auto simp: k_def)
  have "int ((k - 1) * fs) < int (length ?D)" "int (length ?D) \<le> int (k * fs)"
    using kb ld kk by simp_all
  then have c1: "(k - 1) * fs < length ?D" "length ?D \<le> k * fs" by (simp_all only: of_nat_less_iff of_nat_le_iff)
  have "int (length ?D) \<le> int (32 * fs)" using fits(2) ld by simp
  then have "length ?D \<le> 32 * fs" by (simp only: of_nat_le_iff)
  then have "(k - 1) * fs < 32 * fs" using c1(1) by (rule less_le_trans[rotated])
  then have "k - 1 < 32" by (simp only: mult_less_cancel2)
  then have "k \<le> 32" by simp
  then have cut: "frag_cut ?D fs k" using fs \<open>4 dvd fs\<close> o(7) c1 kpos by (auto simp: frag_cut_def k_def)
  obtain ok1 r where r: "buf_init_dowork (fm_outgoing f) (frame_headroom frame) = (ok1, r)" by (metis surj_pair)
  then have ok1 using buf_init_ok[OF o(1), of "frame_headroom frame"] o(3,4) lpos by simp
  note rw = buf_init_wf[OF o(1) r[unfolded this[THEN eqTrueI]]]
  have "length ?D \<le> buf_back r" using rw o(4) ld by simp
  then obtain out where out: "buf_copy r b = (True, out)" "buf_wf out" "buf_contents out = ?D"
    using buf.write_room[of r ?D] rw by (auto simp: buf_copy_def)
  obtain seq where seq: "modulo_add (outgoing_seq_id f) 1 N_SEQ_ID = Some seq" "seq = (outgoing_seq_id f + 1) mod 256"
    using modulo_add_small[of "outgoing_seq_id f" 256 1] o(8,9) by (auto simp: N_SEQ_ID_def)
  let ?f = "f\<lparr>outgoing_frag_size := int fs, fm_outgoing := out, outgoing_seq_id := seq, outgoing_frag_id := 0\<rparr>"
  have k0: "0 < k" using cut by (simp add: frag_cut_def)
  have ret: "frame_headroom frame + int fs \<le> b_capacity (fm_outgoing_return ?f)" using o(5) fs(2) by simp
  obtain f1 b1 where f1: "fragment_ready_to_send ?f (b\<lparr>b_len := 0\<rparr>) frame = Some (True, f1, b1)" "buf_wf b1"
    "buf_contents b1 = frag_wire ?D fs k seq 0" "buf_wf (fm_outgoing f1)"
    "buf_contents (fm_outgoing f1) = drop (Suc 0 * fs) ?D" "outgoing_frag_id f1 = int (Suc 0)"
    "outgoing_frag_size f1 = int fs" "fm_outgoing_return f1 = fm_outgoing_return f" "outgoing_seq_id f1 = seq"
    using fragment_ready_step[OF cut k0, of ?f frame "b\<lparr>b_len := 0\<rparr>"] out(2,3) o(2,3) ret by auto
  have "Suc 0 \<le> k" "k - Suc 0 \<le> 32" using k0 \<open>k \<le> 32\<close> by auto
  from frag_drain_rest[OF cut this f1(4-7), of frame] f1(8,9) o(2,3) ret
  obtain bs f' where d: "frag_drain 32 f1 frame = Some (bs, f')" "\<forall>b \<in> set bs. buf_wf b"
    "map buf_contents bs = map (frag_wire ?D fs k seq) [Suc 0..<k]" "\<not> fragment_outgoing_defined f'" by auto
  have fo: "fragment_outgoing f b frame = Some (f1, b1)"
    using lpos big fits r \<open>ok1\<close> out(1) seq(1) f1(1)
    by (simp add: fragment_outgoing_def MAX_FRAGS_def Let_def)
  then have fsend: "frag_send f b frame = Some (b1 # bs, f')" using d(1) by (simp add: frag_send_def)
  have "map buf_contents (b1 # bs) = map (frag_wire ?D fs k seq) [0..<k]"
    using f1(3) d(3) k0 by (simp add: upt_conv_Cons)
  then show ?thesis using cut d(2,4) f1(2) fsend fs(2) unfolding seq(2)[symmetric]
    by (intro exI[of _ fs] exI[of _ k] exI[of _ "b1 # bs"] exI[of _ f'] conjI) (assumption | simp)+
qed

section \<open>A datagram arrives\<close>

text \<open>A receiver whose buffer for the sequence number is not in use.\<close>

definition frag_fresh :: "int \<Rightarrow> bytes \<Rightarrow> int \<Rightarrow> fragment_master \<Rightarrow> bool" where
  "frag_fresh hr D seq g \<longleftrightarrow> flist_ok (fm_incoming g)
     \<and> (\<forall>fr \<in> set (fl_fragments (fm_incoming g)). buf_wf (fr_buf fr) \<and> frag_room hr D (fr_buf fr))
     \<and> (case fragment_list_get_buf (fm_incoming g) seq of
          None \<Rightarrow> True | Some (l, i) \<Rightarrow> \<not> fr_defined (fl_fragments l ! i))"

lemma frag_fresh_state:
  assumes "frag_fresh hr D seq g" "0 \<le> seq" "seq < 256"
  shows "frag_state hr fs D k seq {} g"
proof -
  have ok: "flist_ok (fm_incoming g)" using assms(1) by (simp add: frag_fresh_def)
  obtain l i where l: "fragment_list_get_buf (fm_incoming g) seq = Some (l, i)" "flist_ok l" "i < 25"
    "\<forall>j < 25. fl_fragments l ! j = fl_fragments (fm_incoming g) ! j \<or> \<not> fr_defined (fl_fragments l ! j)
         \<and> fr_buf (fl_fragments l ! j) = fr_buf (fl_fragments (fm_incoming g) ! j)"
    and again: "\<And>frag. fragment_list_get_buf (l\<lparr>fl_fragments := (fl_fragments l)[i := frag]\<rparr>) seq
       = Some (l\<lparr>fl_fragments := (fl_fragments l)[i := frag]\<rparr>, i)"
    by (rule fragment_list_get_buf_spec[OF ok assms(2,3)]) (rule that; assumption?; blast)
  have "fr_buf (fl_fragments l ! i) = fr_buf (fl_fragments (fm_incoming g) ! i)"
    using l(3,4) by (metis)
  moreover have "fl_fragments (fm_incoming g) ! i \<in> set (fl_fragments (fm_incoming g))"
    using ok l(3) by (simp add: flist_ok_def)
  ultimately have "buf_wf (fr_buf (fl_fragments l ! i))" "frag_room hr D (fr_buf (fl_fragments l ! i))"
    using assms(1) by (auto simp: frag_fresh_def)
  then show ?thesis using ok l(1-3) again assms(1) by (simp add: frag_state_def frag_hold_def frag_fresh_def)
qed

fun recv_run :: "(int \<times> buffer) list \<Rightarrow> fragment_master \<Rightarrow> frag_frame \<Rightarrow> (buffer list \<times> fragment_master) option" where
  "recv_run [] g frame = Some ([], g)"
| "recv_run ((now, s) # es) g frame = do {
     (g, out) \<leftarrow> fragment_incoming now g s frame;
     (outs, g) \<leftarrow> recv_run es g frame;
     Some (out # outs, g) }"

lemma recv_run_collect:
  assumes cut: "frag_cut D fs k" and seq: "0 \<le> seq" "seq < 256" and frame: "frame_headroom frame = hr"
  shows "frag_state hr fs D k seq S g \<Longrightarrow> S \<subset> {..<k} \<Longrightarrow> es \<noteq> [] \<Longrightarrow>
    list_all2 (\<lambda>(t, s) i. i < k \<and> buf_wf s \<and> buf_contents s = frag_wire D fs k seq i) es ix \<Longrightarrow>
    S \<union> set (butlast ix) \<subset> {..<k} \<Longrightarrow> S \<union> set ix = {..<k} \<Longrightarrow>
    \<exists>outs g'. recv_run es g frame = Some (outs, g') \<and> length outs = length es
      \<and> (\<forall>out \<in> set (butlast outs). b_len out = 0) \<and> buf_contents (last outs) = D"
proof (induction es arbitrary: S g ix)
  case (Cons e es)
  obtain t s where e: "e = (t, s)" by (metis surj_pair)
  obtain i js where ix: "ix = i # js" "i < k" "buf_wf s" "buf_contents s = frag_wire D fs k seq i"
    "list_all2 (\<lambda>(t, s) i. i < k \<and> buf_wf s \<and> buf_contents s = frag_wire D fs k seq i) es js"
    using Cons.prems(4) e by (auto simp: list_all2_Cons1)
  obtain g1 out where st: "fragment_incoming t g s frame = Some (g1, out)"
    "if insert i S = {..<k} then buf_wf out \<and> buf_contents out = D
       else b_len out = 0 \<and> frag_state hr fs D k seq (insert i S) g1"
    using fragment_incoming_step[OF cut Cons.prems(1,2) ix(2) seq frame ix(3,4), of t] by blast
  show ?case
  proof (cases "es = []")
    case True
    then have "js = []" using ix(5) by simp
    then show ?thesis using st e True ix(1) Cons.prems(6) by simp
  next
    case False
    then have "js \<noteq> []" using ix(5) by auto
    then have sub: "insert i S \<union> set (butlast js) \<subset> {..<k}" "insert i S \<union> set js = {..<k}"
      using Cons.prems(5,6) ix(1) by auto
    then have ne: "insert i S \<subset> {..<k}" by auto
    then have "frag_state hr fs D k seq (insert i S) g1" "b_len out = 0" using st(2) by auto
    from Cons.IH[OF this(1) ne False ix(5) sub]
    obtain outs g' where r: "recv_run es g1 frame = Some (outs, g')" "length outs = length es"
      "\<forall>out \<in> set (butlast outs). b_len out = 0" "buf_contents (last outs) = D" by blast
    then have "outs \<noteq> []" using False by auto
    then show ?thesis using r st(1) e \<open>b_len out = 0\<close> by simp
  qed
qed simp

lemma recv_run_any:
  assumes cut: "frag_cut D fs k" and seq: "0 \<le> seq" "seq < 256" and frame: "frame_headroom frame = hr"
    and st: "frag_state hr fs D k seq {} g" and ne: "es \<noteq> []"
    and ix: "\<And>e. e \<in> set es \<Longrightarrow> ix e < k \<and> buf_wf (snd e) \<and> buf_contents (snd e) = frag_wire D fs k seq (ix e)"
    and miss: "i0 < k" "\<And>e. e \<in> set (butlast es) \<Longrightarrow> ix e \<noteq> i0"
    and all: "\<And>i. i < k \<Longrightarrow> \<exists>e \<in> set es. ix e = i"
  shows "\<exists>outs g'. recv_run es g frame = Some (outs, g') \<and> length outs = length es
      \<and> (\<forall>out \<in> set (butlast outs). b_len out = 0) \<and> buf_contents (last outs) = D"
proof (rule recv_run_collect[OF cut seq frame st _ ne])
  show "list_all2 (\<lambda>(t, s) i. i < k \<and> buf_wf s \<and> buf_contents s = frag_wire D fs k seq i) es (map ix es)"
  proof (rule list_all2_all_nthI)
    fix n assume "n < length es"
    moreover obtain u s where "es ! n = (u, s)" by (metis surj_pair)
    ultimately show "(case es ! n of (t, s) \<Rightarrow> \<lambda>i. i < k \<and> buf_wf s \<and> buf_contents s = frag_wire D fs k seq i)
        (map ix es ! n)" using ix[of "es ! n"] nth_mem[of n es] by simp
  qed simp
  show "{} \<union> set (map ix es) = {..<k}" using ix all by force
  have "i0 \<notin> set (butlast (map ix es))" using miss(2) by (auto simp: map_butlast[symmetric])
  moreover have "set (butlast (map ix es)) \<subseteq> {..<k}"
  proof
    fix x assume "x \<in> set (butlast (map ix es))"
    then have "x \<in> ix ` set es" by (metis in_set_butlastD set_map)
    then show "x \<in> {..<k}" using ix by blast
  qed
  ultimately show "{} \<union> set (butlast (map ix es)) \<subset> {..<k}" using miss(1) by auto
  show "{} \<subset> {..<k}" using miss(1) by auto
qed

lemma frag_wire_inj:
  assumes "0 \<le> seq" "seq < 256" "i < k" "j < k" "k \<le> 32" "frag_cut D fs k"
    and "frag_wire D fs k seq i = frag_wire D fs k seq j"
  shows "i = j"
proof -
  define ty where "ty i = (if i = k - 1 then FRAG_YES_LAST else FRAG_YES_NOTLAST)" for i
  have ty: "0 \<le> ty i" "ty i < 3" for i by (auto simp: ty_def FRAG_YES_LAST_def FRAG_YES_NOTLAST_def)
  obtain q where q: "int fs = 4 * q" "0 \<le> q" "q < 2 ^ 14"
    using assms(6) by (auto simp: frag_cut_def elim!: dvdE)
  have w: "frag_wire D fs k seq i = htonl (frag_header (ty i) seq (int i) (int fs)) @ chunk D fs i" for i
    by (simp only: frag_wire_def ty_def)
  have "htonl (frag_header (ty i) seq (int i) (int fs)) = htonl (frag_header (ty j) seq (int j) (int fs))"
    using arg_cong[OF assms(7)[unfolded w], of "take 4"] by (simp only: take_append length_htonl take_all)
      (simp add: length_htonl)
  then have h: "frag_header (ty i) seq (int i) (int fs) = frag_header (ty j) seq (int j) (int fs)"
    by (simp only: htonl_inject)
  have b: "0 \<le> int x" "int x < 32" if "x < k" for x using that assms(5) by auto
  have "int i = int j"
    using frag_header_fields(3)[OF ty(1)[of i] ty(2)[of i] assms(1,2) b[OF assms(3)] q(2,3), folded q(1)]
      frag_header_fields(3)[OF ty(1)[of j] ty(2)[of j] assms(1,2) b[OF assms(4)] q(2,3), folded q(1)]
    unfolding h by (rule trans[OF sym])
  then show ?thesis by (simp only: of_nat_eq_iff)
qed

text \<open>
  C10. Fragmentation is transparent. A datagram longer than the limit that fits into 32 parts is
  sent, without a failed assertion, as parts that each fit. Whatever the order and the
  multiplicity in which the parts arrive at a receiver that is not reassembling another datagram
  under the same sequence number, nothing is returned before every part has arrived, and the
  arrival of the last missing part returns exactly the datagram.
\<close>

theorem fragment_transfer:
  assumes "frag_sender_ok f frame (b_len b)" and "buf_wf b" and "b_len b > max_fragment_size frame"
    and "frag_fresh (frame_headroom frame) (buf_contents b) ((outgoing_seq_id f + 1) mod 256) g"
  shows "\<exists>bs f'. frag_send f b frame = Some (bs, f') \<and> \<not> fragment_outgoing_defined f' \<and> bs \<noteq> []
    \<and> (\<forall>p \<in> set bs. buf_wf p \<and> b_len p \<le> max_fragment_size frame + 4) \<and> distinct (map buf_contents bs)
    \<and> (\<forall>es. es \<noteq> [] \<and> (\<forall>(t, s) \<in> set es. buf_wf s \<and> buf_contents s \<in> buf_contents ` set bs)
         \<and> (\<exists>p \<in> set bs. \<forall>(t, s) \<in> set (butlast es). buf_contents s \<noteq> buf_contents p)
         \<and> (\<forall>p \<in> set bs. \<exists>(t, s) \<in> set es. buf_contents s = buf_contents p) \<longrightarrow>
         (\<exists>outs g'. recv_run es g frame = Some (outs, g') \<and> length outs = length es
           \<and> (\<forall>out \<in> set (butlast outs). b_len out = 0) \<and> buf_contents (last outs) = buf_contents b))"
proof -
  let ?D = "buf_contents b" and ?seq = "(outgoing_seq_id f + 1) mod 256" and ?hr = "frame_headroom frame"
  have seq: "0 \<le> ?seq" "?seq < 256" by simp_all
  obtain fs k bs f' where s: "frag_send f b frame = Some (bs, f')" "\<forall>b \<in> set bs. buf_wf b" "frag_cut ?D fs k"
    "map buf_contents bs = map (frag_wire ?D fs k ?seq) [0..<k]" "\<not> fragment_outgoing_defined f'"
    "int fs \<le> max_fragment_size frame"
    using frag_send_spec[OF assms(1-3)] by (elim exE conjE)
  have k32: "k \<le> 32" using s(3) by (simp add: frag_cut_def)
  have ne: "bs \<noteq> []" using arg_cong[OF s(4), of length] s(3) by (auto simp: frag_cut_def)
  have inj: "inj_on (frag_wire ?D fs k ?seq) {..<k}"
  proof (rule inj_onI)
    fix x y assume a: "x \<in> {..<k}" "y \<in> {..<k}" "frag_wire ?D fs k ?seq x = frag_wire ?D fs k ?seq y"
    show "x = y" by (rule frag_wire_inj[OF seq a(1,2)[THEN lessThan_iff[THEN iffD1]] k32 s(3) a(3)])
  qed
  have im: "buf_contents ` set bs = frag_wire ?D fs k ?seq ` {..<k}"
  proof -
    have "buf_contents ` set bs = set (map buf_contents bs)" by simp
    also have "\<dots> = frag_wire ?D fs k ?seq ` {..<k}" unfolding s(4) by (simp add: lessThan_atLeast0)
    finally show ?thesis .
  qed
  have dist: "distinct (map buf_contents bs)"
    unfolding s(4) distinct_map using inj by (simp add: lessThan_atLeast0)
  have size: "b_len p \<le> max_fragment_size frame + 4" if "p \<in> set bs" for p
  proof -
    have "buf_contents p \<in> frag_wire ?D fs k ?seq ` {..<k}" unfolding im[symmetric] using that by (rule imageI)
    then obtain i where "buf_contents p = frag_wire ?D fs k ?seq i" by (rule imageE)
    then have "length (buf_contents p) \<le> 4 + fs" by (simp add: frag_wire_def chunk_def)
    moreover have "b_len p = int (length (buf_contents p))" using s(2) that length_buf_contents[of p] by simp
    ultimately show ?thesis using s(6) by linarith
  qed
  have run: "\<exists>outs g'. recv_run es g frame = Some (outs, g') \<and> length outs = length es
           \<and> (\<forall>out \<in> set (butlast outs). b_len out = 0) \<and> buf_contents (last outs) = ?D"
    if es: "es \<noteq> []" "\<forall>(t, s) \<in> set es. buf_wf s \<and> buf_contents s \<in> buf_contents ` set bs"
      "\<exists>p \<in> set bs. \<forall>(t, s) \<in> set (butlast es). buf_contents s \<noteq> buf_contents p"
      "\<forall>p \<in> set bs. \<exists>(t, s) \<in> set es. buf_contents s = buf_contents p" for es
  proof -
    let ?ix = "\<lambda>e. the_inv_into {..<k} (frag_wire ?D fs k ?seq) (buf_contents (snd e))"
    have ix: "?ix e < k \<and> buf_wf (snd e) \<and> buf_contents (snd e) = frag_wire ?D fs k ?seq (?ix e)" if "e \<in> set es" for e
    proof -
      have a: "buf_wf (snd e)" "buf_contents (snd e) \<in> frag_wire ?D fs k ?seq ` {..<k}"
        using es(2) that unfolding im by auto
      show ?thesis using a(1) the_inv_into_into[OF inj a(2) subset_refl] f_the_inv_into_f[OF inj a(2)] by simp
    qed
    obtain p where p: "p \<in> set bs" "\<forall>(t, s) \<in> set (butlast es). buf_contents s \<noteq> buf_contents p" using es(3) by blast
    have "buf_contents p \<in> frag_wire ?D fs k ?seq ` {..<k}" unfolding im[symmetric] using p(1) by (rule imageI)
    then obtain i0 where i0: "i0 < k" "buf_contents p = frag_wire ?D fs k ?seq i0" by (elim imageE) simp
    show ?thesis
    proof (rule recv_run_any[OF s(3) seq refl frag_fresh_state[OF assms(4) seq] es(1) ix i0(1)])
      fix e assume e: "e \<in> set (butlast es)"
      then have "buf_contents (snd e) \<noteq> frag_wire ?D fs k ?seq i0" using p(2) i0(2) by auto
      then show "?ix e \<noteq> i0" using ix[OF in_set_butlastD[OF e]] by metis
    next
      fix i assume i: "i < k"
      then have "frag_wire ?D fs k ?seq i \<in> buf_contents ` set bs" unfolding im by simp
      then obtain q where q: "q \<in> set bs" "buf_contents q = frag_wire ?D fs k ?seq i" by force
      obtain t s where e: "(t, s) \<in> set es" "buf_contents s = buf_contents q" using es(4) q(1) by blast
      have "?ix (t, s) = i" using the_inv_into_f_f[OF inj, of i] i e(2) q(2) by simp
      then show "\<exists>e \<in> set es. ?ix e = i" using e(1) by blast
    qed
  qed
  show ?thesis
    by (rule exI[of _ bs], rule exI[of _ f'], intro conjI ballI allI impI)
      (rule s(1) s(5) ne dist s(2)[rule_format] size | assumption | elim conjE, rule run)+
qed

definition ft_frame :: frag_frame where
  "ft_frame = \<lparr>frame_headroom = 8, max_fragment_size = 8\<rparr>"

definition ft_master :: fragment_master where
  "ft_master = the (fragment_frame_init (fragment_init 0 255) 64)"

definition ft_data :: buffer where
  "ft_data = snd (buf_write (the (alloc_buf 64)) [1, 2, 3, 4, 5, 6, 7, 8, 9, 10, 11, 12, 13, 14, 15, 16, 17, 18, 19, 20, 21])"

lemma fragment_transfer_witness:
  "\<exists>bs f'. frag_send ft_master ft_data ft_frame = Some (bs, f')
     \<and> (\<exists>outs g'. recv_run (map (Pair 0) bs) ft_master ft_frame = Some (outs, g')
          \<and> buf_contents (last outs) = buf_contents ft_data)"
proof -
  have a: "frag_sender_ok ft_master ft_frame (b_len ft_data)" "buf_wf ft_data" "b_len ft_data > max_fragment_size ft_frame"
    "frag_fresh (frame_headroom ft_frame) (buf_contents ft_data) ((outgoing_seq_id ft_master + 1) mod 256) ft_master"
    by code_simp+
  obtain bs f' where bs: "frag_send ft_master ft_data ft_frame = Some (bs, f')" "bs \<noteq> []" "\<forall>p \<in> set bs. buf_wf p"
    "distinct (map buf_contents bs)"
    and run: "\<And>es. es \<noteq> [] \<and> (\<forall>(t, s) \<in> set es. buf_wf s \<and> buf_contents s \<in> buf_contents ` set bs)
         \<and> (\<exists>p \<in> set bs. \<forall>(t, s) \<in> set (butlast es). buf_contents s \<noteq> buf_contents p)
         \<and> (\<forall>p \<in> set bs. \<exists>(t, s) \<in> set es. buf_contents s = buf_contents p) \<Longrightarrow>
         \<exists>outs g'. recv_run es ft_master ft_frame = Some (outs, g') \<and> length outs = length es
           \<and> (\<forall>out \<in> set (butlast outs). b_len out = 0) \<and> buf_contents (last outs) = buf_contents ft_data"
    using fragment_transfer[OF a] by blast
  obtain cs c where c: "bs = cs @ [c]" using bs(2) by (metis append_butlast_last_id)
  have "\<exists>outs g'. recv_run (map (Pair 0) bs) ft_master ft_frame = Some (outs, g') \<and> length outs = length (map (Pair (0::int)) bs)
           \<and> (\<forall>out \<in> set (butlast outs). b_len out = 0) \<and> buf_contents (last outs) = buf_contents ft_data"
    by (rule run) (use bs(3,4) in \<open>auto simp: c map_butlast[symmetric] butlast_append\<close>,
        metis image_eqI)
  then show ?thesis using bs(1) by blast
qed

end
