(* ===== verification/Schedule.thy ===== *)
theory Schedule
  imports C_Time "HOL-Library.Tree" "HOL-Library.Product_Lexorder"
begin

text \<open>
  The scheduler of the server (\<open>schedule.c\<close>, \<open>schedule.h\<close>): a randomised treap of caller-owned
  entries linked by parent and child pointers, ordered by wakeup time, with a cache of the
  earliest entry.

  Entries are addressed by naturals and live in an explicit store, because the operations work
  by redirecting the pointers of up to four entries. The numbers \<open>random\<close> returns are consumed from a
  list; a loop that does not end, or a list that is too short, is \<open>None\<close>, as is a
  failed \<open>ASSERT\<close>.
\<close>

section \<open>The program\<close>

record schedule_entry =
  se_tv :: timeval
  se_pri :: u32
  se_parent :: "nat option"
  se_lt :: "nat option"
  se_gt :: "nat option"

record schedule =
  earliest_wakeup :: "nat option"
  sch_root :: "nat option"
  sch_mem :: "nat \<Rightarrow> schedule_entry"

text \<open>Assignment to a field of the entry at \<open>a\<close>.\<close>

definition upd :: "nat \<Rightarrow> (schedule_entry \<Rightarrow> schedule_entry) \<Rightarrow> schedule \<Rightarrow> schedule" where
  "upd a g s = s\<lparr>sch_mem := (sch_mem s)(a := g (sch_mem s a))\<rparr>"

definition IN_TREE :: "schedule_entry \<Rightarrow> bool" where
  "IN_TREE e \<longleftrightarrow> se_pri e \<noteq> 0"

definition schedule_init :: "(nat \<Rightarrow> schedule_entry) \<Rightarrow> schedule" where
  "schedule_init m = \<lparr>earliest_wakeup = None, sch_root = None, sch_mem = m\<rparr>"

fun schedule_set_pri :: "schedule \<Rightarrow> nat \<Rightarrow> u32 list \<Rightarrow> (schedule \<times> u32 list) option" where
  "schedule_set_pri s e [] = None"
| "schedule_set_pri s e (r # rnd) =
     (let s = upd e (se_pri_update (\<lambda>_. r)) s in
      Some (if se_pri (sch_mem s e) < 1 then upd e (se_pri_update (\<lambda>_. 1)) s else s, rnd))"

definition schedule_entry_compare :: "schedule_entry \<Rightarrow> schedule_entry \<Rightarrow> int" where
  "schedule_entry_compare e1 e2 =
     (if tv_sec (se_tv e1) < tv_sec (se_tv e2) then -1
      else if tv_sec (se_tv e1) > tv_sec (se_tv e2) then 1
      else if tv_usec (se_tv e1) < tv_usec (se_tv e2) then -1
      else if tv_usec (se_tv e1) > tv_usec (se_tv e2) then 1
      else if se_pri e1 < se_pri e2 then -1
      else if se_pri e1 > se_pri e2 then 1
      else 0)"

definition schedule_detach_parent :: "schedule \<Rightarrow> nat \<Rightarrow> schedule option" where
  "schedule_detach_parent s e =
     (case se_parent (sch_mem s e) of
        Some p \<Rightarrow> do {
          s \<leftarrow> (if se_lt (sch_mem s p) = Some e then Some (upd p (se_lt_update (\<lambda>_. None)) s)
                else if se_gt (sch_mem s p) = Some e then Some (upd p (se_gt_update (\<lambda>_. None)) s)
                else None);
          Some (upd e (se_parent_update (\<lambda>_. None)) s) }
      | None \<Rightarrow> Some (if sch_root s = Some e then s\<lparr>sch_root := None\<rparr> else s))"

definition schedule_rotate_up :: "schedule \<Rightarrow> nat option \<Rightarrow> schedule option" where
  "schedule_rotate_up s eo =
     (case eo of None \<Rightarrow> Some s | Some e \<Rightarrow>
      case se_parent (sch_mem s e) of None \<Rightarrow> Some s | Some p \<Rightarrow>
        let lt = se_lt (sch_mem s e); gt = se_gt (sch_mem s e); gp = se_parent (sch_mem s p) in do {
          s \<leftarrow> (case gp of
                  Some g \<Rightarrow>
                    if se_gt (sch_mem s g) = Some p then Some (upd g (se_gt_update (\<lambda>_. Some e)) s)
                    else if se_lt (sch_mem s g) = Some p then Some (upd g (se_lt_update (\<lambda>_. Some e)) s)
                    else None
                | None \<Rightarrow> Some (s\<lparr>sch_root := Some e\<rparr>));
          let s = upd e (se_parent_update (\<lambda>_. gp)) s;
          let s = upd p (se_parent_update (\<lambda>_. Some e)) s;
          if se_gt (sch_mem s p) = Some e then
            let s = upd e (se_lt_update (\<lambda>_. Some p)) s;
                s = upd p (se_gt_update (\<lambda>_. lt)) s in
            Some (case lt of Some l \<Rightarrow> upd l (se_parent_update (\<lambda>_. Some p)) s | None \<Rightarrow> s)
          else if se_lt (sch_mem s p) = Some e then
            let s = upd e (se_gt_update (\<lambda>_. Some p)) s;
                s = upd p (se_lt_update (\<lambda>_. gt)) s in
            Some (case gt of Some r \<Rightarrow> upd r (se_parent_update (\<lambda>_. Some p)) s | None \<Rightarrow> s)
          else None })"

text \<open>The loop of \<open>schedule_remove_node\<close>; the test picks the child with the smaller priority.\<close>

partial_function (option) remove_loop :: "schedule \<Rightarrow> nat \<Rightarrow> schedule option" where
  "remove_loop s e =
     (case (se_lt (sch_mem s e), se_gt (sch_mem s e)) of
        (None, None) \<Rightarrow> Some s
      | (Some l, Some r) \<Rightarrow> do {
          s \<leftarrow> schedule_rotate_up s (if se_pri (sch_mem s l) < se_pri (sch_mem s r) then Some l else Some r);
          remove_loop s e }
      | (Some l, None) \<Rightarrow> do { s \<leftarrow> schedule_rotate_up s (Some l); remove_loop s e }
      | (None, Some r) \<Rightarrow> do { s \<leftarrow> schedule_rotate_up s (Some r); remove_loop s e })"

definition schedule_remove_node :: "schedule \<Rightarrow> nat \<Rightarrow> schedule option" where
  "schedule_remove_node s e = do {
     s \<leftarrow> remove_loop s e;
     s \<leftarrow> schedule_detach_parent s e;
     Some (upd e (se_pri_update (\<lambda>_. 0)) s) }"

partial_function (option) insert_loop ::
  "schedule \<Rightarrow> nat \<Rightarrow> nat option \<Rightarrow> u32 list \<Rightarrow> (schedule \<times> u32 list) option" where
  "insert_loop s e co rnd =
     (case co of None \<Rightarrow> None | Some c \<Rightarrow>
      let comp = schedule_entry_compare (sch_mem s e) (sch_mem s c) in
      if comp = -1 then
        (case se_lt (sch_mem s c) of
           Some l \<Rightarrow> insert_loop s e (Some l) rnd
         | None \<Rightarrow> Some (upd e (se_parent_update (\<lambda>_. Some c)) (upd c (se_lt_update (\<lambda>_. Some e)) s), rnd))
      else if comp = 1 then
        (case se_gt (sch_mem s c) of
           Some r \<Rightarrow> insert_loop s e (Some r) rnd
         | None \<Rightarrow> Some (upd e (se_parent_update (\<lambda>_. Some c)) (upd c (se_gt_update (\<lambda>_. Some e)) s), rnd))
      else do {
        (s, rnd) \<leftarrow> schedule_set_pri s e rnd;
        insert_loop s e (sch_root s) rnd })"

definition schedule_insert :: "schedule \<Rightarrow> nat \<Rightarrow> u32 list \<Rightarrow> (schedule \<times> u32 list) option" where
  "schedule_insert s e rnd = insert_loop s e (sch_root s) rnd"

partial_function (option) rotate_loop :: "schedule \<Rightarrow> nat \<Rightarrow> schedule option" where
  "rotate_loop s e =
     (case se_parent (sch_mem s e) of
        Some p \<Rightarrow>
          if se_pri (sch_mem s p) > se_pri (sch_mem s e)
          then do { s \<leftarrow> schedule_rotate_up s (Some e); rotate_loop s e }
          else Some s
      | None \<Rightarrow> Some s)"

definition schedule_add_modify :: "schedule \<Rightarrow> nat \<Rightarrow> u32 list \<Rightarrow> schedule option" where
  "schedule_add_modify s e rnd = do {
     s \<leftarrow> (if IN_TREE (sch_mem s e) then schedule_remove_node s e else Some s);
     (s, rnd) \<leftarrow> schedule_set_pri s e rnd;
     (s, rnd) \<leftarrow> (if sch_root s \<noteq> None then schedule_insert s e rnd
                   else Some (s\<lparr>sch_root := Some e\<rparr>, rnd));
     rotate_loop s e }"

partial_function (option) find_least_loop :: "(nat \<Rightarrow> schedule_entry) \<Rightarrow> nat \<Rightarrow> nat option" where
  "find_least_loop m e = (case se_lt (m e) of Some l \<Rightarrow> find_least_loop m l | None \<Rightarrow> Some e)"

definition schedule_find_least :: "(nat \<Rightarrow> schedule_entry) \<Rightarrow> nat option \<Rightarrow> nat option option" where
  "schedule_find_least m eo =
     (case eo of Some e \<Rightarrow> map_option Some (find_least_loop m e) | None \<Rightarrow> Some None)"

definition schedule_remove_entry :: "schedule \<Rightarrow> nat \<Rightarrow> schedule option" where
  "schedule_remove_entry s e = schedule_remove_node (s\<lparr>earliest_wakeup := None\<rparr>) e"

definition schedule_add_entry ::
  "schedule \<Rightarrow> nat \<Rightarrow> timeval \<Rightarrow> nat \<Rightarrow> u32 list \<Rightarrow> schedule option" where
  "schedule_add_entry s e tv sigma rnd =
     (if \<not> IN_TREE (sch_mem s e) \<or> sigma = 0 \<or> \<not> tv_within_sigma tv (se_tv (sch_mem s e)) (int sigma)
      then do {
        s \<leftarrow> schedule_add_modify (upd e (se_tv_update (\<lambda>_. tv)) s) e rnd;
        Some (s\<lparr>earliest_wakeup := None\<rparr>) }
      else Some s)"

text \<open>The result is the new state, the entry found, and the wakeup time that is stored if there is one.\<close>

definition schedule_get_earliest_wakeup :: "schedule \<Rightarrow> (schedule \<times> (nat \<times> timeval) option) option" where
  "schedule_get_earliest_wakeup s = do {
     ew \<leftarrow> (if earliest_wakeup s = None then schedule_find_least (sch_mem s) (sch_root s)
            else Some (earliest_wakeup s));
     Some (s\<lparr>earliest_wakeup := ew\<rparr>, map_option (\<lambda>a. (a, se_tv (sch_mem s a))) ew) }"

end
