(* ===== verification/Schedule_Props.thy ===== *)
theory Schedule_Props
  imports Schedule
begin

text \<open>
  The scheduler is a priority queue. The pointer structure of a treap is related to a tree
  with a focus (a subtree and the path above it); a rotation keeps the inorder sequence, so the
  order of the entries is an invariant of every loop, and the loops end because the focus moves
  up or the subtree below it shrinks. The contract of the scheduler as a map from entries to
  wakeup times is stated as a locale and discharged for the code.
\<close>

section \<open>Trees with a focus in the store\<close>

fun tree_at :: "(nat \<Rightarrow> schedule_entry) \<Rightarrow> nat option \<Rightarrow> nat option \<Rightarrow> nat tree \<Rightarrow> bool" where
  "tree_at m par p Leaf \<longleftrightarrow> p = None"
| "tree_at m par p (Node l a r) \<longleftrightarrow> p = Some a \<and> se_parent (m a) = par
     \<and> tree_at m (Some a) (se_lt (m a)) l \<and> tree_at m (Some a) (se_gt (m a)) r"

text \<open>A step of the path: the focus is below the node on the left, or on the right; the other subtree.\<close>

datatype step = GoLt nat "nat tree" | GoGt nat "nat tree"

fun plug :: "step list \<Rightarrow> nat tree \<Rightarrow> nat tree" where
  "plug [] t = t"
| "plug (GoLt a r # c) t = plug c (Node t a r)"
| "plug (GoGt a l # c) t = plug c (Node l a t)"

fun ctx_at :: "(nat \<Rightarrow> schedule_entry) \<Rightarrow> nat option \<Rightarrow> step list \<Rightarrow> nat option \<Rightarrow> nat option \<Rightarrow> bool" where
  "ctx_at m root [] p par \<longleftrightarrow> root = p \<and> par = None"
| "ctx_at m root (GoLt a r # c) p par \<longleftrightarrow> par = Some a \<and> se_lt (m a) = p
     \<and> tree_at m (Some a) (se_gt (m a)) r \<and> ctx_at m root c (Some a) (se_parent (m a))"
| "ctx_at m root (GoGt a l # c) p par \<longleftrightarrow> par = Some a \<and> se_gt (m a) = p
     \<and> tree_at m (Some a) (se_lt (m a)) l \<and> ctx_at m root c (Some a) (se_parent (m a))"

fun ctx_l :: "step list \<Rightarrow> nat list" where
  "ctx_l [] = []"
| "ctx_l (GoLt a r # c) = ctx_l c"
| "ctx_l (GoGt a l # c) = ctx_l c @ inorder l @ [a]"

fun ctx_r :: "step list \<Rightarrow> nat list" where
  "ctx_r [] = []"
| "ctx_r (GoLt a r # c) = a # inorder r @ ctx_r c"
| "ctx_r (GoGt a l # c) = ctx_r c"

lemma inorder_plug: "inorder (plug c t) = ctx_l c @ inorder t @ ctx_r c"
  by (induction c t rule: plug.induct) auto

lemma set_tree_plug [simp]: "set_tree (plug c t) = set (ctx_l c) \<union> set_tree t \<union> set (ctx_r c)"
  by (metis inorder_plug set_append set_inorder Un_assoc)

lemma tree_at_plug: "tree_at m None root (plug c t) \<longleftrightarrow> (\<exists>p par. ctx_at m root c p par \<and> tree_at m par p t)"
  by (induction c t rule: plug.induct) auto

lemma tree_at_cong:
  "(\<And>a. a \<in> set_tree t \<Longrightarrow> se_parent (m' a) = se_parent (m a) \<and> se_lt (m' a) = se_lt (m a) \<and> se_gt (m' a) = se_gt (m a))
    \<Longrightarrow> tree_at m' par p t = tree_at m par p t"
  by (induction t arbitrary: par p) auto

lemma ctx_at_cong:
  "(\<And>a. a \<in> set (ctx_l c) \<union> set (ctx_r c) \<Longrightarrow>
      se_parent (m' a) = se_parent (m a) \<and> se_lt (m' a) = se_lt (m a) \<and> se_gt (m' a) = se_gt (m a))
    \<Longrightarrow> ctx_at m' root c p par = ctx_at m root c p par"
proof (induction m root c p par rule: ctx_at.induct)
  case (2 m root a r c p par)
  then show ?case using tree_at_cong[of r m' m "Some a"] by auto
next
  case (3 m root a l c p par)
  then show ?case using tree_at_cong[of l m' m "Some a"] by auto
qed simp

lemma tree_at_upd [simp]: "a \<notin> set_tree t \<Longrightarrow> tree_at (m(a := x)) par p t = tree_at m par p t"
  by (rule tree_at_cong) auto

lemma ctx_at_upd [simp]:
  "a \<notin> set (ctx_l c) \<Longrightarrow> a \<notin> set (ctx_r c) \<Longrightarrow> ctx_at (m(a := x)) root c p par = ctx_at m root c p par"
  by (rule ctx_at_cong) auto

definition zip_at :: "schedule \<Rightarrow> step list \<Rightarrow> nat tree \<Rightarrow> bool" where
  "zip_at s c t \<longleftrightarrow> (\<exists>p par. ctx_at (sch_mem s) (sch_root s) c p par \<and> tree_at (sch_mem s) par p t)
     \<and> distinct (ctx_l c @ inorder t @ ctx_r c)"

lemma zip_plug: "zip_at s c t \<longleftrightarrow> zip_at s [] (plug c t)"
  unfolding zip_at_def by (simp add: tree_at_plug inorder_plug)

lemma zip_up [simp]:
  "zip_at s (GoLt a r # c) t \<longleftrightarrow> zip_at s c (Node t a r)"
  "zip_at s (GoGt a l # c) t \<longleftrightarrow> zip_at s c (Node l a t)"
  using zip_plug[of s "GoLt a r # c" t] zip_plug[of s "GoGt a l # c" t] zip_plug[of s c] by simp_all

text \<open>What an operation on the links of the entries \<open>A\<close> leaves alone.\<close>

definition links_only :: "nat set \<Rightarrow> schedule \<Rightarrow> schedule \<Rightarrow> bool" where
  "links_only A s s' \<longleftrightarrow> earliest_wakeup s' = earliest_wakeup s
     \<and> (\<forall>a. se_tv (sch_mem s' a) = se_tv (sch_mem s a) \<and> se_pri (sch_mem s' a) = se_pri (sch_mem s a))
     \<and> (\<forall>a. a \<notin> A \<longrightarrow> sch_mem s' a = sch_mem s a)"

lemma links_only_refl [simp]: "links_only A s s"
  by (simp add: links_only_def)

lemma links_only_trans: "links_only A s s' \<Longrightarrow> links_only A s' s'' \<Longrightarrow> links_only A s s''"
  by (simp add: links_only_def)

section \<open>Rotation\<close>

fun rotated :: "step \<Rightarrow> nat tree \<Rightarrow> nat \<Rightarrow> nat tree \<Rightarrow> nat tree" where
  "rotated (GoLt p q) l e r = Node l e (Node r p q)"
| "rotated (GoGt p q) l e r = Node (Node q p l) e r"

lemma inorder_rotated: "inorder (plug c (rotated st l e r)) = inorder (plug (st # c) (Node l e r))"
  by (cases st) (auto simp: inorder_plug)

lemma rotate_up_GoLt:
  assumes "zip_at s (GoLt p q # c) (Node l e r)"
  shows "\<exists>s'. schedule_rotate_up s (Some e) = Some s' \<and> zip_at s' c (Node l e (Node r p q))
    \<and> links_only (set (inorder (plug c (Node l e (Node r p q))))) s s'"
proof -
  obtain m ew root where s: "s = \<lparr>earliest_wakeup = ew, sch_root = root, sch_mem = m\<rparr>" by (cases s)
  have d: "distinct (ctx_l c @ inorder l @ e # inorder r @ p # inorder q @ ctx_r c)"
    using assms by (simp add: zip_at_def)
  have t: "ctx_at m root c (Some p) (se_parent (m p))" "se_lt (m p) = Some e" "tree_at m (Some p) (se_gt (m p)) q"
    "se_parent (m e) = Some p" "tree_at m (Some e) (se_lt (m e)) l" "tree_at m (Some e) (se_gt (m e)) r"
    using assms by (auto simp: zip_at_def s)
  have ne: "se_gt (m p) \<noteq> Some e" using t(3) d by (cases q) auto
  show ?thesis
  proof (cases c)
    case Nil
    then show ?thesis using d t ne
      by (cases r) (simp_all add: schedule_rotate_up_def s Let_def upd_def zip_at_def links_only_def)
  next
    case (Cons st c')
    then show ?thesis
    proof (cases st)
      case (GoLt g b)
      have "se_gt (m g) \<noteq> Some p" using t(1) d Cons GoLt by (cases b) auto
      then show ?thesis using d t ne Cons GoLt
        by (cases r) (simp_all add: schedule_rotate_up_def s Let_def upd_def zip_at_def links_only_def)
    next
      case (GoGt g b)
      then show ?thesis using d t ne Cons
        by (cases r) (simp_all add: schedule_rotate_up_def s Let_def upd_def zip_at_def links_only_def)
    qed
  qed
qed

lemma rotate_up_GoGt:
  assumes "zip_at s (GoGt p q # c) (Node l e r)"
  shows "\<exists>s'. schedule_rotate_up s (Some e) = Some s' \<and> zip_at s' c (Node (Node q p l) e r)
    \<and> links_only (set (inorder (plug c (Node (Node q p l) e r)))) s s'"
proof -
  obtain m ew root where s: "s = \<lparr>earliest_wakeup = ew, sch_root = root, sch_mem = m\<rparr>" by (cases s)
  have d: "distinct (ctx_l c @ inorder q @ p # inorder l @ e # inorder r @ ctx_r c)"
    using assms by (simp add: zip_at_def)
  have t: "ctx_at m root c (Some p) (se_parent (m p))" "se_gt (m p) = Some e" "tree_at m (Some p) (se_lt (m p)) q"
    "se_parent (m e) = Some p" "tree_at m (Some e) (se_lt (m e)) l" "tree_at m (Some e) (se_gt (m e)) r"
    using assms by (auto simp: zip_at_def s)
  show ?thesis
  proof (cases c)
    case Nil
    then show ?thesis using d t
      by (cases l) (simp_all add: schedule_rotate_up_def s Let_def upd_def zip_at_def links_only_def)
  next
    case (Cons st c')
    then show ?thesis
    proof (cases st)
      case (GoLt g b)
      have "se_gt (m g) \<noteq> Some p" using t(1) d Cons GoLt by (cases b) auto
      then show ?thesis using d t Cons GoLt
        by (cases l) (simp_all add: schedule_rotate_up_def s Let_def upd_def zip_at_def links_only_def)
    next
      case (GoGt g b)
      then show ?thesis using d t Cons
        by (cases l) (simp_all add: schedule_rotate_up_def s Let_def upd_def zip_at_def links_only_def)
    qed
  qed
qed

lemma rotate_up_rotated:
  assumes "zip_at s (st # c) (Node l e r)"
  obtains s' where "schedule_rotate_up s (Some e) = Some s'" "zip_at s' c (rotated st l e r)"
    "links_only (set_tree (plug (st # c) (Node l e r))) s s'"
proof (cases st)
  case (GoLt p q)
  have "set (inorder (plug c (rotated st l e r))) = set_tree (plug (st # c) (Node l e r))"
    unfolding inorder_rotated by simp
  then show ?thesis using rotate_up_GoLt[of s p q c l e r] assms that unfolding GoLt by (metis rotated.simps(1))
next
  case (GoGt p q)
  have "set (inorder (plug c (rotated st l e r))) = set_tree (plug (st # c) (Node l e r))"
    unfolding inorder_rotated by simp
  then show ?thesis using rotate_up_GoGt[of s p q c l e r] assms that unfolding GoGt by (metis rotated.simps(2))
qed

section \<open>The heap order of the priorities\<close>

definition heap_by :: "(nat \<Rightarrow> u32) \<Rightarrow> nat tree \<Rightarrow> bool" where
  "heap_by f t \<longleftrightarrow> heap (map_tree f t)"

lemma heap_by_simps [simp]:
  "heap_by f Leaf"
  "heap_by f (Node l a r) \<longleftrightarrow> heap_by f l \<and> heap_by f r \<and> (\<forall>x \<in> set_tree l \<union> set_tree r. f a \<le> f x)"
  by (auto simp: heap_by_def tree.set_map)

lemma heap_by_cong: "(\<And>a. a \<in> set_tree t \<Longrightarrow> f a = g a) \<Longrightarrow> heap_by f t = heap_by g t"
  by (induction t) auto

fun ctx_heap :: "(nat \<Rightarrow> u32) \<Rightarrow> step list \<Rightarrow> nat set \<Rightarrow> bool" where
  "ctx_heap f [] S = True"
| "ctx_heap f (GoLt a r # c) S \<longleftrightarrow> heap_by f r \<and> (\<forall>x \<in> S \<union> set_tree r. f a \<le> f x) \<and> ctx_heap f c (insert a (S \<union> set_tree r))"
| "ctx_heap f (GoGt a l # c) S \<longleftrightarrow> heap_by f l \<and> (\<forall>x \<in> S \<union> set_tree l. f a \<le> f x) \<and> ctx_heap f c (insert a (S \<union> set_tree l))"

lemma heap_plug: "heap_by f (plug c t) \<longleftrightarrow> heap_by f t \<and> ctx_heap f c (set_tree t)"
proof (induction c t rule: plug.induct)
  case (2 a r c t)
  have e: "insert a (set_tree t \<union> set_tree r) = set_tree \<langle>t, a, r\<rangle>" by auto
  show ?case unfolding plug.simps 2 ctx_heap.simps heap_by_simps e by blast
next
  case (3 a l c t)
  have e: "insert a (set_tree t \<union> set_tree l) = set_tree \<langle>l, a, t\<rangle>" by auto
  show ?case unfolding plug.simps 3 ctx_heap.simps heap_by_simps e by blast
qed simp

lemma ctx_heap_mono: "ctx_heap f c S \<Longrightarrow> T \<subseteq> S \<Longrightarrow> ctx_heap f c T"
proof (induction f c S arbitrary: T rule: ctx_heap.induct)
  case (2 f a r c S)
  have "ctx_heap f c (insert a (T \<union> set_tree r))"
    by (rule "2.IH") (use "2.prems" in \<open>simp, blast\<close>)
  then show ?case using "2.prems" unfolding ctx_heap.simps by blast
next
  case (3 f a l c S)
  have "ctx_heap f c (insert a (T \<union> set_tree l))"
    by (rule "3.IH") (use "3.prems" in \<open>simp, blast\<close>)
  then show ?case using "3.prems" unfolding ctx_heap.simps by blast
qed simp

section \<open>Removal\<close>

abbreviation pri_of :: "schedule \<Rightarrow> nat \<Rightarrow> u32" where
  "pri_of s a \<equiv> se_pri (sch_mem s a)"

text \<open>The focus, of which the heap order may be violated by the entry at its root only.\<close>

definition focus_heap :: "(nat \<Rightarrow> u32) \<Rightarrow> step list \<Rightarrow> nat tree \<Rightarrow> nat tree \<Rightarrow> bool" where
  "focus_heap f c l r \<longleftrightarrow> heap_by f l \<and> heap_by f r \<and> ctx_heap f c (set_tree l \<union> set_tree r)"

lemma links_only_pri: "links_only A s s' \<Longrightarrow> pri_of s' = pri_of s"
  by (auto simp: links_only_def)

lemma remove_step:
  assumes "zip_at s c (Node (Node l1 a l2) e r)" "focus_heap f c (Node l1 a l2) r" "\<forall>x \<in> set_tree r. f a \<le> f x"
  obtains s' where "schedule_rotate_up s (Some a) = Some s'" "zip_at s' (GoGt a l1 # c) (Node l2 e r)"
    "focus_heap f (GoGt a l1 # c) l2 r" "links_only (set_tree (plug c (Node (Node l1 a l2) e r))) s s'"
proof -
  have "zip_at s (GoLt e r # c) (Node l1 a l2)" using assms(1) by simp
  from rotate_up_rotated[OF this] obtain s' where s': "schedule_rotate_up s (Some a) = Some s'"
    "zip_at s' c (Node l1 a (Node l2 e r))" "links_only (set_tree (plug c (Node (Node l1 a l2) e r))) s s'"
    by auto
  have "insert a (set_tree l2 \<union> set_tree r \<union> set_tree l1) = set_tree (Node l1 a l2) \<union> set_tree r" by auto
  then have "focus_heap f (GoGt a l1 # c) l2 r"
    using assms(2,3) by (simp only: focus_heap_def ctx_heap.simps heap_by_simps) blast
  then show ?thesis using s' by (intro that) simp_all
qed

lemma remove_step':
  assumes "zip_at s c (Node l e (Node r1 a r2))" "focus_heap f c l (Node r1 a r2)" "\<forall>x \<in> set_tree l. f a \<le> f x"
  obtains s' where "schedule_rotate_up s (Some a) = Some s'" "zip_at s' (GoLt a r2 # c) (Node l e r1)"
    "focus_heap f (GoLt a r2 # c) l r1" "links_only (set_tree (plug c (Node l e (Node r1 a r2)))) s s'"
proof -
  have "zip_at s (GoGt e l # c) (Node r1 a r2)" using assms(1) by simp
  from rotate_up_rotated[OF this] obtain s' where s': "schedule_rotate_up s (Some a) = Some s'"
    "zip_at s' c (Node (Node l e r1) a r2)" "links_only (set_tree (plug c (Node l e (Node r1 a r2)))) s s'"
    by auto
  have "insert a (set_tree l \<union> set_tree r1 \<union> set_tree r2) = set_tree l \<union> set_tree (Node r1 a r2)" by auto
  then have "focus_heap f (GoLt a r2 # c) l r1"
    using assms(2,3) by (simp only: focus_heap_def ctx_heap.simps heap_by_simps) blast
  then show ?thesis using s' by (intro that) simp_all
qed

lemma zip_children:
  "zip_at s c (Node l e r) \<Longrightarrow> se_lt (sch_mem s e) = (case l of Leaf \<Rightarrow> None | Node _ a _ \<Rightarrow> Some a)
    \<and> se_gt (sch_mem s e) = (case r of Leaf \<Rightarrow> None | Node _ a _ \<Rightarrow> Some a)"
  by (auto simp: zip_at_def split: tree.splits)

lemma remove_loop_spec:
  assumes "zip_at s c (Node l e r)" "focus_heap f c l r" "f = pri_of s"
  shows "\<exists>s' c'. remove_loop s e = Some s' \<and> zip_at s' c' (Node Leaf e Leaf) \<and> ctx_heap f c' {}
    \<and> inorder (plug c' (Node Leaf e Leaf)) = inorder (plug c (Node l e r))
    \<and> links_only (set_tree (plug c (Node l e r))) s s'"
  using assms
proof (induction "size l + size r" arbitrary: s c l r rule: less_induct)
  case less
  have finish: ?case if step: "zip_at s1 c1 (Node l1 e r1)" "focus_heap f c1 l1 r1" "schedule_rotate_up s (Some a) = Some s1"
      "links_only (set_tree (plug c (Node l e r))) s s1" "size l1 + size r1 < size l + size r"
      "inorder (plug c1 (Node l1 e r1)) = inorder (plug c (Node l e r))"
      "remove_loop s e = do { s \<leftarrow> schedule_rotate_up s (Some a); remove_loop s e }" for s1 c1 l1 r1 a
  proof -
    have "f = pri_of s1" using less.prems(3) links_only_pri[OF step(4)] by simp
    from less.hyps[OF step(5,1,2) this] obtain s' c' where r: "remove_loop s1 e = Some s'"
      "zip_at s' c' (Node Leaf e Leaf)" "ctx_heap f c' {}"
      "inorder (plug c' (Node Leaf e Leaf)) = inorder (plug c1 (Node l1 e r1))"
      "links_only (set_tree (plug c1 (Node l1 e r1))) s1 s'" by blast
    have "set_tree (plug c1 (Node l1 e r1)) = set_tree (plug c (Node l e r))"
      using step(6) by (metis set_inorder)
    then show ?thesis using r step links_only_trans[OF step(4)] by auto
  qed
  note ch = zip_children[OF less.prems(1)]
  show ?case
  proof (cases l)
    case Leaf
    show ?thesis
    proof (cases r)
      case Leaf2: Leaf
      then show ?thesis using less.prems Leaf ch
        by (intro exI[of _ s] exI[of _ c]) (simp add: remove_loop.simps[of s e] focus_heap_def)
    next
      case (Node r1 a r2)
      obtain s1 where "schedule_rotate_up s (Some a) = Some s1" "zip_at s1 (GoLt a r2 # c) (Node l e r1)"
        "focus_heap f (GoLt a r2 # c) l r1" "links_only (set_tree (plug c (Node l e (Node r1 a r2)))) s s1"
        by (rule remove_step'[of s c l e r1 a r2 f]) (use less.prems Node Leaf in auto)
      then show ?thesis by (intro finish) (use Leaf Node ch in \<open>auto simp: inorder_plug remove_loop.simps[of s e]\<close>)
    qed
  next
    case l: (Node l1 a l2)
    show ?thesis
    proof (cases "r = Leaf \<or> (\<exists>r1 b r2. r = Node r1 b r2 \<and> pri_of s a < pri_of s b)")
      case True
      have ub: "\<forall>x \<in> set_tree r. f a \<le> f x"
      proof (cases r)
        case (Node r1 b r2)
        then have "f a \<le> f b" "heap_by f r" using True less.prems(2,3) by (auto simp: focus_heap_def)
        then show ?thesis unfolding Node by (auto dest: order_trans)
      qed simp
      obtain s1 where "schedule_rotate_up s (Some a) = Some s1" "zip_at s1 (GoGt a l1 # c) (Node l2 e r)"
        "focus_heap f (GoGt a l1 # c) l2 r" "links_only (set_tree (plug c (Node (Node l1 a l2) e r))) s s1"
        by (rule remove_step[of s c l1 a l2 e r f]) (use less.prems l ub in auto)
      then show ?thesis by (intro finish) (use l True ch in \<open>auto simp: inorder_plug remove_loop.simps[of s e]\<close>)
    next
      case False
      then obtain r1 b r2 where r: "r = Node r1 b r2" "pri_of s b \<le> pri_of s a" by (cases r) auto
      have ub: "\<forall>x \<in> set_tree l. f b \<le> f x" using r l less.prems(2,3) by (auto simp: focus_heap_def dest: order_trans)
      obtain s1 where "schedule_rotate_up s (Some b) = Some s1" "zip_at s1 (GoLt b r2 # c) (Node l e r1)"
        "focus_heap f (GoLt b r2 # c) l r1" "links_only (set_tree (plug c (Node l e (Node r1 b r2)))) s s1"
        by (rule remove_step'[of s c l e r1 b r2 f]) (use less.prems r ub in auto)
      then show ?thesis by (intro finish) (use l r ch in \<open>auto simp: inorder_plug remove_loop.simps[of s e]\<close>)
    qed
  qed
qed

lemma plug_append: "plug (c @ d) t = plug d (plug c t)"
  by (induction c t rule: plug.induct) auto

lemma focus_on: "e \<in> set_tree t \<Longrightarrow> \<exists>c l r. t = plug c (Node l e r)"
proof (induction t)
  case (Node l a r)
  consider "e = a" | "e \<in> set_tree l" | "e \<in> set_tree r" using Node.prems by auto
  then show ?case
  proof cases
    case 1
    then have "Node l a r = plug [] (Node l e r)" by simp
    then show ?thesis by blast
  next
    case 2
    then obtain c l' r' where "l = plug c (Node l' e r')" using Node.IH(1) by blast
    then have "Node l a r = plug (c @ [GoLt a r]) (Node l' e r')" by (simp add: plug_append)
    then show ?thesis by blast
  next
    case 3
    then obtain c l' r' where "r = plug c (Node l' e r')" using Node.IH(2) by blast
    then have "Node l a r = plug (c @ [GoGt a l]) (Node l' e r')" by (simp add: plug_append)
    then show ?thesis by blast
  qed
qed simp

definition unlinked :: "schedule_entry \<Rightarrow> bool" where
  "unlinked x \<longleftrightarrow> se_parent x = None \<and> se_lt x = None \<and> se_gt x = None"

lemma detach_spec:
  assumes "zip_at s c (Node Leaf e Leaf)"
  shows "\<exists>s'. schedule_detach_parent s e = Some s' \<and> zip_at s' c Leaf \<and> unlinked (sch_mem s' e)
    \<and> links_only (set_tree (plug c (Node Leaf e Leaf))) s s'"
proof -
  obtain m ew root where s: "s = \<lparr>earliest_wakeup = ew, sch_root = root, sch_mem = m\<rparr>" by (cases s)
  have d: "distinct (ctx_l c @ e # ctx_r c)" using assms by (simp add: zip_at_def)
  have t: "ctx_at m root c (Some e) (se_parent (m e))" "se_lt (m e) = None" "se_gt (m e) = None"
    using assms by (auto simp: zip_at_def s)
  show ?thesis
  proof (cases c)
    case Nil
    then show ?thesis using d t
      by (simp add: schedule_detach_parent_def s upd_def zip_at_def links_only_def unlinked_def)
  next
    case (Cons st c')
    then show ?thesis
    proof (cases st)
      case (GoLt g b)
      then show ?thesis using d t Cons
        by (simp add: schedule_detach_parent_def s upd_def zip_at_def links_only_def unlinked_def)
    next
      case (GoGt g b)
      have "se_lt (m g) \<noteq> Some e" using t(1) d Cons GoGt by (cases b) auto
      then show ?thesis using d t Cons GoGt
        by (simp add: schedule_detach_parent_def s upd_def zip_at_def links_only_def unlinked_def)
    qed
  qed
qed

lemma zip_at_pri [simp]:
  "zip_at (upd e (se_pri_update g) s) c t \<longleftrightarrow> zip_at s c t"
  "zip_at (upd e (se_tv_update h) s) c t \<longleftrightarrow> zip_at s c t"
proof -
  have "ctx_at ((sch_mem s)(e := x)) root c p par = ctx_at (sch_mem s) root c p par"
    "tree_at ((sch_mem s)(e := x)) par p t = tree_at (sch_mem s) par p t"
    if "se_parent x = se_parent (sch_mem s e)" "se_lt x = se_lt (sch_mem s e)" "se_gt x = se_gt (sch_mem s e)"
    for x root p par
    using that by (auto intro!: ctx_at_cong tree_at_cong)
  then show "zip_at (upd e (se_pri_update g) s) c t \<longleftrightarrow> zip_at s c t"
    "zip_at (upd e (se_tv_update h) s) c t \<longleftrightarrow> zip_at s c t"
    by (simp_all add: zip_at_def upd_def)
qed

text \<open>An operation that keeps all data but the priority of \<open>e\<close>, and the entries outside \<open>A\<close>.\<close>

definition same_but :: "nat \<Rightarrow> nat set \<Rightarrow> schedule \<Rightarrow> schedule \<Rightarrow> bool" where
  "same_but e A s s' \<longleftrightarrow> earliest_wakeup s' = earliest_wakeup s
     \<and> (\<forall>a. se_tv (sch_mem s' a) = se_tv (sch_mem s a) \<and> (a \<noteq> e \<longrightarrow> pri_of s' a = pri_of s a))
     \<and> (\<forall>a. a \<notin> A \<longrightarrow> sch_mem s' a = sch_mem s a)"

lemma remove_node_spec:
  assumes "zip_at s [] t" "heap_by (pri_of s) t" "e \<in> set_tree t"
  shows "\<exists>s' t'. schedule_remove_node s e = Some s' \<and> zip_at s' [] t' \<and> heap_by (pri_of s') t'
    \<and> inorder t' = removeAll e (inorder t) \<and> pri_of s' e = 0 \<and> unlinked (sch_mem s' e)
    \<and> same_but e (set_tree t) s s'"
proof -
  obtain c l r where t: "t = plug c (Node l e r)" using focus_on[OF assms(3)] by blast
  have z: "zip_at s c (Node l e r)" using assms(1) unfolding t zip_plug[symmetric] .
  have h: "focus_heap (pri_of s) c l r"
    using assms(2) unfolding t heap_plug by (auto simp: focus_heap_def elim: ctx_heap_mono)
  obtain s1 c' where s1: "remove_loop s e = Some s1" "zip_at s1 c' (Node Leaf e Leaf)" "ctx_heap (pri_of s) c' {}"
    "inorder (plug c' (Node Leaf e Leaf)) = inorder t" "links_only (set_tree t) s s1"
    using remove_loop_spec[OF z h refl] unfolding t by blast
  obtain s2 where s2: "schedule_detach_parent s1 e = Some s2" "zip_at s2 c' Leaf" "unlinked (sch_mem s2 e)"
    "links_only (set_tree (plug c' (Node Leaf e Leaf))) s1 s2"
    using detach_spec[OF s1(2)] by blast
  have st: "set_tree (plug c' (Node Leaf e Leaf)) = set_tree t" using s1(4) by (metis set_inorder)
  have l2: "links_only (set_tree t) s s2" using links_only_trans[OF s1(5)] s2(4) unfolding st by blast
  have d: "distinct (inorder t)" using assms(1) by (simp add: zip_at_def)
  then have ino: "inorder (plug c' Leaf) = removeAll e (inorder t)"
    unfolding s1(4)[symmetric] by (simp add: inorder_plug)
  define s3 where "s3 = upd e (se_pri_update (\<lambda>_. 0)) s2"
  have "e \<notin> set_tree (plug c' Leaf)" using arg_cong[OF ino, of set] by (simp only: set_inorder set_removeAll) blast
  then have "heap_by (pri_of s3) (plug c' Leaf) = heap_by (pri_of s) (plug c' Leaf)"
    by (intro heap_by_cong) (use l2 in \<open>auto simp: links_only_def s3_def upd_def\<close>)
  then have "heap_by (pri_of s3) (plug c' Leaf)" using s1(3) by (simp add: heap_plug)
  moreover have "schedule_remove_node s e = Some s3" using s1(1) s2(1) by (simp add: schedule_remove_node_def s3_def)
  moreover have "zip_at s3 [] (plug c' Leaf)" using s2(2) unfolding s3_def zip_at_pri zip_plug[symmetric] .
  moreover have "pri_of s3 e = 0" "unlinked (sch_mem s3 e)" using s2(3) by (simp_all add: s3_def upd_def unlinked_def)
  moreover have "same_but e (set_tree t) s s3"
    using l2 assms(3) by (simp add: same_but_def links_only_def s3_def upd_def)
  ultimately show ?thesis using ino by blast
qed

lemma remove_node_out:
  assumes "zip_at s [] t" "e \<notin> set_tree t" "unlinked (sch_mem s e)"
  shows "schedule_remove_node s e = Some (upd e (se_pri_update (\<lambda>_. 0)) s)"
proof -
  have "sch_root s \<noteq> Some e" using assms(1,2) by (cases t) (auto simp: zip_at_def)
  then show ?thesis using assms(3)
    by (simp add: schedule_remove_node_def remove_loop.simps[of s e] schedule_detach_parent_def unlinked_def)
qed

section \<open>Insertion\<close>

text \<open>The key of an entry, with the lexicographic order of the library.\<close>

definition entry_key :: "schedule_entry \<Rightarrow> int \<times> int \<times> u32" where
  "entry_key x = (tv_sec (se_tv x), tv_usec (se_tv x), se_pri x)"

lemma compare_key:
  "schedule_entry_compare x y = (if entry_key x < entry_key y then -1 else if entry_key x = entry_key y then 0 else 1)"
  by (auto simp: schedule_entry_compare_def entry_key_def)

abbreviation key :: "schedule \<Rightarrow> nat \<Rightarrow> int \<times> int \<times> u32" where
  "key s a \<equiv> entry_key (sch_mem s a)"

abbreviation sorted_keys :: "(nat \<Rightarrow> int \<times> int \<times> u32) \<Rightarrow> nat list \<Rightarrow> bool" where
  "sorted_keys k xs \<equiv> sorted_wrt (\<lambda>a b. k a < k b) xs"

text \<open>The new leaf.\<close>

definition inserted :: "schedule \<Rightarrow> nat \<Rightarrow> nat tree \<Rightarrow> schedule \<Rightarrow> step list \<Rightarrow> bool" where
  "inserted s e t s' c \<longleftrightarrow> zip_at s' c (Node Leaf e Leaf) \<and> plug c Leaf = t
     \<and> sorted_keys (key s) (inorder (plug c (Node Leaf e Leaf))) \<and> links_only (insert e (set_tree t)) s s'"

lemma insert_leaf:
  assumes "zip_at s c Leaf" "c = st # c'" "unlinked (sch_mem s e)" "e \<notin> set_tree (plug c Leaf)"
    and "s' = upd e (se_parent_update (\<lambda>_. Some g)) (upd g u s)"
    and "(\<exists>b. st = GoLt g b \<and> u = se_lt_update (\<lambda>_. Some e)) \<or> (\<exists>b. st = GoGt g b \<and> u = se_gt_update (\<lambda>_. Some e))"
  shows "zip_at s' c (Node Leaf e Leaf) \<and> links_only (insert e (set_tree (plug c Leaf))) s s'"
proof -
  obtain m ew root where s: "s = \<lparr>earliest_wakeup = ew, sch_root = root, sch_mem = m\<rparr>" by (cases s)
  have u: "se_lt (m e) = None" "se_gt (m e) = None" "se_parent (m e) = None" using assms(3) by (auto simp: unlinked_def s)
  have z: "zip_at s c Leaf" "e \<notin> set (ctx_l c) \<union> set (ctx_r c)" using assms(1,4) by auto
  show ?thesis using assms(6)
  proof (elim disjE exE conjE)
    fix b assume "st = GoLt g b" "u = se_lt_update (\<lambda>_. Some e)"
    then show ?thesis using z assms(2,5) u by (auto simp: zip_at_def s upd_def links_only_def)
  next
    fix b assume "st = GoGt g b" "u = se_gt_update (\<lambda>_. Some e)"
    then show ?thesis using z assms(2,5) u by (auto simp: zip_at_def s upd_def links_only_def)
  qed
qed

lemma insert_path:
  assumes "zip_at s c (Node l a r)" "unlinked (sch_mem s e)" "e \<notin> set_tree (plug c (Node l a r))"
    and "sorted_keys (key s) (inorder (plug c (Node l a r)))"
    and "\<forall>x \<in> set (ctx_l c). key s x < key s e" "\<forall>x \<in> set (ctx_r c). key s e < key s x"
  shows "(\<exists>s' c'. insert_loop s e (Some a) rnd = Some (s', rnd) \<and> inserted s e (plug c (Node l a r)) s' c')
    \<or> (\<exists>x \<in> set_tree (Node l a r). key s x = key s e) \<and>
       insert_loop s e (Some a) rnd = do { (s, rnd) \<leftarrow> schedule_set_pri s e rnd; insert_loop s e (sch_root s) rnd }"
  using assms
proof (induction "size l + size r" arbitrary: c l a r rule: less_induct)
  case less
  let ?t = "plug c (Node l a r)"
  note srt = less.prems(4)[unfolded inorder_plug]
  have step: "insert_loop s e (Some a) rnd =
     (if key s e < key s a then
        (case se_lt (sch_mem s a) of Some l \<Rightarrow> insert_loop s e (Some l) rnd
         | None \<Rightarrow> Some (upd e (se_parent_update (\<lambda>_. Some a)) (upd a (se_lt_update (\<lambda>_. Some e)) s), rnd))
      else if key s e = key s a then do { (s, rnd) \<leftarrow> schedule_set_pri s e rnd; insert_loop s e (sch_root s) rnd }
      else (case se_gt (sch_mem s a) of Some r \<Rightarrow> insert_loop s e (Some r) rnd
         | None \<Rightarrow> Some (upd e (se_parent_update (\<lambda>_. Some a)) (upd a (se_gt_update (\<lambda>_. Some e)) s), rnd)))"
    by (simp add: insert_loop.simps[of s e "Some a"] compare_key Let_def)
  note ch = zip_children[OF less.prems(1)]
  consider "key s e < key s a" | "key s e = key s a" | "key s a < key s e" by fastforce
  then show ?case
  proof cases
    case 1
    have side: "\<forall>x \<in> set (ctx_r (GoLt a r # c)). key s e < key s x"
      using 1 srt less.prems(6) by (auto simp: sorted_wrt_append intro: less_trans)
    show ?thesis
    proof (cases l)
      case Leaf
      let ?s = "upd e (se_parent_update (\<lambda>_. Some a)) (upd a (se_lt_update (\<lambda>_. Some e)) s)"
      have "zip_at ?s (GoLt a r # c) (Node Leaf e Leaf) \<and> links_only (insert e (set_tree (plug (GoLt a r # c) Leaf))) s ?s"
        by (rule insert_leaf[OF _ refl less.prems(2) _ refl]) (use less.prems Leaf in auto)
      moreover have "sorted_keys (key s) (ctx_l c @ e # a # inorder r @ ctx_r c)"
        using srt side less.prems(5) Leaf by (auto simp: sorted_wrt_append)
      ultimately have "inserted s e ?t ?s (GoLt a r # c)" using Leaf by (simp add: inserted_def inorder_plug)
      moreover have "insert_loop s e (Some a) rnd = Some (?s, rnd)" using step 1 ch Leaf by simp
      ultimately show ?thesis by blast
    next
      case (Node l1 b l2)
      have "(\<exists>s' c'. insert_loop s e (Some b) rnd = Some (s', rnd) \<and> inserted s e (plug (GoLt a r # c) (Node l1 b l2)) s' c')
        \<or> (\<exists>x \<in> set_tree (Node l1 b l2). key s x = key s e) \<and>
          insert_loop s e (Some b) rnd = do { (s, rnd) \<leftarrow> schedule_set_pri s e rnd; insert_loop s e (sch_root s) rnd }"
        by (rule less.hyps) (use less.prems side Node in auto)
      then show ?thesis using step 1 ch Node by auto
    qed
  next
    case 2
    then show ?thesis using step by auto
  next
    case 3
    have side: "\<forall>x \<in> set (ctx_l (GoGt a l # c)). key s x < key s e"
      using 3 srt less.prems(5) by (auto simp: sorted_wrt_append intro: less_trans)
    have n: "\<not> key s e < key s a" "key s e \<noteq> key s a" using 3 by auto
    show ?thesis
    proof (cases r)
      case Leaf
      let ?s = "upd e (se_parent_update (\<lambda>_. Some a)) (upd a (se_gt_update (\<lambda>_. Some e)) s)"
      have "zip_at ?s (GoGt a l # c) (Node Leaf e Leaf) \<and> links_only (insert e (set_tree (plug (GoGt a l # c) Leaf))) s ?s"
        by (rule insert_leaf[OF _ refl less.prems(2) _ refl]) (use less.prems Leaf in auto)
      moreover have "sorted_keys (key s) (ctx_l c @ inorder l @ a # e # ctx_r c)"
        using srt side less.prems(6) Leaf by (auto simp: sorted_wrt_append)
      ultimately have "inserted s e ?t ?s (GoGt a l # c)" using Leaf by (simp add: inserted_def inorder_plug)
      moreover have "insert_loop s e (Some a) rnd = Some (?s, rnd)" using step n ch Leaf by simp
      ultimately show ?thesis by blast
    next
      case (Node r1 b r2)
      have "(\<exists>s' c'. insert_loop s e (Some b) rnd = Some (s', rnd) \<and> inserted s e (plug (GoGt a l # c) (Node r1 b r2)) s' c')
        \<or> (\<exists>x \<in> set_tree (Node r1 b r2). key s x = key s e) \<and>
          insert_loop s e (Some b) rnd = do { (s, rnd) \<leftarrow> schedule_set_pri s e rnd; insert_loop s e (sch_root s) rnd }"
        by (rule less.hyps) (use less.prems side Node in auto)
      then show ?thesis using step n ch Node by auto
    qed
  qed
qed

definition new_pri :: "u32 \<Rightarrow> u32" where
  "new_pri r = (if r < 1 then 1 else r)"

lemma set_pri_Cons: "schedule_set_pri s e (r # rnd) = Some (upd e (se_pri_update (\<lambda>_. new_pri r)) s, rnd)"
  by (cases "r < 1") (auto simp: new_pri_def upd_def Let_def fun_upd_def intro!: arg_cong[where f = "\<lambda>m. s\<lparr>sch_mem := m\<rparr>"])

lemma new_pri_nz: "new_pri r \<noteq> 0"
  by (simp add: new_pri_def)

lemma sorted_keys_cong:
  "sorted_keys k xs \<Longrightarrow> (\<And>a. a \<in> set xs \<Longrightarrow> k' a = k a) \<Longrightarrow> sorted_keys k' xs"
  by (erule sorted_wrt_mono_rel[rotated]) simp

lemma same_but_key: "same_but e A s s' \<Longrightarrow> a \<noteq> e \<Longrightarrow> key s' a = key s a"
  by (simp add: same_but_def entry_key_def)

lemma links_only_same: "links_only A s s' \<Longrightarrow> same_but e A s s'"
  by (simp add: links_only_def same_but_def)

lemma same_but_trans: "same_but e A s s' \<Longrightarrow> same_but e A s' s'' \<Longrightarrow> same_but e A s s''"
  by (auto simp: same_but_def)

lemma same_but_pri [simp]: "e \<in> A \<Longrightarrow> same_but e A s (upd e (se_pri_update g) s)"
  by (auto simp: same_but_def upd_def)

lemma insert_spec:
  assumes "zip_at s [] t" "t \<noteq> Leaf" "e \<notin> set_tree t" "unlinked (sch_mem s e)" "sorted_keys (key s) (inorder t)"
    and "pri_of s e \<noteq> 0"
    and "(\<forall>x \<in> set_tree t. pri_of s x \<noteq> pri_of s e) \<or> (\<exists>r \<in> set rnd. \<forall>x \<in> set_tree t. pri_of s x \<noteq> new_pri r)"
  shows "\<exists>s' rnd' c. schedule_insert s e rnd = Some (s', rnd') \<and> zip_at s' c (Node Leaf e Leaf) \<and> plug c Leaf = t
    \<and> sorted_keys (key s') (inorder (plug c (Node Leaf e Leaf))) \<and> pri_of s' e \<noteq> 0
    \<and> same_but e (insert e (set_tree t)) s s'"
  using assms
proof (induction rnd arbitrary: s)
  have path: "(\<exists>s' rnd' c. schedule_insert s e rnd = Some (s', rnd') \<and> zip_at s' c (Node Leaf e Leaf) \<and> plug c Leaf = t
      \<and> sorted_keys (key s') (inorder (plug c (Node Leaf e Leaf))) \<and> pri_of s' e \<noteq> 0
      \<and> same_but e (insert e (set_tree t)) s s')
    \<or> (\<exists>x \<in> set_tree t. pri_of s x = pri_of s e) \<and>
      schedule_insert s e rnd = do { (s, rnd) \<leftarrow> schedule_set_pri s e rnd; schedule_insert s e rnd }"
    if a: "zip_at s [] t" "t \<noteq> Leaf" "e \<notin> set_tree t" "unlinked (sch_mem s e)" "sorted_keys (key s) (inorder t)"
      "pri_of s e \<noteq> 0" for s rnd
  proof -
    obtain l b r where t: "t = Node l b r" using a(2) by (cases t) auto
    have root: "sch_root s = Some b" using a(1) by (auto simp: zip_at_def t)
    have "(\<exists>s' c'. insert_loop s e (Some b) rnd = Some (s', rnd) \<and> inserted s e t s' c')
      \<or> (\<exists>x \<in> set_tree t. key s x = key s e) \<and>
       insert_loop s e (Some b) rnd = do { (s, rnd) \<leftarrow> schedule_set_pri s e rnd; insert_loop s e (sch_root s) rnd }"
      using insert_path[of s "[]" l b r e rnd] a unfolding t by simp
    then show ?thesis
    proof (elim disjE conjE exE)
      fix s' c' assume i: "insert_loop s e (Some b) rnd = Some (s', rnd)" "inserted s e t s' c'"
      then have l: "links_only (insert e (set_tree t)) s s'" by (simp add: inserted_def)
      have "sorted_keys (key s') (inorder (plug c' (Node Leaf e Leaf)))"
        by (rule sorted_keys_cong[of "key s"]) (use i(2) l in \<open>auto simp: inserted_def links_only_def entry_key_def\<close>)
      moreover have "pri_of s' e \<noteq> 0" using a(6) l by (simp add: links_only_def)
      ultimately show ?thesis using i links_only_same[OF l]
        by (intro disjI1 exI[of _ s'] exI[of _ rnd] exI[of _ c']) (simp add: inserted_def schedule_insert_def root)
    next
      assume "\<exists>x \<in> set_tree t. key s x = key s e"
      then have "\<exists>x \<in> set_tree t. pri_of s x = pri_of s e" by (auto simp: entry_key_def)
      moreover assume "insert_loop s e (Some b) rnd = do { (s, rnd) \<leftarrow> schedule_set_pri s e rnd; insert_loop s e (sch_root s) rnd }"
      ultimately show ?thesis by (simp add: schedule_insert_def root)
    qed
  qed
  {
    case Nil
    then show ?case using path[of s "[]"] by auto
  next
    case (Cons r rnd)
    from path[OF Cons.prems(1-6), of "r # rnd"] show ?case
    proof (elim disjE conjE)
      assume c: "\<exists>x \<in> set_tree t. pri_of s x = pri_of s e"
        "schedule_insert s e (r # rnd) = do { (s, rnd) \<leftarrow> schedule_set_pri s e (r # rnd); schedule_insert s e rnd }"
      define s1 where "s1 = upd e (se_pri_update (\<lambda>_. new_pri r)) s"
      have p1: "pri_of s1 x = (if x = e then new_pri r else pri_of s x)" for x by (simp add: s1_def upd_def)
      have eq: "schedule_insert s e (r # rnd) = schedule_insert s1 e rnd" using c(2) by (simp only: set_pri_Cons s1_def) simp
      have k1: "key s1 x = key s x" if "x \<noteq> e" for x using that by (simp add: s1_def upd_def)
      have "\<exists>s' rnd' c. schedule_insert s1 e rnd = Some (s', rnd') \<and> zip_at s' c (Node Leaf e Leaf) \<and> plug c Leaf = t
        \<and> sorted_keys (key s') (inorder (plug c (Node Leaf e Leaf))) \<and> pri_of s' e \<noteq> 0
        \<and> same_but e (insert e (set_tree t)) s1 s'"
      proof (rule Cons.IH)
        show "zip_at s1 [] t" using Cons.prems(1) by (simp add: s1_def)
        show "unlinked (sch_mem s1 e)" using Cons.prems(4) by (simp add: s1_def upd_def unlinked_def)
        show "sorted_keys (key s1) (inorder t)"
        proof (rule sorted_keys_cong[of "key s" "inorder t" "key s1", OF Cons.prems(5)])
          fix a assume "a \<in> set (inorder t)"
          then have "a \<noteq> e" using Cons.prems(3) by (metis set_inorder)
          then show "key s1 a = key s a" by (rule k1)
        qed
        show "pri_of s1 e \<noteq> 0" using new_pri_nz by (simp only: p1 if_True refl) blast
        show "(\<forall>x \<in> set_tree t. pri_of s1 x \<noteq> pri_of s1 e) \<or> (\<exists>r \<in> set rnd. \<forall>x \<in> set_tree t. pri_of s1 x \<noteq> new_pri r)"
        proof -
          have ne: "x \<noteq> e" if "x \<in> set_tree t" for x using that Cons.prems(3) by blast
          obtain r' where r': "r' \<in> set (r # rnd)" "\<forall>x \<in> set_tree t. pri_of s x \<noteq> new_pri r'"
            using Cons.prems(7) c(1) by blast
          then have "\<forall>x \<in> set_tree t. pri_of s1 x \<noteq> new_pri r'" using ne by (metis p1)
          moreover have "pri_of s1 e = new_pri r" by (simp only: p1 if_True refl)
          ultimately show ?thesis using r'(1) by (cases "r' = r") (simp_all only: set_simps insert_iff simp_thms, blast+)
        qed
      qed (use Cons.prems in auto)
      moreover have "same_but e (insert e (set_tree t)) s s1" by (simp add: s1_def)
      ultimately show ?thesis unfolding eq using same_but_trans by (elim exE conjE) (intro exI conjI; assumption?; blast)
    qed
  }
qed

section \<open>Rotation to the place of the priority\<close>

lemma ctx_heap_insert: "ctx_heap f c S \<Longrightarrow> x \<in> S \<Longrightarrow> f x \<le> f y \<Longrightarrow> ctx_heap f c (insert y S)"
proof (induction f c S rule: ctx_heap.induct)
  case (2 f a r c S)
  have "insert y (insert a (S \<union> set_tree r)) = insert a (insert y S \<union> set_tree r)" by auto
  then have "ctx_heap f c (insert a (insert y S \<union> set_tree r))" using 2 by auto
  moreover have "f a \<le> f y" using 2 by (auto intro: order_trans)
  ultimately show ?case using "2.prems"(1) by simp
next
  case (3 f a l c S)
  have "insert y (insert a (S \<union> set_tree l)) = insert a (insert y S \<union> set_tree l)" by auto
  then have "ctx_heap f c (insert a (insert y S \<union> set_tree l))" using 3 by auto
  moreover have "f a \<le> f y" using 3 by (auto intro: order_trans)
  ultimately show ?case using "3.prems"(1) by simp
qed simp

lemma ctx_heap_child:
  assumes "ctx_heap f (st # c) S" "(\<exists>q. st = GoLt p q) \<or> (\<exists>q. st = GoGt p q)" "f p \<le> f e"
  shows "ctx_heap f (st # c) (insert e S)"
proof -
  obtain q where st: "st = GoLt p q \<or> st = GoGt p q" using assms(2) by blast
  have "insert e (insert p (S \<union> set_tree q)) = insert p (insert e S \<union> set_tree q)" by auto
  moreover have "ctx_heap f c (insert e (insert p (S \<union> set_tree q)))"
    by (rule ctx_heap_insert[of f c _ p]) (use assms(1,3) st in auto)
  ultimately have "ctx_heap f c (insert p (insert e S \<union> set_tree q))" by simp
  then show ?thesis using assms(1,3) st by auto
qed

lemma rotate_loop_spec:
  assumes "zip_at s c (Node l e r)" "focus_heap f c l r" "f = pri_of s" "\<forall>x \<in> set_tree l \<union> set_tree r. f e \<le> f x"
  shows "\<exists>s' t. rotate_loop s e = Some s' \<and> zip_at s' [] t \<and> heap_by f t
    \<and> inorder t = inorder (plug c (Node l e r)) \<and> links_only (set_tree (plug c (Node l e r))) s s'"
  using assms
proof (induction c arbitrary: s l r)
  case Nil
  then have "se_parent (sch_mem s e) = None" by (auto simp: zip_at_def)
  then show ?case using Nil
    by (intro exI[of _ s] exI[of _ "Node l e r"]) (simp add: rotate_loop.simps[of s e] focus_heap_def)
next
  case (Cons st c)
  obtain p q where p: "se_parent (sch_mem s e) = Some p" and st: "st = GoLt p q \<or> st = GoGt p q"
    using Cons.prems(1)[unfolded zip_at_def] by (cases st) auto
  have h: "heap_by f l" "heap_by f r" "ctx_heap f (st # c) (set_tree l \<union> set_tree r)"
    using Cons.prems(2) by (auto simp: focus_heap_def)
  show ?case
  proof (cases "pri_of s p > pri_of s e")
    case False
    then have pe: "f p \<le> f e" using Cons.prems(3) by simp
    have "ctx_heap f (st # c) (set_tree (Node l e r))"
      using ctx_heap_child[OF h(3) _ pe] st by auto
    then have "heap_by f (plug (st # c) (Node l e r))" unfolding heap_plug using h Cons.prems(4) by simp
    then show ?thesis using Cons.prems(1) p False zip_plug[of s "st # c"]
      by (intro exI[of _ s] exI[of _ "plug (st # c) (Node l e r)"]) (simp add: rotate_loop.simps[of s e])
  next
    case True
    then have ep: "f e \<le> f p" using Cons.prems(3) by simp
    obtain s1 where s1: "schedule_rotate_up s (Some e) = Some s1" "zip_at s1 c (rotated st l e r)"
      "links_only (set_tree (plug (st # c) (Node l e r))) s s1"
      using rotate_up_rotated[OF Cons.prems(1)] by blast
    obtain l' r' where lr: "rotated st l e r = Node l' e r'" using st by auto
    have "set_tree l' \<union> set_tree r' = insert p (set_tree l \<union> set_tree r \<union> set_tree q)" using st lr by auto
    then have "focus_heap f c l' r'" "\<forall>x \<in> set_tree l' \<union> set_tree r'. f e \<le> f x"
      using h st lr ep Cons.prems(4) by (auto simp: focus_heap_def intro: order_trans)
    moreover have "f = pri_of s1" using Cons.prems(3) links_only_pri[OF s1(3)] by simp
    ultimately obtain s' t where t: "rotate_loop s1 e = Some s'" "zip_at s' [] t" "heap_by f t"
      "inorder t = inorder (plug c (Node l' e r'))" "links_only (set_tree (plug c (Node l' e r'))) s1 s'"
      using Cons.IH s1(2) unfolding lr by blast
    have i: "inorder (plug c (Node l' e r')) = inorder (plug (st # c) (Node l e r))"
      unfolding lr[symmetric] by (rule inorder_rotated)
    then have "set_tree (plug c (Node l' e r')) = set_tree (plug (st # c) (Node l e r))" by (metis set_inorder)
    then have "links_only (set_tree (plug (st # c) (Node l e r))) s s'" using links_only_trans[OF s1(3)] t(5) by simp
    moreover have "rotate_loop s e = Some s'" using p True s1(1) t(1) by (simp add: rotate_loop.simps[of s e])
    ultimately show ?thesis using t i by metis
  qed
qed

section \<open>The invariant, and the operations on it\<close>

definition members :: "schedule \<Rightarrow> nat tree \<Rightarrow> bool" where
  "members s t \<longleftrightarrow> (\<forall>a. if a \<in> set_tree t then pri_of s a \<noteq> 0 else pri_of s a = 0 \<and> unlinked (sch_mem s a))"

text \<open>A treap of exactly the scheduled entries, of which the key of \<open>e\<close> is being changed.\<close>

definition treap_but :: "nat \<Rightarrow> schedule \<Rightarrow> nat tree \<Rightarrow> bool" where
  "treap_but e s t \<longleftrightarrow> zip_at s [] t \<and> heap_by (pri_of s) t \<and> sorted_keys (key s) (removeAll e (inorder t)) \<and> members s t"

definition treap :: "schedule \<Rightarrow> nat tree \<Rightarrow> bool" where
  "treap s t \<longleftrightarrow> zip_at s [] t \<and> heap_by (pri_of s) t \<and> sorted_keys (key s) (inorder t) \<and> members s t"

definition cache_ok :: "schedule \<Rightarrow> nat tree \<Rightarrow> bool" where
  "cache_ok s t \<longleftrightarrow> (\<forall>a. earliest_wakeup s = Some a \<longrightarrow> t \<noteq> Leaf \<and> a = hd (inorder t))"

definition sched_inv :: "schedule \<Rightarrow> bool" where
  "sched_inv s \<longleftrightarrow> (\<exists>t. treap s t \<and> cache_ok s t)"

text \<open>The random numbers contain a priority that no other entry has.\<close>

definition fresh_rnd :: "schedule \<Rightarrow> nat \<Rightarrow> u32 list \<Rightarrow> bool" where
  "fresh_rnd s e rnd \<longleftrightarrow> (\<exists>r \<in> set rnd. \<forall>a. a \<noteq> e \<longrightarrow> pri_of s a \<noteq> new_pri r)"

lemma treap_but: "treap s t \<Longrightarrow> treap_but e s t"
  by (auto simp: treap_def treap_but_def removeAll_filter_not_eq sorted_wrt_filter)

lemma remove_members:
  assumes "treap_but e s t"
  shows "\<exists>s' t'. schedule_remove_node s e = Some s' \<and> treap s' t' \<and> set_tree t' = set_tree t - {e}
    \<and> inorder t' = removeAll e (inorder t) \<and> same_but e (insert e (set_tree t)) s s' \<and> pri_of s' e = 0"
proof (cases "e \<in> set_tree t")
  case True
  note a = assms[unfolded treap_but_def]
  obtain s' t' where r: "schedule_remove_node s e = Some s'" "zip_at s' [] t'" "heap_by (pri_of s') t'"
    "inorder t' = removeAll e (inorder t)" "pri_of s' e = 0" "unlinked (sch_mem s' e)" "same_but e (set_tree t) s s'"
    using remove_node_spec[of s t e] a True by blast
  have st: "set_tree t' = set_tree t - {e}" using arg_cong[OF r(4), of set] by (simp only: set_inorder set_removeAll)
  have "sorted_keys (key s') (inorder t')"
    by (rule sorted_keys_cong[of "key s"]) (use a r(4) st in \<open>auto intro: same_but_key[OF r(7)]\<close>)
  moreover have "members s' t'"
    using a r(5-7) st unfolding members_def same_but_def by (metis DiffD1 DiffD2 DiffI singletonD singletonI)
  ultimately show ?thesis using r st by (auto simp: treap_def insert_absorb[OF True])
next
  case False
  then have "pri_of s e = 0" "unlinked (sch_mem s e)" using assms by (auto simp: treap_but_def members_def)
  then have "upd e (se_pri_update (\<lambda>_. 0)) s = s" by (cases s) (auto simp: upd_def fun_eq_iff)
  moreover have "removeAll e (inorder t) = inorder t" using False by simp
  ultimately show ?thesis using remove_node_out[of s t e] False assms \<open>unlinked (sch_mem s e)\<close> \<open>pri_of s e = 0\<close>
    by (auto simp: treap_but_def treap_def same_but_def)
qed

lemma insert_any:
  assumes "treap s t" "e \<notin> set_tree t" "fresh_rnd s e (r # rnd)"
  defines "s2 \<equiv> upd e (se_pri_update (\<lambda>_. new_pri r)) s"
  shows "\<exists>s' rnd' c. (if sch_root s2 \<noteq> None then schedule_insert s2 e rnd else Some (s2\<lparr>sch_root := Some e\<rparr>, rnd)) = Some (s', rnd')
    \<and> zip_at s' c (Node Leaf e Leaf) \<and> plug c Leaf = t
    \<and> sorted_keys (key s') (inorder (plug c (Node Leaf e Leaf))) \<and> pri_of s' e \<noteq> 0
    \<and> same_but e (insert e (set_tree t)) s2 s'"
proof -
  have p2: "pri_of s2 x = (if x = e then new_pri r else pri_of s x)" for x by (simp add: s2_def upd_def)
  have nz: "pri_of s2 e \<noteq> 0" using new_pri_nz by (simp only: p2 if_True refl) blast
  have k2: "key s2 x = key s x" if "x \<noteq> e" for x using that by (simp add: s2_def upd_def)
  have "unlinked (sch_mem s e)" using assms(1,2) by (auto simp: treap_def members_def)
  then have u: "unlinked (sch_mem s2 e)" by (simp add: s2_def upd_def unlinked_def)
  have z: "zip_at s2 [] t" using assms(1) by (simp add: treap_def s2_def)
  show ?thesis
  proof (cases t)
    case Leaf
    then have "sch_root s2 = None" using z by (simp add: zip_at_def)
    moreover have "zip_at (s2\<lparr>sch_root := Some e\<rparr>) [] (Node Leaf e Leaf)"
      using u by (simp add: zip_at_def unlinked_def)
    ultimately show ?thesis using Leaf nz
      by (intro exI[of _ "s2\<lparr>sch_root := Some e\<rparr>"] exI[of _ rnd] exI[of _ "[]"]) (simp add: same_but_def)
  next
    case (Node l b r')
    have root: "sch_root s2 \<noteq> None" using z by (auto simp: zip_at_def Node)
    have ne: "x \<noteq> e" if "x \<in> set_tree t" for x using that assms(2) by blast
    have sk: "sorted_keys (key s2) (inorder t)"
    proof (rule sorted_keys_cong[of "key s" "inorder t" "key s2"])
      show "key s2 a = key s a" if "a \<in> set (inorder t)" for a using that k2 ne by simp
    qed (use assms(1) in \<open>simp add: treap_def\<close>)
    obtain r1 where r1: "r1 \<in> set (r # rnd)" "\<forall>a. a \<noteq> e \<longrightarrow> pri_of s a \<noteq> new_pri r1"
      using assms(3) unfolding fresh_rnd_def by blast
    have f1: "\<forall>x \<in> set_tree t. pri_of s2 x \<noteq> new_pri r1"
    proof
      fix x assume "x \<in> set_tree t"
      then have "x \<noteq> e" by (rule ne)
      then show "pri_of s2 x \<noteq> new_pri r1" using r1(2) p2[of x] by metis
    qed
    have "(\<forall>x \<in> set_tree t. pri_of s2 x \<noteq> pri_of s2 e) \<or> (\<exists>r \<in> set rnd. \<forall>x \<in> set_tree t. pri_of s2 x \<noteq> new_pri r)"
    proof (cases "r1 = r")
      case True
      have "pri_of s2 e = new_pri r" by (simp only: p2 if_True refl)
      then show ?thesis using f1 unfolding True by metis
    next
      case False
      then show ?thesis using f1 r1(1) by (simp only: set_simps insert_iff simp_thms) blast
    qed
    from insert_spec[OF z _ assms(2) u sk nz this] show ?thesis using root Node by simp
  qed
qed

lemma add_modify_spec:
  assumes "treap_but e s t" "fresh_rnd s e rnd"
  shows "\<exists>s' t'. schedule_add_modify s e rnd = Some s' \<and> treap s' t' \<and> set_tree t' = insert e (set_tree t)
    \<and> (\<forall>a. se_tv (sch_mem s' a) = se_tv (sch_mem s a))"
proof -
  obtain s1 t1 where s1: "(if IN_TREE (sch_mem s e) then schedule_remove_node s e else Some s) = Some s1"
    "treap s1 t1" "set_tree t1 = set_tree t - {e}" "same_but e (insert e (set_tree t)) s s1"
  proof (cases "IN_TREE (sch_mem s e)")
    case True
    then show ?thesis using remove_members[OF assms(1)] that by auto
  next
    case False
    then have n: "e \<notin> set_tree t" using assms(1) by (auto simp: treap_but_def members_def IN_TREE_def)
    then have "treap s t" using assms(1) by (simp add: treap_but_def treap_def)
    then show ?thesis using that[of s t] False n by (simp add: same_but_def)
  qed
  obtain r rnd' where rnd: "rnd = r # rnd'" using assms(2) by (cases rnd) (auto simp: fresh_rnd_def)
  have e1: "e \<notin> set_tree t1" using s1(3) by blast
  have f1: "fresh_rnd s1 e (r # rnd')" 
  proof -
    obtain r0 where r0: "r0 \<in> set rnd" "\<forall>a. a \<noteq> e \<longrightarrow> pri_of s a \<noteq> new_pri r0"
      using assms(2) unfolding fresh_rnd_def by blast
    have "pri_of s1 a = pri_of s a" if "a \<noteq> e" for a using s1(4) that unfolding same_but_def by blast
    then show ?thesis using r0 unfolding rnd fresh_rnd_def by metis
  qed
  define s2 where "s2 = upd e (se_pri_update (\<lambda>_. new_pri r)) s1"
  obtain s3 rnd3 c where s3: "(if sch_root s2 \<noteq> None then schedule_insert s2 e rnd' else Some (s2\<lparr>sch_root := Some e\<rparr>, rnd')) = Some (s3, rnd3)"
    "zip_at s3 c (Node Leaf e Leaf)" "plug c Leaf = t1"
    "sorted_keys (key s3) (inorder (plug c (Node Leaf e Leaf)))" "pri_of s3 e \<noteq> 0"
    "same_but e (insert e (set_tree t1)) s2 s3"
    using insert_any[OF s1(2) e1 f1, folded s2_def] by blast
  have sb: "same_but e (insert e (set_tree t)) s s3"
  proof -
    have "insert e (set_tree t1) = insert e (set_tree t)" using s1(3) by blast
    moreover have "same_but e (insert e (set_tree t)) s1 s2" by (simp add: s2_def)
    ultimately show ?thesis using s1(4) s3(6) same_but_trans by metis
  qed
  have "heap_by (pri_of s3) t1 = heap_by (pri_of s1) t1"
  proof (rule heap_by_cong)
    fix a assume "a \<in> set_tree t1"
    then have "a \<noteq> e" using e1 by blast
    then show "pri_of s3 a = pri_of s1 a" using s3(6) by (simp add: same_but_def s2_def upd_def)
  qed
  then have "focus_heap (pri_of s3) c Leaf Leaf"
    using s1(2) s3(3) by (auto simp: focus_heap_def treap_def heap_plug)
  from rotate_loop_spec[OF s3(2) this refl] obtain s4 t4 where s4: "rotate_loop s3 e = Some s4" "zip_at s4 [] t4"
    "heap_by (pri_of s3) t4" "inorder t4 = inorder (plug c (Node Leaf e Leaf))"
    "links_only (set_tree (plug c (Node Leaf e Leaf))) s3 s4" by auto
  have pl: "set_tree (plug c (Node Leaf e Leaf)) = set_tree t4" using arg_cong[OF s4(4), of set] by (simp only: set_inorder)
  have "set_tree t1 = set (ctx_l c) \<union> set (ctx_r c)" unfolding s3(3)[symmetric] by simp
  then have "set_tree t4 = insert e (set_tree t1)" unfolding pl[symmetric] by auto
  then have st4: "set_tree t4 = insert e (set_tree t)" using s1(3) by blast
  have ks: "key s4 a = key s3 a" for a using s4(5) by (simp add: links_only_def entry_key_def)
  have "sorted_keys (key s3) (inorder t4)" unfolding s4(4) by (rule s3(4))
  then have "sorted_keys (key s4) (inorder t4)"
    by (rule sorted_keys_cong[of "key s3" "inorder t4" "key s4"]) (rule ks)
  moreover have sb4: "same_but e (insert e (set_tree t)) s s4"
    using same_but_trans[OF sb links_only_same[OF s4(5)[unfolded pl st4]]] .
  moreover have "members s4 t4"
    unfolding members_def
  proof (intro allI)
    fix a
    show "if a \<in> set_tree t4 then pri_of s4 a \<noteq> 0 else pri_of s4 a = 0 \<and> unlinked (sch_mem s4 a)"
    proof (cases "a = e")
      case True
      then show ?thesis using s3(5) s4(5) st4 by (simp add: links_only_def)
    next
      case False
      then have "if a \<in> set_tree t then pri_of s a \<noteq> 0 else pri_of s a = 0 \<and> unlinked (sch_mem s a)"
        using assms(1) by (simp add: treap_but_def members_def)
      then show ?thesis using False st4 sb4 by (auto simp: same_but_def split: if_splits)
    qed
  qed
  moreover have "heap_by (pri_of s4) t4" using s4(3,5) links_only_pri by metis
  moreover have "schedule_add_modify s e rnd = Some s4"
    unfolding schedule_add_modify_def rnd s1(1) Option.bind.simps set_pri_Cons s2_def[symmetric] prod.case s3(1)
    by (rule s4(1))
  ultimately show ?thesis using s4(2) st4 by (auto simp: treap_def same_but_def)
qed

section \<open>The contract of a scheduler\<close>

text \<open>
  What the server relies on: a map from entries to wakeup times. Adding an entry that is
  scheduled already within the tolerance may leave it where it is.
\<close>

fun drain_queue :: "('s \<Rightarrow> ('s \<times> ('e \<times> 't) option) option) \<Rightarrow> ('s \<Rightarrow> 'e \<Rightarrow> 's option) \<Rightarrow> nat \<Rightarrow> 's \<Rightarrow> ('e \<times> 't) list option" where
  "drain_queue least remove 0 s = Some []"
| "drain_queue least remove (Suc n) s = do {
     (s, r) \<leftarrow> least s;
     (case r of None \<Rightarrow> Some [] | Some (e, t) \<Rightarrow> do {
        s \<leftarrow> remove s e;
        xs \<leftarrow> drain_queue least remove n s;
        Some ((e, t) # xs) }) }"

locale event_queue =
  fixes inv :: "'s \<Rightarrow> bool"
    and entries :: "'s \<Rightarrow> 'e \<Rightarrow> 't option"
    and before :: "'t \<Rightarrow> 't \<Rightarrow> bool"
    and remove :: "'s \<Rightarrow> 'e \<Rightarrow> 's option"
    and least :: "'s \<Rightarrow> ('s \<times> ('e \<times> 't) option) option"
  assumes finite_entries: "inv s \<Longrightarrow> finite (dom (entries s))"
    and remove_law: "inv s \<Longrightarrow> \<exists>s'. remove s e = Some s' \<and> inv s' \<and> entries s' = (entries s)(e := None)"
    and least_law: "inv s \<Longrightarrow> \<exists>s' r. least s = Some (s', r) \<and> inv s' \<and> entries s' = entries s \<and>
      (case r of None \<Rightarrow> entries s = Map.empty
       | Some (e, t) \<Rightarrow> entries s e = Some t \<and> (\<forall>e' t'. entries s e' = Some t' \<longrightarrow> before t t'))"
begin

lemma drain_all:
  "inv s \<Longrightarrow> card (dom (entries s)) \<le> n \<Longrightarrow>
   \<exists>xs. drain_queue least remove n s = Some xs \<and> sorted_wrt (\<lambda>x y. before (snd x) (snd y)) xs
     \<and> distinct (map fst xs) \<and> set xs = {(e, t). entries s e = Some t}"
proof (induction n arbitrary: s)
  case 0
  then have "entries s = Map.empty" using finite_entries by simp
  then show ?case by simp
next
  case (Suc n)
  obtain s1 r where l: "least s = Some (s1, r)" "inv s1" "entries s1 = entries s"
    "case r of None \<Rightarrow> entries s = Map.empty
       | Some (e, t) \<Rightarrow> entries s e = Some t \<and> (\<forall>e' t'. entries s e' = Some t' \<longrightarrow> before t t')"
    using least_law[OF Suc.prems(1)] by blast
  show ?case
  proof (cases r)
    case None
    then show ?thesis using l by simp
  next
    case (Some et)
    obtain e t where et: "et = (e, t)" by (cases et)
    have m: "entries s e = Some t" "\<And>e' t'. entries s e' = Some t' \<Longrightarrow> before t t'" using l(4) Some et by auto
    obtain s2 where s2: "remove s1 e = Some s2" "inv s2" "entries s2 = (entries s)(e := None)"
      using remove_law[OF l(2), of e] l(3) by auto
    have "dom (entries s2) = dom (entries s) - {e}" using s2(3) by auto
    then have "card (dom (entries s2)) \<le> n"
      using Suc.prems m(1) finite_entries[OF Suc.prems(1)] by (simp add: card_Diff_singleton domI)
    from Suc.IH[OF s2(2) this] obtain xs where xs: "drain_queue least remove n s2 = Some xs"
      "sorted_wrt (\<lambda>x y. before (snd x) (snd y)) xs" "distinct (map fst xs)"
      "set xs = {(e, t). entries s2 e = Some t}" by blast
    have "\<forall>y \<in> set xs. before t (snd y)" using m(2) xs(4) s2(3) by (auto split: if_splits)
    moreover have "e \<notin> fst ` set xs" using xs(4) s2(3) by auto
    moreover have "insert (e, t) (set xs) = {(e, t). entries s e = Some t}"
      using xs(4) s2(3) m(1) by (auto split: if_splits)
    ultimately show ?thesis using l(1) Some et s2(1) xs(1-3) by auto
  qed
qed

end

section \<open>The scheduler meets it\<close>

definition sched_entries :: "schedule \<Rightarrow> nat \<Rightarrow> timeval option" where
  "sched_entries s a = (if IN_TREE (sch_mem s a) then Some (se_tv (sch_mem s a)) else None)"

lemma sched_entries_treap: "treap s t \<Longrightarrow> sched_entries s = (\<lambda>a. if a \<in> set_tree t then Some (se_tv (sch_mem s a)) else None)"
  by (auto simp: sched_entries_def IN_TREE_def treap_def members_def fun_eq_iff)

lemma sched_inv_init: "(\<forall>a. se_pri (m a) = 0 \<and> unlinked (m a)) \<Longrightarrow> sched_inv (schedule_init m)"
  by (auto simp: sched_inv_def treap_def cache_ok_def members_def zip_at_def schedule_init_def intro!: exI[of _ Leaf])

lemma zip_cache [simp]: "zip_at (s\<lparr>earliest_wakeup := w\<rparr>) c t = zip_at s c t"
  by (simp add: zip_at_def)

lemma treap_cache [simp]: "treap (s\<lparr>earliest_wakeup := w\<rparr>) t = treap s t"
  by (simp add: treap_def members_def)

lemma sched_remove_law:
  assumes "sched_inv s"
  shows "\<exists>s'. schedule_remove_entry s e = Some s' \<and> sched_inv s' \<and> sched_entries s' = (sched_entries s)(e := None)"
proof -
  obtain t where t: "treap s t" using assms by (auto simp: sched_inv_def)
  let ?s = "s\<lparr>earliest_wakeup := None\<rparr>"
  have "treap_but e ?s t" using treap_but[of ?s t e] t by simp
  from remove_members[OF this] obtain s' t' where r: "schedule_remove_node ?s e = Some s'" "treap s' t'"
    "set_tree t' = set_tree t - {e}" "same_but e (insert e (set_tree t)) ?s s'" by blast
  have "cache_ok s' t'" using r(4) by (simp add: cache_ok_def same_but_def)
  moreover have "sched_entries s' = (sched_entries s)(e := None)"
    unfolding sched_entries_treap[OF t] sched_entries_treap[OF r(2)] r(3) using r(4) by (auto simp: same_but_def)
  ultimately show ?thesis using r(1,2) by (auto simp: schedule_remove_entry_def sched_inv_def)
qed

lemma find_least_tree: "tree_at m par (Some a) t \<Longrightarrow> find_least_loop m a = Some (hd (inorder t))"
proof (induction t arbitrary: par a)
  case (Node l b r)
  show ?case
  proof (cases l)
    case Leaf
    then show ?thesis using Node.prems by (simp add: find_least_loop.simps[of m b])
  next
    case (Node l1 c l2)
    then have "find_least_loop m c = Some (hd (inorder l))" using Node.IH(1) Node.prems by simp
    then show ?thesis using Node.prems Node by (simp add: find_least_loop.simps[of m b] hd_append)
  qed
qed simp

text \<open>The order of the wakeup times.\<close>

lemma key_le_tv: "entry_key x < entry_key y \<Longrightarrow> tv_le (se_tv x) (se_tv y)"
  by (auto simp: entry_key_def tv_le_def)

lemma sched_least_law:
  assumes "sched_inv s"
  shows "\<exists>s' r. schedule_get_earliest_wakeup s = Some (s', r) \<and> sched_inv s' \<and> sched_entries s' = sched_entries s \<and>
      (case r of None \<Rightarrow> sched_entries s = Map.empty
       | Some (e, t) \<Rightarrow> sched_entries s e = Some t \<and> (\<forall>e' t'. sched_entries s e' = Some t' \<longrightarrow> tv_le t t'))"
proof -
  obtain t where t: "treap s t" "cache_ok s t" using assms by (auto simp: sched_inv_def)
  note en = sched_entries_treap[OF t(1)]
  have ew: "(if earliest_wakeup s = None then schedule_find_least (sch_mem s) (sch_root s) else Some (earliest_wakeup s))
    = Some (if t = Leaf then None else Some (hd (inorder t)))"
  proof (cases "earliest_wakeup s")
    case None
    then show ?thesis using t(1) find_least_tree[of "sch_mem s" None _ t]
      by (cases t) (auto simp: treap_def zip_at_def schedule_find_least_def)
  next
    case (Some a)
    then show ?thesis using t(2) by (simp add: cache_ok_def)
  qed
  let ?ew = "if t = Leaf then None else Some (hd (inorder t))"
  let ?s = "s\<lparr>earliest_wakeup := ?ew\<rparr>"
  have "cache_ok ?s t" by (simp add: cache_ok_def)
  then have "sched_inv ?s" using t(1) unfolding sched_inv_def by (metis treap_cache)
  moreover have "sched_entries ?s = sched_entries s" by (simp add: sched_entries_def fun_eq_iff)
  moreover have "schedule_get_earliest_wakeup s = Some (?s, map_option (\<lambda>a. (a, se_tv (sch_mem s a))) ?ew)"
    unfolding schedule_get_earliest_wakeup_def ew by simp
  moreover have "case map_option (\<lambda>a. (a, se_tv (sch_mem s a))) ?ew of None \<Rightarrow> sched_entries s = Map.empty
       | Some (e, t) \<Rightarrow> sched_entries s e = Some t \<and> (\<forall>e' t'. sched_entries s e' = Some t' \<longrightarrow> tv_le t t')"
  proof (cases "inorder t")
    case Nil
    then have "t = Leaf" by (cases t) auto
    then show ?thesis using en by auto
  next
    case (Cons a xs)
    then have st: "set_tree t = insert a (set xs)" "t \<noteq> Leaf" by (metis set_inorder list.simps(15)) (use Cons in auto)
    have "\<forall>b \<in> set xs. key s a < key s b" using t(1) Cons by (simp add: treap_def)
    then have "\<forall>b \<in> set xs. tv_le (se_tv (sch_mem s a)) (se_tv (sch_mem s b))" using key_le_tv by blast
    then show ?thesis using st Cons en by (auto simp: tv_le_def split: if_splits)
  qed
  ultimately show ?thesis by blast
qed

interpretation sq: event_queue sched_inv sched_entries tv_le schedule_remove_entry schedule_get_earliest_wakeup
proof
  show "finite (dom (sched_entries s))" if inv: "sched_inv s" for s
  proof -
    obtain t where t: "treap s t" using inv by (auto simp: sched_inv_def)
    have "dom (sched_entries s) \<subseteq> set_tree t" unfolding sched_entries_treap[OF t] by (auto split: if_splits)
    then show ?thesis by (rule finite_subset) simp
  qed
qed (fact sched_remove_law sched_least_law)+

lemma sched_add_law:
  assumes "sched_inv s" "fresh_rnd s e rnd"
  shows "\<exists>s'. schedule_add_entry s e tv sigma rnd = Some s' \<and> sched_inv s' \<and>
    (sched_entries s' = (sched_entries s)(e \<mapsto> tv)
     \<or> s' = s \<and> (\<exists>tv0. sched_entries s e = Some tv0 \<and> sigma > 0 \<and> tv_within_sigma tv tv0 (int sigma)))"
proof (cases "\<not> IN_TREE (sch_mem s e) \<or> sigma = 0 \<or> \<not> tv_within_sigma tv (se_tv (sch_mem s e)) (int sigma)")
  case False
  then show ?thesis using assms(1) by (simp add: schedule_add_entry_def sched_entries_def)
next
  case True
  obtain t where t: "treap s t" using assms by (auto simp: sched_inv_def)
  let ?s = "upd e (se_tv_update (\<lambda>_. tv)) s"
  have p: "pri_of ?s = pri_of s" "sch_mem ?s a = sch_mem s a" if "a \<noteq> e" for a using that by (auto simp: upd_def)
  have p': "pri_of ?s a = pri_of s a" "unlinked (sch_mem ?s a) = unlinked (sch_mem s a)" for a
    by (auto simp: upd_def unlinked_def)
  have "sorted_keys (key ?s) (removeAll e (inorder t))"
    by (rule sorted_keys_cong[of "key s"])
      (use treap_but[OF t, of e] p(2) in \<open>auto simp: treap_but_def\<close>)
  then have tb: "treap_but e ?s t"
    using t p' by (simp add: treap_but_def treap_def members_def)
  have "fresh_rnd ?s e rnd" using assms(2) p' by (simp add: fresh_rnd_def)
  from add_modify_spec[OF tb this] obtain s' t' where s': "schedule_add_modify ?s e rnd = Some s'" "treap s' t'"
    "set_tree t' = insert e (set_tree t)" "\<forall>a. se_tv (sch_mem s' a) = se_tv (sch_mem ?s a)" by blast
  let ?s' = "s'\<lparr>earliest_wakeup := None\<rparr>"
  have "sched_inv ?s'" using s'(2) by (auto simp: sched_inv_def cache_ok_def)
  moreover have "sched_entries ?s' = (sched_entries s)(e \<mapsto> tv)"
    unfolding sched_entries_treap[OF t] sched_entries_treap[of ?s' t', simplified, OF s'(2)] s'(3)
    using s'(4) by (auto simp: upd_def)
  moreover have "schedule_add_entry s e tv sigma rnd = Some ?s'"
    unfolding schedule_add_entry_def using True s'(1) by simp
  ultimately show ?thesis by blast
qed

text \<open>
  C11. The pointer treap implements a map from entries to wakeup times. From any state with the
  invariant (a binary search tree by wakeup time and priority, in heap order by priority, with
  consistent parent and child pointers, holding exactly the entries with a priority, and with a
  valid cache), adding, removing and asking for the earliest wakeup return, keep the invariant,
  and act as update, deletion and minimum on the map; adding may leave an entry in
  place when the new time is within sigma of the old one.
\<close>

theorem schedule_refines:
  assumes "sched_inv s" "fresh_rnd s e rnd"
  shows "(\<exists>s'. schedule_add_entry s e tv sigma rnd = Some s' \<and> sched_inv s' \<and>
      (sched_entries s' = (sched_entries s)(e \<mapsto> tv)
       \<or> s' = s \<and> (\<exists>tv0. sched_entries s e = Some tv0 \<and> sigma > 0 \<and> tv_within_sigma tv tv0 (int sigma))))
    \<and> (\<exists>s'. schedule_remove_entry s e = Some s' \<and> sched_inv s' \<and> sched_entries s' = (sched_entries s)(e := None))
    \<and> (\<exists>s' r. schedule_get_earliest_wakeup s = Some (s', r) \<and> sched_inv s' \<and> sched_entries s' = sched_entries s \<and>
         (case r of None \<Rightarrow> sched_entries s = Map.empty
          | Some (e, t) \<Rightarrow> sched_entries s e = Some t \<and> (\<forall>e' t'. sched_entries s e' = Some t' \<longrightarrow> tv_le t t')))"
  by (intro conjI sched_add_law[OF assms] sched_remove_law[OF assms(1)] sched_least_law[OF assms(1)])

definition no_entry :: schedule_entry where
  "no_entry = \<lparr>se_tv = \<lparr>tv_sec = 0, tv_usec = 0\<rparr>, se_pri = 0, se_parent = None, se_lt = None, se_gt = None\<rparr>"

lemma no_entry_inv: "sched_inv (schedule_init (\<lambda>_. no_entry))"
  by (rule sched_inv_init) (simp add: no_entry_def unlinked_def)

lemma schedule_refines_witness:
  "\<exists>s'. schedule_add_entry (schedule_init (\<lambda>_. no_entry)) 3 \<lparr>tv_sec = 5, tv_usec = 7\<rparr> 0 [42] = Some s'
     \<and> sched_entries s' 3 = Some \<lparr>tv_sec = 5, tv_usec = 7\<rparr>"
proof -
  have "fresh_rnd (schedule_init (\<lambda>_. no_entry)) 3 [42]"
    by (simp add: fresh_rnd_def schedule_init_def no_entry_def new_pri_def)
  from schedule_refines[OF no_entry_inv this, of "\<lparr>tv_sec = 5, tv_usec = 7\<rparr>" 0] show ?thesis by auto
qed

text \<open>
  C24. Events are delivered in time order, and all of them. Asking for the earliest wakeup and
  removing that entry, as often as there are entries, returns every scheduled entry exactly once
  with its time, in nondecreasing order of the wakeup times, without a failed assertion.
\<close>

theorem schedule_drains_in_order:
  assumes "sched_inv s"
  shows "\<exists>xs. drain_queue schedule_get_earliest_wakeup schedule_remove_entry (card (dom (sched_entries s))) s = Some xs
    \<and> sorted_wrt (\<lambda>x y. tv_le (snd x) (snd y)) xs \<and> distinct (map fst xs)
    \<and> set xs = {(e, t). sched_entries s e = Some t}"
  by (rule sq.drain_all[OF assms order_refl])

lemma schedule_drains_in_order_witness:
  "\<exists>s' xs. schedule_add_entry (schedule_init (\<lambda>_. no_entry)) 3 \<lparr>tv_sec = 5, tv_usec = 7\<rparr> 0 [42] = Some s'
     \<and> drain_queue schedule_get_earliest_wakeup schedule_remove_entry (card (dom (sched_entries s'))) s' = Some xs
     \<and> xs = [(3, \<lparr>tv_sec = 5, tv_usec = 7\<rparr>)]"
proof -
  let ?s = "schedule_init (\<lambda>_. no_entry)" and ?t = "\<lparr>tv_sec = 5, tv_usec = 7\<rparr>"
  have "fresh_rnd ?s 3 [42]" by (simp add: fresh_rnd_def schedule_init_def no_entry_def new_pri_def)
  from sched_add_law[OF no_entry_inv this, of ?t 0] obtain s' where s':
    "schedule_add_entry ?s 3 ?t 0 [42] = Some s'" "sched_inv s'" "sched_entries s' = (sched_entries ?s)(3 \<mapsto> ?t)" by auto
  obtain xs where xs: "drain_queue schedule_get_earliest_wakeup schedule_remove_entry (card (dom (sched_entries s'))) s' = Some xs"
    "distinct (map fst xs)" "set xs = {(e, t). sched_entries s' e = Some t}"
    using schedule_drains_in_order[OF s'(2)] by blast
  have "set xs = {(3, ?t)}"
    unfolding xs(3) s'(3) by (auto simp: sched_entries_def schedule_init_def no_entry_def IN_TREE_def split: if_splits)
  moreover have "length xs = card (set xs)" using xs(2) by (simp add: distinct_map distinct_card)
  ultimately have "set xs = {(3, ?t)}" "length xs = 1" by simp_all
  then have "xs = [(3, ?t)]" by (cases xs) auto
  then show ?thesis using s'(1) xs(1) by blast
qed

end
