(* ===== verification/Hash_Table.thy ===== *)
theory Hash_Table
  imports C_Integer
begin

text \<open>
  Hash tables (\<open>list.c\<close>, \<open>list.h\<close>): an array of buckets of linked elements with move-to-front
  lookup, removal, an iterator that deletes by marking, and the hash function of Bob Jenkins.

  A bucket is the list of its elements; a pointer to an element of a bucket is its position. The
  iterator keeps such pointers only into the bucket it has locked, in which the code changes no
  links until it unlocks it. A key is \<open>None\<close> when the element is marked for deletion (a NULL
  key); comparing such a key would dereference NULL, so that is \<open>None\<close>, as is a failed assertion.
\<close>

record ('k, 'v) hash_element =
  he_value :: 'v
  he_key :: "'k option"
  he_hash_value :: u32

record ('k, 'v) hash =
  h_n_buckets :: int
  h_n_elements :: int
  h_mask :: int
  h_iv :: u32
  hash_function :: "'k \<Rightarrow> u32 \<Rightarrow> u32"
  compare_function :: "'k \<Rightarrow> 'k \<Rightarrow> bool"
  h_buckets :: "('k, 'v) hash_element list list"

record hash_iterator =
  hi_bucket_index :: int
  hi_bucket :: "nat option"
  hi_elem :: "nat option"
  hi_last :: "nat option"
  hi_bucket_marked :: bool
  hi_bucket_index_start :: int
  hi_bucket_index_end :: int

section \<open>Tables\<close>

definition hash_init :: "int \<Rightarrow> u32 \<Rightarrow> ('k \<Rightarrow> u32 \<Rightarrow> u32) \<Rightarrow> ('k \<Rightarrow> 'k \<Rightarrow> bool) \<Rightarrow> ('k, 'v) hash option" where
  "hash_init n_buckets iv hf cmp =
     (if n_buckets > 0 then
        (case adjust_power_of_2 (word_of_int n_buckets) of
           Returned r \<Rightarrow> let n = c_int (uint r) in
             Some \<lparr>h_n_buckets = n, h_n_elements = 0, h_mask = n - 1, h_iv = iv, hash_function = hf,
               compare_function = cmp, h_buckets = replicate (nat n) []\<rparr>
         | _ \<Rightarrow> None)
      else None)"

definition hash_value :: "('k, 'v) hash \<Rightarrow> 'k \<Rightarrow> u32" where
  "hash_value h key = hash_function h key (h_iv h)"

definition hash_n_elements :: "('k, 'v) hash \<Rightarrow> int" where
  "hash_n_elements h = h_n_elements h"

definition hash_n_buckets :: "('k, 'v) hash \<Rightarrow> int" where
  "hash_n_buckets h = h_n_buckets h"

definition hash_bucket :: "('k, 'v) hash \<Rightarrow> u32 \<Rightarrow> nat" where
  "hash_bucket h hv = unat (hv AND word_of_int (h_mask h))"

definition set_bucket :: "('k, 'v) hash \<Rightarrow> nat \<Rightarrow> ('k, 'v) hash_element list \<Rightarrow> ('k, 'v) hash" where
  "set_bucket h b xs = h\<lparr>h_buckets := (h_buckets h)[b := xs]\<rparr>"

text \<open>The scan of a bucket for a key, from position \<open>i\<close>.\<close>

fun find_key :: "('k \<Rightarrow> 'k \<Rightarrow> bool) \<Rightarrow> 'k \<Rightarrow> u32 \<Rightarrow> ('k, 'v) hash_element list \<Rightarrow> nat \<Rightarrow> nat option option" where
  "find_key cmp key hv [] i = Some None"
| "find_key cmp key hv (e # es) i =
     (if hv = he_hash_value e then
        (case he_key e of
           None \<Rightarrow> None
         | Some k \<Rightarrow> if cmp key k then Some (Some i) else find_key cmp key hv es (Suc i))
      else find_key cmp key hv es (Suc i))"

text \<open>A found element is moved to the head of the bucket: the pointer that is returned is position 0.\<close>

definition hash_lookup_fast :: "('k, 'v) hash \<Rightarrow> nat \<Rightarrow> 'k \<Rightarrow> u32 \<Rightarrow> (('k, 'v) hash \<times> nat option) option" where
  "hash_lookup_fast h b key hv = do {
     let xs = h_buckets h ! b;
     r \<leftarrow> find_key (compare_function h) key hv xs 0;
     (case r of
        None \<Rightarrow> Some (h, None)
      | Some i \<Rightarrow> Some (set_bucket h b (xs ! i # take i xs @ drop (Suc i) xs), Some 0)) }"

definition hash_remove_fast :: "('k, 'v) hash \<Rightarrow> nat \<Rightarrow> 'k \<Rightarrow> u32 \<Rightarrow> (('k, 'v) hash \<times> bool) option" where
  "hash_remove_fast h b key hv = do {
     let xs = h_buckets h ! b;
     r \<leftarrow> find_key (compare_function h) key hv xs 0;
     (case r of
        None \<Rightarrow> Some (h, False)
      | Some i \<Rightarrow> Some ((set_bucket h b (take i xs @ drop (Suc i) xs))\<lparr>h_n_elements := h_n_elements h - 1\<rparr>, True)) }"

definition hash_lookup :: "('k, 'v) hash \<Rightarrow> 'k \<Rightarrow> (('k, 'v) hash \<times> 'v option) option" where
  "hash_lookup h key = do {
     let hv = hash_value h key;
     let b = hash_bucket h hv;
     (h, he) \<leftarrow> hash_lookup_fast h b key hv;
     Some (h, map_option (\<lambda>i. he_value (h_buckets h ! b ! i)) he) }"

definition hash_add_fast :: "('k, 'v) hash \<Rightarrow> nat \<Rightarrow> 'k \<Rightarrow> u32 \<Rightarrow> 'v \<Rightarrow> ('k, 'v) hash" where
  "hash_add_fast h b key hv v =
     (set_bucket h b (\<lparr>he_value = v, he_key = Some key, he_hash_value = hv\<rparr> # h_buckets h ! b))
       \<lparr>h_n_elements := h_n_elements h + 1\<rparr>"

definition hash_add :: "('k, 'v) hash \<Rightarrow> 'k \<Rightarrow> 'v \<Rightarrow> bool \<Rightarrow> (('k, 'v) hash \<times> bool) option" where
  "hash_add h key v replace = do {
     let hv = hash_value h key;
     let b = hash_bucket h hv;
     (h, he) \<leftarrow> hash_lookup_fast h b key hv;
     (case he of
        Some i \<Rightarrow>
          if replace
          then let xs = h_buckets h ! b in Some (set_bucket h b (xs[i := (xs ! i)\<lparr>he_value := v\<rparr>]), True)
          else Some (h, False)
      | None \<Rightarrow> Some (hash_add_fast h b key hv v, True)) }"

definition hash_remove :: "('k, 'v) hash \<Rightarrow> 'k \<Rightarrow> (('k, 'v) hash \<times> bool) option" where
  "hash_remove h key =
     (let hv = hash_value h key; b = hash_bucket h hv in hash_remove_fast h b key hv)"

section \<open>Iteration\<close>

text \<open>The elements that stay, and the number that is left of \<open>n\<close>.\<close>

fun remove_marked :: "('k, 'v) hash_element list \<Rightarrow> int \<Rightarrow> ('k, 'v) hash_element list \<times> int" where
  "remove_marked [] n = ([], n)"
| "remove_marked (e # es) n =
     (if he_key e = None then remove_marked es (n - 1)
      else case remove_marked es n of (es, n) \<Rightarrow> (e # es, n))"

definition hash_remove_marked :: "('k, 'v) hash \<Rightarrow> nat \<Rightarrow> ('k, 'v) hash" where
  "hash_remove_marked h b =
     (case remove_marked (h_buckets h ! b) (h_n_elements h) of
        (xs, n) \<Rightarrow> (set_bucket h b xs)\<lparr>h_n_elements := n\<rparr>)"

definition hash_iterator_init_range :: "('k, 'v) hash \<Rightarrow> int \<Rightarrow> int \<Rightarrow> hash_iterator option" where
  "hash_iterator_init_range h start end_bucket =
     (let end_bucket = (if end_bucket > h_n_buckets h then h_n_buckets h else end_bucket) in do {
        ASSERT (start \<ge> 0 \<and> start \<le> end_bucket);
        Some \<lparr>hi_bucket_index = start - 1, hi_bucket = None, hi_elem = None, hi_last = None, hi_bucket_marked = False,
          hi_bucket_index_start = start, hi_bucket_index_end = end_bucket\<rparr> })"

definition hash_iterator_init :: "('k, 'v) hash \<Rightarrow> hash_iterator option" where
  "hash_iterator_init h = hash_iterator_init_range h 0 (h_n_buckets h)"

definition hash_iterator_lock :: "hash_iterator \<Rightarrow> nat \<Rightarrow> hash_iterator" where
  "hash_iterator_lock hi b = hi\<lparr>hi_bucket := Some b, hi_last := None, hi_bucket_marked := False\<rparr>"

definition hash_iterator_unlock :: "('k, 'v) hash \<Rightarrow> hash_iterator \<Rightarrow> ('k, 'v) hash \<times> hash_iterator" where
  "hash_iterator_unlock h hi =
     (case hi_bucket hi of
        None \<Rightarrow> (h, hi)
      | Some b \<Rightarrow>
          (if hi_bucket_marked hi then hash_remove_marked h b else h,
           hi\<lparr>hi_bucket_marked := False, hi_bucket := None, hi_last := None\<rparr>))"

definition hash_iterator_free :: "('k, 'v) hash \<Rightarrow> hash_iterator \<Rightarrow> ('k, 'v) hash \<times> hash_iterator" where
  "hash_iterator_free h hi = hash_iterator_unlock h hi"

text \<open>\<open>hash_iterator_advance\<close>: the next pointer of the element at position \<open>i\<close> of the locked bucket.\<close>

definition hash_iterator_advance :: "('k, 'v) hash \<Rightarrow> nat \<Rightarrow> nat \<Rightarrow> hash_iterator \<Rightarrow> hash_iterator" where
  "hash_iterator_advance h b i hi =
     hi\<lparr>hi_last := Some i, hi_elem := (if Suc i < length (h_buckets h ! b) then Some (Suc i) else None)\<rparr>"

text \<open>The result of \<open>hash_iterator_next\<close> is the bucket and the position of the element.\<close>

function next_bucket ::
  "('k, 'v) hash \<Rightarrow> hash_iterator \<Rightarrow> ('k, 'v) hash \<times> hash_iterator \<times> (nat \<times> nat) option" where
  "next_bucket h hi =
     (let hi = hi\<lparr>hi_bucket_index := hi_bucket_index hi + 1\<rparr> in
      if hi_bucket_index hi < hi_bucket_index_end hi then
        case hash_iterator_unlock h hi of (h, hi) \<Rightarrow>
          let b = nat (hi_bucket_index hi) in
          (case h_buckets h ! b of
             [] \<Rightarrow> next_bucket h hi
           | e # es \<Rightarrow>
               let hi = (hash_iterator_lock hi b)\<lparr>hi_elem := Some 0\<rparr> in
               (h, hash_iterator_advance h b 0 hi, Some (b, 0)))
      else (h, hi, None))"
  by auto

lemma unlock_index [simp]:
  "hi_bucket_index (snd (hash_iterator_unlock h hi)) = hi_bucket_index hi"
  "hi_bucket_index_end (snd (hash_iterator_unlock h hi)) = hi_bucket_index_end hi"
  by (simp_all add: hash_iterator_unlock_def split: option.split)

termination next_bucket
  by (relation "measure (\<lambda>(h, hi). nat (hi_bucket_index_end hi - hi_bucket_index hi))")
    (auto simp: hash_iterator_unlock_def split: option.splits)

definition hash_iterator_next ::
  "('k, 'v) hash \<Rightarrow> hash_iterator \<Rightarrow> ('k, 'v) hash \<times> hash_iterator \<times> (nat \<times> nat) option" where
  "hash_iterator_next h hi =
     (case (hi_elem hi, hi_bucket hi) of
        (Some i, Some b) \<Rightarrow> (h, hash_iterator_advance h b i hi, Some (b, i))
      | _ \<Rightarrow> next_bucket h hi)"

definition hash_iterator_delete_element :: "('k, 'v) hash \<Rightarrow> hash_iterator \<Rightarrow> (('k, 'v) hash \<times> hash_iterator) option" where
  "hash_iterator_delete_element h hi =
     (case (hi_last hi, hi_bucket hi) of
        (Some i, Some b) \<Rightarrow> let xs = h_buckets h ! b in
          Some (set_bucket h b (xs[i := (xs ! i)\<lparr>he_key := None\<rparr>]), hi\<lparr>hi_bucket_marked := True\<rparr>)
      | _ \<Rightarrow> None)"

text \<open>The loop of a client that visits all elements and deletes those that satisfy \<open>P\<close>.\<close>

partial_function (option) delete_loop ::
  "(('k, 'v) hash_element \<Rightarrow> bool) \<Rightarrow> ('k, 'v) hash \<Rightarrow> hash_iterator \<Rightarrow> ('k, 'v) hash option" where
  "delete_loop P h hi =
     (case hash_iterator_next h hi of
        (h, hi, None) \<Rightarrow> Some (fst (hash_iterator_free h hi))
      | (h, hi, Some (b, i)) \<Rightarrow> do {
          (h, hi) \<leftarrow> (if P (h_buckets h ! b ! i) then hash_iterator_delete_element h hi else Some (h, hi));
          delete_loop P h hi })"

definition hash_remove_by_value :: "('k, 'v) hash \<Rightarrow> 'v \<Rightarrow> ('k, 'v) hash option" where
  "hash_remove_by_value h v = do {
     hi \<leftarrow> hash_iterator_init h;
     delete_loop (\<lambda>e. he_value e = v) h hi }"

section \<open>The hash function\<close>

text \<open>The nine lines of \<open>mix\<close>: each changes one of the words.\<close>

definition mix_a :: "nat \<Rightarrow> u32 \<times> u32 \<times> u32 \<Rightarrow> u32 \<times> u32 \<times> u32" where
  "mix_a n = (\<lambda>(a, b, c). let a = a - b; a = a - c; a = a XOR drop_bit n c in (a, b, c))"

definition mix_b :: "nat \<Rightarrow> u32 \<times> u32 \<times> u32 \<Rightarrow> u32 \<times> u32 \<times> u32" where
  "mix_b n = (\<lambda>(a, b, c). let b = b - c; b = b - a; b = b XOR push_bit n a in (a, b, c))"

definition mix_c :: "nat \<Rightarrow> u32 \<times> u32 \<times> u32 \<Rightarrow> u32 \<times> u32 \<times> u32" where
  "mix_c n = (\<lambda>(a, b, c). let c = c - a; c = c - b; c = c XOR drop_bit n b in (a, b, c))"

definition mix :: "u32 \<times> u32 \<times> u32 \<Rightarrow> u32 \<times> u32 \<times> u32" where
  "mix x =
     (let x = mix_a 13 x; x = mix_b 8 x; x = mix_c 13 x;
          x = mix_a 12 x; x = mix_b 16 x; x = mix_c 5 x;
          x = mix_a 3 x; x = mix_b 10 x; x = mix_c 15 x in x)"

definition byte_at :: "bytes \<Rightarrow> nat \<Rightarrow> nat \<Rightarrow> u32" where
  "byte_at k i n = push_bit n (ucast (k ! i))"

text \<open>The main loop, over a key and its remaining length, and the switch that falls through.\<close>

function hash_blocks :: "bytes \<Rightarrow> u32 \<times> u32 \<times> u32 \<Rightarrow> bytes \<times> u32 \<times> u32 \<times> u32" where
  "hash_blocks k (a, b, c) =
     (if length k \<ge> 12 then
        hash_blocks (drop 12 k) (mix
          (a + (byte_at k 0 0 + byte_at k 1 8 + byte_at k 2 16 + byte_at k 3 24),
           b + (byte_at k 4 0 + byte_at k 5 8 + byte_at k 6 16 + byte_at k 7 24),
           c + (byte_at k 8 0 + byte_at k 9 8 + byte_at k 10 16 + byte_at k 11 24)))
      else (k, a, b, c))"
  by auto
termination by (relation "measure (length \<circ> fst)") auto

definition last_byte :: "bytes \<Rightarrow> nat \<Rightarrow> nat \<Rightarrow> u32" where
  "last_byte k i n = (if i < length k then byte_at k i n else 0)"

definition hash_func :: "bytes \<Rightarrow> u32 \<Rightarrow> u32" where
  "hash_func k initval =
     (case hash_blocks k (0x9e3779b9, 0x9e3779b9, initval) of
        (k', a, b, c) \<Rightarrow>
          let c = c + of_nat (length k) + last_byte k' 10 24 + last_byte k' 9 16 + last_byte k' 8 8;
              b = b + last_byte k' 7 24 + last_byte k' 6 16 + last_byte k' 5 8 + last_byte k' 4 0;
              a = a + last_byte k' 3 24 + last_byte k' 2 16 + last_byte k' 1 8 + last_byte k' 0 0
          in snd (snd (mix (a, b, c))))"

end
