(* ===== verification/Hash_Props.thy ===== *)
theory Hash_Props
  imports Hash_Table
begin

text \<open>
  A hash table is a map from keys, up to its comparison, to values: lookup, insertion and removal act
  as on the map although a lookup reorders the bucket, the iterator visits every element
  once and deletes exactly the elements chosen, and the mixing step of the hash function is reversible.
\<close>

section \<open>Buckets\<close>

abbreviation key_of :: "('k, 'v) hash_element \<Rightarrow> 'k" where
  "key_of e \<equiv> the (he_key e)"

definition cmp_ok :: "('k, 'v) hash \<Rightarrow> bool" where
  "cmp_ok h \<longleftrightarrow> equivp (compare_function h)
     \<and> (\<forall>x y. compare_function h x y \<longrightarrow> hash_value h x = hash_value h y)"

definition bucket_ok :: "('k, 'v) hash \<Rightarrow> nat \<Rightarrow> ('k, 'v) hash_element list \<Rightarrow> bool" where
  "bucket_ok h b xs \<longleftrightarrow>
     (\<forall>e \<in> set xs. he_key e \<noteq> None \<and> he_hash_value e = hash_value h (key_of e) \<and> hash_bucket h (he_hash_value e) = b)
     \<and> sorted_wrt (\<lambda>x y. \<not> compare_function h (key_of x) (key_of y)) xs"

definition hash_ok :: "('k, 'v) hash \<Rightarrow> bool" where
  "hash_ok h \<longleftrightarrow> cmp_ok h \<and> (\<exists>j \<le> 30. h_n_buckets h = 2 ^ j) \<and> h_mask h = h_n_buckets h - 1
     \<and> int (length (h_buckets h)) = h_n_buckets h
     \<and> (\<forall>b < length (h_buckets h). bucket_ok h b (h_buckets h ! b))
     \<and> h_n_elements h = int (sum_list (map length (h_buckets h)))"

definition assoc :: "('k \<Rightarrow> 'k \<Rightarrow> bool) \<Rightarrow> ('k, 'v) hash_element list \<Rightarrow> 'k \<Rightarrow> 'v option" where
  "assoc cmp xs k = map_option he_value (find (\<lambda>e. cmp k (key_of e)) xs)"

definition hash_map :: "('k, 'v) hash \<Rightarrow> 'k \<Rightarrow> 'v option" where
  "hash_map h k = assoc (compare_function h) (h_buckets h ! hash_bucket h (hash_value h k)) k"

lemma assoc_Some:
  assumes "equivp cmp" "sorted_wrt (\<lambda>x y. \<not> cmp (key_of x) (key_of y)) xs"
  shows "assoc cmp xs k = Some v \<longleftrightarrow> (\<exists>e \<in> set xs. cmp k (key_of e) \<and> he_value e = v)"
  using assms(2)
proof (induction xs)
  case (Cons e xs)
  have "\<not> cmp k (key_of x)" if "x \<in> set xs" "cmp k (key_of e)" for x
    using Cons.prems that assms(1) by (auto dest: equivp_symp equivp_transp)
  then show ?case using Cons by (auto simp: assoc_def)
qed (simp add: assoc_def)

lemma find_key_spec:
  assumes "\<And>e. e \<in> set xs \<Longrightarrow> he_key e \<noteq> None \<and> (cmp key (key_of e) \<longrightarrow> he_hash_value e = hv)"
  shows "(find_key cmp key hv xs i = Some None \<and> (\<forall>e \<in> set xs. \<not> cmp key (key_of e)))
    \<or> (\<exists>ys e zs. xs = ys @ e # zs \<and> find_key cmp key hv xs i = Some (Some (i + length ys)) \<and> cmp key (key_of e))"
  using assms
proof (induction xs arbitrary: i)
  case (Cons e xs)
  have k: "he_key e \<noteq> None" "cmp key (key_of e) \<Longrightarrow> he_hash_value e = hv" using Cons.prems by auto
  show ?case
  proof (cases "cmp key (key_of e)")
    case True
    then show ?thesis using k by (intro disjI2 exI[of _ "[]"]) auto
  next
    case False
    have step: "find_key cmp key hv (e # xs) i = find_key cmp key hv xs (Suc i)" using False k(1) by auto
    have "(find_key cmp key hv xs (Suc i) = Some None \<and> (\<forall>e \<in> set xs. \<not> cmp key (key_of e)))
      \<or> (\<exists>ys e zs. xs = ys @ e # zs \<and> find_key cmp key hv xs (Suc i) = Some (Some (Suc i + length ys)) \<and> cmp key (key_of e))"
      by (rule Cons.IH) (use Cons.prems in auto)
    then show ?thesis
    proof (elim disjE exE conjE)
      fix ys e' zs assume a: "xs = ys @ e' # zs" "find_key cmp key hv xs (Suc i) = Some (Some (Suc i + length ys))" "cmp key (key_of e')"
      then show ?thesis unfolding step by (intro disjI2 exI[of _ "e # ys"] exI[of _ e'] exI[of _ zs]) auto
    qed (use False step in auto)
  qed
qed simp

lemma set_bucket_simps [simp]:
  "h_n_buckets (set_bucket h b xs) = h_n_buckets h" "h_mask (set_bucket h b xs) = h_mask h"
  "h_n_elements (set_bucket h b xs) = h_n_elements h" "compare_function (set_bucket h b xs) = compare_function h"
  "hash_value (set_bucket h b xs) = hash_value h" "hash_bucket (set_bucket h b xs) = hash_bucket h"
  "h_buckets (set_bucket h b xs) = (h_buckets h)[b := xs]" "cmp_ok (set_bucket h b xs) = cmp_ok h"
  by (auto simp: set_bucket_def hash_value_def hash_bucket_def fun_eq_iff cmp_ok_def)

lemma n_elements_simps [simp]:
  "hash_value (h\<lparr>h_n_elements := n\<rparr>) = hash_value h" "hash_bucket (h\<lparr>h_n_elements := n\<rparr>) = hash_bucket h"
  "cmp_ok (h\<lparr>h_n_elements := n\<rparr>) = cmp_ok h"
  by (auto simp: hash_value_def hash_bucket_def fun_eq_iff cmp_ok_def)

lemma bucket_in_range:
  assumes "hash_ok h"
  shows "hash_bucket h hv < length (h_buckets h)"
proof -
  obtain j where j: "j \<le> 30" "h_n_buckets h = 2 ^ j" "h_mask h = 2 ^ j - 1" "length (h_buckets h) = 2 ^ j"
    using assms by (auto simp: hash_ok_def)
  have "(word_of_int (2 ^ j - 1) :: u32) = mask j" by (simp add: mask_eq_exp_minus_1)
  then have "hash_bucket h hv = unat (take_bit j hv)" by (simp add: hash_bucket_def j(3) take_bit_eq_mask)
  also have "\<dots> < 2 ^ j" by (simp add: unsigned_take_bit_eq take_bit_nat_less_exp)
  finally show ?thesis using j(4) by simp
qed

text \<open>Replacing a bucket, with the number of elements kept in step.\<close>

lemma replace_bucket:
  assumes "hash_ok h" "b < length (h_buckets h)" "bucket_ok h b xs"
    and "n = h_n_elements h + int (length xs) - int (length (h_buckets h ! b))"
  shows "hash_ok ((set_bucket h b xs)\<lparr>h_n_elements := n\<rparr>)"
    and "hash_map ((set_bucket h b xs)\<lparr>h_n_elements := n\<rparr>) k =
      (if hash_bucket h (hash_value h k) = b then assoc (compare_function h) xs k else hash_map h k)"
proof -
  have s: "sum_list (map length ((h_buckets h)[b := xs])) + length (h_buckets h ! b) = sum_list (map length (h_buckets h)) + length xs"
    using assms(2) sum_list_update[of b "map length (h_buckets h)" "length xs"] member_le_sum_list[of "length (h_buckets h ! b)" "map length (h_buckets h)"]
    by (simp add: map_update)
  have bo: "bucket_ok ((set_bucket h b xs)\<lparr>h_n_elements := n\<rparr>) c ys = bucket_ok h c ys" for c ys
    by (simp add: bucket_ok_def)
  show "hash_ok ((set_bucket h b xs)\<lparr>h_n_elements := n\<rparr>)"
    using assms s unfolding hash_ok_def bo by (auto simp: nth_list_update)
  show "hash_map ((set_bucket h b xs)\<lparr>h_n_elements := n\<rparr>) k =
      (if hash_bucket h (hash_value h k) = b then assoc (compare_function h) xs k else hash_map h k)"
    using assms(2) by (simp add: hash_map_def nth_list_update)
qed

lemma replace_bucket_same:
  assumes "hash_ok h" "b < length (h_buckets h)" "bucket_ok h b xs" "length xs = length (h_buckets h ! b)"
  shows "hash_ok (set_bucket h b xs)"
    and "hash_map (set_bucket h b xs) k =
      (if hash_bucket h (hash_value h k) = b then assoc (compare_function h) xs k else hash_map h k)"
  using replace_bucket[OF assms(1-3), of "h_n_elements h"] assms(4) by (simp_all add: set_bucket_def)

section \<open>The operations on a bucket\<close>

lemma bucket_assoc:
  assumes "cmp_ok h" "bucket_ok h b xs"
  shows "assoc (compare_function h) xs k = Some v \<longleftrightarrow> (\<exists>e \<in> set xs. compare_function h k (key_of e) \<and> he_value e = v)"
  using assms by (intro assoc_Some) (auto simp: cmp_ok_def bucket_ok_def)

lemma bucket_split:
  "bucket_ok h b (ys @ e # zs) \<longleftrightarrow> bucket_ok h b (ys @ zs)
     \<and> he_key e \<noteq> None \<and> he_hash_value e = hash_value h (key_of e) \<and> hash_bucket h (he_hash_value e) = b
     \<and> (\<forall>x \<in> set (ys @ zs). \<not> compare_function h (key_of e) (key_of x))" if "cmp_ok h"
proof -
  have "compare_function h x y = compare_function h y x" for x y
    using that by (auto simp: cmp_ok_def dest: equivp_symp)
  then show ?thesis by (auto simp: bucket_ok_def sorted_wrt_append)
qed

lemma bucket_Cons:
  "bucket_ok h b (e # zs) \<longleftrightarrow> bucket_ok h b zs
     \<and> he_key e \<noteq> None \<and> he_hash_value e = hash_value h (key_of e) \<and> hash_bucket h (he_hash_value e) = b
     \<and> (\<forall>x \<in> set zs. \<not> compare_function h (key_of e) (key_of x))" if "cmp_ok h"
  using bucket_split[OF that, of b "[]"] by simp

lemma option_ext: "(\<And>v. x = Some v \<longleftrightarrow> y = Some v) \<Longrightarrow> x = y"
  by (cases x; cases y) auto

text \<open>Where a key is found, and what the lookup leaves behind.\<close>

lemma find_in_bucket:
  fixes key
  assumes "hash_ok h"
  defines "b \<equiv> hash_bucket h (hash_value h key)"
  obtains "find_key (compare_function h) key (hash_value h key) (h_buckets h ! b) 0 = Some None"
      "hash_map h key = None" "\<forall>e \<in> set (h_buckets h ! b). \<not> compare_function h key (key_of e)"
  | ys e zs where "h_buckets h ! b = ys @ e # zs" "compare_function h key (key_of e)"
      "find_key (compare_function h) key (hash_value h key) (h_buckets h ! b) 0 = Some (Some (length ys))"
      "hash_map h key = Some (he_value e)"
proof -
  have c: "cmp_ok h" and ok: "bucket_ok h b (h_buckets h ! b)"
    using assms(1) bucket_in_range[OF assms(1)] by (auto simp: hash_ok_def b_def)
  have "(find_key (compare_function h) key (hash_value h key) (h_buckets h ! b) 0 = Some None
        \<and> (\<forall>e \<in> set (h_buckets h ! b). \<not> compare_function h key (key_of e)))
    \<or> (\<exists>ys e zs. h_buckets h ! b = ys @ e # zs
        \<and> find_key (compare_function h) key (hash_value h key) (h_buckets h ! b) 0 = Some (Some (0 + length ys))
        \<and> compare_function h key (key_of e))"
    by (rule find_key_spec) (use c ok in \<open>auto simp: bucket_ok_def cmp_ok_def\<close>)
  then show ?thesis
  proof (elim disjE exE conjE)
    assume a: "find_key (compare_function h) key (hash_value h key) (h_buckets h ! b) 0 = Some None"
      "\<forall>e \<in> set (h_buckets h ! b). \<not> compare_function h key (key_of e)"
    then have "hash_map h key = None"
      by (simp add: hash_map_def b_def[symmetric] assoc_def find_None_iff)
    then show ?thesis using a that(1) by blast
  next
    fix ys e zs assume a: "h_buckets h ! b = ys @ e # zs" "compare_function h key (key_of e)"
      "find_key (compare_function h) key (hash_value h key) (h_buckets h ! b) 0 = Some (Some (0 + length ys))"
    have "hash_map h key = Some (he_value e)"
      unfolding hash_map_def b_def[symmetric] using bucket_assoc[OF c ok] a(1,2) by auto
    then show ?thesis using a that(2) by simp
  qed
qed

section \<open>The contract of a keyed store\<close>

text \<open>
  What the server relies on: insertion with and without replacement, removal and lookup act on
  a map, up to the comparison of keys, and report what they did.
\<close>

locale keyed_store =
  fixes inv :: "'s \<Rightarrow> bool" and mp :: "'s \<Rightarrow> 'k \<Rightarrow> 'v option" and same :: "'s \<Rightarrow> 'k \<Rightarrow> 'k \<Rightarrow> bool"
    and add :: "'s \<Rightarrow> 'k \<Rightarrow> 'v \<Rightarrow> bool \<Rightarrow> ('s \<times> bool) option"
    and remove :: "'s \<Rightarrow> 'k \<Rightarrow> ('s \<times> bool) option"
    and lookup :: "'s \<Rightarrow> 'k \<Rightarrow> ('s \<times> 'v option) option"
  assumes same_refl: "inv s \<Longrightarrow> same s k k"
    and lookup_law: "inv s \<Longrightarrow> \<exists>s'. lookup s k = Some (s', mp s k) \<and> inv s' \<and> mp s' = mp s \<and> same s' = same s"
    and add_law: "inv s \<Longrightarrow> \<exists>s' r. add s k v rep = Some (s', r) \<and> inv s' \<and> same s' = same s
        \<and> r = (rep \<or> mp s k = None) \<and> mp s' = (if r then \<lambda>k'. if same s k k' then Some v else mp s k' else mp s)"
    and remove_law: "inv s \<Longrightarrow> \<exists>s' r. remove s k = Some (s', r) \<and> inv s' \<and> same s' = same s
        \<and> r = (mp s k \<noteq> None) \<and> mp s' = (\<lambda>k'. if same s k k' then None else mp s k')"
begin

text \<open>The first of several insertions without replacement stays; the later ones are refused.\<close>

lemma first_add_wins:
  assumes "inv s" "mp s k = None"
  shows "\<exists>s1 s2 s3. add s k v False = Some (s1, True) \<and> add s1 k w False = Some (s2, False) \<and> lookup s2 k = Some (s3, Some v)"
proof -
  obtain s1 where s1: "add s k v False = Some (s1, True)" "inv s1" "mp s1 k = Some v"
    using add_law[OF assms(1), of k v False] assms(2) same_refl[OF assms(1)] by auto
  obtain s2 where s2: "add s1 k w False = Some (s2, False)" "inv s2" "mp s2 = mp s1"
    using add_law[OF s1(2), of k w False] s1(3) by auto
  show ?thesis using lookup_law[OF s2(2), of k] s1 s2 by auto
qed

text \<open>Removing what was added restores the map.\<close>

lemma add_remove:
  assumes "inv s" "\<And>k'. same s k k' \<Longrightarrow> mp s k' = None"
  shows "\<exists>s1 s2. add s k v rep = Some (s1, True) \<and> remove s1 k = Some (s2, True) \<and> inv s2 \<and> mp s2 = mp s"
proof -
  have n: "mp s k = None" using assms same_refl by blast
  obtain s1 where s1: "add s k v rep = Some (s1, True)" "inv s1" "same s1 = same s"
    "mp s1 = (\<lambda>k'. if same s k k' then Some v else mp s k')"
    using add_law[OF assms(1), of k v rep] n by auto
  obtain s2 where s2: "remove s1 k = Some (s2, True)" "inv s2"
    "mp s2 = (\<lambda>k'. if same s k k' then None else mp s1 k')"
    using remove_law[OF s1(2), of k] s1(3,4) same_refl[OF assms(1)] by auto
  have "mp s2 = mp s" unfolding s2(3) s1(4) using assms(2) by (auto simp: fun_eq_iff)
  then show ?thesis using s1(1) s2(1,2) by blast
qed

end

section \<open>The hash table meets it\<close>

lemma bucket_of:
  assumes "hash_ok h"
  shows "cmp_ok h" "hash_bucket h hv < length (h_buckets h)" "bucket_ok h (hash_bucket h hv) (h_buckets h ! hash_bucket h hv)"
  using assms bucket_in_range[OF assms] by (auto simp: hash_ok_def)

lemma cmp_trans:
  "cmp_ok h \<Longrightarrow> compare_function h k a \<Longrightarrow> compare_function h k b = compare_function h a b"
  unfolding cmp_ok_def by (metis equivp_def)

lemma cmp_hash: "cmp_ok h \<Longrightarrow> compare_function h k a \<Longrightarrow> hash_value h k = hash_value h a"
  by (simp add: cmp_ok_def)

lemma hash_map_bucket:
  assumes "hash_ok h" "hash_bucket h (hash_value h k) = b" "bucket_ok h b xs"
    "\<And>v. (\<exists>e \<in> set xs. compare_function h k (key_of e) \<and> he_value e = v)
      \<longleftrightarrow> (\<exists>e \<in> set (h_buckets h ! b). compare_function h k (key_of e) \<and> he_value e = v)"
  shows "assoc (compare_function h) xs k = hash_map h k"
  unfolding hash_map_def assms(2)
  using assms(4) bucket_assoc[OF bucket_of(1)[OF assms(1)]] assms(3) bucket_of(3)[OF assms(1), of "hash_value h k"] assms(2)
  by (intro option_ext) auto

lemma hash_lookup_fast_law:
  fixes key
  assumes "hash_ok h"
  defines "b \<equiv> hash_bucket h (hash_value h key)"
  obtains h' where "hash_lookup_fast h b key (hash_value h key) = Some (h', None)" "h' = h" "hash_map h key = None"
    "\<forall>e \<in> set (h_buckets h ! b). \<not> compare_function h key (key_of e)"
  | h' e xs where "hash_lookup_fast h b key (hash_value h key) = Some (h', Some 0)" "hash_ok h'" "h' = set_bucket h b (e # xs)"
    "hash_map h' = hash_map h" "hash_map h key = Some (he_value e)" "compare_function h key (key_of e)"
    "bucket_ok h b (e # xs)" "length (e # xs) = length (h_buckets h ! b)"
proof -
  note bk = bucket_of(1)[OF assms(1)] bucket_of(2,3)[OF assms(1), of "hash_value h key", folded b_def]
  show ?thesis
  proof (rule find_in_bucket[OF assms(1), of key, folded b_def])
    assume a: "find_key (compare_function h) key (hash_value h key) (h_buckets h ! b) 0 = Some None" "hash_map h key = None"
      "\<forall>e \<in> set (h_buckets h ! b). \<not> compare_function h key (key_of e)"
    then show ?thesis using that(1) by (simp add: hash_lookup_fast_def)
  next
    fix ys e zs
    assume a: "h_buckets h ! b = ys @ e # zs" "compare_function h key (key_of e)"
      "find_key (compare_function h) key (hash_value h key) (h_buckets h ! b) 0 = Some (Some (length ys))"
      "hash_map h key = Some (he_value e)"
    have xs: "(h_buckets h ! b) ! length ys # take (length ys) (h_buckets h ! b) @ drop (Suc (length ys)) (h_buckets h ! b)
      = e # ys @ zs" using a(1) by simp
    have ok: "bucket_ok h b (e # ys @ zs)" using bk(3) unfolding a(1) bucket_split[OF bk(1)] bucket_Cons[OF bk(1)] by metis
    have len: "length (e # ys @ zs) = length (h_buckets h ! b)" using a(1) by simp
    have "hash_map (set_bucket h b (e # ys @ zs)) k = hash_map h k" for k
      unfolding replace_bucket_same(2)[OF assms(1) bk(2) ok len]
      using hash_map_bucket[OF assms(1) _ ok, of k] a(1) by auto
    then have m: "hash_map (set_bucket h b (e # ys @ zs)) = hash_map h" by blast
    have "hash_lookup_fast h b key (hash_value h key) = Some (set_bucket h b (e # ys @ zs), Some 0)"
      unfolding hash_lookup_fast_def Let_def a(3) Option.bind.simps option.case xs ..
    then show ?thesis
      using that(2) replace_bucket_same(1)[OF assms(1) bk(2) ok len] m a(2,4) ok len by blast
  qed
qed

lemma hash_lookup_law:
  assumes "hash_ok h"
  shows "\<exists>h'. hash_lookup h k = Some (h', hash_map h k) \<and> hash_ok h' \<and> hash_map h' = hash_map h
    \<and> compare_function h' = compare_function h"
proof (rule hash_lookup_fast_law[OF assms, of k])
  fix h' e xs
  assume "hash_lookup_fast h (hash_bucket h (hash_value h k)) k (hash_value h k) = Some (h', Some 0)" "hash_ok h'"
    "h' = set_bucket h (hash_bucket h (hash_value h k)) (e # xs)" "hash_map h' = hash_map h" "hash_map h k = Some (he_value e)"
  then show ?thesis using bucket_in_range[OF assms] by (simp add: hash_lookup_def Let_def)
qed (use assms in \<open>simp add: hash_lookup_def Let_def\<close>)

lemma hash_add_law:
  assumes "hash_ok h"
  shows "\<exists>h' r. hash_add h k v rep = Some (h', r) \<and> hash_ok h' \<and> compare_function h' = compare_function h
    \<and> r = (rep \<or> hash_map h k = None)
    \<and> hash_map h' = (if r then \<lambda>k'. if compare_function h k k' then Some v else hash_map h k' else hash_map h)"
proof -
  define b where "b = hash_bucket h (hash_value h k)"
  note bk = bucket_of(1)[OF assms] bucket_of(2,3)[OF assms, of "hash_value h k", folded b_def]
  have upd: "hash_map h2 k' = (if compare_function h k k' then Some v else hash_map h k')"
    if "\<And>k'. hash_map h2 k' = (if hash_bucket h (hash_value h k') = b then assoc (compare_function h) ys k' else hash_map h k')"
      "bucket_ok h b ys" "\<And>k' w. (\<exists>e \<in> set ys. compare_function h k' (key_of e) \<and> he_value e = w) \<longleftrightarrow>
        (if compare_function h k k' then w = v else \<exists>e \<in> set (h_buckets h ! b). compare_function h k' (key_of e) \<and> he_value e = w)"
    for h2 ys k'
  proof (cases "compare_function h k k'")
    case True
    then have "hash_bucket h (hash_value h k') = b" using cmp_hash[OF bk(1) True] by (simp add: b_def)
    moreover have "assoc (compare_function h) ys k' = Some v" using bucket_assoc[OF bk(1) that(2)] that(3) True by simp
    ultimately show ?thesis using that(1) True by simp
  next
    case False
    then show ?thesis using that(1) hash_map_bucket[OF assms _ that(2), of k'] that(3) by simp
  qed
  show ?thesis
  proof (rule hash_lookup_fast_law[OF assms, of k, folded b_def])
    fix h' assume l: "hash_lookup_fast h b k (hash_value h k) = Some (h', None)" "h' = h" "hash_map h k = None"
      "\<forall>e \<in> set (h_buckets h ! b). \<not> compare_function h k (key_of e)"
    let ?e = "\<lparr>he_value = v, he_key = Some k, he_hash_value = hash_value h k\<rparr>"
    let ?h = "(set_bucket h b (?e # h_buckets h ! b))\<lparr>h_n_elements := h_n_elements h + 1\<rparr>"
    have ok: "bucket_ok h b (?e # h_buckets h ! b)" using bk(3) l(4) by (simp add: bucket_Cons[OF bk(1)] b_def)
    have n: "h_n_elements h + 1 = h_n_elements h + int (length (?e # h_buckets h ! b)) - int (length (h_buckets h ! b))" by simp
    note r = replace_bucket[OF assms bk(2) ok n]
    have "hash_map ?h k' = (if compare_function h k k' then Some v else hash_map h k')" for k'
    proof (rule upd[OF r(2) ok])
      fix k' w
      have "compare_function h k' k = compare_function h k k'" using bk(1) by (auto simp: cmp_ok_def dest: equivp_symp)
      then show "(\<exists>e \<in> set (?e # h_buckets h ! b). compare_function h k' (key_of e) \<and> he_value e = w) \<longleftrightarrow>
        (if compare_function h k k' then w = v else \<exists>e \<in> set (h_buckets h ! b). compare_function h k' (key_of e) \<and> he_value e = w)"
        using l(4) cmp_trans[OF bk(1), of k k'] by auto
    qed
    moreover have "hash_add h k v rep = Some (?h, True)"
      using l(1,2) by (simp add: hash_add_def Let_def b_def hash_add_fast_def)
    ultimately show ?thesis using r(1) l(3) by auto
  next
    fix h' e xs
    assume l: "hash_lookup_fast h b k (hash_value h k) = Some (h', Some 0)" "hash_ok h'" "h' = set_bucket h b (e # xs)"
      "hash_map h' = hash_map h" "hash_map h k = Some (he_value e)" "compare_function h k (key_of e)"
      "bucket_ok h b (e # xs)" "length (e # xs) = length (h_buckets h ! b)"
    show ?thesis
    proof (cases rep)
      case False
      then show ?thesis using l by (intro exI[of _ h'] exI[of _ False]) (simp add: hash_add_def Let_def b_def)
    next
      case True
      let ?e = "e\<lparr>he_value := v\<rparr>"
      have ok: "bucket_ok h b (?e # xs)" using l(7) by (simp add: bucket_Cons[OF bk(1)]) metis
      have len: "length (?e # xs) = length (h_buckets h ! b)" using l(8) by simp
      have hm: "hash_map h k' = assoc (compare_function h) (e # xs) k'" if "hash_bucket h (hash_value h k') = b" for k'
        using replace_bucket_same(2)[OF assms bk(2) l(7,8), of k'] l(3,4) that by simp
      have "hash_map (set_bucket h b (?e # xs)) k' = (if compare_function h k k' then Some v else hash_map h k')" for k'
      proof (cases "hash_bucket h (hash_value h k') = b")
        case True
        have "compare_function h k' (key_of e) = compare_function h k k'"
          using bk(1) l(6) cmp_trans[OF bk(1) l(6)] by (metis cmp_ok_def cmp_trans equivp_reflp)
        then show ?thesis unfolding replace_bucket_same(2)[OF assms bk(2) ok len] using True hm[OF True]
          by (simp add: assoc_def)
      next
        case False
        then have "\<not> compare_function h k k'" using cmp_hash[OF bk(1)] by (auto simp: b_def)
        then show ?thesis unfolding replace_bucket_same(2)[OF assms bk(2) ok len] using False by simp
      qed
      moreover have "hash_add h k v rep = Some (set_bucket h b (?e # xs), True)"
        using l(1,3) True bk(2) by (simp add: hash_add_def Let_def b_def set_bucket_def)
      ultimately show ?thesis using replace_bucket_same(1)[OF assms bk(2) ok len] True by auto
    qed
  qed
qed

lemma hash_remove_law:
  assumes "hash_ok h"
  shows "\<exists>h' r. hash_remove h k = Some (h', r) \<and> hash_ok h' \<and> compare_function h' = compare_function h
    \<and> r = (hash_map h k \<noteq> None) \<and> hash_map h' = (\<lambda>k'. if compare_function h k k' then None else hash_map h k')"
proof -
  define b where "b = hash_bucket h (hash_value h k)"
  note bk = bucket_of(1)[OF assms] bucket_of(2,3)[OF assms, of "hash_value h k", folded b_def]
  show ?thesis
  proof (rule find_in_bucket[OF assms, of k, folded b_def])
    assume a: "find_key (compare_function h) k (hash_value h k) (h_buckets h ! b) 0 = Some None" "hash_map h k = None"
      "\<forall>e \<in> set (h_buckets h ! b). \<not> compare_function h k (key_of e)"
    have "hash_map h k' = None" if c: "compare_function h k k'" for k'
    proof -
      have "hash_map h k' \<noteq> Some v" for v
        unfolding hash_map_def cmp_hash[OF bk(1) c, symmetric] b_def[symmetric] bucket_assoc[OF bk(1,3)]
        using a(3) cmp_trans[OF bk(1) c] by simp
      then show ?thesis by (cases "hash_map h k'") auto
    qed
    then have "hash_map h = (\<lambda>k'. if compare_function h k k' then None else hash_map h k')" by auto
    moreover have "hash_remove h k = Some (h, False)" using a(1) by (simp add: hash_remove_def hash_remove_fast_def Let_def b_def)
    ultimately show ?thesis using assms a(2) by auto
  next
    fix ys e zs
    assume a: "h_buckets h ! b = ys @ e # zs" "compare_function h k (key_of e)"
      "find_key (compare_function h) k (hash_value h k) (h_buckets h ! b) 0 = Some (Some (length ys))"
      "hash_map h k = Some (he_value e)"
    let ?h = "(set_bucket h b (ys @ zs))\<lparr>h_n_elements := h_n_elements h - 1\<rparr>"
    have ok: "bucket_ok h b (ys @ zs)" and ne: "\<forall>x \<in> set (ys @ zs). \<not> compare_function h (key_of e) (key_of x)"
      using bk(3) unfolding a(1) bucket_split[OF bk(1)] by auto
    have n: "h_n_elements h - 1 = h_n_elements h + int (length (ys @ zs)) - int (length (h_buckets h ! b))" using a(1) by simp
    note r = replace_bucket[OF assms bk(2) ok n]
    have "hash_map ?h k' = (if compare_function h k k' then None else hash_map h k')" for k'
    proof (cases "compare_function h k k'")
      case True
      have "compare_function h (key_of e) k'" using cmp_trans[OF bk(1) a(2)] True by simp
      then have "\<forall>x \<in> set (ys @ zs). \<not> compare_function h k' (key_of x)" using ne cmp_trans[OF bk(1)] by metis
      then have "assoc (compare_function h) (ys @ zs) k' = None" by (auto simp: assoc_def find_None_iff)
      then show ?thesis using r(2) True cmp_hash[OF bk(1) True] by (simp add: b_def)
    next
      case False
      then have "\<not> compare_function h k' (key_of e)" using a(2) cmp_trans[OF bk(1)] bk(1)
        by (metis cmp_ok_def equivp_symp)
      then show ?thesis using False r(2) hash_map_bucket[OF assms _ ok, of k'] a(1) by auto
    qed
    moreover have "hash_remove h k = Some (?h, True)"
      using a(1,3) by (simp add: hash_remove_def hash_remove_fast_def Let_def b_def[symmetric])
    ultimately show ?thesis using r(1) a(4) by auto
  qed
qed

interpretation ht: keyed_store hash_ok hash_map compare_function hash_add hash_remove hash_lookup
proof
  show "compare_function h k k" if "hash_ok h" for h :: "('a, 'b) hash" and k
    using bucket_of(1)[OF that] by (simp add: cmp_ok_def equivp_reflp)
qed (fact hash_lookup_law hash_add_law hash_remove_law)+

section \<open>Iteration with deletion\<close>

abbreviation kept :: "(('k, 'v) hash_element \<Rightarrow> bool) \<Rightarrow> ('k, 'v) hash_element list \<Rightarrow> ('k, 'v) hash_element list" where
  "kept P xs \<equiv> filter (\<lambda>e. \<not> P e) xs"

definition mark :: "(('k, 'v) hash_element \<Rightarrow> bool) \<Rightarrow> nat \<Rightarrow> ('k, 'v) hash_element list \<Rightarrow> ('k, 'v) hash_element list" where
  "mark P i xs = map (\<lambda>e. if P e then e\<lparr>he_key := None\<rparr> else e) (take i xs) @ drop i xs"

lemma remove_marked_eq:
  "remove_marked xs n = (filter (\<lambda>e. he_key e \<noteq> None) xs, n - int (length (filter (\<lambda>e. he_key e = None) xs)))"
  by (induction xs n rule: remove_marked.induct) auto

lemma remove_mark:
  assumes "\<forall>e \<in> set xs. he_key e \<noteq> None" "length xs \<le> i"
  shows "remove_marked (mark P i xs) n = (kept P xs, n - int (length (filter P xs)))"
  using assms unfolding remove_marked_eq mark_def by (induction xs) auto

lemma mark_step:
  "i < length xs \<Longrightarrow> mark P (Suc i) xs = (if P (xs ! i) then (mark P i xs)[i := (xs ! i)\<lparr>he_key := None\<rparr>] else mark P i xs)"
  by (auto simp: mark_def take_Suc_conv_app_nth Cons_nth_drop_Suc[symmetric] list_update_append)

lemma mark_nth [simp]: "i < length xs \<Longrightarrow> mark P i xs ! i = xs ! i"
  by (simp add: mark_def nth_append)

lemma length_mark [simp]: "length (mark P i xs) = length xs"
  by (simp add: mark_def)

text \<open>The table when the first \<open>b\<close> buckets are finished and the next ones are \<open>ys\<close>.\<close>

definition partly :: "(('k, 'v) hash_element \<Rightarrow> bool) \<Rightarrow> ('k, 'v) hash \<Rightarrow> nat \<Rightarrow> ('k, 'v) hash_element list list \<Rightarrow> ('k, 'v) hash" where
  "partly P h b ys = h\<lparr>h_buckets := map (kept P) (take b (h_buckets h)) @ ys @ drop (b + length ys) (h_buckets h),
     h_n_elements := h_n_elements h - int (sum_list (map (\<lambda>xs. length (filter P xs)) (take b (h_buckets h))))\<rparr>"

definition mid :: "nat \<Rightarrow> nat \<Rightarrow> hash_iterator \<Rightarrow> bool" where
  "mid n b hi \<longleftrightarrow> hi_bucket hi = None \<and> hi_elem hi = None \<and> hi_bucket_index hi = int b - 1
     \<and> hi_bucket_index_end hi = int n"

definition inside :: "(('k, 'v) hash_element \<Rightarrow> bool) \<Rightarrow> ('k, 'v) hash \<Rightarrow> nat \<Rightarrow> nat \<Rightarrow> nat \<Rightarrow> hash_iterator \<Rightarrow> bool" where
  "inside P h n b i hi \<longleftrightarrow> hi_bucket hi = Some b \<and> hi_bucket_index hi = int b
     \<and> hi_bucket_index_end hi = int n \<and> b < n \<and> n \<le> length (h_buckets h) \<and> i \<le> length (h_buckets h ! b)
     \<and> hi_elem hi = (if i < length (h_buckets h ! b) then Some i else None)
     \<and> hi_bucket_marked hi = (\<exists>e \<in> set (take i (h_buckets h ! b)). P e)"

definition all_keyed :: "('k, 'v) hash \<Rightarrow> bool" where
  "all_keyed h \<longleftrightarrow> (\<forall>xs \<in> set (h_buckets h). \<forall>e \<in> set xs. he_key e \<noteq> None)"

lemma partly_simps [simp]:
  "b < length (h_buckets h) \<Longrightarrow> h_buckets (partly P h b [xs]) ! b = xs"
  "b < length (h_buckets h) \<Longrightarrow> h_buckets (partly P h b []) ! b = h_buckets h ! b"
  by (simp_all add: partly_def nth_append min_def)

lemma partly_set [simp]:
  "b < length (h_buckets h) \<Longrightarrow> set_bucket (partly P h b [xs]) b ys = partly P h b [ys]"
  by (simp add: partly_def set_bucket_def list_update_append min_def)

lemma partly_Nil:
  "b < length (h_buckets h) \<Longrightarrow> partly P h b [] = partly P h b [h_buckets h ! b]"
  by (simp add: partly_def Cons_nth_drop_Suc)

lemma partly_Suc:
  "b < length (h_buckets h) \<Longrightarrow> partly P h (Suc b) [] = (partly P h b [kept P (h_buckets h ! b)])
     \<lparr>h_n_elements := h_n_elements (partly P h b []) - int (length (filter P (h_buckets h ! b)))\<rparr>"
  by (simp add: partly_def take_Suc_conv_app_nth)

lemma unlock_inside:
  assumes "inside P h n b (length (h_buckets h ! b)) hi" "all_keyed h"
  shows "hash_iterator_unlock (partly P h b [mark P (length (h_buckets h ! b)) (h_buckets h ! b)]) hi
    = (partly P h (Suc b) [], hi\<lparr>hi_bucket_marked := False, hi_bucket := None, hi_last := None\<rparr>)"
proof -
  let ?xs = "h_buckets h ! b"
  have b: "b < length (h_buckets h)" "hi_bucket hi = Some b" "hi_bucket_marked hi = (\<exists>e \<in> set ?xs. P e)"
    using assms(1) by (auto simp: inside_def)
  have k: "\<forall>e \<in> set ?xs. he_key e \<noteq> None" using assms(2) b(1) by (auto simp: all_keyed_def)
  have ne: "h_n_elements (partly P h b [ys]) = h_n_elements (partly P h b [])" for ys by (simp add: partly_def)
  show ?thesis
  proof (cases "\<exists>e \<in> set ?xs. P e")
    case True
    then show ?thesis
      by (simp add: hash_iterator_unlock_def b(2,3) hash_remove_marked_def b(1) remove_mark[OF k] partly_Suc ne)
  next
    case False
    then have "mark P (length ?xs) ?xs = ?xs" "kept P ?xs = ?xs" "filter P ?xs = []"
      by (auto simp: mark_def filter_empty_conv intro: map_idI filter_True)
    moreover have "partly P h (Suc b) [] = partly P h b [?xs]"
      using calculation(2,3) by (simp add: partly_Suc[OF b(1)] ne)
    ultimately show ?thesis using False by (simp add: hash_iterator_unlock_def b(2,3))
  qed
qed

lemma advance_inside:
  assumes "b < n" "n \<le> length (h_buckets h)" "i < length (h_buckets h ! b)" "hi_bucket hi = Some b" "hi_bucket_index hi = int b"
    "hi_bucket_index_end hi = int n" "hi_bucket_marked hi = (\<exists>e \<in> set (take i (h_buckets h ! b)). P e)"
  shows "\<exists>hi'. hash_iterator_advance (partly P h b [mark P i (h_buckets h ! b)]) b i hi = hi' \<and> hi_last hi' = Some i
    \<and> hi_bucket hi' = Some b
    \<and> inside P h n b (Suc i) (hi'\<lparr>hi_bucket_marked := hi_bucket_marked hi' \<or> P (h_buckets h ! b ! i)\<rparr>)"
  using assms by (auto simp: hash_iterator_advance_def inside_def take_Suc_conv_app_nth)

text \<open>
  The run of an iterator whose client deletes the elements that satisfy \<open>P\<close>: the elements it is
  given, in their order, and the table at the end. The loops of the clients follow it.
\<close>

inductive iter_run ::
  "(('k, 'v) hash_element \<Rightarrow> bool) \<Rightarrow> ('k, 'v) hash \<Rightarrow> hash_iterator \<Rightarrow> ('k, 'v) hash_element list \<Rightarrow> ('k, 'v) hash \<Rightarrow> bool"
  for P where
  stop: "hash_iterator_next h hi = (h1, hi1, None) \<Longrightarrow> iter_run P h hi [] (fst (hash_iterator_free h1 hi1))"
| step: "hash_iterator_next h hi = (h1, hi1, Some (b, i)) \<Longrightarrow> e = h_buckets h1 ! b ! i
    \<Longrightarrow> (if P e then hash_iterator_delete_element h1 hi1 else Some (h1, hi1)) = Some (h2, hi2)
    \<Longrightarrow> iter_run P h2 hi2 es h' \<Longrightarrow> iter_run P h hi (e # es) h'"

lemma iter_run_cong: "iter_run P h hi es h' \<Longrightarrow> (\<forall>e \<in> set es. P e = Q e) \<Longrightarrow> iter_run Q h hi es h'"
  by (induction rule: iter_run.induct) (auto intro: iter_run.intros)

lemma delete_loop_run: "iter_run P h hi es h' \<Longrightarrow> delete_loop P h hi = Some h'"
proof (induction rule: iter_run.induct)
  case (stop h hi h1 hi1)
  then show ?case by (simp add: delete_loop.simps[of P h hi])
next
  case (step h hi h1 hi1 b i e h2 hi2 es h')
  then show ?case by (simp add: delete_loop.simps[of P h hi])
qed

text \<open>The element just returned is processed, and the rest is assumed to be right.\<close>

lemma process_element:
  assumes a: "all_keyed h" "b < length (h_buckets h)" "i < length (h_buckets h ! b)"
    and nx: "hash_iterator_next h0 hi0 = (partly P h b [mark P i (h_buckets h ! b)], hi, Some (b, i))"
    and hi: "hi_last hi = Some i" "hi_bucket hi = Some b"
      "inside P h n b (Suc i) (hi\<lparr>hi_bucket_marked := hi_bucket_marked hi \<or> P (h_buckets h ! b ! i)\<rparr>)"
    and rest: "\<And>hi'. inside P h n b (Suc i) hi' \<Longrightarrow> iter_run P (partly P h b [mark P (Suc i) (h_buckets h ! b)]) hi' es r"
  shows "iter_run P h0 hi0 (h_buckets h ! b ! i # es) r"
proof (cases "P (h_buckets h ! b ! i)")
  case True
  then have "hash_iterator_delete_element (partly P h b [mark P i (h_buckets h ! b)]) hi
    = Some (partly P h b [mark P (Suc i) (h_buckets h ! b)], hi\<lparr>hi_bucket_marked := True\<rparr>)"
    using a hi(1,2) by (simp add: hash_iterator_delete_element_def mark_step)
  then show ?thesis using True a rest hi(3) by (intro iter_run.step[OF nx]) simp_all
next
  case False
  then have "hi\<lparr>hi_bucket_marked := hi_bucket_marked hi \<or> P (h_buckets h ! b ! i)\<rparr> = hi" by simp
  then show ?thesis using False a rest[of hi] hi(3) by (intro iter_run.step[OF nx]) (simp_all add: mark_step)
qed

text \<open>The loop of the iterator over empty buckets.\<close>

declare next_bucket.simps [simp del]

lemma unlock_idx:
  "hash_iterator_unlock h (hi\<lparr>hi_bucket_index := n\<rparr>)
     = (fst (hash_iterator_unlock h hi), (snd (hash_iterator_unlock h hi))\<lparr>hi_bucket_index := n\<rparr>)"
  by (simp add: hash_iterator_unlock_def split: option.split)

lemma unlock_again: "hash_iterator_unlock h' (snd (hash_iterator_unlock h hi)) = (h', snd (hash_iterator_unlock h hi))"
  by (simp add: hash_iterator_unlock_def split: option.split)

lemma next_bucket_unlock:
  "hi_bucket_index hi + 1 < hi_bucket_index_end hi \<Longrightarrow>
   next_bucket h hi = next_bucket (fst (hash_iterator_unlock h hi)) (snd (hash_iterator_unlock h hi))"
  by (subst (1 2) next_bucket.simps) (simp add: Let_def unlock_idx unlock_again)

lemma next_bucket_mid:
  assumes "mid n b hi" "b \<le> n" "n \<le> length (h_buckets h)"
  shows "(\<exists>hi'. next_bucket (partly P h b []) hi = (partly P h n [], hi', None) \<and> hi_bucket hi' = None
        \<and> (\<forall>d. b \<le> d \<and> d < n \<longrightarrow> h_buckets h ! d = []))
    \<or> (\<exists>c hi'. b \<le> c \<and> c < n \<and> (\<forall>d. b \<le> d \<and> d < c \<longrightarrow> h_buckets h ! d = []) \<and> h_buckets h ! c \<noteq> []
        \<and> next_bucket (partly P h b []) hi = (partly P h c [mark P 0 (h_buckets h ! c)], hi', Some (c, 0))
        \<and> hi_last hi' = Some 0 \<and> hi_bucket hi' = Some c
        \<and> inside P h n c (Suc 0) (hi'\<lparr>hi_bucket_marked := hi_bucket_marked hi' \<or> P (h_buckets h ! c ! 0)\<rparr>))"
  using assms(1,2)
proof (induction "n - b" arbitrary: b hi)
  case 0
  then have "b = n" by simp
  then show ?case using "0.prems" by (intro disjI1) (auto simp: mid_def next_bucket.simps[of _ hi])
next
  case (Suc k)
  then have b: "b < n" "b < length (h_buckets h)" using assms(3) by simp_all
  have nx: "next_bucket (partly P h b []) hi =
     (let hi = hi\<lparr>hi_bucket_index := int b\<rparr> in case h_buckets h ! b of
        [] \<Rightarrow> next_bucket (partly P h b []) hi
      | e # es \<Rightarrow> (partly P h b [], hash_iterator_advance (partly P h b []) b 0 ((hash_iterator_lock hi b)\<lparr>hi_elem := Some 0\<rparr>), Some (b, 0)))"
    using Suc.prems b
    by (subst next_bucket.simps) (simp add: mid_def hash_iterator_unlock_def Let_def split: list.split)
  show ?case
  proof (cases "h_buckets h ! b")
    case Nil
    have less: "(Suc b \<le> d \<longleftrightarrow> b \<le> d \<and> d \<noteq> b)" for d by auto
    have "partly P h b [] = partly P h (Suc b) []" using Nil by (simp add: partly_Suc[OF b(2)] partly_Nil[OF b(2)])
    moreover have "mid n (Suc b) (hi\<lparr>hi_bucket_index := int b\<rparr>)" using Suc.prems by (simp add: mid_def)
    moreover have "k = n - Suc b" using Suc.hyps(2) by simp
    ultimately show ?thesis using Suc.hyps(1)[of "Suc b" "hi\<lparr>hi_bucket_index := int b\<rparr>"] nx Nil b
      unfolding less by (simp add: Let_def) (metis (lifting))
  next
    case (Cons e es)
    let ?hi = "(hash_iterator_lock (hi\<lparr>hi_bucket_index := int b\<rparr>) b)\<lparr>hi_elem := Some 0\<rparr>"
    have m: "partly P h b [mark P 0 (h_buckets h ! b)] = partly P h b []" by (simp add: mark_def partly_Nil[OF b(2)])
    obtain hi' where "hash_iterator_advance (partly P h b []) b 0 ?hi = hi'" "hi_last hi' = Some 0" "hi_bucket hi' = Some b"
      "inside P h n b (Suc 0) (hi'\<lparr>hi_bucket_marked := hi_bucket_marked hi' \<or> P (h_buckets h ! b ! 0)\<rparr>)"
      using advance_inside[OF b(1) assms(3), of 0 ?hi P] Cons Suc.prems unfolding m by (auto simp: hash_iterator_lock_def mid_def)
    moreover have "\<forall>d. b \<le> d \<and> d < b \<longrightarrow> h_buckets h ! d = []" by auto
    ultimately show ?thesis using nx Cons b m by (intro disjI2 exI[of _ b] exI[of _ hi'] conjI) (simp_all add: Let_def)
  qed
qed

text \<open>The elements of the buckets from \<open>b\<close> to \<open>n\<close>.\<close>

abbreviation elems :: "('k, 'v) hash \<Rightarrow> nat \<Rightarrow> nat \<Rightarrow> ('k, 'v) hash_element list" where
  "elems h b n \<equiv> concat (map ((!) (h_buckets h)) [b..<n])"

lemma elems_Cons: "b < n \<Longrightarrow> elems h b n = h_buckets h ! b @ elems h (Suc b) n"
  by (simp add: upt_conv_Cons)

lemma elems_empty: "(\<forall>d. b \<le> d \<and> d < c \<longrightarrow> h_buckets h ! d = []) \<Longrightarrow> b \<le> c \<Longrightarrow> c \<le> n \<Longrightarrow> elems h b n = elems h c n"
  using upt_add_eq_append[of b c "n - c"] by simp

lemma iter_run_inside:
  assumes "all_keyed h" "inside P h n b i hi"
  shows "iter_run P (partly P h b [mark P i (h_buckets h ! b)]) hi (drop i (h_buckets h ! b) @ elems h (Suc b) n) (partly P h n [])"
  using assms(2)
proof (induction "n - b" arbitrary: b i hi rule: less_induct)
  case less
  note outer = less.hyps
  have nl: "n \<le> length (h_buckets h)" using less.prems by (simp add: inside_def)
  show ?case using less.prems
  proof (induction "length (h_buckets h ! b) - i" arbitrary: i hi)
    case (Suc k)
    then have i: "i < length (h_buckets h ! b)" "b < n" "b < length (h_buckets h)" by (auto simp: inside_def)
    have nx: "hash_iterator_next (partly P h b [mark P i (h_buckets h ! b)]) hi
      = (partly P h b [mark P i (h_buckets h ! b)], hash_iterator_advance (partly P h b [mark P i (h_buckets h ! b)]) b i hi, Some (b, i))"
      using Suc.prems i by (simp add: hash_iterator_next_def inside_def)
    obtain hi' where hi': "hash_iterator_advance (partly P h b [mark P i (h_buckets h ! b)]) b i hi = hi'" "hi_last hi' = Some i"
      "hi_bucket hi' = Some b" "inside P h n b (Suc i) (hi'\<lparr>hi_bucket_marked := hi_bucket_marked hi' \<or> P (h_buckets h ! b ! i)\<rparr>)"
      using advance_inside[OF i(2) nl i(1), of hi P] Suc.prems by (auto simp: inside_def)
    have "drop i (h_buckets h ! b) @ elems h (Suc b) n = h_buckets h ! b ! i # drop (Suc i) (h_buckets h ! b) @ elems h (Suc b) n"
      using i by (simp add: Cons_nth_drop_Suc)
    then show ?case
      by (simp only:) (rule process_element[OF assms(1) i(3,1) nx[unfolded hi'(1)] hi'(2-4)], use Suc.hyps in auto)
  next
    case 0
    then have i: "i = length (h_buckets h ! b)" "b < n" "b < length (h_buckets h)" by (auto simp: inside_def)
    let ?h = "partly P h b [mark P i (h_buckets h ! b)]"
    let ?hi = "hi\<lparr>hi_bucket_marked := False, hi_bucket := None, hi_last := None\<rparr>"
    have ul: "hash_iterator_unlock ?h hi = (partly P h (Suc b) [], ?hi)"
      using unlock_inside[of P h n b hi] 0 i assms(1) by simp
    have nx: "hash_iterator_next ?h hi = next_bucket ?h hi" using 0 i by (simp add: hash_iterator_next_def inside_def)
    show ?case
    proof (cases "Suc b < n")
      case False
      then have e: "Suc b = n" using i by simp
      have "next_bucket ?h hi = (?h, hi\<lparr>hi_bucket_index := int b + 1\<rparr>, None)"
        using 0 e by (subst next_bucket.simps) (simp add: inside_def Let_def)
      then have "iter_run P ?h hi [] (fst (hash_iterator_free ?h (hi\<lparr>hi_bucket_index := int b + 1\<rparr>)))"
        using nx by (intro iter_run.stop) simp
      moreover have "fst (hash_iterator_free ?h (hi\<lparr>hi_bucket_index := int b + 1\<rparr>)) = fst (hash_iterator_unlock ?h hi)"
        by (simp add: hash_iterator_free_def hash_iterator_unlock_def split: option.split)
      ultimately show ?thesis using ul e i by simp
    next
      case True
      have mid: "mid n (Suc b) ?hi" using 0 i by (simp add: mid_def inside_def)
      have "next_bucket ?h hi = next_bucket (partly P h (Suc b) []) ?hi"
        using next_bucket_unlock[of hi ?h] 0 True by (simp add: ul inside_def)
      note nx2 = nx[unfolded this]
      from next_bucket_mid[OF mid less_imp_le[OF True] nl, of P] show ?thesis
      proof (elim disjE exE conjE)
        fix hi' assume a: "next_bucket (partly P h (Suc b) []) ?hi = (partly P h n [], hi', None)" "hi_bucket hi' = None"
          "\<forall>d. Suc b \<le> d \<and> d < n \<longrightarrow> h_buckets h ! d = []"
        have "iter_run P ?h hi [] (fst (hash_iterator_free (partly P h n []) hi'))" using nx2 a(1) by (intro iter_run.stop) simp
        moreover have e: "elems h (Suc b) n = []" using a(3) by simp
        ultimately show ?thesis unfolding e using a(2) i
          by (simp add: hash_iterator_free_def hash_iterator_unlock_def)
      next
        fix c hi' assume a: "Suc b \<le> c" "c < n" "\<forall>d. Suc b \<le> d \<and> d < c \<longrightarrow> h_buckets h ! d = []" "h_buckets h ! c \<noteq> []"
          "next_bucket (partly P h (Suc b) []) ?hi = (partly P h c [mark P 0 (h_buckets h ! c)], hi', Some (c, 0))"
          "hi_last hi' = Some 0" "hi_bucket hi' = Some c"
          "inside P h n c (Suc 0) (hi'\<lparr>hi_bucket_marked := hi_bucket_marked hi' \<or> P (h_buckets h ! c ! 0)\<rparr>)"
        have d: "n - c < n - b" using a(1,2) by simp
        have cl: "c < length (h_buckets h)" using a(2) nl by simp
        have "drop i (h_buckets h ! b) @ elems h (Suc b) n = h_buckets h ! c ! 0 # drop (Suc 0) (h_buckets h ! c) @ elems h (Suc c) n"
          using i elems_empty[OF a(3,1) less_imp_le[OF a(2)]] elems_Cons[OF a(2), of h] a(4)
          by (simp add: drop_Suc hd_conv_nth[symmetric])
        then show ?thesis
          by (simp only:) (rule process_element[OF assms(1) cl _ nx2[unfolded a(5)] a(6,7,8)], use a(4) outer[OF d] in auto)
      qed
    qed
  qed
qed

definition delete_all :: "(('k, 'v) hash_element \<Rightarrow> bool) \<Rightarrow> ('k, 'v) hash \<Rightarrow> ('k, 'v) hash" where
  "delete_all P h = h\<lparr>h_buckets := map (kept P) (h_buckets h),
     h_n_elements := h_n_elements h - int (sum_list (map (\<lambda>xs. length (filter P xs)) (h_buckets h)))\<rparr>"

lemma partly_all: "partly P h (length (h_buckets h)) [] = delete_all P h"
  by (simp add: partly_def delete_all_def)

lemma iter_run_range:
  assumes "all_keyed h" "mid n b hi" "b \<le> n" "n \<le> length (h_buckets h)"
  shows "iter_run P (partly P h b []) hi (elems h b n) (partly P h n [])"
proof -
  have nx: "hash_iterator_next (partly P h b []) hi = next_bucket (partly P h b []) hi"
    using assms(2) by (simp add: hash_iterator_next_def mid_def)
  from next_bucket_mid[OF assms(2-4), of P] show ?thesis
  proof (elim disjE exE conjE)
    fix hi' assume a: "next_bucket (partly P h b []) hi = (partly P h n [], hi', None)" "hi_bucket hi' = None"
      "\<forall>d. b \<le> d \<and> d < n \<longrightarrow> h_buckets h ! d = []"
    have "iter_run P (partly P h b []) hi [] (fst (hash_iterator_free (partly P h n []) hi'))"
      using nx a(1) by (intro iter_run.stop) simp
    moreover have e: "elems h b n = []" using a(3) by simp
    ultimately show ?thesis unfolding e using a(2)
      by (simp add: hash_iterator_free_def hash_iterator_unlock_def)
  next
    fix c hi' assume a: "b \<le> c" "c < n" "\<forall>d. b \<le> d \<and> d < c \<longrightarrow> h_buckets h ! d = []" "h_buckets h ! c \<noteq> []"
      "next_bucket (partly P h b []) hi = (partly P h c [mark P 0 (h_buckets h ! c)], hi', Some (c, 0))"
      "hi_last hi' = Some 0" "hi_bucket hi' = Some c"
      "inside P h n c (Suc 0) (hi'\<lparr>hi_bucket_marked := hi_bucket_marked hi' \<or> P (h_buckets h ! c ! 0)\<rparr>)"
    have cl: "c < length (h_buckets h)" using a(2) assms(4) by simp
    have "elems h b n = h_buckets h ! c ! 0 # drop (Suc 0) (h_buckets h ! c) @ elems h (Suc c) n"
      using elems_empty[OF a(3,1) less_imp_le[OF a(2)]] elems_Cons[OF a(2), of h] a(4)
      by (simp add: drop_Suc hd_conv_nth[symmetric])
    then show ?thesis
      by (simp only:) (rule process_element[OF assms(1) cl _ nx[unfolded a(5)] a(6,7,8)],
        use a(4) iter_run_inside[OF assms(1)] in auto)
  qed
qed

lemma hash_ok_keyed: "hash_ok h \<Longrightarrow> all_keyed h"
  unfolding all_keyed_def hash_ok_def bucket_ok_def by (metis in_set_conv_nth)

lemma delete_loop_all:
  assumes "hash_ok h"
  shows "\<exists>hi. hash_iterator_init h = Some hi \<and> delete_loop P h hi = Some (delete_all P h)"
proof -
  have n: "h_n_buckets h = int (length (h_buckets h))" using assms by (simp add: hash_ok_def)
  obtain hi where hi: "hash_iterator_init h = Some hi" and m: "mid (length (h_buckets h)) 0 hi"
    by (simp add: hash_iterator_init_def hash_iterator_init_range_def mid_def n)
  have p: "partly P h 0 [] = h" by (simp add: partly_def)
  show ?thesis
    using delete_loop_run[OF iter_run_range[OF hash_ok_keyed[OF assms] m le0 order_refl, of P]] hi
    unfolding p partly_all by blast
qed

lemma delete_all_ok:
  assumes "hash_ok h"
  shows "hash_ok (delete_all P h)"
proof -
  have "int (sum_list (map length (map (kept P) bs)))
      = int (sum_list (map length bs)) - int (sum_list (map (\<lambda>xs. length (filter P xs)) bs))" for bs :: "('a, 'b) hash_element list list"
  proof (induction bs)
    case (Cons xs bs)
    have "length (kept P xs) + length (filter P xs) = length xs" using sum_length_filter_compl[of P xs] by simp
    then show ?case using Cons by simp
  qed simp
  moreover have "bucket_ok (delete_all P h) b (kept P xs)" if "bucket_ok h b xs" for b xs
  proof -
    have "hash_value (delete_all P h) = hash_value h" "hash_bucket (delete_all P h) = hash_bucket h"
      "compare_function (delete_all P h) = compare_function h"
      by (auto simp: delete_all_def hash_value_def hash_bucket_def)
    then show ?thesis using that by (auto simp: bucket_ok_def sorted_wrt_filter)
  qed
  moreover have "cmp_ok (delete_all P h) = cmp_ok h" by (simp add: cmp_ok_def delete_all_def hash_value_def)
  ultimately show ?thesis using assms by (simp add: hash_ok_def) (simp add: delete_all_def)
qed

lemma delete_all_map:
  assumes "hash_ok h"
  shows "hash_map (delete_all (\<lambda>e. he_value e = v) h) k = (if hash_map h k = Some v then None else hash_map h k)"
proof (rule option_ext)
  fix w
  let ?P = "\<lambda>e. he_value e = v" and ?b = "hash_bucket h (hash_value h k)"
  note bk = bucket_of(1)[OF assms] bucket_of(2,3)[OF assms, of "hash_value h k"]
  have same: "hash_value (delete_all ?P h) = hash_value h" "hash_bucket (delete_all ?P h) = hash_bucket h"
    "compare_function (delete_all ?P h) = compare_function h"
    "h_buckets (delete_all ?P h) ! ?b = kept ?P (h_buckets h ! ?b)"
    using bk(2) by (auto simp: delete_all_def hash_value_def hash_bucket_def)
  have "bucket_ok h ?b (kept ?P (h_buckets h ! ?b))" using bk(3) by (auto simp: bucket_ok_def sorted_wrt_filter)
  note a = bucket_assoc[OF bk(1) this, of k] bucket_assoc[OF bk(1,3), of k]
  have m: "hash_map (delete_all ?P h) k = assoc (compare_function h) (kept ?P (h_buckets h ! ?b)) k"
    "hash_map h k = assoc (compare_function h) (h_buckets h ! ?b) k"
    unfolding hash_map_def same by (rule refl)+
  show "(hash_map (delete_all ?P h) k = Some w) = ((if hash_map h k = Some v then None else hash_map h k) = Some w)"
  proof (cases "hash_map h k = Some v")
    case True
    then have "assoc (compare_function h) (kept ?P (h_buckets h ! ?b)) k \<noteq> Some w"
      using a unfolding m by auto (metis option.inject)
    then show ?thesis using True m by simp
  next
    case False
    then show ?thesis using a unfolding m by auto
  qed
qed

lemma hash_init_ok:
  assumes "0 < n" "n \<le> 2 ^ 30" "equivp cmp" "\<And>x y. cmp x y \<Longrightarrow> hf x iv = hf y iv"
  obtains h :: "('k, 'v) hash" where "hash_init n iv hf cmp = Some h" "hash_ok h" "hash_map h = Map.empty" "compare_function h = cmp"
proof -
  have u: "unat (word_of_int n :: u64) = nat n" using assms(1,2)
    by (simp add: unat_eq_nat_uint uint_word_of_int_eq take_bit_int_eq_self)
  have le: "unat (word_of_int n :: u64) \<le> 2 ^ 63" using assms(2) unfolding u by simp
  obtain r j where r: "adjust_power_of_2 (word_of_int n) = Returned r" "unat r = 2 ^ j" "nat n \<le> 2 ^ j" "j = 0 \<or> 2 ^ (j - 1) < nat n"
    by (rule adjust_power_of_2_total[OF le, unfolded u])
  have "j \<le> 30"
  proof (rule ccontr)
    assume "\<not> j \<le> 30"
    then have "(2::nat) ^ 30 \<le> 2 ^ (j - 1)" by (intro power_increasing) auto
    moreover have "2 ^ (j - 1) < nat n" using r(4) \<open>\<not> j \<le> 30\<close> by auto
    moreover have "nat n \<le> 2 ^ 30" using assms(2) by simp
    ultimately show False by (meson leD le_trans)
  qed
  then have b: "(2::int) ^ j \<le> 2 ^ 30" by (intro power_increasing) auto
  have "uint r = 2 ^ j" using r(2) by (metis of_nat_numeral of_nat_power uint_nat)
  moreover have "c_int (2 ^ j) = 2 ^ j"
  proof (rule c_int_id)
    show "- (2 ^ 31) \<le> (2::int) ^ j" by (rule order_trans[of _ 0]) simp_all
    show "(2::int) ^ j < 2 ^ 31" by (rule le_less_trans[OF b]) simp
  qed
  ultimately have c: "c_int (uint r) = 2 ^ j" by simp
  let ?h = "\<lparr>h_n_buckets = 2 ^ j, h_n_elements = 0, h_mask = 2 ^ j - 1, h_iv = iv, hash_function = hf,
               compare_function = cmp, h_buckets = replicate (2 ^ j) []\<rparr> :: ('k, 'v) hash"
  have i: "hash_init n iv hf cmp = Some ?h" using assms(1) r(1) c by (simp add: hash_init_def Let_def nat_power_eq)
  have ok: "hash_ok ?h" using assms(3,4) \<open>j \<le> 30\<close>
    by (auto simp: hash_ok_def cmp_ok_def hash_value_def bucket_ok_def sum_list_replicate)
  have "h_buckets ?h ! hash_bucket ?h hv = []" for hv
  proof -
    have "hash_bucket ?h hv < 2 ^ j" using bucket_in_range[OF ok, of hv] by simp
    from nth_replicate[OF this, of "[]"] show ?thesis by simp
  qed
  then have "hash_map ?h = Map.empty" by (simp only: hash_map_def fun_eq_iff) (simp add: assoc_def)
  then show ?thesis using that i ok by simp
qed

section \<open>Properties\<close>

text \<open>
  C12. The hash table implements a map. In any consistent table (a power of two buckets, each
  element in the bucket of its hash value, no two equal keys, an exact element count), lookup,
  insertion with or without replacement and removal never touch a NULL key, keep the table consistent, report
  exactly whether the key was there, and act as on the map, although a lookup reorders its bucket.
\<close>

theorem hash_table_refines:
  assumes "hash_ok h"
  shows "(\<exists>h'. hash_lookup h k = Some (h', hash_map h k) \<and> hash_ok h' \<and> hash_map h' = hash_map h)
    \<and> (\<exists>h' r. hash_add h k v rep = Some (h', r) \<and> hash_ok h' \<and> r = (rep \<or> hash_map h k = None)
         \<and> hash_map h' = (if r then \<lambda>k'. if compare_function h k k' then Some v else hash_map h k' else hash_map h))
    \<and> (\<exists>h' r. hash_remove h k = Some (h', r) \<and> hash_ok h' \<and> r = (hash_map h k \<noteq> None)
         \<and> hash_map h' = (\<lambda>k'. if compare_function h k k' then None else hash_map h k'))"
  using hash_lookup_law[OF assms, of k] hash_add_law[OF assms, of k v rep] hash_remove_law[OF assms, of k] by blast

definition sample_table :: "(u32, nat) hash" where
  "sample_table = the (hash_init 5 0 (\<lambda>k iv. hash_func (htonl k) iv) (=))"

lemma sample_table: "hash_ok sample_table \<and> hash_map sample_table = Map.empty \<and> compare_function sample_table = (=)"
proof -
  obtain h :: "(u32, nat) hash" where "hash_init 5 0 (\<lambda>k iv. hash_func (htonl k) iv) (=) = Some h" "hash_ok h"
    "hash_map h = Map.empty" "compare_function h = (=)"
    by (rule hash_init_ok[of 5 "(=)" "\<lambda>k iv. hash_func (htonl k) iv" 0]) (auto simp: identity_equivp)
  then show ?thesis by (simp add: sample_table_def)
qed

lemma hash_table_refines_witness:
  "\<exists>h'. hash_add sample_table 7 42 False = Some (h', True) \<and> hash_map h' 7 = Some 42 \<and> hash_map h' 8 = None"
  using hash_table_refines[of sample_table 7 42 False] sample_table by auto

text \<open>
  C25. Deletion while iterating is exact. \<open>hash_remove_by_value\<close>, which visits all buckets with the
  iterator and marks elements for deletion on the way, ends, and removes exactly the entries
  with the given value; all other entries stay, the element count is right, and no marked key is left.
\<close>

theorem hash_remove_by_value_exact:
  assumes "hash_ok h"
  shows "\<exists>h'. hash_remove_by_value h v = Some h' \<and> hash_ok h'
    \<and> hash_map h' = (\<lambda>k. if hash_map h k = Some v then None else hash_map h k)"
  using delete_loop_all[OF assms, of "\<lambda>e. he_value e = v"] delete_all_ok[OF assms] delete_all_map[OF assms, of v]
  by (auto simp: hash_remove_by_value_def fun_eq_iff)

lemma hash_remove_by_value_exact_witness:
  "\<exists>h1 h2. hash_add sample_table 7 42 False = Some (h1, True) \<and> hash_remove_by_value h1 42 = Some h2 \<and> hash_map h2 7 = None"
proof -
  obtain h1 where h1: "hash_add sample_table 7 42 False = Some (h1, True)" "hash_ok h1" "hash_map h1 7 = Some 42"
    using hash_add_law[of sample_table 7 42 False] sample_table by auto
  then show ?thesis using hash_remove_by_value_exact[OF h1(2), of 42] by auto
qed

text \<open>
  Adding an entry under a free key and removing it again restores the map, whatever
  reordering happened inside the table.
\<close>

theorem hash_add_remove_roundtrip:
  assumes "hash_ok h" "\<And>k'. compare_function h k k' \<Longrightarrow> hash_map h k' = None"
  shows "\<exists>h1 h2. hash_add h k v rep = Some (h1, True) \<and> hash_remove h1 k = Some (h2, True) \<and> hash_map h2 = hash_map h"
  using ht.add_remove[OF assms, where v = v and rep = rep] by blast

lemma hash_add_remove_roundtrip_witness:
  "\<exists>h1 h2. hash_add sample_table 7 42 True = Some (h1, True) \<and> hash_remove h1 7 = Some (h2, True)
     \<and> hash_map h2 = hash_map sample_table"
  by (rule hash_add_remove_roundtrip) (use sample_table in auto)

lemma xor_xor [simp]: "(x XOR y) XOR y = x" for x y :: u32
  by (simp add: xor.assoc)

lemma mix_lines: "bij (mix_a n)" "bij (mix_b n)" "bij (mix_c n)"
proof -
  show "bij (mix_a n)"
    by (rule o_bij[of "\<lambda>(a, b, c). ((a XOR drop_bit n c) + c + b, b, c)"]) (auto simp: mix_a_def Let_def fun_eq_iff)
  show "bij (mix_b n)"
    by (rule o_bij[of "\<lambda>(a, b, c). (a, (b XOR push_bit n a) + a + c, c)"]) (auto simp: mix_b_def Let_def fun_eq_iff)
  show "bij (mix_c n)"
    by (rule o_bij[of "\<lambda>(a, b, c). (a, b, (c XOR drop_bit n b) + b + a)"]) (auto simp: mix_c_def Let_def fun_eq_iff)
qed

text \<open>
  The mixing step of the hash function is reversible, as its comment says: it is a bijection on
  triples of 32-bit words, so no information of the key is lost before the final result.
\<close>

theorem mix_reversible: "bij mix"
proof -
  have e: "mix = mix_c 15 \<circ> mix_b 10 \<circ> mix_a 3 \<circ> mix_c 5 \<circ> mix_b 16 \<circ> mix_a 12 \<circ> mix_c 13 \<circ> mix_b 8 \<circ> mix_a 13"
    by (simp add: mix_def Let_def fun_eq_iff)
  show ?thesis unfolding e by (intro bij_comp mix_lines)
qed

end
