(* ===== verification/Base64.thy ===== *)
theory Base64
  imports Prelude
begin

text \<open>
  Base64 (\<open>base64.c\<close>), used for credentials and inline files. Strings are byte lists without the
  final zero byte. The result -1 of the code is \<open>None\<close>; a string is returned instead of
  its length, which is the length of the list.
\<close>

definition base64_chars :: bytes where
  "base64_chars = map of_char ''ABCDEFGHIJKLMNOPQRSTUVWXYZabcdefghijklmnopqrstuvwxyz0123456789+/''"

definition EQ :: u8 where "EQ = of_char (CHR ''='')"

section \<open>The program\<close>

text \<open>\<open>c += q[i]\<close> if \<open>i\<close> is in range.\<close>

definition add_byte :: "bytes \<Rightarrow> nat \<Rightarrow> nat \<Rightarrow> int \<Rightarrow> int" where
  "add_byte q sz i c = (if i < sz then c + uint (q ! i) else c)"

function encode_loop :: "bytes \<Rightarrow> nat \<Rightarrow> nat \<Rightarrow> bytes" where
  "encode_loop q sz i =
     (if i < sz then
        let c = uint (q ! i); i = i + 1;
            c = c * 256; c = add_byte q sz i c; i = i + 1;
            c = c * 256; c = add_byte q sz i c; i = i + 1;
            p0 = base64_chars ! nat (drop_bit 18 (c AND 0x00fc0000));
            p1 = base64_chars ! nat (drop_bit 12 (c AND 0x0003f000));
            p2 = base64_chars ! nat (drop_bit 6 (c AND 0x00000fc0));
            p3 = base64_chars ! nat (drop_bit 0 (c AND 0x0000003f));
            p3 = (if i > sz then EQ else p3);
            p2 = (if i > sz + 1 then EQ else p2)
        in [p0, p1, p2, p3] @ encode_loop q sz i
      else [])"
  by auto
termination by (relation "measure (\<lambda>(q, sz, i). sz - i)") auto

definition openvpn_base64_encode :: "bytes \<Rightarrow> int \<Rightarrow> bytes option" where
  "openvpn_base64_encode data sz = (if sz < 0 then None else Some (encode_loop data (nat sz) 0))"

fun pos_from :: "bytes \<Rightarrow> int \<Rightarrow> u8 \<Rightarrow> int" where
  "pos_from [] i c = -1"
| "pos_from (p # ps) i c = (if p = c then i else pos_from ps (i + 1) c)"

definition pos :: "u8 \<Rightarrow> int" where
  "pos c = pos_from base64_chars 0 c"

definition DECODE_ERROR :: u32 where "DECODE_ERROR = 0xffffffff"

text \<open>The loop of \<open>token_decode\<close>: \<open>val\<close> and \<open>marker\<close>, or \<open>None\<close> for a character after a marker.\<close>

fun token_loop :: "bytes \<Rightarrow> u32 \<Rightarrow> int \<Rightarrow> (u32 \<times> int) option" where
  "token_loop [] val marker = Some (val, marker)"
| "token_loop (t # ts) val marker =
     (let val = val * 64 in
      if t = EQ then token_loop ts val (marker + 1)
      else if marker > 0 then None
      else token_loop ts (val + word_of_int (pos t)) marker)"

definition token_decode :: "bytes \<Rightarrow> u32" where
  "token_decode token =
     (if length token < 4 \<or> token ! 0 = 0 \<or> token ! 1 = 0 \<or> token ! 2 = 0 \<or> token ! 3 = 0 then DECODE_ERROR
      else case token_loop (take 4 token) 0 0 of
        None \<Rightarrow> DECODE_ERROR
      | Some (val, marker) \<Rightarrow> if marker > 2 then DECODE_ERROR else push_bit 24 (word_of_int marker) OR val)"

text \<open>\<open>*q++ = b\<close> after the check for room, when a sz was given.\<close>

definition put_byte :: "int \<Rightarrow> u32 \<Rightarrow> bytes \<Rightarrow> bytes option" where
  "put_byte sz b out =
     (if sz \<ge> 0 \<and> int (length out) \<ge> sz then None else Some (out @ [ucast (b AND 0xff)]))"

function decode_loop :: "bytes \<Rightarrow> int \<Rightarrow> bytes \<Rightarrow> bytes option" where
  "decode_loop p sz out =
     (if p \<noteq> [] \<and> hd p \<noteq> 0 \<and> (hd p = EQ \<or> hd p \<in> set base64_chars) then
        let val = token_decode p; marker = drop_bit 24 val AND 0xff in
        if val = DECODE_ERROR then None
        else do {
          out \<leftarrow> put_byte sz (drop_bit 16 val) out;
          out \<leftarrow> (if marker < 2 then put_byte sz (drop_bit 8 val) out else Some out);
          out \<leftarrow> (if marker < 1 then put_byte sz val out else Some out);
          decode_loop (drop 4 p) sz out }
      else Some out)"
  by auto
termination by (relation "measure (length \<circ> fst)") auto

definition openvpn_base64_decode :: "bytes \<Rightarrow> int \<Rightarrow> bytes option" where
  "openvpn_base64_decode str sz = decode_loop str sz []"

declare encode_loop.simps [simp del] decode_loop.simps [simp del]

section \<open>The alphabet\<close>

lemma length_base64_chars [simp]: "length base64_chars = 64"
  by (simp add: base64_chars_def)

lemma alphabet: "distinct base64_chars" "0 \<notin> set base64_chars" "EQ \<notin> set base64_chars" "EQ \<noteq> 0"
  by (simp_all add: base64_chars_def EQ_def)

lemma pos_from_nth: "distinct ps \<Longrightarrow> s < length ps \<Longrightarrow> pos_from ps i (ps ! s) = i + int s"
proof (induction ps arbitrary: i s)
  case (Cons p ps)
  then show ?case by (cases s) auto
qed simp

lemma char_mem [simp]: "s < 64 \<Longrightarrow> base64_chars ! s \<in> set base64_chars"
  using nth_mem[of s base64_chars] by simp

lemma char_pos [simp]: "s < 64 \<Longrightarrow> pos (base64_chars ! s) = int s" "s < 64 \<Longrightarrow> base64_chars ! s \<noteq> 0"
    "s < 64 \<Longrightarrow> base64_chars ! s \<noteq> EQ"
proof -
  assume s: "s < 64"
  show "pos (base64_chars ! s) = int s" using s alphabet(1) pos_from_nth[of base64_chars s 0] by (simp add: pos_def)
  show "base64_chars ! s \<noteq> 0" "base64_chars ! s \<noteq> EQ" using char_mem[OF s] alphabet(2,3) by metis+
qed

section \<open>One group of three bytes\<close>

lemma sextets:
  fixes c :: int
  shows "drop_bit 18 (c AND 0x00fc0000) = (c div 2 ^ 18) mod 64" "drop_bit 12 (c AND 0x0003f000) = (c div 2 ^ 12) mod 64"
    "drop_bit 6 (c AND 0x00000fc0) = (c div 2 ^ 6) mod 64" "drop_bit 0 (c AND 0x0000003f) = c mod 64"
proof -
  have m: "x AND 63 = x mod 64" for x :: int
    using take_bit_eq_mask[of 6 x] by (simp add: mask_eq_exp_minus_1 take_bit_eq_mod)
  show "drop_bit 18 (c AND 0x00fc0000) = (c div 2 ^ 18) mod 64" "drop_bit 12 (c AND 0x0003f000) = (c div 2 ^ 12) mod 64"
    "drop_bit 6 (c AND 0x00000fc0) = (c div 2 ^ 6) mod 64" "drop_bit 0 (c AND 0x0000003f) = c mod 64"
    using m by (simp_all add: drop_bit_and) (simp_all add: drop_bit_eq_div)
qed

lemma byte_of:
  assumes "0 \<le> t" "t < 2 ^ 32"
  shows "ucast (drop_bit n (word_of_int t :: u32) AND 0xff) = (word_of_int (t div 2 ^ n) :: u8)"
    "drop_bit n (word_of_int t :: u32) AND 0xff = word_of_int (t div 2 ^ n mod 256)"
proof -
  have u: "uint (word_of_int t :: u32) = t" using assms by (simp add: uint_word_of_int_eq take_bit_int_eq_self)
  have m: "x AND 255 = x mod 256" for x :: int
    using take_bit_eq_mask[of 8 x] by (simp add: mask_eq_exp_minus_1 take_bit_eq_mod)
  have d: "uint (drop_bit n (word_of_int t :: u32)) = t div 2 ^ n"
    unfolding unsigned_drop_bit_eq u using assms by (simp add: take_bit_int_eq_self drop_bit_eq_div)
  have e: "uint (drop_bit n (word_of_int t :: u32) AND 0xff) = t div 2 ^ n mod 256"
    unfolding uint_and d by (simp add: m)
  show "drop_bit n (word_of_int t :: u32) AND 0xff = word_of_int (t div 2 ^ n mod 256)"
    using arg_cong[OF e, of "word_of_int :: int \<Rightarrow> u32"] by simp
  have "ucast (drop_bit n (word_of_int t :: u32) AND 0xff) = (word_of_int (t div 2 ^ n mod 256) :: u8)"
    unfolding e[symmetric] by (rule ucast_eq)
  also have "\<dots> = word_of_int (t div 2 ^ n)"
    by (simp add: word_uint_eq_iff uint_word_of_int)
  finally show "ucast (drop_bit n (word_of_int t :: u32) AND 0xff) = (word_of_int (t div 2 ^ n) :: u8)" .
qed

text \<open>What \<open>token_decode\<close> computes on the encoding of one to three bytes.\<close>

definition sextet :: "int \<Rightarrow> nat \<Rightarrow> u8" where
  "sextet c n = base64_chars ! nat ((c div 2 ^ n) mod 64)"

lemma sextet_simps [simp]:
  "pos (sextet c n) = (c div 2 ^ n) mod 64" "sextet c n \<noteq> 0" "sextet c n \<noteq> EQ" "EQ \<noteq> sextet c n"
  "sextet c n \<in> set base64_chars"
proof -
  have b: "nat ((c div 2 ^ n) mod 64) < 64" using pos_mod_bound[of 64 "c div 2 ^ n"] pos_mod_sign[of 64 "c div 2 ^ n"]
    by linarith
  show "pos (sextet c n) = (c div 2 ^ n) mod 64" "sextet c n \<noteq> 0" "sextet c n \<noteq> EQ" "EQ \<noteq> sextet c n"
    "sextet c n \<in> set base64_chars"
    using b by (simp_all add: sextet_def) (metis char_pos(3) b)
qed

lemma recombine:
  fixes c :: int
  assumes "0 \<le> c" "c < 2 ^ 24"
  shows "((c div 2 ^ 18 mod 64 * 64 + c div 2 ^ 12 mod 64) * 64 + c div 2 ^ 6 mod 64) * 64 + c mod 64 = c"
proof -
  have "c div 2 ^ 18 mod 64 = c div 2 ^ 18" using assms by (intro mod_pos_pos_trivial) (auto simp: div_less_iff_less_mult)
  moreover have "c div 2 ^ 18 * 64 + c div 2 ^ 12 mod 64 = c div 2 ^ 12"
    using div_mult_mod_eq[of "c div 2 ^ 12" 64] by (simp add: zdiv_zmult2_eq[symmetric])
  moreover have "c div 2 ^ 12 * 64 + c div 2 ^ 6 mod 64 = c div 2 ^ 6"
    using div_mult_mod_eq[of "c div 2 ^ 6" 64] by (simp add: zdiv_zmult2_eq[symmetric])
  moreover have "c div 2 ^ 6 * 64 + c mod 64 = c" using div_mult_mod_eq[of c 64] by simp
  ultimately show ?thesis by metis
qed

lemma token_loop_chars:
  "p \<noteq> EQ \<Longrightarrow> q \<noteq> EQ \<Longrightarrow> token_loop [p, q, EQ, EQ] 0 0 = Some (word_of_int ((pos p * 64 + pos q) * 64 * 64), 2)"
  "p \<noteq> EQ \<Longrightarrow> q \<noteq> EQ \<Longrightarrow> r \<noteq> EQ \<Longrightarrow>
     token_loop [p, q, r, EQ] 0 0 = Some (word_of_int (((pos p * 64 + pos q) * 64 + pos r) * 64), 1)"
  by simp_all

lemma word_chain:
  "(((word_of_int a * 64 + word_of_int b) * 64 + word_of_int c) * 64 + word_of_int d :: u32)
     = word_of_int (((a * 64 + b) * 64 + c) * 64 + d)"
  by simp

lemma token_whole:
  assumes "0 \<le> c" "c < 2 ^ 24"
  shows "token_decode ([sextet c 18, sextet c 12, sextet c 6, sextet c 0] @ r) = word_of_int c"
proof -
  have "token_loop [sextet c 18, sextet c 12, sextet c 6, sextet c 0] 0 0 = Some (word_of_int c, 0)"
    using word_chain[of "c div 2 ^ 18 mod 64" "c div 2 ^ 12 mod 64" "c div 2 ^ 6 mod 64" "c mod 64"]
    unfolding recombine[OF assms] by simp
  then show ?thesis by (simp add: token_decode_def)
qed

lemma push24:
  assumes "0 \<le> c" "c < 2 ^ 24"
  shows "push_bit 24 (word_of_int m :: u32) OR word_of_int c = word_of_int (m * 2 ^ 24 + c)"
proof -
  have t: "c = take_bit 24 c" using assms by (simp add: take_bit_int_eq_self)
  have "push_bit 24 m + c = push_bit 24 m OR c"
    by (rule disjunctive_add_eq_or) (subst t, auto simp: bit_eq_iff bit_simps)
  moreover have "(word_of_int (push_bit 24 m OR c) :: u32) = push_bit 24 (word_of_int m) OR word_of_int c"
    by (simp only: of_int_or_eq push_bit_of_int)
  ultimately show ?thesis by (simp only: push_bit_eq_mult)
qed

lemma mod_mult_256: "(m * 65536 + x) mod 256 = x mod (256::int)" "(m * 16777216 + x) mod 256 = x mod (256::int)"
  using mod_mult_self1[of x "m * 256" 256] mod_mult_self1[of x "m * 65536" 256] by (simp_all add: algebra_simps)

text \<open>One step of the decoder on a token without error.\<close>

lemma decode_step:
  assumes "token_decode p = word_of_int (m * 2 ^ 24 + c)" "0 \<le> c" "c < 2 ^ 24" "0 \<le> m" "m \<le> 2"
    and "p \<noteq> []" "hd p \<in> set base64_chars" and room: "sz < 0 \<or> int (length out) + (3 - m) \<le> sz"
  shows "decode_loop p sz out = decode_loop (drop 4 p) sz
    (out @ take (nat (3 - m)) [word_of_int (c div 2 ^ 16), word_of_int (c div 2 ^ 8), word_of_int c])"
proof -
  let ?t = "m * 2 ^ 24 + c"
  have t: "0 \<le> ?t" "?t < 2 ^ 32" using assms(2-5) by auto
  note b = byte_of[OF t]
  have d: "?t div 2 ^ 24 = m" using assms(2,3) by simp
  have ne: "token_decode p \<noteq> DECODE_ERROR"
  proof
    assume "token_decode p = DECODE_ERROR"
    then have "drop_bit 24 (word_of_int ?t :: u32) AND 0xff = 255" unfolding assms(1)[symmetric] by (simp add: DECODE_ERROR_def)
    then have "word_of_int m = (255 :: u32)" using assms(4,5) unfolding b(2)[of 24] d by simp
    moreover have "uint (word_of_int m :: u32) = m" using assms(4,5) by (simp add: uint_word_of_int)
    ultimately show False using assms(5) by auto
  qed
  have mk: "drop_bit 24 (token_decode p) AND 0xff = word_of_int m"
    unfolding assms(1) b(2)[of 24] d using assms(4,5) by simp
  have bytes: "(word_of_int (?t div 2 ^ 16) :: u8) = word_of_int (c div 2 ^ 16)"
    "(word_of_int (?t div 2 ^ 8) :: u8) = word_of_int (c div 2 ^ 8)" "(word_of_int ?t :: u8) = word_of_int c"
  proof -
    have "?t div 2 ^ 16 = m * 256 + c div 2 ^ 16" "?t div 2 ^ 8 = m * 65536 + c div 2 ^ 8"
      by (simp_all add: div_plus_div_distrib_dvd_left)
    moreover have "(word_of_int (m * 256 + x) :: u8) = word_of_int x" "(word_of_int (m * 65536 + x) :: u8) = word_of_int x"
      "(word_of_int (m * 2 ^ 24 + x) :: u8) = word_of_int x" for x
      by (simp_all only: word_of_int_eq_iff take_bit_eq_mod) (simp_all add: mod_mult_256)
    ultimately show "(word_of_int (?t div 2 ^ 16) :: u8) = word_of_int (c div 2 ^ 16)"
      "(word_of_int (?t div 2 ^ 8) :: u8) = word_of_int (c div 2 ^ 8)" "(word_of_int ?t :: u8) = word_of_int c"
      by (simp_all only:)
  qed
  have v: "ucast (drop_bit 16 (token_decode p) AND 0xff) = (word_of_int (c div 2 ^ 16) :: u8)"
    "ucast (drop_bit 8 (token_decode p) AND 0xff) = (word_of_int (c div 2 ^ 8) :: u8)"
    "ucast (token_decode p AND 0xff) = (word_of_int c :: u8)"
    unfolding assms(1)
    using b(1)[of 16] b(1)[of 8] b(1)[of 0, unfolded drop_bit_0 id_apply power_0 div_by_1] unfolding bytes by this
  obtain val where val: "token_decode p = val" by blast
  note f = ne[unfolded val] mk[unfolded val] v[unfolded val]
  have p: "(p \<noteq> [] \<and> hd p \<noteq> 0 \<and> (hd p = EQ \<or> hd p \<in> set base64_chars)) = True"
    using assms(6,7) alphabet(2) by metis
  have put: "put_byte sz w o' = Some (o' @ [ucast (w AND 0xff)])" if "sz < 0 \<or> int (length o') < sz" for w o'
    using that by (auto simp: put_byte_def)
  have step: "decode_loop p sz out = do {
      out \<leftarrow> put_byte sz (drop_bit 16 val) out;
      out \<leftarrow> (if word_of_int m < (2 :: u32) then put_byte sz (drop_bit 8 val) out else Some out);
      out \<leftarrow> (if word_of_int m < (1 :: u32) then put_byte sz val out else Some out);
      decode_loop (drop 4 p) sz out }"
    unfolding decode_loop.simps[of p] p if_True Let_def val f(2) using f(1) by simp
  consider "m = 0" | "m = 1" | "m = 2" using assms(4,5) by linarith
  then show ?thesis
  proof cases
    case 1
    then show ?thesis using room unfolding step by (cases "sz < 0") (simp_all add: put f(3-5))
  next
    case 2
    then show ?thesis using room unfolding step by (cases "sz < 0") (simp_all add: put f(3-5))
  next
    case 3
    then show ?thesis using room unfolding step by (cases "sz < 0") (simp_all add: put f(3-5))
  qed
qed

lemma token_one_marker:
  assumes "0 \<le> c" "c < 2 ^ 24" "64 dvd c"
  shows "token_decode ([sextet c 18, sextet c 12, sextet c 6, EQ] @ r) = word_of_int (1 * 2 ^ 24 + c)"
proof -
  have "c mod 64 = 0" using assms(3) by simp
  then have "((c div 2 ^ 18 mod 64 * 64 + c div 2 ^ 12 mod 64) * 64 + c div 2 ^ 6 mod 64) * 64 = c"
    using recombine[OF assms(1,2)] by (simp only: add_0_right)
  then have "token_loop [sextet c 18, sextet c 12, sextet c 6, EQ] 0 0 = Some (word_of_int c, 1)"
    unfolding token_loop_chars(2)[OF sextet_simps(3) sextet_simps(3) sextet_simps(3)] sextet_simps by (simp only:)
  then show ?thesis using push24[OF assms(1,2), of 1] alphabet(4) by (simp add: token_decode_def)
qed

lemma token_two_markers:
  assumes "0 \<le> c" "c < 2 ^ 24" "4096 dvd c"
  shows "token_decode ([sextet c 18, sextet c 12, EQ, EQ] @ r) = word_of_int (2 * 2 ^ 24 + c)"
proof -
  have "c mod 64 = 0" "c div 2 ^ 6 mod 64 = 0" using assms(3) by (auto elim!: dvdE)
  then have "(c div 2 ^ 18 mod 64 * 64 + c div 2 ^ 12 mod 64) * 64 * 64 = c"
    using recombine[OF assms(1,2)] by (simp only: add_0_right)
  then have "token_loop [sextet c 18, sextet c 12, EQ, EQ] 0 0 = Some (word_of_int c, 2)"
    unfolding token_loop_chars(1)[OF sextet_simps(3) sextet_simps(3)] sextet_simps by (simp only:)
  then show ?thesis using push24[OF assms(1,2), of 2] alphabet(4) by (simp add: token_decode_def)
qed

section \<open>Whole strings\<close>

text \<open>The encoder as a recursion on the data.\<close>

fun groups :: "bytes \<Rightarrow> bytes" where
  "groups [] = []"
| "groups [x] = (let c = uint x * 65536 in [sextet c 18, sextet c 12, EQ, EQ])"
| "groups [x, y] = (let c = uint x * 65536 + uint y * 256 in [sextet c 18, sextet c 12, sextet c 6, EQ])"
| "groups (x # y # z # r) = (let c = uint x * 65536 + uint y * 256 + uint z in
     [sextet c 18, sextet c 12, sextet c 6, sextet c 0] @ groups r)"

lemma encode_step:
  assumes "i < sz"
  shows "encode_loop q sz i = (let c = uint (q ! i) * 65536 + (if i + 1 < sz then uint (q ! (i + 1)) else 0) * 256
       + (if i + 2 < sz then uint (q ! (i + 2)) else 0) in
     [sextet c 18, sextet c 12, if i + 2 > sz then EQ else sextet c 6, if i + 3 > sz then EQ else sextet c 0]
       @ encode_loop q sz (i + 3))"
proof -
  have c: "add_byte q sz (i + 1 + 1) (add_byte q sz (i + 1) (uint (q ! i) * 256) * 256)
    = uint (q ! i) * 65536 + (if i + 1 < sz then uint (q ! (i + 1)) else 0) * 256
       + (if i + 2 < sz then uint (q ! (i + 2)) else 0)"
    by (auto simp: add_byte_def algebra_simps)
  show ?thesis using assms
    by (subst encode_loop.simps) (simp only: Let_def if_True c sextets sextet_def, auto simp: numeral_3_eq_3)
qed

lemma encode_groups: "encode_loop q (length q) i = groups (drop i q)"
proof (induction "length q - i" arbitrary: i rule: less_induct)
  case less
  define d where "d = drop i q"
  have l: "length d = length q - i" by (simp add: d_def)
  have e: "q ! (i + n) = d ! n" if "i + n < length q" for n using that by (simp add: d_def)
  have fin: "encode_loop q (length q) j = []" if "length q \<le> j" for j
    using that by (simp add: encode_loop.simps[of q _ j])
  note st = encode_step[of i "length q" q]
  show ?case unfolding d_def[symmetric]
  proof (cases d rule: groups.cases)
    case 1
    then show "encode_loop q (length q) i = groups d" using l fin by simp
  next
    case (2 x)
    then have n: "length q = i + 1" using l by simp
    then show "encode_loop q (length q) i = groups d"
      using e[of 0] fin[of "i + 3"] 2 st by (simp add: Let_def)
  next
    case (3 x y)
    then have n: "length q = i + 2" using l by simp
    then show "encode_loop q (length q) i = groups d"
      using e[of 0] e[of 1] fin[of "i + 3"] 3 st by (simp add: Let_def)
  next
    case (4 x y z r)
    then have n: "i + 3 \<le> length q" using l by simp
    have "drop (i + 3) q = r" using 4 unfolding d_def by (metis drop_drop add.commute drop_Suc_Cons drop0 numeral_3_eq_3)
    moreover have "encode_loop q (length q) (i + 3) = groups (drop (i + 3) q)" using less n by simp
    ultimately show "encode_loop q (length q) i = groups d"
      using 4 n e[of 0] e[of 1] e[of 2] st by (simp add: Let_def)
  qed
qed

text \<open>The three bytes of a group.\<close>

lemma group_bytes:
  fixes x y z :: u8
  defines "c \<equiv> uint x * 65536 + uint y * 256 + uint z"
  shows "0 \<le> c" "c < 2 ^ 24" "(word_of_int (c div 2 ^ 16) :: u8) = x" "(word_of_int (c div 2 ^ 8) :: u8) = y"
    "(word_of_int c :: u8) = z"
proof -
  have b: "0 \<le> uint w" "uint w < 256" for w :: u8 using uint_lt2p[of w] by simp_all
  note bs = b[of x] b[of y] b[of z]
  show "0 \<le> c" "c < 2 ^ 24" using bs by (simp_all add: c_def)
  have "c div 2 ^ 16 = uint x" by (rule int_div_pos_eq[where r = "uint y * 256 + uint z"]) (use bs in \<open>simp_all add: c_def\<close>)
  moreover have "c div 2 ^ 8 = uint x * 256 + uint y" by (rule int_div_pos_eq[where r = "uint z"]) (use bs in \<open>simp_all add: c_def\<close>)
  moreover have "c = (uint x * 256 + uint y) * 256 + uint z" by (simp add: c_def)
  moreover have "(word_of_int (u * 256 + uint w) :: u8) = w" for u and w :: u8
    using b[of w] by (simp only: word_uint_eq_iff uint_word_of_int) simp
  ultimately show "(word_of_int (c div 2 ^ 16) :: u8) = x" "(word_of_int (c div 2 ^ 8) :: u8) = y" "(word_of_int c :: u8) = z"
    by (metis word_of_int_uint)+
qed

lemma decode_groups:
  "sz < 0 \<or> int (length out) + int (length d) \<le> sz \<Longrightarrow> decode_loop (groups d) sz out = Some (out @ d)"
proof (induction d arbitrary: out rule: groups.induct)
  case 1
  then show ?case by (simp add: decode_loop.simps)
next
  case (2 x)
  have g: "0 \<le> uint x * 65536" "uint x * 65536 < 2 ^ 24" "(word_of_int (uint x * 65536 div 2 ^ 16) :: u8) = x"
    using group_bytes(1-3)[of x 0 0] by (simp_all only: unsigned_0 add_0_right mult_zero_left)
  have "4096 dvd uint x * 65536" by (rule dvd_mult) simp
  note tok = token_two_markers[OF g(1,2) this, of "[]"]
  have "decode_loop (groups [x]) sz out = decode_loop [] sz (out @ [word_of_int (uint x * 65536 div 2 ^ 16)])"
    using decode_step[of "groups [x]" 2 "uint x * 65536" sz out] g(1,2) tok 2 by (simp add: Let_def)
  then show ?case using g(3) by (simp add: decode_loop.simps)
next
  case (3 x y)
  have g: "0 \<le> uint x * 65536 + uint y * 256" "uint x * 65536 + uint y * 256 < 2 ^ 24"
    "(word_of_int ((uint x * 65536 + uint y * 256) div 2 ^ 16) :: u8) = x"
    "(word_of_int ((uint x * 65536 + uint y * 256) div 2 ^ 8) :: u8) = y"
    using group_bytes(1-4)[of x y 0] by (simp_all only: unsigned_0 add_0_right mult_zero_left)
  have "64 dvd uint x * 65536 + uint y * 256" by (intro dvd_add dvd_mult) simp_all
  note tok = token_one_marker[OF g(1,2) this, of "[]"]
  have "decode_loop (groups [x, y]) sz out = decode_loop [] sz
      (out @ [word_of_int ((uint x * 65536 + uint y * 256) div 2 ^ 16), word_of_int ((uint x * 65536 + uint y * 256) div 2 ^ 8)])"
    using decode_step[of "groups [x, y]" 1 "uint x * 65536 + uint y * 256" sz out] g(1,2) tok 3
    by (simp add: Let_def numeral_2_eq_2)
  then show ?case using g(3,4) by (simp add: decode_loop.simps)
next
  case (4 x y z r)
  let ?c = "uint x * 65536 + uint y * 256 + uint z"
  note g = group_bytes[of x y z]
  note tok = token_whole[OF g(1,2), of "groups r"]
  have rm: "sz < 0 \<or> int (length out) + 3 \<le> sz" using 4(2) by auto
  have "decode_loop (groups (x # y # z # r)) sz out = decode_loop (groups r) sz
      (out @ [word_of_int (?c div 2 ^ 16), word_of_int (?c div 2 ^ 8), word_of_int ?c])"
    using decode_step[of "groups (x # y # z # r)" 0 ?c sz out] g(1,2) tok rm by (simp add: Let_def numeral_3_eq_3)
  also have "\<dots> = Some ((out @ [x, y, z]) @ r)" unfolding g(3-5) by (rule 4(1)) (use 4(2) in auto)
  finally show ?case by simp
qed

lemma length_groups: "length (groups d) = (length d + 2) div 3 * 4"
proof (induction d rule: groups.induct)
  case (4 x y z r)
  have "(n + 3 + 2) div 3 * 4 = 4 + (n + 2) div 3 * (4 :: nat)" for n by presburger
  from this[of "length r"] show ?case using 4 by (simp add: Let_def add.commute)
qed (simp_all add: Let_def)

section \<open>Properties\<close>

text \<open>
  C31. Base64 round trip. Encoding any data and decoding the result, into a buffer that is large
  enough (or with no limit given), gives back the data.
\<close>

theorem base64_roundtrip:
  assumes "sz < 0 \<or> int (length d) \<le> sz"
  shows "\<exists>s. openvpn_base64_encode d (int (length d)) = Some s \<and> openvpn_base64_decode s sz = Some d"
  using decode_groups[of sz "[]" d] assms
  by (simp add: openvpn_base64_encode_def openvpn_base64_decode_def encode_groups)

lemma base64_roundtrip_witness:
  "\<exists>s. openvpn_base64_encode [104, 105, 33, 10] 4 = Some s \<and> openvpn_base64_decode s 4 = Some [104, 105, 33, 10]"
  using base64_roundtrip[of 4 "[104, 105, 33, 10]"] by simp

text \<open>
  The encoder stays in its buffer: the string and its final zero byte fit into the
  \<open>size * 4 / 3 + 4\<close> bytes that are allocated, and its length is 4 for every started group of 3 bytes.
\<close>

theorem base64_encode_fits:
  "\<exists>s. openvpn_base64_encode d (int (length d)) = Some s \<and> length s = (length d + 2) div 3 * 4
     \<and> length s + 1 \<le> length d * 4 div 3 + 4"
proof -
  have "(n + 2) div 3 * 4 + 1 \<le> n * 4 div 3 + 4" for n :: nat by presburger
  then show ?thesis by (simp add: openvpn_base64_encode_def encode_groups length_groups)
qed

text \<open>
  The value of a group of four characters, in which \<open>pos\<close> gives -1 for a character outside the
  alphabet.
\<close>

definition group_value :: "u8 \<Rightarrow> u8 \<Rightarrow> u8 \<Rightarrow> u8 \<Rightarrow> int" where
  "group_value a b c d = ((pos a * 64 + pos b) * 64 + pos c) * 64 + pos d"

lemma pos_from_range: "pos_from ps i c = - 1 \<or> i \<le> pos_from ps i c \<and> pos_from ps i c < i + int (length ps)"
  by (induction ps arbitrary: i) (auto split: if_splits, (smt (verit))+)

lemma pos_range: "- 1 \<le> pos c" "pos c < 64"
  using pos_from_range[of base64_chars 0 c] by (auto simp: pos_def)

lemma pos_mem: "c \<in> set base64_chars \<Longrightarrow> 0 \<le> pos c"
  by (auto simp: in_set_conv_nth)

lemma group_value_range:
  assumes "a \<in> set base64_chars"
  shows "- 4161 \<le> group_value a b c d" "group_value a b c d < 2 ^ 24"
  using pos_mem[OF assms] pos_range[of a] pos_range[of b] pos_range[of c] pos_range[of d] by (simp_all add: group_value_def)

text \<open>A negative value has \<open>0xff\<close> where the decoder looks for the number of padding characters.\<close>

lemma negative_value:
  assumes "- 4161 \<le> v" "v < 0"
  shows "drop_bit 24 (word_of_int v :: u32) AND 0xff = 255"
    "ucast (drop_bit 16 (word_of_int v :: u32) AND 0xff) = (255 :: u8)"
    "(word_of_int v :: u32) = DECODE_ERROR \<longleftrightarrow> v = - 1"
proof -
  have e: "(word_of_int v :: u32) = word_of_int (v + 2 ^ 32)" by simp
  have t: "0 \<le> v + 2 ^ 32" "v + 2 ^ 32 < 2 ^ 32" using assms by simp_all
  have d: "(v + 2 ^ 32) div 2 ^ 24 = 255" "(v + 2 ^ 32) div 2 ^ 16 = 65535" using assms
    by (intro int_div_pos_eq[where r = "v + 2 ^ 24"] int_div_pos_eq[where r = "v + 2 ^ 16"]; simp)+
  show "drop_bit 24 (word_of_int v :: u32) AND 0xff = 255" unfolding e byte_of(2)[OF t] d by simp
  show "ucast (drop_bit 16 (word_of_int v :: u32) AND 0xff) = (255 :: u8)" unfolding e byte_of(1)[OF t] d by simp
  have "uint (word_of_int (v + 2 ^ 32) :: u32) = v + 2 ^ 32" using t by (simp only: uint_word_of_int_eq) (simp add: take_bit_int_eq_self del: of_int_add)
  then show "(word_of_int v :: u32) = DECODE_ERROR \<longleftrightarrow> v = - 1"
    unfolding e DECODE_ERROR_def by (auto simp: word_uint_eq_iff)
qed

text \<open>
  C38. What the decoder makes of a group of four characters. Of a group without padding only the first
  character is tested against the alphabet: whatever non-zero characters other than the padding
  the other three places hold, the group is rejected only when its value is -1. A group with a
  negative value gives the single byte \<open>0xff\<close>, any other three bytes of the value, in which a
  character outside the alphabet counted as -1.
\<close>

theorem base64_accepts_invalid:
  assumes "a \<in> set base64_chars" "b \<notin> {0, EQ}" "c \<notin> {0, EQ}" "d \<notin> {0, EQ}"
  shows "openvpn_base64_decode [a, b, c, d] (- 1) =
    (let v = group_value a b c d in
     if v = - 1 then None else if v < 0 then Some [0xff]
     else Some [word_of_int (v div 2 ^ 16), word_of_int (v div 2 ^ 8), word_of_int v])"
proof -
  let ?v = "group_value a b c d" and ?p = "[a, b, c, d]"
  have a: "a \<noteq> 0" "a \<noteq> EQ" using assms(1) alphabet(2,3) by metis+
  have tok: "token_decode ?p = word_of_int ?v"
    using a assms(2-4) by (simp add: token_decode_def group_value_def)
  note r = group_value_range[OF assms(1), of b c d]
  show ?thesis
  proof (cases "?v < 0")
    case False
    then have "decode_loop ?p (- 1) [] = decode_loop [] (- 1) [word_of_int (?v div 2 ^ 16), word_of_int (?v div 2 ^ 8), word_of_int ?v]"
      using decode_step[of ?p 0 ?v "- 1" "[]"] tok r(2) assms(1) by (simp add: numeral_3_eq_3)
    then show ?thesis using False by (simp add: openvpn_base64_decode_def decode_loop.simps[of "[]"] Let_def)
  next
    case True
    note n = negative_value[OF r(1) True]
    have p: "(?p \<noteq> [] \<and> hd ?p \<noteq> 0 \<and> (hd ?p = EQ \<or> hd ?p \<in> set base64_chars)) = True" using a assms(1) by simp
    have "decode_loop ?p (- 1) [] = (if ?v = - 1 then None else Some [0xff])"
      unfolding decode_loop.simps[of ?p] p if_True Let_def tok n by (simp add: put_byte_def n(2) decode_loop.simps[of "[]"])
    then show ?thesis using True by (simp add: openvpn_base64_decode_def Let_def)
  qed
qed

text \<open>\<open>QU!D\<close> decodes to three bytes, \<open>A!AA\<close> to one, and only \<open>AA!/\<close> is rejected.\<close>

lemma base64_accepts_invalid_witness:
  "openvpn_base64_decode (map of_char ''QU!D'') (- 1) = Some [65, 63, 195]
    \<and> openvpn_base64_decode (map of_char ''A!AA'') (- 1) = Some [255]
    \<and> openvpn_base64_decode (map of_char ''AA!/'') (- 1) = None"
proof -
  have g: "map of_char ''QU!D'' = [81, 85, 33, 68 :: u8]" "map of_char ''A!AA'' = [65, 33, 65, 65 :: u8]" "map of_char ''AA!/'' = [65, 65, 33, 47 :: u8]"
    by simp_all
  have m: "81 \<in> set base64_chars" "65 \<in> set base64_chars" "group_value 81 85 33 68 = 4276163"
    "group_value 65 33 65 65 = - 4096" "group_value 65 65 33 47 = - 1" by code_simp+
  have q: "x \<notin> {0, EQ}" if "x \<in> {85, 33, 68, 65, 47}" for x using that by (auto simp: EQ_def)
  show ?thesis
    unfolding g using base64_accepts_invalid[OF m(1) q q q, of 85 33 68] base64_accepts_invalid[OF m(2) q q q, of 33 65 65]
      base64_accepts_invalid[OF m(2) q q q, of 65 33 47] m(3-5) by (simp add: Let_def)
qed

end
