(* ===== verification/Inet.thy ===== *)
theory Inet
  imports Prelude
begin

text \<open>
  IP packets inside the tunnel (\<open>proto.h\<close>, \<open>proto.c\<close>): header fields, the incremental update of an
  internet checksum, the checksum with a pseudo header, and the test for an IP packet.

  A packet is the byte list at \<open>BPTR(buf)\<close> of length \<open>BLEN(buf)\<close>. A 16 bit field that the code reads
  without \<open>ntohs\<close> has the byte order of the host, which is little endian (\<open>le16\<close>).
\<close>

definition be16 :: "bytes \<Rightarrow> nat \<Rightarrow> int" where
  "be16 p i = uint (p ! i) * 256 + uint (p ! (i + 1))"

definition le16 :: "bytes \<Rightarrow> nat \<Rightarrow> int" where
  "le16 p i = uint (p ! i) + uint (p ! (i + 1)) * 256"

definition put_le16 :: "bytes \<Rightarrow> nat \<Rightarrow> int \<Rightarrow> bytes" where
  "put_le16 p i v = p[i := word_of_int v, i + 1 := word_of_int (v div 256)]"

section \<open>Header fields\<close>

definition OPENVPN_IPH_GET_VER :: "u8 \<Rightarrow> int" where
  "OPENVPN_IPH_GET_VER v = uint (drop_bit 4 v AND 0x0F)"

definition OPENVPN_IPH_GET_LEN :: "u8 \<Rightarrow> int" where
  "OPENVPN_IPH_GET_LEN v = push_bit 2 (uint (v AND 0x0F))"

definition OPENVPN_IP_OFFMASK :: int where "OPENVPN_IP_OFFMASK = 0x1fff"
definition OPENVPN_IPPROTO_TCP :: u8 where "OPENVPN_IPPROTO_TCP = 6"
definition OPENVPN_IPPROTO_UDP :: u8 where "OPENVPN_IPPROTO_UDP = 17"

definition OPENVPN_TCPH_GET_DOFF :: "u8 \<Rightarrow> int" where
  "OPENVPN_TCPH_GET_DOFF d = drop_bit 2 (uint (d AND 0xF0))"

definition OPENVPN_TCPH_SYN_MASK :: u8 where "OPENVPN_TCPH_SYN_MASK = 2"
definition OPENVPN_TCPOPT_EOL :: u8 where "OPENVPN_TCPOPT_EOL = 0"
definition OPENVPN_TCPOPT_NOP :: u8 where "OPENVPN_TCPOPT_NOP = 1"
definition OPENVPN_TCPOPT_MAXSEG :: u8 where "OPENVPN_TCPOPT_MAXSEG = 2"
definition OPENVPN_TCPOLEN_MAXSEG :: int where "OPENVPN_TCPOLEN_MAXSEG = 4"
definition OPENVPN_ETH_P_IPV4 :: int where "OPENVPN_ETH_P_IPV4 = 0x0800"
definition OPENVPN_ETH_P_IPV6 :: int where "OPENVPN_ETH_P_IPV6 = 0x86DD"
definition OPENVPN_ETH_P_8021Q :: int where "OPENVPN_ETH_P_8021Q = 0x8100"

text \<open>The sizes of the packed structures.\<close>

definition sizeof_iphdr :: int where "sizeof_iphdr = 20"
definition sizeof_ipv6hdr :: int where "sizeof_ipv6hdr = 40"
definition sizeof_tcphdr :: int where "sizeof_tcphdr = 20"
definition sizeof_udphdr :: int where "sizeof_udphdr = 8"
definition sizeof_ethhdr :: int where "sizeof_ethhdr = 14"
definition sizeof_8021qhdr :: int where "sizeof_8021qhdr = 18"

definition blen :: "bytes \<Rightarrow> int" where "blen p = int (length p)"

section \<open>Incremental checksums\<close>

text \<open>The macro, on an accumulator and the old value of the field; the result is the new value.\<close>

definition fold16 :: "int \<Rightarrow> int" where
  "fold16 acc = (let acc = drop_bit 16 acc + (acc AND 0xffff) in acc + drop_bit 16 acc)"

definition ADJUST_CHECKSUM :: "int \<Rightarrow> int \<Rightarrow> int" where
  "ADJUST_CHECKSUM acc cksum =
     (let acc = acc + cksum in
      if acc < 0 then take_bit 16 (NOT (fold16 (- acc))) else take_bit 16 (fold16 acc))"

definition ADD_CHECKSUM_32 :: "int \<Rightarrow> u32 \<Rightarrow> int" where
  "ADD_CHECKSUM_32 acc w = (let acc = acc + uint (w AND 0xffff) in acc + uint (drop_bit 16 w))"

definition SUB_CHECKSUM_32 :: "int \<Rightarrow> u32 \<Rightarrow> int" where
  "SUB_CHECKSUM_32 acc w = (let acc = acc - uint (w AND 0xffff) in acc - uint (drop_bit 16 w))"

lemma and_ffff: "x AND 0xffff = x mod 65536" for x :: int
  using take_bit_eq_mask[of 16 x] by (simp add: mask_eq_exp_minus_1 take_bit_eq_mod)

lemma fold16_bounds:
  assumes "0 \<le> a" "a < 2 ^ 31"
  shows "take_bit 16 (fold16 a) mod 65535 = a mod 65535" "0 \<le> fold16 a"
    "take_bit 16 (NOT (fold16 a)) = 65535 - take_bit 16 (fold16 a)"
proof -
  define b where "b = a div 65536 + a mod 65536"
  have b: "0 \<le> b" "b < 98304" "b mod 65535 = a mod 65535"
  proof -
    have "a div 65536 < 32768" using assms(2) by (simp add: div_less_iff_less_mult)
    moreover have "0 \<le> a div 65536" using assms(1) by simp
    moreover have "a mod 65536 < 65536" "0 \<le> a mod 65536" by simp_all
    ultimately show "0 \<le> b" "b < 98304" by (simp_all add: b_def)
    have "a = b + a div 65536 * 65535" using div_mult_mod_eq[of a 65536] by (simp add: b_def)
    then show "b mod 65535 = a mod 65535" by (metis mod_mult_self1)
  qed
  have f: "fold16 a = b + b div 65536" by (simp add: fold16_def b_def and_ffff drop_bit_eq_div Let_def)
  show "0 \<le> fold16 a" unfolding f using b(1) by simp
  have d: "b div 65536 = (if b < 65536 then 0 else 1)"
    using b(1,2) by (auto simp: div_pos_pos_trivial intro!: int_div_pos_eq[where r = "b - 65536"])
  have "take_bit 16 (fold16 a) = (if b < 65536 then b else b - 65535)"
  proof (cases "b < 65536")
    case True
    then show ?thesis using b(1) unfolding f d by (simp add: take_bit_int_eq_self)
  next
    case False
    then have "(b + 1) mod 65536 = b - 65535" using b(2) by (intro int_mod_pos_eq[where q = 1]) auto
    then show ?thesis using False unfolding f d by (simp add: take_bit_eq_mod)
  qed
  moreover have "(b - 65535) mod 65535 = b mod 65535" by (metis minus_mod_self2)
  ultimately show "take_bit 16 (fold16 a) mod 65535 = a mod 65535" using b(3) by simp
  show "take_bit 16 (NOT (fold16 a)) = 65535 - take_bit 16 (fold16 a)"
    by (simp add: take_bit_not_eq_mask_diff mask_eq_exp_minus_1)
qed

text \<open>The one's complement arithmetic: the new value is the old one plus the accumulator, modulo 65535.\<close>

lemma ADJUST_CHECKSUM_mod:
  assumes "\<bar>acc\<bar> < 2 ^ 30" "0 \<le> ck" "ck < 65536"
  shows "ADJUST_CHECKSUM acc ck mod 65535 = (acc + ck) mod 65535"
    "0 \<le> ADJUST_CHECKSUM acc ck" "ADJUST_CHECKSUM acc ck < 65536"
proof -
  show "0 \<le> ADJUST_CHECKSUM acc ck" "ADJUST_CHECKSUM acc ck < 65536"
    using take_bit_int_less_exp[of 16] by (simp_all add: ADJUST_CHECKSUM_def Let_def)
  show "ADJUST_CHECKSUM acc ck mod 65535 = (acc + ck) mod 65535"
  proof (cases "acc + ck < 0")
    case True
    let ?b = "- (acc + ck)"
    have b: "0 \<le> ?b" "?b < 2 ^ 31" using True assms by auto
    have "ADJUST_CHECKSUM acc ck = 65535 - take_bit 16 (fold16 ?b)"
      using True fold16_bounds(3)[OF b] by (simp add: ADJUST_CHECKSUM_def Let_def)
    then have "ADJUST_CHECKSUM acc ck mod 65535 = (- (take_bit 16 (fold16 ?b) mod 65535)) mod 65535"
      by (simp add: mod_minus_eq)
    also have "\<dots> = (acc + ck) mod 65535" unfolding fold16_bounds(1)[OF b] mod_minus_eq by (simp add: add.commute)
    finally show ?thesis .
  next
    case False
    then show ?thesis using fold16_bounds(1)[of "acc + ck"] assms by (simp add: ADJUST_CHECKSUM_def Let_def)
  qed
qed

section \<open>Tests for IP packets\<close>

datatype dev_type = DEV_TYPE_UNDEF | DEV_TYPE_NULL | DEV_TYPE_TUN | DEV_TYPE_TAP

text \<open>The result is whether the packet is of the version, and the rest of the buffer from its new offset.\<close>

definition is_ipv_X :: "dev_type \<Rightarrow> bytes \<Rightarrow> int \<Rightarrow> bool \<times> bytes" where
  "is_ipv_X tunnel_type p ip_ver =
     (let check = (\<lambda>offset. if OPENVPN_IPH_GET_VER (p ! nat offset) = ip_ver
                           then (if offset \<le> blen p then (True, drop (nat offset) p) else (False, p))
                           else (False, p)) in
      case tunnel_type of
        DEV_TYPE_TUN \<Rightarrow> if blen p < sizeof_iphdr then (False, p) else check 0
      | DEV_TYPE_TAP \<Rightarrow>
          if blen p < sizeof_ethhdr + sizeof_iphdr then (False, p)
          else
            let proto = be16 p 12; offset = sizeof_ethhdr in
            if proto = OPENVPN_ETH_P_8021Q \<and> blen p < sizeof_ethhdr + sizeof_iphdr then (False, p)
            else
              let (proto, offset) = (if proto = OPENVPN_ETH_P_8021Q then (be16 p 16, sizeof_8021qhdr) else (proto, offset)) in
              if proto \<noteq> (if ip_ver = 6 then OPENVPN_ETH_P_IPV6 else OPENVPN_ETH_P_IPV4) then (False, p)
              else check offset
      | _ \<Rightarrow> (False, p))"

definition is_ipv4 :: "dev_type \<Rightarrow> bytes \<Rightarrow> bool \<times> bytes" where
  "is_ipv4 tunnel_type p = is_ipv_X tunnel_type p 4"

definition is_ipv6 :: "dev_type \<Rightarrow> bytes \<Rightarrow> bool \<times> bytes" where
  "is_ipv6 tunnel_type p = is_ipv_X tunnel_type p 6"

definition get_tun_ip_ver :: "dev_type \<Rightarrow> bytes \<Rightarrow> int \<times> int option" where
  "get_tun_ip_ver tunnel_type p =
     (case tunnel_type of
        DEV_TYPE_TUN \<Rightarrow> (if blen p \<ge> sizeof_iphdr then OPENVPN_IPH_GET_VER (p ! 0) else -1, Some 0)
      | DEV_TYPE_TAP \<Rightarrow>
          (if blen p \<ge> sizeof_ethhdr then
             (let proto = be16 p 12 in if proto = OPENVPN_ETH_P_IPV6 then 6 else if proto = OPENVPN_ETH_P_IPV4 then 4 else -1)
           else -1, Some sizeof_ethhdr)
      | _ \<Rightarrow> (-1, None))"

section \<open>The checksum with a pseudo header\<close>

text \<open>The 16 bit words of a byte list; a last odd byte is the high byte of a word.\<close>

fun add_words :: "bytes \<Rightarrow> u32 \<Rightarrow> u32" where
  "add_words [] sm = sm"
| "add_words [x] sm = sm + push_bit 8 (ucast x)"
| "add_words (x # y # r) sm = add_words r (sm + (push_bit 8 (ucast x) + ucast y))"

function fold_carries :: "u32 \<Rightarrow> u32" where
  "fold_carries sm =
     (if drop_bit 16 sm \<noteq> 0 then fold_carries ((sm AND 0xFFFF) + drop_bit 16 sm) else sm)"
  by auto

lemma carry_uint:
  "uint ((sm AND 0xFFFF) + drop_bit 16 sm) = uint sm mod 65536 + uint sm div 65536" for sm :: u32
proof -
  have u: "uint sm < 2 ^ 32" "0 \<le> uint sm" using uint_lt2p[of sm] by simp_all
  have a: "uint (sm AND 0xFFFF) = uint sm mod 65536" by (simp add: uint_and and_ffff)
  have d: "uint (drop_bit 16 sm) = uint sm div 65536"
    unfolding unsigned_drop_bit_eq using u by (simp add: take_bit_int_eq_self drop_bit_eq_div)
  have "uint sm div 65536 < 65536" using u by (simp add: div_less_iff_less_mult)
  then have "uint sm mod 65536 + uint sm div 65536 < 4294967296"
    using pos_mod_bound[of 65536 "uint sm"] by linarith
  moreover have "0 \<le> uint sm mod 65536 + uint sm div 65536" using u by (simp add: pos_imp_zdiv_nonneg_iff)
  ultimately show ?thesis unfolding uint_word_ariths a d by simp
qed

lemma carry_zero: "drop_bit 16 sm = 0 \<longleftrightarrow> uint sm < 65536" for sm :: u32
proof -
  have u: "uint sm < 2 ^ 32" "0 \<le> uint sm" using uint_lt2p[of sm] by simp_all
  have d: "uint (drop_bit 16 sm) = uint sm div 65536"
    unfolding unsigned_drop_bit_eq using u by (simp add: take_bit_int_eq_self drop_bit_eq_div)
  have "drop_bit 16 sm = 0 \<longleftrightarrow> uint sm div 65536 = 0" unfolding d[symmetric] by (rule uint_0_iff[symmetric])
  also have "\<dots> \<longleftrightarrow> uint sm < 65536" using u by (auto simp: zdiv_eq_0_iff)
  finally show ?thesis .
qed

termination fold_carries
proof (relation "measure unat")
  fix sm :: u32 assume "drop_bit 16 sm \<noteq> 0"
  then have g: "65536 \<le> uint sm" by (simp add: carry_zero)
  then have "0 < uint sm div 65536" by (simp add: pos_imp_zdiv_pos_iff)
  then have "uint sm mod 65536 + uint sm div 65536 < uint sm" using div_mult_mod_eq[of "uint sm" 65536] by linarith
  then have "uint ((sm AND 0xFFFF) + drop_bit 16 sm) < uint sm" unfolding carry_uint .
  then show "((sm AND 0xFFFF) + drop_bit 16 sm, sm) \<in> measure unat" by (simp add: word_less_def word_less_nat_alt[symmetric])
qed simp

definition ip_checksum :: "bool \<Rightarrow> bytes \<Rightarrow> bytes \<Rightarrow> bytes \<Rightarrow> int \<Rightarrow> u16" where
  "ip_checksum inet payload src dest proto =
     (let addr_len = (if inet then 4 else 16);
          sm = add_words payload 0;
          sm = add_words (take addr_len src) sm;
          sm = add_words (take addr_len dest) sm;
          sm = sm + word_of_int (take_bit 16 (int (length payload)));
          sm = sm + word_of_int (take_bit 16 proto)
      in ucast (NOT (fold_carries sm)))"

declare fold_carries.simps [simp del]

lemma fold_carries_uint:
  "uint (fold_carries s) = (if uint s = 0 then 0 else if uint s mod 65535 = 0 then 65535 else uint s mod 65535)"
proof (induction s rule: fold_carries.induct)
  case (1 s)
  have nn: "0 \<le> uint s" by simp
  show ?case
  proof (cases "drop_bit 16 s = 0")
    case True
    then have "uint s < 65536" by (simp add: carry_zero)
    moreover have "uint s mod 65535 = uint s" if "uint s < 65535" using that by simp
    ultimately show ?thesis using True by (cases "uint s = 65535") (auto simp: fold_carries.simps[of s])
  next
    case False
    let ?t = "(s AND 0xFFFF) + drop_bit 16 s"
    have g: "65536 \<le> uint s" using False by (simp add: carry_zero)
    then have "0 < uint s div 65536" by (simp add: pos_imp_zdiv_pos_iff)
    then have pos: "uint ?t \<noteq> 0" using pos_mod_sign[of 65536 "uint s"] unfolding carry_uint by linarith
    have "uint s = uint ?t + uint s div 65536 * 65535"
      using div_mult_mod_eq[of "uint s" 65536] unfolding carry_uint by linarith
    then have "uint ?t mod 65535 = uint s mod 65535" by (metis mod_mult_self1)
    then show ?thesis using 1[OF False] pos g False by (simp add: fold_carries.simps[of s])
  qed
qed

fun wsum :: "bytes \<Rightarrow> int" where
  "wsum [] = 0"
| "wsum [x] = uint x * 256"
| "wsum (x # y # r) = uint x * 256 + uint y + wsum r"

lemma uint_byte: "0 \<le> uint x" "uint x \<le> 255" for x :: u8
  using uint_lt2p[of x] by simp_all

lemma push_byte: "push_bit 8 (word_of_int k :: u32) = word_of_int (k * 256)"
proof -
  have "(2 :: u32) ^ 8 = 256" by simp
  then show ?thesis unfolding push_bit_eq_mult by (simp only: of_int_mult of_int_numeral)
qed

lemma ucast_byte: "(ucast x :: u32) = word_of_int (uint x)" for x :: u8
  by (rule ucast_eq)

lemma add_words_wsum: "add_words p s = s + word_of_int (wsum p)"
  by (induction p s rule: add_words.induct) (simp_all only: add_words.simps wsum.simps ucast_byte push_byte of_int_add of_int_0 add_0_right ac_simps)

lemma wsum_bounds: "0 \<le> wsum p" "wsum p \<le> 65535 * ((int (length p) + 1) div 2)"
proof -
  show "0 \<le> wsum p" by (induction p rule: wsum.induct) auto
  show "wsum p \<le> 65535 * ((int (length p) + 1) div 2)"
  proof (induction p rule: wsum.induct)
    case (2 x)
    then show ?case using uint_byte[of x] by simp
  next
    case (3 x y r)
    have "(int (length (x # y # r)) + 1) div 2 = 1 + (int (length r) + 1) div 2" by simp
    then show ?case using 3 uint_byte[of x] uint_byte[of y] by simp
  qed simp
qed

lemma wsum_append: "even (length a) \<Longrightarrow> wsum (a @ b) = wsum a + wsum b"
  by (induction a rule: wsum.induct) auto

lemma wsum_htons: "wsum (htons w) = uint w"
proof -
  have "uint w < 65536" "0 \<le> uint w" using uint_lt2p[of w] by simp_all
  then have d: "uint (drop_bit 8 w) = uint w div 256"
    unfolding unsigned_drop_bit_eq by (simp add: take_bit_int_eq_self drop_bit_eq_div)
  have "uint w div 256 < 256" "0 \<le> uint w div 256" using \<open>uint w < 65536\<close> \<open>0 \<le> uint w\<close>
    by (simp_all add: div_less_iff_less_mult pos_imp_zdiv_nonneg_iff)
  then have "uint (ucast (drop_bit 8 w) :: u8) = uint w div 256" "uint (ucast w :: u8) = uint w mod 256"
    by (simp_all only: unsigned_ucast_eq d take_bit_eq_mod) simp_all
  then show ?thesis by (simp add: htons_def)
qed

text \<open>The sum before the carries are folded, as an integer.\<close>

definition pseudo_sum :: "bool \<Rightarrow> bytes \<Rightarrow> bytes \<Rightarrow> bytes \<Rightarrow> int \<Rightarrow> int" where
  "pseudo_sum inet payload src dest proto =
     wsum payload + wsum (take (if inet then 4 else 16) src) + wsum (take (if inet then 4 else 16) dest)
       + take_bit 16 (int (length payload)) + take_bit 16 proto"

lemma ip_checksum_uint:
  assumes "length payload \<le> 65535"
  shows "uint (ip_checksum inet payload src dest proto)
     = 65535 - (let s = pseudo_sum inet payload src dest proto in
                if s = 0 then 0 else if s mod 65535 = 0 then 65535 else s mod 65535)"
    and "0 \<le> pseudo_sum inet payload src dest proto"
proof -
  let ?s = "pseudo_sum inet payload src dest proto"
  define w where "w = (word_of_int ?s :: u32)"
  have c: "ip_checksum inet payload src dest proto = ucast (NOT (fold_carries w))"
    unfolding ip_checksum_def Let_def add_words_wsum w_def pseudo_sum_def by (simp add: algebra_simps)
  have a: "wsum (take (if inet then 4 else 16) xs) \<le> 65535 * 8" for xs
  proof -
    have "(int (length (take (if inet then 4 else 16) xs)) + 1) div 2 \<le> 8" by (auto simp: min_def)
    then show ?thesis using wsum_bounds(2)[of "take (if inet then 4 else 16) xs"] by linarith
  qed
  have p: "wsum payload \<le> 65535 * 32768" using wsum_bounds(2)[of payload] assms by linarith
  have tb: "0 \<le> take_bit 16 x" "take_bit 16 x < 65536" for x :: int
    using take_bit_int_less_exp[of 16 x] by simp_all
  show nn: "0 \<le> ?s" unfolding pseudo_sum_def by (intro add_nonneg_nonneg wsum_bounds(1) tb(1))
  have "?s < 4294967296"
    unfolding pseudo_sum_def using a[of src] a[of dest] p tb(2)[of "int (length payload)"] tb(2)[of proto] by linarith
  then have u: "uint w = ?s" using nn by (simp add: w_def uint_word_of_int_eq take_bit_int_eq_self)
  define f where "f = fold_carries w"
  have f: "uint f = (if ?s = 0 then 0 else if ?s mod 65535 = 0 then 65535 else ?s mod 65535)"
    unfolding f_def fold_carries_uint u ..
  then have fb: "0 \<le> uint f" "uint f \<le> 65535" using pos_mod_bound[of 65535 ?s] by auto
  have "uint (ucast (NOT f) :: u16) = take_bit 16 (NOT (uint f))"
  proof -
    have 1: "uint (ucast (NOT f) :: u16) = take_bit LENGTH(16) (uint (NOT f))" by (rule unsigned_ucast_eq)
    have 2: "uint (NOT f) = take_bit LENGTH(32) (NOT (uint f))" by (rule unsigned_not_eq)
    show ?thesis unfolding 1 2 by simp
  qed
  also have "\<dots> = 65535 - take_bit 16 (uint f)"
    by (simp add: take_bit_not_eq_mask_diff mask_eq_exp_minus_1)
  finally show "uint (ip_checksum inet payload src dest proto)
     = 65535 - (let s = ?s in if s = 0 then 0 else if s mod 65535 = 0 then 65535 else s mod 65535)"
    unfolding c f_def[symmetric] Let_def f[symmetric] using fb by (simp add: take_bit_int_eq_self)
qed

text \<open>
  C32. The checksum verifies. When the field of the checksum (at an even offset) is zero while it is computed,
  then a receiver who computes the checksum of the packet with the field filled in gets zero,
  for payloads of up to 65535 bytes and both address families.
\<close>

theorem ip_checksum_verifies:
  assumes "even (length a)" "length a + 2 + length b \<le> 65535"
  shows "ip_checksum inet (a @ htons (ip_checksum inet (a @ [0, 0] @ b) src dest proto) @ b) src dest proto = 0"
proof -
  let ?ck = "ip_checksum inet (a @ [0, 0] @ b) src dest proto"
  let ?s = "pseudo_sum inet (a @ [0, 0] @ b) src dest proto" and ?s' = "pseudo_sum inet (a @ htons ?ck @ b) src dest proto"
  have l: "length (a @ [0, 0] @ b) \<le> 65535" "length (a @ htons ?ck @ b) \<le> 65535" using assms(2) by simp_all
  have s': "?s' = ?s + uint ?ck"
    using assms(1) by (simp add: pseudo_sum_def wsum_append wsum_htons)
  note ck = ip_checksum_uint[OF l(1), of inet src dest proto, unfolded Let_def]
  have pos: "?s' \<noteq> 0" using ck unfolding s' by (auto split: if_splits)
  have z: "?s' mod 65535 = 0"
  proof (cases "?s mod 65535 = 0")
    case True
    then have "uint ?ck = 65535 \<or> uint ?ck = 0" using ck(1) by (auto split: if_splits)
    then show ?thesis unfolding s' using True by (auto simp: mod_add_eq[symmetric])
  next
    case False
    then have "uint ?ck = 65535 - ?s mod 65535" using ck(1) by (auto split: if_splits)
    then have "?s' = ?s - ?s mod 65535 + 65535" unfolding s' by simp
    also have "\<dots> = (?s div 65535 + 1) * 65535" using div_mult_mod_eq[of ?s 65535] by (simp add: algebra_simps)
    finally show ?thesis by simp
  qed
  have "uint (ip_checksum inet (a @ htons ?ck @ b) src dest proto) = 0"
    unfolding ip_checksum_uint(1)[OF l(2), of inet src dest proto] Let_def using pos z by simp
  then show ?thesis unfolding uint_0_iff .
qed

lemma ip_checksum_verifies_witness:
  "ip_checksum True ([1, 2] @ htons (ip_checksum True ([1, 2] @ [0, 0] @ [7]) [10, 0, 0, 1] [10, 0, 0, 2] 17) @ [7])
     [10, 0, 0, 1] [10, 0, 0, 2] 17 = 0"
  by (rule ip_checksum_verifies) simp_all

text \<open>
  A tagged frame may be too short. For an Ethernet frame with an 802.1Q tag the length
  is checked against the untagged header, so a frame of 34 bytes is reported as IPv4
  although only 16 bytes, less than an IPv4 header, remain after the Ethernet header.
\<close>

theorem is_ipv4_short_tagged_frame:
  "\<exists>p q. is_ipv4 DEV_TYPE_TAP p = (True, q) \<and> blen q < sizeof_iphdr"
  by (intro exI[of _ "replicate 12 0 @ [0x81, 0, 0, 1, 8, 0, 0x45] @ replicate 15 0"] exI[of _ "0x45 # replicate 15 0"])
    code_simp

end
