(* ===== verification/Mss.thy ===== *)
theory Mss
  imports Inet
begin

text \<open>
  Clamping of the TCP maximum segment size (\<open>mss.c\<close>): the option of a SYN packet is lowered in
  place, and the TCP checksum is updated incrementally. Packets are byte lists (theory \<open>Inet\<close>);
  \<open>newbuf\<close> of the code shares the memory of the packet, so the result is put back behind the IP header.
\<close>

text \<open>The value of \<open>htons\<close> on the little endian host.\<close>

lemma uint_gt_0: "uint x \<noteq> 0 \<Longrightarrow> 0 < uint x"
  using uint_ge_0[of x] by linarith

definition swap16 :: "int \<Rightarrow> int" where
  "swap16 v = v mod 256 * 256 + v div 256"

text \<open>The lowering of one option at \<open>off\<close>; the checksum is at offset 16 of the TCP header.\<close>

definition mss_clamp :: "bytes \<Rightarrow> int \<Rightarrow> nat \<Rightarrow> bytes" where
  "mss_clamp p maxmss off =
     (let mssval = be16 p (off + 2) in
      if mssval > maxmss then
        let accumulate = swap16 mssval;
            p = p[off + 2 := word_of_int (maxmss div 256), off + 3 := word_of_int maxmss];
            accumulate = accumulate - swap16 maxmss
        in put_le16 p 16 (ADJUST_CHECKSUM accumulate (le16 p 16))
      else p)"

function mss_loop :: "bytes \<Rightarrow> int \<Rightarrow> nat \<Rightarrow> int \<Rightarrow> bytes" where
  "mss_loop p maxmss off olen =
     (if olen > 1 then
        if p ! off = OPENVPN_TCPOPT_EOL then p
        else if p ! off = OPENVPN_TCPOPT_NOP then mss_loop p maxmss (off + 1) (olen - 1)
        else
          let optlen = uint (p ! (off + 1)) in
          if optlen \<le> 0 \<or> optlen > olen then p
          else
            let p = (if p ! off = OPENVPN_TCPOPT_MAXSEG \<and> optlen = OPENVPN_TCPOLEN_MAXSEG then mss_clamp p maxmss off else p)
            in mss_loop p maxmss (off + nat optlen) (olen - optlen)
      else p)"
  by auto
termination by (relation "measure (\<lambda>(p, m, off, olen). nat olen)") (auto intro: uint_gt_0)

definition mss_fixup_dowork :: "bytes \<Rightarrow> u16 \<Rightarrow> bytes" where
  "mss_fixup_dowork p maxmss =
     (if blen p < sizeof_tcphdr then p
      else
        let hlen = OPENVPN_TCPH_GET_DOFF (p ! 12) in
        if hlen \<le> sizeof_tcphdr \<or> hlen > blen p then p
        else mss_loop p (uint maxmss) (nat sizeof_tcphdr) (hlen - sizeof_tcphdr))"

definition mss_fixup_ipv4 :: "bytes \<Rightarrow> int \<Rightarrow> bytes" where
  "mss_fixup_ipv4 p maxmss =
     (if blen p < sizeof_iphdr then p
      else
        let hlen = OPENVPN_IPH_GET_LEN (p ! 0) in
        if p ! 9 = OPENVPN_IPPROTO_TCP \<and> be16 p 2 = blen p \<and> be16 p 6 AND OPENVPN_IP_OFFMASK = 0
           \<and> hlen \<le> blen p \<and> blen p - hlen \<ge> sizeof_tcphdr
        then
          let tc = drop (nat hlen) p in
          if tc ! 13 AND OPENVPN_TCPH_SYN_MASK \<noteq> 0
          then take (nat hlen) p @ mss_fixup_dowork tc (word_of_int maxmss)
          else p
        else p)"

definition mss_fixup_ipv6 :: "bytes \<Rightarrow> int \<Rightarrow> bytes" where
  "mss_fixup_ipv6 p maxmss =
     (if blen p < sizeof_ipv6hdr then p
      else if blen p \<noteq> be16 p 4 + 40 then p
      else if p ! 6 \<noteq> OPENVPN_IPPROTO_TCP then p
      else if 40 \<le> blen p \<and> blen p - 40 \<ge> sizeof_tcphdr then
        let tc = drop 40 p in
        if tc ! 13 AND OPENVPN_TCPH_SYN_MASK \<noteq> 0
        then take 40 p @ mss_fixup_dowork tc (word_of_int (uint (word_of_int maxmss :: u16) - 20))
        else p
      else p)"

section \<open>The options\<close>

text \<open>The offsets of the well-formed MSS options that the loop meets.\<close>

function mss_opts :: "bytes \<Rightarrow> nat \<Rightarrow> int \<Rightarrow> nat list" where
  "mss_opts p off olen =
     (if olen > 1 then
        if p ! off = OPENVPN_TCPOPT_EOL then []
        else if p ! off = OPENVPN_TCPOPT_NOP then mss_opts p (off + 1) (olen - 1)
        else
          let optlen = uint (p ! (off + 1)) in
          if optlen \<le> 0 \<or> optlen > olen then []
          else (if p ! off = OPENVPN_TCPOPT_MAXSEG \<and> optlen = OPENVPN_TCPOLEN_MAXSEG then [off] else [])
            @ mss_opts p (off + nat optlen) (olen - optlen)
      else [])"
  by auto
termination by (relation "measure (\<lambda>(p, off, olen). nat olen)") (auto intro: uint_gt_0)

declare mss_loop.simps [simp del] mss_opts.simps [simp del]

text \<open>One option: its length, or 1 for a NOP; none when the walk stops.\<close>

definition opt_step :: "bytes \<Rightarrow> nat \<Rightarrow> int \<Rightarrow> nat option" where
  "opt_step p off olen =
     (if olen \<le> 1 \<or> p ! off = OPENVPN_TCPOPT_EOL then None
      else if p ! off = OPENVPN_TCPOPT_NOP then Some 1
      else if uint (p ! (off + 1)) \<le> 0 \<or> uint (p ! (off + 1)) > olen then None
      else Some (nat (uint (p ! (off + 1)))))"

definition is_mss :: "bytes \<Rightarrow> nat \<Rightarrow> bool" where
  "is_mss p off \<longleftrightarrow> p ! off = OPENVPN_TCPOPT_MAXSEG \<and> uint (p ! (off + 1)) = OPENVPN_TCPOLEN_MAXSEG"

lemma opt_step_bounds: "opt_step p off olen = Some n \<Longrightarrow> 0 < n \<and> int n \<le> olen"
  by (auto simp: opt_step_def unat_gt_0 uint_0_iff split: if_splits)

lemma is_mss_step: "is_mss p off \<Longrightarrow> opt_step p off olen = Some n \<Longrightarrow> n = 4"
  by (auto simp: opt_step_def is_mss_def OPENVPN_TCPOPT_MAXSEG_def OPENVPN_TCPOPT_NOP_def OPENVPN_TCPOLEN_MAXSEG_def split: if_splits)

lemma mss_loop_step:
  "mss_loop p m off olen = (case opt_step p off olen of None \<Rightarrow> p
     | Some n \<Rightarrow> mss_loop (if is_mss p off then mss_clamp p m off else p) m (off + n) (olen - int n))"
proof -
  have "OPENVPN_TCPOPT_NOP \<noteq> OPENVPN_TCPOPT_MAXSEG" by (simp add: OPENVPN_TCPOPT_MAXSEG_def OPENVPN_TCPOPT_NOP_def)
  then show ?thesis
    by (subst mss_loop.simps) (auto simp: opt_step_def is_mss_def Let_def)
qed

lemma mss_opts_step:
  "mss_opts p off olen = (case opt_step p off olen of None \<Rightarrow> []
     | Some n \<Rightarrow> (if is_mss p off then [off] else []) @ mss_opts p (off + n) (olen - int n))"
proof -
  have "OPENVPN_TCPOPT_NOP \<noteq> OPENVPN_TCPOPT_MAXSEG" by (simp add: OPENVPN_TCPOPT_MAXSEG_def OPENVPN_TCPOPT_NOP_def)
  then show ?thesis
    by (subst mss_opts.simps) (auto simp: opt_step_def is_mss_def Let_def)
qed

lemma opt_step_cong: "q ! off = p ! off \<Longrightarrow> q ! (off + 1) = p ! (off + 1) \<Longrightarrow> opt_step q off olen = opt_step p off olen"
  unfolding opt_step_def by simp

lemma is_mss_cong: "q ! off = p ! off \<Longrightarrow> q ! (off + 1) = p ! (off + 1) \<Longrightarrow> is_mss q off = is_mss p off"
  unfolding is_mss_def by simp

text \<open>Induction along the options, on the space that is left.\<close>

lemma opts_induct [case_names step]:
  assumes "\<And>p off olen. (\<And>n q. opt_step p off olen = Some n \<Longrightarrow> Q q (off + n) (olen - int n)) \<Longrightarrow> Q p off olen"
  shows "Q p off (olen :: int)"
proof (induction "nat olen" arbitrary: p off olen rule: less_induct)
  case less
  show ?case
  proof (rule assms)
    fix n q assume "opt_step p off olen = Some n"
    then have "0 < n \<and> int n \<le> olen" by (rule opt_step_bounds)
    then show "Q q (off + n) (olen - int n)" by (intro less) auto
  qed
qed

lemma mss_opts_cong: "(\<And>j. off \<le> j \<Longrightarrow> q ! j = p ! j) \<Longrightarrow> mss_opts q off olen = mss_opts p off olen"
proof (induction p off olen rule: opts_induct)
  case (step p off olen)
  have e: "q ! off = p ! off" "q ! (off + 1) = p ! (off + 1)" using step(2) by simp_all
  show ?case
    unfolding mss_opts_step[of q off] mss_opts_step[of p off] opt_step_cong[OF e] is_mss_cong[OF e]
    using step by (auto split: option.splits)
qed

lemma mss_opts_range: "o' \<in> set (mss_opts p off olen) \<Longrightarrow> off \<le> o' \<and> int o' + 4 \<le> int off + olen"
proof (induction p off olen rule: opts_induct)
  case (step p off olen)
  obtain n where n: "opt_step p off olen = Some n" using step(2) mss_opts_step[of p off olen] by (cases "opt_step p off olen") auto
  note b = opt_step_bounds[OF n]
  consider "o' = off" "is_mss p off" | "o' \<in> set (mss_opts p (off + n) (olen - int n))"
    using step(2) n mss_opts_step[of p off olen] by (auto split: if_splits)
  then show ?case
  proof cases
    case 1
    then show ?thesis using is_mss_step[OF 1(2) n] b by simp
  next
    case 2
    then show ?thesis using step(1)[OF n 2] by simp
  qed
qed

section \<open>Sums\<close>

text \<open>The sum of the 16 bit words in the byte order of the host.\<close>

fun lsum :: "bytes \<Rightarrow> int" where
  "lsum [] = 0"
| "lsum [x] = uint x"
| "lsum (x # y # r) = uint x + uint y * 256 + lsum r"

lemma lsum_wsum: "wsum p mod 65535 = (256 * lsum p) mod 65535"
proof (induction p rule: lsum.induct)
  case (3 x y r)
  have "wsum (x # y # r) mod 65535 = (uint x * 256 + uint y + 256 * lsum r) mod 65535"
    using 3 by (metis wsum.simps(3) mod_add_right_eq)
  also have "\<dots> = (uint x * 256 + uint y + 256 * lsum r + uint y * 65535) mod 65535" by (rule mod_mult_self1[symmetric])
  also have "uint x * 256 + uint y + 256 * lsum r + uint y * 65535 = 256 * lsum (x # y # r)" by simp
  finally show ?case .
qed (simp_all add: mult.commute)

lemma lsum_update:
  "even i \<Longrightarrow> i + 1 < length p \<Longrightarrow> lsum (p[i := a, i + 1 := b]) = lsum p - le16 p i + (uint a + uint b * 256)"
proof (induction p arbitrary: i rule: lsum.induct)
  case (3 x y r)
  show ?case
  proof (cases "i = 0")
    case True
    then show ?thesis by (simp add: le16_def)
  next
    case False
    moreover have "i \<noteq> 1" using 3(2) by (intro notI) simp
    ultimately have "2 \<le> i" by linarith
    then obtain k where "i = 2 + k" using le_Suc_ex by blast
    then have k: "i = Suc (Suc k)" "even k" using 3(2) by simp_all
    have "lsum (r[k := a, Suc k := b]) = lsum r - le16 r k + (uint a + uint b * 256)"
      using 3(1)[OF k(2)] 3(3) k(1) by simp
    moreover have "le16 (x # y # r) i = le16 r k" unfolding k(1) le16_def by simp
    moreover have "(x # y # r)[i := a, i + 1 := b] = x # y # r[k := a, Suc k := b]" unfolding k(1) by simp
    ultimately show ?thesis by simp
  qed
qed simp_all

lemma le16_range: "0 \<le> le16 p i" "le16 p i < 65536"
  using uint_byte[of "p ! i"] uint_byte[of "p ! (i + 1)"] by (simp_all add: le16_def)

lemma put_le16_lsum:
  assumes "even i" "i + 1 < length p" "0 \<le> v" "v < 65536"
  shows "lsum (put_le16 p i v) = lsum p - le16 p i + v"
proof -
  have "uint (word_of_int v :: u8) = v mod 256" "uint (word_of_int (v div 256) :: u8) = v div 256"
    using assms(3,4) by (simp_all add: uint_word_of_int div_less_iff_less_mult)
  then show ?thesis unfolding put_le16_def lsum_update[OF assms(1,2)] using mod_mult_div_eq[of v 256] by (simp add: mult.commute)
qed

section \<open>One option is lowered\<close>

lemma put_le16_simps [simp]:
  "length (put_le16 p i v) = length p"
  "j \<noteq> i \<Longrightarrow> j \<noteq> i + 1 \<Longrightarrow> put_le16 p i v ! j = p ! j"
  by (simp_all add: put_le16_def)

lemma mss_clamp_length [simp]: "length (mss_clamp p m off) = length p"
  by (simp add: mss_clamp_def Let_def)

lemma mss_clamp_nth: "j \<notin> {16, 17, off + 2, off + 3} \<Longrightarrow> mss_clamp p m off ! j = p ! j"
  by (simp add: mss_clamp_def Let_def)

lemma word_bytes:
  assumes "0 \<le> v" "v < 65536"
  shows "uint (word_of_int v :: u8) = v mod 256" "uint (word_of_int (v div 256) :: u8) = v div 256"
  using assms by (simp_all add: uint_word_of_int div_less_iff_less_mult)

lemma mss_clamp_value:
  assumes "20 \<le> off" "off + 4 \<le> length p" "0 \<le> m" "m < 65536"
  shows "be16 (mss_clamp p m off) (off + 2) = min m (be16 p (off + 2))"
proof (cases "be16 p (off + 2) > m")
  case True
  let ?q = "mss_clamp p m off"
  have "?q ! (off + 2) = word_of_int (m div 256)" "?q ! (off + 3) = word_of_int m"
    using True assms(1,2) by (simp_all add: mss_clamp_def Let_def)
  then have "be16 ?q (off + 2) = m div 256 * 256 + m mod 256"
    using word_bytes[OF assms(3,4)] by (simp add: be16_def eval_nat_numeral)
  then show ?thesis using True by simp
qed (simp add: mss_clamp_def)

lemma swap16_range: "0 \<le> v \<Longrightarrow> v < 65536 \<Longrightarrow> 0 \<le> swap16 v \<and> swap16 v < 65536"
proof -
  assume v: "0 \<le> v" "v < 65536"
  have "v div 256 < 256" using v by (simp add: div_less_iff_less_mult)
  moreover have "0 \<le> v div 256" using v by (simp add: pos_imp_zdiv_nonneg_iff)
  moreover have "v mod 256 \<le> 255" "0 \<le> v mod 256" using pos_mod_bound[of 256 v] by simp_all
  ultimately show ?thesis by (simp add: swap16_def)
qed

lemma be16_range: "0 \<le> be16 p i" "be16 p i < 65536"
  using uint_byte[of "p ! i"] uint_byte[of "p ! (i + 1)"] by (simp_all add: be16_def)

lemma swap16_be16: "swap16 (be16 p i) = le16 p i"
proof -
  have "be16 p i mod 256 = uint (p ! (i + 1))" "be16 p i div 256 = uint (p ! i)"
    using uint_byte[of "p ! i"] uint_byte[of "p ! (i + 1)"] by (simp_all add: be16_def)
  then show ?thesis by (simp add: swap16_def le16_def)
qed

text \<open>At an even offset the checksum keeps up with the option.\<close>

lemma mss_clamp_sum:
  assumes "even off" "20 \<le> off" "off + 4 \<le> length p" "0 \<le> m" "m < 65536"
  shows "lsum (mss_clamp p m off) mod 65535 = lsum p mod 65535"
proof (cases "be16 p (off + 2) > m")
  case True
  define p1 where "p1 = p[off + 2 := word_of_int (m div 256), off + 3 := word_of_int m]"
  define acc where "acc = le16 p (off + 2) - swap16 m"
  define ck where "ck = le16 p1 16"
  have q: "mss_clamp p m off = put_le16 p1 16 (ADJUST_CHECKSUM acc ck)"
    using True by (simp add: mss_clamp_def p1_def acc_def ck_def Let_def swap16_be16)
  have l1: "lsum p1 = lsum p - acc"
  proof -
    have i: "even (off + 2)" "off + 2 + 1 < length p" "off + 2 + 1 = off + 3" using assms(1,3) by simp_all
    show ?thesis
      using lsum_update[OF i(1,2), of "word_of_int (m div 256)" "word_of_int m"]
      unfolding i(3) word_bytes[OF assms(4,5)] p1_def acc_def swap16_def by linarith
  qed
  have r: "0 \<le> ck" "ck < 65536" by (simp_all add: ck_def le16_range)
  have "\<bar>acc\<bar> < 2 ^ 30"
    using swap16_range[OF assms(4,5)] le16_range[of p "off + 2"] unfolding acc_def abs_less_iff
    by (auto simp del: add_2_eq_Suc')
  note adj = ADJUST_CHECKSUM_mod[OF this r]
  have "lsum (mss_clamp p m off) = lsum p1 - ck + ADJUST_CHECKSUM acc ck"
    unfolding q ck_def by (rule put_le16_lsum) (use assms adj in \<open>simp_all add: p1_def ck_def\<close>)
  then have "lsum (mss_clamp p m off) mod 65535 = (lsum p1 - ck + ADJUST_CHECKSUM acc ck mod 65535) mod 65535"
    by (simp add: mod_simps)
  also have "\<dots> = (lsum p1 - ck + (acc + ck)) mod 65535" unfolding adj(1) by (simp add: mod_simps)
  also have "\<dots> = lsum p mod 65535" unfolding l1 by simp
  finally show ?thesis .
qed (simp add: mss_clamp_def)

section \<open>The loop\<close>

definition mss_touched :: "nat list \<Rightarrow> nat set" where
  "mss_touched os = {16, 17} \<union> (\<Union>k \<in> set os. {k + 2, k + 3})"

lemma mss_loop_sound:
  assumes "20 \<le> off" "int off + olen \<le> int (length p)" "0 \<le> m" "m < 65536"
  shows "length (mss_loop p m off olen) = length p
    \<and> (\<forall>j. j \<notin> mss_touched (mss_opts p off olen) \<longrightarrow> mss_loop p m off olen ! j = p ! j)
    \<and> (\<forall>k \<in> set (mss_opts p off olen). be16 (mss_loop p m off olen) (k + 2) = min m (be16 p (k + 2)))
    \<and> ((\<forall>k \<in> set (mss_opts p off olen). even k) \<longrightarrow> lsum (mss_loop p m off olen) mod 65535 = lsum p mod 65535)"
  using assms(1,2)
proof (induction p off olen rule: opts_induct)
  case (step p off olen)
  show ?case
  proof (cases "opt_step p off olen")
    case None
    have "mss_loop p m off olen = p" "mss_opts p off olen = []"
      using None by (simp_all add: mss_loop_step[of p m off olen] mss_opts_step[of p off olen])
    then show ?thesis by simp
  next
    case (Some n)
    note b = opt_step_bounds[OF Some]
    define p' where "p' = (if is_mss p off then mss_clamp p m off else p)"
    define q where "q = mss_loop p' m (off + n) (olen - int n)"
    define os where "os = mss_opts p (off + n) (olen - int n)"
    have len: "length p' = length p" by (simp add: p'_def)
    have q: "mss_loop p m off olen = q" by (subst mss_loop_step) (simp add: Some q_def p'_def)
    have o: "mss_opts p off olen = (if is_mss p off then [off] else []) @ os"
      by (subst mss_opts_step) (simp add: Some os_def)
    have agree: "p' ! j = p ! j" if "j \<notin> {16, 17}" "is_mss p off \<longrightarrow> j \<noteq> off + 2 \<and> j \<noteq> off + 3" for j
      using that by (auto simp: p'_def intro!: mss_clamp_nth)
    have "p' ! j = p ! j" if "off + n \<le> j" for j
      using that agree[of j] is_mss_step[OF _ Some] step(2) by (cases "is_mss p off") auto
    then have os: "mss_opts p' (off + n) (olen - int n) = os" unfolding os_def by (rule mss_opts_cong)
    have ge: "off + n \<le> k" if "k \<in> set os" for k using that mss_opts_range unfolding os_def by blast
    have IH: "length q = length p'"
      "\<And>j. j \<notin> mss_touched os \<Longrightarrow> q ! j = p' ! j"
      "\<And>k. k \<in> set os \<Longrightarrow> be16 q (k + 2) = min m (be16 p' (k + 2))"
      "(\<forall>k \<in> set os. even k) \<Longrightarrow> lsum q mod 65535 = lsum p' mod 65535"
      using step(1)[OF Some, of p'] step(2,3) b unfolding q_def os len by auto
    have val: "be16 q (k + 2) = min m (be16 p (k + 2))" if k: "k \<in> set os" for k
    proof -
      have "p' ! (k + 2) = p ! (k + 2)" "p' ! (k + 2 + 1) = p ! (k + 2 + 1)"
        using ge[OF k] is_mss_step[OF _ Some] step(2) by (auto intro!: agree)
      then have "be16 p' (k + 2) = be16 p (k + 2)" unfolding be16_def by simp
      then show ?thesis using IH(3)[OF k] by simp
    qed
    have first: "be16 q (off + 2) = min m (be16 p (off + 2))" if i: "is_mss p off"
    proof -
      have n: "n = 4" by (rule is_mss_step[OF i Some])
      have "off + 2 \<notin> mss_touched os" "off + 2 + 1 \<notin> mss_touched os"
        using ge n step(2) by (fastforce simp: mss_touched_def)+
      then have "be16 q (off + 2) = be16 p' (off + 2)" using IH(2) by (simp add: be16_def)
      also have "\<dots> = min m (be16 p (off + 2))"
        unfolding p'_def using i mss_clamp_value[of off p m] step(2,3) assms(3,4) b n by simp
      finally show ?thesis .
    qed
    have sum: "lsum p' mod 65535 = lsum p mod 65535" if "is_mss p off \<longrightarrow> even off"
      using that mss_clamp_sum[of off p m] step(2,3) assms(3,4) b is_mss_step[OF _ Some] by (auto simp: p'_def)
    show ?thesis
      unfolding q o
    proof (intro conjI allI impI ballI)
      show "length q = length p" using IH(1) len by simp
      fix j assume "j \<notin> mss_touched ((if is_mss p off then [off] else []) @ os)"
      then have "j \<notin> mss_touched os" "j \<notin> {16, 17}" "is_mss p off \<longrightarrow> j \<noteq> off + 2 \<and> j \<noteq> off + 3"
        by (auto simp: mss_touched_def split: if_splits)
      then show "q ! j = p ! j" using IH(2) agree by metis
    next
      fix k assume "k \<in> set ((if is_mss p off then [off] else []) @ os)"
      then show "be16 q (k + 2) = min m (be16 p (k + 2))" using first val by (auto split: if_splits)
    next
      assume "\<forall>k \<in> set ((if is_mss p off then [off] else []) @ os). even k"
      then show "lsum q mod 65535 = lsum p mod 65535" using IH(4) sum by (auto split: if_splits)
    qed
  qed
qed

section \<open>Properties\<close>

text \<open>The offsets of the MSS options of a TCP segment, by its header length.\<close>

definition tcp_mss_opts :: "bytes \<Rightarrow> nat list" where
  "tcp_mss_opts p =
     (let hlen = OPENVPN_TCPH_GET_DOFF (p ! 12) in
      if blen p < sizeof_tcphdr \<or> hlen \<le> sizeof_tcphdr \<or> hlen > blen p then []
      else mss_opts p (nat sizeof_tcphdr) (hlen - sizeof_tcphdr))"

lemma wsum_eq_of_lsum: "lsum q mod 65535 = lsum p mod 65535 \<Longrightarrow> wsum q mod 65535 = wsum p mod 65535"
  unfolding lsum_wsum by (metis mod_mult_right_eq)

lemma complement_zero:
  "s \<noteq> 0 \<Longrightarrow> 65535 - (if s = 0 then 0 else if s mod 65535 = 0 then 65535 else s mod 65535) = 0 \<longleftrightarrow> s mod 65535 = 0"
  for s :: int
  using pos_mod_bound[of 65535 s] by (cases "s mod 65535 = 0") simp_all

lemma ip_checksum_zero:
  assumes r: "length r \<le> 65535" "r \<noteq> []"
  shows "ip_checksum inet r src dest proto = 0 \<longleftrightarrow> pseudo_sum inet r src dest proto mod 65535 = 0"
proof -
  have "take_bit 16 (int (length r)) = int (length r)" using r by (simp add: take_bit_int_eq_self)
  moreover have "(0 :: int) < int (length r)" using r(2) by simp
  moreover have "(0 :: int) \<le> take_bit 16 proto" by simp
  ultimately have "pseudo_sum inet r src dest proto \<noteq> 0"
    using wsum_bounds(1)[of r] wsum_bounds(1)[of "take (if inet then 4 else 16) src"]
      wsum_bounds(1)[of "take (if inet then 4 else 16) dest"]
    unfolding pseudo_sum_def by linarith
  then have "uint (ip_checksum inet r src dest proto) = 0 \<longleftrightarrow> pseudo_sum inet r src dest proto mod 65535 = 0"
    unfolding ip_checksum_uint(1)[OF r(1), of inet src dest proto] Let_def by (rule complement_zero)
  then show ?thesis unfolding uint_0_iff .
qed

lemma ip_checksum_valid:
  assumes "length q \<le> 65535" "length q = length p" "p \<noteq> []" "wsum q mod 65535 = wsum p mod 65535"
  shows "ip_checksum inet q src dest proto = 0 \<longleftrightarrow> ip_checksum inet p src dest proto = 0"
proof -
  define rest where "rest = wsum (take (if inet then 4 else 16) src) + wsum (take (if inet then 4 else 16) dest)
    + take_bit 16 (int (length p)) + take_bit 16 proto"
  have "pseudo_sum inet q src dest proto = wsum q + rest" "pseudo_sum inet p src dest proto = wsum p + rest"
    unfolding pseudo_sum_def rest_def assms(2) by linarith+
  moreover have "(wsum q + rest) mod 65535 = (wsum p + rest) mod 65535"
    by (rule mod_add_cong[OF assms(4) refl])
  ultimately have "pseudo_sum inet q src dest proto mod 65535 = pseudo_sum inet p src dest proto mod 65535" by metis
  moreover have "q \<noteq> []" "length p \<le> 65535" using assms(1-3) by auto
  ultimately show ?thesis using ip_checksum_zero[OF assms(1)] ip_checksum_zero[of p] assms(3) by simp
qed

text \<open>
  C28. Clamping the MSS. The segment keeps its length; every MSS option holds the
  minimum of its old value and the maximum afterwards; no other byte than these and the checksum changes;
  and when every MSS option is at an even offset, the TCP checksum is right afterwards iff it was right
  before, whatever the addresses.
\<close>

theorem mss_fixup_sound:
  assumes "length p \<le> 65535"
  shows "length (mss_fixup_dowork p m) = length p
    \<and> (\<forall>k \<in> set (tcp_mss_opts p). be16 (mss_fixup_dowork p m) (k + 2) = min (uint m) (be16 p (k + 2)))
    \<and> (\<forall>j. j \<notin> mss_touched (tcp_mss_opts p) \<longrightarrow> mss_fixup_dowork p m ! j = p ! j)
    \<and> ((\<forall>k \<in> set (tcp_mss_opts p). even k) \<longrightarrow>
         ip_checksum inet (mss_fixup_dowork p m) src dest 6 = 0 \<longleftrightarrow> ip_checksum inet p src dest 6 = 0)"
proof (cases "blen p < sizeof_tcphdr \<or> OPENVPN_TCPH_GET_DOFF (p ! 12) \<le> sizeof_tcphdr \<or> OPENVPN_TCPH_GET_DOFF (p ! 12) > blen p")
  case True
  then have "mss_fixup_dowork p m = p" "tcp_mss_opts p = []" by (auto simp: mss_fixup_dowork_def tcp_mss_opts_def Let_def)
  then show ?thesis by simp
next
  case False
  let ?olen = "OPENVPN_TCPH_GET_DOFF (p ! 12) - sizeof_tcphdr"
  have e: "mss_fixup_dowork p m = mss_loop p (uint m) 20 ?olen" "tcp_mss_opts p = mss_opts p 20 ?olen"
    using False by (auto simp: mss_fixup_dowork_def tcp_mss_opts_def Let_def sizeof_tcphdr_def)
  have m: "0 \<le> uint m" "uint m < 65536" using uint_lt2p[of m] by simp_all
  have r: "(20 :: nat) \<le> 20" "int 20 + ?olen \<le> int (length p)" using False by (auto simp: blen_def sizeof_tcphdr_def)
  note s = mss_loop_sound[OF r m, folded e]
  have "p \<noteq> []" using False by (auto simp: blen_def sizeof_tcphdr_def)
  then have "(\<forall>k \<in> set (tcp_mss_opts p). even k) \<longrightarrow>
      ip_checksum inet (mss_fixup_dowork p m) src dest 6 = 0 \<longleftrightarrow> ip_checksum inet p src dest 6 = 0"
    using s ip_checksum_valid[OF _ _ _ wsum_eq_of_lsum] assms by metis
  then show ?thesis using s by simp
qed

text \<open>A SYN segment with the options MSS 1460, NOP, NOP, and its check.\<close>

definition syn_packet :: bytes where
  "syn_packet = [0x10, 0, 0, 80, 0, 0, 0, 1, 0, 0, 0, 0, 0x70, 2, 0xff, 0xff, 0, 0, 0, 0, 2, 4, 5, 0xb4, 1, 1, 0, 0]"

lemma mss_fixup_sound_witness:
  "mss_fixup_dowork syn_packet 1300 ! 22 = 5 \<and> tcp_mss_opts syn_packet = [20]
    \<and> be16 (mss_fixup_dowork syn_packet 1300) 22 = 1300 \<and> length (mss_fixup_dowork syn_packet 1300) = 28"
proof -
  have o: "tcp_mss_opts syn_packet = [20]" "be16 syn_packet 22 = 1460" by code_simp+
  have "length syn_packet \<le> 65535" by code_simp
  note s = mss_fixup_sound[OF this, of 1300]
  moreover have "mss_fixup_dowork syn_packet 1300 ! 22 = 5" by code_simp
  moreover have "length syn_packet = 28" by code_simp
  ultimately show ?thesis using o by simp
qed

text \<open>
  An MSS option at an odd offset breaks the checksum. The code always
  adds the difference of the swapped 16 bit values to the checksum, although the bytes of an option at an
  odd offset (one NOP before it) straddle two 16 bit words: a segment with a right checksum leaves with a wrong one.
\<close>

theorem mss_fixup_odd_offset:
  "\<exists>p m src dest. ip_checksum True p src dest 6 = 0 \<and> tcp_mss_opts p = [21]
     \<and> ip_checksum True (mss_fixup_dowork p m) src dest 6 \<noteq> 0"
  by (intro exI[of _ "[0x10, 0, 0, 80, 0, 0, 0, 1, 0, 0, 0, 0, 0x70, 2, 0xff, 0xff, 0xb2, 0x7e, 0, 0, 1, 2, 4, 5, 0xb4, 1, 0, 0]"]
      exI[of _ 1300] exI[of _ "[10, 0, 0, 1]"] exI[of _ "[10, 0, 0, 2]"] conjI) code_simp+

end
