(* ===== verification/Clinat.thy ===== *)
theory Clinat
  imports Mss
begin

text \<open>
  One-to-one address translation of the client (\<open>clinat.c\<close>): the list of rules, and the rewriting of the
  addresses of a packet with an incremental update of the IP, TCP and UDP checksums.

  The array \<open>entries[MAX_CLIENT_NAT]\<close> with its counter \<open>n\<close> is the list of the first \<open>n\<close> entries.
  \<open>getaddr\<close> (\<open>socket.c\<close>) resolves a name through the system: it is a parameter that returns the address and \<open>ok\<close>.
\<close>

definition MAX_CLIENT_NAT :: nat where "MAX_CLIENT_NAT = 64"
definition CN_OUTGOING :: int where "CN_OUTGOING = 0"
definition CN_INCOMING :: int where "CN_INCOMING = 1"
definition CN_SNAT :: int where "CN_SNAT = 0"
definition CN_DNAT :: int where "CN_DNAT = 1"

record client_nat_entry =
  cn_type :: int
  network :: u32
  netmask :: u32
  foreign_network :: u32

type_synonym client_nat_option_list = "client_nat_entry list"

definition add_entry :: "client_nat_option_list \<Rightarrow> client_nat_entry \<Rightarrow> bool \<times> client_nat_option_list" where
  "add_entry dest e = (if length dest \<ge> MAX_CLIENT_NAT then (False, dest) else (True, dest @ [e]))"

definition new_client_nat_list :: client_nat_option_list where
  "new_client_nat_list = []"

fun copy_client_nat_option_list :: "client_nat_option_list \<Rightarrow> client_nat_option_list \<Rightarrow> client_nat_option_list" where
  "copy_client_nat_option_list dest [] = dest"
| "copy_client_nat_option_list dest (e # src) =
     (case add_entry dest e of (ok, dest) \<Rightarrow> if \<not> ok then dest else copy_client_nat_option_list dest src)"

definition add_client_nat_to_option_list ::
  "(string \<Rightarrow> u32 \<times> bool) \<Rightarrow> client_nat_option_list \<Rightarrow> string \<Rightarrow> string \<Rightarrow> string \<Rightarrow> string \<Rightarrow> client_nat_option_list" where
  "add_client_nat_to_option_list getaddr dest typ nw nm fn =
     (if typ \<noteq> ''snat'' \<and> typ \<noteq> ''dnat'' then dest
      else
        let t = (if typ = ''snat'' then CN_SNAT else CN_DNAT); (network, ok) = getaddr nw in
        if \<not> ok then dest
        else let (netmask, ok) = getaddr nm in
        if \<not> ok then dest
        else let (foreign, ok) = getaddr fn in
        if \<not> ok then dest
        else snd (add_entry dest \<lparr>cn_type = t, network = network, netmask = netmask, foreign_network = foreign\<rparr>))"

section \<open>The rewriting of a packet\<close>

text \<open>A 32 bit field in the byte order of the host.\<close>

definition get_le32 :: "bytes \<Rightarrow> nat \<Rightarrow> u32" where
  "get_le32 p i = word_of_int (le16 p i + le16 p (i + 2) * 65536)"

definition put_le32 :: "bytes \<Rightarrow> nat \<Rightarrow> u32 \<Rightarrow> bytes" where
  "put_le32 p i w = put_le16 (put_le16 p i (uint (w AND 0xffff))) (i + 2) (uint (drop_bit 16 w))"

text \<open>Offsets of the addresses and of the checksums in \<open>struct ip_tcp_udp_hdr\<close>.\<close>

definition SADDR :: nat where "SADDR = 12"
definition DADDR :: nat where "DADDR = 16"
definition IP_CHECK :: nat where "IP_CHECK = 10"
definition TCP_CHECK :: nat where "TCP_CHECK = 36"
definition UDP_CHECK :: nat where "UDP_CHECK = 26"

definition nat_from :: "client_nat_entry \<Rightarrow> int \<Rightarrow> u32" where
  "nat_from e direction = (if direction \<noteq> 0 then foreign_network e else network e)"

definition nat_to :: "client_nat_entry \<Rightarrow> int \<Rightarrow> u32" where
  "nat_to e direction = (if direction \<noteq> 0 then network e else foreign_network e)"

definition nat_step :: "int \<Rightarrow> client_nat_entry \<Rightarrow> bytes \<times> int \<times> u32 \<Rightarrow> bytes \<times> int \<times> u32" where
  "nat_step direction e s =
     (case s of (p, accumulate, alog) \<Rightarrow>
        let (i, amask) = (if cn_type e XOR direction \<noteq> 0 then (DADDR, 2) else (SADDR, 1)); addr = get_le32 p i in
        if addr AND netmask e = nat_from e direction \<and> amask AND alog = 0 then
          let accumulate = ADD_CHECKSUM_32 accumulate addr;
              addr = (addr AND NOT (netmask e)) OR nat_to e direction;
              accumulate = SUB_CHECKSUM_32 accumulate addr
          in (put_le32 p i addr, accumulate, alog OR amask)
        else (p, accumulate, alog))"

definition adjust_at :: "bytes \<Rightarrow> nat \<Rightarrow> int \<Rightarrow> bytes" where
  "adjust_at p i acc = put_le16 p i (ADJUST_CHECKSUM acc (le16 p i))"

definition client_nat_transform :: "client_nat_option_list \<Rightarrow> bytes \<Rightarrow> int \<Rightarrow> bytes" where
  "client_nat_transform list p direction =
     (case foldl (\<lambda>s e. nat_step direction e s) (p, 0, 0) list of (p, accumulate, alog) \<Rightarrow>
        if alog \<noteq> 0 then
          let p = adjust_at p IP_CHECK accumulate in
          if p ! 9 = OPENVPN_IPPROTO_TCP then
            (if blen p \<ge> sizeof_iphdr + sizeof_tcphdr then adjust_at p TCP_CHECK accumulate else p)
          else if p ! 9 = OPENVPN_IPPROTO_UDP then
            (if blen p \<ge> sizeof_iphdr + sizeof_udphdr then adjust_at p UDP_CHECK accumulate else p)
          else p
        else p)"

lemma add_entry_bound: "length dest \<le> MAX_CLIENT_NAT \<Longrightarrow> length (snd (add_entry dest e)) \<le> MAX_CLIENT_NAT"
  by (simp add: add_entry_def)

lemma copy_take: "length dest \<le> MAX_CLIENT_NAT \<Longrightarrow>
    copy_client_nat_option_list dest src = take MAX_CLIENT_NAT (dest @ src)"
  by (induction dest src rule: copy_client_nat_option_list.induct) (auto simp: add_entry_def take_Cons')

section \<open>Fields\<close>

lemma le16_put_same: "i + 1 < length p \<Longrightarrow> 0 \<le> v \<Longrightarrow> v < 65536 \<Longrightarrow> le16 (put_le16 p i v) i = v"
  using mod_mult_div_eq[of v 256] by (simp add: le16_def put_le16_def word_bytes mult.commute)

lemma le16_put_other: "i + 1 < j \<or> j + 1 < i \<Longrightarrow> le16 (put_le16 p i v) j = le16 p j"
  by (auto simp: le16_def)

lemma halves:
  "uint (w AND 0xffff) = uint w mod 65536" "uint (drop_bit 16 w) = uint w div 65536"
  "0 \<le> uint w mod 65536" "uint w mod 65536 < 65536" "0 \<le> uint w div 65536" "uint w div 65536 < 65536" for w :: u32
proof -
  have u: "uint w < 2 ^ 32" "0 \<le> uint w" using uint_lt2p[of w] by simp_all
  show "uint (w AND 0xffff) = uint w mod 65536" by (simp add: uint_and and_ffff)
  show "uint (drop_bit 16 w) = uint w div 65536"
    unfolding unsigned_drop_bit_eq using u by (simp add: take_bit_int_eq_self drop_bit_eq_div)
  show "0 \<le> uint w mod 65536" "uint w mod 65536 < 65536" by simp_all
  show "0 \<le> uint w div 65536" "uint w div 65536 < 65536" using u
    by (simp_all add: div_less_iff_less_mult pos_imp_zdiv_nonneg_iff)
qed

lemma put_le32_halves:
  assumes "i + 3 < length p"
  shows "le16 (put_le32 p i w) i = uint w mod 65536" "le16 (put_le32 p i w) (i + 2) = uint w div 65536"
  using assms halves(3-6)[of w] unfolding put_le32_def halves(1,2)
  by (simp_all add: le16_put_same le16_put_other del: add_2_eq_Suc')

lemma put_le32_simps [simp]:
  "length (put_le32 p i w) = length p"
  "j < i \<or> i + 3 < j \<Longrightarrow> put_le32 p i w ! j = p ! j"
  by (auto simp: put_le32_def)

lemma get_put_le32 [simp]: "i + 3 < length p \<Longrightarrow> get_le32 (put_le32 p i w) i = w"
proof -
  assume "i + 3 < length p"
  note h = put_le32_halves[OF this, of w]
  show ?thesis unfolding get_le32_def h using mod_div_mult_eq[of "uint w" 65536] by (simp add: word_of_int_uint)
qed

lemma get_le32_halves: "uint (get_le32 p i) mod 65536 = le16 p i" "uint (get_le32 p i) div 65536 = le16 p (i + 2)"
proof -
  have r: "0 \<le> le16 p i" "le16 p i < 65536" "0 \<le> le16 p (i + 2)" "le16 p (i + 2) < 65536" by (rule le16_range)+
  then have "uint (get_le32 p i) = le16 p i + le16 p (i + 2) * 65536"
    unfolding get_le32_def uint_word_of_int by simp
  then show "uint (get_le32 p i) mod 65536 = le16 p i" "uint (get_le32 p i) div 65536 = le16 p (i + 2)"
    using r by simp_all
qed

lemma get_le32_other: "i + 3 < j \<or> j + 3 < i \<Longrightarrow> get_le32 (put_le32 p i w) j = get_le32 p j"
  by (auto simp: get_le32_def le16_def)

section \<open>The rules\<close>

text \<open>The address that the rules give: the first rule for this side whose network contains it.\<close>

definition rule_applies :: "int \<Rightarrow> bool \<Rightarrow> u32 \<Rightarrow> client_nat_entry \<Rightarrow> bool" where
  "rule_applies direction dst a e \<longleftrightarrow> (cn_type e XOR direction \<noteq> 0) = dst \<and> a AND netmask e = nat_from e direction"

definition nat_address :: "client_nat_option_list \<Rightarrow> int \<Rightarrow> bool \<Rightarrow> u32 \<Rightarrow> u32" where
  "nat_address es direction dst a =
     (case find (rule_applies direction dst a) es of None \<Rightarrow> a
      | Some e \<Rightarrow> (a AND NOT (netmask e)) OR nat_to e direction)"

definition address_sum :: "bytes \<Rightarrow> int" where
  "address_sum p = le16 p 12 + le16 p 14 + le16 p 16 + le16 p 18"

lemma address_sum_range: "0 \<le> address_sum p" "address_sum p < 262144"
  using le16_range[of p 12] le16_range[of p 14] le16_range[of p 16] le16_range[of p 18] by (simp_all add: address_sum_def)

lemma address_sum_put:
  assumes "20 \<le> length p" "i = 12 \<or> i = 16"
  shows "address_sum (put_le32 p i w)
    = address_sum p - uint (get_le32 p i) mod 65536 - uint (get_le32 p i) div 65536 + uint w mod 65536 + uint w div 65536"
proof -
  have r: "i + 3 < length p" using assms by auto
  have o: "le16 (put_le32 p i w) j = le16 p j" if "i + 3 < j \<or> j + 1 < i" for j
    using that by (auto simp: le16_def)
  show ?thesis
    using assms(2) put_le32_halves[OF r, of w] o[of 12] o[of 14] o[of 16] o[of 18] get_le32_halves[of p i]
    by (auto simp: address_sum_def)
qed

definition nat_inv :: "int \<Rightarrow> bytes \<Rightarrow> client_nat_option_list \<Rightarrow> bytes \<times> int \<times> u32 \<Rightarrow> bool" where
  "nat_inv direction p es s \<longleftrightarrow>
     (case s of (q, acc, alog) \<Rightarrow>
        length q = length p \<and> (\<forall>j. j < 12 \<or> 20 \<le> j \<longrightarrow> q ! j = p ! j)
        \<and> acc = address_sum p - address_sum q \<and> alog \<in> {0, 1, 2, 3} \<and> (alog = 0 \<longrightarrow> q = p)
        \<and> (if 1 AND alog = 0 then get_le32 q 12 = get_le32 p 12 \<and> find (rule_applies direction False (get_le32 p 12)) es = None
           else get_le32 q 12 = nat_address es direction False (get_le32 p 12) \<and> find (rule_applies direction False (get_le32 p 12)) es \<noteq> None)
        \<and> (if 2 AND alog = 0 then get_le32 q 16 = get_le32 p 16 \<and> find (rule_applies direction True (get_le32 p 16)) es = None
           else get_le32 q 16 = nat_address es direction True (get_le32 p 16) \<and> find (rule_applies direction True (get_le32 p 16)) es \<noteq> None))"

lemma find_snoc: "find P (xs @ [x]) = (case find P xs of None \<Rightarrow> if P x then Some x else None | Some y \<Rightarrow> Some y)"
  by (induction xs) auto

lemma nat_step_inv:
  assumes "20 \<le> length p" "nat_inv direction p es s"
  shows "nat_inv direction p (es @ [e]) (nat_step direction e s)"
proof -
  obtain q acc alog where s: "s = (q, acc, alog)" by (cases s)
  note inv = assms(2)[unfolded nat_inv_def s prod.case]
  define dst where "dst = (cn_type e XOR direction \<noteq> 0)"
  define i where "i = (if dst then DADDR else SADDR)"
  define amask :: u32 where "amask = (if dst then 2 else 1)"
  define a where "a = get_le32 q i"
  define b where "b = (a AND NOT (netmask e)) OR nat_to e direction"
  have l: "length q = length p" and q20: "20 \<le> length q" using inv assms(1) by auto
  have i: "i = 12 \<or> i = 16" by (simp add: i_def DADDR_def SADDR_def)
  have step: "nat_step direction e s =
      (if a AND netmask e = nat_from e direction \<and> amask AND alog = 0
       then (put_le32 q i b, SUB_CHECKSUM_32 (ADD_CHECKSUM_32 acc a) b, alog OR amask) else s)"
    unfolding nat_step_def s prod.case dst_def[symmetric]
    by (cases dst) (simp_all only: Let_def a_def b_def i_def amask_def if_True if_False prod.case)
  show ?thesis
  proof (cases "a AND netmask e = nat_from e direction \<and> amask AND alog = 0")
    case True
    note st = step[unfolded if_P[OF True]]
    have acc: "SUB_CHECKSUM_32 (ADD_CHECKSUM_32 acc a) b = address_sum p - address_sum (put_le32 q i b)"
      using inv address_sum_put[OF q20 i, of b]
      by (simp only: SUB_CHECKSUM_32_def ADD_CHECKSUM_32_def Let_def halves(1,2) a_def[symmetric])
    have fr: "put_le32 q i b ! j = p ! j" if "j < 12 \<or> 20 \<le> j" for j
      using that inv i by (subst put_le32_simps(2)) auto
    have me: "get_le32 (put_le32 q i b) i = b" using q20 i by auto
    have ot: "get_le32 (put_le32 q i b) (28 - i) = get_le32 q (28 - i)" using i by (intro get_le32_other) auto
    have ap: "rule_applies direction dst a e" using True by (simp add: rule_applies_def dst_def)
    have nap: "\<not> rule_applies direction (\<not> dst) c e" for c by (simp add: rule_applies_def dst_def)
    show ?thesis
      unfolding st nat_inv_def prod.case
      using inv True acc fr me ot ap nap l
      by (cases dst) (auto simp: i_def amask_def DADDR_def SADDR_def a_def b_def find_snoc nat_address_def)
  next
    case False
    note st = step[unfolded if_not_P[OF False]]
    have nap: "\<not> rule_applies direction (\<not> dst) c e" for c by (simp add: rule_applies_def dst_def)
    have ap: "amask AND alog = 0 \<Longrightarrow> \<not> rule_applies direction dst a e" using False by (simp add: rule_applies_def dst_def)
    show ?thesis
      unfolding st unfolding s nat_inv_def prod.case
      using inv nap ap
      by (cases dst) (auto simp: i_def amask_def DADDR_def SADDR_def a_def find_snoc nat_address_def split: option.splits if_splits)
  qed
qed

lemma nat_fold_inv:
  assumes "20 \<le> length p"
  shows "nat_inv direction p es (foldl (\<lambda>s e. nat_step direction e s) (p, 0, 0) es)"
proof (induction es rule: rev_induct)
  case Nil
  then show ?case by (simp add: nat_inv_def)
next
  case (snoc e es)
  then show ?case using nat_step_inv[OF assms snoc] by simp
qed

section \<open>Checksums\<close>

lemma lsum_append: "even (length a) \<Longrightarrow> lsum (a @ b) = lsum a + lsum b"
  by (induction a rule: lsum.induct) auto

lemma lsum_two: "i + 2 \<le> length p \<Longrightarrow> lsum (take 2 (drop i p)) = le16 p i"
proof -
  assume "i + 2 \<le> length p"
  then have "drop i p = p ! i # p ! Suc i # drop (i + 2) p"
    by (metis Cons_nth_drop_Suc Suc_le_lessD add_2_eq_Suc' le_less_trans less_Suc_eq_le less_imp_le_nat)
  then show ?thesis by (simp add: le16_def numeral_2_eq_2)
qed

lemma lsum_take_step:
  assumes "even i" "i + 2 \<le> length p"
  shows "lsum (take (i + 2) p) = lsum (take i p) + le16 p i"
  using assms by (simp only: take_add lsum_append[of "take i p"] lsum_two) (simp add: lsum_append lsum_two)

lemma lsum_header:
  assumes "20 \<le> length p"
  shows "lsum (take 20 p) = le16 p 0 + le16 p 2 + le16 p 4 + le16 p 6 + le16 p 8 + le16 p 10 + address_sum p"
proof -
  have s: "lsum (take (i + 2) p) = lsum (take i p) + le16 p i" if "i \<in> {0, 2, 4, 6, 8, 10, 12, 14, 16, 18}" for i
    using that assms by (intro lsum_take_step) auto
  show ?thesis
    using lsum_two[of 0 p] assms s[of 2] s[of 4] s[of 6] s[of 8] s[of 10] s[of 12] s[of 14] s[of 16] s[of 18]
    by (simp add: address_sum_def)
qed

lemma lsum_addresses:
  assumes "20 \<le> length p"
  shows "lsum (take 4 (drop 12 p)) + lsum (take 4 (drop 16 p)) = address_sum p"
proof -
  have "lsum (take 4 (drop i p)) = le16 p i + le16 p (i + 2)" if "i = 12 \<or> i = 16" for i
    using that assms lsum_two[of i p] lsum_take_step[of 2 "drop i p"] by (auto simp: le16_def)
  then show ?thesis by (simp add: address_sum_def)
qed

lemma adjust_at_simps [simp]:
  "length (adjust_at p i acc) = length p"
  "j \<noteq> i \<Longrightarrow> j \<noteq> i + 1 \<Longrightarrow> adjust_at p i acc ! j = p ! j"
  by (simp_all add: adjust_at_def)

lemma le16_adjust:
  assumes "i + 1 < length p" "\<bar>acc\<bar> < 2 ^ 30"
  shows "le16 (adjust_at p i acc) i mod 65535 = (le16 p i + acc) mod 65535"
  using assms ADJUST_CHECKSUM_mod[OF assms(2) le16_range[of p i]]
  by (simp add: adjust_at_def le16_put_same add.commute)

lemma lsum_adjust:
  assumes "even i" "i + 1 < length p" "\<bar>acc\<bar> < 2 ^ 30"
  shows "lsum (adjust_at p i acc) mod 65535 = (lsum p + acc) mod 65535"
proof -
  note adj = ADJUST_CHECKSUM_mod[OF assms(3) le16_range[of p i]]
  have "lsum (adjust_at p i acc) = (lsum p - le16 p i) + ADJUST_CHECKSUM acc (le16 p i)"
    unfolding adjust_at_def using put_le16_lsum[OF assms(1,2) adj(2,3)] by simp
  also have "\<dots> mod 65535 = ((lsum p - le16 p i) + (acc + le16 p i)) mod 65535"
    using adj(1) by (intro mod_add_cong refl)
  finally show ?thesis by (simp add: add.commute)
qed

lemma drop_adjust: "k \<le> i \<Longrightarrow> le16 p i = le16 (drop k p) (i - k) \<Longrightarrow> drop k (adjust_at p i acc) = adjust_at (drop k p) (i - k) acc"
  by (simp add: adjust_at_def put_le16_def drop_update_swap Suc_diff_le)

text \<open>The offset of the transport checksum that the code updates.\<close>

definition l4_check :: "bytes \<Rightarrow> nat set" where
  "l4_check p = (if p ! 9 = OPENVPN_IPPROTO_TCP \<and> 40 \<le> length p then {36, 37}
     else if p ! 9 = OPENVPN_IPPROTO_UDP \<and> 28 \<le> length p then {26, 27} else {})"

lemma transform_cases:
  assumes "20 \<le> length p"
  obtains q acc where
    "nat_inv direction p es (q, acc, 0)" "client_nat_transform es p direction = p" "q = p"
  | q acc alog where
    "nat_inv direction p es (q, acc, alog)" "\<bar>acc\<bar> < 2 ^ 30" "l4_check p = {}"
    "client_nat_transform es p direction = adjust_at q 10 acc"
  | q acc alog i where
    "nat_inv direction p es (q, acc, alog)" "\<bar>acc\<bar> < 2 ^ 30" "l4_check p = {i, i + 1}" "even i" "26 \<le> i" "i + 1 < length p"
    "i \<in> {26, 36}" "i = 36 \<longleftrightarrow> p ! 9 = OPENVPN_IPPROTO_TCP"
    "client_nat_transform es p direction = adjust_at (adjust_at q 10 acc) i acc"
proof -
  obtain q acc alog where f: "foldl (\<lambda>s e. nat_step direction e s) (p, 0, 0) es = (q, acc, alog)"
    by (cases "foldl (\<lambda>s e. nat_step direction e s) (p, 0, 0) es")
  have inv: "nat_inv direction p es (q, acc, alog)" using nat_fold_inv[OF assms, of direction es] f by simp
  then have a: "\<bar>acc\<bar> < 2 ^ 30" and l: "length q = length p" and p9: "q ! 9 = p ! 9"
    using address_sum_range[of p] address_sum_range[of q] by (auto simp: nat_inv_def)
  show ?thesis
  proof (cases "alog = 0")
    case True
    then show ?thesis using that(1)[of q acc] inv f by (auto simp: nat_inv_def client_nat_transform_def)
  next
    case False
    have len: "(blen (adjust_at q IP_CHECK acc) \<ge> sizeof_iphdr + sizeof_tcphdr) = (40 \<le> length p)"
      "(blen (adjust_at q IP_CHECK acc) \<ge> sizeof_iphdr + sizeof_udphdr) = (28 \<le> length p)"
      using l by (simp_all add: blen_def sizeof_iphdr_def sizeof_tcphdr_def sizeof_udphdr_def)
    have r9: "adjust_at q IP_CHECK acc ! 9 = p ! 9" using p9 by (simp add: IP_CHECK_def)
    have ne: "OPENVPN_IPPROTO_TCP \<noteq> OPENVPN_IPPROTO_UDP"
      by (simp add: OPENVPN_IPPROTO_TCP_def OPENVPN_IPPROTO_UDP_def)
    have r: "client_nat_transform es p direction =
       (let r = adjust_at q 10 acc in
        if p ! 9 = OPENVPN_IPPROTO_TCP then (if 40 \<le> length p then adjust_at r 36 acc else r)
        else if p ! 9 = OPENVPN_IPPROTO_UDP then (if 28 \<le> length p then adjust_at r 26 acc else r) else r)"
      using False unfolding client_nat_transform_def f prod.case Let_def len r9
      by (simp add: IP_CHECK_def TCP_CHECK_def UDP_CHECK_def)
    consider "p ! 9 = OPENVPN_IPPROTO_TCP" "40 \<le> length p" | "p ! 9 = OPENVPN_IPPROTO_UDP" "28 \<le> length p" | "l4_check p = {}"
      by (cases "p ! 9 = OPENVPN_IPPROTO_TCP \<and> 40 \<le> length p"; cases "p ! 9 = OPENVPN_IPPROTO_UDP \<and> 28 \<le> length p")
        (simp_all add: l4_check_def)
    then show ?thesis
    proof cases
      case 1
      then show ?thesis using that(3)[OF inv a, of 36] r by (simp add: l4_check_def)
    next
      case 2
      then show ?thesis using that(3)[OF inv a, of 26] r ne by (simp add: l4_check_def)
    next
      case 3
      then show ?thesis using that(2)[OF inv a 3] r 3 by (auto simp: l4_check_def Let_def split: if_splits)
    qed
  qed
qed

text \<open>The header sum after the update of the checksum at offset 10.\<close>

lemma header_sum:
  assumes "20 \<le> length p" "nat_inv direction p es (q, acc, alog)" "\<bar>acc\<bar> < 2 ^ 30"
  shows "lsum (take 20 (adjust_at q 10 acc)) mod 65535 = lsum (take 20 p) mod 65535"
proof -
  have inv: "length q = length p" "\<And>j. j < 12 \<Longrightarrow> q ! j = p ! j" "acc = address_sum p - address_sum q"
    using assms(2) by (auto simp: nat_inv_def)
  let ?r = "adjust_at q 10 acc"
  have same: "le16 ?r j = le16 p j" if "j + 1 < 10" for j using that inv(2) by (simp add: le16_def)
  have as: "address_sum ?r = address_sum q" by (simp add: address_sum_def le16_def)
  have q10: "le16 q 10 = le16 p 10" using inv(2) by (simp add: le16_def)
  have "lsum (take 20 ?r) = (lsum (take 20 p) - le16 p 10 - acc) + le16 ?r 10"
    using lsum_header[of ?r] lsum_header[of p] same[of 0] same[of 2] same[of 4] same[of 6] same[of 8] assms(1) inv(1,3) as
    by simp
  also have "\<dots> mod 65535 = ((lsum (take 20 p) - le16 p 10 - acc) + (le16 p 10 + acc)) mod 65535"
    using le16_adjust[of 10 q acc] assms(1,3) inv(1) q10 by (intro mod_add_cong refl) simp
  finally show ?thesis by simp
qed

text \<open>The sum that the transport checksum covers, without the constant part of the pseudo header.\<close>

lemma transport_sum:
  assumes "20 \<le> length p" "nat_inv direction p es (q, acc, alog)" "\<bar>acc\<bar> < 2 ^ 30"
    "even i" "26 \<le> i" "i + 1 < length p"
    and r: "r = adjust_at (adjust_at q 10 acc) i acc"
  shows "(lsum (drop 20 r) + address_sum r) mod 65535 = (lsum (drop 20 p) + address_sum p) mod 65535"
proof -
  have inv: "length q = length p" "\<And>j. 20 \<le> j \<Longrightarrow> q ! j = p ! j" "acc = address_sum p - address_sum q"
    using assms(2) by (auto simp: nat_inv_def)
  have as: "address_sum r = address_sum q" using assms(5) by (simp add: r address_sum_def le16_def)
  have "drop 20 (adjust_at q 10 acc) = drop 20 p"
    using inv(1,2) by (intro nth_equalityI) auto
  moreover have "le16 (adjust_at q 10 acc) i = le16 (drop 20 (adjust_at q 10 acc)) (i - 20)"
    using assms(5,6) inv(1) by (simp add: le16_def)
  ultimately have d: "drop 20 r = adjust_at (drop 20 p) (i - 20) acc"
    unfolding r using drop_adjust[of 20 i "adjust_at q 10 acc" acc] assms(5) by simp
  have "lsum (drop 20 r) mod 65535 = (lsum (drop 20 p) + acc) mod 65535"
    unfolding d using assms(4-6) by (intro lsum_adjust assms(3)) auto
  then have "(lsum (drop 20 r) + address_sum r) mod 65535 = (lsum (drop 20 p) + acc + address_sum r) mod 65535"
    by (intro mod_add_cong refl)
  then show ?thesis using as inv(3) by simp
qed

lemma transport_valid:
  assumes "20 < length p" "length p \<le> 65535" "length r = length p"
    "(lsum (drop 20 r) + address_sum r) mod 65535 = (lsum (drop 20 p) + address_sum p) mod 65535"
  shows "ip_checksum True (drop 20 r) (drop 12 r) (drop 16 r) proto = 0
    \<longleftrightarrow> ip_checksum True (drop 20 p) (drop 12 p) (drop 16 p) proto = 0"
proof -
  define c where "c = take_bit 16 (int (length p - 20)) + take_bit 16 proto"
  have s: "pseudo_sum True (drop 20 x) (drop 12 x) (drop 16 x) proto mod 65535 = (256 * (lsum (drop 20 x) + address_sum x) + c) mod 65535"
    if "length x = length p" for x
  proof -
    have "pseudo_sum True (drop 20 x) (drop 12 x) (drop 16 x) proto mod 65535
      = (wsum (drop 20 x) + (wsum (take 4 (drop 12 x)) + (wsum (take 4 (drop 16 x)) + c))) mod 65535"
      using that by (simp add: pseudo_sum_def c_def add.assoc)
    also have "\<dots> = (256 * lsum (drop 20 x) + (256 * lsum (take 4 (drop 12 x)) + (256 * lsum (take 4 (drop 16 x)) + c))) mod 65535"
      by (intro mod_add_cong lsum_wsum refl)
    also have "256 * lsum (drop 20 x) + (256 * lsum (take 4 (drop 12 x)) + (256 * lsum (take 4 (drop 16 x)) + c))
      = 256 * (lsum (drop 20 x) + address_sum x) + c"
      using lsum_addresses[of x] that assms(1) by (simp add: algebra_simps)
    finally show ?thesis .
  qed
  have "pseudo_sum True (drop 20 r) (drop 12 r) (drop 16 r) proto mod 65535
    = pseudo_sum True (drop 20 p) (drop 12 p) (drop 16 p) proto mod 65535"
    unfolding s[OF assms(3)] s[OF refl] by (intro mod_add_cong mod_mult_cong assms(4) refl)
  moreover have "length (drop 20 r) \<le> 65535" "drop 20 r \<noteq> []" "length (drop 20 p) \<le> 65535" "drop 20 p \<noteq> []"
    using assms(1-3) by auto
  ultimately show ?thesis using ip_checksum_zero by metis
qed

lemma nat_inv_addresses:
  "nat_inv direction p es (q, acc, alog) \<Longrightarrow>
     get_le32 q 12 = nat_address es direction False (get_le32 p 12) \<and> get_le32 q 16 = nat_address es direction True (get_le32 p 16)"
  unfolding nat_inv_def by (auto simp: nat_address_def split: if_splits)

lemma get_le32_cong: "(\<And>j. i \<le> j \<Longrightarrow> j \<le> i + 3 \<Longrightarrow> q ! j = p ! j) \<Longrightarrow> get_le32 q i = get_le32 p i"
  by (simp add: get_le32_def le16_def)

text \<open>What the translation does to the bytes of any packet.\<close>

lemma client_nat_rewrites:
  assumes "20 \<le> length p" "length p \<le> 65535"
  shows "length (client_nat_transform es p d) = length p
    \<and> get_le32 (client_nat_transform es p d) SADDR = nat_address es d False (get_le32 p SADDR)
    \<and> get_le32 (client_nat_transform es p d) DADDR = nat_address es d True (get_le32 p DADDR)
    \<and> (\<forall>j. j \<notin> {10..19} \<union> l4_check p \<longrightarrow> client_nat_transform es p d ! j = p ! j)
    \<and> wsum (take 20 (client_nat_transform es p d)) mod 65535 = wsum (take 20 p) mod 65535
    \<and> (l4_check p \<noteq> {} \<longrightarrow>
        (ip_checksum True (drop 20 (client_nat_transform es p d)) (drop SADDR (client_nat_transform es p d))
           (drop DADDR (client_nat_transform es p d)) proto = 0
         \<longleftrightarrow> ip_checksum True (drop 20 p) (drop SADDR p) (drop DADDR p) proto = 0))"
proof (cases rule: transform_cases[OF assms(1), of d es])
  case (1 q acc)
  then show ?thesis using nat_inv_addresses[OF 1(1)] by (simp add: SADDR_def DADDR_def)
next
  case (2 q acc alog)
  let ?r = "adjust_at q 10 acc"
  have l: "length q = length p" and b: "\<And>j. j < 12 \<or> 20 \<le> j \<Longrightarrow> q ! j = p ! j" using 2(1) by (auto simp: nat_inv_def)
  have g: "get_le32 ?r 12 = get_le32 q 12" "get_le32 ?r 16 = get_le32 q 16" by (auto intro!: get_le32_cong)
  have s: "wsum (take 20 ?r) mod 65535 = wsum (take 20 p) mod 65535"
    by (rule wsum_eq_of_lsum[OF header_sum[OF assms(1) 2(1,2)]])
  have f: "\<forall>j. j \<notin> {10..19} \<longrightarrow> ?r ! j = p ! j" using b by (auto simp: not_le)
  show ?thesis
    unfolding 2(4) using l g s f nat_inv_addresses[OF 2(1)] 2(3) by (simp add: SADDR_def DADDR_def)
next
  case (3 q acc alog i)
  let ?base = "adjust_at q 10 acc"
  let ?r = "adjust_at ?base i acc"
  have l: "length q = length p" and b: "\<And>j. j < 12 \<or> 20 \<le> j \<Longrightarrow> q ! j = p ! j" using 3(1) by (auto simp: nat_inv_def)
  have g: "get_le32 ?r 12 = get_le32 q 12" "get_le32 ?r 16 = get_le32 q 16" using 3(5) by (auto intro!: get_le32_cong)
  have "take 20 ?r = take 20 ?base" using 3(5) l by (intro nth_equalityI) auto
  then have s: "wsum (take 20 ?r) mod 65535 = wsum (take 20 p) mod 65535"
    using wsum_eq_of_lsum[OF header_sum[OF assms(1) 3(1,2)]] by metis
  have f: "\<forall>j. j \<notin> {10..19} \<union> l4_check p \<longrightarrow> ?r ! j = p ! j" using b unfolding 3(3) by (auto simp: not_le)
  have v: "ip_checksum True (drop 20 ?r) (drop 12 ?r) (drop 16 ?r) proto = 0
      \<longleftrightarrow> ip_checksum True (drop 20 p) (drop 12 p) (drop 16 p) proto = 0"
    by (rule transport_valid[OF _ assms(2) _ transport_sum[OF assms(1) 3(1,2,4-6) refl]]) (use 3(5,6) l in auto)
  show ?thesis
    unfolding 3(9) using l g s f v nat_inv_addresses[OF 3(1)] by (simp add: SADDR_def DADDR_def)
qed

section \<open>Properties\<close>

text \<open>
  The packets for which the bytes that the code takes for a transport checksum are one: an IPv4 header of
  20 bytes without options, not a fragment. A UDP checksum of zero says that there is none.
\<close>

definition plain_ipv4 :: "bytes \<Rightarrow> bool" where
  "plain_ipv4 p \<longleftrightarrow> 20 \<le> length p \<and> length p \<le> 65535 \<and> p ! 0 = 0x45 \<and> p ! 6 AND 0x3f = 0 \<and> p ! 7 = 0"

definition no_checksum :: "bytes \<Rightarrow> bool" where
  "no_checksum p \<longleftrightarrow> p ! 9 = OPENVPN_IPPROTO_UDP \<and> le16 p UDP_CHECK = 0"

text \<open>
  C27. Address translation of an IPv4 packet that is not a fragment and whose header has no options. Each
  address of the packet becomes what the first rule gives whose direction and network match, no other byte
  changes but the header checksum and the checksum of TCP or UDP, and the checksums keep up: the sum of the
  header words is the same modulo 65535, so the header checksum is right afterwards iff it was before, and,
  unless it is a UDP packet without a checksum, the checksum of TCP or UDP over the translated
  addresses verifies iff it did before the translation.
\<close>

theorem client_nat_sound:
  assumes "plain_ipv4 p"
  shows "length (client_nat_transform es p d) = length p
    \<and> get_le32 (client_nat_transform es p d) SADDR = nat_address es d False (get_le32 p SADDR)
    \<and> get_le32 (client_nat_transform es p d) DADDR = nat_address es d True (get_le32 p DADDR)
    \<and> (\<forall>j. j \<notin> {10..19} \<union> l4_check p \<longrightarrow> client_nat_transform es p d ! j = p ! j)
    \<and> wsum (take 20 (client_nat_transform es p d)) mod 65535 = wsum (take 20 p) mod 65535
    \<and> (l4_check p \<noteq> {} \<and> \<not> no_checksum p \<longrightarrow>
        (ip_checksum True (drop 20 (client_nat_transform es p d)) (drop SADDR (client_nat_transform es p d))
           (drop DADDR (client_nat_transform es p d)) proto = 0
         \<longleftrightarrow> ip_checksum True (drop 20 p) (drop SADDR p) (drop DADDR p) proto = 0))"
proof -
  have l: "20 \<le> length p" "length p \<le> 65535" using assms by (simp_all add: plain_ipv4_def)
  show ?thesis using client_nat_rewrites[OF l, of es d proto] by blast
qed

text \<open>
  UDP packets from 10.0.0.5, without and with a checksum, and a rule that maps 10.0.0.0/24 to
  192.168.7.0/24 (words in host order).
\<close>

definition snat_rule :: client_nat_entry where
  "snat_rule = \<lparr>cn_type = CN_SNAT, network = 0x0000000a, netmask = 0x00ffffff, foreign_network = 0x0007a8c0\<rparr>"

definition udp_packet :: bytes where
  "udp_packet = [0x45, 0, 0, 30, 0, 0, 0, 0, 64, 17, 0x64, 0xc7, 10, 0, 0, 5, 10, 1, 2, 3, 4, 0, 0, 53, 0, 10, 0, 0, 9, 9]"

definition udp_sum_packet :: bytes where
  "udp_sum_packet = [0x45, 0, 0, 30, 0, 0, 0, 0, 64, 17, 0x64, 0xc7, 10, 0, 0, 5, 10, 1, 2, 3, 4, 0, 0, 53, 0, 10, 0xdc, 0x93, 9, 9]"

lemma client_nat_sound_witness:
  "get_le32 (client_nat_transform [snat_rule] udp_sum_packet CN_OUTGOING) SADDR = 0x0507a8c0
    \<and> length (client_nat_transform [snat_rule] udp_sum_packet CN_OUTGOING) = 30
    \<and> wsum (take 20 (client_nat_transform [snat_rule] udp_sum_packet CN_OUTGOING)) mod 65535 = 0
    \<and> ip_checksum True (drop 20 (client_nat_transform [snat_rule] udp_sum_packet CN_OUTGOING))
        (drop SADDR (client_nat_transform [snat_rule] udp_sum_packet CN_OUTGOING))
        (drop DADDR (client_nat_transform [snat_rule] udp_sum_packet CN_OUTGOING)) 17 = 0"
proof -
  have l: "plain_ipv4 udp_sum_packet" "length udp_sum_packet = 30" "l4_check udp_sum_packet \<noteq> {}" "\<not> no_checksum udp_sum_packet"
    by code_simp+
  have "nat_address [snat_rule] CN_OUTGOING False (get_le32 udp_sum_packet SADDR) = 0x0507a8c0" by code_simp
  moreover have "wsum (take 20 udp_sum_packet) mod 65535 = 0" by code_simp
  moreover have "ip_checksum True (drop 20 udp_sum_packet) (drop SADDR udp_sum_packet) (drop DADDR udp_sum_packet) 17 = 0" by code_simp
  ultimately show ?thesis using client_nat_sound[OF l(1), of "[snat_rule]" CN_OUTGOING 17] l(2-4) by simp
qed

text \<open>
  A UDP datagram without a checksum gets a wrong one. The value zero says that
  the sender computed no checksum; the code adds the difference of the addresses to it all the same,
  so that the translated datagram carries a checksum that does not verify.
\<close>

theorem client_nat_udp_zero:
  "\<exists>es p q. q = client_nat_transform es p CN_OUTGOING \<and> p ! 9 = OPENVPN_IPPROTO_UDP
     \<and> le16 p UDP_CHECK = 0 \<and> le16 q UDP_CHECK \<noteq> 0
     \<and> ip_checksum True (drop 20 q) (drop SADDR q) (drop DADDR q) 17 \<noteq> 0"
  by (intro exI[of _ "[snat_rule]"] exI[of _ udp_packet] exI[of _ "client_nat_transform [snat_rule] udp_packet CN_OUTGOING"]
      conjI refl) code_simp+

end
