(* ===== verification/Mbuf.thy ===== *)
theory Mbuf
  imports Buffer
begin

text \<open>
  The queue of packets that wait for a client instance (\<open>mbuf.h\<close>, \<open>mbuf.c\<close>): a ring of items, each a
  reference to a counted buffer and to an instance.

  The buffers are in an explicit store from addresses to cells, because several items share one buffer:
  a freed cell is \<open>None\<close>, and an access to it ends the model with \<open>None\<close>, like a failed \<open>ASSERT\<close>
  and an access outside the array. \<open>mbuf_alloc_buf\<close> takes the address that \<open>malloc\<close> returns, which is unused.
\<close>

record mbuf_buffer =
  mb_buf :: buffer
  refcount :: int
  mb_flags :: u32

type_synonym mbuf_store = "nat \<Rightarrow> mbuf_buffer option"

record mbuf_item =
  mi_buffer :: "nat option"
  mi_instance :: "nat option"

record mbuf_set =
  ms_head :: u32
  ms_len :: u32
  ms_capacity :: u32
  max_queued :: u32
  ms_array :: "mbuf_item list"

definition MBUF_INDEX :: "u32 \<Rightarrow> u32 \<Rightarrow> u32 \<Rightarrow> u32" where
  "MBUF_INDEX head offset sz = (head + offset) AND (sz - 1)"

definition item_at :: "mbuf_set \<Rightarrow> u32 \<Rightarrow> mbuf_item option" where
  "item_at ms i = (if unat i < length (ms_array ms) then Some (ms_array ms ! unat i) else None)"

definition mbuf_init :: "u32 \<Rightarrow> mbuf_set option" where
  "mbuf_init sz =
     (case adjust_power_of_2 (ucast sz) of
        Returned c \<Rightarrow>
          (let cap = ucast c in
           Some \<lparr>ms_head = 0, ms_len = 0, ms_capacity = cap, max_queued = 0,
             ms_array = replicate (unat cap) \<lparr>mi_buffer = None, mi_instance = None\<rparr>\<rparr>)
      | _ \<Rightarrow> None)"

definition mbuf_alloc_buf :: "nat \<Rightarrow> bytes \<Rightarrow> buffer \<Rightarrow> mbuf_store \<Rightarrow> mbuf_store" where
  "mbuf_alloc_buf a fresh buf st = st(a \<mapsto> \<lparr>mb_buf = clone_buf fresh buf, refcount = 1, mb_flags = 0\<rparr>)"

definition mbuf_free_buf :: "nat option \<Rightarrow> mbuf_store \<Rightarrow> mbuf_store option" where
  "mbuf_free_buf mb st =
     (case mb of None \<Rightarrow> Some st
      | Some a \<Rightarrow>
          do { b \<leftarrow> st a;
               let b = b\<lparr>refcount := refcount b - 1\<rparr>;
               Some (if refcount b \<le> 0 then st(a := None) else st(a \<mapsto> b)) })"

fun free_items :: "nat \<Rightarrow> mbuf_set \<Rightarrow> u32 \<Rightarrow> mbuf_store \<Rightarrow> mbuf_store option" where
  "free_items 0 ms i st = Some st"
| "free_items (Suc n) ms i st =
     do { item \<leftarrow> item_at ms (MBUF_INDEX (ms_head ms) i (ms_capacity ms));
          st \<leftarrow> mbuf_free_buf (mi_buffer item) st;
          free_items n ms (i + 1) st }"

definition mbuf_free :: "mbuf_set \<Rightarrow> mbuf_store \<Rightarrow> mbuf_store option" where
  "mbuf_free ms st = free_items (unat (ms_len ms)) ms 0 st"

text \<open>The result is the item, when one with an instance was found.\<close>

function mbuf_extract_item :: "mbuf_set \<Rightarrow> (mbuf_item option \<times> mbuf_set) option" where
  "mbuf_extract_item ms =
     (if ms_len ms \<noteq> 0 then
        do { item \<leftarrow> item_at ms (ms_head ms);
             let ms = ms\<lparr>ms_head := MBUF_INDEX (ms_head ms) 1 (ms_capacity ms), ms_len := ms_len ms - 1\<rparr>;
             if mi_instance item \<noteq> None then Some (Some item, ms) else mbuf_extract_item ms }
      else Some (None, ms))"
  by auto
termination
  by (relation "measure (unat \<circ> ms_len)") (auto simp: unat_minus_one unat_gt_0)

definition mbuf_append :: "mbuf_set \<Rightarrow> mbuf_item \<Rightarrow> mbuf_store \<Rightarrow> (mbuf_set \<times> mbuf_store) option" where
  "mbuf_append ms item st =
     do { ASSERT (ms_len ms < ms_capacity ms);
          let i = MBUF_INDEX (ms_head ms) (ms_len ms) (ms_capacity ms);
          _ \<leftarrow> item_at ms i;
          let ms = ms\<lparr>ms_array := (ms_array ms)[unat i := item], ms_len := ms_len ms + 1\<rparr>;
          let ms = (if ms_len ms > max_queued ms then ms\<lparr>max_queued := ms_len ms\<rparr> else ms);
          a \<leftarrow> mi_buffer item;
          b \<leftarrow> st a;
          Some (ms, st(a \<mapsto> b\<lparr>refcount := refcount b + 1\<rparr>)) }"

definition mbuf_add_item :: "mbuf_set \<Rightarrow> mbuf_item \<Rightarrow> mbuf_store \<Rightarrow> (mbuf_set \<times> mbuf_store) option" where
  "mbuf_add_item ms item st =
     (if ms_len ms = ms_capacity ms then
        do { (rm, ms) \<leftarrow> mbuf_extract_item ms;
             rm \<leftarrow> rm;
             st \<leftarrow> mbuf_free_buf (mi_buffer rm) st;
             mbuf_append ms item st }
      else mbuf_append ms item st)"

fun peek_items :: "nat \<Rightarrow> mbuf_set \<Rightarrow> u32 \<Rightarrow> nat option option" where
  "peek_items 0 ms i = Some None"
| "peek_items (Suc n) ms i =
     do { item \<leftarrow> item_at ms (MBUF_INDEX (ms_head ms) i (ms_capacity ms));
          if mi_instance item \<noteq> None then Some (mi_instance item) else peek_items n ms (i + 1) }"

definition mbuf_peek :: "mbuf_set \<Rightarrow> nat option option" where
  "mbuf_peek ms = (if ms_len ms \<noteq> 0 then peek_items (unat (ms_len ms)) ms 0 else Some None)"

fun deref_items :: "nat \<Rightarrow> mbuf_set \<Rightarrow> nat \<Rightarrow> u32 \<Rightarrow> mbuf_store \<Rightarrow> (mbuf_set \<times> mbuf_store) option" where
  "deref_items 0 ms mi i st = Some (ms, st)"
| "deref_items (Suc n) ms mi i st =
     do { let k = MBUF_INDEX (ms_head ms) i (ms_capacity ms);
          item \<leftarrow> item_at ms k;
          if mi_instance item = Some mi then
            do { st \<leftarrow> mbuf_free_buf (mi_buffer item) st;
                 let ms = ms\<lparr>ms_array := (ms_array ms)[unat k := item\<lparr>mi_buffer := None, mi_instance := None\<rparr>]\<rparr>;
                 deref_items n ms mi (i + 1) st }
          else deref_items n ms mi (i + 1) st }"

definition mbuf_dereference_instance :: "mbuf_set \<Rightarrow> nat \<Rightarrow> mbuf_store \<Rightarrow> (mbuf_set \<times> mbuf_store) option" where
  "mbuf_dereference_instance ms mi st = deref_items (unat (ms_len ms)) ms mi 0 st"

text \<open>
  The callers in \<open>multi.c\<close>. An instance is its address, with \<open>halt\<close> and its VLAN identifier in a list for the
  iteration over the instances; \<open>ready\<close> is \<open>multi_output_queue_ready\<close>. \<open>multi_get_queue\<close> returns the
  instance with the packet and its flags, which it hands to \<open>process_ip_header\<close> and \<open>encrypt_sign\<close>.
\<close>

definition MF_UNICAST :: u32 where "MF_UNICAST = 1"

definition multi_add_mbuf ::
  "(nat \<Rightarrow> bool) \<Rightarrow> nat \<Rightarrow> nat \<Rightarrow> mbuf_set \<times> mbuf_store \<Rightarrow> (mbuf_set \<times> mbuf_store) option" where
  "multi_add_mbuf ready mi mb s =
     (if ready mi then mbuf_add_item (fst s) \<lparr>mi_buffer = Some mb, mi_instance = Some mi\<rparr> (snd s) else Some s)"

definition multi_unicast ::
  "(nat \<Rightarrow> bool) \<Rightarrow> nat \<Rightarrow> bytes \<Rightarrow> buffer \<Rightarrow> nat \<Rightarrow> mbuf_set \<times> mbuf_store \<Rightarrow> (mbuf_set \<times> mbuf_store) option" where
  "multi_unicast ready mb fresh buf mi s =
     (if buf_len buf > 0 then
        do { let st = mbuf_alloc_buf mb fresh buf (snd s);
             let st = st(mb := map_option (mb_flags_update (\<lambda>_. MF_UNICAST)) (st mb));
             (ms, st) \<leftarrow> multi_add_mbuf ready mi mb (fst s, st);
             st \<leftarrow> mbuf_free_buf (Some mb) st;
             Some (ms, st) }
      else Some s)"

fun bcast_loop ::
  "(nat \<Rightarrow> bool) \<Rightarrow> nat \<Rightarrow> nat option \<Rightarrow> u16 \<Rightarrow> (nat \<times> bool \<times> u16) list \<Rightarrow> mbuf_set \<times> mbuf_store \<Rightarrow> (mbuf_set \<times> mbuf_store) option" where
  "bcast_loop ready mb sender vid [] s = Some s"
| "bcast_loop ready mb sender vid ((mi, halt, pvid) # r) s =
     (if Some mi \<noteq> sender \<and> \<not> halt then
        (if vid \<noteq> 0 \<and> vid \<noteq> pvid then bcast_loop ready mb sender vid r s
         else do { s \<leftarrow> multi_add_mbuf ready mi mb s; bcast_loop ready mb sender vid r s })
      else bcast_loop ready mb sender vid r s)"

definition multi_bcast ::
  "(nat \<Rightarrow> bool) \<Rightarrow> nat \<Rightarrow> bytes \<Rightarrow> buffer \<Rightarrow> nat option \<Rightarrow> u16 \<Rightarrow> (nat \<times> bool \<times> u16) list
   \<Rightarrow> mbuf_set \<times> mbuf_store \<Rightarrow> (mbuf_set \<times> mbuf_store) option" where
  "multi_bcast ready mb fresh buf sender vid instances s =
     (if buf_len buf > 0 then
        do { (ms, st) \<leftarrow> bcast_loop ready mb sender vid instances (fst s, mbuf_alloc_buf mb fresh buf (snd s));
             st \<leftarrow> mbuf_free_buf (Some mb) st;
             Some (ms, st) }
      else Some s)"

definition multi_get_queue ::
  "mbuf_set \<times> mbuf_store \<Rightarrow> ((nat \<times> buffer \<times> u32) option \<times> mbuf_set \<times> mbuf_store) option" where
  "multi_get_queue s =
     do { (r, ms) \<leftarrow> mbuf_extract_item (fst s);
          case r of None \<Rightarrow> Some (None, ms, snd s)
          | Some item \<Rightarrow>
              do { mi \<leftarrow> mi_instance item;
                   a \<leftarrow> mi_buffer item;
                   b \<leftarrow> snd s a;
                   st \<leftarrow> mbuf_free_buf (mi_buffer item) (snd s);
                   Some (Some (mi, mb_buf b, mb_flags b), ms, st) } }"

declare mbuf_extract_item.simps [simp del]

section \<open>The ring\<close>

definition ring_wf :: "mbuf_set \<Rightarrow> bool" where
  "ring_wf ms \<longleftrightarrow> (\<exists>k \<le> 31. unat (ms_capacity ms) = 2 ^ k) \<and> length (ms_array ms) = unat (ms_capacity ms)
     \<and> ms_head ms < ms_capacity ms \<and> ms_len ms \<le> ms_capacity ms"

definition ring_pos :: "mbuf_set \<Rightarrow> nat \<Rightarrow> nat" where
  "ring_pos ms i = (unat (ms_head ms) + i) mod unat (ms_capacity ms)"

definition ring_items :: "mbuf_set \<Rightarrow> mbuf_item list" where
  "ring_items ms = map (\<lambda>i. ms_array ms ! ring_pos ms i) [0..<unat (ms_len ms)]"

lemma and_pow2: "unat c = 2 ^ k \<Longrightarrow> unat (x AND (c - 1)) = unat x mod unat c" for x c :: u32
proof -
  assume c: "unat c = 2 ^ k"
  have "c = word_of_nat (2 ^ k)" by (simp flip: c)
  then have "c - 1 = mask k" by (simp add: mask_eq_exp_minus_1)
  then have "x AND (c - 1) = take_bit k x" by (simp only: take_bit_eq_mask)
  moreover have "unat (take_bit k x) = take_bit k (unat x)" by (rule unsigned_take_bit_eq)
  ultimately show ?thesis by (simp only: c take_bit_eq_mod)
qed

lemma MBUF_INDEX_pos:
  assumes "ring_wf ms" "unat i \<le> unat (ms_capacity ms)"
  shows "unat (MBUF_INDEX (ms_head ms) i (ms_capacity ms)) = ring_pos ms (unat i)"
proof -
  obtain k where k: "k \<le> 31" "unat (ms_capacity ms) = 2 ^ k" using assms(1) by (auto simp: ring_wf_def)
  have "(2 ^ k :: nat) \<le> 2 ^ 31" using k(1) by (intro power_increasing) auto
  then have "unat (ms_head ms) + unat i < 2 ^ 32"
    using assms k(2) by (auto simp: ring_wf_def word_less_nat_alt)
  then have "unat (ms_head ms + i) = unat (ms_head ms) + unat i" by (simp add: unat_word_ariths)
  then show ?thesis by (simp add: MBUF_INDEX_def and_pow2[OF k(2)] ring_pos_def)
qed

lemma ring_pos_less: "ring_wf ms \<Longrightarrow> ring_pos ms i < length (ms_array ms)"
  unfolding ring_wf_def ring_pos_def by (metis mod_less_divisor not_gr_zero not_less_zero word_less_nat_alt)

lemma item_at_ring:
  assumes "ring_wf ms" "unat i \<le> unat (ms_capacity ms)"
  shows "item_at ms (MBUF_INDEX (ms_head ms) i (ms_capacity ms)) = Some (ms_array ms ! ring_pos ms (unat i))"
  using MBUF_INDEX_pos[OF assms] ring_pos_less[OF assms(1)] by (simp add: item_at_def)

lemma ring_pos_inj:
  assumes "i < unat (ms_capacity ms)" "j < unat (ms_capacity ms)" "ring_pos ms i = ring_pos ms j"
  shows "i = j"
proof -
  let ?c = "unat (ms_capacity ms)" and ?h = "unat (ms_head ms)"
  have "int (?h + i) mod int ?c = int (?h + j) mod int ?c"
    using assms(3) unfolding ring_pos_def by (metis of_nat_mod)
  then have "(int (?h + i) - int ?h) mod int ?c = (int (?h + j) - int ?h) mod int ?c" by (rule mod_diff_cong) (rule refl)
  then have "int (i mod ?c) = int (j mod ?c)" by (simp add: of_nat_mod)
  then show ?thesis using assms(1,2) by simp
qed

lemma length_ring_items [simp]: "length (ring_items ms) = unat (ms_len ms)"
  by (simp add: ring_items_def)

lemma ring_items_nth: "i < unat (ms_len ms) \<Longrightarrow> ring_items ms ! i = ms_array ms ! ring_pos ms i"
  by (simp add: ring_items_def)

text \<open>Taking the first item.\<close>

definition ring_pop :: "mbuf_set \<Rightarrow> mbuf_set" where
  "ring_pop ms = ms\<lparr>ms_head := MBUF_INDEX (ms_head ms) 1 (ms_capacity ms), ms_len := ms_len ms - 1\<rparr>"

lemma ring_pop:
  assumes "ring_wf ms" "ms_len ms \<noteq> 0"
  shows "item_at ms (ms_head ms) = Some (hd (ring_items ms))" "ring_wf (ring_pop ms)"
    "ring_items (ring_pop ms) = tl (ring_items ms)" "unat (ms_len (ring_pop ms)) = unat (ms_len ms) - 1"
proof -
  have l: "0 < unat (ms_len ms)" using assms(2) by (simp add: unat_gt_0)
  have h: "unat (ms_head ms) < unat (ms_capacity ms)" using assms(1) by (simp add: ring_wf_def word_less_nat_alt)
  have p0: "ring_pos ms 0 = unat (ms_head ms)" using h by (simp add: ring_pos_def)
  have "hd (ring_items ms) = ring_items ms ! 0" using l by (simp add: hd_conv_nth flip: length_greater_0_conv)
  then show "item_at ms (ms_head ms) = Some (hd (ring_items ms))"
    using ring_items_nth[OF l] p0 ring_pos_less[OF assms(1), of 0] by (simp add: item_at_def)
  show len: "unat (ms_len (ring_pop ms)) = unat (ms_len ms) - 1" using assms(2) by (simp add: ring_pop_def unat_minus_one)
  have c: "unat (1 :: u32) \<le> unat (ms_capacity ms)" using h by simp
  have hd: "unat (ms_head (ring_pop ms)) = ring_pos ms 1"
    using MBUF_INDEX_pos[OF assms(1) c] by (simp add: ring_pop_def)
  show "ring_wf (ring_pop ms)"
    using assms(1) hd len ring_pos_less[OF assms(1), of 1]
    by (auto simp: ring_wf_def word_less_nat_alt word_le_nat_alt ring_pop_def)
  have "ring_pos (ring_pop ms) i = ring_pos ms (Suc i)" for i
    unfolding ring_pos_def[of "ring_pop ms"] hd by (simp add: ring_pop_def ring_pos_def mod_simps)
  then show "ring_items (ring_pop ms) = tl (ring_items ms)"
    unfolding ring_items_def len by (intro nth_equalityI) (auto simp: nth_tl ring_pop_def)
qed

text \<open>What the extraction skips: the items whose instance was dereferenced.\<close>

abbreviation dead :: "mbuf_item \<Rightarrow> bool" where
  "dead item \<equiv> mi_instance item = None"

lemma mbuf_extract_item_ring:
  assumes "ring_wf ms"
  shows "\<exists>ms'. mbuf_extract_item ms = Some (find (\<lambda>i. \<not> dead i) (ring_items ms), ms') \<and> ring_wf ms'
    \<and> ring_items ms' = tl (dropWhile dead (ring_items ms)) \<and> ms_capacity ms' = ms_capacity ms \<and> max_queued ms' = max_queued ms"
  using assms
proof (induction ms rule: mbuf_extract_item.induct)
  case (1 ms)
  show ?case
  proof (cases "ms_len ms = 0")
    case True
    then have "ring_items ms = []" by (simp add: ring_items_def)
    then show ?thesis using True 1(2) by (simp add: mbuf_extract_item.simps[of ms])
  next
    case False
    note p = ring_pop[OF 1(2) False]
    obtain x xs where xs: "ring_items ms = x # xs"
      using False by (cases "ring_items ms") (auto simp: ring_items_def unat_eq_0)
    have e: "mbuf_extract_item ms = (if mi_instance x \<noteq> None then Some (Some x, ring_pop ms) else mbuf_extract_item (ring_pop ms))"
      using False p(1) xs by (subst mbuf_extract_item.simps) (simp add: ring_pop_def)
    show ?thesis
    proof (cases "dead x")
      case True
      have "\<exists>ms'. mbuf_extract_item (ring_pop ms) = Some (find (\<lambda>i. \<not> dead i) (ring_items (ring_pop ms)), ms') \<and> ring_wf ms'
        \<and> ring_items ms' = tl (dropWhile dead (ring_items (ring_pop ms)))
        \<and> ms_capacity ms' = ms_capacity (ring_pop ms) \<and> max_queued ms' = max_queued (ring_pop ms)"
        using 1(1)[of "hd (ring_items ms)" "ring_pop ms"] False p True xs by (simp add: ring_pop_def)
      then show ?thesis using True e xs p(3) by (simp add: ring_pop_def)
    next
      case False
      then show ?thesis using e xs p by (auto simp: ring_pop_def)
    qed
  qed
qed

section \<open>References\<close>

definition refs :: "mbuf_item list \<Rightarrow> nat \<Rightarrow> nat" where
  "refs xs a = length (filter (\<lambda>x. mi_buffer x = Some a) xs)"

lemma refs_simps [simp]:
  "refs [] a = 0" "refs (x # xs) a = (if mi_buffer x = Some a then 1 else 0) + refs xs a"
  "refs (xs @ ys) a = refs xs a + refs ys a"
  by (simp_all add: refs_def)

text \<open>
  The reference counts are right when a cell exists exactly for the buffers in use, and counts the items that refer
  to it together with the references \<open>ext\<close> that callers hold.
\<close>

fun cell_ok :: "mbuf_buffer option \<Rightarrow> nat \<Rightarrow> bool" where
  "cell_ok None k = (k = 0)"
| "cell_ok (Some b) k = (0 < k \<and> refcount b = int k)"

definition counted :: "mbuf_store \<Rightarrow> (nat \<Rightarrow> nat) \<Rightarrow> bool" where
  "counted st n \<longleftrightarrow> (\<forall>a. cell_ok (st a) (n a))"

definition item_ok :: "mbuf_item \<Rightarrow> bool" where
  "item_ok x \<longleftrightarrow> (mi_buffer x = None) = (mi_instance x = None)"

definition mbuf_ok :: "mbuf_set \<Rightarrow> mbuf_store \<Rightarrow> (nat \<Rightarrow> nat) \<Rightarrow> bool" where
  "mbuf_ok ms st ext \<longleftrightarrow> ring_wf ms \<and> (\<forall>x \<in> set (ring_items ms). item_ok x) \<and> counted st (\<lambda>a. refs (ring_items ms) a + ext a)"

lemma counted_Some: "counted st n \<Longrightarrow> 0 < n a \<Longrightarrow> \<exists>b. st a = Some b \<and> refcount b = int (n a)"
  unfolding counted_def by (metis cell_ok.simps not_gr_zero option.exhaust)

lemma counted_upd: "counted st n \<Longrightarrow> cell_ok c k \<Longrightarrow> counted (st(a := c)) (n(a := k))"
  by (simp add: counted_def)

lemma counted_free:
  assumes "counted st n" "0 < n a"
  shows "\<exists>st'. mbuf_free_buf (Some a) st = Some st' \<and> counted st' (n(a := n a - 1))"
proof -
  obtain b where b: "st a = Some b" "refcount b = int (n a)" using counted_Some[OF assms] by blast
  then show ?thesis
    using assms(2) counted_upd[OF assms(1), of None "n a - 1" a]
      counted_upd[OF assms(1), of "Some (b\<lparr>refcount := refcount b - 1\<rparr>)" "n a - 1" a]
    by (auto simp: mbuf_free_buf_def Let_def)
qed

lemma counted_use:
  assumes "counted st n" "0 < n a"
  shows "\<exists>b. st a = Some b \<and> counted (st(a \<mapsto> b\<lparr>refcount := refcount b + 1\<rparr>)) (n(a := n a + 1))"
  using counted_Some[OF assms] assms by (auto intro!: counted_upd)

lemma counted_alloc: "counted st n \<Longrightarrow> counted (mbuf_alloc_buf a fresh buf st) (n(a := 1))"
  unfolding mbuf_alloc_buf_def by (rule counted_upd) simp_all

lemma counted_cong: "counted st n \<Longrightarrow> (\<And>a. m a = n a) \<Longrightarrow> counted st m"
  by (simp add: counted_def)

section \<open>Adding an item\<close>

definition ring_push :: "mbuf_set \<Rightarrow> mbuf_item \<Rightarrow> mbuf_set" where
  "ring_push ms item =
     (let i = MBUF_INDEX (ms_head ms) (ms_len ms) (ms_capacity ms);
          ms = ms\<lparr>ms_array := (ms_array ms)[unat i := item], ms_len := ms_len ms + 1\<rparr>
      in if ms_len ms > max_queued ms then ms\<lparr>max_queued := ms_len ms\<rparr> else ms)"

lemma ring_push:
  assumes "ring_wf ms" "ms_len ms < ms_capacity ms"
  shows "ring_wf (ring_push ms item)" "ring_items (ring_push ms item) = ring_items ms @ [item]"
    "ms_capacity (ring_push ms item) = ms_capacity ms"
proof -
  let ?ms = "ring_push ms item"
  have lt: "unat (ms_len ms) < unat (ms_capacity ms)" using assms(2) by (simp add: word_less_nat_alt)
  have len: "unat (ms_len ?ms) = Suc (unat (ms_len ms))"
    using unat_plus_one[OF assms(2)] by (simp add: ring_push_def Let_def)
  have i: "unat (MBUF_INDEX (ms_head ms) (ms_len ms) (ms_capacity ms)) = ring_pos ms (unat (ms_len ms))"
    using MBUF_INDEX_pos[OF assms(1)] lt by simp
  have arr: "ms_array ?ms = (ms_array ms)[ring_pos ms (unat (ms_len ms)) := item]" "ms_head ?ms = ms_head ms"
    unfolding ring_push_def i Let_def by simp_all
  show cap: "ms_capacity ?ms = ms_capacity ms" by (simp add: ring_push_def Let_def)
  show "ring_wf ?ms" using assms(1) lt len arr cap by (simp add: ring_wf_def word_le_nat_alt)
  have pos: "ring_pos ?ms = ring_pos ms" by (rule ext) (simp add: ring_pos_def arr cap)
  have "ring_items ?ms ! j = (ring_items ms @ [item]) ! j" if j: "j \<le> unat (ms_len ms)" for j
  proof (cases "j = unat (ms_len ms)")
    case True
    then show ?thesis using ring_pos_less[OF assms(1)] len by (simp add: ring_items_nth pos arr nth_append)
  next
    case False
    then have "j < unat (ms_len ms)" using j by simp
    moreover have "ring_pos ms j \<noteq> ring_pos ms (unat (ms_len ms))" using ring_pos_inj[of j ms "unat (ms_len ms)"] lt calculation by auto
    ultimately show ?thesis using len by (simp add: ring_items_nth pos arr nth_append)
  qed
  then show "ring_items ?ms = ring_items ms @ [item]" by (intro nth_equalityI) (auto simp: len)
qed

section \<open>The operations keep the invariant\<close>

lemma refs_dead: "\<forall>x \<in> set xs. item_ok x \<Longrightarrow> refs (dropWhile dead xs) a = refs xs a"
  by (induction xs) (auto simp: item_ok_def)

lemma find_dropWhile: "find (\<lambda>i. \<not> dead i) xs = (case dropWhile dead xs of [] \<Rightarrow> None | x # _ \<Rightarrow> Some x)"
  by (induction xs) auto

lemma dropWhile_live: "dropWhile dead xs = x # r \<Longrightarrow> \<not> dead x"
  by (induction xs) (auto split: if_splits)

text \<open>What one extraction does: nothing, or the first live item with the reference it holds.\<close>

lemma extract_cases:
  assumes "mbuf_ok ms st ext"
  obtains
    (empty) ms' where "mbuf_extract_item ms = Some (None, ms')" "dropWhile dead (ring_items ms) = []"
      "mbuf_ok ms' st ext" "ring_items ms' = []" "ms_capacity ms' = ms_capacity ms"
  | (item) ms' x r a mi where "mbuf_extract_item ms = Some (Some x, ms')" "dropWhile dead (ring_items ms) = x # r"
      "mi_buffer x = Some a" "mi_instance x = Some mi" "mbuf_ok ms' st (ext(a := ext a + 1))" "ring_items ms' = r"
      "ms_capacity ms' = ms_capacity ms"
proof -
  have wf: "ring_wf ms" and io: "\<forall>x \<in> set (ring_items ms). item_ok x"
    and c: "counted st (\<lambda>a. refs (ring_items ms) a + ext a)"
    using assms by (auto simp: mbuf_ok_def)
  obtain ms' where e: "mbuf_extract_item ms = Some (find (\<lambda>i. \<not> dead i) (ring_items ms), ms')" "ring_wf ms'"
    "ring_items ms' = tl (dropWhile dead (ring_items ms))" "ms_capacity ms' = ms_capacity ms"
    using mbuf_extract_item_ring[OF wf] by blast
  have io': "\<forall>x \<in> set (dropWhile dead (ring_items ms)). item_ok x" using io by (auto dest: set_dropWhileD)
  note c' = c[folded refs_dead[OF io]]
  show ?thesis
  proof (cases "dropWhile dead (ring_items ms)")
    case Nil
    have "find (\<lambda>i. \<not> dead i) (ring_items ms) = None" using find_dropWhile[of "ring_items ms"] unfolding Nil by simp
    then have 1: "mbuf_extract_item ms = Some (None, ms')" using e(1) by simp
    have items: "ring_items ms' = []" using e(3) Nil by simp
    have "mbuf_ok ms' st ext" unfolding mbuf_ok_def items using e(2) c' Nil by simp
    then show ?thesis by (rule empty[OF 1 Nil _ items e(4)])
  next
    case (Cons x r)
    have "\<not> dead x" "item_ok x" using dropWhile_live[OF Cons] io' Cons by simp_all
    then obtain a mi where x: "mi_buffer x = Some a" "mi_instance x = Some mi" by (auto simp: item_ok_def)
    have cr: "counted st (\<lambda>b. refs r b + (ext(a := ext a + 1)) b)"
      by (rule counted_cong[OF c']) (auto simp: Cons x)
    have "\<forall>x \<in> set r. item_ok x" using io' Cons by simp
    with cr have ok: "mbuf_ok ms' st (ext(a := ext a + 1))" unfolding mbuf_ok_def e(3) Cons list.sel using e(2) by blast
    have "mbuf_extract_item ms = Some (Some x, ms')" using e(1) find_dropWhile[of "ring_items ms"] Cons by simp
    moreover have "ring_items ms' = r" using e(3) Cons by simp
    ultimately show ?thesis by (rule item[OF _ Cons x ok _ e(4)])
  qed
qed

lemma mbuf_free_buf_ok:
  assumes "mbuf_ok ms st ext" "0 < ext a"
  shows "\<exists>st'. mbuf_free_buf (Some a) st = Some st' \<and> mbuf_ok ms st' (ext(a := ext a - 1))"
proof -
  obtain st' where s: "mbuf_free_buf (Some a) st = Some st'"
    "counted st' ((\<lambda>b. refs (ring_items ms) b + ext b)(a := refs (ring_items ms) a + ext a - 1))"
    using assms counted_free[of st "\<lambda>b. refs (ring_items ms) b + ext b" a] by (auto simp: mbuf_ok_def)
  have "counted st' (\<lambda>b. refs (ring_items ms) b + (ext(a := ext a - 1)) b)"
    by (rule counted_cong[OF s(2)]) (use assms(2) in auto)
  then show ?thesis using s(1) assms(1) by (auto simp: mbuf_ok_def)
qed

text \<open>Adding an item whose caller holds a reference to its buffer. A full queue loses its first live item.\<close>

lemma ring_len_cap: "ring_wf ms \<Longrightarrow> ms_len ms = ms_capacity ms \<longleftrightarrow> length (ring_items ms) = unat (ms_capacity ms)"
  by (simp add: word_unat_eq_iff)

lemma ring_space: "ring_wf ms \<Longrightarrow> length (ring_items ms) < unat (ms_capacity ms) \<Longrightarrow> ms_len ms < ms_capacity ms"
  by (simp add: word_less_nat_alt)

definition make_room :: "nat \<Rightarrow> mbuf_item list \<Rightarrow> mbuf_item list" where
  "make_room cap xs = (if length xs = cap then tl (dropWhile dead xs) else xs)"

lemma push_ok:
  assumes "mbuf_ok ms st ext" "length (ring_items ms) < unat (ms_capacity ms)" "0 < ext a"
  shows "\<exists>ms' st'. mbuf_append ms \<lparr>mi_buffer = Some a, mi_instance = Some mi\<rparr> st = Some (ms', st')
      \<and> mbuf_ok ms' st' ext \<and> ms_capacity ms' = ms_capacity ms
      \<and> ring_items ms' = ring_items ms @ [\<lparr>mi_buffer = Some a, mi_instance = Some mi\<rparr>]"
proof -
  let ?x = "\<lparr>mi_buffer = Some a, mi_instance = Some mi\<rparr>"
  have wf: "ring_wf ms" using assms(1) by (simp add: mbuf_ok_def)
  note lt = ring_space[OF wf assms(2)]
  have cap: "unat (ms_len ms) \<le> unat (ms_capacity ms)" using assms(2) by simp
  obtain b where b: "st a = Some b" "counted (st(a \<mapsto> b\<lparr>refcount := refcount b + 1\<rparr>))
      ((\<lambda>c. refs (ring_items ms) c + ext c)(a := refs (ring_items ms) a + ext a + 1))"
    using counted_use[of st "\<lambda>c. refs (ring_items ms) c + ext c" a] assms(1,3) by (auto simp: mbuf_ok_def)
  have "counted (st(a \<mapsto> b\<lparr>refcount := refcount b + 1\<rparr>)) (\<lambda>c. refs (ring_items ms @ [?x]) c + ext c)"
    by (rule counted_cong[OF b(2)]) auto
  then have "mbuf_ok (ring_push ms ?x) (st(a \<mapsto> b\<lparr>refcount := refcount b + 1\<rparr>)) ext"
    using assms(1) ring_push[OF wf lt, of ?x] by (auto simp: mbuf_ok_def item_ok_def)
  then show ?thesis
    using ring_push(2,3)[OF wf lt, of ?x] lt item_at_ring[OF wf cap] b(1) by (simp add: mbuf_append_def ring_push_def Let_def)
qed

lemma mbuf_add_item_ok:
  assumes "mbuf_ok ms st ext" "0 < ext a"
  shows "if length (ring_items ms) = unat (ms_capacity ms) \<and> (\<forall>x \<in> set (ring_items ms). dead x)
    then mbuf_add_item ms \<lparr>mi_buffer = Some a, mi_instance = Some mi\<rparr> st = None
    else \<exists>ms' st'. mbuf_add_item ms \<lparr>mi_buffer = Some a, mi_instance = Some mi\<rparr> st = Some (ms', st') \<and> mbuf_ok ms' st' ext
      \<and> ms_capacity ms' = ms_capacity ms
      \<and> ring_items ms' = make_room (unat (ms_capacity ms)) (ring_items ms) @ [\<lparr>mi_buffer = Some a, mi_instance = Some mi\<rparr>]"
proof -
  have wf: "ring_wf ms" using assms(1) by (simp add: mbuf_ok_def)
  show ?thesis
  proof (cases "length (ring_items ms) = unat (ms_capacity ms)")
    case False
    then have lt: "length (ring_items ms) < unat (ms_capacity ms)" using wf by (simp add: ring_wf_def word_le_nat_alt)
    show ?thesis
      using push_ok[OF assms(1) lt assms(2), of mi] False ring_len_cap[OF wf]
      by (simp add: mbuf_add_item_def make_room_def)
  next
    case True
    then have full: "ms_len ms = ms_capacity ms" using ring_len_cap[OF wf] by simp
    show ?thesis
    proof (cases rule: extract_cases[OF assms(1)])
      case (1 ms')
      then have "\<forall>x \<in> set (ring_items ms). dead x" by simp
      then show ?thesis using True 1(1) full by (simp add: mbuf_add_item_def)
    next
      case (2 ms' x r b bi)
      then have "x \<in> set (ring_items ms)" by (metis list.set_intros(1) set_dropWhileD)
      then have some: "\<not> (\<forall>x \<in> set (ring_items ms). dead x)" using 2(4) by auto
      obtain st' where f: "mbuf_free_buf (Some b) st = Some st'" "mbuf_ok ms' st' ext"
        using mbuf_free_buf_ok[OF 2(5), of b] by auto
      have "length (dropWhile dead (ring_items ms)) \<le> length (ring_items ms)" by (rule length_dropWhile_le)
      then have lt: "length (ring_items ms') < unat (ms_capacity ms')" using 2(2,6,7) True by simp
      show ?thesis
        using push_ok[OF f(2) lt assms(2), of mi] some True full f(1) 2
        by (auto simp: mbuf_add_item_def make_room_def)
    qed
  qed
qed

section \<open>Removing an instance\<close>

definition kill :: "nat \<Rightarrow> mbuf_item \<Rightarrow> mbuf_item" where
  "kill mi x = (if mi_instance x = Some mi then x\<lparr>mi_buffer := None, mi_instance := None\<rparr> else x)"

lemma ring_update:
  assumes "ring_wf ms" "i < unat (ms_len ms)"
  shows "ring_wf (ms\<lparr>ms_array := (ms_array ms)[ring_pos ms i := x]\<rparr>)"
    "ring_items (ms\<lparr>ms_array := (ms_array ms)[ring_pos ms i := x]\<rparr>) = (ring_items ms)[i := x]"
proof -
  let ?ms = "ms\<lparr>ms_array := (ms_array ms)[ring_pos ms i := x]\<rparr>"
  show "ring_wf ?ms" using assms(1) by (simp add: ring_wf_def)
  have pos: "ring_pos ?ms = ring_pos ms" by (rule ext) (simp add: ring_pos_def)
  have c: "unat (ms_len ms) \<le> unat (ms_capacity ms)" using assms(1) by (simp add: ring_wf_def word_le_nat_alt)
  have "ring_items ?ms ! j = (ring_items ms)[i := x] ! j" if j: "j < unat (ms_len ms)" for j
  proof (cases "j = i")
    case True
    then show ?thesis using j ring_pos_less[OF assms(1)] by (simp add: ring_items_nth pos)
  next
    case False
    then have "ring_pos ms j \<noteq> ring_pos ms i" using ring_pos_inj[of j ms i] j assms(2) c by auto
    then show ?thesis using False j by (simp add: ring_items_nth pos)
  qed
  then show "ring_items ?ms = (ring_items ms)[i := x]" by (intro nth_equalityI) auto
qed

lemma refs_update:
  "i < length xs \<Longrightarrow> refs (xs[i := x]) a + (if mi_buffer (xs ! i) = Some a then 1 else 0) = refs xs a + (if mi_buffer x = Some a then 1 else 0)"
proof (induction xs arbitrary: i)
  case (Cons y ys)
  then show ?case by (cases i) auto
qed simp

lemma kill_ok:
  assumes "mbuf_ok ms st ext" "i < unat (ms_len ms)" "mi_instance (ring_items ms ! i) = Some mi"
  shows "\<exists>st'. mbuf_free_buf (mi_buffer (ring_items ms ! i)) st = Some st'
    \<and> mbuf_ok (ms\<lparr>ms_array := (ms_array ms)[ring_pos ms i := kill mi (ring_items ms ! i)]\<rparr>) st' ext"
proof -
  let ?x = "ring_items ms ! i"
  have wf: "ring_wf ms" and io: "\<forall>x \<in> set (ring_items ms). item_ok x" using assms(1) by (auto simp: mbuf_ok_def)
  have "?x \<in> set (ring_items ms)" using assms(2) by simp
  then obtain a where a: "mi_buffer ?x = Some a" using io assms(3) unfolding item_ok_def by force
  have r: "refs ((ring_items ms)[i := kill mi ?x]) b + (if b = a then 1 else 0) = refs (ring_items ms) b" for b
    using refs_update[of i "ring_items ms" "kill mi ?x" b] assms(2,3) a by (auto simp: kill_def split: if_splits)
  obtain st' where s: "mbuf_free_buf (Some a) st = Some st'"
    "counted st' ((\<lambda>b. refs (ring_items ms) b + ext b)(a := refs (ring_items ms) a + ext a - 1))"
    using assms(1) counted_free[of st "\<lambda>b. refs (ring_items ms) b + ext b" a] r[of a] by (auto simp: mbuf_ok_def)
  have "counted st' (\<lambda>b. refs ((ring_items ms)[i := kill mi ?x]) b + ext b)"
    by (rule counted_cong[OF s(2)]) (use r in \<open>auto simp: r[symmetric] split: if_splits\<close>)
  moreover have "item_ok (kill mi ?x)" using assms(3) by (simp add: kill_def item_ok_def)
  then have "\<forall>y \<in> set ((ring_items ms)[i := kill mi ?x]). item_ok y"
    using io set_update_subset_insert[of "ring_items ms" i "kill mi ?x"] by blast
  ultimately show ?thesis unfolding mbuf_ok_def using s(1) a ring_update[OF wf assms(2)] by simp
qed

lemma deref_items_ok:
  "mbuf_ok ms st ext \<Longrightarrow> i + n = unat (ms_len ms) \<Longrightarrow>
   \<exists>ms' st'. deref_items n ms mi (of_nat i) st = Some (ms', st') \<and> mbuf_ok ms' st' ext \<and> ms_capacity ms' = ms_capacity ms
     \<and> ring_items ms' = take i (ring_items ms) @ map (kill mi) (drop i (ring_items ms))"
proof (induction n arbitrary: i ms st)
  case 0
  then show ?case by simp
next
  case (Suc n)
  have wf: "ring_wf ms" using Suc.prems(1) by (simp add: mbuf_ok_def)
  have i: "i < unat (ms_len ms)" using Suc.prems(2) by simp
  have c: "unat (ms_len ms) \<le> unat (ms_capacity ms)" using wf by (simp add: ring_wf_def word_le_nat_alt)
  have "unat (ms_len ms) < 2 ^ LENGTH(32)" by (rule unsigned_less)
  then have "i < 2 ^ LENGTH(32)" using i by linarith
  then have u: "unat (of_nat i :: u32) = i" by (simp add: unat_of_nat_small)
  have at: "item_at ms (MBUF_INDEX (ms_head ms) (of_nat i) (ms_capacity ms)) = Some (ring_items ms ! i)"
    "unat (MBUF_INDEX (ms_head ms) (of_nat i) (ms_capacity ms)) = ring_pos ms i"
    using item_at_ring[OF wf, of "of_nat i"] MBUF_INDEX_pos[OF wf, of "of_nat i"] u i c by (simp_all add: ring_items_nth)
  have nxt: "(of_nat i :: u32) + 1 = of_nat (Suc i)" by simp
  have split: "drop i (ring_items ms) = ring_items ms ! i # drop (Suc i) (ring_items ms)"
    "take (Suc i) (ring_items ms) = take i (ring_items ms) @ [ring_items ms ! i]"
    using i by (simp_all add: Cons_nth_drop_Suc take_Suc_conv_app_nth)
  show ?case
  proof (cases "mi_instance (ring_items ms ! i) = Some mi")
    case False
    then show ?thesis
      using Suc.IH[OF Suc.prems(1), of "Suc i"] Suc.prems(2) at split by (simp add: kill_def Let_def add.commute)
  next
    case True
    let ?ms = "ms\<lparr>ms_array := (ms_array ms)[ring_pos ms i := kill mi (ring_items ms ! i)]\<rparr>"
    obtain st' where s: "mbuf_free_buf (mi_buffer (ring_items ms ! i)) st = Some st'" "mbuf_ok ?ms st' ext"
      using kill_ok[OF Suc.prems(1) i True] by blast
    have "Suc i + n = unat (ms_len ?ms)" using Suc.prems(2) by simp
    from Suc.IH[OF s(2) this] obtain ms' st'' where r: "deref_items n ?ms mi (of_nat (Suc i)) st' = Some (ms', st'')"
      "mbuf_ok ms' st'' ext" "ms_capacity ms' = ms_capacity ms"
      "ring_items ms' = take (Suc i) (ring_items ?ms) @ map (kill mi) (drop (Suc i) (ring_items ?ms))"
      by auto
    have it: "ring_items ?ms = (ring_items ms)[i := kill mi (ring_items ms ! i)]" by (rule ring_update(2)[OF wf i])
    have "deref_items (Suc n) ms mi (of_nat i) st = deref_items n ?ms mi (of_nat (Suc i)) st'"
      using True s(1) at by (simp add: Let_def kill_def add.commute)
    moreover have "ring_items ms' = take i (ring_items ms) @ map (kill mi) (drop i (ring_items ms))"
      unfolding r(4) it split using i by (simp add: take_Suc_conv_app_nth)
    ultimately show ?thesis using r(1-3) by auto
  qed
qed

lemma mbuf_dereference_ok:
  assumes "mbuf_ok ms st ext"
  shows "\<exists>ms' st'. mbuf_dereference_instance ms mi st = Some (ms', st') \<and> mbuf_ok ms' st' ext \<and> ms_capacity ms' = ms_capacity ms
    \<and> ring_items ms' = map (kill mi) (ring_items ms)"
  using deref_items_ok[OF assms, of 0 "unat (ms_len ms)" mi] by (simp add: mbuf_dereference_instance_def)

lemma peek_items_ring:
  "ring_wf ms \<Longrightarrow> i + n = unat (ms_len ms) \<Longrightarrow>
     peek_items n ms (of_nat i) = Some (case find (\<lambda>x. \<not> dead x) (drop i (ring_items ms)) of None \<Rightarrow> None | Some x \<Rightarrow> mi_instance x)"
proof (induction n arbitrary: i)
  case 0
  then show ?case by simp
next
  case (Suc n)
  have i: "i < unat (ms_len ms)" using Suc.prems(2) by simp
  have c: "unat (ms_len ms) \<le> unat (ms_capacity ms)" using Suc.prems(1) by (simp add: ring_wf_def word_le_nat_alt)
  have "unat (ms_len ms) < 2 ^ LENGTH(32)" by (rule unsigned_less)
  then have "i < 2 ^ LENGTH(32)" using i by linarith
  then have u: "unat (of_nat i :: u32) = i" by (simp add: unat_of_nat_small)
  have "item_at ms (MBUF_INDEX (ms_head ms) (of_nat i) (ms_capacity ms)) = Some (ring_items ms ! i)"
    using item_at_ring[OF Suc.prems(1), of "of_nat i"] u i c by (simp add: ring_items_nth)
  moreover have "drop i (ring_items ms) = ring_items ms ! i # drop (Suc i) (ring_items ms)" using i by (simp add: Cons_nth_drop_Suc)
  ultimately show ?case using Suc.IH[of "Suc i"] Suc.prems by (simp add: add.commute)
qed

lemma mbuf_peek_ring:
  assumes "ring_wf ms"
  shows "mbuf_peek ms = Some (case find (\<lambda>x. \<not> dead x) (ring_items ms) of None \<Rightarrow> None | Some x \<Rightarrow> mi_instance x)"
proof (cases "ms_len ms = 0")
  case True
  then have "ring_items ms = []" by (simp add: ring_items_def)
  then show ?thesis using True by (simp add: mbuf_peek_def)
next
  case False
  then show ?thesis using peek_items_ring[OF assms, of 0 "unat (ms_len ms)"] by (simp add: mbuf_peek_def)
qed

lemma free_items_ok:
  "counted st (\<lambda>a. refs (drop i (ring_items ms)) a + ext a) \<Longrightarrow> i + n = unat (ms_len ms) \<Longrightarrow> ring_wf ms \<Longrightarrow>
   \<exists>st'. free_items n ms (of_nat i) st = Some st' \<and> counted st' ext"
proof (induction n arbitrary: i st)
  case 0
  then show ?case by simp
next
  case (Suc n)
  have i: "i < unat (ms_len ms)" using Suc.prems(2) by simp
  have c: "unat (ms_len ms) \<le> unat (ms_capacity ms)" using Suc.prems(3) by (simp add: ring_wf_def word_le_nat_alt)
  have "unat (ms_len ms) < 2 ^ LENGTH(32)" by (rule unsigned_less)
  then have "i < 2 ^ LENGTH(32)" using i by linarith
  then have u: "unat (of_nat i :: u32) = i" by (simp add: unat_of_nat_small)
  have at: "item_at ms (MBUF_INDEX (ms_head ms) (of_nat i) (ms_capacity ms)) = Some (ring_items ms ! i)"
    using item_at_ring[OF Suc.prems(3), of "of_nat i"] u i c by (simp add: ring_items_nth)
  have d: "drop i (ring_items ms) = ring_items ms ! i # drop (Suc i) (ring_items ms)" using i by (simp add: Cons_nth_drop_Suc)
  have "\<exists>st'. mbuf_free_buf (mi_buffer (ring_items ms ! i)) st = Some st' \<and> counted st' (\<lambda>a. refs (drop (Suc i) (ring_items ms)) a + ext a)"
  proof (cases "mi_buffer (ring_items ms ! i)")
    case None
    then show ?thesis using Suc.prems(1) d by (simp add: mbuf_free_buf_def)
  next
    case (Some a)
    obtain st' where s: "mbuf_free_buf (Some a) st = Some st'" "counted st' ((\<lambda>a. refs (drop i (ring_items ms)) a + ext a)(a := refs (drop i (ring_items ms)) a + ext a - 1))"
      using counted_free[OF Suc.prems(1), of a] Some d by auto
    have "counted st' (\<lambda>a. refs (drop (Suc i) (ring_items ms)) a + ext a)"
      by (rule counted_cong[OF s(2)]) (auto simp: d Some)
    then show ?thesis using s(1) Some by simp
  qed
  then obtain st' where s: "mbuf_free_buf (mi_buffer (ring_items ms ! i)) st = Some st'"
    "counted st' (\<lambda>a. refs (drop (Suc i) (ring_items ms)) a + ext a)" by blast
  then show ?case using Suc.IH[OF s(2)] Suc.prems(2,3) at by (simp add: add.commute)
qed

lemma mbuf_free_ok: "mbuf_ok ms st ext \<Longrightarrow> \<exists>st'. mbuf_free ms st = Some st' \<and> counted st' ext"
  using free_items_ok[of st 0 ms ext "unat (ms_len ms)"] by (auto simp: mbuf_ok_def mbuf_free_def)

lemma mbuf_init_ok:
  assumes "unat n \<le> 2 ^ 31"
  shows "\<exists>ms. mbuf_init n = Some ms \<and> mbuf_ok ms Map.empty (\<lambda>a. 0) \<and> ring_items ms = [] \<and> unat n \<le> unat (ms_capacity ms)"
proof -
  have u: "unat (ucast n :: u64) = unat n" using unsigned_less[of n, where ?'a = nat] by (simp add: unsigned_ucast_eq take_bit_nat_eq_self)
  then have "unat (ucast n :: u64) \<le> 2 ^ 63" using assms by simp
  then obtain r j where r: "adjust_power_of_2 (ucast n) = Returned r" "unat r = 2 ^ j" "unat n \<le> 2 ^ j" "j = 0 \<or> 2 ^ (j - 1) < unat n"
    using adjust_power_of_2_total unfolding u[symmetric] by metis
  have j: "j \<le> 31"
  proof (rule ccontr)
    assume "\<not> j \<le> 31"
    then have "(2 ^ 31 :: nat) \<le> 2 ^ (j - 1)" by (intro power_increasing) auto
    then show False using r(4) assms \<open>\<not> j \<le> 31\<close> by auto
  qed
  then have "(2 ^ j :: nat) \<le> 2 ^ 31" by (intro power_increasing) auto
  then have c: "unat (ucast r :: u32) = 2 ^ j"
    using r(2) j by (simp add: unsigned_ucast_eq take_bit_nat_eq_self)
  then have "(0 :: u32) < ucast r" by (simp add: word_less_nat_alt)
  then show ?thesis using r c j
    by (auto simp: mbuf_init_def Let_def mbuf_ok_def ring_wf_def ring_items_def counted_def intro!: exI[of _ j])
qed

end
