(* ===== verification/Mbuf_Props.thy ===== *)
theory Mbuf_Props
  imports Mbuf "HOL-Library.Sublist"
begin

text \<open>
  What the packet queue of \<open>Mbuf\<close> promises to its callers: packets leave in the order in which they were queued, some of them
  may be lost, none is sent to an instance after its removal, and no buffer is leaked or freed too early.

  The contract is the locale \<open>packet_queue\<close>, over a step relation; its interpretation \<open>mq\<close> is the queue of the
  code with its callers in \<open>multi.c\<close>.
\<close>

lemma subseq_set: "subseq xs ys \<Longrightarrow> set xs \<subseteq> set ys"
  by (auto elim: list_emb_set)

datatype ('i, 'p) queue_event = Queued "'i list" 'p | Sent 'i 'p | Idle | Gone 'i

primrec queued_of :: "('i, 'p) queue_event \<Rightarrow> ('i \<times> 'p) list" where
  "queued_of (Queued is p) = map (\<lambda>i. (i, p)) is"
| "queued_of (Sent i p) = []"
| "queued_of Idle = []"
| "queued_of (Gone i) = []"

primrec sent_of :: "('i, 'p) queue_event \<Rightarrow> ('i \<times> 'p) list" where
  "sent_of (Queued is p) = []"
| "sent_of (Sent i p) = [(i, p)]"
| "sent_of Idle = []"
| "sent_of (Gone i) = []"

abbreviation queued :: "('i, 'p) queue_event list \<Rightarrow> ('i \<times> 'p) list" where
  "queued es \<equiv> concat (map queued_of es)"

abbreviation sent :: "('i, 'p) queue_event list \<Rightarrow> ('i \<times> 'p) list" where
  "sent es \<equiv> concat (map sent_of es)"

inductive run :: "('s \<Rightarrow> 'e \<Rightarrow> 's \<Rightarrow> bool) \<Rightarrow> 's \<Rightarrow> 'e list \<Rightarrow> 's \<Rightarrow> bool" for step where
  stop: "run step s [] s"
| more: "step s e s1 \<Longrightarrow> run step s1 es s2 \<Longrightarrow> run step s (e # es) s2"

locale packet_queue =
  fixes inv :: "'s \<Rightarrow> bool"
    and live :: "'s \<Rightarrow> ('i \<times> 'p) list"
    and step :: "'s \<Rightarrow> ('i, 'p) queue_event \<Rightarrow> 's \<Rightarrow> bool"
  assumes step_inv: "inv s \<Longrightarrow> step s e s' \<Longrightarrow> inv s'"
    and queued_law: "inv s \<Longrightarrow> step s (Queued is p) s' \<Longrightarrow> \<exists>k. live s' = drop k (live s @ map (\<lambda>i. (i, p)) is)"
    and sent_law: "inv s \<Longrightarrow> step s (Sent i p) s' \<Longrightarrow> live s = (i, p) # live s'"
    and idle_law: "inv s \<Longrightarrow> step s Idle s' \<Longrightarrow> live s = [] \<and> live s' = []"
    and gone_law: "inv s \<Longrightarrow> step s (Gone i) s' \<Longrightarrow> live s' = filter (\<lambda>x. fst x \<noteq> i) (live s)"
begin

lemma step_subseq: "inv s \<Longrightarrow> step s e s' \<Longrightarrow> subseq (sent_of e @ live s') (live s @ queued_of e)"
proof (cases e)
  case (Queued tos p)
  assume "inv s" "step s e s'"
  then obtain k where "live s' = drop k (live s @ map (\<lambda>i. (i, p)) tos)" using queued_law Queued by blast
  then show ?thesis using Queued by (metis append_Nil queued_of.simps(1) sent_of.simps(1) suffix_drop suffix_imp_subseq)
next
  case (Gone i)
  assume "inv s" "step s e s'"
  then have "live s' = filter (\<lambda>x. fst x \<noteq> i) (live s)" using gone_law Gone by blast
  then show ?thesis using Gone by simp
qed (use sent_law idle_law in auto)

lemma run_fifo:
  assumes "run step s es s'" "inv s"
  shows "inv s' \<and> subseq (sent es @ live s') (live s @ queued es)"
  using assms
proof (induction rule: run.induct)
  case (stop s)
  then show ?case by simp
next
  case (more s e s1 es s2)
  have i1: "inv s1" using step_inv more by blast
  have "subseq (sent_of e @ (sent es @ live s2)) (sent_of e @ (live s1 @ queued es))"
    using more.IH[OF i1] unfolding subseq_append' by blast
  also have "subseq \<dots> ((live s @ queued_of e) @ queued es)"
    using step_subseq[OF more.prems more.hyps(1)] by (simp flip: append_assoc)
  finally show ?case using more.IH[OF i1] by simp
qed

text \<open>Nothing is sent to an instance that has no packet in the queue and gets none.\<close>

lemma run_no_send:
  assumes "run step s es s'" "inv s" "i \<notin> fst ` set (live s)" "i \<notin> fst ` set (queued es)"
  shows "i \<notin> fst ` set (sent es) \<and> i \<notin> fst ` set (live s')"
proof -
  have "set (sent es @ live s') \<subseteq> set (live s @ queued es)"
    using run_fifo[OF assms(1,2)] subseq_set by blast
  then have "fst ` set (sent es @ live s') \<subseteq> fst ` set (live s @ queued es)" by (rule image_mono)
  then show ?thesis using assms(3,4) unfolding set_append image_Un by blast
qed

end

section \<open>The contents of the buffers\<close>

text \<open>The cells that are left have their data; only the reference counts change.\<close>

definition same_data :: "mbuf_store \<Rightarrow> mbuf_store \<Rightarrow> bool" where
  "same_data st st' \<longleftrightarrow> (\<forall>a b'. st' a = Some b' \<longrightarrow> (\<exists>b. st a = Some b \<and> mb_buf b = mb_buf b' \<and> mb_flags b = mb_flags b'))"

lemma same_data_refl [simp]: "same_data st st"
  by (simp add: same_data_def)

lemma same_data_trans: "same_data a b \<Longrightarrow> same_data b c \<Longrightarrow> same_data a c"
  unfolding same_data_def by metis

lemma same_data_upd: "st a = Some b \<Longrightarrow> same_data st (st(a \<mapsto> b\<lparr>refcount := k\<rparr>))" "same_data st (st(a := None))"
  by (simp_all add: same_data_def)

lemma free_data: "mbuf_free_buf mb st = Some st' \<Longrightarrow> same_data st st'"
  by (auto simp: mbuf_free_buf_def Let_def bind_Some same_data_upd split: option.splits if_splits)

lemma append_data: "mbuf_append ms item st = Some (ms', st') \<Longrightarrow> same_data st st'"
  by (auto simp: mbuf_append_def Let_def bind_Some same_data_upd split: if_splits)

lemma add_data: "mbuf_add_item ms item st = Some (ms', st') \<Longrightarrow> same_data st st'"
  by (auto simp: mbuf_add_item_def bind_Some split: if_splits dest!: free_data append_data intro: same_data_trans)

lemma deref_items_data: "deref_items n ms mi i st = Some (ms', st') \<Longrightarrow> same_data st st'"
proof (induction n arbitrary: ms i st)
  case (Suc n)
  then show ?case
    by (auto simp: Let_def bind_Some split: if_splits dest!: free_data Suc.IH intro: same_data_trans)
qed simp

definition packet_of :: "mbuf_store \<Rightarrow> mbuf_item \<Rightarrow> nat \<times> buffer \<times> u32" where
  "packet_of st x = (let b = the (st (the (mi_buffer x))) in (the (mi_instance x), mb_buf b, mb_flags b))"

definition live_packets :: "mbuf_set \<times> mbuf_store \<Rightarrow> (nat \<times> buffer \<times> u32) list" where
  "live_packets s = map (packet_of (snd s)) (filter (\<lambda>x. \<not> dead x) (ring_items (fst s)))"

definition queue_inv :: "mbuf_set \<times> mbuf_store \<Rightarrow> bool" where
  "queue_inv s \<longleftrightarrow> mbuf_ok (fst s) (snd s) (\<lambda>a. 0)"

lemma packet_same:
  assumes "same_data st st'" "mbuf_ok ms st' ext" "x \<in> set (ring_items ms)" "\<not> dead x"
  shows "packet_of st' x = packet_of st x"
proof -
  obtain a where a: "mi_buffer x = Some a" using assms(2-4) by (auto simp: mbuf_ok_def item_ok_def)
  have "0 < refs (ring_items ms) a" using assms(3) a by (auto simp: refs_def filter_empty_conv)
  then have "\<exists>b. st' a = Some b" using counted_Some[of st' "\<lambda>a. refs (ring_items ms) a + ext a" a] assms(2) by (auto simp: mbuf_ok_def)
  then obtain b' where b': "st' a = Some b'" by blast
  then obtain b where "st a = Some b" "mb_buf b = mb_buf b'" "mb_flags b = mb_flags b'" using assms(1) unfolding same_data_def by blast
  then show ?thesis using a b' by (simp add: packet_of_def)
qed

lemma live_same:
  "same_data st st' \<Longrightarrow> mbuf_ok ms st' ext \<Longrightarrow> live_packets (ms, st') = map (packet_of st) (filter (\<lambda>x. \<not> dead x) (ring_items ms))"
  unfolding live_packets_def by (auto intro: packet_same)

lemma filter_tl_dropWhile: "filter (\<lambda>x. \<not> P x) (tl (dropWhile P xs)) = tl (filter (\<lambda>x. \<not> P x) xs)"
  by (induction xs) auto

lemma filter_room:
  "\<exists>k. filter (\<lambda>x. \<not> P x) ((if length xs = cap then tl (dropWhile P xs) else xs) @ [y]) = drop k (filter (\<lambda>x. \<not> P x) (xs @ [y]))"
proof (cases "length xs = cap \<and> filter (\<lambda>x. \<not> P x) xs \<noteq> []")
  case True
  then show ?thesis
    by (intro exI[of _ 1]) (cases "filter (\<lambda>x. \<not> P x) xs"; simp add: filter_tl_dropWhile)
next
  case False
  then show ?thesis by (intro exI[of _ 0]) (auto simp: filter_tl_dropWhile)
qed

lemma filter_make_room:
  "\<exists>k. filter (\<lambda>x. \<not> dead x) (make_room cap xs @ [y]) = drop k (filter (\<lambda>x. \<not> dead x) (xs @ [y]))"
  using filter_room[of dead xs cap y] by (simp only: make_room_def)

lemma filter_dropWhile_dead: "filter (\<lambda>x. \<not> P x) xs = filter (\<lambda>x. \<not> P x) (dropWhile P xs)"
  by (induction xs) auto

text \<open>One call of \<open>multi_add_mbuf\<close> while the caller holds the buffer.\<close>

lemma multi_add_mbuf_step:
  assumes "mbuf_ok ms st ext" "0 < ext a" "st a = Some b" "multi_add_mbuf ready mi a (ms, st) = Some (ms', st')"
  shows "mbuf_ok ms' st' ext \<and> same_data st st'
    \<and> (\<exists>k. live_packets (ms', st') = drop k (live_packets (ms, st) @ (if ready mi then [(mi, mb_buf b, mb_flags b)] else [])))"
proof (cases "ready mi")
  case False
  then show ?thesis using assms by (auto simp: multi_add_mbuf_def intro: exI[of _ 0])
next
  case True
  let ?x = "\<lparr>mi_buffer = Some a, mi_instance = Some mi\<rparr>"
  have add: "mbuf_add_item ms ?x st = Some (ms', st')" using assms(4) True by (simp add: multi_add_mbuf_def)
  have d: "same_data st st'" by (rule add_data[OF add])
  have r: "mbuf_ok ms' st' ext" "ring_items ms' = make_room (unat (ms_capacity ms)) (ring_items ms) @ [?x]"
    using mbuf_add_item_ok[OF assms(1,2), of mi] add by (auto split: if_splits)
  obtain k where k: "filter (\<lambda>x. \<not> dead x) (ring_items ms') = drop k (filter (\<lambda>x. \<not> dead x) (ring_items ms @ [?x]))"
    using filter_make_room[of "unat (ms_capacity ms)" "ring_items ms" ?x] r(2) by auto
  have "live_packets (ms', st') = drop k (map (packet_of st) (filter (\<lambda>x. \<not> dead x) (ring_items ms @ [?x])))"
    unfolding live_same[OF d r(1)] k drop_map ..
  then have "live_packets (ms', st') = drop k (live_packets (ms, st) @ [(mi, mb_buf b, mb_flags b)])"
    using assms(3) by (simp add: live_packets_def packet_of_def)
  then show ?thesis using r(1) d True by auto
qed

lemma drop_chain: "\<exists>k. drop k2 (drop k1 xs @ ys) = drop k (xs @ ys)"
proof -
  have "drop k1 xs @ ys = drop (min k1 (length xs)) (xs @ ys)" by (cases "k1 \<le> length xs") (simp_all add: min_def)
  then show ?thesis by (metis drop_drop)
qed

definition bcast_targets :: "(nat \<Rightarrow> bool) \<Rightarrow> nat option \<Rightarrow> u16 \<Rightarrow> (nat \<times> bool \<times> u16) list \<Rightarrow> nat list" where
  "bcast_targets ready sender vid instances =
     map fst (filter (\<lambda>(mi, halt, pvid). Some mi \<noteq> sender \<and> \<not> halt \<and> (vid = 0 \<or> vid = pvid) \<and> ready mi) instances)"

lemma bcast_targets_simps [simp]:
  "bcast_targets ready sender vid [] = []"
  "bcast_targets ready sender vid ((mi, halt, pvid) # r) =
     (if Some mi \<noteq> sender \<and> \<not> halt \<and> (vid = 0 \<or> vid = pvid) \<and> ready mi then mi # bcast_targets ready sender vid r
      else bcast_targets ready sender vid r)"
  by (simp_all add: bcast_targets_def)

lemma multi_add_mbuf_keeps:
  assumes "mbuf_ok ms st ext" "0 < ext a" "st a = Some b" "multi_add_mbuf ready mi a (ms, st) = Some (ms', st')"
  obtains b' where "mbuf_ok ms' st' ext" "same_data st st'" "st' a = Some b'" "mb_buf b' = mb_buf b" "mb_flags b' = mb_flags b"
proof -
  have s: "mbuf_ok ms' st' ext" "same_data st st'" using multi_add_mbuf_step[OF assms] by auto
  then obtain b' where "st' a = Some b'" using counted_Some[of st' _ a] assms(2) unfolding mbuf_ok_def by (metis add_gr_0)
  then show thesis using that s assms(3) unfolding same_data_def by (metis option.inject)
qed

lemma bcast_loop_step:
  assumes "mbuf_ok ms st ext" "0 < ext a" "st a = Some b" "bcast_loop ready a sender vid instances (ms, st) = Some (ms', st')"
  shows "mbuf_ok ms' st' ext \<and> same_data st st' \<and> (\<exists>k. live_packets (ms', st')
      = drop k (live_packets (ms, st) @ map (\<lambda>i. (i, mb_buf b, mb_flags b)) (bcast_targets ready sender vid instances)))"
  using assms
proof (induction instances arbitrary: ms st b)
  case Nil
  then show ?case by (auto intro: exI[of _ 0])
next
  case (Cons x r)
  obtain mi halt pvid where x: "x = (mi, halt, pvid)" by (cases x)
  show ?case
  proof (cases "Some mi \<noteq> sender \<and> \<not> halt \<and> (vid = 0 \<or> vid = pvid)")
    case False
    then show ?thesis using Cons.IH[OF Cons.prems(1-3)] Cons.prems(4) x by (auto split: if_splits)
  next
    case True
    then obtain ms1 st1 where s1: "multi_add_mbuf ready mi a (ms, st) = Some (ms1, st1)"
      "bcast_loop ready a sender vid r (ms1, st1) = Some (ms', st')"
      using Cons.prems(4) x by (auto simp: bind_Some split: if_splits)
    obtain b1 where b1: "mbuf_ok ms1 st1 ext" "same_data st st1" "st1 a = Some b1" "mb_buf b1 = mb_buf b" "mb_flags b1 = mb_flags b"
      using multi_add_mbuf_keeps[OF Cons.prems(1-3) s1(1)] by blast
    obtain k1 where k1: "live_packets (ms1, st1) = drop k1 (live_packets (ms, st) @ (if ready mi then [(mi, mb_buf b, mb_flags b)] else []))"
      using multi_add_mbuf_step[OF Cons.prems(1-3) s1(1)] by blast
    have IH: "mbuf_ok ms' st' ext" "same_data st1 st'" using Cons.IH[OF b1(1) Cons.prems(2) b1(3) s1(2)] by auto
    obtain k2 where k2: "live_packets (ms', st')
        = drop k2 (live_packets (ms1, st1) @ map (\<lambda>i. (i, mb_buf b, mb_flags b)) (bcast_targets ready sender vid r))"
      using Cons.IH[OF b1(1) Cons.prems(2) b1(3) s1(2)] unfolding b1(4,5) by blast
    have t: "bcast_targets ready sender vid (x # r) = (if ready mi then [mi] else []) @ bcast_targets ready sender vid r"
      using True x by simp
    show ?thesis
      unfolding k2 k1 t map_append append_assoc[symmetric]
      using IH same_data_trans[OF b1(2)] drop_chain[of k2 k1 "live_packets (ms, st) @ (if ready mi then [(mi, mb_buf b, mb_flags b)] else [])"]
      by (cases "ready mi") auto
  qed
qed

text \<open>The allocation of a buffer and the release of the caller's reference around the additions.\<close>

lemma alloc_ok:
  assumes "queue_inv (ms, st)" "st a = None"
  shows "mbuf_ok ms (mbuf_alloc_buf a fresh buf st) ((\<lambda>_. 0)(a := 1))"
    "live_packets (ms, mbuf_alloc_buf a fresh buf st) = live_packets (ms, st)"
proof -
  have inv: "mbuf_ok ms st (\<lambda>_. 0)" using assms(1) by (simp add: queue_inv_def)
  then have "cell_ok (st a) (refs (ring_items ms) a)" by (simp add: mbuf_ok_def counted_def)
  then have z: "refs (ring_items ms) a = 0" using assms(2) by simp
  have "counted (mbuf_alloc_buf a fresh buf st) ((\<lambda>c. refs (ring_items ms) c + 0)(a := 1))"
    using inv by (intro counted_alloc) (simp add: mbuf_ok_def)
  then have "counted (mbuf_alloc_buf a fresh buf st) (\<lambda>c. refs (ring_items ms) c + ((\<lambda>_. 0)(a := 1)) c)"
    by (rule counted_cong) (simp add: z)
  then show ok: "mbuf_ok ms (mbuf_alloc_buf a fresh buf st) ((\<lambda>_. 0)(a := 1))" using inv by (simp add: mbuf_ok_def)
  have "mi_buffer x \<noteq> Some a" if "x \<in> set (ring_items ms)" for x
    using z that by (auto simp: refs_def filter_empty_conv)
  moreover have "\<exists>c. mi_buffer x = Some c" if "x \<in> set (ring_items ms)" "\<not> dead x" for x
    using that inv by (auto simp: mbuf_ok_def item_ok_def)
  ultimately show "live_packets (ms, mbuf_alloc_buf a fresh buf st) = live_packets (ms, st)"
    by (fastforce simp: live_packets_def packet_of_def mbuf_alloc_buf_def Let_def)
qed

lemma release_ok:
  assumes "mbuf_ok ms st ((\<lambda>_. 0)(a := 1))" "mbuf_free_buf (Some a) st = Some st'"
  shows "queue_inv (ms, st')" "live_packets (ms, st') = live_packets (ms, st)"
proof -
  have "mbuf_ok ms st' (((\<lambda>_. 0)(a := 1))(a := 0))" using mbuf_free_buf_ok[OF assms(1), of a] assms(2) by auto
  then have ok: "mbuf_ok ms st' (\<lambda>_. 0)" by (simp add: fun_upd_idem)
  then show "queue_inv (ms, st')" by (simp add: queue_inv_def)
  show "live_packets (ms, st') = live_packets (ms, st)"
    unfolding live_same[OF free_data[OF assms(2)] ok] by (simp add: live_packets_def)
qed

section \<open>The steps of the server\<close>

text \<open>
  One step of the server that touches the queue. The address \<open>a\<close> that \<open>malloc\<close> returns is one that is not in use.
\<close>

inductive mq_step :: "mbuf_set \<times> mbuf_store \<Rightarrow> (nat, buffer \<times> u32) queue_event \<Rightarrow> mbuf_set \<times> mbuf_store \<Rightarrow> bool" where
  unicast: "st a = None \<Longrightarrow> multi_unicast ready a fresh buf mi (ms, st) = Some s' \<Longrightarrow>
    mq_step (ms, st) (Queued (if buf_len buf > 0 \<and> ready mi then [mi] else []) (clone_buf fresh buf, MF_UNICAST)) s'"
| bcast: "st a = None \<Longrightarrow> multi_bcast ready a fresh buf sender vid instances (ms, st) = Some s' \<Longrightarrow>
    mq_step (ms, st) (Queued (if buf_len buf > 0 then bcast_targets ready sender vid instances else []) (clone_buf fresh buf, 0)) s'"
| get: "multi_get_queue s = Some (Some (mi, b, f), s') \<Longrightarrow> mq_step s (Sent mi (b, f)) s'"
| none: "multi_get_queue s = Some (None, s') \<Longrightarrow> mq_step s Idle s'"
| gone: "mbuf_dereference_instance ms mi st = Some s' \<Longrightarrow> mq_step (ms, st) (Gone mi) s'"

inductive_cases queuedE: "mq_step s (Queued tos p) s'"
inductive_cases sentE: "mq_step s (Sent mi p) s'"
inductive_cases idleE: "mq_step s Idle s'"
inductive_cases goneE: "mq_step s (Gone mi) s'"

lemma unicast_step:
  assumes "queue_inv (ms, st)" "st a = None" "multi_unicast ready a fresh buf mi (ms, st) = Some s'"
  shows "queue_inv s' \<and> (\<exists>k. live_packets s' = drop k (live_packets (ms, st)
     @ map (\<lambda>i. (i, clone_buf fresh buf, MF_UNICAST)) (if buf_len buf > 0 \<and> ready mi then [mi] else [])))"
proof (cases "buf_len buf > 0")
  case False
  then show ?thesis using assms(1,3) by (auto simp: multi_unicast_def intro: exI[of _ 0])
next
  case True
  define st0 where "st0 = mbuf_alloc_buf a fresh buf st"
  define b where "b = \<lparr>mb_buf = clone_buf fresh buf, refcount = 1, mb_flags = MF_UNICAST\<rparr>"
  define st1 where "st1 = st0(a \<mapsto> b)"
  have s0a: "st0 a = Some (b\<lparr>mb_flags := 0\<rparr>)" by (simp add: st0_def mbuf_alloc_buf_def b_def)
  obtain ms2 st2 st3 where s: "multi_add_mbuf ready mi a (ms, st1) = Some (ms2, st2)" "mbuf_free_buf (Some a) st2 = Some st3" "s' = (ms2, st3)"
    using assms(3) True s0a[unfolded st0_def b_def] that unfolding multi_unicast_def st1_def st0_def b_def
    by (auto simp: Let_def bind_Some)
  note al = alloc_ok[OF assms(1,2), of fresh buf, folded st0_def]
  have "counted st1 ((\<lambda>c. refs (ring_items ms) c + ((\<lambda>_. 0)(a := 1)) c)(a := refs (ring_items ms) a + 1))"
    unfolding st1_def
  proof (rule counted_upd)
    show c: "counted st0 (\<lambda>c. refs (ring_items ms) c + ((\<lambda>_. 0)(a := 1)) c)" using al(1) by (simp add: mbuf_ok_def)
    then have "cell_ok (st0 a) (refs (ring_items ms) a + 1)" unfolding counted_def by (metis fun_upd_same)
    then show "cell_ok (Some b) (refs (ring_items ms) a + 1)" using s0a by simp
  qed
  then have "counted st1 (\<lambda>c. refs (ring_items ms) c + ((\<lambda>_. 0)(a := 1)) c)" by (rule counted_cong) simp
  then have ok1: "mbuf_ok ms st1 ((\<lambda>_. 0)(a := 1))" using al(1) by (simp add: mbuf_ok_def)
  have b1: "st1 a = Some b" by (simp add: st1_def)
  have "cell_ok (st a) (refs (ring_items ms) a)" using assms(1) by (simp add: queue_inv_def mbuf_ok_def counted_def)
  then have z: "refs (ring_items ms) a = 0" using assms(2) by simp
  have l1: "live_packets (ms, st1) = live_packets (ms, st)"
  proof -
    have "packet_of st1 x = packet_of st0 x" if "x \<in> set (ring_items ms)" "\<not> dead x" for x
    proof -
      have "mi_buffer x \<noteq> Some a" using z that(1) by (auto simp: refs_def filter_empty_conv)
      moreover have "\<exists>c. mi_buffer x = Some c" using al(1) that by (auto simp: mbuf_ok_def item_ok_def)
      ultimately show ?thesis by (auto simp: packet_of_def st1_def)
    qed
    then show ?thesis unfolding al(2)[symmetric] by (simp add: live_packets_def)
  qed
  obtain k where r: "mbuf_ok ms2 st2 ((\<lambda>_. 0)(a := 1))" "live_packets (ms2, st2)
      = drop k (live_packets (ms, st1) @ (if ready mi then [(mi, mb_buf b, mb_flags b)] else []))"
    using multi_add_mbuf_step[OF ok1 _ b1 s(1)] by auto
  show ?thesis
    using release_ok[OF r(1) s(2)] r(2) l1 s(3) True by (auto simp: b_def)
qed

lemma bcast_step:
  assumes "queue_inv (ms, st)" "st a = None" "multi_bcast ready a fresh buf sender vid instances (ms, st) = Some s'"
  shows "queue_inv s' \<and> (\<exists>k. live_packets s' = drop k (live_packets (ms, st)
     @ map (\<lambda>i. (i, clone_buf fresh buf, 0)) (if buf_len buf > 0 then bcast_targets ready sender vid instances else [])))"
proof (cases "buf_len buf > 0")
  case False
  then show ?thesis using assms(1,3) by (auto simp: multi_bcast_def intro: exI[of _ 0])
next
  case True
  define st0 where "st0 = mbuf_alloc_buf a fresh buf st"
  define b where "b = \<lparr>mb_buf = clone_buf fresh buf, refcount = 1, mb_flags = 0\<rparr>"
  have s0a: "st0 a = Some b" by (simp add: st0_def mbuf_alloc_buf_def b_def)
  obtain ms2 st2 st3 where s: "bcast_loop ready a sender vid instances (ms, st0) = Some (ms2, st2)"
      "mbuf_free_buf (Some a) st2 = Some st3" "s' = (ms2, st3)"
    using assms(3) True by (auto simp: multi_bcast_def st0_def[symmetric] bind_Some)
  note al = alloc_ok[OF assms(1,2), of fresh buf, folded st0_def]
  obtain k where r: "mbuf_ok ms2 st2 ((\<lambda>_. 0)(a := 1))" "live_packets (ms2, st2)
      = drop k (live_packets (ms, st0) @ map (\<lambda>i. (i, mb_buf b, mb_flags b)) (bcast_targets ready sender vid instances))"
    using bcast_loop_step[OF al(1) _ s0a s(1)] by auto
  have "queue_inv s'" "live_packets s' = drop k (live_packets (ms, st) @ map (\<lambda>i. (i, clone_buf fresh buf, 0)) (bcast_targets ready sender vid instances))"
    using release_ok[OF r(1) s(2)] r(2) al(2) s(3) by (simp_all add: b_def)
  then show ?thesis using True by auto
qed

text \<open>Taking a packet.\<close>

lemma get_queue_step:
  assumes "queue_inv s" "multi_get_queue s = Some (r, s')"
  shows "queue_inv s' \<and> (case r of None \<Rightarrow> live_packets s = [] \<and> live_packets s' = []
    | Some (mi, b, f) \<Rightarrow> live_packets s = (mi, b, f) # live_packets s')"
proof -
  obtain ms st where s: "s = (ms, st)" by (cases s)
  have inv: "mbuf_ok ms st (\<lambda>_. 0)" using assms(1) by (simp add: s queue_inv_def)
  have live: "filter (\<lambda>x. \<not> dead x) (ring_items ms) = filter (\<lambda>x. \<not> dead x) (dropWhile dead (ring_items ms))"
    by (rule filter_dropWhile_dead)
  show ?thesis
  proof (cases rule: extract_cases[OF inv])
    case (1 ms')
    then have "r = None" "s' = (ms', st)" using assms(2) by (auto simp: multi_get_queue_def s)
    then show ?thesis using 1 live by (simp add: s queue_inv_def live_packets_def)
  next
    case (2 ms' x tail a mi)
    obtain b st' where b: "st a = Some b" "mbuf_free_buf (Some a) st = Some st'" "r = Some (mi, mb_buf b, mb_flags b)" "s' = (ms', st')"
      using assms(2) 2 by (auto simp: multi_get_queue_def s bind_Some)
    have z: "(\<lambda>_. 0)(a := (0 :: nat) + 1) = (\<lambda>_. 0)(a := 1)" by simp
    note ok = 2(5)[unfolded z]
    have l': "live_packets (ms', st) = map (packet_of st) (filter (\<lambda>x. \<not> dead x) tail)" using 2(6) by (simp add: live_packets_def)
    have "live_packets (ms, st) = packet_of st x # live_packets (ms', st)"
      unfolding l' unfolding live_packets_def fst_conv snd_conv live 2(2) using 2(4) by simp
    moreover have "packet_of st x = (mi, mb_buf b, mb_flags b)" using 2(3,4) b(1) by (simp add: packet_of_def)
    ultimately show ?thesis using release_ok[OF ok b(2)] b(3,4) by (simp add: s)
  qed
qed

lemma gone_step:
  assumes "queue_inv (ms, st)" "mbuf_dereference_instance ms mi st = Some s'"
  shows "queue_inv s' \<and> live_packets s' = filter (\<lambda>x. fst x \<noteq> mi) (live_packets (ms, st))"
proof -
  have inv: "mbuf_ok ms st (\<lambda>_. 0)" using assms(1) by (simp add: queue_inv_def)
  obtain ms' st' where r: "s' = (ms', st')" "mbuf_ok ms' st' (\<lambda>_. 0)" "ring_items ms' = map (kill mi) (ring_items ms)"
    using mbuf_dereference_ok[OF inv, of mi] assms(2) by auto
  have d: "same_data st st'" using assms(2) r(1) by (auto simp: mbuf_dereference_instance_def intro: deref_items_data)
  have "map (packet_of st) (filter (\<lambda>x. \<not> dead x) (map (kill mi) xs))
      = filter (\<lambda>x. fst x \<noteq> mi) (map (packet_of st) (filter (\<lambda>x. \<not> dead x) xs))" for xs
  proof (induction xs)
    case (Cons a xs)
    then show ?case by (cases "mi_instance a") (auto simp: kill_def packet_of_def Let_def)
  qed simp
  then have "live_packets (ms', st') = filter (\<lambda>x. fst x \<noteq> mi) (live_packets (ms, st))"
    unfolding live_same[OF d r(2)] r(3) by (simp add: live_packets_def)
  then show ?thesis using r by (simp add: queue_inv_def)
qed

lemma mq_step_inv:
  assumes "mq_step s e s'" "queue_inv s"
  shows "queue_inv s'"
  using assms
proof (cases rule: mq_step.cases)
  case unicast
  then show ?thesis using unicast_step assms(2) by blast
next
  case bcast
  then show ?thesis using bcast_step assms(2) by blast
next
  case gone
  then show ?thesis using gone_step assms(2) by blast
qed (use get_queue_step assms(2) in blast)+

lemma mq_queued:
  assumes "mq_step s (Queued tos p) s'" "queue_inv s"
  shows "\<exists>k. live_packets s' = drop k (live_packets s @ map (\<lambda>i. (i, p)) tos)"
proof -
  note u = unicast_step[THEN conjunct2] and b = bcast_step[THEN conjunct2]
  from assms show ?thesis
    by (elim queuedE) (simp only:, rule u b; assumption)+
qed

interpretation mq: packet_queue queue_inv live_packets mq_step
proof
  fix s s' :: "mbuf_set \<times> mbuf_store" and e
  assume i: "queue_inv s"
  show "mq_step s e s' \<Longrightarrow> queue_inv s'" by (rule mq_step_inv[OF _ i])
  show "mq_step s (Queued tos p) s' \<Longrightarrow> \<exists>k. live_packets s' = drop k (live_packets s @ map (\<lambda>i. (i, p)) tos)" for tos p
    by (rule mq_queued[OF _ i])
  show "mq_step s (Sent mi p) s' \<Longrightarrow> live_packets s = (mi, p) # live_packets s'" for mi p
    by (elim sentE) (auto dest: get_queue_step[OF i])
  show "mq_step s Idle s' \<Longrightarrow> live_packets s = [] \<and> live_packets s' = []"
    by (elim idleE) (auto dest: get_queue_step[OF i])
  show "mq_step s (Gone mi) s' \<Longrightarrow> live_packets s' = filter (\<lambda>x. fst x \<noteq> mi) (live_packets s)" for mi
    using i gone_step by (elim goneE) auto
qed

section \<open>Properties\<close>

text \<open>
  C13. The packet queue of the server is a queue. In every run from an initialised queue of up to
  2^31 entries, the packets sent, followed by those still queued, are a subsequence of the packets that were
  queued, in their order (a full queue drops its oldest live packet), and the reference counts are right: a
  buffer is allocated exactly as long as an item of the queue refers to it.
\<close>

theorem mbuf_fifo:
  assumes "unat n \<le> 2 ^ 31" "mbuf_init n = Some ms" "run mq_step (ms, Map.empty) es s'"
  shows "subseq (sent es @ live_packets s') (queued es)
    \<and> dom (snd s') = {a. \<exists>x \<in> set (ring_items (fst s')). mi_buffer x = Some a}"
proof -
  have init: "mbuf_ok ms Map.empty (\<lambda>_. 0)" "ring_items ms = []" using mbuf_init_ok[OF assms(1)] assms(2) by auto
  then have inv: "queue_inv (ms, Map.empty)" and "live_packets (ms, Map.empty) = []" by (simp_all add: queue_inv_def live_packets_def)
  then have r: "queue_inv s'" "subseq (sent es @ live_packets s') (queued es)" using mq.run_fifo[OF assms(3)] by auto
  have c: "cell_ok (snd s' a) (refs (ring_items (fst s')) a)" for a using r(1) by (simp add: queue_inv_def mbuf_ok_def counted_def)
  have "a \<in> dom (snd s') \<longleftrightarrow> (\<exists>x \<in> set (ring_items (fst s')). mi_buffer x = Some a)" for a
    using c[of a] by (cases "snd s' a") (auto simp: refs_def filter_empty_conv)
  then show ?thesis using r(2) by blast
qed

text \<open>A queue with one place: a packet for instance 7 is queued and sent.\<close>

definition pk :: "u8 \<Rightarrow> buffer" where
  "pk x = \<lparr>b_capacity = 1, b_offset = 0, b_len = 1, b_data = Some [x]\<rparr>"

definition queue0 :: mbuf_set where
  "queue0 = \<lparr>ms_head = 0, ms_len = 0, ms_capacity = 1, max_queued = 0, ms_array = [\<lparr>mi_buffer = None, mi_instance = None\<rparr>]\<rparr>"

definition queue1 :: mbuf_set where
  "queue1 = \<lparr>ms_head = 0, ms_len = 1, ms_capacity = 1, max_queued = 1, ms_array = [\<lparr>mi_buffer = Some 0, mi_instance = Some 7\<rparr>]\<rparr>"

definition store1 :: mbuf_store where
  "store1 = [0 \<mapsto> \<lparr>mb_buf = pk 5, refcount = 1, mb_flags = MF_UNICAST\<rparr>]"

lemma mbuf_example:
  "mbuf_init 1 = Some queue0"
  "multi_unicast (\<lambda>_. True) 0 [0] (pk 5) 7 (queue0, Map.empty) = Some (queue1, store1)"
  "multi_get_queue (queue1, store1) = Some (Some (7, pk 5, MF_UNICAST), queue1\<lparr>ms_len := 0\<rparr>, Map.empty)"
  "clone_buf [0] (pk 5) = pk 5" "buf_len (pk 5) > 0"
proof -
  show "mbuf_init 1 = Some queue0" by code_simp
  show c: "clone_buf [0] (pk 5) = pk 5" "buf_len (pk 5) > 0" by code_simp+
  have i: "MBUF_INDEX 0 0 1 = 0" "MBUF_INDEX 0 1 1 = 0" by (simp_all add: MBUF_INDEX_def)
  show "multi_unicast (\<lambda>_. True) 0 [0] (pk 5) 7 (queue0, Map.empty) = Some (queue1, store1)"
    using c i by (simp add: multi_unicast_def multi_add_mbuf_def mbuf_add_item_def mbuf_append_def item_at_def queue0_def queue1_def
      store1_def mbuf_alloc_buf_def mbuf_free_buf_def Let_def)
  show "multi_get_queue (queue1, store1) = Some (Some (7, pk 5, MF_UNICAST), queue1\<lparr>ms_len := 0\<rparr>, Map.empty)"
    using i by (subst multi_get_queue_def, subst mbuf_extract_item.simps)
      (simp add: item_at_def queue1_def store1_def mbuf_free_buf_def Let_def fun_eq_iff)
qed

lemma mbuf_fifo_witness:
  "subseq (sent [Queued [7] (pk 5, 1), Sent 7 (pk 5, 1)] @ live_packets (queue1\<lparr>ms_len := 0\<rparr>, Map.empty))
     (queued [Queued [7 :: nat] (pk 5, 1 :: u32), Sent 7 (pk 5, 1)])"
proof -
  have "mq_step (queue0, Map.empty) (Queued [7] (pk 5, 1)) (queue1, store1)"
    using mq_step.unicast[of Map.empty 0 "\<lambda>_. True" "[0]" "pk 5" 7 queue0 "(queue1, store1)"] mbuf_example
    by (simp add: MF_UNICAST_def)
  moreover have "mq_step (queue1, store1) (Sent 7 (pk 5, 1)) (queue1\<lparr>ms_len := 0\<rparr>, Map.empty)"
    using mq_step.get[OF mbuf_example(3)] by (simp add: MF_UNICAST_def)
  ultimately have r: "run mq_step (queue0, Map.empty) [Queued [7] (pk 5, 1), Sent 7 (pk 5, 1)] (queue1\<lparr>ms_len := 0\<rparr>, Map.empty)"
    by (blast intro: run.intros)
  have "unat (1 :: u32) \<le> 2 ^ 31" by simp
  then show ?thesis by (rule mbuf_fifo[OF _ mbuf_example(1) r, THEN conjunct1])
qed

text \<open>
  C29. Nothing that was queued for an instance is sent to it after its removal. In every run that follows
  \<open>mbuf_dereference_instance\<close>, the packets sent to the instance are among those queued for it after
  the removal, in the same order; if none is queued for it again, none is sent to it.
\<close>

theorem mbuf_no_send_after_removal:
  assumes "queue_inv s" "mq_step s (Gone mi) s1" "run mq_step s1 es s2"
  shows "subseq (filter (\<lambda>x. fst x = mi) (sent es)) (filter (\<lambda>x. fst x = mi) (queued es))"
proof -
  let ?P = "\<lambda>x. fst x = mi"
  have "live_packets s1 = filter (\<lambda>x. fst x \<noteq> mi) (live_packets s)" using mq.gone_law[OF assms(1,2)] .
  then have l: "filter ?P (live_packets s1) = []" by (simp add: filter_empty_conv)
  have "subseq (sent es @ live_packets s2) (live_packets s1 @ queued es)"
    using mq.run_fifo[OF assms(3) mq.step_inv[OF assms(1,2)]] by blast
  then have "subseq (filter ?P (sent es @ live_packets s2)) (filter ?P (live_packets s1 @ queued es))" by (rule subseq_filter)
  then have "subseq (filter ?P (sent es) @ filter ?P (live_packets s2)) (filter ?P (queued es))" using l by simp
  moreover have "subseq (filter ?P (sent es)) (filter ?P (sent es) @ filter ?P (live_packets s2))"
    by (rule prefix_imp_subseq) simp
  ultimately show ?thesis by (rule subseq_order.trans[rotated])
qed

text \<open>The packet for 7 in the queue is dropped with the instance; one that is queued afterwards is sent.\<close>

lemma mbuf_no_send_after_removal_witness:
  fixes s1 :: "mbuf_set \<times> mbuf_store"
  defines "s1 \<equiv> (queue0\<lparr>ms_len := 1, max_queued := 1\<rparr>, Map.empty)"
  shows "live_packets (queue1, store1) = [(7, pk 5, MF_UNICAST)] \<and> mq_step (queue1, store1) (Gone 7) s1
    \<and> run mq_step s1 [Idle, Queued [7] (pk 5, 1), Sent 7 (pk 5, 1)] (queue1\<lparr>ms_len := 0\<rparr>, Map.empty)
    \<and> subseq (filter (\<lambda>x. fst x = 7) (sent [Idle, Queued [7] (pk 5, 1 :: u32), Sent 7 (pk 5, 1)]))
         (filter (\<lambda>x. fst x = (7 :: nat)) (queued [Idle, Queued [7] (pk 5, 1), Sent 7 (pk 5, 1)]))"
proof -
  let ?es = "[Idle, Queued [7] (pk 5, 1 :: u32), Sent 7 (pk 5, 1)] :: (nat, buffer \<times> u32) queue_event list"
  let ?e = "queue0\<lparr>max_queued := 1\<rparr>"
  have i: "MBUF_INDEX 0 0 1 = 0" "MBUF_INDEX 0 1 1 = 0" by (simp_all add: MBUF_INDEX_def)
  have items: "ring_items queue1 = [\<lparr>mi_buffer = Some 0, mi_instance = Some 7\<rparr>]"
    by (simp add: ring_items_def ring_pos_def queue1_def)
  have live: "live_packets (queue1, store1) = [(7, pk 5, MF_UNICAST)]"
    by (simp add: live_packets_def items packet_of_def store1_def)
  have "queue_inv (queue0, Map.empty)" using mbuf_init_ok[of 1] mbuf_example(1) by (simp add: queue_inv_def)
  moreover have "mq_step (queue0, Map.empty) (Queued [7] (pk 5, 1)) (queue1, store1)"
    using mq_step.unicast[of Map.empty 0 "\<lambda>_. True" "[0]" "pk 5" 7 queue0 "(queue1, store1)"] mbuf_example
    by (simp add: MF_UNICAST_def)
  ultimately have inv: "queue_inv (queue1, store1)" by (rule mq.step_inv)
  have g: "mq_step (queue1, store1) (Gone 7) s1"
    unfolding s1_def by (rule mq_step.gone)
      (simp add: mbuf_dereference_instance_def item_at_def fun_eq_iff queue1_def queue0_def store1_def mbuf_free_buf_def MBUF_INDEX_def Let_def)
  have "mq_step s1 Idle (?e, Map.empty)"
    unfolding s1_def using i
    by (intro mq_step.none) (subst multi_get_queue_def, subst mbuf_extract_item.simps, subst mbuf_extract_item.simps,
        simp add: queue0_def item_at_def Let_def)
  moreover have "multi_unicast (\<lambda>_. True) 0 [0] (pk 5) 7 (?e, Map.empty) = Some (queue1, store1)"
    using mbuf_example(4,5) i by (simp add: multi_unicast_def multi_add_mbuf_def mbuf_add_item_def mbuf_append_def item_at_def queue0_def queue1_def
      store1_def mbuf_alloc_buf_def mbuf_free_buf_def Let_def)
  then have "mq_step (?e, Map.empty) (Queued [7] (pk 5, 1)) (queue1, store1)"
    using mq_step.unicast[of Map.empty 0 "\<lambda>_. True" "[0]" "pk 5" 7 ?e "(queue1, store1)"] mbuf_example(4,5) by (simp add: MF_UNICAST_def)
  moreover have "mq_step (queue1, store1) (Sent 7 (pk 5, 1)) (queue1\<lparr>ms_len := 0\<rparr>, Map.empty)"
    using mq_step.get[OF mbuf_example(3)] by (simp add: MF_UNICAST_def)
  ultimately have r: "run mq_step s1 ?es (queue1\<lparr>ms_len := 0\<rparr>, Map.empty)" by (blast intro: run.intros)
  show ?thesis using live g r mbuf_no_send_after_removal[OF inv g r] by blast
qed

text \<open>
  C40. A full queue of removed instances ends the process. When every item of a full queue belongs to
  an instance that was dereferenced, there is no live item to drop, \<open>mbuf_extract_item\<close> empties the
  queue and returns false, and the assertion in \<open>mbuf_add_item\<close> fails although there is room now; in every
  other state that the operations keep, adding a packet returns.
\<close>

theorem mbuf_add_aborts_iff:
  assumes "mbuf_ok ms st ext" "0 < ext a"
  shows "mbuf_add_item ms \<lparr>mi_buffer = Some a, mi_instance = Some mi\<rparr> st = None
    \<longleftrightarrow> ms_len ms = ms_capacity ms \<and> (\<forall>x \<in> set (ring_items ms). mi_instance x = None)"
proof -
  have "ring_wf ms" using assms(1) by (simp add: mbuf_ok_def)
  then show ?thesis using mbuf_add_item_ok[OF assms, of mi] ring_len_cap[of ms] by (auto split: if_splits)
qed

lemma mbuf_add_aborts_iff_witness:
  "mbuf_add_item (queue0\<lparr>ms_len := 1\<rparr>) \<lparr>mi_buffer = Some 0, mi_instance = Some 7\<rparr> store1 = None"
proof -
  have c: "ms_capacity queue0 = 1" "length (ms_array queue0) = 1" "ms_head queue0 = 0" by (simp_all add: queue0_def)
  have items: "ring_items (queue0\<lparr>ms_len := 1\<rparr>) = [\<lparr>mi_buffer = None, mi_instance = None\<rparr>]"
    by (simp add: ring_items_def ring_pos_def queue0_def)
  have "mbuf_ok (queue0\<lparr>ms_len := 1\<rparr>) store1 ((\<lambda>_. 0)(0 := 1))"
    unfolding mbuf_ok_def items using c
    by (auto simp: ring_wf_def item_ok_def counted_def store1_def intro!: exI[of _ 0])
  then show ?thesis using mbuf_add_aborts_iff[of "queue0\<lparr>ms_len := 1\<rparr>" store1 "(\<lambda>_. 0)(0 := 1)" 0 7] c items by simp
qed

end
