(* ===== verification/Stream_Buf.thy ===== *)
theory Stream_Buf
  imports Buffer
begin

text \<open>
  Packets over TCP (\<open>socket.c\<close>, \<open>socket.h\<close>, the protocol test of \<open>ps.c\<close>): a packet is sent with a 16 bit length in
  front; the reader \<open>stream_buf\<close> cuts the byte stream into packets again, with a read that may end anywhere.

  \<open>buf\<close>, \<open>next\<close> and \<open>buf_init\<close> of the code point into one block of memory. Its bytes are those of \<open>sb_buf\<close> here:
  \<open>sb_next\<close> and \<open>sb_init\<close> are used for their window only, and a reset keeps the bytes. \<open>recv\<close> is the argument
  \<open>r\<close> of the read: an error code of at most 0, or the bytes received, at most as many as were asked for.
  A failed \<open>ASSERT\<close> is \<open>None\<close>.
\<close>

datatype port_share = PS_DISABLED | PS_ENABLED | PS_FOREIGN

record stream_buf =
  sb_init :: buffer
  sb_residual :: buffer
  sb_maxlen :: int
  residual_fully_formed :: bool
  sb_buf :: buffer
  sb_next :: buffer
  sb_len :: int
  sb_error :: bool
  port_share_state :: port_share

text \<open>The buffer of a socket, with the parts of the frame as arguments (\<open>mtu.c\<close>).\<close>

definition alloc_buf_sock_tun :: "int \<Rightarrow> int \<Rightarrow> int \<Rightarrow> buffer option" where
  "alloc_buf_sock_tun headroom payload_size tailroom =
     do { buf \<leftarrow> alloc_buf (nat (headroom + payload_size + tailroom));
          case buf_init_dowork buf headroom of
            (False, _) \<Rightarrow> None
          | (True, buf) \<Rightarrow>
              do { let buf = buf\<lparr>b_len := payload_size\<rparr>;
                   ASSERT (buf_safe buf 0);
                   Some buf } }"

definition stream_buf_reset :: "stream_buf \<Rightarrow> stream_buf" where
  "stream_buf_reset sb = sb\<lparr>residual_fully_formed := False, sb_buf := (sb_init sb)\<lparr>b_data := b_data (sb_buf sb)\<rparr>,
     sb_next := buf_reset (sb_next sb), sb_len := -1\<rparr>"

definition stream_buf_init :: "buffer \<Rightarrow> bool \<Rightarrow> stream_buf option" where
  "stream_buf_init buf port_share_server =
     do { residual \<leftarrow> alloc_buf (nat (b_len buf));
          Some (stream_buf_reset \<lparr>sb_init = buf\<lparr>b_len := 0\<rparr>, sb_residual = residual, sb_maxlen = b_len buf,
            residual_fully_formed = False, sb_buf = buf, sb_next = buf, sb_len = -1, sb_error = False,
            port_share_state = (if port_share_server then PS_ENABLED else PS_DISABLED)\<rparr>) }"

definition stream_buf_set_next :: "stream_buf \<Rightarrow> stream_buf option" where
  "stream_buf_set_next sb =
     (let nxt = (sb_buf sb)\<lparr>b_offset := b_offset (sb_buf sb) + b_len (sb_buf sb),
            b_len := (if sb_len sb \<ge> 0 then sb_len sb else sb_maxlen sb) - b_len (sb_buf sb)\<rparr>
      in do { ASSERT (b_len nxt > 0);
              ASSERT (buf_safe (sb_buf sb) (nat (b_len nxt)));
              Some (sb\<lparr>sb_next := nxt\<rparr>) })"

definition stream_buf_get_final :: "stream_buf \<Rightarrow> buffer option" where
  "stream_buf_get_final sb = do { ASSERT (buf_defined (sb_buf sb)); Some (sb_buf sb) }"

definition stream_buf_get_next :: "stream_buf \<Rightarrow> buffer option" where
  "stream_buf_get_next sb = do { ASSERT (buf_defined (sb_next sb)); Some (sb_next sb) }"

text \<open>Whether the first bytes of a connection can be the reset packet of a client.\<close>

definition is_openvpn_protocol :: "bytes \<Rightarrow> bool" where
  "is_openvpn_protocol p =
     (let plen = uint (p ! 0) * 256 + uint (p ! 1) in
      if length p \<ge> 3 then
        (if p ! 2 = push_bit 3 10 then plen \<ge> 336 \<and> plen < 1024 + 255
         else plen \<ge> 14 \<and> plen \<le> 255 \<and> p ! 2 = push_bit 3 7)
      else if length p \<ge> 2 then plen \<ge> 14 \<and> plen \<le> 255
      else True)"

text \<open>The check of a server that shares its port, when the first length prefix is there.\<close>

definition port_share_check :: "stream_buf \<Rightarrow> bool \<times> stream_buf" where
  "port_share_check sb =
     (if port_share_state sb = PS_ENABLED then
        (if \<not> is_openvpn_protocol (buf_contents (sb_buf sb))
         then (False, sb\<lparr>port_share_state := PS_FOREIGN, sb_error := True\<rparr>)
         else (True, sb\<lparr>port_share_state := PS_DISABLED\<rparr>))
      else (True, sb))"

text \<open>The length prefix; \<open>False\<close> when it is out of range and the connection must be restarted.\<close>

definition read_length :: "stream_buf \<Rightarrow> (bool \<times> stream_buf) option" where
  "read_length sb =
     (case buf_read (sb_buf sb) 2 of
        (None, _) \<Rightarrow> None
      | (Some net_size, b) \<Rightarrow>
          let sb = sb\<lparr>sb_buf := b, sb_len := uint (ntohs net_size)\<rparr> in
          Some (if sb_len sb < 1 \<or> sb_len sb > sb_maxlen sb then (False, (stream_buf_reset sb)\<lparr>sb_error := True\<rparr>)
                else (True, sb)))"

definition finish_added :: "stream_buf \<Rightarrow> (bool \<times> stream_buf) option" where
  "finish_added sb =
     (if sb_len sb > 0 \<and> b_len (sb_buf sb) \<ge> sb_len sb then
        (case buf_init_dowork (sb_residual sb) 0 of
           (False, _) \<Rightarrow> None
         | (True, r) \<Rightarrow>
             if b_len (sb_buf sb) > sb_len sb then
               (case buf_copy_excess r (sb_buf sb) (sb_len sb) of
                  (False, _) \<Rightarrow> None
                | (True, r, b) \<Rightarrow> Some (True, sb\<lparr>sb_residual := r, sb_buf := b\<rparr>))
             else Some (True, sb\<lparr>sb_residual := r\<rparr>))
      else do { sb \<leftarrow> stream_buf_set_next sb; Some (False, sb) })"

definition stream_buf_added :: "stream_buf \<Rightarrow> int \<Rightarrow> (bool \<times> stream_buf) option" where
  "stream_buf_added sb length_added =
     (let sb = (if length_added > 0 then sb\<lparr>sb_buf := (sb_buf sb)\<lparr>b_len := b_len (sb_buf sb) + length_added\<rparr>\<rparr> else sb) in
      if sb_len sb < 0 \<and> b_len (sb_buf sb) \<ge> 2 then
        (case port_share_check sb of
           (False, sb) \<Rightarrow> Some (False, sb)
         | (True, sb) \<Rightarrow>
             do { (ok, sb) \<leftarrow> read_length sb;
                  if \<not> ok then Some (False, sb) else finish_added sb })
      else finish_added sb)"

definition stream_buf_read_setup_dowork :: "stream_buf \<Rightarrow> (bool \<times> stream_buf) option" where
  "stream_buf_read_setup_dowork sb =
     do { sb \<leftarrow> (if b_len (sb_residual sb) \<noteq> 0 \<and> \<not> residual_fully_formed sb then
            (case buf_copy (sb_buf sb) (sb_residual sb) of
               (False, _) \<Rightarrow> None
             | (True, b) \<Rightarrow>
                 (case buf_init_dowork (sb_residual sb) 0 of
                    (False, _) \<Rightarrow> None
                  | (True, r) \<Rightarrow>
                      do { (formed, sb) \<leftarrow> stream_buf_added (sb\<lparr>sb_buf := b, sb_residual := r\<rparr>) 0;
                           Some (sb\<lparr>residual_fully_formed := formed\<rparr>) }))
          else Some sb);
          sb \<leftarrow> (if \<not> residual_fully_formed sb then stream_buf_set_next sb else Some sb);
          Some (\<not> residual_fully_formed sb, sb) }"

text \<open>
  \<open>link_socket_read_tcp\<close>: the value returned, the buffer of the caller, whether the peer closed the
  connection (\<open>stream_reset\<close>), and the new state.
\<close>

definition link_socket_read_tcp :: "stream_buf \<Rightarrow> buffer \<Rightarrow> int + bytes \<Rightarrow> (int \<times> buffer \<times> bool \<times> stream_buf) option" where
  "link_socket_read_tcp sb buf r =
     do { (len, sb) \<leftarrow>
            (if \<not> residual_fully_formed sb then
               do { frag \<leftarrow> stream_buf_get_next sb;
                    case r of
                      Inl e \<Rightarrow> do { ASSERT (e \<le> 0); Some (e, sb) }
                    | Inr bs \<Rightarrow> do { ASSERT (int (length bs) \<le> buf_len frag);
                                    Some (int (length bs), sb\<lparr>sb_buf := buf_poke (sb_buf sb) (b_offset frag) bs\<rparr>) } }
             else Some (0, sb));
          if \<not> residual_fully_formed sb \<and> len \<le> 0 then Some (len, buf\<lparr>b_len := len\<rparr>, len = 0, sb)
          else do {
            (complete, sb) \<leftarrow> (if residual_fully_formed sb then Some (True, sb) else stream_buf_added sb len);
            if complete then
              do { buf \<leftarrow> stream_buf_get_final sb;
                   Some (b_len buf, buf, False, stream_buf_reset sb) }
            else Some (0, buf\<lparr>b_len := 0\<rparr>, False, sb) } }"

text \<open>\<open>link_socket_write_tcp\<close>: the buffer that goes to \<open>send\<close>.\<close>

definition link_socket_write_tcp :: "stream_buf \<Rightarrow> buffer \<Rightarrow> buffer option" where
  "link_socket_write_tcp sb buf =
     (let len = (word_of_int (buf_len buf) :: u16) in
      do { ASSERT (uint len \<le> sb_maxlen sb);
           case buf_write_prepend buf (htons len) of (ok, buf) \<Rightarrow> do { ASSERT ok; Some buf } })"

end
