(* ===== verification/Stream_Props.thy ===== *)
theory Stream_Props
  imports Stream_Buf "HOL-Library.Sublist"
begin

text \<open>
  The reader of \<open>Stream_Buf\<close> gives back the packets that were written, for every way the stream is cut into reads.

  \<open>pending\<close> bytes were received and not delivered; the states of the reader are \<open>idle\<close> (after a reset, the pending bytes
  are in \<open>residual\<close>), \<open>filling\<close> (they are in \<open>buf\<close>) and \<open>formed\<close> (a whole packet is in \<open>buf\<close>).
\<close>

definition frame :: "bytes \<Rightarrow> bytes" where
  "frame p = htons (of_nat (length p)) @ p"

definition frames :: "bytes list \<Rightarrow> bytes" where
  "frames ps = concat (map frame ps)"

definition valid_packet :: "int \<Rightarrow> bytes \<Rightarrow> bool" where
  "valid_packet m p \<longleftrightarrow> 1 \<le> length p \<and> int (length p) \<le> m \<and> length p < 65536"

lemma length_frame [simp]: "length (frame p) = length p + 2"
  by (simp add: frame_def)

lemma frames_simps [simp]: "frames [] = []" "frames (p # ps) = frame p @ frames ps"
  by (simp_all add: frames_def)

lemma len_word: "length p < 65536 \<Longrightarrow> uint (of_nat (length p) :: u16) = int (length p)"
  by (simp add: unsigned_of_nat take_bit_nat_eq_self flip: uint_nat)

section \<open>Invariants\<close>

definition base :: "stream_buf \<Rightarrow> bool" where
  "base sb \<longleftrightarrow> 2 \<le> sb_maxlen sb \<and> buf_wf (sb_init sb) \<and> b_len (sb_init sb) = 0
     \<and> b_offset (sb_init sb) + sb_maxlen sb + 2 \<le> b_capacity (sb_init sb)
     \<and> buf_wf (sb_residual sb) \<and> b_capacity (sb_residual sb) = sb_maxlen sb
     \<and> \<not> sb_error sb \<and> port_share_state sb = PS_DISABLED
     \<and> buf_wf (sb_buf sb) \<and> b_capacity (sb_buf sb) = b_capacity (sb_init sb)"

text \<open>The bytes of the packet at hand, with the length prefix that was taken off.\<close>

definition gathered :: "stream_buf \<Rightarrow> bytes \<Rightarrow> bool" where
  "gathered sb pend \<longleftrightarrow>
     (sb_len sb = -1 \<and> b_offset (sb_buf sb) = b_offset (sb_init sb) \<and> buf_contents (sb_buf sb) = pend
        \<and> int (length pend) \<le> sb_maxlen sb)
   \<or> (1 \<le> sb_len sb \<and> sb_len sb \<le> sb_maxlen sb \<and> sb_len sb < 65536 \<and> b_offset (sb_buf sb) = b_offset (sb_init sb) + 2
        \<and> pend = htons (word_of_int (sb_len sb)) @ buf_contents (sb_buf sb)
        \<and> int (length (buf_contents (sb_buf sb))) \<le> sb_maxlen sb)"

definition filling :: "stream_buf \<Rightarrow> bytes \<Rightarrow> bool" where
  "filling sb pend \<longleftrightarrow> base sb \<and> \<not> residual_fully_formed sb \<and> buf_contents (sb_residual sb) = [] \<and> gathered sb pend
     \<and> (if sb_len sb < 0 then length pend < 2 else int (length (buf_contents (sb_buf sb))) < sb_len sb)
     \<and> sb_next sb = (sb_buf sb)\<lparr>b_offset := b_offset (sb_buf sb) + b_len (sb_buf sb),
          b_len := (if sb_len sb \<ge> 0 then sb_len sb else sb_maxlen sb) - b_len (sb_buf sb)\<rparr>"

definition idle :: "stream_buf \<Rightarrow> bytes \<Rightarrow> bool" where
  "idle sb pend \<longleftrightarrow> base sb \<and> \<not> residual_fully_formed sb \<and> sb_len sb = -1 \<and> b_offset (sb_buf sb) = b_offset (sb_init sb)
     \<and> buf_contents (sb_buf sb) = [] \<and> buf_contents (sb_residual sb) = pend \<and> int (length pend) \<le> sb_maxlen sb"

definition formed :: "stream_buf \<Rightarrow> bytes \<Rightarrow> bytes \<Rightarrow> bool" where
  "formed sb p r \<longleftrightarrow> base sb \<and> buf_contents (sb_buf sb) = p \<and> buf_contents (sb_residual sb) = r
     \<and> int (length r) \<le> sb_maxlen sb"

lemma len_contents: "buf_wf b \<Longrightarrow> b_len b = int (length (buf_contents b))"
  by (simp add: length_buf_contents)

text \<open>The space that the next read asks for is inside the block.\<close>

lemma set_next_ok:
  assumes "base sb" "gathered sb pend" "if sb_len sb < 0 then length pend < 2 else int (length (buf_contents (sb_buf sb))) < sb_len sb"
  shows "\<exists>sb'. stream_buf_set_next sb = Some sb' \<and> sb' = sb\<lparr>sb_next := (sb_buf sb)\<lparr>b_offset := b_offset (sb_buf sb) + b_len (sb_buf sb),
          b_len := (if sb_len sb \<ge> 0 then sb_len sb else sb_maxlen sb) - b_len (sb_buf sb)\<rparr>\<rparr>"
proof -
  let ?b = "sb_buf sb" and ?m = "if sb_len sb \<ge> 0 then sb_len sb else sb_maxlen sb"
  have wf: "buf_wf ?b" and cap: "b_capacity ?b = b_capacity (sb_init sb)" and i: "buf_wf (sb_init sb)"
    and room: "b_offset (sb_init sb) + sb_maxlen sb + 2 \<le> b_capacity (sb_init sb)" "2 \<le> sb_maxlen sb"
    using assms(1) by (auto simp: base_def)
  have l: "b_len ?b = int (length (buf_contents ?b))" by (rule len_contents[OF wf])
  have pos: "0 < ?m - b_len ?b" using assms(2,3) room l by (auto simp: gathered_def split: if_splits)
  have le: "b_offset ?b + ?m \<le> b_capacity ?b"
    using assms(2) room cap by (auto simp: gathered_def)
  have "b_offset ?b \<ge> 0" "b_capacity ?b < BUF_SIZE_MAX" "b_len ?b \<ge> 0" using wf by (auto elim: buf_wf_E)
  then have "buf_safe ?b (nat (?m - b_len ?b))"
    using wf le pos by (simp add: buf_safe_def buf_size_valid_def)
  then show ?thesis using pos by (simp add: stream_buf_set_next_def Let_def)
qed

lemma filling_next:
  assumes "base sb" "gathered sb pend" "if sb_len sb < 0 then length pend < 2 else int (length (buf_contents (sb_buf sb))) < sb_len sb"
    "\<not> residual_fully_formed sb" "buf_contents (sb_residual sb) = []"
  shows "\<exists>sb'. stream_buf_set_next sb = Some sb' \<and> filling sb' pend"
proof -
  obtain sb' where s: "stream_buf_set_next sb = Some sb'"
    "sb' = sb\<lparr>sb_next := (sb_buf sb)\<lparr>b_offset := b_offset (sb_buf sb) + b_len (sb_buf sb),
          b_len := (if sb_len sb \<ge> 0 then sb_len sb else sb_maxlen sb) - b_len (sb_buf sb)\<rparr>\<rparr>"
    using set_next_ok[OF assms(1-3)] by blast
  have "filling sb' pend" unfolding filling_def s(2) using assms by (simp add: base_def gathered_def)
  then show ?thesis using s(1) by blast
qed

section \<open>A packet is complete\<close>

lemma truncate_wf:
  assumes "buf_wf b" "n \<le> length (buf_contents b)"
  shows "buf_wf (b\<lparr>b_len := int n\<rparr>)" "buf_contents (b\<lparr>b_len := int n\<rparr>) = take n (buf_contents b)"
proof -
  obtain d where d: "b_data b = Some d" "int (length d) = b_capacity b" "0 \<le> b_offset b"
    "0 \<le> b_len b" "b_offset b + b_len b \<le> b_capacity b" "b_capacity b < BUF_SIZE_MAX"
    using assms(1) by (rule buf_wf_E)
  have n: "int n \<le> b_len b" using assms len_contents by simp
  then show "buf_wf (b\<lparr>b_len := int n\<rparr>)" using d by (simp add: buf_wf_def)
  show "buf_contents (b\<lparr>b_len := int n\<rparr>) = take n (buf_contents b)"
    using d n peek_take[of n "nat (b_len b)" d "b_offset b"] by (simp add: buf_contents_def buf_len_def buf_valid_def)
qed

lemma copy_excess_ok:
  assumes "buf_wf r" "buf_contents r = []" "b_offset r = 0" "buf_wf b" "n < length (buf_contents b)"
    "int (length (buf_contents b)) \<le> b_capacity r"
  shows "\<exists>r'. buf_copy_excess r b (int n) = (True, r', b\<lparr>b_len := int n\<rparr>) \<and> buf_wf r' \<and> b_capacity r' = b_capacity r
    \<and> buf_contents r' = drop n (buf_contents b)"
proof -
  have n: "n \<le> length (buf_contents b)" using assms(5) by simp
  obtain b' where b': "buf_advance b (int n) = (True, b')" "buf_wf b'" "buf_contents b' = drop n (buf_contents b)"
    using buf_advance_wf[OF assms(4) n] by blast
  have "b_len r = 0" using len_contents[OF assms(1)] assms(2) by simp
  then have "length (buf_contents b') \<le> buf_back r" using assms(3,6) b'(3) by (simp add: buf_back_def)
  then obtain r' where r': "buf_write r (buf_contents b') = (True, r')" "buf_wf r'" "buf_contents r' = drop n (buf_contents b)"
      "buf_back r' = buf_back r - length (buf_contents b')" "buf_front r' = buf_front r"
    using buf_write_room[OF assms(1)] assms(2) b'(3) by (metis append_Nil)
  have "b_capacity r' = b_capacity r"
    using r'(1) by (auto simp: buf_write_def buf_write_alloc_def buf_poke_def split: if_splits option.splits)
  moreover have "int n < b_len b" using assms(5) len_contents[OF assms(4)] by simp
  ultimately show ?thesis using r' b' by (simp add: buf_copy_excess_def buf_copy_def Let_def)
qed

lemma finish_added_ok:
  assumes "base sb" "\<not> residual_fully_formed sb" "buf_contents (sb_residual sb) = []" "gathered sb pend"
    "sb_len sb < 0 \<longrightarrow> length pend < 2"
  shows "(\<exists>sb' p r. finish_added sb = Some (True, sb') \<and> pend = frame p @ r \<and> formed sb' p r \<and> valid_packet (sb_maxlen sb) p)
    \<or> (\<exists>sb'. finish_added sb = Some (False, sb') \<and> filling sb' pend)"
proof (cases "sb_len sb > 0 \<and> b_len (sb_buf sb) \<ge> sb_len sb")
  case False
  have "b_len (sb_buf sb) = int (length (buf_contents (sb_buf sb)))" using assms(1) by (intro len_contents) (simp add: base_def)
  then have "if sb_len sb < 0 then length pend < 2 else int (length (buf_contents (sb_buf sb))) < sb_len sb"
    using False assms(4,5) by (auto simp: gathered_def)
  from filling_next[OF assms(1,4) this assms(2,3)] show ?thesis using False by (auto simp: finish_added_def)
next
  case True
  let ?b = "sb_buf sb" and ?r = "sb_residual sb"
  define n where "n = nat (sb_len sb)"
  have wf: "buf_wf ?b" "buf_wf ?r" and rc: "b_capacity ?r = sb_maxlen sb" using assms(1) by (auto simp: base_def)
  have l: "b_len ?b = int (length (buf_contents ?b))" by (rule len_contents[OF wf(1)])
  have g: "1 \<le> sb_len sb" "sb_len sb \<le> sb_maxlen sb" "sb_len sb < 65536" "pend = htons (word_of_int (sb_len sb)) @ buf_contents ?b"
    "int (length (buf_contents ?b)) \<le> sb_maxlen sb"
    using assms(4) True by (auto simp: gathered_def)
  have n: "sb_len sb = int n" "n \<le> length (buf_contents ?b)" using True l by (auto simp: n_def nat_le_iff)
  obtain r0 where r0: "buf_init_dowork ?r 0 = (True, r0)" "buf_wf r0" "buf_contents r0 = []" "b_capacity r0 = sb_maxlen sb" "b_offset r0 = 0"
  proof -
    have "fst (buf_init_dowork ?r 0)" using buf_init_ok[OF wf(2), of 0] wf(2) rc g by (auto elim: buf_wf_E)
    then obtain r0 where r: "buf_init_dowork ?r 0 = (True, r0)" by (cases "buf_init_dowork ?r 0") auto
    moreover have "b_offset r0 = 0" using r by (auto simp: buf_init_dowork_def split: if_splits)
    ultimately show ?thesis using that buf_init_wf[OF wf(2) r] rc by auto
  qed
  let ?p = "take n (buf_contents ?b)" and ?rest = "drop n (buf_contents ?b)"
  have "pend = frame ?p @ ?rest" using g(4) n by (simp add: frame_def)
  moreover have v: "valid_packet (sb_maxlen sb) ?p" using g n by (simp add: valid_packet_def)
  moreover have "\<exists>sb'. finish_added sb = Some (True, sb') \<and> formed sb' ?p ?rest"
  proof (cases "b_len ?b > sb_len sb")
    case False
    then have e: "?p = buf_contents ?b" "?rest = []" using n l by simp_all
    have "formed (sb\<lparr>sb_residual := r0\<rparr>) ?p ?rest" unfolding e formed_def using assms(1) r0 g by (simp add: base_def)
    then show ?thesis using True False r0(1) by (simp add: finish_added_def)
  next
    case longer: True
    then have "n < length (buf_contents ?b)" using n l by simp
    moreover have "int (length (buf_contents ?b)) \<le> b_capacity r0" using g r0(4) by simp
    ultimately obtain r' where r': "buf_copy_excess r0 ?b (int n) = (True, r', ?b\<lparr>b_len := int n\<rparr>)" "buf_wf r'" "b_capacity r' = b_capacity r0"
      "buf_contents r' = ?rest"
      using copy_excess_ok[OF r0(2,3,5) wf(1)] by blast
    have "formed (sb\<lparr>sb_residual := r', sb_buf := ?b\<lparr>b_len := int n\<rparr>\<rparr>) ?p ?rest"
      unfolding formed_def using assms(1) r0 r' g truncate_wf[OF wf(1) n(2)] by (simp add: base_def)
    then show ?thesis using True longer r0(1) r'(1) n(1) by (simp add: finish_added_def)
  qed
  ultimately show ?thesis by blast
qed

section \<open>The length prefix\<close>

lemma stream_buf_added_ok:
  assumes "base sb" "\<not> residual_fully_formed sb" "buf_contents (sb_residual sb) = []" "gathered sb pend"
    "pend @ rest = frames ps" "\<forall>p \<in> set ps. valid_packet (sb_maxlen sb) p"
  shows "(\<exists>sb' p r. stream_buf_added sb 0 = Some (True, sb') \<and> pend = frame p @ r \<and> formed sb' p r \<and> valid_packet (sb_maxlen sb) p)
    \<or> (\<exists>sb'. stream_buf_added sb 0 = Some (False, sb') \<and> filling sb' pend)"
proof (cases "sb_len sb < 0 \<and> b_len (sb_buf sb) \<ge> 2")
  case False
  have "b_len (sb_buf sb) = int (length (buf_contents (sb_buf sb)))" using assms(1) by (intro len_contents) (simp add: base_def)
  then have "sb_len sb < 0 \<longrightarrow> length pend < 2" using False assms(4) by (auto simp: gathered_def)
  from finish_added_ok[OF assms(1-4) this] 
  have "(\<exists>sb' p r. finish_added sb = Some (True, sb') \<and> pend = frame p @ r \<and> formed sb' p r \<and> valid_packet (sb_maxlen sb) p)
    \<or> (\<exists>sb'. finish_added sb = Some (False, sb') \<and> filling sb' pend)" .
  moreover have "stream_buf_added sb 0 = finish_added sb" using False by (auto simp: stream_buf_added_def)
  ultimately show ?thesis by simp
next
  case True
  let ?b = "sb_buf sb"
  have wf: "buf_wf ?b" using assms(1) by (simp add: base_def)
  have g: "sb_len sb = -1" "b_offset ?b = b_offset (sb_init sb)" "buf_contents ?b = pend" "int (length pend) \<le> sb_maxlen sb"
    using assms(4) True by (auto simp: gathered_def)
  have l2: "2 \<le> length pend" using True len_contents[OF wf] g(3) by simp
  then obtain p ps' where ps: "ps = p # ps'" using assms(5) by (cases ps) auto
  have v: "valid_packet (sb_maxlen sb) p" using assms(6) ps by simp
  have "take 2 pend = take 2 (pend @ rest)" using l2 by simp
  also have "\<dots> = htons (of_nat (length p))" unfolding assms(5) ps by (simp add: frame_def)
  finally have h: "take 2 pend = htons (of_nat (length p))" .
  obtain b' where b': "buf_read ?b 2 = (Some (take 2 pend), b')" "buf_wf b'" "buf_contents b' = drop 2 pend" "buf_front b' = buf_front ?b + 2"
    using buf_read_enough[OF wf, of 2] l2 g(3) by auto
  have cap: "b_capacity b' = b_capacity ?b" using b'(1) by (auto simp: buf_read_def buf_read_alloc_def split: if_splits option.splits)
  have off: "b_offset b' = b_offset ?b + 2"
    using b'(2,4) wf by (auto simp: buf_front_def elim!: buf_wf_E)
  let ?sb = "sb\<lparr>sb_buf := b', sb_len := int (length p)\<rparr>"
  have n: "uint (ntohs (take 2 pend)) = int (length p)" unfolding h using v by (simp add: len_word valid_packet_def)
  have rl: "read_length sb = Some (True, ?sb)"
    using b'(1) n v by (auto simp: read_length_def Let_def valid_packet_def)
  have ps_ok: "port_share_check sb = (True, sb)" using assms(1) by (simp add: port_share_check_def base_def)
  have "base ?sb" using assms(1) b'(2) cap by (simp add: base_def)
  moreover have "gathered ?sb pend"
  proof -
    have "pend = htons (word_of_int (int (length p))) @ drop 2 pend" using h append_take_drop_id[of 2 pend] by simp
    then show ?thesis using v off g b'(3) by (simp add: gathered_def valid_packet_def)
  qed
  moreover have "\<not> residual_fully_formed ?sb" "buf_contents (sb_residual ?sb) = []" "sb_len ?sb < 0 \<longrightarrow> length pend < 2"
    using assms(2,3) by simp_all
  ultimately have "(\<exists>sb' p r. finish_added ?sb = Some (True, sb') \<and> pend = frame p @ r \<and> formed sb' p r \<and> valid_packet (sb_maxlen ?sb) p)
    \<or> (\<exists>sb'. finish_added ?sb = Some (False, sb') \<and> filling sb' pend)"
    using finish_added_ok[of ?sb pend] by blast
  moreover have "stream_buf_added sb 0 = finish_added ?sb" using True ps_ok rl by (simp add: stream_buf_added_def)
  ultimately show ?thesis by simp
qed

section \<open>Setting up a read, and reading\<close>

lemma maxlen_keeps:
  "stream_buf_set_next sb = Some sb' \<Longrightarrow> sb_maxlen sb' = sb_maxlen sb"
  "stream_buf_added sb k = Some (b, sb') \<Longrightarrow> sb_maxlen sb' = sb_maxlen sb"
  by (auto simp: stream_buf_set_next_def stream_buf_added_def finish_added_def read_length_def port_share_check_def
      stream_buf_reset_def Let_def bind_Some split: if_splits option.splits prod.splits bool.splits)

lemma setup_ok:
  assumes "idle sb pend \<or> filling sb pend" "pend @ rest = frames ps" "\<forall>p \<in> set ps. valid_packet (sb_maxlen sb) p"
  shows "(\<exists>sb' p r. stream_buf_read_setup_dowork sb = Some (False, sb') \<and> residual_fully_formed sb' \<and> pend = frame p @ r
        \<and> formed sb' p r \<and> valid_packet (sb_maxlen sb) p \<and> sb_maxlen sb' = sb_maxlen sb)
    \<or> (\<exists>sb'. stream_buf_read_setup_dowork sb = Some (True, sb') \<and> filling sb' pend \<and> sb_maxlen sb' = sb_maxlen sb)"
proof (cases "b_len (sb_residual sb) = 0")
  case True
  have bs: "base sb" using assms(1) by (auto simp: idle_def filling_def)
  then have r0: "buf_contents (sb_residual sb) = []" using True len_contents[of "sb_residual sb"] by (simp add: base_def)
  have nr: "\<not> residual_fully_formed sb" using assms(1) by (auto simp: idle_def filling_def)
  have "gathered sb pend \<and> (if sb_len sb < 0 then length pend < 2 else int (length (buf_contents (sb_buf sb))) < sb_len sb)"
    using assms(1) r0 by (auto simp: idle_def filling_def gathered_def)
  then obtain sb' where "stream_buf_set_next sb = Some sb'" "filling sb' pend"
    using filling_next[OF bs _ _ nr r0, of pend] by blast
  then show ?thesis using True nr maxlen_keeps(1) by (auto simp: stream_buf_read_setup_dowork_def filling_def)
next
  case False
  have wr: "base sb" using assms(1) by (auto simp: idle_def filling_def)
  then have "buf_contents (sb_residual sb) \<noteq> []" using False len_contents[of "sb_residual sb"] by (auto simp: base_def)
  then have id: "idle sb pend" using assms(1) by (auto simp: filling_def)
  let ?b = "sb_buf sb"
  have i: "buf_wf ?b" "buf_contents ?b = []" "b_offset ?b = b_offset (sb_init sb)" "b_capacity ?b = b_capacity (sb_init sb)"
    "buf_wf (sb_residual sb)" "buf_contents (sb_residual sb) = pend" "int (length pend) \<le> sb_maxlen sb" "\<not> residual_fully_formed sb"
    "b_offset (sb_init sb) + sb_maxlen sb + 2 \<le> b_capacity (sb_init sb)" "sb_len sb = -1" "b_capacity (sb_residual sb) = sb_maxlen sb"
    using id by (auto simp: idle_def base_def)
  have "b_len ?b = 0" using len_contents[OF i(1)] i(2) by simp
  then have "length pend \<le> buf_back ?b" using i by (simp add: buf_back_def)
  then obtain b' where b': "buf_write ?b pend = (True, b')" "buf_wf b'" "buf_contents b' = pend" "buf_front b' = buf_front ?b"
    using buf_write_room[OF i(1)] i(2) by fastforce
  have c: "b_capacity b' = b_capacity ?b" "b_offset b' = b_offset ?b"
    using b'(1) by (auto simp: buf_write_def buf_write_alloc_def buf_poke_def split: if_splits option.splits)
  have "fst (buf_init_dowork (sb_residual sb) 0)"
    using buf_init_ok[OF i(5), of 0] i(5) by (auto elim: buf_wf_E)
  then obtain r0 where r0: "buf_init_dowork (sb_residual sb) 0 = (True, r0)" by (cases "buf_init_dowork (sb_residual sb) 0") auto
  have r0w: "buf_wf r0" "buf_contents r0 = []" "b_capacity r0 = sb_maxlen sb" using buf_init_wf[OF i(5) r0] i(11) by auto
  let ?sb = "sb\<lparr>sb_buf := b', sb_residual := r0\<rparr>"
  have bs: "base ?sb" using wr b'(2) c r0w i(4) by (simp add: base_def)
  have g: "gathered ?sb pend" using i(3,7,10) c b'(3) by (simp add: gathered_def)
  have s0: "stream_buf_read_setup_dowork sb =
      do { (fm, sb) \<leftarrow> stream_buf_added ?sb 0;
           let sb = sb\<lparr>residual_fully_formed := fm\<rparr>;
           sb \<leftarrow> (if \<not> residual_fully_formed sb then stream_buf_set_next sb else Some sb);
           Some (\<not> residual_fully_formed sb, sb) }"
    using False i(6,8) b'(1) r0 by (simp add: stream_buf_read_setup_dowork_def buf_copy_def Let_def split_def)
  have nrf: "\<not> residual_fully_formed ?sb" "buf_contents (sb_residual ?sb) = []" "\<forall>p \<in> set ps. valid_packet (sb_maxlen ?sb) p"
    using i(8) r0w assms(3) by simp_all
  consider (formed) sb' p r where "stream_buf_added ?sb 0 = Some (True, sb')" "pend = frame p @ r" "formed sb' p r" "valid_packet (sb_maxlen sb) p"
    | (more) sb' where "stream_buf_added ?sb 0 = Some (False, sb')" "filling sb' pend"
    using stream_buf_added_ok[OF bs nrf(1,2) g assms(2) nrf(3)] by auto
  then show ?thesis
  proof cases
    case formed
    have "formed (sb'\<lparr>residual_fully_formed := True\<rparr>) p r" using formed(3) by (simp add: formed_def base_def)
    then show ?thesis using s0 formed maxlen_keeps(2)[OF formed(1)] by auto
  next
    case more
    let ?s = "sb'\<lparr>residual_fully_formed := False\<rparr>"
    have "?s = sb'" using more(2) by (simp add: filling_def)
    then obtain s2 where "stream_buf_set_next ?s = Some s2" "filling s2 pend"
      using filling_next[of sb' pend] more(2) by (auto simp: filling_def)
    then show ?thesis using s0 more(1) maxlen_keeps(2)[OF more(1)] maxlen_keeps(1) by (auto simp: filling_def)
  qed
qed

lemma reset_idle:
  assumes "formed sb p r"
  shows "idle (stream_buf_reset sb) r"
proof -
  have b: "base sb" using assms by (simp add: formed_def)
  then obtain d where d: "b_data (sb_buf sb) = Some d" "int (length d) = b_capacity (sb_init sb)"
    by (auto simp: base_def elim: buf_wf_E)
  let ?b = "(sb_init sb)\<lparr>b_data := b_data (sb_buf sb)\<rparr>"
  have i: "buf_wf (sb_init sb)" "b_len (sb_init sb) = 0" using b by (auto simp: base_def)
  then have wf: "buf_wf ?b" using d by (auto simp: buf_wf_def split: option.splits)
  then have "buf_contents ?b = []" using len_contents[OF wf] i(2) by simp
  then show ?thesis using assms b wf by (simp add: idle_def stream_buf_reset_def formed_def base_def)
qed

lemma poke_write:
  assumes "buf_wf b" "length bs \<le> buf_back b"
  shows "buf_write b bs = (True, (buf_poke b (b_offset b + b_len b) bs)\<lparr>b_len := b_len b + int (length bs)\<rparr>)"
proof -
  have "buf_safe b (length bs)"
    using assms by (auto simp: buf_safe_def buf_size_valid_def buf_back_def elim!: buf_wf_E)
  then show ?thesis using assms(1)
    by (auto simp: buf_write_def buf_write_alloc_def buf_bptr_def buf_poke_def)
qed

lemma read_formed:
  assumes "formed sb p r" "residual_fully_formed sb"
  shows "link_socket_read_tcp sb buf rv = Some (int (length p), sb_buf sb, False, stream_buf_reset sb)"
    "buf_contents (sb_buf sb) = p" "idle (stream_buf_reset sb) r"
proof -
  show c: "buf_contents (sb_buf sb) = p" "idle (stream_buf_reset sb) r" using assms(1) reset_idle by (auto simp: formed_def)
  have wf: "buf_wf (sb_buf sb)" using assms(1) by (simp add: formed_def base_def)
  then have "buf_defined (sb_buf sb)" by (auto simp: buf_defined_def elim: buf_wf_E)
  then show "link_socket_read_tcp sb buf rv = Some (int (length p), sb_buf sb, False, stream_buf_reset sb)"
    using assms(2) len_contents[OF wf] c(1) by (simp add: link_socket_read_tcp_def stream_buf_get_final_def)
qed

lemma read_filling:
  assumes "filling sb pend" "bs \<noteq> []" "int (length bs) \<le> b_len (sb_next sb)" "pend @ bs @ rest = frames ps"
    "\<forall>p \<in> set ps. valid_packet (sb_maxlen sb) p"
  shows "(\<exists>b sb' p r. link_socket_read_tcp sb buf (Inr bs) = Some (int (length p), b, False, sb') \<and> buf_contents b = p
        \<and> pend @ bs = frame p @ r \<and> idle sb' r \<and> valid_packet (sb_maxlen sb) p \<and> sb_maxlen sb' = sb_maxlen sb)
    \<or> (\<exists>b sb'. link_socket_read_tcp sb buf (Inr bs) = Some (0, b, False, sb') \<and> filling sb' (pend @ bs) \<and> sb_maxlen sb' = sb_maxlen sb)"
proof -
  let ?b = "sb_buf sb"
  have f: "base sb" "\<not> residual_fully_formed sb" "buf_contents (sb_residual sb) = []" "gathered sb pend"
    "sb_next sb = ?b\<lparr>b_offset := b_offset ?b + b_len ?b, b_len := (if sb_len sb \<ge> 0 then sb_len sb else sb_maxlen sb) - b_len ?b\<rparr>"
    using assms(1) by (auto simp: filling_def)
  have wf: "buf_wf ?b" using f(1) by (simp add: base_def)
  have l: "b_len ?b = int (length (buf_contents ?b))" by (rule len_contents[OF wf])
  have cap: "b_offset ?b + (if sb_len sb \<ge> 0 then sb_len sb else sb_maxlen sb) \<le> b_capacity ?b"
    using f(1,4) by (auto simp: gathered_def base_def)
  have n: "int (length bs) \<le> (if sb_len sb \<ge> 0 then sb_len sb else sb_maxlen sb) - b_len ?b" using assms(3) f(5) by simp
  then have room: "length bs \<le> buf_back ?b" using cap l by (simp add: buf_back_def)
  let ?w = "(buf_poke ?b (b_offset ?b + b_len ?b) bs)\<lparr>b_len := b_len ?b + int (length bs)\<rparr>"
  have w: "buf_wf ?w" "buf_contents ?w = buf_contents ?b @ bs"
    using buf_write_room[OF wf room] poke_write[OF wf room] by auto
  let ?sb = "sb\<lparr>sb_buf := ?w\<rparr>"
  have bs: "base ?sb" using f(1) w(1) by (simp add: base_def buf_poke_def)
  have g: "gathered ?sb (pend @ bs)"
    using f(4) n w(2) l by (auto simp: gathered_def buf_poke_def)
  have defd: "buf_defined (sb_next sb)" "buf_len (sb_next sb) = b_len (sb_next sb)"
  proof -
    show "buf_defined (sb_next sb)" using wf unfolding f(5) by (auto simp: buf_defined_def elim: buf_wf_E)
    show "buf_len (sb_next sb) = b_len (sb_next sb)" using n wf unfolding f(5) by (auto simp: buf_len_def buf_valid_def elim: buf_wf_E)
  qed
  have e: "link_socket_read_tcp sb buf (Inr bs) =
      do { (complete, sb) \<leftarrow> stream_buf_added ?sb 0;
           if complete then
              do { buf \<leftarrow> stream_buf_get_final sb;
                   Some (b_len buf, buf, False, stream_buf_reset sb) }
            else Some (0, buf\<lparr>b_len := 0\<rparr>, False, sb) }"
    using f(2,5) defd assms(2,3) by (simp add: link_socket_read_tcp_def stream_buf_get_next_def stream_buf_added_def buf_poke_def)
  have m: "sb_maxlen ?sb = sb_maxlen sb" "\<not> residual_fully_formed ?sb" "buf_contents (sb_residual ?sb) = []"
    "(pend @ bs) @ rest = frames ps" "\<forall>p \<in> set ps. valid_packet (sb_maxlen ?sb) p"
    using f(2,3) assms(4,5) by simp_all
  consider (formed) sb' p r where "stream_buf_added ?sb 0 = Some (True, sb')" "pend @ bs = frame p @ r" "formed sb' p r" "valid_packet (sb_maxlen sb) p"
    | (more) sb' where "stream_buf_added ?sb 0 = Some (False, sb')" "filling sb' (pend @ bs)"
    using stream_buf_added_ok[OF bs m(2,3) g m(4,5)] m(1) by auto
  then show ?thesis
  proof cases
    case formed
    have w': "buf_wf (sb_buf sb')" "buf_contents (sb_buf sb') = p" using formed(3) by (auto simp: formed_def base_def)
    then have "buf_defined (sb_buf sb')" by (auto simp: buf_defined_def elim: buf_wf_E)
    then have "link_socket_read_tcp sb buf (Inr bs) = Some (int (length p), sb_buf sb', False, stream_buf_reset sb')"
      using e formed(1) len_contents[OF w'(1)] w'(2) by (simp add: stream_buf_get_final_def)
    moreover have "sb_maxlen (stream_buf_reset sb') = sb_maxlen sb" using maxlen_keeps(2)[OF formed(1)] by (simp add: stream_buf_reset_def)
    ultimately show ?thesis using formed reset_idle[OF formed(3)] w'(2) by blast
  next
    case more
    then show ?thesis using e maxlen_keeps(2)[OF more(1)] by simp
  qed
qed

section \<open>Whole streams\<close>

lemma frames_head:
  assumes "frame p @ r = frames ps" "valid_packet m p" "\<forall>q \<in> set ps. valid_packet m q"
  shows "\<exists>ps'. ps = p # ps' \<and> r = frames ps'"
proof (cases ps)
  case Nil
  then have "length (frame p @ r) = 0" using assms(1) by simp
  then show ?thesis by simp
next
  case (Cons q qs)
  have h: "htons (of_nat (length p)) @ (p @ r) = htons (of_nat (length q)) @ (q @ frames qs)"
    using assms(1) Cons by (simp add: frame_def)
  then have "htons (of_nat (length p)) = htons (of_nat (length q))" "p @ r = q @ frames qs"
    by (simp_all add: append_eq_append_conv)
  then have "uint (of_nat (length p) :: u16) = uint (of_nat (length q) :: u16)" by (simp add: htons_inject)
  then have "length p = length q" using assms(2,3) Cons by (simp add: len_word valid_packet_def)
  then show ?thesis using \<open>p @ r = q @ frames qs\<close> Cons by simp
qed

text \<open>A reader that waits in the middle of a packet has no whole packet.\<close>

lemma filling_incomplete:
  assumes "filling sb (frames ps)" "\<forall>p \<in> set ps. valid_packet (sb_maxlen sb) p"
  shows "ps = []"
proof (rule ccontr)
  assume "ps \<noteq> []"
  then obtain p ps' where ps: "ps = p # ps'" by (cases ps) auto
  have v: "valid_packet (sb_maxlen sb) p" using assms(2) ps by simp
  have "2 \<le> length (frames ps)" using ps by simp
  then have l: "\<not> sb_len sb < 0" using assms(1) by (auto simp: filling_def)
  then have g: "1 \<le> sb_len sb" "sb_len sb < 65536" "frames ps = htons (word_of_int (sb_len sb)) @ buf_contents (sb_buf sb)"
    "int (length (buf_contents (sb_buf sb))) < sb_len sb"
    using assms(1) by (auto simp: filling_def gathered_def)
  have "htons (of_nat (length p)) @ (p @ frames ps') = htons (word_of_int (sb_len sb)) @ buf_contents (sb_buf sb)"
    using g(3) ps by (simp add: frame_def)
  then have "htons (of_nat (length p)) = htons (word_of_int (sb_len sb))" "p @ frames ps' = buf_contents (sb_buf sb)"
    by (simp_all add: append_eq_append_conv)
  then have "(of_nat (length p) :: u16) = word_of_int (sb_len sb)" by (simp add: htons_inject)
  moreover have "uint (word_of_int (sb_len sb) :: u16) = sb_len sb"
    using g(1,2) by (simp add: uint_word_of_int_eq take_bit_int_eq_self)
  ultimately have "int (length p) = sb_len sb" using len_word[of p] v by (simp add: valid_packet_def)
  then show False using \<open>p @ frames ps' = buf_contents (sb_buf sb)\<close> g(4) by (metis length_append le_add1 not_less of_nat_le_iff)
qed

text \<open>
  The reader on a stream of which the bytes \<open>wire\<close> are still to come. Each number bounds one read from above; the system returns
  at least one byte when there is one. When nothing is left to read, the socket is not readable and nothing happens.
\<close>

fun stream_run :: "nat list \<Rightarrow> stream_buf \<Rightarrow> bytes \<Rightarrow> (bytes list \<times> stream_buf \<times> bytes) option" where
  "stream_run [] sb wire = Some ([], sb, wire)"
| "stream_run (n # ns) sb wire =
     do { (need, sb) \<leftarrow> stream_buf_read_setup_dowork sb;
          if need \<and> wire = [] then stream_run ns sb wire
          else
            do { let k = (if need then min (max 1 n) (nat (b_len (sb_next sb))) else 0);
                 (len, buf, closed, sb) \<leftarrow> link_socket_read_tcp sb clear_buf (Inr (take k wire));
                 (ps, sb, wire) \<leftarrow> stream_run ns sb (drop k wire);
                 Some (if len > 0 then buf_contents buf # ps else ps, sb, wire) } }"

lemma stream_run_ok:
  assumes "idle sb pend \<or> filling sb pend" "pend @ wire = frames ps" "\<forall>p \<in> set ps. valid_packet (sb_maxlen sb) p"
  shows "\<exists>qs sb' w. stream_run ns sb wire = Some (qs, sb', w) \<and> prefix qs ps \<and> \<not> sb_error sb'
    \<and> (length wire + length ps \<le> length ns \<longrightarrow> qs = ps)"
  using assms
proof (induction ns arbitrary: sb pend wire ps)
  case Nil
  have "\<not> sb_error sb" using Nil.prems(1) by (auto simp: idle_def filling_def base_def)
  then show ?case by simp
next
  case (Cons n ns)
  consider (fm) sb1 p r where "stream_buf_read_setup_dowork sb = Some (False, sb1)" "residual_fully_formed sb1" "pend = frame p @ r"
      "formed sb1 p r" "valid_packet (sb_maxlen sb) p" "sb_maxlen sb1 = sb_maxlen sb"
    | (fl) sb1 where "stream_buf_read_setup_dowork sb = Some (True, sb1)" "filling sb1 pend" "sb_maxlen sb1 = sb_maxlen sb"
    using setup_ok[OF Cons.prems] by blast
  then show ?case
  proof cases
    case fm
    have "frame p @ (r @ wire) = frames ps" using Cons.prems(2) fm(3) by simp
    then obtain ps' where ps': "ps = p # ps'" "r @ wire = frames ps'" using frames_head[OF _ fm(5) Cons.prems(3)] by blast
    note rd = read_formed(1)[OF fm(4,2), of clear_buf "Inr (take 0 wire)"] read_formed(2,3)[OF fm(4,2)]
    have "\<forall>p \<in> set ps'. valid_packet (sb_maxlen (stream_buf_reset sb1)) p"
      using Cons.prems(3) ps'(1) fm(6) by (simp add: stream_buf_reset_def)
    then obtain qs sb' w where r: "stream_run ns (stream_buf_reset sb1) wire = Some (qs, sb', w)" "prefix qs ps'" "\<not> sb_error sb'"
        "length wire + length ps' \<le> length ns \<longrightarrow> qs = ps'"
      using Cons.IH[of "stream_buf_reset sb1" r wire ps'] rd(3) ps'(2) by blast
    have "0 < length p" using fm(5) by (auto simp: valid_packet_def)
    then have "stream_run (n # ns) sb wire = Some (p # qs, sb', w)" using fm(1) rd(1,2) r(1) by (simp add: Let_def)
    then show ?thesis using r(2-4) ps'(1) by simp
  next
    case fl
    note v1 = Cons.prems(3)[folded fl(3)]
    show ?thesis
    proof (cases "wire = []")
      case True
      then have "ps = []" using filling_incomplete[of sb1 ps] fl(2) Cons.prems(2) v1 by simp
      then show ?thesis using Cons.IH[of sb1 pend wire ps] fl True Cons.prems(2) by auto
    next
      case False
      define k where "k = min (max 1 n) (nat (b_len (sb_next sb1)))"
      have "0 < b_len (sb_next sb1)"
        using fl(2) len_contents[of "sb_buf sb1"] by (auto simp: filling_def gathered_def base_def split: if_splits)
      then have k: "0 < k" "int k \<le> b_len (sb_next sb1)" by (auto simp: k_def)
      have bs: "take k wire \<noteq> []" "int (length (take k wire)) \<le> b_len (sb_next sb1)" using k False by auto
      have w: "pend @ take k wire @ drop k wire = frames ps" using Cons.prems(2) by simp
      have shorter: "length (drop k wire) < length wire" using k(1) False by (simp add: diff_less)
      from read_filling[OF fl(2) bs w v1, of clear_buf]
      consider (done1) b sb2 p r where "link_socket_read_tcp sb1 clear_buf (Inr (take k wire)) = Some (int (length p), b, False, sb2)"
          "buf_contents b = p" "pend @ take k wire = frame p @ r" "idle sb2 r" "valid_packet (sb_maxlen sb1) p" "sb_maxlen sb2 = sb_maxlen sb1"
        | (more) b sb2 where "link_socket_read_tcp sb1 clear_buf (Inr (take k wire)) = Some (0, b, False, sb2)"
          "filling sb2 (pend @ take k wire)" "sb_maxlen sb2 = sb_maxlen sb1"
        by blast
      then show ?thesis
      proof cases
        case done1
        have "frame p @ (r @ drop k wire) = frames ps" using w done1(3) by (metis append.assoc)
        then obtain ps' where ps': "ps = p # ps'" "r @ drop k wire = frames ps'" using frames_head[OF _ done1(5) v1] by blast
        have "\<forall>p \<in> set ps'. valid_packet (sb_maxlen sb2) p" using v1 ps'(1) done1(6) by simp
        then obtain qs sb' w' where r: "stream_run ns sb2 (drop k wire) = Some (qs, sb', w')" "prefix qs ps'" "\<not> sb_error sb'"
            "length (drop k wire) + length ps' \<le> length ns \<longrightarrow> qs = ps'"
          using Cons.IH[of sb2 r "drop k wire" ps'] done1(4) ps'(2) by blast
        have "0 < length p" using done1(5) by (auto simp: valid_packet_def)
        then have "stream_run (n # ns) sb wire = Some (p # qs, sb', w')"
          using fl(1) False done1(1,2) r(1) by (simp add: Let_def k_def)
        then show ?thesis using r(2-4) ps'(1) shorter by auto
      next
        case more
        have "\<forall>p \<in> set ps. valid_packet (sb_maxlen sb2) p" using v1 more(3) by simp
        then obtain qs sb' w' where r: "stream_run ns sb2 (drop k wire) = Some (qs, sb', w')" "prefix qs ps" "\<not> sb_error sb'"
            "length (drop k wire) + length ps \<le> length ns \<longrightarrow> qs = ps"
          using Cons.IH[of sb2 "pend @ take k wire" "drop k wire" ps] more(2) w by auto
        have "stream_run (n # ns) sb wire = Some (qs, sb', w')"
          using fl(1) False more(1) r(1) by (simp add: Let_def k_def)
        then show ?thesis using r(2-4) shorter by auto
      qed
    qed
  qed
qed

lemma init_idle:
  assumes "alloc_buf_sock_tun hr payload tr = Some b" "stream_buf_init b False = Some sb" "2 \<le> payload" "2 \<le> tr"
  shows "idle sb []" "sb_maxlen sb = payload"
proof -
  obtain b0 b1 where b: "alloc_buf (nat (hr + payload + tr)) = Some b0" "buf_init_dowork b0 hr = (True, b1)" "b = b1\<lparr>b_len := payload\<rparr>"
      "buf_safe b 0"
  proof -
    obtain b0 where b0: "alloc_buf (nat (hr + payload + tr)) = Some b0"
      using assms(1) by (cases "alloc_buf (nat (hr + payload + tr))") (auto simp: alloc_buf_sock_tun_def)
    obtain ok b1 where i: "buf_init_dowork b0 hr = (ok, b1)" by (cases "buf_init_dowork b0 hr")
    then show ?thesis using that[OF b0, of b1] assms(1) b0
      by (cases ok) (auto simp: alloc_buf_sock_tun_def Let_def split: if_splits)
  qed
  note w0 = alloc_buf_wf[OF b(1)]
  then have w0': "buf_wf b0" by simp
  note w1 = buf_init_wf[OF w0' b(2)]
  have hr: "0 \<le> hr" "b_offset b1 = hr" using b(2) by (auto simp: buf_init_dowork_def split: if_splits)
  have cap: "b_capacity b0 = int (nat (hr + payload + tr))" using b(1) by (auto simp: alloc_buf_def split: if_splits)
  obtain r where r: "alloc_buf (nat payload) = Some r"
    "sb = stream_buf_reset \<lparr>sb_init = b\<lparr>b_len := 0\<rparr>, sb_residual = r, sb_maxlen = payload,
            residual_fully_formed = False, sb_buf = b, sb_next = b, sb_len = -1, sb_error = False, port_share_state = PS_DISABLED\<rparr>"
    using assms(2) b(3) by (auto simp: stream_buf_init_def bind_Some)
  note wr = alloc_buf_wf[OF r(1)]
  have rc: "b_capacity r = payload" using r(1) assms(3) by (auto simp: alloc_buf_def split: if_splits)
  let ?b = "b\<lparr>b_len := 0\<rparr>"
  have wf: "buf_wf ?b" using w1 b(3) hr unfolding buf_wf_def by (auto split: option.splits)
  then have c: "buf_contents ?b = []" using len_contents[OF wf] by simp
  have "b_offset ?b + payload + 2 \<le> b_capacity ?b" using hr w1 b(3) cap assms(3,4) by simp
  then show "idle sb []" "sb_maxlen sb = payload"
    using wf c wr rc assms(3) by (simp_all add: r(2) idle_def base_def stream_buf_reset_def)
qed

lemma write_tcp_ok:
  assumes "buf_wf b" "2 \<le> buf_front b" "valid_packet (sb_maxlen sb) (buf_contents b)"
  shows "\<exists>b'. link_socket_write_tcp sb b = Some b' \<and> buf_contents b' = frame (buf_contents b)"
proof -
  have l: "buf_len b = int (length (buf_contents b))" using buf_len_wf[OF assms(1)] .
  have u: "uint (word_of_int (buf_len b) :: u16) = int (length (buf_contents b))"
    using len_word[of "buf_contents b"] assms(3) unfolding l by (simp add: valid_packet_def)
  obtain b' where "buf_write_prepend b (htons (word_of_int (buf_len b))) = (True, b')"
      "buf_contents b' = htons (word_of_int (buf_len b)) @ buf_contents b"
    using buf_prepend_room[OF assms(1), of "htons (word_of_int (buf_len b))"] assms(2) by auto
  then show ?thesis using u assms(3) l by (simp add: link_socket_write_tcp_def Let_def frame_def valid_packet_def)
qed

section \<open>Properties\<close>

text \<open>
  C8. Packets survive TCP. The peer writes packets of 1 to 65535 bytes that the receiver's buffers
  can hold; the stream reaches the reader in pieces of any size. Then no assertion fails, the packets
  that the reader delivers are the packets that were written, in order and unchanged, the connection is not
  marked broken, and after enough reads all of them have been delivered.
\<close>

theorem stream_reassembly:
  assumes "alloc_buf_sock_tun hr payload tr = Some b" "stream_buf_init b False = Some sb" "2 \<le> payload" "2 \<le> tr"
    and "\<forall>x \<in> set bufs. buf_wf x \<and> 2 \<le> buf_front x \<and> valid_packet payload (buf_contents x)" "payload \<le> sb_maxlen peer"
  shows "\<exists>outs qs sb' w. map (link_socket_write_tcp peer) bufs = map Some outs
    \<and> stream_run ns sb (concat (map buf_contents outs)) = Some (qs, sb', w)
    \<and> prefix qs (map buf_contents bufs) \<and> \<not> sb_error sb'
    \<and> (length (concat (map buf_contents outs)) + length bufs \<le> length ns \<longrightarrow> qs = map buf_contents bufs)"
proof -
  let ?ps = "map buf_contents bufs"
  have "\<exists>outs. map (link_socket_write_tcp peer) bufs = map Some outs \<and> map buf_contents outs = map frame ?ps"
    using assms(5)
  proof (induction bufs)
    case (Cons x xs)
    have "valid_packet (sb_maxlen peer) (buf_contents x)" using Cons.prems assms(6) by (auto simp: valid_packet_def)
    then obtain y where "link_socket_write_tcp peer x = Some y" "buf_contents y = frame (buf_contents x)"
      using write_tcp_ok[of x peer] Cons.prems by auto
    moreover obtain ys where "map (link_socket_write_tcp peer) xs = map Some ys" "map buf_contents ys = map frame (map buf_contents xs)"
      using Cons by auto
    ultimately show ?case by (intro exI[of _ "y # ys"]) simp
  qed simp
  then obtain outs where o: "map (link_socket_write_tcp peer) bufs = map Some outs" "map buf_contents outs = map frame ?ps" by blast
  note i = init_idle[OF assms(1-4)]
  have "\<forall>p \<in> set ?ps. valid_packet (sb_maxlen sb) p" using assms(5) i(2) by simp
  moreover have "[] @ frames ?ps = frames ?ps" by simp
  ultimately obtain qs sb' w where "stream_run ns sb (frames ?ps) = Some (qs, sb', w)" "prefix qs ?ps" "\<not> sb_error sb'"
      "length (frames ?ps) + length ?ps \<le> length ns \<longrightarrow> qs = ?ps"
    using stream_run_ok[of sb "[]" "frames ?ps" ?ps ns] i(1) by blast
  then show ?thesis using o by (intro exI[of _ outs] exI[of _ qs] exI[of _ sb'] exI[of _ w]) (simp add: frames_def)
qed

text \<open>Two packets, read in pieces of at most three bytes.\<close>

definition link_frame_buf :: "bytes \<Rightarrow> buffer" where
  "link_frame_buf p = \<lparr>b_capacity = 10, b_offset = 2, b_len = int (length p), b_data = Some ([0, 0] @ p @ replicate (8 - length p) 0)\<rparr>"

lemma stream_reassembly_witness:
  "\<exists>b sb qs sb' w. alloc_buf_sock_tun 4 6 2 = Some b \<and> stream_buf_init b False = Some sb
    \<and> stream_run (replicate 20 3) sb (concat (map buf_contents (map (the \<circ> link_socket_write_tcp sb) [link_frame_buf [1, 2, 3, 4, 5], link_frame_buf [9]])))
        = Some (qs, sb', w)
    \<and> qs = [[1, 2, 3, 4, 5], [9]]"
proof -
  obtain b sb where b: "alloc_buf_sock_tun 4 6 2 = Some b" "stream_buf_init b False = Some sb"
  proof -
    have "alloc_buf_sock_tun 4 6 2 \<noteq> None" "stream_buf_init (the (alloc_buf_sock_tun 4 6 2)) False \<noteq> None" by code_simp+
    then show ?thesis using that by (metis option.collapse)
  qed
  let ?x = "link_frame_buf [1, 2, 3, 4, 5]" and ?y = "link_frame_buf [9]"
  have c: "buf_contents ?x = [1, 2, 3, 4, 5]" "buf_contents ?y = [9]" by code_simp+
  have h: "\<forall>x \<in> set [?x, ?y]. buf_wf x \<and> 2 \<le> buf_front x \<and> valid_packet 6 (buf_contents x)"
    using c by (simp add: valid_packet_def) (simp add: buf_wf_def link_frame_buf_def buf_front_def BUF_SIZE_MAX_def)
  have m: "6 \<le> sb_maxlen sb" using init_idle(2)[OF b] by simp
  obtain outs qs sb' w where r: "map (link_socket_write_tcp sb) [?x, ?y] = map Some outs"
      "stream_run (replicate 20 3) sb (concat (map buf_contents outs)) = Some (qs, sb', w)"
      "length (concat (map buf_contents outs)) + 2 \<le> 20 \<longrightarrow> qs = [[1, 2, 3, 4, 5], [9]]"
  proof -
    have e: "map buf_contents [?x, ?y] = [[1, 2, 3, 4, 5], [9]]" "length [?x, ?y] = 2" "length (replicate 20 (3 :: nat)) = 20"
      using c by simp_all
    have "(2 :: int) \<le> 6" "(2 :: int) \<le> 2" by simp_all
    from stream_reassembly[OF b this h m, of "replicate 20 3", unfolded e] show ?thesis using that by blast
  qed
  have outs: "outs = map (the \<circ> link_socket_write_tcp sb) [?x, ?y]"
    using r(1) by (cases outs; cases "tl outs") auto
  have "buf_contents (the (link_socket_write_tcp sb ?x)) = frame [1, 2, 3, 4, 5]" "buf_contents (the (link_socket_write_tcp sb ?y)) = frame [9]"
    using write_tcp_ok[of ?x sb] write_tcp_ok[of ?y sb] h m c by (auto simp: valid_packet_def)
  then have "length (concat (map buf_contents outs)) + 2 \<le> 20" unfolding outs by simp
  then have "qs = [[1, 2, 3, 4, 5], [9]]" using r(3) by blast
  then show ?thesis using b r(2) unfolding outs by blast
qed

end
