(* ===== verification/Status_File.thy ===== *)
theory Status_File
  imports C_Integer
begin

text \<open>
  Status files (\<open>status.c\<close>): the text files a server writes its state to and reads it back from,
  line by line, and \<open>buf_parse\<close> of \<open>buffer.c\<close>, which takes such a line apart. The open file is its
  content and the file offset; the operating system is taken to write what it is given. Messages
  that only go to the log (\<open>msglevel\<close>), virtual outputs and the refresh timer are left out.
\<close>

section \<open>State\<close>

definition STATUS_OUTPUT_READ :: u32 where "STATUS_OUTPUT_READ = 1"
definition STATUS_OUTPUT_WRITE :: u32 where "STATUS_OUTPUT_WRITE = 2"
definition STATUS_PRINTF_MAXLEN :: nat where "STATUS_PRINTF_MAXLEN = 512"

text \<open>\<open>so_open\<close> is \<open>fd >= 0\<close>; \<open>so_read_buf\<close> holds what was read from the file and not consumed yet.\<close>

record status_output =
  so_flags :: u32
  so_open :: bool
  so_file :: bytes
  so_off :: nat
  so_read_buf :: bytes
  so_errors :: bool

definition so_can :: "u32 \<Rightarrow> status_output \<Rightarrow> bool" where
  "so_can f so \<longleftrightarrow> so_flags so AND f \<noteq> 0"

text \<open>
  Opening a file that exists with the given content, or \<open>None\<close> when \<open>open\<close> fails. Only a file that
  is opened for writing alone is truncated.
\<close>

definition status_open :: "bytes option \<Rightarrow> u32 \<Rightarrow> status_output" where
  "status_open file flags =
     (case file of
        None \<Rightarrow> \<lparr>so_flags = flags, so_open = False, so_file = [], so_off = 0, so_read_buf = [], so_errors = True\<rparr>
      | Some content \<Rightarrow> \<lparr>so_flags = flags, so_open = True,
          so_file = (if flags = STATUS_OUTPUT_WRITE then [] else content), so_off = 0, so_read_buf = [], so_errors = False\<rparr>)"

section \<open>Writing\<close>

text \<open>\<open>write\<close> at the file offset.\<close>

definition so_write :: "bytes \<Rightarrow> status_output \<Rightarrow> status_output" where
  "so_write bs so = so\<lparr>so_file := take (so_off so) (so_file so) @ bs @ drop (so_off so + length bs) (so_file so),
     so_off := so_off so + length bs\<rparr>"

definition status_reset :: "status_output \<Rightarrow> status_output" where
  "status_reset so = (if so_open so then so\<lparr>so_off := 0\<rparr> else so)"

definition status_flush :: "status_output \<Rightarrow> status_output" where
  "status_flush so =
     (if so_open so \<and> so_can STATUS_OUTPUT_WRITE so
      then so\<lparr>so_file := take (so_off so) (so_file so), so_read_buf := []\<rparr> else so)"

text \<open>
  \<open>status_printf\<close> with the formatted text: a text that does not fit into the buffer sets the error
  flag, which stops this and every later line.
\<close>

definition status_printf :: "status_output \<Rightarrow> bytes \<Rightarrow> status_output" where
  "status_printf so buf =
     (if so_can STATUS_OUTPUT_WRITE so
      then let so = (if length buf \<ge> STATUS_PRINTF_MAXLEN then so\<lparr>so_errors := True\<rparr> else so)
           in if so_open so \<and> \<not> so_errors so then so_write (buf @ [10]) so else so
      else so)"

section \<open>Reading\<close>

text \<open>
  The loop of \<open>status_read\<close> with a buffer of the given capacity: the file is read in blocks of
  512 bytes; carriage returns are dropped, a line feed ends the line, and what no longer fits
  into the buffer is lost.
\<close>

function status_read_loop :: "nat \<Rightarrow> status_output \<Rightarrow> bytes \<Rightarrow> bool \<Rightarrow> bool \<times> bytes \<times> status_output" where
  "status_read_loop cap so buf ret =
     (case so_read_buf so of
        [] \<Rightarrow>
          (let block = take 512 (drop (so_off so) (so_file so)) in
           if block = [] then (ret, buf, so)
           else status_read_loop cap (so\<lparr>so_read_buf := block, so_off := so_off so + length block\<rparr>) buf ret)
      | c # cs \<Rightarrow>
          (let so = so\<lparr>so_read_buf := cs\<rparr> in
           if c = 13 then status_read_loop cap so buf True
           else if c = 10 then (True, buf, so)
           else status_read_loop cap so (if length buf < cap then buf @ [c] else buf) True))"
  by pat_completeness auto
termination
  by (relation "measure (\<lambda>(cap, so, buf, ret). 2 * (length (so_file so) - so_off so) + length (so_read_buf so))")
    (auto simp: min_def)

declare status_read_loop.simps [simp del]

definition buf_null_terminate_bytes :: "nat \<Rightarrow> bytes \<Rightarrow> bytes" where
  "buf_null_terminate_bytes cap buf =
     (if buf \<noteq> [] \<and> last buf = 0 then buf
      else (if length buf + 1 \<le> cap then buf else butlast buf) @ [0])"

definition status_read :: "nat \<Rightarrow> status_output \<Rightarrow> bool \<times> bytes \<times> status_output" where
  "status_read cap so =
     (if so_open so \<and> so_can STATUS_OUTPUT_READ so
      then (case status_read_loop cap so [] False of
              (ret, buf, so) \<Rightarrow> (ret, buf_null_terminate_bytes cap buf, so))
      else (False, [], so))"

section \<open>Fields\<close>

text \<open>
  The loop of \<open>buf_parse\<close> with room for \<open>k\<close> more characters: the characters stored before the
  terminating null, whether the end of the buffer was met, and the rest of the buffer.
\<close>

fun buf_parse_loop :: "u8 \<Rightarrow> nat \<Rightarrow> bytes \<Rightarrow> bytes \<times> bool \<times> bytes" where
  "buf_parse_loop delim k [] = ([], True, [])"
| "buf_parse_loop delim k (c # cs) =
     (if c = 0 \<or> c = delim then ([], False, cs)
      else if k = 0 then ([], False, cs)
      else (case buf_parse_loop delim (k - 1) cs of (line, eol, rest) \<Rightarrow> (c # line, eol, rest)))"

definition buf_parse :: "u8 \<Rightarrow> nat \<Rightarrow> bytes \<Rightarrow> bool \<times> bytes \<times> bytes" where
  "buf_parse delim sz buf =
     (case buf_parse_loop delim sz buf of
        (line, eol, rest) \<Rightarrow> (let line = take (sz - 1) line in (\<not> (eol \<and> line = []), line, rest)))"

section \<open>Lemmas\<close>

text \<open>What a reader has not seen yet.\<close>

definition so_rest :: "status_output \<Rightarrow> bytes" where
  "so_rest so = so_read_buf so @ drop (so_off so) (so_file so)"

lemma status_flags_simps [simp]:
  "so_can f (so\<lparr>so_errors := e\<rparr>) = so_can f so" "so_can f (so\<lparr>so_off := n\<rparr>) = so_can f so"
  "so_can f (so\<lparr>so_read_buf := b\<rparr>) = so_can f so" "so_can f (so\<lparr>so_file := l\<rparr>) = so_can f so"
  by (simp_all add: so_can_def)

lemma so_rest_refill:
  assumes "so_read_buf so = []"
  shows "so_rest (so\<lparr>so_read_buf := take n (drop (so_off so) (so_file so)),
       so_off := so_off so + length (take n (drop (so_off so) (so_file so)))\<rparr>) = so_rest so"
proof -
  have d: "drop (length (take n xs)) xs = drop n xs" for xs :: bytes by (simp add: min_def)
  have "drop (so_off so + length (take n (drop (so_off so) (so_file so)))) (so_file so)
      = drop n (drop (so_off so) (so_file so))"
    using d[of "drop (so_off so) (so_file so)"] unfolding drop_drop by (simp only: add.commute)
  moreover have "so_rest (so\<lparr>so_read_buf := b, so_off := k\<rparr>) = b @ drop k (so_file so)" for b k
    by (simp add: so_rest_def)
  moreover have "so_rest so = drop (so_off so) (so_file so)" using assms by (simp add: so_rest_def)
  ultimately show ?thesis by (simp only: append_take_drop_id)
qed

text \<open>Reading a line never touches the file, and consumes something when it succeeds.\<close>

lemma status_read_loop_rest:
  "status_read_loop cap so buf ret = (r, b, so') \<Longrightarrow>
     length (so_rest so') \<le> length (so_rest so) \<and> (r \<and> \<not> ret \<longrightarrow> length (so_rest so') < length (so_rest so))
     \<and> so_file so' = so_file so \<and> so_flags so' = so_flags so \<and> so_open so' = so_open so"
proof (induction cap so buf ret rule: status_read_loop.induct)
  case (1 cap so buf ret)
  show ?case
  proof (cases "so_read_buf so")
    case Nil
    let ?b = "take 512 (drop (so_off so) (so_file so))"
    show ?thesis
    proof (cases "?b = []")
      case True
      then show ?thesis using "1.prems" Nil by (subst (asm) status_read_loop.simps) (simp add: Let_def)
    next
      case False
      have "status_read_loop cap (so\<lparr>so_read_buf := ?b, so_off := so_off so + length ?b\<rparr>) buf ret = (r, b, so')"
        using "1.prems" Nil False by (subst (asm) status_read_loop.simps) (simp add: Let_def)
      from "1.IH"(1)[OF Nil refl False this] show ?thesis
        unfolding so_rest_refill[OF Nil] by simp
    qed
  next
    case (Cons c cs)
    have l: "length (so_rest (so\<lparr>so_read_buf := cs\<rparr>)) < length (so_rest so)" using Cons by (simp add: so_rest_def)
    consider "c = 13" | "c = 10" | "c \<noteq> 13" "c \<noteq> 10" by blast
    then show ?thesis
    proof cases
      case a: 1
      have "status_read_loop cap (so\<lparr>so_read_buf := cs\<rparr>) buf True = (r, b, so')"
        using "1.prems" Cons a by (subst (asm) status_read_loop.simps) (simp add: Let_def)
      from "1.IH"(2)[OF Cons refl a this] show ?thesis using l by simp
    next
      case a: 2
      then have "so' = so\<lparr>so_read_buf := cs\<rparr>"
        using "1.prems" Cons by (subst (asm) status_read_loop.simps) (simp add: Let_def)
      then show ?thesis using l by simp
    next
      case a: 3
      have "status_read_loop cap (so\<lparr>so_read_buf := cs\<rparr>) (if length buf < cap then buf @ [c] else buf) True = (r, b, so')"
        using "1.prems" Cons a by (subst (asm) status_read_loop.simps) (simp add: Let_def)
      from "1.IH"(3)[OF Cons refl a this] show ?thesis using l by simp
    qed
  qed
qed

lemma status_read_rest:
  assumes "status_read cap so = (r, b, so')"
  shows "(r \<longrightarrow> length (so_rest so') < length (so_rest so))
    \<and> so_file so' = so_file so \<and> so_flags so' = so_flags so \<and> so_open so' = so_open so"
proof (cases "so_open so \<and> so_can STATUS_OUTPUT_READ so")
  case True
  obtain r0 b0 s0 where l: "status_read_loop cap so [] False = (r0, b0, s0)" by (metis surj_pair)
  then show ?thesis using status_read_loop_rest[OF l] assms True by (simp add: status_read_def)
next
  case False
  then show ?thesis using assms by (auto simp: status_read_def)
qed

text \<open>A line that fits into the buffer is read as it was written.\<close>

lemma status_read_loop_line:
  "so_rest so = line @ 10 # others \<Longrightarrow> 10 \<notin> set line \<Longrightarrow> 13 \<notin> set line \<Longrightarrow> length buf + length line \<le> cap \<Longrightarrow>
     \<exists>so'. status_read_loop cap so buf ret = (True, buf @ line, so') \<and> so_rest so' = others"
proof (induction cap so buf ret arbitrary: line rule: status_read_loop.induct)
  case (1 cap so buf ret)
  show ?case
  proof (cases "so_read_buf so")
    case Nil
    let ?b = "take 512 (drop (so_off so) (so_file so))"
    have ne: "?b \<noteq> []" using "1.prems"(1) Nil by (simp add: so_rest_def)
    have "so_rest (so\<lparr>so_read_buf := ?b, so_off := so_off so + length ?b\<rparr>) = line @ 10 # others"
      unfolding so_rest_refill[OF Nil] by (rule "1.prems"(1))
    from "1.IH"(1)[OF Nil refl ne this "1.prems"(2-4)] show ?thesis
      using Nil ne by (subst status_read_loop.simps) (simp add: Let_def)
  next
    case (Cons c cs)
    show ?thesis
    proof (cases line)
      case Nil
      then have "c = 10" "so_rest (so\<lparr>so_read_buf := cs\<rparr>) = others" using "1.prems"(1) Cons by (simp_all add: so_rest_def)
      then show ?thesis using Cons Nil by (subst status_read_loop.simps) (simp add: Let_def)
    next
      case l: (Cons d line')
      have d: "c = d" "so_rest (so\<lparr>so_read_buf := cs\<rparr>) = line' @ 10 # others"
        using "1.prems"(1) Cons l by (simp_all add: so_rest_def)
      have c: "c \<noteq> 13" "c \<noteq> 10" "length buf < cap" using "1.prems"(2-4) l d(1) by auto
      have n: "10 \<notin> set line'" "13 \<notin> set line'"
        "length (if length buf < cap then buf @ [c] else buf) + length line' \<le> cap" using "1.prems"(2-4) l by auto
      from "1.IH"(3)[OF Cons refl c(1,2) d(2) n] show ?thesis
        using Cons c l d(1) by (subst status_read_loop.simps) (simp add: Let_def)
    qed
  qed
qed

lemma status_read_line:
  assumes "so_rest so = line @ 10 # others" "10 \<notin> set line" "13 \<notin> set line" "0 \<notin> set line" "length line < cap"
    and "so_open so" "so_can STATUS_OUTPUT_READ so"
  shows "\<exists>so'. status_read cap so = (True, line @ [0], so') \<and> so_rest so' = others"
proof -
  have "length ([] :: bytes) + length line \<le> cap" using assms(5) by simp
  from status_read_loop_line[OF assms(1-3) this, of False] obtain so' where
    l: "status_read_loop cap so [] False = (True, line, so')" "so_rest so' = others" by auto
  have "line \<noteq> [] \<Longrightarrow> last line \<noteq> 0" using assms(4) by (metis last_in_set)
  then have "buf_null_terminate_bytes cap line = line @ [0]" using assms(5) by (auto simp: buf_null_terminate_bytes_def)
  then show ?thesis using l assms(6,7) by (simp add: status_read_def)
qed

lemma status_read_end: "so_rest so = [] \<Longrightarrow> fst (status_read cap so) = False"
  by (auto simp: status_read_def so_rest_def status_read_loop.simps[of cap so])

lemma buf_parse_loop_field:
  "delim \<notin> set xs \<Longrightarrow> 0 \<notin> set xs \<Longrightarrow> length xs \<le> k \<Longrightarrow> d = delim \<or> d = 0 \<Longrightarrow>
     buf_parse_loop delim k (xs @ d # rest) = (xs, False, rest)"
proof (induction xs arbitrary: k)
  case (Cons x xs)
  obtain k' where k: "k = Suc k'" "length xs \<le> k'" using Cons.prems(3) by (cases k) auto
  have "buf_parse_loop delim k' (xs @ d # rest) = (xs, False, rest)" using Cons.IH[OF _ _ k(2)] Cons.prems by simp
  moreover have "x \<noteq> 0" "x \<noteq> delim" using Cons.prems(1,2) by auto
  ultimately show ?case using k(1) by simp
qed auto

lemma buf_parse_field:
  assumes "delim \<notin> set xs" "0 \<notin> set xs" "length xs < sz" "d = delim \<or> d = 0"
  shows "buf_parse delim sz (xs @ d # rest) = (True, xs, rest)"
  using buf_parse_loop_field[OF assms(1,2) less_imp_le[OF assms(3)] assms(4), of rest] assms(3)
  by (simp add: buf_parse_def)

text \<open>Lines that are written one after the other, from an offset on.\<close>

lemma status_printf_append:
  assumes "so_open so" "so_can STATUS_OUTPUT_WRITE so" "\<not> so_errors so" "length buf < STATUS_PRINTF_MAXLEN"
  shows "status_printf so buf = so_write (buf @ [10]) so"
  using assms by (simp add: status_printf_def)

lemma so_write_simps [simp]:
  "so_open (so_write bs so) = so_open so" "so_can f (so_write bs so) = so_can f so"
  "so_errors (so_write bs so) = so_errors so" "so_flags (so_write bs so) = so_flags so"
  by (simp_all add: so_write_def so_can_def)

lemma take_so_write:
  assumes "so_off so \<le> length (so_file so)"
  shows "take (so_off (so_write bs so)) (so_file (so_write bs so)) = take (so_off so) (so_file so) @ bs
    \<and> so_off (so_write bs so) \<le> length (so_file (so_write bs so))"
  using assms by (simp add: so_write_def)

end
