(* ===== verification/Ip_Pool.thy ===== *)
theory Ip_Pool
  imports Status_File
begin

text \<open>
  The pool of tunnel addresses of a server (\<open>pool.c\<close>): one list of entries serves an IPv4 and an
  IPv6 range at once, an entry's index (the handle) being its offset in both ranges. Modelled are
  the set-up of the pool, the search for an entry, acquiring and releasing, the conversions
  between handles and addresses, and the database of client names, which is written to and read
  from a status file as one line \<open>name,IPv4,IPv6\<close> per entry. IPv4 addresses are printed as the C
  library does; the printing of IPv6 addresses (\<open>inet_ntop\<close>) and the parsers of both families
  are parameters.
\<close>

section \<open>State\<close>

definition IFCONFIG_POOL_MAX :: nat where "IFCONFIG_POOL_MAX = 65536"

datatype pool_type = IFCONFIG_POOL_30NET | IFCONFIG_POOL_INDIV

record ifconfig_pool_entry =
  pe_in_use :: bool
  pe_common_name :: "bytes option"
  pe_last_release :: int
  pe_fixed :: bool

record ifconfig_pool =
  ip_duplicate_cn :: bool
  ip_v4_enabled :: bool
  ip_v4_type :: pool_type
  ip_v4_base :: u32
  ip_v6_enabled :: bool
  ip_v6_base :: bytes
  ip_size :: int
  ip_list :: "ifconfig_pool_entry list"

definition entry_clear :: ifconfig_pool_entry where
  "entry_clear = \<lparr>pe_in_use = False, pe_common_name = None, pe_last_release = 0, pe_fixed = False\<rparr>"

section \<open>Adding to an IPv6 address\<close>

text \<open>The loop of \<open>add_in6_addr\<close>, from the last byte on; \<open>add\<close> carries what is left to add.\<close>

fun add_in6_loop :: "bytes \<Rightarrow> u32 \<Rightarrow> bytes" where
  "add_in6_loop [] add = []"
| "add_in6_loop (b # bs) add =
     (if add = 0 then b # bs
      else let h = ucast b :: u32;
               carry = drop_bit 8 ((h AND 0xff) + (add AND 0xff))
           in ucast ((h + add) AND 0xff) # add_in6_loop bs (drop_bit 8 add + carry))"

definition add_in6_addr :: "bytes \<Rightarrow> u32 \<Rightarrow> bytes" where
  "add_in6_addr base add = rev (add_in6_loop (rev base) add)"

section \<open>The set-up of the pool\<close>

definition ifconfig_pool_verify_range :: "u32 \<Rightarrow> u32 \<Rightarrow> bool" where
  "ifconfig_pool_verify_range start fin \<longleftrightarrow> \<not> start > fin \<and> \<not> fin - start \<ge> of_nat IFCONFIG_POOL_MAX"

text \<open>The last four bytes of an IPv6 address as a number.\<close>

definition in6_low :: "bytes \<Rightarrow> u32" where
  "in6_low a = ntohl (drop 12 a)"

definition pool_v4_params :: "pool_type \<Rightarrow> u32 \<Rightarrow> u32 \<Rightarrow> u32 \<times> int" where
  "pool_v4_params t start fin =
     (case t of
        IFCONFIG_POOL_30NET \<Rightarrow> (let base = start AND NOT 3 in (base, uint (drop_bit 2 (((fin OR 3) + 1) - base))))
      | IFCONFIG_POOL_INDIV \<Rightarrow> (start, sint (fin - start + 1)))"

definition pool_v6_params :: "bytes \<Rightarrow> int \<Rightarrow> bytes \<times> int" where
  "pool_v6_params base6 netbits =
     (let base = in6_low base6;
          base = (if 128 - netbits < 32 then base AND (push_bit (nat (128 - netbits)) 1 - 1) else base);
          base6' = (if base = 0 then base6[15 := base6 ! 15 + 1] else base6);
          base = (if base = 0 then base + 1 else base)
      in (base6', if netbits \<ge> 112 then sint (push_bit (nat (128 - netbits)) 1 - base)
                  else int IFCONFIG_POOL_MAX))"

definition ifconfig_pool_init ::
  "bool \<Rightarrow> pool_type \<Rightarrow> u32 \<Rightarrow> u32 \<Rightarrow> bool \<Rightarrow> bool \<Rightarrow> bytes \<Rightarrow> int \<Rightarrow> ifconfig_pool option" where
  "ifconfig_pool_init ipv4_pool t start fin duplicate_cn ipv6_pool base6 netbits = do {
     ASSERT (start \<le> fin \<and> fin - start < of_nat IFCONFIG_POOL_MAX);
     let pool = \<lparr>ip_duplicate_cn = duplicate_cn, ip_v4_enabled = ipv4_pool, ip_v4_type = IFCONFIG_POOL_30NET,
                 ip_v4_base = 0, ip_v6_enabled = ipv6_pool, ip_v6_base = replicate 16 0, ip_size = 0, ip_list = []\<rparr>;
     pool \<leftarrow> (if ipv4_pool then do {
                let (base, sz) = pool_v4_params t start fin;
                ASSERT (\<not> sz < 2);
                Some (pool\<lparr>ip_v4_type := t, ip_v4_base := base, ip_size := sz\<rparr>) }
              else Some pool);
     pool \<leftarrow> (if ipv6_pool then do {
                let (b6, sz) = pool_v6_params base6 netbits;
                ASSERT (\<not> sz < 2);
                Some (pool\<lparr>ip_v6_base := b6,
                          ip_size := (if ip_size pool \<le> 0 \<or> sz < ip_size pool then sz else ip_size pool)\<rparr>) }
              else Some pool);
     ASSERT (ip_size pool > 0);
     Some (pool\<lparr>ip_list := replicate (nat (ip_size pool)) entry_clear\<rparr>) }"

section \<open>Entries\<close>

definition ifconfig_pool_entry_free :: "int \<Rightarrow> ifconfig_pool_entry \<Rightarrow> bool \<Rightarrow> ifconfig_pool_entry" where
  "ifconfig_pool_entry_free now ipe hard =
     (let ipe = ipe\<lparr>pe_in_use := False\<rparr> in
      if hard then ipe\<lparr>pe_common_name := None, pe_last_release := 0\<rparr> else ipe\<lparr>pe_last_release := now\<rparr>)"

text \<open>
  The loop of \<open>ifconfig_pool_find\<close> from entry \<open>i\<close> on: the earliest release so far, the entry of an
  earlier session and the entry to use otherwise.
\<close>

fun find_loop :: "bool \<Rightarrow> bytes option \<Rightarrow> int \<Rightarrow> ifconfig_pool_entry list \<Rightarrow> int \<Rightarrow> int \<Rightarrow> int \<Rightarrow> int \<times> int" where
  "find_loop dup cn i [] earliest previous new = (previous, new)"
| "find_loop dup cn i (ipe # rest) earliest previous new =
     (if \<not> pe_in_use ipe then
        if dup then (previous, i)
        else
          let take_it = (new = - 1 \<or> pe_last_release ipe < earliest) \<and> \<not> pe_fixed ipe;
              earliest' = (if take_it then pe_last_release ipe else earliest);
              new' = (if take_it then i else new);
              previous' = (if previous < 0 \<and> cn \<noteq> None \<and> pe_common_name ipe \<noteq> None \<and> cn = pe_common_name ipe
                           then i else previous)
          in find_loop dup cn (i + 1) rest earliest' previous' new'
      else find_loop dup cn (i + 1) rest earliest previous new)"

definition ifconfig_pool_find :: "ifconfig_pool \<Rightarrow> bytes option \<Rightarrow> int" where
  "ifconfig_pool_find pool cn =
     (case find_loop (ip_duplicate_cn pool) cn 0 (ip_list pool) 0 (- 1) (- 1) of
        (previous, new) \<Rightarrow> if previous \<ge> 0 then previous else if new \<ge> 0 then new else - 1)"

definition pool_v4_addrs :: "ifconfig_pool \<Rightarrow> int \<Rightarrow> u32 \<times> u32" where
  "pool_v4_addrs pool i =
     (case ip_v4_type pool of
        IFCONFIG_POOL_30NET \<Rightarrow> (let b = ip_v4_base pool + push_bit 2 (word_of_int i) in (b + 1, b + 2))
      | IFCONFIG_POOL_INDIV \<Rightarrow> (0, ip_v4_base pool + word_of_int i))"

text \<open>
  The result: the handle, the local and remote IPv4 addresses and the remote IPv6 address that
  were assigned, and the pool.
\<close>

definition ifconfig_pool_acquire ::
  "int \<Rightarrow> ifconfig_pool \<Rightarrow> bytes option
     \<Rightarrow> (int \<times> (u32 \<times> u32) option \<times> bytes option \<times> ifconfig_pool) option" where
  "ifconfig_pool_acquire now pool cn =
     (let i = ifconfig_pool_find pool cn in
      if i \<ge> 0 then do {
        let ipe = ip_list pool ! nat i;
        ASSERT (\<not> pe_in_use ipe);
        let ipe = (ifconfig_pool_entry_free now ipe True)\<lparr>pe_in_use := True\<rparr>;
        let ipe = (if cn \<noteq> None then ipe\<lparr>pe_common_name := cn\<rparr> else ipe);
        let pool = pool\<lparr>ip_list := (ip_list pool)[nat i := ipe]\<rparr>;
        Some (i, if ip_v4_enabled pool then Some (pool_v4_addrs pool i) else None,
              if ip_v6_enabled pool then Some (add_in6_addr (ip_v6_base pool) (word_of_int i)) else None, pool) }
      else Some (i, None, None, pool))"

definition ifconfig_pool_release :: "int \<Rightarrow> ifconfig_pool \<Rightarrow> int \<Rightarrow> bool \<Rightarrow> bool \<times> ifconfig_pool" where
  "ifconfig_pool_release now pool hand hard =
     (if hand \<ge> 0 \<and> hand < ip_size pool
      then (True, pool\<lparr>ip_list := (ip_list pool)[nat hand := ifconfig_pool_entry_free now (ip_list pool ! nat hand) hard]\<rparr>)
      else (False, pool))"

section \<open>Handles and addresses\<close>

definition in_range_handle :: "ifconfig_pool \<Rightarrow> int \<Rightarrow> int" where
  "in_range_handle pool ret = (if ret < 0 \<or> ret \<ge> ip_size pool then - 1 else ret)"

definition ifconfig_pool_ip_base_to_handle :: "ifconfig_pool \<Rightarrow> u32 \<Rightarrow> int" where
  "ifconfig_pool_ip_base_to_handle pool addr =
     in_range_handle pool
       (case ip_v4_type pool of
          IFCONFIG_POOL_30NET \<Rightarrow> sint (drop_bit 2 (addr - ip_v4_base pool))
        | IFCONFIG_POOL_INDIV \<Rightarrow> sint (addr - ip_v4_base pool))"

definition ifconfig_pool_ipv6_base_to_handle :: "ifconfig_pool \<Rightarrow> bytes \<Rightarrow> int" where
  "ifconfig_pool_ipv6_base_to_handle pool in_addr =
     (if take 12 (ip_v6_base pool) \<noteq> take 12 in_addr then - 1
      else in_range_handle pool (sint (in6_low in_addr - in6_low (ip_v6_base pool))))"

definition ifconfig_pool_handle_to_ip_base :: "ifconfig_pool \<Rightarrow> int \<Rightarrow> u32" where
  "ifconfig_pool_handle_to_ip_base pool hand =
     (if ip_v4_enabled pool \<and> hand \<ge> 0 \<and> hand < ip_size pool
      then (case ip_v4_type pool of
              IFCONFIG_POOL_30NET \<Rightarrow> ip_v4_base pool + push_bit 2 (word_of_int hand)
            | IFCONFIG_POOL_INDIV \<Rightarrow> ip_v4_base pool + word_of_int hand)
      else 0)"

definition ifconfig_pool_handle_to_ipv6_base :: "ifconfig_pool \<Rightarrow> int \<Rightarrow> bytes" where
  "ifconfig_pool_handle_to_ipv6_base pool hand =
     (if ip_v6_enabled pool \<and> hand \<ge> 0 \<and> hand < ip_size pool
      then add_in6_addr (ip_v6_base pool) (word_of_int hand)
      else replicate 16 0)"

section \<open>Addresses as text\<close>

definition IA_EMPTY_IF_UNDEF :: u32 where "IA_EMPTY_IF_UNDEF = 1"
definition IA_NET_ORDER :: u32 where "IA_NET_ORDER = 2"

text \<open>A number in decimal.\<close>

fun dec :: "nat \<Rightarrow> bytes" where
  "dec n = (if n < 10 then [word_of_nat (48 + n)] else dec (n div 10) @ [word_of_nat (48 + n mod 10)])"

declare dec.simps [simp del]

text \<open>\<open>inet_ntoa\<close> of the C library: the bytes of an address in network order as a dotted quad.\<close>

definition inet_ntoa :: "bytes \<Rightarrow> bytes" where
  "inet_ntoa ia = dec (unat (ia ! 0)) @ 46 # dec (unat (ia ! 1)) @ 46 # dec (unat (ia ! 2)) @ 46 # dec (unat (ia ! 3))"

text \<open>The bytes of an address that is in network order already are stored as on a little-endian machine.\<close>

definition print_in_addr_t :: "u32 \<Rightarrow> u32 \<Rightarrow> bytes" where
  "print_in_addr_t addr flags =
     (if addr \<noteq> 0 \<or> flags AND IA_EMPTY_IF_UNDEF = 0
      then inet_ntoa (if flags AND IA_NET_ORDER \<noteq> 0 then rev (htonl addr) else htonl addr)
      else [])"

definition print_in6_addr :: "(bytes \<Rightarrow> bytes) \<Rightarrow> bytes \<Rightarrow> u32 \<Rightarrow> bytes" where
  "print_in6_addr inet_ntop a6 flags =
     (if a6 \<noteq> replicate 16 0 \<or> flags AND IA_EMPTY_IF_UNDEF = 0 then inet_ntop a6 else [])"

section \<open>The persisted database\<close>

record ifconfig_pool_persist =
  pp_fixed :: bool
  pp_file :: status_output

definition ifconfig_pool_persist_init :: "bytes option \<Rightarrow> int \<Rightarrow> ifconfig_pool_persist" where
  "ifconfig_pool_persist_init file refresh_freq =
     (if refresh_freq > 0
      then \<lparr>pp_fixed = False, pp_file = status_open file (STATUS_OUTPUT_READ OR STATUS_OUTPUT_WRITE)\<rparr>
      else \<lparr>pp_fixed = True, pp_file = status_open file STATUS_OUTPUT_READ\<rparr>)"

definition ifconfig_pool_set :: "int \<Rightarrow> ifconfig_pool \<Rightarrow> bytes \<Rightarrow> int \<Rightarrow> bool \<Rightarrow> ifconfig_pool" where
  "ifconfig_pool_set now pool cn h fixed =
     (let e = ifconfig_pool_entry_free now (ip_list pool ! nat h) True in
      pool\<lparr>ip_list := (ip_list pool)[nat h := e\<lparr>pe_in_use := False, pe_common_name := Some cn,
             pe_last_release := now, pe_fixed := fixed\<rparr>]\<rparr>)"

text \<open>The line of an entry that has a name.\<close>

definition pool_line :: "(bytes \<Rightarrow> bytes) \<Rightarrow> ifconfig_pool \<Rightarrow> nat \<Rightarrow> bytes option" where
  "pool_line inet_ntop pool i =
     (case pe_common_name (ip_list pool ! i) of
        None \<Rightarrow> None
      | Some cn \<Rightarrow>
          (let ip_str = (if ip_v4_enabled pool
                         then print_in_addr_t (ifconfig_pool_handle_to_ip_base pool (int i)) 0 else []);
               ip6_str = (if ip_v6_enabled pool
                          then print_in6_addr inet_ntop (ifconfig_pool_handle_to_ipv6_base pool (int i)) 0 else [])
           in Some (cn @ 44 # ip_str @ 44 # ip6_str)))"

definition ifconfig_pool_list :: "(bytes \<Rightarrow> bytes) \<Rightarrow> ifconfig_pool \<Rightarrow> status_output \<Rightarrow> status_output" where
  "ifconfig_pool_list inet_ntop pool out =
     foldl (\<lambda>out i. case pool_line inet_ntop pool i of None \<Rightarrow> out | Some line \<Rightarrow> status_printf out line)
       out [0..<nat (ip_size pool)]"

definition ifconfig_pool_write ::
  "(bytes \<Rightarrow> bytes) \<Rightarrow> ifconfig_pool_persist \<Rightarrow> ifconfig_pool \<Rightarrow> ifconfig_pool_persist" where
  "ifconfig_pool_write inet_ntop persist pool =
     (if so_can STATUS_OUTPUT_WRITE (pp_file persist)
      then persist\<lparr>pp_file := status_flush (ifconfig_pool_list inet_ntop pool (status_reset (pp_file persist)))\<rparr>
      else persist)"

text \<open>
  What one line does, which \<open>status_read\<close> has put into the buffer: comments are skipped, the fields
  are cut at the commas, and the entry of the first valid address gets the name. \<open>getaddr\<close> and
  \<open>get_ipv6_addr\<close> parse an address.
\<close>

definition pool_read_line ::
  "(bytes \<Rightarrow> u32 option) \<Rightarrow> (bytes \<Rightarrow> bytes option) \<Rightarrow> int \<Rightarrow> bool \<Rightarrow> ifconfig_pool \<Rightarrow> bytes \<Rightarrow> ifconfig_pool" where
  "pool_read_line getaddr get_ipv6_addr now fixed pool inb =
     (if inb = [] then pool
      else if hd inb = 35 \<or> hd inb = 59 then pool
      else (case buf_parse 44 128 inb of (cn_ok, cn, inb) \<Rightarrow>
        if \<not> cn_ok then pool
        else (case buf_parse 44 128 inb of (ip_ok, ip, inb) \<Rightarrow>
          if \<not> ip_ok then pool
          else
            let h = (if ip = [] then - 1
                     else (case getaddr ip of None \<Rightarrow> - 1 | Some addr \<Rightarrow> ifconfig_pool_ip_base_to_handle pool addr));
                (ip6_ok, ip6, inb) = buf_parse 44 128 inb;
                h = (if ip6_ok \<and> ip6 \<noteq> []
                     then (case get_ipv6_addr ip6 of
                             None \<Rightarrow> h
                           | Some addr6 \<Rightarrow> let h6 = ifconfig_pool_ipv6_base_to_handle pool addr6
                                           in if h < 0 then h6 else h)
                     else h)
            in if h \<ge> 0 then ifconfig_pool_set now pool cn h fixed else pool)))"

function pool_read_loop ::
  "(bytes \<Rightarrow> u32 option) \<Rightarrow> (bytes \<Rightarrow> bytes option) \<Rightarrow> int \<Rightarrow> bool \<Rightarrow> status_output \<Rightarrow> ifconfig_pool
     \<Rightarrow> status_output \<times> ifconfig_pool" where
  "pool_read_loop getaddr get_ipv6_addr now fixed so pool =
     (case status_read 256 so of
        (ret, inb, so') \<Rightarrow>
          if \<not> ret then (so', pool)
          else pool_read_loop getaddr get_ipv6_addr now fixed so'
                 (pool_read_line getaddr get_ipv6_addr now fixed pool inb))"
  by pat_completeness auto
termination
  by (relation "measure (\<lambda>(getaddr, get6, now, fixed, so, pool). length (so_rest so))")
    (auto dest: status_read_rest[OF sym])

declare pool_read_loop.simps [simp del]

definition ifconfig_pool_read ::
  "(bytes \<Rightarrow> u32 option) \<Rightarrow> (bytes \<Rightarrow> bytes option) \<Rightarrow> int \<Rightarrow> ifconfig_pool_persist \<Rightarrow> ifconfig_pool
     \<Rightarrow> ifconfig_pool_persist \<times> ifconfig_pool" where
  "ifconfig_pool_read getaddr get_ipv6_addr now persist pool =
     (case pool_read_loop getaddr get_ipv6_addr now (pp_fixed persist) (pp_file persist) pool of
        (so, pool) \<Rightarrow> (persist\<lparr>pp_file := so\<rparr>, pool))"

end
