(* ===== verification/Ip_Pool_Props.thy ===== *)
theory Ip_Pool_Props
  imports Ip_Pool
begin

text \<open>
  The pool of tunnel addresses: \<open>add_in6_addr\<close> is addition of 128 bit numbers, leases never share
  an address and lie in the configured range, and the persisted database restores the pool.
\<close>

section \<open>IPv6 addresses as numbers\<close>

fun le_nat :: "bytes \<Rightarrow> nat" where
  "le_nat [] = 0"
| "le_nat (b # bs) = unat b + 256 * le_nat bs"

definition in6_nat :: "bytes \<Rightarrow> nat" where
  "in6_nat a = le_nat (rev a)"

lemma unat_ucast_8_32: "unat (ucast b :: u32) = unat b" for b :: u8
  by (simp add: unsigned_ucast_eq take_bit_nat_eq_self_iff order_less_le_trans[OF unsigned_less])

lemma unat_and_ff: "unat (w AND 0xff) = unat w mod 256" for w :: u32
proof -
  have "w AND 0xff = take_bit 8 w" by (simp add: take_bit_eq_mask mask_eq_exp_minus_1)
  then show ?thesis by (simp only: unsigned_take_bit_eq) (simp add: take_bit_eq_mod)
qed

lemma unat_drop_8: "unat (drop_bit 8 w) = unat w div 256" for w :: u32
proof -
  have "take_bit 32 (unat w) = unat w" using unsigned_less[of w] by (simp add: take_bit_nat_eq_self_iff)
  then show ?thesis by (simp only: unsigned_drop_bit_eq) (simp add: drop_bit_eq_div)
qed

lemma split_mod: "l < 256 \<Longrightarrow> l + 256 * (x mod m) = (l + 256 * x) mod (256 * m)" for l x m :: nat
  by (simp add: mod_mult2_eq)

lemma add_in6_step:
  fixes b :: u8 and add :: u32
  defines "h \<equiv> ucast b :: u32"
  defines "carry \<equiv> drop_bit 8 ((h AND 0xff) + (add AND 0xff)) :: u32"
  shows "unat (ucast ((h + add) AND 0xff) :: u8) + 256 * unat (drop_bit 8 add + carry) = unat b + unat add"
proof -
  have h: "unat h = unat b" "unat b < 256" using unsigned_less[of b] by (simp_all add: h_def unat_ucast_8_32)
  have a: "unat add < 2 ^ 32" using unsigned_less[of add] by simp
  have s: "unat ((h AND 0xff) + (add AND 0xff)) = unat b + unat add mod 256"
    using h by (subst unat_word_ariths) (simp add: unat_and_ff)
  have c: "unat carry = (unat b + unat add mod 256) div 256"
    unfolding carry_def unat_drop_8 s ..
  have d: "unat (drop_bit 8 add) = unat add div 256"
    by (rule unat_drop_8)
  have "unat add div 256 < 2 ^ 24" using a by (simp add: less_mult_imp_div_less)
  moreover have "(unat b + unat add mod 256) div 256 \<le> 1" using h(2) by simp
  ultimately have dc: "unat (drop_bit 8 add + carry) = unat add div 256 + (unat b + unat add mod 256) div 256"
    by (subst unat_word_ariths) (simp add: c d)
  have "unat (h + add) mod 256 = (unat b + unat add) mod 256"
  proof -
    have "unat (h + add) = (unat b + unat add) mod 2 ^ 32" by (subst unat_word_ariths) (simp add: h)
    then show ?thesis by (simp add: mod_mod_cancel)
  qed
  then have l: "unat (ucast ((h + add) AND 0xff) :: u8) = (unat b + unat add) mod 256"
    by (simp add: unsigned_ucast_eq take_bit_eq_mod unat_and_ff)
  have "(unat b + unat add) mod 256 = (unat b + unat add mod 256) mod 256" by (simp only: mod_add_right_eq)
  moreover have "unat add = 256 * (unat add div 256) + unat add mod 256" by simp
  moreover have "unat b + unat add mod 256
      = 256 * ((unat b + unat add mod 256) div 256) + (unat b + unat add mod 256) mod 256" by simp
  ultimately show ?thesis unfolding l dc distrib_left by linarith
qed

lemma le_nat_add: "le_nat (add_in6_loop bs add) = (le_nat bs + unat add) mod 256 ^ length bs"
proof (induction bs add rule: add_in6_loop.induct)
  case (2 b bs add)
  show ?case
  proof (cases "add = 0")
    case True
    have "le_nat xs < 256 ^ length xs" for xs :: bytes
    proof (induction xs)
      case (Cons x xs)
      have "unat x < 256" using unsigned_less[of x] by simp
      then show ?case using Cons.IH by simp
    qed simp
    from this[of "b # bs"] True show ?thesis by simp
  next
    case False
    let ?h = "ucast b :: u32"
    let ?c = "drop_bit 8 ((?h AND 0xff) + (add AND 0xff))"
    let ?l = "unat (ucast ((?h + add) AND 0xff) :: u8)" and ?m = "unat (drop_bit 8 add + ?c)"
    have IH: "le_nat (add_in6_loop bs (drop_bit 8 add + ?c)) = (le_nat bs + ?m) mod 256 ^ length bs"
      by (rule 2[OF False refl refl])
    have s: "?l + 256 * ?m = unat b + unat add" by (rule add_in6_step)
    have l: "?l < 256" using unsigned_less[of "ucast ((?h + add) AND 0xff) :: u8"] by simp
    have "le_nat (add_in6_loop (b # bs) add) = ?l + 256 * ((le_nat bs + ?m) mod 256 ^ length bs)"
      using False IH by (simp add: Let_def)
    also have "\<dots> = (?l + 256 * (le_nat bs + ?m)) mod 256 ^ length (b # bs)"
      using split_mod[OF l] by simp
    also have "?l + 256 * (le_nat bs + ?m) = le_nat (b # bs) + unat add" using s by simp
    finally show ?thesis .
  qed
qed simp

lemma length_add_in6_loop [simp]: "length (add_in6_loop bs add) = length bs"
  by (induction bs add rule: add_in6_loop.induct) (simp_all add: Let_def)

text \<open>
  C34. \<open>add_in6_addr\<close> against its specification: the byte-wise addition with its explicit carries,
  which stops as soon as nothing is left to add, is addition of numbers of 128 bits.
\<close>

theorem add_in6_addr_correct:
  assumes "length base = 16"
  shows "in6_nat (add_in6_addr base n) = (in6_nat base + unat n) mod 2 ^ 128 \<and> length (add_in6_addr base n) = 16"
  using assms by (simp add: in6_nat_def add_in6_addr_def le_nat_add)

lemma add_in6_addr_correct_witness:
  "add_in6_addr [0x20, 1, 0, 0, 0, 0, 0, 0, 0, 0, 0, 0, 255, 255, 255, 254] 3
    = [0x20, 1, 0, 0, 0, 0, 0, 0, 0, 0, 0, 1, 0, 0, 0, 1]
    \<and> in6_nat [0x20, 1, 0, 0, 0, 0, 0, 0, 0, 0, 0, 1, 0, 0, 0, 1]
        = (in6_nat [0x20, 1, 0, 0, 0, 0, 0, 0, 0, 0, 0, 0, 255, 255, 255, 254] + unat (3 :: u32)) mod 2 ^ 128"
proof -
  have e: "add_in6_addr [0x20, 1, 0, 0, 0, 0, 0, 0, 0, 0, 0, 0, 255, 255, 255, 254] 3
    = [0x20, 1, 0, 0, 0, 0, 0, 0, 0, 0, 0, 1, 0, 0, 0, 1]" by code_simp
  show ?thesis using add_in6_addr_correct[of "[0x20, 1, 0, 0, 0, 0, 0, 0, 0, 0, 0, 0, 255, 255, 255, 254]" 3]
    unfolding e by simp
qed

section \<open>The search for an entry\<close>

lemma find_loop_result:
  assumes "find_loop dup cn i es earliest previous new = (p, n)"
  shows "(p = previous \<or> i \<le> p \<and> p < i + int (length es) \<and> \<not> pe_in_use (es ! nat (p - i)))
    \<and> (n = new \<or> i \<le> n \<and> n < i + int (length es) \<and> \<not> pe_in_use (es ! nat (n - i)))"
  using assms
proof (induction es arbitrary: i earliest previous new)
  case (Cons e es)
  have sh: "(e # es) ! nat (x - i) = es ! nat (x - (i + 1))" if "i + 1 \<le> x" for x
  proof -
    have "nat (x - i) = Suc (nat (x - (i + 1)))" using that by simp
    then show ?thesis by simp
  qed
  show ?case
  proof (cases "pe_in_use e")
    case True
    then show ?thesis using Cons.IH[of "i + 1" earliest previous new] Cons.prems sh by (auto simp: algebra_simps)
  next
    case False
    show ?thesis
    proof (cases dup)
      case True
      then show ?thesis using False Cons.prems by auto
    next
      case F2: False
      let ?t = "(new = - 1 \<or> pe_last_release e < earliest) \<and> \<not> pe_fixed e"
      let ?p = "if previous < 0 \<and> cn \<noteq> None \<and> pe_common_name e \<noteq> None \<and> cn = pe_common_name e then i else previous"
      let ?n = "if ?t then i else new"
      have "find_loop dup cn (i + 1) es (if ?t then pe_last_release e else earliest) ?p ?n = (p, n)"
        using Cons.prems False F2 by (simp add: Let_def)
      from Cons.IH[OF this]
      have 1: "p = ?p \<or> i + 1 \<le> p \<and> p < i + 1 + int (length es) \<and> \<not> pe_in_use (es ! nat (p - (i + 1)))"
        and 2: "n = ?n \<or> i + 1 \<le> n \<and> n < i + 1 + int (length es) \<and> \<not> pe_in_use (es ! nat (n - (i + 1)))" by auto
      have "p = previous \<or> i \<le> p \<and> p < i + int (length (e # es)) \<and> \<not> pe_in_use ((e # es) ! nat (p - i))"
        using 1 sh[of p] False by (auto split: if_splits)
      moreover have "n = new \<or> i \<le> n \<and> n < i + int (length (e # es)) \<and> \<not> pe_in_use ((e # es) ! nat (n - i))"
        using 2 sh[of n] False by (auto split: if_splits)
      ultimately show ?thesis by blast
    qed
  qed
qed simp

lemma ifconfig_pool_find_free:
  assumes "ifconfig_pool_find pool cn = h" "0 \<le> h"
  shows "nat h < length (ip_list pool) \<and> \<not> pe_in_use (ip_list pool ! nat h)"
proof -
  obtain p n where l: "find_loop (ip_duplicate_cn pool) cn 0 (ip_list pool) 0 (- 1) (- 1) = (p, n)" by (metis surj_pair)
  have "h = p \<or> h = n" using assms l by (auto simp: ifconfig_pool_find_def split: if_splits)
  then show ?thesis using find_loop_result[OF l] assms(2) by auto
qed

section \<open>Leases\<close>

type_synonym lease = "int \<times> (u32 \<times> u32) option \<times> bytes option"

text \<open>
  The runs of a pool that was set up with the given parameters and restored from a database,
  which is any file, read with any parser of addresses: every acquired entry is a lease until its
  holder releases it.
\<close>

inductive pool_run ::
  "bool \<Rightarrow> pool_type \<Rightarrow> u32 \<Rightarrow> u32 \<Rightarrow> bool \<Rightarrow> bytes \<Rightarrow> ifconfig_pool \<Rightarrow> lease list \<Rightarrow> bool"
  for v4 t start fin v6 base6 where
  init: "ifconfig_pool_init v4 t start fin dup v6 base6 netbits = Some pool \<Longrightarrow>
    pool_run v4 t start fin v6 base6 (snd (ifconfig_pool_read getaddr get_ipv6_addr now persist pool)) []"
| acquire: "pool_run v4 t start fin v6 base6 pool L \<Longrightarrow>
    ifconfig_pool_acquire now pool cn = Some (h, a4, a6, pool') \<Longrightarrow> 0 \<le> h \<Longrightarrow>
    pool_run v4 t start fin v6 base6 pool' ((h, a4, a6) # L)"
| release: "pool_run v4 t start fin v6 base6 pool L \<Longrightarrow> (h, a4, a6) \<in> set L \<Longrightarrow>
    ifconfig_pool_release now pool h hard = (ok, pool') \<Longrightarrow>
    pool_run v4 t start fin v6 base6 pool' (remove1 (h, a4, a6) L)"

inductive_cases pool_run_cons: "pool_run v4 t start fin v6 base6 pool (l # L)"

text \<open>The parameters of the pool never change.\<close>

definition same_conf :: "ifconfig_pool \<Rightarrow> ifconfig_pool \<Rightarrow> bool" where
  "same_conf p q \<longleftrightarrow> ip_v4_enabled q = ip_v4_enabled p \<and> ip_v4_type q = ip_v4_type p \<and> ip_v4_base q = ip_v4_base p
     \<and> ip_v6_enabled q = ip_v6_enabled p \<and> ip_v6_base q = ip_v6_base p \<and> ip_size q = ip_size p
     \<and> ip_duplicate_cn q = ip_duplicate_cn p"

definition lease_of :: "ifconfig_pool \<Rightarrow> int \<Rightarrow> lease" where
  "lease_of pool h = (h, if ip_v4_enabled pool then Some (pool_v4_addrs pool h) else None,
     if ip_v6_enabled pool then Some (add_in6_addr (ip_v6_base pool) (word_of_int h)) else None)"

definition pool_inv :: "ifconfig_pool \<Rightarrow> ifconfig_pool \<Rightarrow> lease list \<Rightarrow> bool" where
  "pool_inv p0 pool L \<longleftrightarrow> same_conf p0 pool \<and> int (length (ip_list pool)) = ip_size pool
     \<and> distinct (map fst L)
     \<and> (\<forall>l \<in> set L. l = lease_of pool (fst l) \<and> 0 \<le> fst l \<and> fst l < ip_size pool \<and> pe_in_use (ip_list pool ! nat (fst l)))"

lemma same_conf_refl [simp]: "same_conf p p"
  by (simp add: same_conf_def)

lemma same_conf_list [simp]: "same_conf p (q\<lparr>ip_list := l\<rparr>) = same_conf p q"
  by (simp add: same_conf_def)

lemma pool_v4_addrs_list [simp]: "pool_v4_addrs (q\<lparr>ip_list := l\<rparr>) h = pool_v4_addrs q h"
  by (cases "ip_v4_type q") (simp_all add: pool_v4_addrs_def)

lemma lease_of_list [simp]: "lease_of (q\<lparr>ip_list := l\<rparr>) h = lease_of q h"
  by (simp add: lease_of_def)

lemma fst_lease_of [simp]: "fst (lease_of q h) = h"
  by (simp add: lease_of_def)

lemma pool_read_line_cases:
  "pool_read_line getaddr get6 now fixed q inb = q
    \<or> (\<exists>cn h. 0 \<le> h \<and> pool_read_line getaddr get6 now fixed q inb = ifconfig_pool_set now q cn h fixed)"
  by (auto simp: pool_read_line_def Let_def split: prod.splits if_splits)

lemma pool_read_line_conf:
  "same_conf q (pool_read_line getaddr get6 now fixed q inb)
    \<and> length (ip_list (pool_read_line getaddr get6 now fixed q inb)) = length (ip_list q)"
  using pool_read_line_cases[of getaddr get6 now fixed q inb] by (auto simp: ifconfig_pool_set_def Let_def)

lemma same_conf_trans: "same_conf p q \<Longrightarrow> same_conf q r \<Longrightarrow> same_conf p r"
  by (simp add: same_conf_def)

lemma pool_read_loop_conf:
  "same_conf q (snd (pool_read_loop getaddr get6 now fixed so q))
    \<and> length (ip_list (snd (pool_read_loop getaddr get6 now fixed so q))) = length (ip_list q)"
proof (induction getaddr get6 now fixed so q rule: pool_read_loop.induct)
  case (1 getaddr get6 now fixed so q)
  obtain ret inb so' where r: "status_read 256 so = (ret, inb, so')" by (metis surj_pair)
  show ?case
  proof (cases ret)
    case True
    let ?q = "pool_read_line getaddr get6 now fixed q inb"
    have IH: "same_conf ?q (snd (pool_read_loop getaddr get6 now fixed so' ?q))
      \<and> length (ip_list (snd (pool_read_loop getaddr get6 now fixed so' ?q))) = length (ip_list ?q)"
      by (rule "1"[OF r[symmetric] refl]) (simp add: True)
    then show ?thesis
      using r True pool_read_line_conf[of q getaddr get6 now fixed inb] same_conf_trans
      by (subst (1 2) pool_read_loop.simps) auto
  next
    case False
    then show ?thesis using r by (simp add: pool_read_loop.simps[of getaddr get6 now fixed so q])
  qed
qed

lemma snd_ifconfig_pool_read: "snd (ifconfig_pool_read getaddr get6 now persist pool)
    = snd (pool_read_loop getaddr get6 now (pp_fixed persist) (pp_file persist) pool)"
  by (simp add: ifconfig_pool_read_def case_prod_beta)

lemma pool_read_conf:
  "same_conf pool (snd (ifconfig_pool_read getaddr get6 now persist pool))
    \<and> length (ip_list (snd (ifconfig_pool_read getaddr get6 now persist pool))) = length (ip_list pool)"
  using pool_read_loop_conf[of pool getaddr get6 now "pp_fixed persist" "pp_file persist"]
  by (simp only: snd_ifconfig_pool_read)

lemma ifconfig_pool_acquire_cases:
  obtains (full) h where "ifconfig_pool_acquire now pool cn = Some (h, None, None, pool)" "h < 0"
  | (got) h e where "0 \<le> h" "nat h < length (ip_list pool)" "\<not> pe_in_use (ip_list pool ! nat h)" "pe_in_use e"
      "ifconfig_pool_acquire now pool cn = Some (fst (lease_of pool h), fst (snd (lease_of pool h)),
        snd (snd (lease_of pool h)), pool\<lparr>ip_list := (ip_list pool)[nat h := e]\<rparr>)"
proof (cases "0 \<le> ifconfig_pool_find pool cn")
  case True
  let ?h = "ifconfig_pool_find pool cn"
  have f: "nat ?h < length (ip_list pool) \<and> \<not> pe_in_use (ip_list pool ! nat ?h)"
    by (rule ifconfig_pool_find_free[OF refl True])
  let ?e0 = "(ifconfig_pool_entry_free now (ip_list pool ! nat ?h) True)\<lparr>pe_in_use := True\<rparr>"
  let ?e = "if cn \<noteq> None then ?e0\<lparr>pe_common_name := cn\<rparr> else ?e0"
  have "ifconfig_pool_acquire now pool cn = Some (fst (lease_of pool ?h), fst (snd (lease_of pool ?h)),
        snd (snd (lease_of pool ?h)), pool\<lparr>ip_list := (ip_list pool)[nat ?h := ?e]\<rparr>)"
    using True f by (simp add: ifconfig_pool_acquire_def Let_def lease_of_def)
  then show ?thesis using got[of ?h ?e] True f by simp
next
  case False
  then show ?thesis using full[of "ifconfig_pool_find pool cn"] by (simp add: ifconfig_pool_acquire_def Let_def)
qed

lemma pool_inv_acquire:
  assumes inv: "pool_inv p0 pool L" and a: "ifconfig_pool_acquire now pool cn = Some (h, a4, a6, pool')" "0 \<le> h"
  shows "pool_inv p0 pool' ((h, a4, a6) # L)"
proof -
  obtain e where e: "nat h < length (ip_list pool)" "\<not> pe_in_use (ip_list pool ! nat h)" "pe_in_use e"
    "(h, a4, a6) = lease_of pool h" "pool' = pool\<lparr>ip_list := (ip_list pool)[nat h := e]\<rparr>"
    using a by (cases rule: ifconfig_pool_acquire_cases[of now pool cn]) (auto simp: lease_of_def)
  have new: "fst l \<noteq> h" if "l \<in> set L" for l using inv that e(2) by (auto simp: pool_inv_def)
  then have "h \<notin> fst ` set L" by auto
  moreover have "pe_in_use ((ip_list pool)[nat h := e] ! nat (fst l))" if "l \<in> set L" for l
  proof -
    have "nat (fst l) \<noteq> nat h" using new[OF that] inv that a(2) by (auto simp: pool_inv_def)
    then show ?thesis using inv that by (simp add: pool_inv_def)
  qed
  moreover have "int (nat h) < int (length (ip_list pool))" using e(1) by (simp only: of_nat_less_iff)
  then have "h < ip_size pool" using inv a(2) by (simp add: pool_inv_def)
  ultimately show ?thesis using inv e(1,3,5) a(2) unfolding e(4) pool_inv_def by simp
qed

lemma pool_inv_release:
  assumes inv: "pool_inv p0 pool L" and l: "(h, a4, a6) \<in> set L"
    and r: "ifconfig_pool_release now pool h hard = (ok, pool')"
  shows "pool_inv p0 pool' (remove1 (h, a4, a6) L)"
proof -
  have "\<forall>l \<in> set L. 0 \<le> fst l \<and> fst l < ip_size pool" using inv by (simp add: pool_inv_def)
  from bspec[OF this l] have h: "0 \<le> h" "h < ip_size pool" by simp_all
  then obtain e where p': "pool' = pool\<lparr>ip_list := (ip_list pool)[nat h := e]\<rparr>"
    using r by (auto simp: ifconfig_pool_release_def)
  have d: "distinct (map fst L)" using inv by (simp add: pool_inv_def)
  then have dL: "distinct L" by (simp add: distinct_map)
  have ne: "fst x \<noteq> h" if "x \<in> set (remove1 (h, a4, a6) L)" for x
  proof -
    have x: "x \<in> set L" "x \<noteq> (h, a4, a6)" using that dL by auto
    show ?thesis using eq_key_imp_eq_value[of L] d l x by (cases x) (auto simp: inj_on_def distinct_map)
  qed
  have "distinct (map fst (remove1 (h, a4, a6) L))" using d by (metis distinct_remove1 dL distinct_map inj_on_subset set_remove1_subset)
  moreover have "pe_in_use ((ip_list pool)[nat h := e] ! nat (fst x))" "x = lease_of pool (fst x)" "0 \<le> fst x" "fst x < ip_size pool"
    if "x \<in> set (remove1 (h, a4, a6) L)" for x
  proof -
    have x: "x \<in> set L" using that dL by auto
    have "\<forall>l \<in> set L. l = lease_of pool (fst l) \<and> 0 \<le> fst l \<and> fst l < ip_size pool" using inv by (simp add: pool_inv_def)
    from bspec[OF this x] show "x = lease_of pool (fst x)" "0 \<le> fst x" "fst x < ip_size pool" by simp_all
    then have "nat (fst x) \<noteq> nat h" using ne[OF that] h(1) by simp
    then show "pe_in_use ((ip_list pool)[nat h := e] ! nat (fst x))" using inv x by (simp add: pool_inv_def)
  qed
  ultimately show ?thesis using inv p' by (simp add: pool_inv_def)
qed

lemma pool_run_inv:
  assumes "pool_run v4 t start fin v6 base6 pool L"
  shows "\<exists>p0 dup netbits. ifconfig_pool_init v4 t start fin dup v6 base6 netbits = Some p0 \<and> pool_inv p0 pool L"
  using assms
proof (induction rule: pool_run.induct)
  case (init dup netbits pool getaddr get6 now persist)
  have "int (length (ip_list pool)) = ip_size pool"
    using init by (auto simp: ifconfig_pool_init_def Let_def aborts split: prod.splits if_splits)
  then have "pool_inv pool (snd (ifconfig_pool_read getaddr get6 now persist pool)) []"
    using pool_read_conf[of pool getaddr get6 now persist] by (simp add: pool_inv_def same_conf_def)
  then show ?case using init by blast
qed (blast intro: pool_inv_acquire pool_inv_release)+

section \<open>The addresses of a lease\<close>

lemma unat_add_small: "unat a + n < 2 ^ 32 \<Longrightarrow> unat (a + of_nat n) = unat a + n" for a :: u32
proof -
  assume a: "unat a + n < 2 ^ 32"
  then have "unat (of_nat n :: u32) = n" by (intro unat_of_nat_small) simp
  then show ?thesis using a by (subst unat_word_ariths) simp
qed

lemma unat_lt32: "unat a < 2 ^ 32" for a :: u32
  using unsigned_less[of a] by simp

lemma indiv_addr:
  fixes start fin :: u32
  assumes "start \<le> fin" "fin - start < of_nat IFCONFIG_POOL_MAX" "int n < sint (fin - start + 1)"
  shows "unat (start + of_nat n) = unat start + n \<and> unat start + n \<le> unat fin"
proof -
  have d: "unat (fin - start) = unat fin - unat start" "unat start \<le> unat fin"
    using unat_minus[OF assms(1)] assms(1) by (simp_all add: word_le_nat_alt)
  have "unat (fin - start) < 65536" using assms(2) by (simp add: word_less_nat_alt IFCONFIG_POOL_MAX_def)
  then have u: "unat (fin - start + 1) = unat (fin - start) + 1" using unat_add_small[of "fin - start" 1] by simp
  then have "unat (fin - start + 1) < 2 ^ 31" using \<open>unat (fin - start) < 65536\<close> by simp
  then have "sint (fin - start + 1) = uint (fin - start + 1)" by (rule sint_small)
  also have "\<dots> = int (unat (fin - start + 1))" by (rule uint_nat)
  finally have "sint (fin - start + 1) = int (unat (fin - start) + 1)" unfolding u .
  then have "n \<le> unat fin - unat start" using assms(3) d(1) by simp
  then have "unat start + n \<le> unat fin" using d(2) by simp
  moreover have "unat start + n < 2 ^ 32" using calculation unat_lt32[of fin] by linarith
  ultimately show ?thesis using unat_add_small by blast
qed

lemma and_not_3: "unat (w AND NOT 3) = 4 * (unat w div 4)" for w :: u32
proof -
  have e: "w AND NOT 3 = push_bit 2 (drop_bit 2 w)"
  proof (rule bit_word_eqI)
    fix n assume "n < LENGTH(32)"
    have 3: "(3 :: u32) = mask 2" by (simp add: mask_eq_exp_minus_1)
    have c: "\<not> n < 2 \<Longrightarrow> Suc (Suc (n - 2)) = n" by simp
    show "bit (w AND NOT 3) n = bit (push_bit 2 (drop_bit 2 w)) n" unfolding 3
      using \<open>n < LENGTH(32)\<close> c by (auto simp: bit_simps)
  qed
  have "4 * (unat w div 4) < 2 ^ 32" using unat_lt32[of w] by linarith
  then show ?thesis unfolding e
    by (simp only: unsigned_push_bit_eq unsigned_drop_bit_eq)
      (simp add: drop_bit_eq_div push_bit_eq_mult take_bit_nat_eq_self unat_lt32 mult.commute)
qed

lemma or_3: "unat (w OR 3) = 4 * (unat w div 4) + 3" for w :: u32
proof -
  have "unat (w OR 3) = unat w OR 3" by (simp add: unsigned_or_eq)
  moreover have "int (unat w AND 3) + int (unat w OR 3) = int (unat w) + 3"
    by (simp only: of_nat_and_eq of_nat_or_eq of_nat_numeral plus_and_or)
  moreover have "unat w AND 3 = unat w mod 4"
    using take_bit_eq_mask[of 2 "unat w"] by (simp add: take_bit_eq_mod mask_eq_exp_minus_1)
  moreover have "unat w mod 4 + 4 * (unat w div 4) = unat w" by simp
  ultimately show ?thesis by linarith
qed

lemma net30_addr:
  fixes start fin :: u32
  defines "base \<equiv> start AND NOT 3"
  assumes "start \<le> fin" "fin - start < of_nat IFCONFIG_POOL_MAX"
    and n: "int n < uint (drop_bit 2 (((fin OR 3) + 1) - base))"
  shows "unat (base + push_bit 2 (of_nat n) + 2) = unat base + 4 * n + 2
    \<and> unat base + 4 * n + 2 \<le> unat (fin OR 3)"
proof -
  let ?s = "unat start" and ?f = "unat fin"
  have d: "?s \<le> ?f" "?f - ?s < 65536"
    using assms(2,3) unat_minus[OF assms(2)] by (simp_all add: word_le_nat_alt word_less_nat_alt IFCONFIG_POOL_MAX_def)
  have b: "unat base = 4 * (?s div 4)" unfolding base_def by (rule and_not_3)
  have F: "unat (fin OR 3) = 4 * (?f div 4) + 3" by (rule or_3)
  have "?f \<le> ?s + 16384 * 4" using d by simp
  then have "?f div 4 \<le> (?s + 16384 * 4) div 4" by (rule div_le_mono)
  then have q: "?s div 4 \<le> ?f div 4" "?f div 4 - ?s div 4 < 32768" using d(1) by (simp_all add: div_le_mono)
  have bF: "base \<le> fin OR 3" using b F q by (simp add: word_le_nat_alt)
  have m: "unat ((fin OR 3) - base) = 4 * (?f div 4 - ?s div 4) + 3" using unat_minus[OF bF] b F q(1) by linarith
  have e1: "((fin OR 3) + 1) - base = ((fin OR 3) - base) + of_nat 1" by simp
  have "unat (((fin OR 3) - base) + of_nat 1) = unat ((fin OR 3) - base) + 1"
    by (rule unat_add_small) (use m q(2) in simp)
  then have "unat (((fin OR 3) + 1) - base) = 4 * (?f div 4 - ?s div 4) + 4" unfolding e1 m by simp
  moreover have "4 * (?f div 4 - ?s div 4) + 4 < 2 ^ 32" using q(2) by simp
  ultimately have dd: "unat (drop_bit 2 (((fin OR 3) + 1) - base)) = ?f div 4 - ?s div 4 + 1"
    by (simp only: unsigned_drop_bit_eq) (simp add: drop_bit_eq_div take_bit_nat_eq_self)
  then have nn: "n \<le> ?f div 4 - ?s div 4" using n unfolding uint_nat by simp
  then have le: "unat base + 4 * n + 2 \<le> unat (fin OR 3)" using b F q by linarith
  have "push_bit 2 (of_nat n) = (of_nat (4 * n) :: u32)" by (simp add: push_bit_eq_mult mult.commute)
  then have "base + push_bit 2 (of_nat n) + 2 = base + of_nat (4 * n + 2)" by (simp add: add.assoc)
  moreover have "unat base + (4 * n + 2) < 2 ^ 32" using le unat_lt32[of "fin OR 3"] by linarith
  ultimately have "unat (base + push_bit 2 (of_nat n) + 2) = unat base + (4 * n + 2)"
    using unat_add_small by metis
  then show ?thesis using le by simp
qed

text \<open>What the set-up of a pool leaves.\<close>

lemma pool_init_facts:
  assumes "ifconfig_pool_init v4 t start fin dup v6 base6 netbits = Some p"
  shows "start \<le> fin \<and> fin - start < of_nat IFCONFIG_POOL_MAX \<and> 0 < ip_size p
    \<and> ip_v4_enabled p = v4 \<and> ip_v6_enabled p = v6
    \<and> (v4 \<longrightarrow> ip_v4_type p = t \<and> ip_v4_base p = fst (pool_v4_params t start fin) \<and> ip_size p \<le> snd (pool_v4_params t start fin))
    \<and> (v6 \<longrightarrow> ip_v6_base p = fst (pool_v6_params base6 netbits) \<and> ip_size p \<le> snd (pool_v6_params base6 netbits))"
  using assms by (auto simp: ifconfig_pool_init_def Let_def aborts split: prod.splits if_splits)

lemma pool_v6_params_facts:
  assumes "length base6 = 16"
  shows "length (fst (pool_v6_params base6 netbits)) = 16 \<and> snd (pool_v6_params base6 netbits) < 2 ^ 31"
  using assms sint_less[of "push_bit (nat (128 - netbits)) 1 - x :: u32" for x]
  by (auto simp: pool_v6_params_def Let_def IFCONFIG_POOL_MAX_def)

definition pool_lo :: "pool_type \<Rightarrow> u32 \<Rightarrow> u32" where
  "pool_lo t start = (case t of IFCONFIG_POOL_30NET \<Rightarrow> start AND NOT 3 | IFCONFIG_POOL_INDIV \<Rightarrow> start)"

definition pool_hi :: "pool_type \<Rightarrow> u32 \<Rightarrow> u32" where
  "pool_hi t fin = (case t of IFCONFIG_POOL_30NET \<Rightarrow> fin OR 3 | IFCONFIG_POOL_INDIV \<Rightarrow> fin)"

lemma pool_v4_remote:
  assumes p: "ifconfig_pool_init True t start fin dup v6 base6 netbits = Some p" and i: "0 \<le> i" "i < ip_size p"
  shows "unat (snd (pool_v4_addrs p i)) =
      unat (pool_lo t start) + (case t of IFCONFIG_POOL_30NET \<Rightarrow> 4 * nat i + 2 | IFCONFIG_POOL_INDIV \<Rightarrow> nat i)
    \<and> pool_lo t start \<le> snd (pool_v4_addrs p i) \<and> snd (pool_v4_addrs p i) \<le> pool_hi t fin"
proof -
  note f = pool_init_facts[OF p]
  have s: "start \<le> fin" "fin - start < of_nat IFCONFIG_POOL_MAX" using f by blast+
  have ty: "ip_v4_type p = t" "ip_v4_base p = fst (pool_v4_params t start fin)"
    "i < snd (pool_v4_params t start fin)" using f i(2) by auto
  have wi: "word_of_int i = (of_nat (nat i) :: u32)" using i(1) by simp
  show ?thesis
  proof (cases t)
    case IFCONFIG_POOL_30NET
    have n: "int (nat i) < uint (drop_bit 2 (((fin OR 3) + 1) - (start AND NOT 3)))"
      using ty(3) i(1) IFCONFIG_POOL_30NET by (simp add: pool_v4_params_def Let_def)
    have a: "snd (pool_v4_addrs p i) = (start AND NOT 3) + push_bit 2 (of_nat (nat i)) + 2"
      unfolding pool_v4_addrs_def wi using ty(1,2) IFCONFIG_POOL_30NET by (simp add: pool_v4_params_def Let_def)
    show ?thesis unfolding a using net30_addr[OF s n] IFCONFIG_POOL_30NET
      by (simp add: pool_lo_def pool_hi_def word_le_nat_alt)
  next
    case IFCONFIG_POOL_INDIV
    have n: "int (nat i) < sint (fin - start + 1)"
      using ty(3) i(1) IFCONFIG_POOL_INDIV by (simp add: pool_v4_params_def)
    have a: "snd (pool_v4_addrs p i) = start + of_nat (nat i)"
      unfolding pool_v4_addrs_def wi using ty(1,2) IFCONFIG_POOL_INDIV by (simp add: pool_v4_params_def)
    show ?thesis unfolding a using indiv_addr[OF s n] IFCONFIG_POOL_INDIV
      by (simp add: pool_lo_def pool_hi_def word_le_nat_alt)
  qed
qed

lemma nat_mod_shift:
  fixes x y m :: nat
  assumes "(a + x) mod m = (a + y) mod m" "x < m" "y < m"
  shows "x = y"
proof -
  have "x = y" if "(a + x) mod m = (a + y) mod m" "x < m" "x \<ge> y" for x y
  proof -
    have "m dvd (a + x) - (a + y)" using that mod_eq_dvd_iff_nat[of "a + y" "a + x" m] by simp
    then have "m dvd x - y" by simp
    moreover have "x - y < m" using that by simp
    ultimately have "x - y = 0" by (metis dvd_imp_le neq0_conv not_less)
    then show ?thesis using that by simp
  qed
  then show ?thesis using assms by (metis nle_le)
qed

lemma pool_v6_inj:
  assumes "length base = 16" "0 \<le> i" "i < 2 ^ 31" "0 \<le> j" "j < 2 ^ 31"
    and e: "add_in6_addr base (word_of_int i) = add_in6_addr base (word_of_int j)"
  shows "i = j"
proof -
  have u: "unat (word_of_int i :: u32) = nat i" "unat (word_of_int j :: u32) = nat j"
    using unat_of_int32[of i] unat_of_int32[of j] assms(2-5) by simp_all
  have v: "in6_nat (add_in6_addr base n) = (in6_nat base + unat n) mod 2 ^ 128" for n
    using assms(1) by (simp add: in6_nat_def add_in6_addr_def le_nat_add)
  have "(in6_nat base + nat i) mod 2 ^ 128 = (in6_nat base + nat j) mod 2 ^ 128" using v e u by metis
  then have "nat i = nat j" by (rule nat_mod_shift) (use assms(2-5) in simp_all)
  then show ?thesis using assms(2,4) by simp
qed

lemma lease_of_conf: "same_conf p q \<Longrightarrow> lease_of q h = lease_of p h"
  by (cases "ip_v4_type p") (simp_all add: same_conf_def lease_of_def pool_v4_addrs_def)

lemma distinct_leases:
  assumes "distinct (map fst L)" and "\<And>l. l \<in> set L \<Longrightarrow> f l = g (fst l) \<and> P (fst l)"
    and "\<And>i j. P i \<Longrightarrow> P j \<Longrightarrow> g i = g j \<Longrightarrow> i = j"
  shows "distinct (map f L)"
proof -
  have "inj_on f (set L)"
  proof (rule inj_onI)
    fix x y assume xy: "x \<in> set L" "y \<in> set L" "f x = f y"
    then have "fst x = fst y" using assms(2,3) by metis
    then show "x = y" using assms(1) xy(1,2) by (auto simp: distinct_map inj_on_def)
  qed
  then show ?thesis using assms(1) by (simp add: distinct_map)
qed

abbreviation lease_remote :: "lease \<Rightarrow> u32" where
  "lease_remote l \<equiv> snd (the (fst (snd l)))"

abbreviation lease_ipv6 :: "lease \<Rightarrow> bytes" where
  "lease_ipv6 l \<equiv> the (snd (snd l))"

text \<open>
  C9. Leases. Whatever is in the persisted database and in whatever order clients come and go,
  acquiring an address never fails an assertion, no two clients hold the same entry, the remote
  IPv4 addresses of the leases are pairwise different and inside the configured range (widened
  to whole subnets of four in the \<open>net30\<close> topology), and so are their IPv6 addresses.
\<close>

theorem ip_pool_leases:
  assumes "pool_run v4 t start fin v6 base6 pool L" and "length base6 = 16"
  shows "(\<forall>now cn. ifconfig_pool_acquire now pool cn \<noteq> None) \<and> distinct (map fst L)
    \<and> (v4 \<longrightarrow> distinct (map lease_remote L)
          \<and> (\<forall>l \<in> set L. pool_lo t start \<le> lease_remote l \<and> lease_remote l \<le> pool_hi t fin))
    \<and> (v6 \<longrightarrow> distinct (map lease_ipv6 L))"
proof -
  obtain p0 dup netbits where p0: "ifconfig_pool_init v4 t start fin dup v6 base6 netbits = Some p0"
    "pool_inv p0 pool L" using pool_run_inv[OF assms(1)] by blast
  note f = pool_init_facts[OF p0(1)]
  have sc: "same_conf p0 pool" and d: "distinct (map fst L)" using p0(2) by (simp_all add: pool_inv_def)
  have L: "l = lease_of p0 (fst l) \<and> 0 \<le> fst l \<and> fst l < ip_size p0" if "l \<in> set L" for l
    using p0(2) that lease_of_conf[OF sc] sc by (auto simp: pool_inv_def same_conf_def)
  have tot: "ifconfig_pool_acquire now pool cn \<noteq> None" for now cn
    by (rule ifconfig_pool_acquire_cases[of now pool cn]) simp_all
  have r4: "distinct (map lease_remote L)
      \<and> (\<forall>l \<in> set L. pool_lo t start \<le> lease_remote l \<and> lease_remote l \<le> pool_hi t fin)" if v4
  proof -
    have p1: "ifconfig_pool_init True t start fin dup v6 base6 netbits = Some p0" using p0(1) that by simp
    have g: "lease_remote l = snd (pool_v4_addrs p0 (fst l))" if "l \<in> set L" for l
    proof -
      have "lease_remote (lease_of p0 i) = snd (pool_v4_addrs p0 i)" for i
        using f \<open>v4\<close> by (simp add: lease_of_def)
      then show ?thesis using L[OF that] by metis
    qed
    have "distinct (map lease_remote L)"
    proof (rule distinct_leases[OF d, where g = "\<lambda>i. snd (pool_v4_addrs p0 i)" and P = "\<lambda>i. 0 \<le> i \<and> i < ip_size p0"])
      show "lease_remote l = snd (pool_v4_addrs p0 (fst l)) \<and> 0 \<le> fst l \<and> fst l < ip_size p0" if "l \<in> set L" for l
        using g[OF that] L[OF that] by blast
      fix i j assume ij: "0 \<le> i \<and> i < ip_size p0" "0 \<le> j \<and> j < ip_size p0"
        "snd (pool_v4_addrs p0 i) = snd (pool_v4_addrs p0 j)"
      then have "nat i = nat j"
        using pool_v4_remote[OF p1, of i] pool_v4_remote[OF p1, of j] by (cases t) auto
      then show "i = j" using ij(1,2) by (simp add: eq_nat_nat_iff)
    qed
    then show ?thesis using g L pool_v4_remote[OF p1] by metis
  qed
  have r6: "distinct (map lease_ipv6 L)" if v6
  proof (rule distinct_leases[OF d, where g = "\<lambda>i. add_in6_addr (ip_v6_base p0) (word_of_int i)"
        and P = "\<lambda>i. 0 \<le> i \<and> i < ip_size p0"])
    have "lease_ipv6 (lease_of p0 i) = add_in6_addr (ip_v6_base p0) (word_of_int i)" for i
      using f that by (simp add: lease_of_def)
    then show "lease_ipv6 l = add_in6_addr (ip_v6_base p0) (word_of_int (fst l)) \<and> 0 \<le> fst l \<and> fst l < ip_size p0"
      if "l \<in> set L" for l using L[OF that] by metis
    have b: "length (ip_v6_base p0) = 16" "ip_size p0 < 2 ^ 31"
      using f that pool_v6_params_facts[OF assms(2), of netbits] by auto
    fix i j assume "0 \<le> i \<and> i < ip_size p0" "0 \<le> j \<and> j < ip_size p0"
      "add_in6_addr (ip_v6_base p0) (word_of_int i) = add_in6_addr (ip_v6_base p0) (word_of_int j)"
    then show "i = j" using pool_v6_inj[OF b(1), of i j] b(2) by linarith
  qed
  show ?thesis using tot d r4 r6 by blast
qed

text \<open>A database that could not be opened.\<close>

definition no_persist :: ifconfig_pool_persist where
  "no_persist = ifconfig_pool_persist_init None 0"

lemma pool_read_no_persist: "snd (ifconfig_pool_read getaddr get6 now no_persist pool) = pool"
  by (simp add: ifconfig_pool_read_def no_persist_def ifconfig_pool_persist_init_def status_open_def
      pool_read_loop.simps status_read_def)

definition demo_pool :: ifconfig_pool where
  "demo_pool = \<lparr>ip_duplicate_cn = False, ip_v4_enabled = True, ip_v4_type = IFCONFIG_POOL_30NET, ip_v4_base = 0x0A080000,
     ip_v6_enabled = True, ip_v6_base = replicate 15 0xfd @ [0], ip_size = 4, ip_list = replicate 4 entry_clear\<rparr>"

lemma demo_pool_v4: "pool_v4_params IFCONFIG_POOL_30NET 0x0A080000 0x0A08000F = (0x0A080000, 4)"
  by code_simp

lemma demo_pool_low: "in6_low (replicate 15 0xfd @ [0]) = 0xfdfdfd00"
  by code_simp

lemma demo_pool_v6: "pool_v6_params (replicate 15 0xfd @ [0]) 64 = (replicate 15 0xfd @ [0], 65536)"
  by (simp add: pool_v6_params_def demo_pool_low IFCONFIG_POOL_MAX_def)

lemma demo_pool_init:
  "ifconfig_pool_init True IFCONFIG_POOL_30NET 0x0A080000 0x0A08000F False True (replicate 15 0xfd @ [0]) 64 = Some demo_pool"
  unfolding ifconfig_pool_init_def demo_pool_v4 demo_pool_v6 by (simp add: IFCONFIG_POOL_MAX_def demo_pool_def)

lemma demo_pool_acquire:
  "\<exists>a1 b1 p1. ifconfig_pool_acquire 7 demo_pool (Some [97]) = Some (0, a1, b1, p1)
    \<and> (\<exists>a2 b2 p2. ifconfig_pool_acquire 8 p1 None = Some (1, a2, b2, p2))"
  by (simp add: ifconfig_pool_acquire_def ifconfig_pool_find_def demo_pool_def entry_clear_def Let_def
      eval_nat_numeral ifconfig_pool_entry_free_def)

lemma ip_pool_leases_witness:
  "\<exists>pool L. pool_run True IFCONFIG_POOL_30NET 0x0A080000 0x0A08000F True (replicate 15 0xfd @ [0]) pool L
    \<and> length L = 2 \<and> distinct (map lease_remote L) \<and> distinct (map lease_ipv6 L)"
proof -
  let ?b = "replicate 15 0xfd @ [0] :: bytes"
  have r0: "pool_run True IFCONFIG_POOL_30NET 0x0A080000 0x0A08000F True ?b demo_pool []"
    using pool_run.init[OF demo_pool_init, of _ _ 5 no_persist] by (simp add: pool_read_no_persist)
  obtain a1 b1 p1 a2 b2 p2 where a: "ifconfig_pool_acquire 7 demo_pool (Some [97]) = Some (0, a1, b1, p1)"
    "ifconfig_pool_acquire 8 p1 None = Some (1, a2, b2, p2)"
    using demo_pool_acquire by blast
  let ?L = "[(1, a2, b2), (0, a1, b1)]"
  have r: "pool_run True IFCONFIG_POOL_30NET 0x0A080000 0x0A08000F True ?b p2 ?L"
    using pool_run.acquire[OF pool_run.acquire[OF r0 a(1)] a(2)] by simp
  have "length ?b = 16" by simp
  from ip_pool_leases[OF r this] have "distinct (map lease_remote ?L) \<and> distinct (map lease_ipv6 ?L)" by blast
  then show ?thesis using r by (intro exI[of _ p2] exI[of _ ?L]) simp
qed

section \<open>The persisted database\<close>

lemma sint_of_nat_small: "n < 2 ^ 31 \<Longrightarrow> sint (of_nat n :: u32) = int n"
  using sint_small[of "of_nat n"] unat_of_nat_small[of n, where 'a = 32] by (simp add: uint_nat)

lemma uint_le_of_unat: "unat d \<le> n \<Longrightarrow> int n = m \<Longrightarrow> uint d \<le> m" for d :: "'a::len word"
  by (metis of_nat_le_iff uint_nat)

lemma pool_v4_size:
  assumes "ifconfig_pool_init True t start fin dup v6 base6 netbits = Some p"
  shows "ip_size p \<le> 2 ^ 30"
proof -
  note f = pool_init_facts[OF assms]
  have s: "start \<le> fin" "fin - start < of_nat IFCONFIG_POOL_MAX" using f by blast+
  have le: "ip_size p \<le> snd (pool_v4_params t start fin)" using f by blast
  show ?thesis
  proof (cases t)
    case IFCONFIG_POOL_30NET
    have "uint (drop_bit 2 w) \<le> 2 ^ 30" for w :: u32
    proof -
      have "unat (drop_bit 2 w) = unat w div 4" by (simp only: unsigned_drop_bit_eq) (simp add: drop_bit_eq_div take_bit_nat_eq_self unat_lt32[simplified])
      moreover have "unat w < 2 ^ 32" by (rule unat_lt32)
      ultimately have "unat (drop_bit 2 w) \<le> 2 ^ 30" by simp
      then have "int (unat (drop_bit 2 w)) \<le> int (2 ^ 30)" by (simp only: of_nat_le_iff)
      then show ?thesis by simp
    qed
    then show ?thesis using le IFCONFIG_POOL_30NET order_trans by (fastforce simp: pool_v4_params_def Let_def)
  next
    case IFCONFIG_POOL_INDIV
    have "unat (fin - start) < 65536" using s(2) by (simp add: word_less_nat_alt IFCONFIG_POOL_MAX_def)
    then have "unat (fin - start + of_nat 1) = unat (fin - start) + 1" by (intro unat_add_small) simp
    then have u: "unat (fin - start + 1) \<le> 65536" using \<open>unat (fin - start) < 65536\<close> by simp
    then have "sint (fin - start + 1) = uint (fin - start + 1)" by (intro sint_small) simp
    moreover have "uint (fin - start + 1) \<le> 65536" using uint_le_of_unat[OF u] by simp
    ultimately have "sint (fin - start + 1) \<le> 65536" by simp
    then show ?thesis using le IFCONFIG_POOL_INDIV by (simp add: pool_v4_params_def)
  qed
qed

lemma pool_ip_handle_roundtrip:
  assumes "0 \<le> i" "i < ip_size p" "ip_size p \<le> 2 ^ 30" "ip_v4_enabled p"
  shows "ifconfig_pool_ip_base_to_handle p (ifconfig_pool_handle_to_ip_base p i) = i"
proof -
  have w: "word_of_int i = (of_nat (nat i) :: u32)" using assms(1) by simp
  have n: "nat i < 2 ^ 30" using assms by simp
  have s: "sint (of_nat (nat i) :: u32) = i" using sint_of_nat_small[of "nat i"] n assms(1) by simp
  have "drop_bit 2 (push_bit 2 x) = x" if "unat x < 2 ^ 30" for x :: u32
  proof (rule bit_word_eqI)
    fix n assume "n < LENGTH(32)"
    moreover have "n < 30" if "bit x n"
    proof (rule ccontr)
      assume "\<not> n < 30"
      have "unat x < 2 ^ n" using \<open>unat x < 2 ^ 30\<close> power_increasing[of 30 n "2 :: nat"] \<open>\<not> n < 30\<close> by simp
      then have "unat x div 2 ^ n = 0" by simp
      then have "\<not> bit (unat x) n" unfolding bit_iff_odd by simp
      then show False using \<open>n < LENGTH(32)\<close> that by (simp add: bit_unsigned_iff)
    qed
    ultimately show "bit (drop_bit 2 (push_bit 2 x)) n = bit x n" by (auto simp: bit_simps)
  qed
  moreover have "unat (of_nat (nat i) :: u32) < 2 ^ 30" using n unat_of_nat_small[of "nat i", where 'a = 32] by simp
  ultimately have "drop_bit 2 (push_bit 2 (of_nat (nat i)) :: u32) = of_nat (nat i)" by blast
  then obtain x :: u32 where "word_of_int i = x" "drop_bit 2 (push_bit 2 x) = x" "sint x = i"
    using w s by metis
  then show ?thesis using assms
    by (cases "ip_v4_type p")
      (simp_all add: ifconfig_pool_ip_base_to_handle_def ifconfig_pool_handle_to_ip_base_def in_range_handle_def)
qed

text \<open>Names that can be written to a line of the database and be read back.\<close>

definition csv_name :: "bytes \<Rightarrow> bool" where
  "csv_name cn \<longleftrightarrow> length cn < 128 \<and> set cn \<inter> {0, 10, 13, 44} = {} \<and> (cn = [] \<or> hd cn \<notin> {35, 59})"

text \<open>What is relied on of \<open>inet_ntop\<close>: a text that fits into its buffer of 63 bytes, without separators.\<close>

definition ntop_text :: "(bytes \<Rightarrow> bytes) \<Rightarrow> bool" where
  "ntop_text inet_ntop \<longleftrightarrow> (\<forall>a. length (inet_ntop a) < 63 \<and> set (inet_ntop a) \<inter> {0, 10, 13, 44} = {})"

lemma dec_digits: "n < 256 \<Longrightarrow> length (dec n) \<le> 3 \<and> dec n \<noteq> [] \<and> set (dec n) \<subseteq> word_of_nat ` {48..<58}"
proof (induction n rule: dec.induct)
  case (1 n)
  have s: "dec n = (if n < 10 then [word_of_nat (48 + n)] else dec (n div 10) @ [word_of_nat (48 + n mod 10)])"
    by (rule dec.simps)
  show ?case
  proof (cases "n < 10")
    case True
    then have "word_of_nat (48 + n) \<in> (word_of_nat ` {48..<58} :: u8 set)" by (intro imageI) simp
    then show ?thesis using s True by simp
  next
    case False
    let ?m = "n div 10"
    have m: "dec ?m = (if ?m < 10 then [word_of_nat (48 + ?m)] else dec (?m div 10) @ [word_of_nat (48 + ?m mod 10)])"
      by (rule dec.simps)
    have "?m div 10 < 10" using "1.prems" by simp
    then have "length (dec (?m div 10)) = 1" by (subst dec.simps) simp
    then have l: "length (dec ?m) \<le> 2" using m by (simp split: if_splits)
    have "word_of_nat (48 + n mod 10) \<in> (word_of_nat ` {48..<58} :: u8 set)" by (intro imageI) simp
    moreover have "set (dec ?m) \<subseteq> word_of_nat ` {48..<58}" using "1.IH"[OF False] "1.prems" by simp
    ultimately show ?thesis using s False l by simp
  qed
qed

lemma digits_no_separator: "set (dec n) \<subseteq> word_of_nat ` {48..<58} \<Longrightarrow> set (dec n) \<inter> {0, 10, 13, 44, 46} = {}"
proof -
  have "\<forall>k \<in> {48..<58 :: nat}. (word_of_nat k :: u8) \<notin> {0, 10, 13, 44, 46}" by code_simp
  then have "(word_of_nat ` {48..<58}) \<inter> {0, 10, 13, 44, 46} = ({} :: u8 set)" by auto
  then show "set (dec n) \<subseteq> word_of_nat ` {48..<58} \<Longrightarrow> set (dec n) \<inter> {0, 10, 13, 44, 46} = {}" by blast
qed

lemma print_in_addr_text:
  "print_in_addr_t a 0 \<noteq> [] \<and> length (print_in_addr_t a 0) \<le> 15 \<and> set (print_in_addr_t a 0) \<inter> {0, 10, 13, 44} = {}"
proof -
  let ?d = "\<lambda>i. dec (unat (htonl a ! i))"
  have d: "length (?d i) \<le> 3" "?d i \<noteq> []" "set (?d i) \<inter> {0, 10, 13, 44} = {}" for i
  proof -
    have "unat (htonl a ! i) < 256" using unsigned_less[of "htonl a ! i"] by simp
    from dec_digits[OF this] digits_no_separator show "length (?d i) \<le> 3" "?d i \<noteq> []" "set (?d i) \<inter> {0, 10, 13, 44} = {}"
      by blast+
  qed
  have e: "print_in_addr_t a 0 = ?d 0 @ 46 # ?d 1 @ 46 # ?d 2 @ 46 # ?d 3"
    by (simp add: print_in_addr_t_def inet_ntoa_def)
  show ?thesis unfolding e using d(1)[of 0] d(1)[of 1] d(1)[of 2] d(1)[of 3] d(3)[of 0] d(3)[of 1] d(3)[of 2] d(3)[of 3]
    by auto
qed

lemma handle_to_ip_conf: "same_conf p q \<Longrightarrow> ifconfig_pool_handle_to_ip_base q i = ifconfig_pool_handle_to_ip_base p i"
  by (cases "ip_v4_type p") (simp_all add: same_conf_def ifconfig_pool_handle_to_ip_base_def)

lemma ip_to_handle_conf: "same_conf p q \<Longrightarrow> ifconfig_pool_ip_base_to_handle q a = ifconfig_pool_ip_base_to_handle p a"
  by (cases "ip_v4_type p") (simp_all add: same_conf_def ifconfig_pool_ip_base_to_handle_def in_range_handle_def)

definition restored :: "int \<Rightarrow> bool \<Rightarrow> ifconfig_pool \<Rightarrow> nat \<Rightarrow> ifconfig_pool_entry" where
  "restored now fixed pool i = (case pe_common_name (ip_list pool ! i) of
       None \<Rightarrow> entry_clear
     | Some cn \<Rightarrow> \<lparr>pe_in_use = False, pe_common_name = Some cn, pe_last_release = now, pe_fixed = fixed\<rparr>)"

text \<open>The text of the database.\<close>

definition pool_text :: "bytes list \<Rightarrow> bytes" where
  "pool_text lines = concat (map (\<lambda>l. l @ [10]) lines)"

lemma pool_text_simps [simp]:
  "pool_text [] = []" "pool_text (l # ls) = l @ 10 # pool_text ls" "pool_text (ls @ ms) = pool_text ls @ pool_text ms"
  by (simp_all add: pool_text_def)

text \<open>Lines that the status file can hold.\<close>

definition csv_line :: "bytes \<Rightarrow> bool" where
  "csv_line l \<longleftrightarrow> length l < 256 \<and> set l \<inter> {0, 10, 13} = {}"

lemma status_printf_lines:
  assumes "so_open out" "so_can STATUS_OUTPUT_WRITE out" "\<not> so_errors out" "so_off out \<le> length (so_file out)"
    and "\<forall>l \<in> set ls. length l < STATUS_PRINTF_MAXLEN"
  shows "so_open (foldl status_printf out ls) \<and> so_can STATUS_OUTPUT_WRITE (foldl status_printf out ls)
    \<and> take (so_off (foldl status_printf out ls)) (so_file (foldl status_printf out ls))
      = take (so_off out) (so_file out) @ pool_text ls"
  using assms
proof (induction ls arbitrary: out)
  case (Cons l ls)
  have e: "status_printf out l = so_write (l @ [10]) out" using Cons.prems by (intro status_printf_append) auto
  have "so_open (so_write (l @ [10]) out)" "so_can STATUS_OUTPUT_WRITE (so_write (l @ [10]) out)"
    "\<not> so_errors (so_write (l @ [10]) out)"
    "so_off (so_write (l @ [10]) out) \<le> length (so_file (so_write (l @ [10]) out))"
    "\<forall>l \<in> set ls. length l < STATUS_PRINTF_MAXLEN"
    using Cons.prems take_so_write[OF Cons.prems(4)] by simp_all
  from Cons.IH[OF this] show ?case using take_so_write[OF Cons.prems(4)] e by simp
qed simp

lemma ifconfig_pool_list_lines:
  "ifconfig_pool_list ntop pool out = foldl status_printf out (List.map_filter (pool_line ntop pool) [0..<nat (ip_size pool)])"
proof -
  have "foldl (\<lambda>out i. case pool_line ntop pool i of None \<Rightarrow> out | Some line \<Rightarrow> status_printf out line) out is'
      = foldl status_printf out (List.map_filter (pool_line ntop pool) is')" for is' out
    by (induction is' arbitrary: out) (auto simp: List.map_filter_def split: option.splits)
  then show ?thesis by (simp add: ifconfig_pool_list_def)
qed

lemma ifconfig_pool_write_text:
  assumes "so_open (pp_file per)" "so_can STATUS_OUTPUT_WRITE (pp_file per)" "\<not> so_errors (pp_file per)"
    and "\<forall>l \<in> set (List.map_filter (pool_line ntop pool) [0..<nat (ip_size pool)]). csv_line l"
  shows "so_file (pp_file (ifconfig_pool_write ntop per pool))
    = pool_text (List.map_filter (pool_line ntop pool) [0..<nat (ip_size pool)])"
proof -
  let ?ls = "List.map_filter (pool_line ntop pool) [0..<nat (ip_size pool)]"
  let ?out = "status_reset (pp_file per)"
  have o: "so_open ?out" "so_can STATUS_OUTPUT_WRITE ?out" "\<not> so_errors ?out" "so_off ?out \<le> length (so_file ?out)"
    "so_off ?out = 0"
    using assms by (simp_all add: status_reset_def)
  have l: "\<forall>l \<in> set ?ls. length l < STATUS_PRINTF_MAXLEN"
    using assms(4) by (fastforce simp: csv_line_def STATUS_PRINTF_MAXLEN_def)
  show ?thesis using status_printf_lines[OF o(1-4) l] o(5) assms(2)
    by (simp add: ifconfig_pool_write_def status_flush_def ifconfig_pool_list_lines)
qed

lemma pool_read_lines:
  assumes "so_rest so = pool_text ls" "so_open so" "so_can STATUS_OUTPUT_READ so" "\<forall>l \<in> set ls. csv_line l"
  shows "snd (pool_read_loop getaddr get6 now fixed so q)
    = foldl (\<lambda>q l. pool_read_line getaddr get6 now fixed q (l @ [0])) q ls"
  using assms
proof (induction ls arbitrary: so q)
  case Nil
  then have "fst (status_read 256 so) = False" by (intro status_read_end) simp
  then show ?case by (subst pool_read_loop.simps) (auto simp: case_prod_beta)
next
  case (Cons l ls)
  have "10 \<notin> set l" "13 \<notin> set l" "0 \<notin> set l" "length l < 256" using Cons.prems(4) by (auto simp: csv_line_def)
  moreover have "so_rest so = l @ 10 # pool_text ls" using Cons.prems(1) by simp
  ultimately obtain so' where r: "status_read 256 so = (True, l @ [0], so')" "so_rest so' = pool_text ls"
    using status_read_line[of so l "pool_text ls" 256] Cons.prems(2,3) by blast
  have "so_open so'" "so_can STATUS_OUTPUT_READ so'"
    using status_read_rest[OF r(1)] Cons.prems(2,3) by (simp_all add: so_can_def)
  from Cons.IH[OF r(2) this] Cons.prems(4) show ?case using r(1) by (subst pool_read_loop.simps) simp
qed

text \<open>A line that was written sets the entry it came from.\<close>

lemma pool_read_line_written:
  assumes cn: "csv_name cn" and ip: "getaddr (print_in_addr_t a 0) = Some a"
    and h: "ifconfig_pool_ip_base_to_handle q a = h" "0 \<le> h"
    and ip6: "length ip6 < 63" "set ip6 \<inter> {0, 10, 13, 44} = {}"
  shows "pool_read_line getaddr get6 now fixed q ((cn @ 44 # print_in_addr_t a 0 @ 44 # ip6) @ [0])
      = ifconfig_pool_set now q cn h fixed"
proof -
  let ?ip = "print_in_addr_t a 0"
  note t = print_in_addr_text[of a]
  have "buf_parse 44 128 (cn @ 44 # (?ip @ 44 # ip6 @ [0])) = (True, cn, ?ip @ 44 # ip6 @ [0])"
    using cn by (intro buf_parse_field) (auto simp: csv_name_def)
  moreover have "buf_parse 44 128 (?ip @ 44 # (ip6 @ [0])) = (True, ?ip, ip6 @ [0])"
    using t by (intro buf_parse_field) auto
  moreover have "buf_parse 44 128 (ip6 @ 0 # []) = (True, ip6, [])"
    using ip6 by (intro buf_parse_field) auto
  moreover have "hd (cn @ 44 # ?ip @ 44 # ip6 @ [0]) \<notin> {35, 59}"
    using cn by (cases cn) (auto simp: csv_name_def)
  ultimately show ?thesis using t ip h by (auto simp: pool_read_line_def Let_def split: option.splits)
qed

text \<open>A name with a comma is cut at it, and its entry is lost when the rest is no address.\<close>

lemma pool_comma_name_lost:
  assumes "length x < 128" "length y < 128" "set x \<inter> {0, 44} = {}" "set y \<inter> {0, 44} = {}" "y \<noteq> []"
    and "getaddr y = None" "get6 (print_in_addr_t a 0) = None"
  shows "pool_read_line getaddr get6 now fixed q (((x @ 44 # y) @ 44 # print_in_addr_t a 0 @ 44 # ip6) @ [0]) = q"
proof -
  let ?ip = "print_in_addr_t a 0"
  note t = print_in_addr_text[of a]
  have "buf_parse 44 128 (x @ 44 # (y @ 44 # ?ip @ 44 # ip6 @ [0])) = (True, x, y @ 44 # ?ip @ 44 # ip6 @ [0])"
    using assms by (intro buf_parse_field) auto
  moreover have "buf_parse 44 128 (y @ 44 # (?ip @ 44 # ip6 @ [0])) = (True, y, ?ip @ 44 # ip6 @ [0])"
    using assms by (intro buf_parse_field) auto
  moreover have "buf_parse 44 128 (?ip @ 44 # (ip6 @ [0])) = (True, ?ip, ip6 @ [0])"
    using t by (intro buf_parse_field) auto
  ultimately show ?thesis using t assms by (auto simp: pool_read_line_def Let_def)
qed

lemma pool_read_prefix:
  fixes getaddr get6 ntop now fixed pool p
  defines "rd \<equiv> \<lambda>k. foldl (\<lambda>q l. pool_read_line getaddr get6 now fixed q (l @ [0])) p
      (List.map_filter (pool_line ntop pool) [0..<k])"
  assumes p: "ip_v4_enabled p" "ip_size p \<le> 2 ^ 30" "ip_list p = replicate (nat (ip_size p)) entry_clear"
    and c: "same_conf p pool"
    and t: "\<And>a. getaddr (print_in_addr_t a 0) = Some a" "ntop_text ntop"
    and n: "\<And>i cn. i < nat (ip_size p) \<Longrightarrow> pe_common_name (ip_list pool ! i) = Some cn \<Longrightarrow> csv_name cn"
    and k: "k \<le> nat (ip_size p)"
  shows "same_conf p (rd k)
    \<and> ip_list (rd k) = map (restored now fixed pool) [0..<k] @ replicate (nat (ip_size p) - k) entry_clear"
  using k
proof (induction k)
  case 0
  then show ?case using p(3) by (simp add: rd_def List.map_filter_def)
next
  case (Suc k)
  let ?m = "nat (ip_size p) - Suc k"
  have IH: "same_conf p (rd k)" "ip_list (rd k) = map (restored now fixed pool) [0..<k] @ entry_clear # replicate ?m entry_clear"
  proof -
    have "nat (ip_size p) - k = Suc ?m" using Suc.prems by simp
    then have "replicate (nat (ip_size p) - k) entry_clear = entry_clear # replicate ?m entry_clear" by simp
    then show "same_conf p (rd k)" "ip_list (rd k) = map (restored now fixed pool) [0..<k] @ entry_clear # replicate ?m entry_clear"
      using Suc by simp_all
  qed
  have app: "rd (Suc k) = (case pool_line ntop pool k of None \<Rightarrow> rd k
      | Some l \<Rightarrow> pool_read_line getaddr get6 now fixed (rd k) (l @ [0]))"
    by (simp add: List.map_filter_def rd_def split: option.splits)
  have up: "map (restored now fixed pool) [0..<Suc k] = map (restored now fixed pool) [0..<k] @ [restored now fixed pool k]" by simp
  show ?case
  proof (cases "pe_common_name (ip_list pool ! k)")
    case None
    then have "pool_line ntop pool k = None" "restored now fixed pool k = entry_clear"
      by (simp_all add: pool_line_def restored_def)
    then show ?thesis using IH unfolding app up by simp
  next
    case (Some cn)
    have kk: "0 \<le> int k" "int k < ip_size p" using Suc.prems by simp_all
    have h: "ifconfig_pool_ip_base_to_handle (rd k) (ifconfig_pool_handle_to_ip_base pool (int k)) = int k"
      using ip_to_handle_conf[OF IH(1)] handle_to_ip_conf[OF c] pool_ip_handle_roundtrip[OF kk p(2,1)] by simp
    have cn: "csv_name cn" using n[OF _ Some] Suc.prems by simp
    let ?ip6 = "if ip_v6_enabled pool then print_in6_addr ntop (ifconfig_pool_handle_to_ipv6_base pool (int k)) 0 else []"
    have ip6: "length ?ip6 < 63" "set ?ip6 \<inter> {0, 10, 13, 44} = {}"
      using t(2) by (simp_all add: ntop_text_def print_in6_addr_def)
    have v4: "ip_v4_enabled pool" using c p(1) by (simp add: same_conf_def)
    have "pool_line ntop pool k
        = Some (cn @ 44 # print_in_addr_t (ifconfig_pool_handle_to_ip_base pool (int k)) 0 @ 44 # ?ip6)"
      using Some v4 by (simp add: pool_line_def Let_def)
    then have "rd (Suc k) = ifconfig_pool_set now (rd k) cn (int k) fixed"
      unfolding app
      using pool_read_line_written[where getaddr = getaddr and ?ip6.0 = ?ip6, OF cn t(1) h kk(1) ip6] by simp
    moreover have "ip_list (ifconfig_pool_set now (rd k) cn (int k) fixed)
        = map (restored now fixed pool) [0..<Suc k] @ replicate ?m entry_clear"
      unfolding up using Some by (simp add: ifconfig_pool_set_def Let_def IH(2) list_update_append nth_append restored_def
          ifconfig_pool_entry_free_def entry_clear_def)
    moreover have "same_conf p (ifconfig_pool_set now (rd k) cn (int k) fixed)"
      using IH(1) by (simp add: ifconfig_pool_set_def Let_def)
    ultimately show ?thesis by simp
  qed
qed

lemma pool_line_csv:
  assumes "ntop_text ntop" "\<And>cn. pe_common_name (ip_list pool ! i) = Some cn \<Longrightarrow> csv_name cn"
    and "pool_line ntop pool i = Some l"
  shows "csv_line l"
proof -
  obtain cn where cn: "pe_common_name (ip_list pool ! i) = Some cn" using assms(3)
    by (auto simp: pool_line_def split: option.splits)
  have "csv_name cn" by (rule assms(2)[OF cn])
  then have cn': "length cn < 128" "set cn \<inter> {0, 10, 13} = {}" by (auto simp: csv_name_def)
  let ?ip = "if ip_v4_enabled pool then print_in_addr_t (ifconfig_pool_handle_to_ip_base pool (int i)) 0 else []"
  let ?ip6 = "if ip_v6_enabled pool then print_in6_addr ntop (ifconfig_pool_handle_to_ipv6_base pool (int i)) 0 else []"
  have ip: "length ?ip \<le> 15 \<and> set ?ip \<inter> {0, 10, 13} = {}" using print_in_addr_text by auto
  have "length (ntop a) < 63 \<and> set (ntop a) \<inter> {0, 10, 13} = {}" for a using assms(1) by (auto simp: ntop_text_def)
  then have ip6: "length ?ip6 < 63 \<and> set ?ip6 \<inter> {0, 10, 13} = {}" by (simp add: print_in6_addr_def)
  have l: "l = cn @ 44 # ?ip @ 44 # ?ip6" using assms(3) cn by (simp add: pool_line_def Let_def)
  have "set l = set cn \<union> {44} \<union> set ?ip \<union> {44} \<union> set ?ip6" unfolding l by auto
  then have "set l \<inter> {0, 10, 13} = {}" using cn'(2) ip ip6 by auto
  moreover have "length l = length cn + length ?ip + length ?ip6 + 2" unfolding l by simp
  ultimately show ?thesis using cn'(1) ip ip6 by (simp add: csv_line_def)
qed

text \<open>
  C21. Persistence. A server whose pool has an IPv4 range writes its database over whatever the
  file held before and is restarted with the same configuration: reading the file gives every
  client name back to exactly the entry it had, none of them in use, as a reservation that is
  fixed unless the file is refreshed, and leaves the other entries free. The names have at most
  127 bytes, no comma or line break, and do not start with a hash sign or a semicolon (see
  \<open>pool_comma_name_lost\<close>); of the C library it is used that the parser of IPv4 addresses
  understands dotted quads and that IPv6 addresses are printed without a comma.
\<close>

theorem ip_pool_persist_roundtrip:
  assumes "ifconfig_pool_init True t start fin dup v6 base6 netbits = Some p"
    and "pool_run True t start fin v6 base6 pool L" "same_conf p pool"
    and "\<And>e cn. e \<in> set (ip_list pool) \<Longrightarrow> pe_common_name e = Some cn \<Longrightarrow> csv_name cn"
    and "so_open (pp_file per)" "so_can STATUS_OUTPUT_WRITE (pp_file per)" "\<not> so_errors (pp_file per)"
    and "\<And>a. getaddr (print_in_addr_t a 0) = Some a" "ntop_text inet_ntop"
    and "persist = ifconfig_pool_persist_init (Some (so_file (pp_file (ifconfig_pool_write inet_ntop per pool)))) freq"
    and "i < nat (ip_size p)"
  shows "ip_list (snd (ifconfig_pool_read getaddr get_ipv6_addr now persist p)) ! i =
    (case pe_common_name (ip_list pool ! i) of
       None \<Rightarrow> entry_clear
     | Some cn \<Rightarrow> \<lparr>pe_in_use = False, pe_common_name = Some cn, pe_last_release = now, pe_fixed = (freq \<le> 0)\<rparr>)"
proof -
  have l: "ip_list p = replicate (nat (ip_size p)) entry_clear"
    using assms(1) by (auto simp: ifconfig_pool_init_def Let_def aborts split: prod.splits if_splits)
  have e: "ip_v4_enabled p" "ip_size pool = ip_size p"
    using pool_init_facts[OF assms(1)] assms(3) by (auto simp: same_conf_def)
  obtain p0 where "pool_inv p0 pool L" using pool_run_inv[OF assms(2)] by blast
  then have "length (ip_list pool) = nat (ip_size p)" using e(2) by (auto simp: pool_inv_def)
  then have names: "csv_name cn" if "j < nat (ip_size p)" "pe_common_name (ip_list pool ! j) = Some cn" for j cn
    using assms(4)[OF _ that(2)] that(1) by simp
  let ?ls = "List.map_filter (pool_line inet_ntop pool) [0..<nat (ip_size p)]"
  have ls: "\<forall>l \<in> set ?ls. csv_line l"
  proof
    fix l assume "l \<in> set ?ls"
    then obtain j where j: "j < nat (ip_size p)" "pool_line inet_ntop pool j = Some l"
      by (auto simp: List.map_filter_def)
    show "csv_line l" by (rule pool_line_csv[OF assms(9) names[OF j(1)] j(2)])
  qed
  have "so_file (pp_file (ifconfig_pool_write inet_ntop per pool)) = pool_text ?ls"
    using ifconfig_pool_write_text[OF assms(5-7)] ls e(2) by simp
  then have per: "so_rest (pp_file persist) = pool_text ?ls" "so_open (pp_file persist)"
    "so_can STATUS_OUTPUT_READ (pp_file persist)" "pp_fixed persist = (freq \<le> 0)"
    by (simp_all add: assms(10) ifconfig_pool_persist_init_def status_open_def so_rest_def so_can_def
        STATUS_OUTPUT_READ_def STATUS_OUTPUT_WRITE_def)
  have "ip_list (snd (ifconfig_pool_read getaddr get_ipv6_addr now persist p))
      = map (restored now (freq \<le> 0) pool) [0..<nat (ip_size p)]"
    using pool_read_prefix[OF e(1) pool_v4_size[OF assms(1)] l assms(3,8,9) names order_refl] ls
    by (simp add: snd_ifconfig_pool_read pool_read_lines[OF per(1-3) ls] per(4))
  then show ?thesis using assms(11) by (simp add: restored_def)
qed

subsection \<open>A parser of dotted quads\<close>

fun fields :: "bytes \<Rightarrow> bytes list" where
  "fields [] = [[]]"
| "fields (c # cs) = (if c = 46 then [] # fields cs else (case fields cs of f # fs \<Rightarrow> (c # f) # fs | [] \<Rightarrow> []))"

definition undec :: "bytes \<Rightarrow> u8" where
  "undec cs = foldl (\<lambda>v c. 10 * v + (c - 48)) 0 cs"

definition quad_addr :: "bytes \<Rightarrow> u32 option" where
  "quad_addr cs = (case fields cs of [a, b, c, d] \<Rightarrow> Some (ntohl [undec a, undec b, undec c, undec d]) | _ \<Rightarrow> None)"

lemma fields_dot: "46 \<notin> set a \<Longrightarrow> fields (a @ 46 # s) = a # fields s"
  by (induction a) auto

lemma fields_last: "46 \<notin> set a \<Longrightarrow> fields a = [a]"
  by (induction a) auto

lemma undec_dec: "undec (dec n) = word_of_nat n"
proof (induction n rule: dec.induct)
  case (1 n)
  show ?case
  proof (cases "n < 10")
    case True
    then show ?thesis by (subst dec.simps) (simp add: undec_def)
  next
    case False
    have "undec (dec n) = 10 * undec (dec (n div 10)) + word_of_nat (n mod 10)"
      using False by (subst dec.simps) (simp add: undec_def)
    also have "\<dots> = word_of_nat (10 * (n div 10) + n mod 10)" by (simp only: "1.IH"[OF False] of_nat_add of_nat_mult of_nat_numeral)
    finally show ?thesis by (simp only: mult_div_mod_eq)
  qed
qed

lemma quad_addr_print: "quad_addr (print_in_addr_t a 0) = Some a"
proof -
  let ?d = "\<lambda>i. dec (unat (htonl a ! i))"
  have d: "46 \<notin> set (?d i)" for i
  proof -
    have "unat (htonl a ! i) < 256" using unsigned_less[of "htonl a ! i"] by simp
    from dec_digits[OF this] digits_no_separator show ?thesis by blast
  qed
  have "fields (print_in_addr_t a 0) = [?d 0, ?d 1, ?d 2, ?d 3]"
    using d by (simp add: print_in_addr_t_def inet_ntoa_def fields_dot fields_last)
  moreover have "[htonl a ! 0, htonl a ! 1, htonl a ! 2, htonl a ! 3] = htonl a" by (simp add: htonl_def)
  ultimately show ?thesis by (simp add: quad_addr_def undec_dec)
qed

lemma demo_pool_named:
  "\<exists>a b p. ifconfig_pool_acquire 7 demo_pool (Some [97]) = Some (0, a, b, p)
    \<and> same_conf demo_pool p \<and> pe_common_name (ip_list p ! 0) = Some [97]
    \<and> (\<forall>e \<in> set (ip_list p). \<forall>cn. pe_common_name e = Some cn \<longrightarrow> cn = [97])"
  by (simp add: ifconfig_pool_acquire_def ifconfig_pool_find_def demo_pool_def entry_clear_def Let_def
      eval_nat_numeral ifconfig_pool_entry_free_def same_conf_def)

text \<open>A database that was opened for writing, with an old line in it.\<close>

definition demo_persist :: ifconfig_pool_persist where
  "demo_persist = ifconfig_pool_persist_init (Some [98, 44, 44, 10]) 600"

lemma ip_pool_persist_roundtrip_witness:
  "\<exists>pool. ip_list (snd (ifconfig_pool_read quad_addr (\<lambda>_. None) 9
      (ifconfig_pool_persist_init (Some (so_file (pp_file (ifconfig_pool_write (\<lambda>_. [58, 58]) demo_persist pool)))) 0)
      demo_pool)) ! 0
    = \<lparr>pe_in_use = False, pe_common_name = Some [97], pe_last_release = 9, pe_fixed = True\<rparr>"
proof -
  let ?b = "replicate 15 0xfd @ [0] :: bytes"
  have r0: "pool_run True IFCONFIG_POOL_30NET 0x0A080000 0x0A08000F True ?b demo_pool []"
    using pool_run.init[OF demo_pool_init, of _ _ 5 no_persist] by (simp add: pool_read_no_persist)
  obtain a b p where a: "ifconfig_pool_acquire 7 demo_pool (Some [97]) = Some (0, a, b, p)"
    "same_conf demo_pool p" "pe_common_name (ip_list p ! 0) = Some [97]"
    "\<forall>e \<in> set (ip_list p). \<forall>cn. pe_common_name e = Some cn \<longrightarrow> cn = [97]"
    using demo_pool_named by blast
  have r: "pool_run True IFCONFIG_POOL_30NET 0x0A080000 0x0A08000F True ?b p [(0, a, b)]"
    using pool_run.acquire[OF r0 a(1)] by simp
  have n: "e \<in> set (ip_list p) \<Longrightarrow> pe_common_name e = Some cn \<Longrightarrow> csv_name cn" for e cn
    using a(4) by (auto simp: csv_name_def)
  have f: "so_open (pp_file demo_persist)" "so_can STATUS_OUTPUT_WRITE (pp_file demo_persist)" "\<not> so_errors (pp_file demo_persist)"
    by (simp_all add: demo_persist_def ifconfig_pool_persist_init_def status_open_def so_can_def
        STATUS_OUTPUT_READ_def STATUS_OUTPUT_WRITE_def)
  have t: "ntop_text (\<lambda>_. [58, 58])" by (simp add: ntop_text_def)
  have z: "0 < nat (ip_size demo_pool)" by (simp add: demo_pool_def)
  from ip_pool_persist_roundtrip[OF demo_pool_init r a(2) n f quad_addr_print t refl z,
      where freq = 0 and now = 9 and get_ipv6_addr = "\<lambda>_. None"] a(3)
  show ?thesis by (intro exI[of _ p]) simp
qed

end
