(* ===== verification/Mroute.thy ===== *)
theory Mroute
  imports Inet Buffer Hash_Props Key_State
begin

text \<open>
  Addresses and prefixes as keys of the tables of the server (\<open>mroute.h\<close>, \<open>mroute.c\<close>): extraction
  from packets and socket addresses, equality and hashing, masking of the host bits, which
  addresses may be learnt, and the helper that keeps the prefix lengths in use in descending order.

  The union of the C structure is its bytes: an IPv4 address is bytes 0 to 3 and its port 4 to 5, an
  IPv6 address bytes 0 to 15 and its port 16 to 17, both in network order, an Ethernet address
  bytes 0 to 5 with the VLAN identifier in the byte order of a little-endian host in 6 to 7.
  Printing is not modelled.
\<close>

section \<open>Addresses\<close>

definition MROUTE_EXTRACT_SUCCEEDED :: u32 where "MROUTE_EXTRACT_SUCCEEDED = 1"
definition MROUTE_EXTRACT_BCAST :: u32 where "MROUTE_EXTRACT_BCAST = 2"
definition MROUTE_EXTRACT_MCAST :: u32 where "MROUTE_EXTRACT_MCAST = 4"
definition MROUTE_EXTRACT_IGMP :: u32 where "MROUTE_EXTRACT_IGMP = 8"

definition MR_MAX_ADDR_LEN :: nat where "MR_MAX_ADDR_LEN = 20"
definition MR_ADDR_NONE :: u8 where "MR_ADDR_NONE = 0"
definition MR_ADDR_ETHER :: u8 where "MR_ADDR_ETHER = 1"
definition MR_ADDR_IPV4 :: u8 where "MR_ADDR_IPV4 = 2"
definition MR_ADDR_IPV6 :: u8 where "MR_ADDR_IPV6 = 3"
definition MR_ADDR_MASK :: u8 where "MR_ADDR_MASK = 3"
definition MR_WITH_PORT :: u8 where "MR_WITH_PORT = 4"
definition MR_WITH_NETBITS :: u8 where "MR_WITH_NETBITS = 8"
definition OPENVPN_ETH_ALEN :: nat where "OPENVPN_ETH_ALEN = 6"
definition OPENVPN_IPPROTO_IGMP :: u8 where "OPENVPN_IPPROTO_IGMP = 2"

record mroute_addr =
  ma_len :: u8
  ma_type :: u8
  ma_netbits :: u8
  ma_raw :: bytes

definition mroute_addr_init :: mroute_addr where
  "mroute_addr_init = \<lparr>ma_len = 0, ma_type = 0, ma_netbits = 0, ma_raw = replicate MR_MAX_ADDR_LEN 0\<rparr>"

definition mroute_addr_reset :: "mroute_addr \<Rightarrow> mroute_addr" where
  "mroute_addr_reset ma = ma\<lparr>ma_len := 0, ma_type := MR_ADDR_NONE\<rparr>"

abbreviation ma_addr :: "mroute_addr \<Rightarrow> bytes" where
  "ma_addr a \<equiv> take (unat (ma_len a)) (ma_raw a)"

definition mroute_addr_equal :: "mroute_addr \<Rightarrow> mroute_addr \<Rightarrow> bool" where
  "mroute_addr_equal a1 a2 =
     (if ma_type a1 \<noteq> ma_type a2 then False
      else if ma_netbits a1 \<noteq> ma_netbits a2 then False
      else if ma_len a1 \<noteq> ma_len a2 then False
      else take (unat (ma_len a1)) (ma_raw a1) = take (unat (ma_len a1)) (ma_raw a2))"

text \<open>The \<open>len + 2\<close> bytes from \<open>type\<close> on.\<close>

definition mroute_addr_hash_ptr :: "mroute_addr \<Rightarrow> bytes" where
  "mroute_addr_hash_ptr a = [ma_type a, ma_netbits a] @ take (unat (ma_len a)) (ma_raw a)"

definition mroute_addr_hash_function :: "mroute_addr \<Rightarrow> u32 \<Rightarrow> u32" where
  "mroute_addr_hash_function key iv = hash_func (mroute_addr_hash_ptr key) iv"

definition mroute_addr_compare_function :: "mroute_addr \<Rightarrow> mroute_addr \<Rightarrow> bool" where
  "mroute_addr_compare_function key1 key2 = mroute_addr_equal key1 key2"

definition mroute_extract_in_addr_t :: "mroute_addr \<Rightarrow> u32 \<Rightarrow> mroute_addr" where
  "mroute_extract_in_addr_t dest src =
     dest\<lparr>ma_type := MR_ADDR_IPV4, ma_netbits := 0, ma_len := 4, ma_raw := poke (ma_raw dest) 0 (htonl src)\<rparr>"

definition in_addr_t_from_mroute_addr :: "mroute_addr \<Rightarrow> u32" where
  "in_addr_t_from_mroute_addr a =
     (if ma_type a AND MR_ADDR_MASK = MR_ADDR_IPV4 \<and> ma_netbits a = 0 \<and> ma_len a = 4
      then ntohl (take 4 (ma_raw a)) else 0)"

section \<open>Addresses of packets\<close>

definition is_mac_mcast_addr :: "bytes \<Rightarrow> bool" where
  "is_mac_mcast_addr mac \<longleftrightarrow> mac ! 0 AND 1 \<noteq> 0"

definition is_mac_mcast_maddr :: "mroute_addr \<Rightarrow> bool" where
  "is_mac_mcast_maddr a \<longleftrightarrow> ma_type a AND MR_ADDR_MASK = MR_ADDR_ETHER \<and> is_mac_mcast_addr (ma_raw a)"

definition mroute_learnable_address :: "mroute_addr \<Rightarrow> bool" where
  "mroute_learnable_address a =
     (let all_zeros = (\<forall>b \<in> set (ma_addr a). b = 0);
          all_ones = (\<forall>b \<in> set (ma_addr a). b = 0xff) in
      if all_zeros \<and> \<not> (ma_type a AND MR_WITH_NETBITS \<noteq> 0 \<and> ma_netbits a < 8) then False
      else if all_ones then False
      else if is_mac_mcast_maddr a then False
      else True)"

definition mroute_get_in_addr_t :: "mroute_addr \<Rightarrow> bytes \<Rightarrow> u8 \<Rightarrow> mroute_addr" where
  "mroute_get_in_addr_t ma src addr_mask =
     ma\<lparr>ma_type := MR_ADDR_IPV4 OR addr_mask, ma_netbits := 0, ma_len := 4, ma_raw := poke (ma_raw ma) 0 src\<rparr>"

definition mroute_get_in6_addr :: "mroute_addr \<Rightarrow> bytes \<Rightarrow> u8 \<Rightarrow> mroute_addr" where
  "mroute_get_in6_addr ma src addr_mask =
     ma\<lparr>ma_type := MR_ADDR_IPV6 OR addr_mask, ma_netbits := 0, ma_len := 16, ma_raw := poke (ma_raw ma) 0 src\<rparr>"

definition mroute_is_mcast :: "bytes \<Rightarrow> bool" where
  "mroute_is_mcast addr \<longleftrightarrow> ntohl addr AND push_bit 24 240 = push_bit 24 224"

definition mroute_is_mcast_ipv6 :: "bytes \<Rightarrow> bool" where
  "mroute_is_mcast_ipv6 addr \<longleftrightarrow> addr ! 0 = 0xff"

text \<open>The flags and the addresses of the source and the destination, as far as they were written.\<close>

definition mroute_extract_addr_ip ::
  "mroute_addr \<Rightarrow> mroute_addr \<Rightarrow> bytes \<Rightarrow> u32 \<times> mroute_addr \<times> mroute_addr" where
  "mroute_extract_addr_ip src dest buf =
     (if blen buf \<ge> 1 then
        (if OPENVPN_IPH_GET_VER (buf ! 0) = 4 then
           (if blen buf \<ge> sizeof_iphdr then
              let saddr = peek buf 12 4; daddr = peek buf 16 4;
                  ret = (if mroute_is_mcast daddr then MROUTE_EXTRACT_MCAST else 0);
                  ret = (if buf ! 9 = OPENVPN_IPPROTO_IGMP then ret OR MROUTE_EXTRACT_IGMP else ret)
              in (ret OR MROUTE_EXTRACT_SUCCEEDED, mroute_get_in_addr_t src saddr 0, mroute_get_in_addr_t dest daddr 0)
            else (0, src, dest))
         else if OPENVPN_IPH_GET_VER (buf ! 0) = 6 then
           (if blen buf \<ge> sizeof_ipv6hdr then
              let saddr = peek buf 8 16; daddr = peek buf 24 16;
                  ret = (if mroute_is_mcast_ipv6 daddr then MROUTE_EXTRACT_MCAST else 0)
              in (ret OR MROUTE_EXTRACT_SUCCEEDED, mroute_get_in6_addr src saddr 0, mroute_get_in6_addr dest daddr 0)
            else (0, src, dest))
         else (0, src, dest))
      else (0, src, dest))"

definition mroute_copy_ether_to_addr :: "mroute_addr \<Rightarrow> bytes \<Rightarrow> u16 \<Rightarrow> mroute_addr" where
  "mroute_copy_ether_to_addr maddr ether_addr vid =
     maddr\<lparr>ma_type := MR_ADDR_ETHER, ma_netbits := 0, ma_len := of_nat OPENVPN_ETH_ALEN + 2,
           ma_raw := poke (poke (ma_raw maddr) 0 ether_addr) 6 [ucast vid, ucast (drop_bit 8 vid)]\<rparr>"

definition mroute_extract_addr_ether ::
  "mroute_addr \<Rightarrow> mroute_addr \<Rightarrow> u16 \<Rightarrow> bytes \<Rightarrow> u32 \<times> mroute_addr \<times> mroute_addr" where
  "mroute_extract_addr_ether src dest vid buf =
     (if blen buf \<ge> sizeof_ethhdr then
        let eth_dest = peek buf 0 6; eth_source = peek buf 6 6;
            src = mroute_copy_ether_to_addr src eth_source vid;
            dest = mroute_copy_ether_to_addr dest eth_dest vid;
            ret = (if is_mac_mcast_addr eth_dest then MROUTE_EXTRACT_BCAST else 0)
        in (ret OR MROUTE_EXTRACT_SUCCEEDED, src, dest)
      else (0, src, dest))"

definition mroute_extract_addr_from_packet ::
  "mroute_addr \<Rightarrow> mroute_addr \<Rightarrow> u16 \<Rightarrow> bytes \<Rightarrow> dev_type \<Rightarrow> u32 \<times> mroute_addr \<times> mroute_addr" where
  "mroute_extract_addr_from_packet src dest vid buf tunnel_type =
     (case tunnel_type of
        DEV_TYPE_TUN \<Rightarrow> mroute_extract_addr_ip src dest buf
      | DEV_TYPE_TAP \<Rightarrow> mroute_extract_addr_ether src dest vid buf
      | _ \<Rightarrow> (0, src, dest))"

definition mroute_extract_openvpn_sockaddr ::
  "mroute_addr \<Rightarrow> openvpn_sockaddr \<Rightarrow> bool \<Rightarrow> bool \<times> mroute_addr" where
  "mroute_extract_openvpn_sockaddr addr osaddr use_port =
     (case sa_family osaddr of
        AF_INET \<Rightarrow>
          (let raw = poke (ma_raw addr) 0 (htonl (sa_word osaddr)) in
           if use_port
           then (True, addr\<lparr>ma_type := MR_ADDR_IPV4 OR MR_WITH_PORT, ma_netbits := 0, ma_len := 6,
                   ma_raw := poke raw 4 (htons (sa_port osaddr))\<rparr>)
           else (True, addr\<lparr>ma_type := MR_ADDR_IPV4, ma_netbits := 0, ma_len := 4, ma_raw := raw\<rparr>))
      | AF_INET6 \<Rightarrow>
          (let raw = poke (ma_raw addr) 0 (sa_in6 osaddr) in
           if use_port
           then (True, addr\<lparr>ma_type := MR_ADDR_IPV6 OR MR_WITH_PORT, ma_netbits := 0, ma_len := 18,
                   ma_raw := poke raw 16 (htons (sa_port osaddr))\<rparr>)
           else (True, addr\<lparr>ma_type := MR_ADDR_IPV6, ma_netbits := 0, ma_len := 16, ma_raw := raw\<rparr>))
      | AF_UNSPEC \<Rightarrow> (False, addr))"

section \<open>Prefixes\<close>

definition netbits_to_netmask :: "int \<Rightarrow> u32" where
  "netbits_to_netmask netbits =
     (if netbits > 0 \<and> netbits \<le> 32 then push_bit (nat (32 - netbits)) 0xffffffff else 0)"

text \<open>The loop over the bytes of an IPv6 address from the right; the result is the address and what is left to clear.\<close>

function clear_host_bytes :: "bytes \<Rightarrow> int \<Rightarrow> int \<Rightarrow> bytes \<times> int" where
  "clear_host_bytes a byte bits_to_clear =
     (if byte \<ge> 0 \<and> bits_to_clear > 0 then
        if bits_to_clear \<ge> 8 then clear_host_bytes (a[nat byte := 0]) (byte - 1) (bits_to_clear - 8)
        else clear_host_bytes (a[nat byte := a ! nat byte AND ucast (push_bit (nat bits_to_clear) (0xffffffff :: u32))])
               (byte - 1) 0
      else (a, bits_to_clear))"
  by auto
termination by (relation "measure (\<lambda>(a, byte, n). nat (byte + 1))") auto

definition mroute_addr_mask_host_bits :: "mroute_addr \<Rightarrow> mroute_addr option" where
  "mroute_addr_mask_host_bits ma =
     (if ma_type ma AND MR_ADDR_MASK = MR_ADDR_IPV4 then
        let addr = ntohl (take 4 (ma_raw ma)) AND netbits_to_netmask (uint (ma_netbits ma))
        in Some (ma\<lparr>ma_raw := poke (ma_raw ma) 0 (htonl addr)\<rparr>)
      else if ma_type ma AND MR_ADDR_MASK = MR_ADDR_IPV6 then
        case clear_host_bytes (ma_raw ma) 15 (128 - uint (ma_netbits ma)) of
          (raw, bits_to_clear) \<Rightarrow> do {
            ASSERT (bits_to_clear = 0);
            Some (ma\<lparr>ma_raw := raw\<rparr>) }
      else None)"

section \<open>The prefix lengths in use\<close>

definition MR_HELPER_NET_LEN :: nat where "MR_HELPER_NET_LEN = 129"

record mroute_helper =
  cache_generation :: u32
  ageable_ttl_secs :: int
  n_net_len :: int
  mh_net_len :: "u8 list"
  net_len_refcount :: "int list"

definition mroute_helper_init :: "int \<Rightarrow> mroute_helper" where
  "mroute_helper_init ttl =
     \<lparr>cache_generation = 0, ageable_ttl_secs = ttl, n_net_len = 0, mh_net_len = replicate MR_HELPER_NET_LEN 0,
      net_len_refcount = replicate MR_HELPER_NET_LEN 0\<rparr>"

text \<open>The loop from length \<open>i - 1\<close> down, with \<open>j\<close> lengths written.\<close>

fun regenerate_loop :: "int list \<Rightarrow> nat \<Rightarrow> u8 list \<Rightarrow> nat \<Rightarrow> u8 list \<times> nat" where
  "regenerate_loop rc 0 net_len j = (net_len, j)"
| "regenerate_loop rc (Suc i) net_len j =
     (if rc ! i > 0 then regenerate_loop rc i (net_len[j := of_nat i]) (j + 1) else regenerate_loop rc i net_len j)"

definition mroute_helper_regenerate :: "mroute_helper \<Rightarrow> mroute_helper" where
  "mroute_helper_regenerate mh =
     (case regenerate_loop (net_len_refcount mh) MR_HELPER_NET_LEN (mh_net_len mh) 0 of
        (net_len, j) \<Rightarrow> mh\<lparr>mh_net_len := net_len, n_net_len := int j\<rparr>)"

definition mroute_helper_add_iroute46 :: "mroute_helper \<Rightarrow> int \<Rightarrow> mroute_helper option" where
  "mroute_helper_add_iroute46 mh netbits =
     (if netbits \<ge> 0 then do {
        ASSERT (netbits < int MR_HELPER_NET_LEN);
        let n = nat netbits;
        let rc = net_len_refcount mh ! n + 1;
        let mh = mh\<lparr>cache_generation := cache_generation mh + 1, net_len_refcount := (net_len_refcount mh)[n := rc]\<rparr>;
        Some (if rc = 1 then mroute_helper_regenerate mh else mh) }
      else Some mh)"

definition mroute_helper_del_iroute46 :: "mroute_helper \<Rightarrow> int \<Rightarrow> mroute_helper option" where
  "mroute_helper_del_iroute46 mh netbits =
     (if netbits \<ge> 0 then do {
        ASSERT (netbits < int MR_HELPER_NET_LEN);
        let n = nat netbits;
        let rc = net_len_refcount mh ! n - 1;
        let mh = mh\<lparr>cache_generation := cache_generation mh + 1, net_len_refcount := (net_len_refcount mh)[n := rc]\<rparr>;
        ASSERT (rc \<ge> 0);
        Some (if rc = 0 then mroute_helper_regenerate mh else mh) }
      else Some mh)"

end
