(* ===== verification/Hash_Elems.thy ===== *)
theory Hash_Elems
  imports Hash_Props "HOL-Library.Multiset"
begin

text \<open>
  A hash table as the bag of its elements: what the operations that work on an element in place
  do to the bag, and the run of an iterator over a range of buckets. The tables of routes and of
  client instances count references with it.
\<close>

definition hash_bag :: "('k, 'v) hash \<Rightarrow> ('k, 'v) hash_element multiset" where
  "hash_bag h = mset (concat (h_buckets h))"

lemma in_bag: "e \<in># hash_bag h \<longleftrightarrow> (\<exists>b < length (h_buckets h). e \<in> set (h_buckets h ! b))"
  by (auto simp: hash_bag_def in_set_conv_nth) (metis in_set_conv_nth nth_mem)+

lemma bag_n_elements [simp]: "hash_bag (h\<lparr>h_n_elements := n\<rparr>) = hash_bag h"
  by (simp add: hash_bag_def)

lemma mset_concat_update:
  "b < length bs \<Longrightarrow> mset (concat (bs[b := xs])) + mset (bs ! b) = mset (concat bs) + mset xs"
proof (induction bs arbitrary: b)
  case (Cons c bs)
  then show ?case by (cases b) (auto simp: ac_simps)
qed simp

lemma bag_set_bucket:
  "b < length (h_buckets h) \<Longrightarrow> hash_bag (set_bucket h b xs) + mset (h_buckets h ! b) = hash_bag h + mset xs"
  using mset_concat_update[of b "h_buckets h" xs] by (simp add: hash_bag_def)

lemma elem_bucket:
  assumes "hash_ok h" "d < length (h_buckets h)" "e \<in> set (h_buckets h ! d)"
  shows "hash_bucket h (he_hash_value e) = d"
proof -
  have "bucket_ok h d (h_buckets h ! d)" using assms by (simp add: hash_ok_def)
  then show ?thesis using assms(3) by (auto simp: bucket_ok_def)
qed

lemma bag_elem:
  assumes "hash_ok h" "e \<in># hash_bag h"
  shows "he_key e \<noteq> None" "he_hash_value e = hash_value h (key_of e)"
    "e \<in> set (h_buckets h ! hash_bucket h (he_hash_value e))" "hash_bucket h (he_hash_value e) < length (h_buckets h)"
proof -
  obtain b where b: "b < length (h_buckets h)" "e \<in> set (h_buckets h ! b)" using assms(2) unfolding in_bag by blast
  have "bucket_ok h b (h_buckets h ! b)" using assms(1) b(1) by (simp add: hash_ok_def)
  then have k: "he_key e \<noteq> None" "he_hash_value e = hash_value h (key_of e)" "hash_bucket h (he_hash_value e) = b"
    using b(2) by (auto simp: bucket_ok_def)
  show "he_key e \<noteq> None" "he_hash_value e = hash_value h (key_of e)" by (fact k)+
  show "e \<in> set (h_buckets h ! hash_bucket h (he_hash_value e))" "hash_bucket h (he_hash_value e) < length (h_buckets h)"
    using b k(3) by simp_all
qed

lemma hash_map_bag:
  assumes "hash_ok h"
  shows "hash_map h k = Some v \<longleftrightarrow> (\<exists>e. e \<in># hash_bag h \<and> compare_function h k (key_of e) \<and> he_value e = v)"
proof -
  note bk = bucket_of(1)[OF assms] bucket_of(2,3)[OF assms, of "hash_value h k"]
  have "hash_map h k = Some v \<longleftrightarrow> (\<exists>e \<in> set (h_buckets h ! hash_bucket h (hash_value h k)).
      compare_function h k (key_of e) \<and> he_value e = v)"
    unfolding hash_map_def by (rule bucket_assoc[OF bk(1,3)])
  also have "\<dots> \<longleftrightarrow> (\<exists>e. e \<in># hash_bag h \<and> compare_function h k (key_of e) \<and> he_value e = v)"
  proof (intro iffI; elim exE bexE conjE)
    fix e assume "e \<in> set (h_buckets h ! hash_bucket h (hash_value h k))" "compare_function h k (key_of e)" "he_value e = v"
    then show "\<exists>e. e \<in># hash_bag h \<and> compare_function h k (key_of e) \<and> he_value e = v"
      using bk(2) unfolding in_bag by blast
  next
    fix e assume e: "e \<in># hash_bag h" "compare_function h k (key_of e)" "he_value e = v"
    then have "he_hash_value e = hash_value h k" using bag_elem(2)[OF assms e(1)] cmp_hash[OF bk(1) e(2)] by simp
    then show "\<exists>e \<in> set (h_buckets h ! hash_bucket h (hash_value h k)). compare_function h k (key_of e) \<and> he_value e = v"
      using bag_elem(3)[OF assms e(1)] e by auto
  qed
  finally show ?thesis .
qed

lemma hash_map_None_bag:
  assumes "hash_ok h"
  shows "hash_map h k = None \<longleftrightarrow> (\<forall>e. e \<in># hash_bag h \<longrightarrow> \<not> compare_function h k (key_of e))"
  using hash_map_bag[OF assms, of k] by (metis not_Some_eq)

section \<open>Work on an element in place\<close>

lemma hash_lookup_fast_bag:
  fixes key
  assumes "hash_ok h"
  defines "b \<equiv> hash_bucket h (hash_value h key)"
  obtains "hash_lookup_fast h b key (hash_value h key) = Some (h, None)" "hash_map h key = None"
  | h' e xs where "hash_lookup_fast h b key (hash_value h key) = Some (h', Some 0)" "hash_ok h'"
    "compare_function h' = compare_function h" "hash_value h' = hash_value h" "hash_bucket h' = hash_bucket h"
    "hash_bag h' = hash_bag h" "hash_map h' = hash_map h" "h_buckets h' ! b = e # xs" "b < length (h_buckets h')"
    "hash_map h key = Some (he_value e)" "compare_function h key (key_of e)" "e \<in># hash_bag h"
proof (rule hash_lookup_fast_law[OF assms(1), of key, folded b_def])
  fix h' assume "hash_lookup_fast h b key (hash_value h key) = Some (h', None)" "h' = h" "hash_map h key = None"
  then show ?thesis using that(1) by simp
next
  fix h' e xs
  assume a: "hash_lookup_fast h b key (hash_value h key) = Some (h', Some 0)" "hash_ok h'" "h' = set_bucket h b (e # xs)"
    "hash_map h' = hash_map h" "hash_map h key = Some (he_value e)" "compare_function h key (key_of e)"
  have bl: "b < length (h_buckets h)" unfolding b_def by (rule bucket_in_range[OF assms(1)])
  let ?xs = "h_buckets h ! b"
  have "\<exists>i < length ?xs. h' = set_bucket h b (?xs ! i # take i ?xs @ drop (Suc i) ?xs)"
  proof (rule find_in_bucket[OF assms(1), of key, folded b_def])
    assume "find_key (compare_function h) key (hash_value h key) ?xs 0 = Some None"
    then show ?thesis using a(1) by (simp add: hash_lookup_fast_def)
  next
    fix ys d zs assume f: "?xs = ys @ d # zs" "find_key (compare_function h) key (hash_value h key) ?xs 0 = Some (Some (length ys))"
    then show ?thesis using a(1) by (intro exI[of _ "length ys"]) (auto simp: hash_lookup_fast_def Let_def)
  qed
  then obtain i where i: "i < length ?xs" "h' = set_bucket h b (?xs ! i # take i ?xs @ drop (Suc i) ?xs)" by blast
  then have "e # xs = ?xs ! i # take i ?xs @ drop (Suc i) ?xs" using a(3) bl by (metis nth_list_update_eq set_bucket_simps(7))
  moreover have "mset (?xs ! i # take i ?xs @ drop (Suc i) ?xs) = mset ?xs"
    by (subst (4) id_take_nth_drop[OF i(1)]) simp
  ultimately have m: "mset (e # xs) = mset ?xs" by simp
  have bag: "hash_bag h' = hash_bag h" using bag_set_bucket[OF bl, of "e # xs"] unfolding a(3) m by simp
  have "e \<in># hash_bag h" unfolding in_bag using m bl by (metis list.set_intros(1) set_mset_mset)
  then show ?thesis using that(2)[OF a(1,2) _ _ _ bag a(4)] a(3,5,6) bl by simp
qed

text \<open>The element at the head gets a new value and an equal key.\<close>

lemma replace_head_ok:
  assumes "hash_ok h" "b < length (h_buckets h)" "h_buckets h ! b = e # xs"
    and "he_hash_value d = he_hash_value e" "he_key d = Some k" "compare_function h (key_of e) k"
  shows "bucket_ok h b (d # xs)"
proof -
  have bk: "cmp_ok h" "bucket_ok h b (e # xs)" using assms(1,2,3) by (auto simp: hash_ok_def)
  have hv: "hash_value h (key_of e) = hash_value h k" using cmp_hash[OF bk(1) assms(6)] .
  have c: "compare_function h (key_of d) x = compare_function h (key_of e) x" for x
    using cmp_trans[OF bk(1) assms(6), of x] assms(5) bk(1)
    by simp
  have f: "bucket_ok h b xs" "he_hash_value e = hash_value h (key_of e)" "hash_bucket h (he_hash_value e) = b"
    "\<forall>x \<in> set xs. \<not> compare_function h (key_of e) (key_of x)"
    using bk(2) unfolding bucket_Cons[OF bk(1)] by blast+
  have "he_hash_value d = hash_value h (key_of d)" "hash_bucket h (he_hash_value d) = b"
    using f(2,3) assms(4,5) hv by simp_all
  then show ?thesis
    unfolding bucket_Cons[OF bk(1)] c using f(1,4) assms(5) by simp
qed

lemma hash_replace_bag:
  assumes "hash_ok h" "b < length (h_buckets h)" "h_buckets h ! b = e # xs"
    and "he_hash_value d = he_hash_value e" "he_key d = Some k" "compare_function h (key_of e) k"
  shows "hash_ok (set_bucket h b (d # xs))" "hash_bag (set_bucket h b (d # xs)) + {#e#} = hash_bag h + {#d#}"
proof -
  show "hash_ok (set_bucket h b (d # xs))"
    using replace_bucket_same(1)[OF assms(1,2) replace_head_ok[OF assms]] assms(3) by simp
  have "hash_bag (set_bucket h b (d # xs)) + mset (e # xs) = hash_bag h + mset (d # xs)"
    using bag_set_bucket[OF assms(2), of "d # xs"] assms(3) by simp
  then show "hash_bag (set_bucket h b (d # xs)) + {#e#} = hash_bag h + {#d#}" by simp
qed

lemma hash_add_fast_bag:
  fixes key
  assumes "hash_ok h" "hash_map h key = None"
  defines "b \<equiv> hash_bucket h (hash_value h key)"
  shows "hash_ok (hash_add_fast h b key (hash_value h key) v)"
    "hash_bag (hash_add_fast h b key (hash_value h key) v)
      = hash_bag h + {#\<lparr>he_value = v, he_key = Some key, he_hash_value = hash_value h key\<rparr>#}"
proof -
  note bk = bucket_of(1)[OF assms(1)] bucket_of(2,3)[OF assms(1), of "hash_value h key", folded b_def]
  let ?d = "\<lparr>he_value = v, he_key = Some key, he_hash_value = hash_value h key\<rparr>"
  have "\<not> compare_function h key (key_of e)" if "e \<in> set (h_buckets h ! b)" for e
    using assms(2) hash_map_None_bag[OF assms(1)] that bk(2) in_bag by metis
  then have ok: "bucket_ok h b (?d # h_buckets h ! b)" using bk(3) by (simp add: bucket_Cons[OF bk(1)] b_def)
  show "hash_ok (hash_add_fast h b key (hash_value h key) v)"
    unfolding hash_add_fast_def by (rule replace_bucket(1)[OF assms(1) bk(2) ok]) simp
  show "hash_bag (hash_add_fast h b key (hash_value h key) v) = hash_bag h + {#?d#}"
    using bag_set_bucket[OF bk(2), of "?d # h_buckets h ! b"] by (simp add: hash_add_fast_def)
qed

lemma hash_replace_map:
  assumes "hash_ok h" "b < length (h_buckets h)" "h_buckets h ! b = e # xs"
    and "he_hash_value d = he_hash_value e" "he_key d = Some k" "compare_function h (key_of e) k"
  shows "hash_map (set_bucket h b (d # xs)) k' = (if compare_function h k k' then Some (he_value d) else hash_map h k')"
proof -
  have bk: "cmp_ok h" "bucket_ok h b (e # xs)" using assms(1,2,3) by (auto simp: hash_ok_def)
  have sym: "compare_function h x y = compare_function h y x" for x y
    using bk(1) by (auto simp: cmp_ok_def elim: equivpE dest: sympD)
  have c: "compare_function h k' (key_of e) = compare_function h k k'"
    unfolding sym[of k'] using cmp_trans[OF bk(1) assms(6)] .
  have hb: "hash_bucket h (hash_value h k') = b" if "compare_function h k k'"
    using that cmp_hash[OF bk(1)] assms(6) bk(2) unfolding bucket_Cons[OF bk(1)] by metis
  have "length (d # xs) = length (h_buckets h ! b)" using assms(3) by simp
  note m = replace_bucket_same(2)[OF assms(1,2) replace_head_ok[OF assms] this, of k']
  have e: "hash_map h k' = assoc (compare_function h) (e # xs) k'" if "hash_bucket h (hash_value h k') = b"
    using that assms(3) by (simp add: hash_map_def)
  show ?thesis
  proof (cases "hash_bucket h (hash_value h k') = b")
    case True
    then show ?thesis unfolding m e[OF True] using c assms(5) sym[of k' k] by (simp add: assoc_def)
  next
    case False
    then show ?thesis unfolding m using hb by auto
  qed
qed

lemma hash_add_fast_map:
  fixes key
  assumes "hash_ok h" "hash_map h key = None"
  shows "hash_map (hash_add_fast h (hash_bucket h (hash_value h key)) key (hash_value h key) v) k'
    = (if compare_function h key k' then Some v else hash_map h k')"
proof -
  define b where "b = hash_bucket h (hash_value h key)"
  note bk = bucket_of(1)[OF assms(1)] bucket_of(2,3)[OF assms(1), of "hash_value h key", folded b_def]
  let ?d = "\<lparr>he_value = v, he_key = Some key, he_hash_value = hash_value h key\<rparr>"
  have sym: "compare_function h x y = compare_function h y x" for x y
    using bk(1) by (auto simp: cmp_ok_def elim: equivpE dest: sympD)
  have "\<not> compare_function h key (key_of e)" if "e \<in> set (h_buckets h ! b)" for e
    using assms(2) hash_map_None_bag[OF assms(1)] that bk(2) in_bag by metis
  then have ok: "bucket_ok h b (?d # h_buckets h ! b)" using bk(3) by (simp add: bucket_Cons[OF bk(1)] b_def)
  have m: "hash_map (hash_add_fast h b key (hash_value h key) v) k'
      = (if hash_bucket h (hash_value h k') = b then assoc (compare_function h) (?d # h_buckets h ! b) k' else hash_map h k')"
    unfolding hash_add_fast_def by (rule replace_bucket(2)[OF assms(1) bk(2) ok]) simp
  have hb: "hash_bucket h (hash_value h k') = b" if "compare_function h key k'"
    using that cmp_hash[OF bk(1)] b_def by metis
  show ?thesis
    unfolding b_def[symmetric] m using hb sym[of k' key] by (auto simp: assoc_def hash_map_def)
qed

section \<open>Iteration over a range of buckets\<close>

definition bucket_between :: "('k, 'v) hash \<Rightarrow> nat \<Rightarrow> nat \<Rightarrow> ('k, 'v) hash_element \<Rightarrow> bool" where
  "bucket_between h b n e \<longleftrightarrow> b \<le> hash_bucket h (he_hash_value e) \<and> hash_bucket h (he_hash_value e) < n"

lemma delete_all_bag: "hash_bag (delete_all P h) = filter_mset (\<lambda>e. \<not> P e) (hash_bag h)"
  by (simp add: hash_bag_def delete_all_def filter_concat mset_filter[symmetric] del: mset_filter)

lemma elems_bag:
  assumes "hash_ok h" "n \<le> length (h_buckets h)"
  shows "mset (elems h b n) = filter_mset (bucket_between h b n) (hash_bag h)"
proof -
  have f: "filter (bucket_between h b n) (h_buckets h ! d) = (if b \<le> d \<and> d < n then h_buckets h ! d else [])"
    if "d < length (h_buckets h)" for d
  proof -
    have "\<forall>e \<in> set (h_buckets h ! d). hash_bucket h (he_hash_value e) = d"
      using elem_bucket[OF assms(1) that] by blast
    then show ?thesis by (auto simp: bucket_between_def filter_empty_conv intro: filter_True)
  qed
  have "filter (bucket_between h b n) (concat (h_buckets h)) = concat (map (filter (bucket_between h b n)) (h_buckets h))"
    by (simp add: filter_concat)
  also have "map (filter (bucket_between h b n)) (h_buckets h)
      = map (\<lambda>d. if b \<le> d \<and> d < n then h_buckets h ! d else []) [0..<length (h_buckets h)]"
    by (rule nth_equalityI) (simp_all add: f)
  also have "concat \<dots> = elems h b n"
  proof (cases "b \<le> n")
    case True
    then have "[0..<length (h_buckets h)] = [0..<b] @ [b..<n] @ [n..<length (h_buckets h)]"
      using assms(2) by (metis append_assoc le_add_diff_inverse le_add_diff_inverse2 upt_add_eq_append zero_le)
    moreover have "concat (map (\<lambda>d. if b \<le> d \<and> d < n then h_buckets h ! d else []) [0..<b]) = []"
      "concat (map (\<lambda>d. if b \<le> d \<and> d < n then h_buckets h ! d else []) [n..<length (h_buckets h)]) = []" by simp_all
    moreover have "map (\<lambda>d. if b \<le> d \<and> d < n then h_buckets h ! d else []) [b..<n] = map ((!) (h_buckets h)) [b..<n]" by simp
    ultimately show ?thesis by (simp only: map_append concat_append append_Nil append_Nil2)
  next
    case False
    then have "\<not> (b \<le> d \<and> d < n)" for d by simp
    then show ?thesis using False by (simp only:) simp
  qed
  finally show ?thesis unfolding hash_bag_def mset_filter[symmetric] by simp
qed

lemma hash_iterator_run:
  assumes "hash_ok h" "hash_iterator_init_range h start fin = Some hi"
  obtains b n where "b = nat start" "n = nat (min fin (h_n_buckets h))" "n \<le> length (h_buckets h)"
    "iter_run P h hi (elems h b n) (delete_all (\<lambda>e. P e \<and> bucket_between h b n e) h)"
proof -
  let ?b = "nat start" and ?n = "nat (min fin (h_n_buckets h))"
  let ?Q = "\<lambda>e. P e \<and> bucket_between h ?b ?n e"
  have nb: "h_n_buckets h = int (length (h_buckets h))" using assms(1) by (simp add: hash_ok_def)
  have g: "0 \<le> start" "start \<le> min fin (h_n_buckets h)"
    and hi: "hi = \<lparr>hi_bucket_index = start - 1, hi_bucket = None, hi_elem = None, hi_last = None, hi_bucket_marked = False,
          hi_bucket_index_start = start, hi_bucket_index_end = min fin (h_n_buckets h)\<rparr>"
    using assms(2) by (auto simp: hash_iterator_init_range_def Let_def aborts min_def split: if_splits)
  have n: "?n \<le> length (h_buckets h)" "?b \<le> ?n" using g nb by auto
  have m: "mid ?n ?b hi" using g by (simp add: mid_def hi)
  have bk: "hash_bucket h (he_hash_value e) = d" if "e \<in> set (h_buckets h ! d)" "d < length (h_buckets h)" for e d
    using elem_bucket[OF assms(1)] that by blast
  have out: "kept ?Q (h_buckets h ! d) = h_buckets h ! d" "filter ?Q (h_buckets h ! d) = []"
    if "d < length (h_buckets h)" "\<not> (?b \<le> d \<and> d < ?n)" for d
    using that bk[OF _ that(1)] by (auto simp: bucket_between_def filter_empty_conv intro!: filter_True)
  have in_take: "kept ?Q xs = xs \<and> filter ?Q xs = []" if xs: "xs \<in> set (take ?b (h_buckets h))" for xs
  proof -
    obtain d where d: "d < length (take ?b (h_buckets h))" "take ?b (h_buckets h) ! d = xs"
      using xs unfolding in_set_conv_nth by blast
    then have "d < ?b" "d < length (h_buckets h)" "xs = h_buckets h ! d" by simp_all
    then show ?thesis using out[of d] by auto
  qed
  have in_drop: "kept ?Q xs = xs \<and> filter ?Q xs = []" if xs: "xs \<in> set (drop ?n (h_buckets h))" for xs
  proof -
    obtain i where "i < length (drop ?n (h_buckets h))" "drop ?n (h_buckets h) ! i = xs"
      using xs unfolding in_set_conv_nth by blast
    then have "?n + i < length (h_buckets h)" "xs = h_buckets h ! (?n + i)" using n(1) by auto
    then show ?thesis using out[of "?n + i"] by auto
  qed
  have take_b: "map (kept ?Q) (take ?b (h_buckets h)) = take ?b (h_buckets h)"
    "sum_list (map (\<lambda>xs. length (filter ?Q xs)) (take ?b (h_buckets h))) = 0"
    using in_take by (auto intro: map_idI simp: sum_list_eq_0_iff)
  have p0: "partly ?Q h ?b [] = h" unfolding partly_def take_b by simp
  have drop_n: "map (kept ?Q) (drop ?n (h_buckets h)) = drop ?n (h_buckets h)"
    "sum_list (map (\<lambda>xs. length (filter ?Q xs)) (drop ?n (h_buckets h))) = 0"
    using in_drop by (auto intro: map_idI simp: sum_list_eq_0_iff)
  have sp: "map f (h_buckets h) = map f (take ?n (h_buckets h)) @ map f (drop ?n (h_buckets h))" for f :: "_ \<Rightarrow> 'c"
    unfolding map_append[symmetric] append_take_drop_id ..
  have p1: "partly ?Q h ?n [] = delete_all ?Q h"
    unfolding partly_def delete_all_def sp sum_list_append drop_n by simp
  have "iter_run ?Q h hi (elems h ?b ?n) (delete_all ?Q h)"
    using iter_run_range[OF hash_ok_keyed[OF assms(1)] m n(2,1), of ?Q] unfolding p0 p1 .
  moreover have "\<forall>e \<in> set (elems h ?b ?n). ?Q e = P e"
    using arg_cong[OF elems_bag[OF assms(1) n(1), of ?b], of set_mset] by simp
  ultimately have "iter_run P h hi (elems h ?b ?n) (delete_all ?Q h)" by (rule iter_run_cong)
  then show ?thesis using that n by blast
qed

end
