(* ===== verification/Multi_Route.thy ===== *)
theory Multi_Route
  imports Mroute Hash_Elems
begin

text \<open>
  Routing between the clients of a server (\<open>multi.c\<close>, \<open>multi.h\<close>): the table of virtual addresses and
  prefixes with the client instance that owns each, learning, the lookup with its cache of host
  routes, the internal routes of a client, and the passes that delete routes.

  Instances are reference counted objects in an explicit store; \<open>None\<close> in the store is freed
  memory, and reading it is a failure of the model (\<open>None\<close>), as is a failed assertion. A route
  is owned by the table and is the value of its element; the key points into it. The verdict of
  the learn-address script is an argument of the operations that run it. Logging, the
  management interface and kernel offloading are not modelled.
\<close>

section \<open>State\<close>

record iroute =
  ir_network :: u32
  ir_netbits :: int

record iroute_ipv6 =
  ir6_network :: bytes
  ir6_netbits :: u32

record multi_instance =
  mi_halt :: bool
  mi_refcount :: int
  mi_route_count :: int
  mi_did_iroutes :: bool
  mi_tunnel_type :: dev_type
  mi_max_routes_per_client :: int
  mi_iroutes :: "iroute list"
  mi_iroutes_ipv6 :: "iroute_ipv6 list"

definition MULTI_ROUTE_CACHE :: u32 where "MULTI_ROUTE_CACHE = 1"
definition MULTI_ROUTE_AGEABLE :: u32 where "MULTI_ROUTE_AGEABLE = 2"
definition MULTI_CACHE_ROUTE_TTL :: int where "MULTI_CACHE_ROUTE_TTL = 60"

record multi_route =
  mr_addr :: mroute_addr
  mr_instance :: nat
  mr_flags :: u32
  mr_cache_generation :: u32
  mr_last_reference :: int

definition REAP_DIVISOR :: int where "REAP_DIVISOR = 256"
definition REAP_MIN :: int where "REAP_MIN = 16"
definition REAP_MAX :: int where "REAP_MAX = 1024"

record multi_reap =
  bucket_base :: int
  buckets_per_pass :: int
  last_call :: int

record multi_context =
  m_vhash :: "(mroute_addr, multi_route) hash"
  m_route_helper :: mroute_helper
  m_reaper :: multi_reap
  m_local :: mroute_addr
  m_store :: "nat \<Rightarrow> multi_instance option"
  m_stale_routes_ageing_time :: int

section \<open>Quota and reference counts\<close>

definition route_quota_test :: "multi_instance \<Rightarrow> bool" where
  "route_quota_test mi = (if mi_route_count mi \<ge> mi_max_routes_per_client mi then False else True)"

definition route_quota_inc :: "nat \<Rightarrow> 'z multi_context_scheme \<Rightarrow> 'z multi_context_scheme option" where
  "route_quota_inc i m = do {
     mi \<leftarrow> m_store m i;
     Some (m\<lparr>m_store := (m_store m)(i \<mapsto> mi\<lparr>mi_route_count := mi_route_count mi + 1\<rparr>)\<rparr>) }"

definition route_quota_dec :: "nat \<Rightarrow> 'z multi_context_scheme \<Rightarrow> 'z multi_context_scheme option" where
  "route_quota_dec i m = do {
     mi \<leftarrow> m_store m i;
     Some (m\<lparr>m_store := (m_store m)(i \<mapsto> mi\<lparr>mi_route_count := mi_route_count mi - 1\<rparr>)\<rparr>) }"

definition multi_instance_inc_refcount :: "nat \<Rightarrow> 'z multi_context_scheme \<Rightarrow> 'z multi_context_scheme option" where
  "multi_instance_inc_refcount i m = do {
     mi \<leftarrow> m_store m i;
     Some (m\<lparr>m_store := (m_store m)(i \<mapsto> mi\<lparr>mi_refcount := mi_refcount mi + 1\<rparr>)\<rparr>) }"

definition multi_instance_dec_refcount :: "nat \<Rightarrow> 'z multi_context_scheme \<Rightarrow> 'z multi_context_scheme option" where
  "multi_instance_dec_refcount i m = do {
     mi \<leftarrow> m_store m i;
     let mi = mi\<lparr>mi_refcount := mi_refcount mi - 1\<rparr>;
     Some (m\<lparr>m_store := (m_store m)(i := if mi_refcount mi \<le> 0 then None else Some mi)\<rparr>) }"

definition multi_route_del :: "multi_route \<Rightarrow> 'z multi_context_scheme \<Rightarrow> 'z multi_context_scheme option" where
  "multi_route_del route m = do {
     m \<leftarrow> route_quota_dec (mr_instance route) m;
     multi_instance_dec_refcount (mr_instance route) m }"

section \<open>Learning and lookup\<close>

definition multi_route_defined :: "int \<Rightarrow> 'z multi_context_scheme \<Rightarrow> multi_route \<Rightarrow> bool option" where
  "multi_route_defined now m r = do {
     mi \<leftarrow> m_store m (mr_instance r);
     Some (if mi_halt mi then False
           else if mr_flags r AND MULTI_ROUTE_CACHE \<noteq> 0
                   \<and> mr_cache_generation r \<noteq> cache_generation (m_route_helper m) then False
           else if mr_flags r AND MULTI_ROUTE_AGEABLE \<noteq> 0
                   \<and> mr_last_reference r + ageable_ttl_secs (m_route_helper m) < now then False
           else True) }"

text \<open>The element at the head of a bucket gets a new key and value.\<close>

definition set_head :: "nat \<Rightarrow> mroute_addr \<Rightarrow> multi_route \<Rightarrow> (mroute_addr, multi_route) hash \<Rightarrow> (mroute_addr, multi_route) hash" where
  "set_head b k v h = set_bucket h b ((hd (h_buckets h ! b))\<lparr>he_key := Some k, he_value := v\<rparr> # tl (h_buckets h ! b))"

definition new_route :: "int \<Rightarrow> nat \<Rightarrow> mroute_addr \<Rightarrow> u32 \<Rightarrow> 'z multi_context_scheme \<Rightarrow> multi_route" where
  "new_route now i addr flags m = \<lparr>mr_addr = addr, mr_instance = i, mr_flags = flags,
     mr_cache_generation = (if flags AND MULTI_ROUTE_CACHE \<noteq> 0 then cache_generation (m_route_helper m) else 0),
     mr_last_reference = now\<rparr>"

definition multi_learn_addr ::
  "int \<Rightarrow> (string \<Rightarrow> mroute_addr \<Rightarrow> bool) \<Rightarrow> nat \<Rightarrow> mroute_addr \<Rightarrow> u32 \<Rightarrow> 'z multi_context_scheme
     \<Rightarrow> ('z multi_context_scheme \<times> nat option) option" where
  "multi_learn_addr now script i addr flags m = do {
     let hv = hash_value (m_vhash m) addr;
     let b = hash_bucket (m_vhash m) hv;
     (h, he) \<leftarrow> hash_lookup_fast (m_vhash m) b addr hv;
     let m = m\<lparr>m_vhash := h\<rparr>;
     let oldroute = map_option (\<lambda>j. he_value (h_buckets h ! b ! j)) he;
     owner \<leftarrow> (case oldroute of
                 None \<Rightarrow> Some None
               | Some r \<Rightarrow> do { d \<leftarrow> multi_route_defined now m r; Some (if d then Some (mr_instance r) else None) });
     (if owner \<noteq> Some i \<and> mroute_learnable_address addr \<and> \<not> mroute_addr_equal addr (m_local m) then do {
        let newroute = new_route now i addr flags m;
        mi \<leftarrow> m_store m i;
        (case oldroute of
           Some r \<Rightarrow>
             if route_quota_test mi \<and> script ''update'' addr then do {
               m \<leftarrow> multi_instance_inc_refcount i m;
               m \<leftarrow> route_quota_inc i m;
               m \<leftarrow> multi_route_del r m;
               Some (m\<lparr>m_vhash := set_head b addr newroute (m_vhash m)\<rparr>, Some i) }
             else Some (m, owner)
         | None \<Rightarrow>
             if route_quota_test mi \<and> script ''add'' addr then do {
               m \<leftarrow> multi_instance_inc_refcount i m;
               m \<leftarrow> route_quota_inc i m;
               Some (m\<lparr>m_vhash := hash_add_fast (m_vhash m) b addr hv newroute\<rparr>, Some i) }
             else Some (m, owner)) }
      else Some (m, owner)) }"

text \<open>
  The loop of the lookup over the prefix lengths: the owner of the first prefix with a route, which
  is learnt for the address itself.
\<close>

fun cidr_loop ::
  "int \<Rightarrow> (string \<Rightarrow> mroute_addr \<Rightarrow> bool) \<Rightarrow> mroute_addr \<Rightarrow> u8 list \<Rightarrow> 'z multi_context_scheme
     \<Rightarrow> ('z multi_context_scheme \<times> nat option) option" where
  "cidr_loop now script addr [] m = Some (m, None)"
| "cidr_loop now script addr (n # ns) m = do {
     tryaddr \<leftarrow> mroute_addr_mask_host_bits (addr\<lparr>ma_type := ma_type addr OR MR_WITH_NETBITS, ma_netbits := n\<rparr>);
     (h, route) \<leftarrow> hash_lookup (m_vhash m) tryaddr;
     let m = m\<lparr>m_vhash := h\<rparr>;
     d \<leftarrow> (case route of None \<Rightarrow> Some False | Some r \<Rightarrow> multi_route_defined now m r);
     (if d then do {
        let i = mr_instance (the route);
        (m, _) \<leftarrow> multi_learn_addr now script i addr (MULTI_ROUTE_CACHE OR MULTI_ROUTE_AGEABLE) m;
        Some (m, Some i) }
      else cidr_loop now script addr ns m) }"

definition multi_get_instance_by_virtual_addr ::
  "int \<Rightarrow> (string \<Rightarrow> mroute_addr \<Rightarrow> bool) \<Rightarrow> mroute_addr \<Rightarrow> bool \<Rightarrow> 'z multi_context_scheme
     \<Rightarrow> ('z multi_context_scheme \<times> nat option) option" where
  "multi_get_instance_by_virtual_addr now script addr cidr_routing m =
     (if mroute_addr_equal addr (m_local m) then Some (m, None)
      else do {
        let b = hash_bucket (m_vhash m) (hash_value (m_vhash m) addr);
        (h, route) \<leftarrow> hash_lookup (m_vhash m) addr;
        let m = m\<lparr>m_vhash := h\<rparr>;
        d \<leftarrow> (case route of None \<Rightarrow> Some False | Some r \<Rightarrow> multi_route_defined now m r);
        (m, ret) \<leftarrow>
          (if d then
             let r = the route in
             Some (m\<lparr>m_vhash := set_head b (mr_addr r) (r\<lparr>mr_last_reference := now\<rparr>) (m_vhash m)\<rparr>, Some (mr_instance r))
           else if cidr_routing
           then cidr_loop now script addr (take (nat (n_net_len (m_route_helper m))) (mh_net_len (m_route_helper m))) m
           else Some (m, None));
        (case ret of
           None \<Rightarrow> Some (m, ret)
         | Some i \<Rightarrow> do {
             mi \<leftarrow> m_store m i;
             ASSERT (\<not> mi_halt mi);
             Some (m, ret) }) })"

section \<open>The routes of a client\<close>

definition multi_learn_in_addr_t ::
  "int \<Rightarrow> (string \<Rightarrow> mroute_addr \<Rightarrow> bool) \<Rightarrow> nat \<Rightarrow> u32 \<Rightarrow> int \<Rightarrow> bool \<Rightarrow> 'z multi_context_scheme
     \<Rightarrow> ('z multi_context_scheme \<times> nat option) option" where
  "multi_learn_in_addr_t now script i a netbits primary m = do {
     let remote_si = \<lparr>sa_family = AF_INET, sa_port = 0, sa_word = a, sa_in6 = replicate 16 0\<rparr>;
     let (ok, addr) = mroute_extract_openvpn_sockaddr mroute_addr_init remote_si False;
     ASSERT ok;
     let addr = (if netbits \<ge> 0
                 then addr\<lparr>ma_type := ma_type addr OR MR_WITH_NETBITS, ma_netbits := word_of_int netbits\<rparr> else addr);
     (m, owner) \<leftarrow> multi_learn_addr now script i addr 0 m;
     ASSERT (primary \<or> netbits \<ge> 0);
     Some (m, owner) }"

definition multi_learn_in6_addr ::
  "int \<Rightarrow> (string \<Rightarrow> mroute_addr \<Rightarrow> bool) \<Rightarrow> nat \<Rightarrow> bytes \<Rightarrow> int \<Rightarrow> bool \<Rightarrow> 'z multi_context_scheme
     \<Rightarrow> ('z multi_context_scheme \<times> nat option) option" where
  "multi_learn_in6_addr now script i a6 netbits primary m = do {
     let addr = \<lparr>ma_len = 16, ma_type = MR_ADDR_IPV6, ma_netbits = 0, ma_raw = a6 @ replicate 4 0\<rparr>;
     addr \<leftarrow> (if netbits \<ge> 0
              then mroute_addr_mask_host_bits
                     (addr\<lparr>ma_type := ma_type addr OR MR_WITH_NETBITS, ma_netbits := word_of_int netbits\<rparr>)
              else Some addr);
     (m, owner) \<leftarrow> multi_learn_addr now script i addr 0 m;
     ASSERT (primary \<or> netbits \<ge> 0);
     Some (m, owner) }"

fun add_iroutes4 ::
  "int \<Rightarrow> (string \<Rightarrow> mroute_addr \<Rightarrow> bool) \<Rightarrow> nat \<Rightarrow> iroute list \<Rightarrow> 'z multi_context_scheme \<Rightarrow> 'z multi_context_scheme option" where
  "add_iroutes4 now script i [] m = Some m"
| "add_iroutes4 now script i (ir # irs) m = do {
     rh \<leftarrow> mroute_helper_add_iroute46 (m_route_helper m) (ir_netbits ir);
     (m, _) \<leftarrow> multi_learn_in_addr_t now script i (ir_network ir) (ir_netbits ir) False (m\<lparr>m_route_helper := rh\<rparr>);
     add_iroutes4 now script i irs m }"

fun add_iroutes6 ::
  "int \<Rightarrow> (string \<Rightarrow> mroute_addr \<Rightarrow> bool) \<Rightarrow> nat \<Rightarrow> iroute_ipv6 list \<Rightarrow> 'z multi_context_scheme \<Rightarrow> 'z multi_context_scheme option" where
  "add_iroutes6 now script i [] m = Some m"
| "add_iroutes6 now script i (ir # irs) m = do {
     rh \<leftarrow> mroute_helper_add_iroute46 (m_route_helper m) (sint (ir6_netbits ir));
     (m, _) \<leftarrow> multi_learn_in6_addr now script i (ir6_network ir) (sint (ir6_netbits ir)) False (m\<lparr>m_route_helper := rh\<rparr>);
     add_iroutes6 now script i irs m }"

definition multi_add_iroutes ::
  "int \<Rightarrow> (string \<Rightarrow> mroute_addr \<Rightarrow> bool) \<Rightarrow> nat \<Rightarrow> 'z multi_context_scheme \<Rightarrow> 'z multi_context_scheme option" where
  "multi_add_iroutes now script i m = do {
     mi \<leftarrow> m_store m i;
     (if mi_tunnel_type mi = DEV_TYPE_TUN then do {
        let m = m\<lparr>m_store := (m_store m)(i \<mapsto> mi\<lparr>mi_did_iroutes := True\<rparr>)\<rparr>;
        m \<leftarrow> add_iroutes4 now script i (mi_iroutes mi) m;
        add_iroutes6 now script i (mi_iroutes_ipv6 mi) m }
      else Some m) }"

fun del_netbits :: "int list \<Rightarrow> mroute_helper \<Rightarrow> mroute_helper option" where
  "del_netbits [] rh = Some rh"
| "del_netbits (n # ns) rh = do { rh \<leftarrow> mroute_helper_del_iroute46 rh n; del_netbits ns rh }"

definition multi_del_iroutes :: "nat \<Rightarrow> 'z multi_context_scheme \<Rightarrow> 'z multi_context_scheme option" where
  "multi_del_iroutes i m = do {
     mi \<leftarrow> m_store m i;
     (if mi_tunnel_type mi = DEV_TYPE_TUN then do {
        rh \<leftarrow> del_netbits (map ir_netbits (mi_iroutes mi)) (m_route_helper m);
        rh \<leftarrow> del_netbits (map (\<lambda>ir. sint (ir6_netbits ir)) (mi_iroutes_ipv6 mi)) rh;
        Some (m\<lparr>m_route_helper := rh\<rparr>) }
      else Some m) }"

text \<open>
  What closing an instance does to the routes (\<open>multi_close_instance\<close>): the instance is asserted to
  be open and halted, its internal routes are taken back unless the server shuts down, and at the end the
  server gives up its reference. The routes stay in the table until they are reaped.
\<close>

definition close_routes :: "bool \<Rightarrow> nat \<Rightarrow> 'z multi_context_scheme \<Rightarrow> 'z multi_context_scheme option" where
  "close_routes shutdown i m = do {
     mi \<leftarrow> m_store m i;
     ASSERT (\<not> mi_halt mi);
     let m = m\<lparr>m_store := (m_store m)(i \<mapsto> mi\<lparr>mi_halt := True\<rparr>)\<rparr>;
     m \<leftarrow> (if \<not> shutdown \<and> mi_did_iroutes mi then do {
             m \<leftarrow> multi_del_iroutes i m;
             mi \<leftarrow> m_store m i;
             Some (m\<lparr>m_store := (m_store m)(i \<mapsto> mi\<lparr>mi_did_iroutes := False\<rparr>)\<rparr>) }
           else Some m);
     multi_instance_dec_refcount i m }"

section \<open>Deleting routes\<close>

text \<open>
  The loop of the passes over the table: the routes that satisfy \<open>P\<close> are deleted. The learn-address
  script is told, but its verdict does not matter.
\<close>

partial_function (option) route_delete_loop ::
  "('z multi_context_scheme \<Rightarrow> multi_route \<Rightarrow> bool option) \<Rightarrow> 'z multi_context_scheme \<Rightarrow> hash_iterator
     \<Rightarrow> 'z multi_context_scheme option" where
  "route_delete_loop P m hi =
     (case hash_iterator_next (m_vhash m) hi of
        (h, hi, None) \<Rightarrow> Some (m\<lparr>m_vhash := fst (hash_iterator_free h hi)\<rparr>)
      | (h, hi, Some (b, j)) \<Rightarrow> do {
          let r = he_value (h_buckets h ! b ! j);
          let m = m\<lparr>m_vhash := h\<rparr>;
          d \<leftarrow> P m r;
          (if d then do {
             m \<leftarrow> multi_route_del r m;
             (h, hi) \<leftarrow> hash_iterator_delete_element (m_vhash m) hi;
             route_delete_loop P (m\<lparr>m_vhash := h\<rparr>) hi }
           else route_delete_loop P m hi) })"

definition multi_reap_range :: "int \<Rightarrow> int \<Rightarrow> int \<Rightarrow> 'z multi_context_scheme \<Rightarrow> 'z multi_context_scheme option" where
  "multi_reap_range now start_bucket end_bucket m =
     (let (start, fin) = (if start_bucket < 0 then (0, hash_n_buckets (m_vhash m)) else (start_bucket, end_bucket)) in do {
        hi \<leftarrow> hash_iterator_init_range (m_vhash m) start fin;
        route_delete_loop (\<lambda>m r. map_option Not (multi_route_defined now m r)) m hi })"

definition multi_reap_all :: "int \<Rightarrow> 'z multi_context_scheme \<Rightarrow> 'z multi_context_scheme option" where
  "multi_reap_all now m = multi_reap_range now (- 1) 0 m"

definition multi_reap_new :: "int \<Rightarrow> int \<Rightarrow> multi_reap" where
  "multi_reap_new now per_pass = \<lparr>bucket_base = 0, buckets_per_pass = per_pass, last_call = now\<rparr>"

definition reap_buckets_per_pass :: "int \<Rightarrow> int" where
  "reap_buckets_per_pass n_buckets = constrain_int (n_buckets div REAP_DIVISOR) REAP_MIN REAP_MAX"

definition multi_reap_process_dowork :: "int \<Rightarrow> 'z multi_context_scheme \<Rightarrow> 'z multi_context_scheme option" where
  "multi_reap_process_dowork now m =
     (let mr = m_reaper m;
          mr = (if bucket_base mr \<ge> hash_n_buckets (m_vhash m) then mr\<lparr>bucket_base := 0\<rparr> else mr) in do {
        m \<leftarrow> multi_reap_range now (bucket_base mr) (bucket_base mr + buckets_per_pass mr) m;
        Some (m\<lparr>m_reaper := mr\<lparr>bucket_base := bucket_base mr + buckets_per_pass mr, last_call := now\<rparr>\<rparr>) })"

definition multi_reap_process :: "int \<Rightarrow> 'z multi_context_scheme \<Rightarrow> 'z multi_context_scheme option" where
  "multi_reap_process now m = (if last_call (m_reaper m) \<noteq> now then multi_reap_process_dowork now m else Some m)"

definition check_stale_routes :: "int \<Rightarrow> 'z multi_context_scheme \<Rightarrow> 'z multi_context_scheme option" where
  "check_stale_routes now m = do {
     hi \<leftarrow> hash_iterator_init_range (m_vhash m) 0 (hash_n_buckets (m_vhash m));
     route_delete_loop (\<lambda>m r. do {
         d \<leftarrow> multi_route_defined now m r;
         Some (d \<and> now - mr_last_reference r \<ge> m_stale_routes_ageing_time m) }) m hi }"

section \<open>Set-up\<close>

text \<open>The part of the set-up of the server and of a new instance that concerns routing.\<close>

definition multi_init_routes :: "int \<Rightarrow> int \<Rightarrow> u32 \<Rightarrow> int \<Rightarrow> u32 \<Rightarrow> multi_context option" where
  "multi_init_routes now virtual_hash_size iv ageing_time local_addr = do {
     vhash \<leftarrow> hash_init virtual_hash_size iv mroute_addr_hash_function mroute_addr_compare_function;
     Some \<lparr>m_vhash = vhash, m_route_helper = mroute_helper_init MULTI_CACHE_ROUTE_TTL,
       m_reaper = multi_reap_new now (reap_buckets_per_pass virtual_hash_size),
       m_local = mroute_extract_in_addr_t mroute_addr_init local_addr,
       m_store = Map.empty, m_stale_routes_ageing_time = ageing_time\<rparr> }"

definition new_instance :: "dev_type \<Rightarrow> int \<Rightarrow> iroute list \<Rightarrow> iroute_ipv6 list \<Rightarrow> multi_instance" where
  "new_instance tunnel_type max_routes irs irs6 = \<lparr>mi_halt = False, mi_refcount = 1, mi_route_count = 0, mi_did_iroutes = False,
     mi_tunnel_type = tunnel_type, mi_max_routes_per_client = max_routes, mi_iroutes = irs, mi_iroutes_ipv6 = irs6\<rparr>"

end
