(* ===== verification/Multi_Route_Mem.thy ===== *)
theory Multi_Route_Mem
  imports Multi_Route
begin

text \<open>
  The ownership discipline of the routing table: the reference count of a client instance is one
  for the server, while it is open, plus one for each route in the table, and its route count is
  the number of those routes. Every operation keeps this and none touches freed memory.
\<close>

section \<open>The table of routes\<close>

abbreviation addr_eq :: "mroute_addr \<Rightarrow> mroute_addr \<Rightarrow> bool" where
  "addr_eq \<equiv> mroute_addr_compare_function"

lemma addr_eq_iff: "addr_eq a b \<longleftrightarrow> ma_type a = ma_type b \<and> ma_netbits a = ma_netbits b \<and> ma_len a = ma_len b
    \<and> ma_addr a = ma_addr b"
  by (auto simp: mroute_addr_compare_function_def mroute_addr_equal_def)

lemma addr_eq_hash: "addr_eq a b \<Longrightarrow> mroute_addr_hash_function a iv = mroute_addr_hash_function b iv"
  unfolding addr_eq_iff mroute_addr_hash_function_def mroute_addr_hash_ptr_def by (elim conjE) simp

lemma addr_eq_equiv: "equivp addr_eq"
  by (rule equivpI) (auto simp: reflp_def symp_def transp_def addr_eq_iff)

lemma addr_eq_refl [simp]: "addr_eq a a"
  by (simp add: addr_eq_iff)

lemma addr_eq_sym: "addr_eq a b = addr_eq b a"
  by (auto simp: addr_eq_iff)

definition vhash_ok :: "(mroute_addr, multi_route) hash \<Rightarrow> bool" where
  "vhash_ok h \<longleftrightarrow> hash_ok h \<and> compare_function h = mroute_addr_compare_function
     \<and> (\<forall>e. e \<in># hash_bag h \<longrightarrow> he_key e = Some (mr_addr (he_value e)))"

text \<open>The number of routes of an instance.\<close>

definition routes_on :: "(mroute_addr, multi_route) hash_element multiset \<Rightarrow> nat \<Rightarrow> nat" where
  "routes_on b i = size (filter_mset (\<lambda>e. mr_instance (he_value e) = i) b)"

lemma routes_on_simps [simp]:
  "routes_on {#} i = 0"
  "routes_on (add_mset e b) i = (if mr_instance (he_value e) = i then 1 else 0) + routes_on b i"
  "routes_on (b + c) i = routes_on b i + routes_on c i"
  by (simp_all add: routes_on_def)

lemma routes_on_pos: "e \<in># b \<Longrightarrow> 0 < routes_on b (mr_instance (he_value e))"
  by (auto simp: routes_on_def nonempty_has_size[symmetric] filter_mset_eq_conv multiset_eq_iff)

section \<open>Counts\<close>

text \<open>\<open>c i\<close> is the number of routes that have been counted for the instance \<open>i\<close>.\<close>

definition ref_ok :: "multi_instance option \<Rightarrow> nat \<Rightarrow> bool" where
  "ref_ok x n \<longleftrightarrow> (case x of
       None \<Rightarrow> n = 0
     | Some mi \<Rightarrow> mi_refcount mi = (if mi_halt mi then 0 else 1) + int n \<and> mi_refcount mi > 0 \<and> mi_route_count mi = int n)"

lemma ref_ok_simps [simp]:
  "ref_ok None n \<longleftrightarrow> n = 0"
  "ref_ok (Some mi) n \<longleftrightarrow> mi_refcount mi = (if mi_halt mi then 0 else 1) + int n \<and> mi_refcount mi > 0 \<and> mi_route_count mi = int n"
  by (simp_all add: ref_ok_def)

definition refs :: "'z multi_context_scheme \<Rightarrow> (nat \<Rightarrow> nat) \<Rightarrow> bool" where
  "refs m c \<longleftrightarrow> (\<forall>i. ref_ok (m_store m i) (c i))"

definition same_inst :: "multi_instance \<Rightarrow> multi_instance \<Rightarrow> bool" where
  "same_inst mi mi' \<longleftrightarrow> mi' = mi\<lparr>mi_refcount := mi_refcount mi', mi_route_count := mi_route_count mi'\<rparr>"

lemma same_inst_simps:
  assumes "same_inst mi mi'"
  shows "mi_halt mi' = mi_halt mi" "mi_tunnel_type mi' = mi_tunnel_type mi" "mi_iroutes mi' = mi_iroutes mi"
    "mi_iroutes_ipv6 mi' = mi_iroutes_ipv6 mi" "mi_did_iroutes mi' = mi_did_iroutes mi"
    "mi_max_routes_per_client mi' = mi_max_routes_per_client mi"
  using assms by (cases mi; cases mi'; simp add: same_inst_def)+

lemma same_inst_refl [simp]: "same_inst mi mi"
  by (simp add: same_inst_def)

lemma same_inst_upd [simp]: "same_inst mi (mi\<lparr>mi_route_count := x\<rparr>)" "same_inst mi (mi\<lparr>mi_refcount := x\<rparr>)"
  by (simp_all add: same_inst_def)

lemma same_inst_trans: "same_inst a b \<Longrightarrow> same_inst b c \<Longrightarrow> same_inst a c"
  by (cases a; cases b; cases c) (simp add: same_inst_def)

text \<open>Only the table and the counts change, and open instances stay.\<close>

definition frame :: "'z multi_context_scheme \<Rightarrow> 'z multi_context_scheme \<Rightarrow> bool" where
  "frame m m' \<longleftrightarrow> m_route_helper m' = m_route_helper m \<and> m_local m' = m_local m \<and> m_reaper m' = m_reaper m
     \<and> m_stale_routes_ageing_time m' = m_stale_routes_ageing_time m \<and> multi_context.more m' = multi_context.more m
     \<and> (\<forall>i mi'. m_store m' i = Some mi' \<longrightarrow> (\<exists>mi. m_store m i = Some mi \<and> same_inst mi mi'))
     \<and> (\<forall>i mi. m_store m i = Some mi \<and> \<not> mi_halt mi \<longrightarrow> m_store m' i \<noteq> None)"

lemma frame_fields:
  assumes "frame m m'"
  shows "m_route_helper m' = m_route_helper m" "m_local m' = m_local m" "m_reaper m' = m_reaper m"
    "m_stale_routes_ageing_time m' = m_stale_routes_ageing_time m" "multi_context.more m' = multi_context.more m"
  using assms by (simp_all add: frame_def)

lemma frame_refl [simp]: "frame m m"
  by (auto simp: frame_def)

lemma frame_vhash [simp]: "frame m (m'\<lparr>m_vhash := h\<rparr>) = frame m m'"
  by (simp add: frame_def)

lemma frame_trans:
  assumes "frame a b" "frame b c"
  shows "frame a c"
proof -
  have "\<exists>mi. m_store a i = Some mi \<and> same_inst mi mi'" if "m_store c i = Some mi'" for i mi'
    using assms that same_inst_trans unfolding frame_def by metis
  moreover have "m_store c i \<noteq> None" if a: "m_store a i = Some mi" "\<not> mi_halt mi" for i mi
  proof -
    obtain mb where mb: "m_store b i = Some mb" using assms(1) a unfolding frame_def by blast
    then obtain ma where "m_store a i = Some ma" "same_inst ma mb" using assms(1) unfolding frame_def by blast
    then have "\<not> mi_halt mb" using a same_inst_simps(1) by auto
    then show ?thesis using assms(2) mb unfolding frame_def by blast
  qed
  ultimately show ?thesis using frame_fields[OF assms(1)] frame_fields[OF assms(2)] unfolding frame_def by simp
qed

lemma frame_inst: "frame m m' \<Longrightarrow> m_store m' i = Some mi' \<Longrightarrow> \<exists>mi. m_store m i = Some mi \<and> same_inst mi mi'"
  by (simp add: frame_def)

lemma frame_open:
  assumes "frame m m'" "m_store m i = Some mi" "\<not> mi_halt mi"
  obtains mi' where "m_store m' i = Some mi'" "same_inst mi mi'" "\<not> mi_halt mi'"
proof -
  obtain mi' where mi': "m_store m' i = Some mi'" using assms unfolding frame_def by blast
  then have "same_inst mi mi'" using frame_inst[OF assms(1) mi'] assms(2) by auto
  then show ?thesis using that[OF mi'] same_inst_simps(1)[of mi mi'] assms(3) by simp
qed

lemma refs_some: "refs m c \<Longrightarrow> 0 < c i \<Longrightarrow> \<exists>mi. m_store m i = Some mi"
  unfolding refs_def by (metis ref_ok_simps(1) less_irrefl not_Some_eq)

lemma store_frame:
  assumes "m_store m i = Some mi" "same_inst mi mi'"
  shows "frame m (m\<lparr>m_store := (m_store m)(i \<mapsto> mi')\<rparr>)"
  using assms by (cases m) (auto simp: frame_def)

lemma inc_refs:
  assumes "refs m c" "m_store m i = Some mi"
  shows "\<exists>m1 m2. multi_instance_inc_refcount i m = Some m1 \<and> route_quota_inc i m1 = Some m2
    \<and> m_vhash m2 = m_vhash m \<and> refs m2 (c(i := c i + 1)) \<and> frame m m2
    \<and> m_store m2 = (m_store m)(i \<mapsto> mi\<lparr>mi_refcount := mi_refcount mi + 1, mi_route_count := mi_route_count mi + 1\<rparr>)"
proof -
  let ?mi = "mi\<lparr>mi_refcount := mi_refcount mi + 1, mi_route_count := mi_route_count mi + 1\<rparr>"
  let ?m = "m\<lparr>m_store := (m_store m)(i \<mapsto> ?mi)\<rparr>"
  have "same_inst mi ?mi" by (simp add: same_inst_def)
  then have "frame m ?m" by (rule store_frame[OF assms(2)])
  moreover have "refs ?m (c(i := c i + 1))"
    unfolding refs_def
  proof
    fix j
    have "ref_ok (m_store m j) (c j)" using assms(1) by (simp add: refs_def)
    then show "ref_ok (m_store ?m j) ((c(i := c i + 1)) j)" using assms(2) by (cases "j = i") auto
  qed
  ultimately show ?thesis
    using assms(2) by (simp add: multi_instance_inc_refcount_def route_quota_inc_def)
qed

lemma del_refs:
  assumes "refs m c" "0 < c (mr_instance r)"
  shows "\<exists>m'. multi_route_del r m = Some m' \<and> m_vhash m' = m_vhash m
    \<and> refs m' (c(mr_instance r := c (mr_instance r) - 1)) \<and> frame m m'
    \<and> (\<forall>j mj. m_store m' j = Some mj \<longrightarrow> (\<exists>mi. m_store m j = Some mi \<and> mi_route_count mj \<le> mi_route_count mi))"
proof -
  let ?i = "mr_instance r"
  obtain mi where mi: "m_store m ?i = Some mi" using refs_some[OF assms] by blast
  have f: "mi_refcount mi = (if mi_halt mi then 0 else 1) + int (c ?i)" "mi_route_count mi = int (c ?i)"
    using assms(1) mi unfolding refs_def by (metis ref_ok_simps(2))+
  let ?mi = "mi\<lparr>mi_route_count := mi_route_count mi - 1, mi_refcount := mi_refcount mi - 1\<rparr>"
  let ?st = "(m_store m)(?i := if mi_refcount mi - 1 \<le> 0 then None else Some ?mi)"
  have e: "multi_route_del r m = Some (m\<lparr>m_store := ?st\<rparr>)"
    using mi by (simp add: multi_route_del_def route_quota_dec_def multi_instance_dec_refcount_def)
  have r: "refs (m\<lparr>m_store := ?st\<rparr>) (c(?i := c ?i - 1))"
    unfolding refs_def
  proof
    fix j
    have "ref_ok (m_store m j) (c j)" using assms(1) by (simp add: refs_def)
    then show "ref_ok (m_store (m\<lparr>m_store := ?st\<rparr>) j) ((c(?i := c ?i - 1)) j)"
      using assms(2) f mi by (cases "j = ?i") (auto simp: of_nat_diff)
  qed
  have "same_inst mi ?mi" by (simp add: same_inst_def)
  then have fr: "frame m (m\<lparr>m_store := ?st\<rparr>)"
    using mi f assms(2) by (cases m) (auto simp: frame_def split: if_splits)
  show ?thesis unfolding e using r fr mi by (auto split: if_splits)
qed

section \<open>Learning\<close>

definition mem_inv :: "'z multi_context_scheme \<Rightarrow> bool" where
  "mem_inv m \<longleftrightarrow> vhash_ok (m_vhash m) \<and> refs m (routes_on (hash_bag (m_vhash m)))
     \<and> (\<forall>i mi. m_store m i = Some mi \<longrightarrow> mi_route_count mi \<le> max 0 (mi_max_routes_per_client mi))"

lemma mem_invD:
  assumes "mem_inv m"
  shows "vhash_ok (m_vhash m)" "hash_ok (m_vhash m)" "compare_function (m_vhash m) = addr_eq"
    "refs m (routes_on (hash_bag (m_vhash m)))" "\<And>e. e \<in># hash_bag (m_vhash m) \<Longrightarrow> he_key e = Some (mr_addr (he_value e))"
    "\<And>i mi. m_store m i = Some mi \<Longrightarrow> mi_route_count mi \<le> max 0 (mi_max_routes_per_client mi)"
  using assms by (auto simp: mem_inv_def vhash_ok_def)

lemma bag_store:
  assumes "mem_inv m" "e \<in># hash_bag (m_vhash m)"
  shows "\<exists>mi. m_store m (mr_instance (he_value e)) = Some mi"
  using refs_some[OF mem_invD(4)[OF assms(1)] routes_on_pos[OF assms(2)]] .

lemma map_store:
  assumes "mem_inv m" "hash_map (m_vhash m) k = Some r"
  shows "\<exists>mi. m_store m (mr_instance r) = Some mi" "addr_eq k (mr_addr r)"
proof -
  obtain e where e: "e \<in># hash_bag (m_vhash m)" "addr_eq k (key_of e)" "he_value e = r"
    using assms(2) hash_map_bag[OF mem_invD(2)[OF assms(1)], of k r] mem_invD(3)[OF assms(1)] by auto
  show "\<exists>mi. m_store m (mr_instance r) = Some mi" using bag_store[OF assms(1) e(1)] e(3) by simp
  show "addr_eq k (mr_addr r)" using mem_invD(5)[OF assms(1) e(1)] e(2,3) by simp
qed

text \<open>Whether a route of the table is in force.\<close>

definition in_force :: "int \<Rightarrow> 'z multi_context_scheme \<Rightarrow> multi_route \<Rightarrow> bool" where
  "in_force now m r \<longleftrightarrow> multi_route_defined now m r = Some True"

lemma defined_Some: "m_store m (mr_instance r) = Some mi \<Longrightarrow> multi_route_defined now m r = Some (in_force now m r)"
  by (auto simp: multi_route_defined_def in_force_def)

lemma defined_vhash [simp]: "multi_route_defined now (m\<lparr>m_vhash := h\<rparr>) r = multi_route_defined now m r"
  by (simp add: multi_route_defined_def)

lemma in_force_vhash [simp]: "in_force now (m\<lparr>m_vhash := h\<rparr>) r = in_force now m r"
  by (simp add: in_force_def)

lemma in_force_store: "in_force now m r \<Longrightarrow> \<exists>mi. m_store m (mr_instance r) = Some mi \<and> \<not> mi_halt mi"
  by (auto simp: multi_route_defined_def in_force_def aborts split: if_splits)

lemma frame_defined:
  assumes "frame m m'" "m_store m' (mr_instance r) = Some mi'"
  shows "multi_route_defined now m' r = multi_route_defined now m r"
  using frame_inst[OF assms] frame_fields(1)[OF assms(1)] same_inst_simps(1) assms(2)
  by (auto simp: multi_route_defined_def)

lemma frame_in_force:
  assumes "frame m m'"
  shows "in_force now m' r = in_force now m r"
proof
  assume "in_force now m' r"
  moreover then obtain mi' where "m_store m' (mr_instance r) = Some mi'" using in_force_store by blast
  ultimately show "in_force now m r" using frame_defined[OF assms] unfolding in_force_def by metis
next
  assume a: "in_force now m r"
  then obtain mi where "m_store m (mr_instance r) = Some mi" "\<not> mi_halt mi" using in_force_store by blast
  then obtain mi' where "m_store m' (mr_instance r) = Some mi'" using frame_open[OF assms] by blast
  then show "in_force now m' r" using a frame_defined[OF assms] unfolding in_force_def by metis
qed

text \<open>The owner of an address, if a route for exactly this address is in force.\<close>

definition exact_owner :: "int \<Rightarrow> 'z multi_context_scheme \<Rightarrow> mroute_addr \<Rightarrow> nat option" where
  "exact_owner now m addr = (case hash_map (m_vhash m) addr of
       None \<Rightarrow> None
     | Some r \<Rightarrow> if in_force now m r then Some (mr_instance r) else None)"

lemma new_route_simps [simp]:
  "new_route now i addr flags (m\<lparr>m_vhash := h\<rparr>) = new_route now i addr flags m"
  "mr_addr (new_route now i addr flags m) = addr" "mr_instance (new_route now i addr flags m) = i"
  "mr_flags (new_route now i addr flags m) = flags" "mr_last_reference (new_route now i addr flags m) = now"
  by (simp_all add: new_route_def)

definition learnt_as :: "mroute_addr \<Rightarrow> multi_route \<Rightarrow> 'z multi_context_scheme \<Rightarrow> 'z multi_context_scheme \<Rightarrow> bool" where
  "learnt_as addr r m m' \<longleftrightarrow> hash_map (m_vhash m') = (\<lambda>k. if addr_eq addr k then Some r else hash_map (m_vhash m) k)"

lemma quota_inc:
  assumes "\<And>j mj. m_store m j = Some mj \<Longrightarrow> mi_route_count mj \<le> max 0 (mi_max_routes_per_client mj)"
    and "m_store m2 = (m_store m)(i \<mapsto> mi\<lparr>mi_refcount := x, mi_route_count := mi_route_count mi + 1\<rparr>)" "route_quota_test mi"
    and "m_store m2 j = Some mj"
  shows "mi_route_count mj \<le> max 0 (mi_max_routes_per_client mj)"
  using assms by (auto simp: route_quota_test_def split: if_splits)

lemma learn_spec:
  assumes inv: "mem_inv m" and mi: "m_store m i = Some mi" "\<not> mi_halt mi"
  obtains m' owner where "multi_learn_addr now script i addr flags m = Some (m', owner)" "mem_inv m'" "frame m m'"
    "hash_map (m_vhash m') = hash_map (m_vhash m) \<and> owner = exact_owner now m addr
     \<or> learnt_as addr (new_route now i addr flags m) m m' \<and> owner = Some i \<and> exact_owner now m addr \<noteq> Some i
       \<and> mroute_learnable_address addr \<and> \<not> mroute_addr_equal addr (m_local m)"
proof -
  let ?h = "m_vhash m" and ?new = "new_route now i addr flags m"
  let ?b = "hash_bucket (m_vhash m) (hash_value (m_vhash m) addr)"
  note I = mem_invD[OF inv]
  have sc: "\<And>x y. compare_function ?h x y = addr_eq x y" using I(3) by simp
  show ?thesis
  proof (rule hash_lookup_fast_bag[OF I(2), of addr])
    assume a: "hash_lookup_fast ?h ?b addr (hash_value ?h addr) = Some (?h, None)" "hash_map ?h addr = None"
    then have ex: "exact_owner now m addr = None" by (simp add: exact_owner_def)
    show ?thesis
    proof (cases "mroute_learnable_address addr \<and> \<not> mroute_addr_equal addr (m_local m) \<and> route_quota_test mi \<and> script ''add'' addr")
      case True
      obtain m1 m2 where m2: "multi_instance_inc_refcount i m = Some m1" "route_quota_inc i m1 = Some m2" "m_vhash m2 = ?h"
        "refs m2 ((routes_on (hash_bag ?h))(i := routes_on (hash_bag ?h) i + 1))" "frame m m2"
        "m_store m2 = (m_store m)(i \<mapsto> mi\<lparr>mi_refcount := mi_refcount mi + 1, mi_route_count := mi_route_count mi + 1\<rparr>)"
        using inc_refs[OF I(4) mi(1)] by blast
      let ?m = "m2\<lparr>m_vhash := hash_add_fast ?h ?b addr (hash_value ?h addr) ?new\<rparr>"
      have "multi_learn_addr now script i addr flags m = Some (?m, Some i)"
        using True a m2(1,2,3) mi(1) by (simp add: multi_learn_addr_def Let_def)
      moreover have "mem_inv ?m"
      proof -
        note b = hash_add_fast_bag[OF I(2) a(2), of ?new]
        have "compare_function (hash_add_fast ?h ?b addr (hash_value ?h addr) ?new) = addr_eq"
          using I(3) by (simp add: hash_add_fast_def)
        then have "vhash_ok (m_vhash ?m)" using b I(5) by (auto simp: vhash_ok_def)
        moreover have "refs ?m (routes_on (hash_bag (m_vhash ?m)))"
        proof -
          have "routes_on (hash_bag (m_vhash ?m)) = (routes_on (hash_bag ?h))(i := routes_on (hash_bag ?h) i + 1)"
            using b(2) by auto
          then show ?thesis using m2(4) by (simp add: refs_def)
        qed
        ultimately show ?thesis unfolding mem_inv_def using quota_inc[OF I(6) m2(6)] True by auto
      qed
      moreover have "learnt_as addr ?new m ?m"
        unfolding learnt_as_def by (rule ext) (simp add: hash_add_fast_map[OF I(2) a(2)] sc)
      ultimately show ?thesis using that ex True m2(5) by (metis frame_vhash option.distinct(1))
    next
      case False
      then have "multi_learn_addr now script i addr flags m = Some (m, None)"
        using a mi(1) by (auto simp: multi_learn_addr_def Let_def)
      then show ?thesis using that inv ex by simp
    qed
  next
    fix h' e xs
    assume a: "hash_lookup_fast ?h ?b addr (hash_value ?h addr) = Some (h', Some 0)" "hash_ok h'"
      "compare_function h' = compare_function ?h" "hash_value h' = hash_value ?h" "hash_bucket h' = hash_bucket ?h"
      "hash_bag h' = hash_bag ?h" "hash_map h' = hash_map ?h" "h_buckets h' ! ?b = e # xs" "?b < length (h_buckets h')"
      "hash_map ?h addr = Some (he_value e)" "compare_function ?h addr (key_of e)" "e \<in># hash_bag ?h"
    let ?r = "he_value e"
    obtain mr where mr: "m_store m (mr_instance ?r) = Some mr" using bag_store[OF inv a(12)] by blast
    let ?m0 = "m\<lparr>m_vhash := h'\<rparr>"
    have d: "multi_route_defined now ?m0 ?r = Some (in_force now m ?r)"
      using defined_Some[OF mr] by simp
    have ex: "exact_owner now m addr = (if in_force now m ?r then Some (mr_instance ?r) else None)"
      using a(10) by (simp add: exact_owner_def)
    have inv0: "mem_inv ?m0" using inv a(2,3,6) by (simp add: mem_inv_def vhash_ok_def refs_def)
    show ?thesis
    proof (cases "exact_owner now m addr \<noteq> Some i \<and> mroute_learnable_address addr \<and> \<not> mroute_addr_equal addr (m_local m)
        \<and> route_quota_test mi \<and> script ''update'' addr")
      case True
      have r0: "refs ?m0 (routes_on (hash_bag ?h))" using I(4) by (simp add: refs_def)
      obtain m1 m2 where m2: "multi_instance_inc_refcount i ?m0 = Some m1" "route_quota_inc i m1 = Some m2" "m_vhash m2 = h'"
        "refs m2 ((routes_on (hash_bag ?h))(i := routes_on (hash_bag ?h) i + 1))" "frame ?m0 m2"
        "m_store m2 = (m_store m)(i \<mapsto> mi\<lparr>mi_refcount := mi_refcount mi + 1, mi_route_count := mi_route_count mi + 1\<rparr>)"
        using inc_refs[OF r0, of i mi] mi(1) by auto
      let ?c = "(routes_on (hash_bag ?h))(i := routes_on (hash_bag ?h) i + 1)"
      have "0 < ?c (mr_instance ?r)" using routes_on_pos[OF a(12)] by simp
      from del_refs[OF m2(4) this, unfolded m2(3)] obtain m3 where m3: "multi_route_del ?r m2 = Some m3" "m_vhash m3 = h'"
        "refs m3 (?c(mr_instance ?r := ?c (mr_instance ?r) - 1))" "frame m2 m3"
        "\<forall>j mj. m_store m3 j = Some mj \<longrightarrow> (\<exists>mi. m_store m2 j = Some mi \<and> mi_route_count mj \<le> mi_route_count mi)"
        by blast
      let ?d = "e\<lparr>he_key := Some addr, he_value := ?new\<rparr>"
      have sh: "set_head ?b addr ?new h' = set_bucket h' ?b (?d # xs)" by (simp add: set_head_def a(8))
      let ?m = "m3\<lparr>m_vhash := set_bucket h' ?b (?d # xs)\<rparr>"
      have "multi_learn_addr now script i addr flags m = Some (?m, Some i)"
      proof -
        have "(if in_force now m ?r then Some (mr_instance ?r) else None) \<noteq> Some i" using True unfolding ex by blast
        then show ?thesis using True a(1,8) m2(1,2) m3(1,2) mi(1) d sh
          by (cases "in_force now m ?r") (simp_all add: multi_learn_addr_def Let_def)
      qed
      moreover have k: "compare_function h' (key_of e) addr" using a(3,11) sc addr_eq_sym by metis
      note rb = hash_replace_bag[OF a(2,9,8), of ?d addr, simplified, OF k]
      have fr: "frame m m3" using frame_trans[OF frame_trans[OF _ m2(5)] m3(4)] by simp
      have "mem_inv ?m"
      proof -
        have sub: "x = ?d \<or> x \<in># hash_bag h'" if "x \<in># hash_bag (set_bucket h' ?b (?d # xs))" for x
        proof -
          have "x \<in># hash_bag (set_bucket h' ?b (?d # xs)) + {#e#}" using that by simp
          moreover have "hash_bag (set_bucket h' ?b (?d # xs)) + {#e#} = hash_bag h' + {#?d#}" using rb(2) by simp
          ultimately have "x \<in># hash_bag h' + {#?d#}" by (simp only:)
          then show ?thesis by auto
        qed
        have "he_key x = Some (mr_addr (he_value x))" if "x \<in># hash_bag (set_bucket h' ?b (?d # xs))" for x
          using sub[OF that] I(5) a(6) by auto
        then have "vhash_ok (m_vhash ?m)" using rb(1) I(3) a(3) by (simp add: vhash_ok_def)
        moreover have "refs ?m (routes_on (hash_bag (m_vhash ?m)))"
        proof -
          have "routes_on (hash_bag (set_bucket h' ?b (?d # xs))) j = (?c(mr_instance ?r := ?c (mr_instance ?r) - 1)) j" for j
          proof -
            have "routes_on (hash_bag (set_bucket h' ?b (?d # xs)) + {#e#}) j = routes_on (hash_bag h' + {#?d#}) j"
              using rb(2) by simp
            then show ?thesis using routes_on_pos[OF a(12)] a(6) by auto
          qed
          then show ?thesis using m3(3) by (simp add: refs_def)
        qed
        moreover have "mi_route_count mj \<le> max 0 (mi_max_routes_per_client mj)" if mj: "m_store m3 j = Some mj" for j mj
        proof -
          obtain mk where mk: "m_store m2 j = Some mk" "mi_route_count mj \<le> mi_route_count mk" using m3(5) mj by blast
          have "same_inst mk mj" using frame_inst[OF m3(4) mj] mk(1) by auto
          then show ?thesis using quota_inc[OF I(6) m2(6) _ mk(1)] True mk(2) same_inst_simps(6) by fastforce
        qed
        ultimately show ?thesis unfolding mem_inv_def by simp
      qed
      moreover have "learnt_as addr ?new m ?m"
        unfolding learnt_as_def
        by (rule ext) (use hash_replace_map[OF a(2,9,8), of ?d addr, simplified, OF k] a(3,7) sc in simp)
      ultimately show ?thesis using that True fr by (metis frame_vhash)
    next
      case False
      have "multi_learn_addr now script i addr flags m = Some (?m0, exact_owner now m addr)"
        using a(1,8) mi(1) d False unfolding ex by (auto simp: multi_learn_addr_def Let_def split: if_splits)
      then show ?thesis using that[OF _ inv0] a(7) by simp
    qed
  qed
qed

section \<open>Deleting routes\<close>

lemma mem_inv_vhash:
  assumes "mem_inv m" "hash_ok h" "compare_function h = compare_function (m_vhash m)" "hash_bag h = hash_bag (m_vhash m)"
  shows "mem_inv (m\<lparr>m_vhash := h\<rparr>)"
  using assms by (simp add: mem_inv_def vhash_ok_def refs_def)

definition inst_count :: "multi_route list \<Rightarrow> nat \<Rightarrow> nat" where
  "inst_count rs i = length (filter (\<lambda>r. mr_instance r = i) rs)"

lemma inst_count_simps [simp]:
  "inst_count [] i = 0" "inst_count (r # rs) i = (if mr_instance r = i then 1 else 0) + inst_count rs i"
  by (simp_all add: inst_count_def)

lemma route_delete_loop_run:
  assumes "iter_run (\<lambda>e. Q (he_value e)) h hi es h'" "m_vhash m = h" "refs m c"
    and "\<And>i. inst_count (map he_value es) i \<le> c i"
    and "\<And>m' r. frame m m' \<Longrightarrow> m_store m' (mr_instance r) \<noteq> None \<Longrightarrow> P m' r = Some (Q r)"
  shows "\<exists>m'. route_delete_loop P m hi = Some m' \<and> m_vhash m' = h' \<and> frame m m'
    \<and> refs m' (\<lambda>i. c i - inst_count (filter Q (map he_value es)) i)
    \<and> (\<forall>j mj. m_store m' j = Some mj \<longrightarrow> (\<exists>mi. m_store m j = Some mi \<and> mi_route_count mj \<le> mi_route_count mi))"
  using assms
proof (induction arbitrary: m c rule: iter_run.induct)
  case (stop h hi h1 hi1)
  then show ?case by (intro exI[of _ "m\<lparr>m_vhash := fst (hash_iterator_free h1 hi1)\<rparr>"])
      (simp add: route_delete_loop.simps[of P m hi] refs_def)
next
  case (step h hi h1 hi1 b j e h2 hi2 es h')
  let ?r = "he_value e" and ?i = "mr_instance (he_value e)" and ?m1 = "m\<lparr>m_vhash := h1\<rparr>"
  have pos: "0 < c ?i" using step.prems(3)[of ?i] by simp
  obtain mi where mi: "m_store m ?i = Some mi" using refs_some[OF step.prems(2) pos] by blast
  have d: "P ?m1 ?r = Some (Q ?r)" using step.prems(4)[of ?m1 ?r] mi by simp
  have nx: "hash_iterator_next (m_vhash m) hi = (h1, hi1, Some (b, j))" using step.hyps(1) step.prems(1) by simp
  show ?case
  proof (cases "Q ?r")
    case True
    have r1: "refs ?m1 c" using step.prems(2) by (simp add: refs_def)
    from del_refs[OF r1 pos] obtain m2 where m2: "multi_route_del ?r ?m1 = Some m2" "m_vhash m2 = h1"
      "refs m2 (c(?i := c ?i - 1))" "frame ?m1 m2"
      "\<forall>j mj. m_store m2 j = Some mj \<longrightarrow> (\<exists>mi. m_store m j = Some mi \<and> mi_route_count mj \<le> mi_route_count mi)"
      by auto
    have f2: "frame m (m2\<lparr>m_vhash := h2\<rparr>)" using frame_trans[OF _ m2(4), of m] by simp
    have "hash_iterator_delete_element h1 hi1 = Some (h2, hi2)" using step.hyps(3) True by simp
    then have e: "route_delete_loop P m hi = route_delete_loop P (m2\<lparr>m_vhash := h2\<rparr>) hi2"
      using d True m2(1,2) nx step.hyps(2) by (simp add: route_delete_loop.simps[of P m hi] Let_def)
    have "\<exists>m'. route_delete_loop P (m2\<lparr>m_vhash := h2\<rparr>) hi2 = Some m' \<and> m_vhash m' = h' \<and> frame (m2\<lparr>m_vhash := h2\<rparr>) m'
        \<and> refs m' (\<lambda>i. (c(?i := c ?i - 1)) i - inst_count (filter Q (map he_value es)) i)
        \<and> (\<forall>j mj. m_store m' j = Some mj \<longrightarrow> (\<exists>mi. m_store (m2\<lparr>m_vhash := h2\<rparr>) j = Some mi \<and> mi_route_count mj \<le> mi_route_count mi))"
    proof (rule step.IH)
      show "refs (m2\<lparr>m_vhash := h2\<rparr>) (c(?i := c ?i - 1))" using m2(3) by (simp add: refs_def)
      show "inst_count (map he_value es) i \<le> (c(?i := c ?i - 1)) i" for i using step.prems(3)[of i] by (simp split: if_splits)
      show "P m' r = Some (Q r)" if "frame (m2\<lparr>m_vhash := h2\<rparr>) m'" "m_store m' (mr_instance r) \<noteq> None" for m' r
        using step.prems(4) frame_trans[OF f2 that(1)] that(2) by blast
    qed simp
    then obtain m' where m': "route_delete_loop P (m2\<lparr>m_vhash := h2\<rparr>) hi2 = Some m'" "m_vhash m' = h'" "frame (m2\<lparr>m_vhash := h2\<rparr>) m'"
      "refs m' (\<lambda>i. (c(?i := c ?i - 1)) i - inst_count (filter Q (map he_value es)) i)"
      "\<forall>j mj. m_store m' j = Some mj \<longrightarrow> (\<exists>mi. m_store m2 j = Some mi \<and> mi_route_count mj \<le> mi_route_count mi)" by auto
    have "refs m' (\<lambda>i. c i - inst_count (filter Q (map he_value (e # es))) i)"
    proof -
      have "(c(?i := c ?i - 1)) i - inst_count (filter Q (map he_value es)) i
          = c i - inst_count (filter Q (map he_value (e # es))) i" for i using True by simp
      then show ?thesis using m'(4) by simp
    qed
    moreover have "\<forall>j mj. m_store m' j = Some mj \<longrightarrow> (\<exists>mi. m_store m j = Some mi \<and> mi_route_count mj \<le> mi_route_count mi)"
      using m'(5) m2(5) by (meson order_trans)
    ultimately show ?thesis unfolding e using m'(1,2) frame_trans[OF f2 m'(3)] by blast
  next
    case False
    then have h2: "h2 = h1" "hi2 = hi1" using step.hyps(3) by simp_all
    have e: "route_delete_loop P m hi = route_delete_loop P ?m1 hi2"
      using d False nx step.hyps(2) h2 by (simp add: route_delete_loop.simps[of P m hi] Let_def)
    have "\<exists>m'. route_delete_loop P ?m1 hi2 = Some m' \<and> m_vhash m' = h' \<and> frame ?m1 m'
        \<and> refs m' (\<lambda>i. c i - inst_count (filter Q (map he_value es)) i)
        \<and> (\<forall>j mj. m_store m' j = Some mj \<longrightarrow> (\<exists>mi. m_store ?m1 j = Some mi \<and> mi_route_count mj \<le> mi_route_count mi))"
    proof (rule step.IH)
      show "m_vhash ?m1 = h2" using h2 by simp
      show "refs ?m1 c" using step.prems(2) by (simp add: refs_def)
      show "inst_count (map he_value es) i \<le> c i" for i using step.prems(3)[of i] by simp
      show "P m' r = Some (Q r)" if "frame ?m1 m'" "m_store m' (mr_instance r) \<noteq> None" for m' r
        using step.prems(4) frame_trans[OF _ that(1), of m] that(2) by simp
    qed
    then show ?thesis unfolding e using False frame_trans[of m ?m1] by auto
  qed
qed

lemma filter_size: "size (filter_mset R (mset xs)) = length (filter R xs)"
  by (simp add: size_mset[symmetric] del: size_mset)

lemma delete_map_bag:
  assumes "hash_ok h"
  shows "hash_map (delete_all R h) k = Some v
    \<longleftrightarrow> (\<exists>e. e \<in># hash_bag h \<and> \<not> R e \<and> compare_function h k (key_of e) \<and> he_value e = v)"
  using hash_map_bag[OF delete_all_ok[OF assms, of R], of k v] unfolding delete_all_bag by (auto simp: delete_all_def)

lemma route_delete_loop_spec:
  assumes inv: "mem_inv m" and hi: "hash_iterator_init_range (m_vhash m) start fin = Some hi"
    and P: "\<And>m' r. frame m m' \<Longrightarrow> m_store m' (mr_instance r) \<noteq> None \<Longrightarrow> P m' r = Some (Q r)"
  obtains m' where "route_delete_loop P m hi = Some m'" "mem_inv m'" "frame m m'"
    "\<And>k r. hash_map (m_vhash m') k = Some r \<longleftrightarrow> hash_map (m_vhash m) k = Some r
        \<and> \<not> (Q r \<and> nat start \<le> hash_bucket (m_vhash m) (hash_value (m_vhash m) k)
              \<and> hash_bucket (m_vhash m) (hash_value (m_vhash m) k) < nat (min fin (h_n_buckets (m_vhash m))))"
    "h_n_buckets (m_vhash m') = h_n_buckets (m_vhash m)"
proof -
  let ?h = "m_vhash m"
  note I = mem_invD[OF inv]
  obtain b n where bn: "b = nat start" "n = nat (min fin (h_n_buckets ?h))" "n \<le> length (h_buckets ?h)"
    and run: "iter_run (\<lambda>e. Q (he_value e)) ?h hi (elems ?h b n) (delete_all (\<lambda>e. Q (he_value e) \<and> bucket_between ?h b n e) ?h)"
    using hash_iterator_run[OF I(2) hi, of "\<lambda>e. Q (he_value e)"] by blast
  let ?R = "\<lambda>e. Q (he_value e) \<and> bucket_between ?h b n e"
  have cnt: "inst_count (filter X (map he_value (elems ?h b n))) i
      = size (filter_mset (\<lambda>e. mr_instance (he_value e) = i \<and> X (he_value e) \<and> bucket_between ?h b n e) (hash_bag ?h))" for X i
  proof -
    have "inst_count (filter X (map he_value (elems ?h b n))) i
        = length (filter (\<lambda>e. mr_instance (he_value e) = i \<and> X (he_value e)) (elems ?h b n))"
      unfolding inst_count_def filter_map o_def filter_filter length_map by (rule arg_cong[where f = length], rule filter_cong) auto
    also have "\<dots> = size (filter_mset (\<lambda>e. mr_instance (he_value e) = i \<and> X (he_value e)) (mset (elems ?h b n)))"
      by (rule filter_size[symmetric])
    finally show ?thesis unfolding elems_bag[OF I(2) bn(3)] filter_filter_mset by (simp add: conj_ac)
  qed
  have le: "inst_count (map he_value (elems ?h b n)) i \<le> routes_on (hash_bag ?h) i" for i
    using cnt[of "\<lambda>_. True" i] size_mset_mono[of "filter_mset (\<lambda>e. mr_instance (he_value e) = i \<and> bucket_between ?h b n e) (hash_bag ?h)"
        "filter_mset (\<lambda>e. mr_instance (he_value e) = i) (hash_bag ?h)"]
    by (simp add: routes_on_def multiset_filter_mono subseteq_mset_def)
  have "\<exists>m'. route_delete_loop P m hi = Some m' \<and> m_vhash m' = delete_all ?R ?h \<and> frame m m'
    \<and> refs m' (\<lambda>i. routes_on (hash_bag ?h) i - inst_count (filter Q (map he_value (elems ?h b n))) i)
    \<and> (\<forall>j mj. m_store m' j = Some mj \<longrightarrow> (\<exists>mi. m_store m j = Some mi \<and> mi_route_count mj \<le> mi_route_count mi))"
    by (rule route_delete_loop_run[OF run refl I(4) le]) (rule P)
  then obtain m' where m': "route_delete_loop P m hi = Some m'"
    "m_vhash m' = delete_all ?R ?h" "frame m m'"
    "refs m' (\<lambda>i. routes_on (hash_bag ?h) i - inst_count (filter Q (map he_value (elems ?h b n))) i)"
    "\<forall>j mj. m_store m' j = Some mj \<longrightarrow> (\<exists>mi. m_store m j = Some mi \<and> mi_route_count mj \<le> mi_route_count mi)"
    by blast
  have "routes_on (hash_bag ?h) i - inst_count (filter Q (map he_value (elems ?h b n))) i = routes_on (hash_bag (m_vhash m')) i" for i
  proof -
    have "filter_mset (\<lambda>e. mr_instance (he_value e) = i) (hash_bag ?h)
        = filter_mset (\<lambda>e. mr_instance (he_value e) = i \<and> ?R e) (hash_bag ?h)
          + filter_mset (\<lambda>e. mr_instance (he_value e) = i \<and> \<not> ?R e) (hash_bag ?h)"
      by (subst multiset_partition[of "filter_mset _ _" ?R]) (simp add: filter_filter_mset conj_ac)
    then have "routes_on (hash_bag ?h) i = inst_count (filter Q (map he_value (elems ?h b n))) i
        + size (filter_mset (\<lambda>e. mr_instance (he_value e) = i \<and> \<not> ?R e) (hash_bag ?h))"
      unfolding cnt routes_on_def by (metis size_union)
    then show ?thesis unfolding m'(2) delete_all_bag routes_on_def filter_filter_mset by (simp add: conj_ac)
  qed
  then have r: "refs m' (routes_on (hash_bag (m_vhash m')))" using m'(4) by simp
  have "vhash_ok (m_vhash m')"
    unfolding m'(2) vhash_ok_def delete_all_bag
  proof (intro conjI allI impI)
    show "hash_ok (delete_all ?R ?h)" by (rule delete_all_ok[OF I(2)])
    show "compare_function (delete_all ?R ?h) = addr_eq" using I(3) by (simp add: delete_all_def)
  qed (use I(5) in auto)
  moreover have "mi_route_count mj \<le> max 0 (mi_max_routes_per_client mj)" if mj: "m_store m' j = Some mj" for j mj
  proof -
    obtain mk where mk: "m_store m j = Some mk" "mi_route_count mj \<le> mi_route_count mk" using m'(5) mj by blast
    have "same_inst mk mj" using frame_inst[OF m'(3) mj] mk(1) by auto
    then show ?thesis using I(6)[OF mk(1)] mk(2) same_inst_simps(6) by fastforce
  qed
  ultimately have inv': "mem_inv m'" using r unfolding mem_inv_def by blast
  have mp: "hash_map (m_vhash m') k = Some r \<longleftrightarrow> hash_map ?h k = Some r
      \<and> \<not> (Q r \<and> b \<le> hash_bucket ?h (hash_value ?h k) \<and> hash_bucket ?h (hash_value ?h k) < n)" for k r
  proof -
    have "he_hash_value e = hash_value ?h k" if "e \<in># hash_bag ?h" "compare_function ?h k (key_of e)" for e
      using bag_elem(2)[OF I(2) that(1)] cmp_hash[OF bucket_of(1)[OF I(2)] that(2)] by simp
    then show ?thesis
      unfolding m'(2) delete_map_bag[OF I(2)] hash_map_bag[OF I(2)] by (auto simp: bucket_between_def)
  qed
  have "h_n_buckets (m_vhash m') = h_n_buckets ?h" unfolding m'(2) by (simp add: delete_all_def)
  then show ?thesis using that[OF m'(1) inv' m'(3)] mp unfolding bn(1,2) by blast
qed

section \<open>Lookup\<close>

text \<open>The key under which a prefix of the length \<open>n\<close> that contains the address is looked up.\<close>

definition prefix_key :: "mroute_addr \<Rightarrow> u8 \<Rightarrow> mroute_addr option" where
  "prefix_key addr n = mroute_addr_mask_host_bits (addr\<lparr>ma_type := ma_type addr OR MR_WITH_NETBITS, ma_netbits := n\<rparr>)"

text \<open>The owner of the first prefix that has a route in force.\<close>

fun net_owner :: "int \<Rightarrow> 'z multi_context_scheme \<Rightarrow> mroute_addr \<Rightarrow> u8 list \<Rightarrow> nat option" where
  "net_owner now m addr [] = None"
| "net_owner now m addr (n # ns) =
     (case exact_owner now m (the (prefix_key addr n)) of Some i \<Rightarrow> Some i | None \<Rightarrow> net_owner now m addr ns)"

lemma lookup_spec:
  assumes "mem_inv m"
  shows "\<exists>h'. hash_lookup (m_vhash m) k = Some (h', hash_map (m_vhash m) k) \<and> mem_inv (m\<lparr>m_vhash := h'\<rparr>)
    \<and> hash_map h' = hash_map (m_vhash m)
    \<and> (\<forall>r. hash_map (m_vhash m) k = Some r \<longrightarrow> (\<exists>e xs. h_buckets h' ! hash_bucket (m_vhash m) (hash_value (m_vhash m) k) = e # xs
          \<and> he_value e = r \<and> e \<in># hash_bag h' \<and> hash_bucket (m_vhash m) (hash_value (m_vhash m) k) < length (h_buckets h')))"
proof -
  note I = mem_invD[OF assms]
  show ?thesis
  proof (rule hash_lookup_fast_bag[OF I(2), of k])
    assume "hash_lookup_fast (m_vhash m) (hash_bucket (m_vhash m) (hash_value (m_vhash m) k)) k (hash_value (m_vhash m) k) = Some (m_vhash m, None)"
      "hash_map (m_vhash m) k = None"
    then show ?thesis using assms by (simp add: hash_lookup_def Let_def)
  next
    fix h' e xs
    assume a: "hash_lookup_fast (m_vhash m) (hash_bucket (m_vhash m) (hash_value (m_vhash m) k)) k (hash_value (m_vhash m) k) = Some (h', Some 0)"
      "hash_ok h'" "compare_function h' = compare_function (m_vhash m)" "hash_bag h' = hash_bag (m_vhash m)"
      "hash_map h' = hash_map (m_vhash m)" "h_buckets h' ! hash_bucket (m_vhash m) (hash_value (m_vhash m) k) = e # xs"
      "hash_bucket (m_vhash m) (hash_value (m_vhash m) k) < length (h_buckets h')"
      "hash_map (m_vhash m) k = Some (he_value e)" "e \<in># hash_bag (m_vhash m)"
    have "hash_lookup (m_vhash m) k = Some (h', Some (he_value e))" using a(1,6) by (simp add: hash_lookup_def Let_def)
    then show ?thesis using mem_inv_vhash[OF assms a(2,3,4)] a(4,5,6,7,8,9) by auto
  qed
qed

text \<open>Renewing the last reference of a route in place.\<close>

lemma touch_spec:
  assumes "mem_inv m" "h_buckets (m_vhash m) ! b = e # xs" "e \<in># hash_bag (m_vhash m)" "b < length (h_buckets (m_vhash m))"
  defines "r \<equiv> he_value e"
  shows "mem_inv (m\<lparr>m_vhash := set_head b (mr_addr r) (r\<lparr>mr_last_reference := t\<rparr>) (m_vhash m)\<rparr>)"
    "learnt_as (mr_addr r) (r\<lparr>mr_last_reference := t\<rparr>) m (m\<lparr>m_vhash := set_head b (mr_addr r) (r\<lparr>mr_last_reference := t\<rparr>) (m_vhash m)\<rparr>)"
proof -
  let ?h = "m_vhash m"
  let ?d = "e\<lparr>he_key := Some (mr_addr r), he_value := r\<lparr>mr_last_reference := t\<rparr>\<rparr>"
  note I = mem_invD[OF assms(1)]
  have sh: "set_head b (mr_addr r) (r\<lparr>mr_last_reference := t\<rparr>) ?h = set_bucket ?h b (?d # xs)"
    by (simp add: set_head_def assms(2))
  have k: "compare_function ?h (key_of e) (mr_addr r)" using I(3) I(5)[OF assms(3)] by (simp add: r_def)
  note rb = hash_replace_bag[OF I(2) assms(4,2), of ?d "mr_addr r", simplified, OF k]
  have bag: "hash_bag (set_bucket ?h b (?d # xs)) + {#e#} = hash_bag ?h + {#?d#}" using rb(2) by simp
  have "he_key x = Some (mr_addr (he_value x))" if "x \<in># hash_bag (set_bucket ?h b (?d # xs))" for x
  proof -
    have "x \<in># hash_bag (set_bucket ?h b (?d # xs)) + {#e#}" using that by simp
    then have "x \<in># hash_bag ?h + {#?d#}" unfolding bag .
    then show ?thesis using I(5) by auto
  qed
  then have v: "vhash_ok (set_bucket ?h b (?d # xs))" using rb(1) I(3) by (simp add: vhash_ok_def)
  have "routes_on (hash_bag (set_bucket ?h b (?d # xs))) j = routes_on (hash_bag ?h) j" for j
  proof -
    have "routes_on (hash_bag (set_bucket ?h b (?d # xs)) + {#e#}) j = routes_on (hash_bag ?h + {#?d#}) j" unfolding bag ..
    then show ?thesis by (simp add: r_def)
  qed
  then show "mem_inv (m\<lparr>m_vhash := set_head b (mr_addr r) (r\<lparr>mr_last_reference := t\<rparr>) ?h\<rparr>)"
    using v I(4,6) unfolding sh mem_inv_def by (simp add: refs_def)
  show "learnt_as (mr_addr r) (r\<lparr>mr_last_reference := t\<rparr>) m (m\<lparr>m_vhash := set_head b (mr_addr r) (r\<lparr>mr_last_reference := t\<rparr>) ?h\<rparr>)"
    unfolding sh learnt_as_def
    by (rule ext) (use hash_replace_map[OF I(2) assms(4,2), of ?d "mr_addr r", simplified, OF k] I(3) in simp)
qed

lemma exact_owner_cong:
  "hash_map (m_vhash m') = hash_map (m_vhash m) \<Longrightarrow> frame m m' \<Longrightarrow> exact_owner now m' = exact_owner now m"
  by (rule ext) (simp add: exact_owner_def frame_in_force split: option.split)

lemma net_owner_cong: "exact_owner now m' = exact_owner now m \<Longrightarrow> net_owner now m' addr ns = net_owner now m addr ns"
  by (induction ns) (simp_all split: option.split)

lemma exact_owner_open:
  assumes "exact_owner now m k = Some i"
  shows "\<exists>mi. m_store m i = Some mi \<and> \<not> mi_halt mi"
  using assms in_force_store by (auto simp: exact_owner_def split: option.splits if_splits)

lemma net_owner_open: "net_owner now m addr ns = Some i \<Longrightarrow> \<exists>mi. m_store m i = Some mi \<and> \<not> mi_halt mi"
  by (induction ns) (auto split: option.splits dest: exact_owner_open)

lemma cidr_loop_spec:
  assumes "mem_inv m" "\<forall>n \<in> set ns. prefix_key addr n \<noteq> None"
  shows "\<exists>m' ret. cidr_loop now script addr ns m = Some (m', ret) \<and> mem_inv m' \<and> frame m m' \<and> ret = net_owner now m addr ns
    \<and> (hash_map (m_vhash m') = hash_map (m_vhash m)
       \<or> (\<exists>i. ret = Some i \<and> learnt_as addr (new_route now i addr (MULTI_ROUTE_CACHE OR MULTI_ROUTE_AGEABLE) m) m m'
            \<and> \<not> mroute_addr_equal addr (m_local m)))"
  using assms
proof (induction ns arbitrary: m)
  case Nil
  then show ?case by simp
next
  case (Cons n ns)
  obtain k where k: "prefix_key addr n = Some k" using Cons.prems(2) by auto
  obtain h' where h': "hash_lookup (m_vhash m) k = Some (h', hash_map (m_vhash m) k)" "mem_inv (m\<lparr>m_vhash := h'\<rparr>)"
    "hash_map h' = hash_map (m_vhash m)" using lookup_spec[OF Cons.prems(1), of k] by blast
  let ?m = "m\<lparr>m_vhash := h'\<rparr>"
  have eo: "exact_owner now ?m = exact_owner now m" by (rule exact_owner_cong) (simp_all add: h'(3))
  have step: "cidr_loop now script addr (n # ns) m = do {
      d \<leftarrow> (case hash_map (m_vhash m) k of None \<Rightarrow> Some False | Some r \<Rightarrow> multi_route_defined now m r);
      (if d then do {
        let i = mr_instance (the (hash_map (m_vhash m) k));
        (m, _) \<leftarrow> multi_learn_addr now script i addr (MULTI_ROUTE_CACHE OR MULTI_ROUTE_AGEABLE) ?m;
        Some (m, Some i) }
      else cidr_loop now script addr ns ?m) }"
    using k h'(1) by (simp add: prefix_key_def Let_def cong: option.case_cong)
  show ?case
  proof (cases "exact_owner now m k")
    case None
    have "(case hash_map (m_vhash m) k of None \<Rightarrow> Some False | Some r \<Rightarrow> multi_route_defined now m r) = Some False"
    proof (cases "hash_map (m_vhash m) k")
      case (Some r)
      then obtain mi where "m_store m (mr_instance r) = Some mi" using map_store(1)[OF Cons.prems(1)] by blast
      then show ?thesis using Some None defined_Some[of m r mi now] by (simp add: exact_owner_def split: if_splits)
    qed simp
    then have e: "cidr_loop now script addr (n # ns) m = cidr_loop now script addr ns ?m" unfolding step by simp
    obtain m' ret where m': "cidr_loop now script addr ns ?m = Some (m', ret)" "mem_inv m'" "frame ?m m'" "ret = net_owner now ?m addr ns"
      "hash_map (m_vhash m') = hash_map (m_vhash ?m) \<or> (\<exists>i. ret = Some i
        \<and> learnt_as addr (new_route now i addr (MULTI_ROUTE_CACHE OR MULTI_ROUTE_AGEABLE) ?m) ?m m' \<and> \<not> mroute_addr_equal addr (m_local ?m))"
      using Cons.IH[OF h'(2)] Cons.prems(2) by auto
    have "ret = net_owner now m addr (n # ns)" using m'(4) None k net_owner_cong[OF eo] by simp
    moreover have "frame m m'" using frame_trans[OF _ m'(3), of m] by simp
    ultimately show ?thesis unfolding e using m'(1,2,5) h'(3) by (auto simp: learnt_as_def cong: if_cong)
  next
    case (Some i)
    then obtain r where r: "hash_map (m_vhash m) k = Some r" "in_force now m r" "mr_instance r = i"
      by (auto simp: exact_owner_def split: option.splits if_splits)
    obtain mi where mi: "m_store ?m i = Some mi" "\<not> mi_halt mi" using in_force_store[OF r(2)] r(3) by auto
    obtain m' owner where m': "multi_learn_addr now script i addr (MULTI_ROUTE_CACHE OR MULTI_ROUTE_AGEABLE) ?m = Some (m', owner)"
      "mem_inv m'" "frame ?m m'"
      "hash_map (m_vhash m') = hash_map (m_vhash ?m) \<and> owner = exact_owner now ?m addr
       \<or> learnt_as addr (new_route now i addr (MULTI_ROUTE_CACHE OR MULTI_ROUTE_AGEABLE) ?m) ?m m' \<and> owner = Some i
         \<and> exact_owner now ?m addr \<noteq> Some i \<and> mroute_learnable_address addr \<and> \<not> mroute_addr_equal addr (m_local ?m)"
      by (rule learn_spec[OF h'(2) mi])
    have "cidr_loop now script addr (n # ns) m = Some (m', Some i)"
      unfolding step using r m'(1) by (simp add: in_force_def)
    moreover have "net_owner now m addr (n # ns) = Some i" using Some k by simp
    moreover have "frame m m'" using frame_trans[OF _ m'(3), of m] by simp
    ultimately show ?thesis using m'(2,4) h'(3) by (auto simp: learnt_as_def cong: if_cong)
  qed
qed

abbreviation nets :: "'z multi_context_scheme \<Rightarrow> u8 list" where
  "nets m \<equiv> take (nat (n_net_len (m_route_helper m))) (mh_net_len (m_route_helper m))"

lemma get_spec:
  assumes inv: "mem_inv m" and p: "cidr \<Longrightarrow> \<forall>n \<in> set (nets m). prefix_key addr n \<noteq> None"
  obtains m' ret where "multi_get_instance_by_virtual_addr now script addr cidr m = Some (m', ret)" "mem_inv m'" "frame m m'"
    "mroute_addr_equal addr (m_local m) \<and> m' = m \<and> ret = None
     \<or> \<not> mroute_addr_equal addr (m_local m) \<and> exact_owner now m addr = ret \<and> ret \<noteq> None
       \<and> (\<exists>r. hash_map (m_vhash m) addr = Some r \<and> learnt_as (mr_addr r) (r\<lparr>mr_last_reference := now\<rparr>) m m')
     \<or> \<not> mroute_addr_equal addr (m_local m) \<and> exact_owner now m addr = None
       \<and> ret = (if cidr then net_owner now m addr (nets m) else None)
       \<and> (hash_map (m_vhash m') = hash_map (m_vhash m) \<or> (\<exists>i. ret = Some i
            \<and> learnt_as addr (new_route now i addr (MULTI_ROUTE_CACHE OR MULTI_ROUTE_AGEABLE) m) m m'))"
proof (cases "mroute_addr_equal addr (m_local m)")
  case True
  then show ?thesis using that inv by (simp add: multi_get_instance_by_virtual_addr_def)
next
  case False
  let ?b = "hash_bucket (m_vhash m) (hash_value (m_vhash m) addr)"
  obtain h' where h': "hash_lookup (m_vhash m) addr = Some (h', hash_map (m_vhash m) addr)" "mem_inv (m\<lparr>m_vhash := h'\<rparr>)"
    "hash_map h' = hash_map (m_vhash m)"
    "\<forall>r. hash_map (m_vhash m) addr = Some r \<longrightarrow> (\<exists>e xs. h_buckets h' ! ?b = e # xs \<and> he_value e = r \<and> e \<in># hash_bag h' \<and> ?b < length (h_buckets h'))"
    using lookup_spec[OF inv, of addr] by blast
  let ?m = "m\<lparr>m_vhash := h'\<rparr>"
  show ?thesis
  proof (cases "exact_owner now m addr")
    case (Some i)
    then obtain r where r: "hash_map (m_vhash m) addr = Some r" "in_force now m r" "mr_instance r = i"
      by (auto simp: exact_owner_def split: option.splits if_splits)
    obtain mi where mi: "m_store m i = Some mi" "\<not> mi_halt mi" using in_force_store[OF r(2)] r(3) by auto
    obtain e xs where e: "h_buckets h' ! ?b = e # xs" "he_value e = r" "e \<in># hash_bag h'" "?b < length (h_buckets h')"
      using h'(4) r(1) by blast
    let ?m2 = "m\<lparr>m_vhash := set_head ?b (mr_addr r) (r\<lparr>mr_last_reference := now\<rparr>) h'\<rparr>"
    have t: "mem_inv ?m2" "learnt_as (mr_addr r) (r\<lparr>mr_last_reference := now\<rparr>) ?m ?m2"
      using touch_spec[of ?m ?b e xs now] h'(2) e by simp_all
    have "multi_get_instance_by_virtual_addr now script addr cidr m = Some (?m2, Some i)"
      using False h'(1) r mi by (simp add: multi_get_instance_by_virtual_addr_def Let_def in_force_def)
    then show ?thesis using that[of ?m2 "Some i"] t False Some r(1) h'(3) by (simp add: learnt_as_def cong: if_cong)
  next
    case None
    have d: "(case hash_map (m_vhash m) addr of None \<Rightarrow> Some False | Some r \<Rightarrow> multi_route_defined now m r) = Some False"
    proof (cases "hash_map (m_vhash m) addr")
      case (Some r)
      then obtain mi where "m_store m (mr_instance r) = Some mi" using map_store(1)[OF inv] by blast
      then show ?thesis using Some None defined_Some[of m r mi now] by (simp add: exact_owner_def split: if_splits)
    qed simp
    show ?thesis
    proof (cases cidr)
      case False
      then have "multi_get_instance_by_virtual_addr now script addr cidr m = Some (?m, None)"
        using \<open>\<not> mroute_addr_equal addr (m_local m)\<close> h'(1) d by (simp add: multi_get_instance_by_virtual_addr_def Let_def cong: option.case_cong)
      then show ?thesis using that[of ?m None] False \<open>\<not> mroute_addr_equal addr (m_local m)\<close> h'(2,3) None by simp
    next
      case True
      have eo: "exact_owner now ?m = exact_owner now m" by (rule exact_owner_cong) (simp_all add: h'(3))
      have "\<forall>n \<in> set (nets m). prefix_key addr n \<noteq> None" using p True by blast
      from cidr_loop_spec[OF h'(2) this, of now script] obtain m' ret where m': "cidr_loop now script addr (nets m) ?m = Some (m', ret)"
        "mem_inv m'" "frame ?m m'" "ret = net_owner now ?m addr (nets m)"
        "hash_map (m_vhash m') = hash_map (m_vhash ?m) \<or> (\<exists>i. ret = Some i
          \<and> learnt_as addr (new_route now i addr (MULTI_ROUTE_CACHE OR MULTI_ROUTE_AGEABLE) ?m) ?m m' \<and> \<not> mroute_addr_equal addr (m_local ?m))"
        by blast
      have fr: "frame m m'" using frame_trans[OF _ m'(3), of m] by simp
      have ret: "ret = net_owner now m addr (nets m)" using m'(4) net_owner_cong[OF eo] by simp
      have "(case ret of None \<Rightarrow> Some (m', ret) | Some i \<Rightarrow> do { mi \<leftarrow> m_store m' i; ASSERT (\<not> mi_halt mi); Some (m', ret) }) = Some (m', ret)"
      proof (cases ret)
        case (Some i)
        then obtain mi where "m_store m i = Some mi" "\<not> mi_halt mi" using net_owner_open ret by metis
        then obtain mi' where "m_store m' i = Some mi'" "\<not> mi_halt mi'" using frame_open[OF fr] by blast
        then show ?thesis using Some by simp
      qed simp
      then have "multi_get_instance_by_virtual_addr now script addr cidr m = Some (m', ret)"
        using False h'(1) d True m'(1) by (simp add: multi_get_instance_by_virtual_addr_def Let_def cong: option.case_cong)
      then show ?thesis using that[OF _ m'(2) fr] False None True ret m'(5) h'(3) by (simp add: learnt_as_def cong: if_cong)
    qed
  qed
qed

end
