(* ===== verification/Multi_Route_Run.thy ===== *)
theory Multi_Route_Run
  imports Multi_Route_Mem
begin

text \<open>
  The prefix lengths in use, and runs of the server over its routing operations: clients appear,
  get their addresses and internal routes, packets are looked up, clients leave, the table is
  reaped. No operation fails.
\<close>

section \<open>The helper\<close>

definition used_lengths :: "int list \<Rightarrow> nat \<Rightarrow> u8 list" where
  "used_lengths rc n = map of_nat (filter (\<lambda>i. rc ! i > 0) (rev [0..<n]))"

definition helper_ok :: "mroute_helper \<Rightarrow> bool" where
  "helper_ok rh \<longleftrightarrow> length (net_len_refcount rh) = MR_HELPER_NET_LEN \<and> length (mh_net_len rh) = MR_HELPER_NET_LEN
     \<and> (\<forall>c \<in> set (net_len_refcount rh). 0 \<le> c)
     \<and> take (nat (n_net_len rh)) (mh_net_len rh) = used_lengths (net_len_refcount rh) MR_HELPER_NET_LEN"

lemma regenerate_loop_spec:
  "j + i \<le> length nl \<Longrightarrow> \<exists>nl' j'. regenerate_loop rc i nl j = (nl', j') \<and> length nl' = length nl
     \<and> take j' nl' = take j nl @ used_lengths rc i \<and> j' \<le> j + i"
proof (induction rc i nl j rule: regenerate_loop.induct)
  case (2 rc i nl j)
  show ?case
  proof (cases "rc ! i > 0")
    case True
    obtain nl' j' where "regenerate_loop rc i (nl[j := of_nat i]) (j + 1) = (nl', j')" "length nl' = length nl"
      "take j' nl' = take (j + 1) (nl[j := of_nat i]) @ used_lengths rc i" "j' \<le> j + 1 + i"
      using 2(1)[OF True] 2(3) by auto
    moreover have "take (j + 1) (nl[j := of_nat i]) = take j nl @ [of_nat i]"
      using 2(3) by (simp add: take_Suc_conv_app_nth)
    ultimately show ?thesis using True by (simp add: used_lengths_def)
  next
    case False
    then show ?thesis using 2(2)[OF False] 2(3) by (auto simp: used_lengths_def)
  qed
qed (simp add: used_lengths_def)

lemma regenerate_ok:
  assumes "length (net_len_refcount rh) = MR_HELPER_NET_LEN" "length (mh_net_len rh) = MR_HELPER_NET_LEN"
    "\<forall>c \<in> set (net_len_refcount rh). 0 \<le> c"
  shows "helper_ok (mroute_helper_regenerate rh)" "net_len_refcount (mroute_helper_regenerate rh) = net_len_refcount rh"
    "cache_generation (mroute_helper_regenerate rh) = cache_generation rh" "ageable_ttl_secs (mroute_helper_regenerate rh) = ageable_ttl_secs rh"
proof -
  obtain nl' j' where "regenerate_loop (net_len_refcount rh) MR_HELPER_NET_LEN (mh_net_len rh) 0 = (nl', j')" "length nl' = length (mh_net_len rh)"
      "take j' nl' = used_lengths (net_len_refcount rh) MR_HELPER_NET_LEN"
    using regenerate_loop_spec[of 0 MR_HELPER_NET_LEN "mh_net_len rh" "net_len_refcount rh"] assms by auto
  then show "helper_ok (mroute_helper_regenerate rh)" "net_len_refcount (mroute_helper_regenerate rh) = net_len_refcount rh"
    "cache_generation (mroute_helper_regenerate rh) = cache_generation rh" "ageable_ttl_secs (mroute_helper_regenerate rh) = ageable_ttl_secs rh"
    using assms by (simp_all add: mroute_helper_regenerate_def helper_ok_def)
qed

lemma used_lengths_cong: "(\<And>i. i < n \<Longrightarrow> (rc ! i > 0) = (rc' ! i > 0)) \<Longrightarrow> used_lengths rc n = used_lengths rc' n"
  unfolding used_lengths_def by (rule arg_cong[where f = "map of_nat"], rule filter_cong) auto

lemma helper_init_ok: "helper_ok (mroute_helper_init ttl)"
  by (simp add: helper_ok_def mroute_helper_init_def used_lengths_def filter_empty_conv MR_HELPER_NET_LEN_def)

lemma helper_add_spec:
  assumes "helper_ok rh" "0 \<le> n" "n < int MR_HELPER_NET_LEN"
  shows "\<exists>rh'. mroute_helper_add_iroute46 rh n = Some rh' \<and> helper_ok rh' \<and> cache_generation rh' = cache_generation rh + 1
    \<and> ageable_ttl_secs rh' = ageable_ttl_secs rh
    \<and> net_len_refcount rh' = (net_len_refcount rh)[nat n := net_len_refcount rh ! nat n + 1]"
proof -
  let ?rc = "net_len_refcount rh"
  let ?rh = "rh\<lparr>cache_generation := cache_generation rh + 1, net_len_refcount := ?rc[nat n := ?rc ! nat n + 1]\<rparr>"
  have l: "nat n < length ?rc" using assms by (simp add: helper_ok_def)
  then have p: "0 \<le> ?rc ! nat n" using assms(1) by (simp add: helper_ok_def)
  have pos: "\<forall>c \<in> set (?rc[nat n := ?rc ! nat n + 1]). 0 \<le> c"
    using assms(1) p set_update_subset_insert[of ?rc "nat n" "?rc ! nat n + 1"] by (auto simp: helper_ok_def)
  show ?thesis
  proof (cases "?rc ! nat n + 1 = 1")
    case True
    then show ?thesis using regenerate_ok[of ?rh] assms pos
      by (simp add: mroute_helper_add_iroute46_def Let_def helper_ok_def)
  next
    case False
    then have "used_lengths (?rc[nat n := ?rc ! nat n + 1]) MR_HELPER_NET_LEN = used_lengths ?rc MR_HELPER_NET_LEN"
      using p l by (intro used_lengths_cong) (auto simp: nth_list_update)
    then have "helper_ok ?rh" using assms(1) pos by (simp add: helper_ok_def)
    then show ?thesis using False assms by (simp add: mroute_helper_add_iroute46_def Let_def)
  qed
qed

lemma helper_del_spec:
  assumes "helper_ok rh" "0 \<le> n" "n < int MR_HELPER_NET_LEN" "0 < net_len_refcount rh ! nat n"
  shows "\<exists>rh'. mroute_helper_del_iroute46 rh n = Some rh' \<and> helper_ok rh' \<and> cache_generation rh' = cache_generation rh + 1
    \<and> ageable_ttl_secs rh' = ageable_ttl_secs rh
    \<and> net_len_refcount rh' = (net_len_refcount rh)[nat n := net_len_refcount rh ! nat n - 1]"
proof -
  let ?rc = "net_len_refcount rh"
  let ?rh = "rh\<lparr>cache_generation := cache_generation rh + 1, net_len_refcount := ?rc[nat n := ?rc ! nat n - 1]\<rparr>"
  have l: "nat n < length ?rc" using assms by (simp add: helper_ok_def)
  have pos: "\<forall>c \<in> set (?rc[nat n := ?rc ! nat n - 1]). 0 \<le> c"
    using assms(1,4) set_update_subset_insert[of ?rc "nat n" "?rc ! nat n - 1"] by (auto simp: helper_ok_def)
  show ?thesis
  proof (cases "?rc ! nat n - 1 = 0")
    case True
    then show ?thesis using regenerate_ok[of ?rh] assms pos
      by (simp add: mroute_helper_del_iroute46_def Let_def helper_ok_def)
  next
    case False
    then have "used_lengths (?rc[nat n := ?rc ! nat n - 1]) MR_HELPER_NET_LEN = used_lengths ?rc MR_HELPER_NET_LEN"
      using assms(4) l by (intro used_lengths_cong) (auto simp: nth_list_update)
    then have "helper_ok ?rh" using assms(1) pos by (simp add: helper_ok_def)
    then show ?thesis using False assms by (simp add: mroute_helper_del_iroute46_def Let_def)
  qed
qed

lemma helper_nets:
  assumes "helper_ok rh"
  shows "take (nat (n_net_len rh)) (mh_net_len rh) = used_lengths (net_len_refcount rh) MR_HELPER_NET_LEN"
    "n \<in> set (take (nat (n_net_len rh)) (mh_net_len rh)) \<longleftrightarrow> (\<exists>i < MR_HELPER_NET_LEN. n = of_nat i \<and> net_len_refcount rh ! i > 0)"
  using assms by (auto simp: helper_ok_def used_lengths_def)

section \<open>Prefixes of an address\<close>

declare clear_host_bytes.simps [simp del]

lemma clear_host_bytes_done:
  "0 \<le> n \<Longrightarrow> n \<le> 8 * (byte + 1) \<Longrightarrow> snd (clear_host_bytes a byte n) = 0 \<and> length (fst (clear_host_bytes a byte n)) = length a"
proof (induction a byte n rule: clear_host_bytes.induct)
  case (1 a byte n)
  show ?case
  proof (cases "byte \<ge> 0 \<and> n > 0")
    case True
    then show ?thesis
      using 1 by (cases "n \<ge> 8") (simp_all add: clear_host_bytes.simps[of a byte n])
  next
    case False
    then show ?thesis using 1(3,4) by (auto simp: clear_host_bytes.simps[of a byte n])
  qed
qed

text \<open>An address of a host, as it is extracted from a packet.\<close>

definition host_addr :: "mroute_addr \<Rightarrow> bool" where
  "host_addr a \<longleftrightarrow> ma_type a = MR_ADDR_IPV4 \<and> ma_len a = 4 \<or> ma_type a = MR_ADDR_IPV6 \<and> ma_len a = 16"

lemma type_consts:
  "(MR_ADDR_IPV4 OR MR_WITH_NETBITS) AND MR_ADDR_MASK = MR_ADDR_IPV4"
  "(MR_ADDR_IPV6 OR MR_WITH_NETBITS) AND MR_ADDR_MASK = MR_ADDR_IPV6"
  "MR_ADDR_IPV4 AND MR_WITH_NETBITS = 0" "MR_ADDR_IPV6 AND MR_WITH_NETBITS = 0"
  "(MR_ADDR_IPV4 OR MR_WITH_NETBITS) AND MR_WITH_NETBITS \<noteq> 0" "(MR_ADDR_IPV6 OR MR_WITH_NETBITS) AND MR_WITH_NETBITS \<noteq> 0"
  "MR_ADDR_IPV4 \<noteq> MR_ADDR_IPV6" "MR_WITH_NETBITS \<noteq> 0"
  by (simp_all add: MR_ADDR_IPV4_def MR_ADDR_IPV6_def MR_WITH_NETBITS_def MR_ADDR_MASK_def)

lemma prefix_key_spec:
  assumes "host_addr a" "uint n \<le> 128"
  shows "\<exists>k. prefix_key a n = Some k \<and> ma_netbits k = n \<and> ma_type k AND MR_WITH_NETBITS \<noteq> 0 \<and> ma_len k = ma_len a"
proof -
  have "0 \<le> 128 - uint n" "128 - uint n \<le> 8 * (15 + 1)" using assms(2) by simp_all
  from clear_host_bytes_done[OF this, of "ma_raw a"]
  have "snd (clear_host_bytes (ma_raw a) 15 (128 - uint n)) = 0" by blast
  then show ?thesis
    using assms(1) by (auto simp: host_addr_def prefix_key_def mroute_addr_mask_host_bits_def type_consts split: prod.split)
qed

lemma nets_bound:
  assumes "helper_ok (m_route_helper m)" "n \<in> set (nets m)"
  shows "uint n \<le> 128"
proof -
  obtain i where "i < MR_HELPER_NET_LEN" "n = of_nat i" using helper_nets(2)[OF assms(1)] assms(2) by blast
  then have "unat n \<le> 128" using unat_of_nat_small[of i, where 'a = 8] by (simp add: MR_HELPER_NET_LEN_def)
  then have "int (unat n) \<le> int 128" by (simp only: of_nat_le_iff)
  then show ?thesis by simp
qed

section \<open>The internal routes of the open clients\<close>

definition netlist :: "multi_instance \<Rightarrow> int list" where
  "netlist mi = map ir_netbits (mi_iroutes mi) @ map (\<lambda>ir. sint (ir6_netbits ir)) (mi_iroutes_ipv6 mi)"

definition valid_nets :: "multi_instance \<Rightarrow> bool" where
  "valid_nets mi \<longleftrightarrow> mi_tunnel_type mi = DEV_TYPE_TUN
     \<and> (\<forall>ir \<in> set (mi_iroutes mi). 0 \<le> ir_netbits ir \<and> ir_netbits ir \<le> 32)
     \<and> (\<forall>ir \<in> set (mi_iroutes_ipv6 mi). 0 \<le> sint (ir6_netbits ir) \<and> sint (ir6_netbits ir) \<le> 128 \<and> length (ir6_network ir) = 16)"

definition active :: "'z multi_context_scheme \<Rightarrow> nat \<Rightarrow> int list" where
  "active m i = (case m_store m i of Some mi \<Rightarrow> if \<not> mi_halt mi \<and> mi_did_iroutes mi then netlist mi else [] | None \<Rightarrow> [])"

definition total :: "(nat \<Rightarrow> int list) \<Rightarrow> int \<Rightarrow> int" where
  "total f n = (\<Sum>i | f i \<noteq> []. int (count_list (f i) n))"

lemma total_upd:
  assumes "finite {i. f i \<noteq> []}" "f i = []"
  shows "total (f(i := xs)) n = total f n + int (count_list xs n)" "finite {j. (f(i := xs)) j \<noteq> []}"
proof -
  have s: "{j. (f(i := xs)) j \<noteq> []} = (if xs = [] then {j. f j \<noteq> []} else insert i {j. f j \<noteq> []})"
    using assms(2) by auto
  show "finite {j. (f(i := xs)) j \<noteq> []}" unfolding s using assms(1) by simp
  show "total (f(i := xs)) n = total f n + int (count_list xs n)"
  proof (cases "xs = []")
    case True
    then show ?thesis using assms(2) by (simp add: fun_upd_idem)
  next
    case False
    have "(\<Sum>j | f j \<noteq> []. int (count_list ((f(i := xs)) j) n)) = (\<Sum>j | f j \<noteq> []. int (count_list (f j) n))"
      using assms(2) by (intro sum.cong) auto
    then show ?thesis using False assms unfolding total_def s by simp
  qed
qed

lemma frame_active: "frame m m' \<Longrightarrow> active m' = active m"
proof (rule ext)
  fix i assume f: "frame m m'"
  show "active m' i = active m i"
  proof (cases "m_store m' i")
    case None
    then have "\<not> (\<exists>mi. m_store m i = Some mi \<and> \<not> mi_halt mi)" using f unfolding frame_def by blast
    then show ?thesis using None by (auto simp: active_def split: option.split)
  next
    case (Some mi')
    then obtain mi where "m_store m i = Some mi" "same_inst mi mi'" using frame_inst[OF f] by blast
    then show ?thesis using Some same_inst_simps[of mi mi'] by (simp add: active_def netlist_def)
  qed
qed

text \<open>
  The invariant; \<open>due\<close> are the prefix lengths the helper does not have yet while the routes of a
  client are being added.
\<close>

definition net_counts :: "'z multi_context_scheme \<Rightarrow> int list \<Rightarrow> bool" where
  "net_counts m due \<longleftrightarrow> finite {i. active m i \<noteq> []}
     \<and> (\<forall>n < MR_HELPER_NET_LEN. net_len_refcount (m_route_helper m) ! n + int (count_list due (int n))
           = total (active m) (int n))"

definition run_inv_due :: "int list \<Rightarrow> 'z multi_context_scheme \<Rightarrow> bool" where
  "run_inv_due due m \<longleftrightarrow> mem_inv m \<and> helper_ok (m_route_helper m) \<and> net_counts m due
     \<and> (\<forall>i mi. m_store m i = Some mi \<longrightarrow> valid_nets mi)
     \<and> 0 \<le> bucket_base (m_reaper m) \<and> 0 \<le> buckets_per_pass (m_reaper m)"

abbreviation run_inv :: "'z multi_context_scheme \<Rightarrow> bool" where
  "run_inv \<equiv> run_inv_due []"

lemma run_invD:
  assumes "run_inv_due due m"
  shows "mem_inv m" "helper_ok (m_route_helper m)" "net_counts m due" "\<And>i mi. m_store m i = Some mi \<Longrightarrow> valid_nets mi"
    "0 \<le> bucket_base (m_reaper m)" "0 \<le> buckets_per_pass (m_reaper m)"
  using assms by (auto simp: run_inv_due_def)

lemma valid_nets_same: "same_inst mi mi' \<Longrightarrow> valid_nets mi' = valid_nets mi"
  using same_inst_simps[of mi mi'] by (simp add: valid_nets_def)

lemma run_inv_frame:
  assumes "run_inv_due due m" "frame m m'" "mem_inv m'"
  shows "run_inv_due due m'"
proof -
  have "valid_nets mi'" if "m_store m' i = Some mi'" for i mi'
    using frame_inst[OF assms(2) that] run_invD(4)[OF assms(1)] valid_nets_same by blast
  then show ?thesis
    using run_invD[OF assms(1)] assms(3) frame_fields[OF assms(2)] frame_active[OF assms(2)]
    by (simp add: run_inv_due_def net_counts_def)
qed

lemma net_range: "valid_nets mi \<Longrightarrow> n \<in> set (netlist mi) \<Longrightarrow> 0 \<le> n \<and> n < int MR_HELPER_NET_LEN"
  by (auto simp: valid_nets_def netlist_def MR_HELPER_NET_LEN_def)

lemma del_netbits_spec:
  assumes "helper_ok rh" "\<forall>n \<in> set ns. 0 \<le> n \<and> n < int MR_HELPER_NET_LEN"
    and "\<forall>n < MR_HELPER_NET_LEN. int (count_list ns (int n)) \<le> net_len_refcount rh ! n"
  shows "\<exists>rh'. del_netbits ns rh = Some rh' \<and> helper_ok rh' \<and> ageable_ttl_secs rh' = ageable_ttl_secs rh
    \<and> cache_generation rh' = cache_generation rh + of_nat (length ns)
    \<and> (\<forall>n < MR_HELPER_NET_LEN. net_len_refcount rh' ! n = net_len_refcount rh ! n - int (count_list ns (int n)))"
  using assms
proof (induction ns arbitrary: rh)
  case (Cons k ns)
  have k: "0 \<le> k" "k < int MR_HELPER_NET_LEN" "nat k < MR_HELPER_NET_LEN" using Cons.prems(2) by auto
  have "0 < net_len_refcount rh ! nat k" using Cons.prems(3)[rule_format, OF k(3)] k(1) by simp
  from helper_del_spec[OF Cons.prems(1) k(1,2) this] obtain rh' where rh': "mroute_helper_del_iroute46 rh k = Some rh'"
    "helper_ok rh'" "cache_generation rh' = cache_generation rh + 1" "ageable_ttl_secs rh' = ageable_ttl_secs rh"
    "net_len_refcount rh' = (net_len_refcount rh)[nat k := net_len_refcount rh ! nat k - 1]" by blast
  have l: "length (net_len_refcount rh) = MR_HELPER_NET_LEN" using Cons.prems(1) by (simp add: helper_ok_def)
  have at: "net_len_refcount rh' ! n = net_len_refcount rh ! n - (if k = int n then 1 else 0)" if "n < MR_HELPER_NET_LEN" for n
    using that k l unfolding rh'(5) by (auto simp: nth_list_update)
  have "\<forall>n < MR_HELPER_NET_LEN. int (count_list ns (int n)) \<le> net_len_refcount rh' ! n"
    using Cons.prems(3) at by (auto split: if_splits)
  from Cons.IH[OF rh'(2) _ this] Cons.prems(2) obtain rh2 where rh2: "del_netbits ns rh' = Some rh2" "helper_ok rh2"
    "ageable_ttl_secs rh2 = ageable_ttl_secs rh'" "cache_generation rh2 = cache_generation rh' + of_nat (length ns)"
    "\<forall>n < MR_HELPER_NET_LEN. net_len_refcount rh2 ! n = net_len_refcount rh' ! n - int (count_list ns (int n))" by auto
  have "net_len_refcount rh2 ! n = net_len_refcount rh ! n - int (count_list (k # ns) (int n))" if "n < MR_HELPER_NET_LEN" for n
    using rh2(5) at[OF that] that by simp
  then show ?case using rh'(1,3,4) rh2(1-4) by simp
qed simp

lemma del_netbits_append: "del_netbits (xs @ ys) rh = Option.bind (del_netbits xs rh) (del_netbits ys)"
proof (induction xs arbitrary: rh)
  case (Cons x xs)
  then show ?case by (cases "mroute_helper_del_iroute46 rh x") simp_all
qed simp

lemma total_split:
  assumes "finite {i. f i \<noteq> []}"
  shows "total f n = total (f(i := [])) n + int (count_list (f i) n)" "finite {j. (f(i := [])) j \<noteq> []}"
proof -
  show fin: "finite {j. (f(i := [])) j \<noteq> []}" by (rule finite_subset[OF _ assms]) auto
  have "total ((f(i := []))(i := f i)) n = total (f(i := [])) n + int (count_list (f i) n)"
    by (rule total_upd(1)[OF fin]) simp
  then show "total f n = total (f(i := [])) n + int (count_list (f i) n)" by simp
qed

lemma total_nonneg: "0 \<le> total f n"
  by (simp add: total_def sum_nonneg)

section \<open>Closing\<close>

lemma refs_dec:
  assumes "refs m c" "m_store m i = Some mi" "\<not> mi_halt mi"
  shows "refs (m\<lparr>m_store := (m_store m)(i := if c i = 0 then None
      else Some (mi\<lparr>mi_halt := True, mi_did_iroutes := d, mi_refcount := mi_refcount mi - 1\<rparr>)), m_route_helper := rh\<rparr>) c"
  unfolding refs_def
proof
  fix j
  have "ref_ok (m_store m j) (c j)" "ref_ok (m_store m i) (c i)" using assms(1) by (simp_all add: refs_def)
  then show "ref_ok (m_store (m\<lparr>m_store := (m_store m)(i := if c i = 0 then None
      else Some (mi\<lparr>mi_halt := True, mi_did_iroutes := d, mi_refcount := mi_refcount mi - 1\<rparr>)), m_route_helper := rh\<rparr>) j) (c j)"
    using assms(2,3) by (cases "j = i") auto
qed

lemma close_routes_spec:
  assumes inv: "run_inv m" and mi: "m_store m i = Some mi" "\<not> mi_halt mi"
  shows "\<exists>m'. close_routes False i m = Some m' \<and> run_inv m' \<and> m_vhash m' = m_vhash m \<and> m_local m' = m_local m
    \<and> cache_generation (m_route_helper m') = cache_generation (m_route_helper m) + of_nat (length (active m i))
    \<and> ageable_ttl_secs (m_route_helper m') = ageable_ttl_secs (m_route_helper m)
    \<and> m_store m' = (m_store m)(i := if routes_on (hash_bag (m_vhash m)) i = 0 then None
        else Some (mi\<lparr>mi_halt := True, mi_did_iroutes := False, mi_refcount := mi_refcount mi - 1\<rparr>))"
proof -
  note I = run_invD[OF inv] and M = mem_invD[OF run_invD(1)[OF inv]]
  let ?c = "routes_on (hash_bag (m_vhash m)) i" and ?rh = "m_route_helper m"
  have v: "valid_nets mi" using I(4)[OF mi(1)] .
  have tun: "mi_tunnel_type mi = DEV_TYPE_TUN" using v by (simp add: valid_nets_def)
  have ri: "mi_refcount mi = 1 + int ?c" using M(4) mi unfolding refs_def by (metis (full_types) ref_ok_simps(2))
  have fin: "finite {i. active m i \<noteq> []}" and cnt: "\<And>n. n < MR_HELPER_NET_LEN \<Longrightarrow> net_len_refcount ?rh ! n = total (active m) (int n)"
    using I(3) by (simp_all add: net_counts_def)
  define ns where "ns = (if mi_did_iroutes mi then netlist mi else [])"
  have ai: "active m i = ns" using mi by (simp add: active_def ns_def)
  have "\<forall>n < MR_HELPER_NET_LEN. int (count_list ns (int n)) \<le> net_len_refcount ?rh ! n"
    using cnt total_split(1)[OF fin, of _ i] total_nonneg ai by simp
  moreover have "\<forall>n \<in> set ns. 0 \<le> n \<and> n < int MR_HELPER_NET_LEN" using net_range[OF v] by (auto simp: ns_def)
  ultimately obtain rh' where rh': "del_netbits ns ?rh = Some rh'" "helper_ok rh'" "ageable_ttl_secs rh' = ageable_ttl_secs ?rh"
    "cache_generation rh' = cache_generation ?rh + of_nat (length ns)"
    "\<forall>n < MR_HELPER_NET_LEN. net_len_refcount rh' ! n = net_len_refcount ?rh ! n - int (count_list ns (int n))"
    using del_netbits_spec[OF I(2)] by blast
  let ?mi = "mi\<lparr>mi_halt := True, mi_did_iroutes := False, mi_refcount := mi_refcount mi - 1\<rparr>"
  let ?m = "m\<lparr>m_store := (m_store m)(i := if ?c = 0 then None else Some ?mi), m_route_helper := rh'\<rparr>"
  have "close_routes False i m = Some ?m"
  proof (cases "mi_did_iroutes mi")
    case True
    then have "Option.bind (del_netbits (map ir_netbits (mi_iroutes mi)) ?rh) (del_netbits (map (\<lambda>ir. sint (ir6_netbits ir)) (mi_iroutes_ipv6 mi))) = Some rh'"
      using rh'(1) by (simp add: ns_def netlist_def del_netbits_append)
    then obtain rh1 where r1: "del_netbits (map ir_netbits (mi_iroutes mi)) ?rh = Some rh1"
      "del_netbits (map (\<lambda>ir. sint (ir6_netbits ir)) (mi_iroutes_ipv6 mi)) rh1 = Some rh'" by (auto simp: aborts)
    show ?thesis
      using mi True tun r1 ri by (simp add: close_routes_def multi_del_iroutes_def multi_instance_dec_refcount_def)
  next
    case False
    then have "rh' = ?rh" using rh'(1) by (simp add: ns_def)
    then show ?thesis using mi False ri by (cases mi) (simp add: close_routes_def multi_instance_dec_refcount_def)
  qed
  moreover have "run_inv ?m"
  proof -
    have "refs ?m (routes_on (hash_bag (m_vhash m)))" using refs_dec[OF M(4) mi] by simp
    moreover have "mi_route_count mj \<le> max 0 (mi_max_routes_per_client mj)" if "m_store ?m j = Some mj" for j mj
      using that M(6) mi(1) by (auto split: if_splits)
    ultimately have "mem_inv ?m" using M(1) by (simp add: mem_inv_def)
    moreover have "active ?m = (active m)(i := [])" using mi by (auto simp: active_def)
    then have "net_counts ?m []"
      using total_split(1)[OF fin, of _ i] total_split(2)[OF fin, of i] cnt rh'(5) ai by (simp add: net_counts_def)
    moreover have "valid_nets mj" if "m_store ?m j = Some mj" for j mj
      using that I(4) v by (auto simp: valid_nets_def split: if_splits)
    ultimately show ?thesis using rh'(2) using I(5,6) unfolding run_inv_due_def by simp
  qed
  ultimately show ?thesis using rh'(3,4) ai by (intro exI[of _ ?m]) simp
qed

section \<open>The routes of a client\<close>

definition key4 :: "u32 \<Rightarrow> int \<Rightarrow> mroute_addr" where
  "key4 a n = \<lparr>ma_len = 4, ma_type = (if n \<ge> 0 then MR_ADDR_IPV4 OR MR_WITH_NETBITS else MR_ADDR_IPV4),
     ma_netbits = (if n \<ge> 0 then word_of_int n else 0), ma_raw = htonl a @ replicate 16 0\<rparr>"

lemma learn_in_addr_eq:
  assumes "primary \<or> n \<ge> 0"
  shows "multi_learn_in_addr_t now script i a n primary m = multi_learn_addr now script i (key4 a n) 0 m"
proof -
  have "mroute_extract_openvpn_sockaddr mroute_addr_init \<lparr>sa_family = AF_INET, sa_port = 0, sa_word = a, sa_in6 = replicate 16 0\<rparr> False
    = (True, \<lparr>ma_len = 4, ma_type = MR_ADDR_IPV4, ma_netbits = 0, ma_raw = htonl a @ replicate 16 0\<rparr>)"
    by (simp add: mroute_extract_openvpn_sockaddr_def mroute_addr_init_def poke_def MR_MAX_ADDR_LEN_def eval_nat_numeral)
  then show ?thesis using assms
    by (cases "multi_learn_addr now script i (key4 a n) 0 m") (auto simp: multi_learn_in_addr_t_def key4_def)
qed

definition host6 :: "bytes \<Rightarrow> mroute_addr" where
  "host6 a = \<lparr>ma_len = 16, ma_type = MR_ADDR_IPV6, ma_netbits = 0, ma_raw = a @ replicate 4 0\<rparr>"

definition key6 :: "bytes \<Rightarrow> int \<Rightarrow> mroute_addr" where
  "key6 a n = (if n \<ge> 0 then the (prefix_key (host6 a) (word_of_int n)) else host6 a)"

lemma uint_netbits: "0 \<le> n \<Longrightarrow> n \<le> 128 \<Longrightarrow> uint (word_of_int n :: u8) = n"
  by (simp add: uint_word_of_int)

lemma key6_spec:
  assumes "0 \<le> n" "n \<le> 128"
  shows "prefix_key (host6 a) (word_of_int n) = Some (key6 a n)" "uint (ma_netbits (key6 a n)) = n" "ma_type (key6 a n) AND MR_WITH_NETBITS \<noteq> 0"
    "n \<le> 8 * uint (ma_len (key6 a n))"
proof -
  have "host_addr (host6 a)" by (simp add: host_addr_def host6_def)
  from prefix_key_spec[OF this, of "word_of_int n"] obtain k where "prefix_key (host6 a) (word_of_int n) = Some k"
    "ma_netbits k = word_of_int n" "ma_type k AND MR_WITH_NETBITS \<noteq> 0" "ma_len k = 16"
    using assms uint_netbits[OF assms] by (auto simp: host6_def)
  then show "prefix_key (host6 a) (word_of_int n) = Some (key6 a n)" "uint (ma_netbits (key6 a n)) = n" "ma_type (key6 a n) AND MR_WITH_NETBITS \<noteq> 0"
    "n \<le> 8 * uint (ma_len (key6 a n))"
    using assms uint_netbits[OF assms] by (simp_all add: key6_def)
qed

lemma key4_spec:
  assumes "0 \<le> n" "n \<le> 32"
  shows "uint (ma_netbits (key4 a n)) = n" "ma_type (key4 a n) AND MR_WITH_NETBITS \<noteq> 0" "n \<le> 8 * uint (ma_len (key4 a n))"
  using assms uint_netbits[of n] by (simp_all add: key4_def type_consts)

lemma learn_in6_eq:
  assumes "primary \<or> n \<ge> 0" "n \<le> 128"
  shows "multi_learn_in6_addr now script i a n primary m = multi_learn_addr now script i (key6 a n) 0 m"
proof (cases "n \<ge> 0")
  case True
  have "(\<lparr>ma_len = 16, ma_type = MR_ADDR_IPV6, ma_netbits = 0, ma_raw = a @ replicate 4 0\<rparr> :: mroute_addr)
    \<lparr>ma_type := MR_ADDR_IPV6 OR MR_WITH_NETBITS, ma_netbits := word_of_int n\<rparr>
    = (host6 a)\<lparr>ma_type := ma_type (host6 a) OR MR_WITH_NETBITS, ma_netbits := word_of_int n\<rparr>" by (simp add: host6_def)
  then show ?thesis using True key6_spec(1)[OF True assms(2), of a]
    by (cases "multi_learn_addr now script i (key6 a n) 0 m") (auto simp: multi_learn_in6_addr_def prefix_key_def)
next
  case False
  then show ?thesis using assms
    by (cases "multi_learn_addr now script i (key6 a n) 0 m") (auto simp: multi_learn_in6_addr_def key6_def host6_def)
qed

text \<open>An induction over the internal routes of a client, one helper update and one learnt prefix at a time.\<close>

lemma add_iroutes4_inv:
  assumes step: "\<And>k n ns m. Q (n # ns) m \<Longrightarrow> 0 \<le> n \<Longrightarrow> n \<le> 128 \<Longrightarrow> uint (ma_netbits k) = n \<Longrightarrow> ma_type k AND MR_WITH_NETBITS \<noteq> 0
      \<Longrightarrow> n \<le> 8 * uint (ma_len k) \<Longrightarrow> \<exists>rh m' owner. mroute_helper_add_iroute46 (m_route_helper m) n = Some rh
        \<and> multi_learn_addr now script i k 0 (m\<lparr>m_route_helper := rh\<rparr>) = Some (m', owner) \<and> Q ns m'"
    and "Q (map ir_netbits irs @ ns) m" "\<forall>ir \<in> set irs. 0 \<le> ir_netbits ir \<and> ir_netbits ir \<le> 32"
  shows "\<exists>m'. add_iroutes4 now script i irs m = Some m' \<and> Q ns m'"
  using assms(2,3)
proof (induction irs arbitrary: m)
  case (Cons ir irs)
  have n: "0 \<le> ir_netbits ir" "ir_netbits ir \<le> 32" "ir_netbits ir \<le> 128" using Cons.prems(2) by auto
  from step[of "ir_netbits ir" "map ir_netbits irs @ ns" m "key4 (ir_network ir) (ir_netbits ir)", OF _ n(1,3) key4_spec[OF n(1,2)]]
    Cons.prems(1) obtain rh m' owner where s: "mroute_helper_add_iroute46 (m_route_helper m) (ir_netbits ir) = Some rh"
    "multi_learn_addr now script i (key4 (ir_network ir) (ir_netbits ir)) 0 (m\<lparr>m_route_helper := rh\<rparr>) = Some (m', owner)"
    "Q (map ir_netbits irs @ ns) m'" by auto
  then show ?case using Cons.IH[OF s(3)] Cons.prems(2) n(1) by (simp add: learn_in_addr_eq)
qed simp

lemma add_iroutes6_inv:
  assumes step: "\<And>k n ns m. Q (n # ns) m \<Longrightarrow> 0 \<le> n \<Longrightarrow> n \<le> 128 \<Longrightarrow> uint (ma_netbits k) = n \<Longrightarrow> ma_type k AND MR_WITH_NETBITS \<noteq> 0
      \<Longrightarrow> n \<le> 8 * uint (ma_len k) \<Longrightarrow> \<exists>rh m' owner. mroute_helper_add_iroute46 (m_route_helper m) n = Some rh
        \<and> multi_learn_addr now script i k 0 (m\<lparr>m_route_helper := rh\<rparr>) = Some (m', owner) \<and> Q ns m'"
    and "Q (map (\<lambda>ir. sint (ir6_netbits ir)) irs @ ns) m" "\<forall>ir \<in> set irs. 0 \<le> sint (ir6_netbits ir) \<and> sint (ir6_netbits ir) \<le> 128"
  shows "\<exists>m'. add_iroutes6 now script i irs m = Some m' \<and> Q ns m'"
  using assms(2,3)
proof (induction irs arbitrary: m)
  case (Cons ir irs)
  let ?n = "sint (ir6_netbits ir)"
  have n: "0 \<le> ?n" "?n \<le> 128" using Cons.prems(2) by auto
  from step[of ?n "map (\<lambda>ir. sint (ir6_netbits ir)) irs @ ns" m "key6 (ir6_network ir) ?n", OF _ n key6_spec(2-4)[OF n]]
    Cons.prems(1) obtain rh m' owner where s: "mroute_helper_add_iroute46 (m_route_helper m) ?n = Some rh"
    "multi_learn_addr now script i (key6 (ir6_network ir) ?n) 0 (m\<lparr>m_route_helper := rh\<rparr>) = Some (m', owner)"
    "Q (map (\<lambda>ir. sint (ir6_netbits ir)) irs @ ns) m'" by auto
  then show ?case using Cons.IH[OF s(3)] Cons.prems(2) n by (simp add: learn_in6_eq)
qed simp

end
