(* ===== verification/Mroute_Mask.thy ===== *)
theory Mroute_Mask
  imports Multi_Route_Run
begin

text \<open>What masking the host bits of an address does to each of its bits, and the prefixes that contain an address.\<close>

text \<open>Bit \<open>i\<close> of an address, counted from its most significant bit.\<close>

definition addr_bit :: "mroute_addr \<Rightarrow> nat \<Rightarrow> bool" where
  "addr_bit a i = bit (ma_raw a ! (i div 8)) (7 - i mod 8)"

lemma all_ones32: "(0xffffffff :: u32) = - 1"
  by simp

lemma bit_htonl:
  assumes "i < 4" "j < 8"
  shows "bit (htonl w ! i) (7 - j) = bit w (31 - (8 * i + j))"
proof -
  have "i = 0 \<or> i = 1 \<or> i = 2 \<or> i = 3" using assms(1) by auto
  then show ?thesis using assms(2)
    by (elim disjE) (auto simp: htonl_def bit_simps)
qed

lemma bit_netmask:
  assumes "0 \<le> n" "n \<le> 32" "m < 32"
  shows "bit (netbits_to_netmask n) m \<longleftrightarrow> 32 - nat n \<le> m"
  using assms by (auto simp: netbits_to_netmask_def all_ones32 bit_simps nat_diff_distrib)

lemma bit_clear_byte:
  assumes "j < 8"
  shows "bit (x AND ucast (push_bit n (0xffffffff :: u32)) :: u8) (7 - j) \<longleftrightarrow> bit x (7 - j) \<and> n \<le> 7 - j"
  unfolding all_ones32 using assms by (auto simp: bit_simps)

lemma clear_host_bytes_bits:
  assumes "0 \<le> n" "n \<le> 8 * (byte + 1)" "byte < int (length a)" "i < length a" "j < 8"
  shows "bit (fst (clear_host_bytes a byte n) ! i) (7 - j)
    \<longleftrightarrow> bit (a ! i) (7 - j) \<and> (int i \<le> byte \<longrightarrow> 8 * int i + int j < 8 * (byte + 1) - n)"
  using assms
proof (induction a byte n rule: clear_host_bytes.induct)
  case (1 a byte n)
  show ?case
  proof (cases "byte \<ge> 0 \<and> n > 0")
    case False
    have "clear_host_bytes a byte n = (a, n)" by (subst clear_host_bytes.simps) (use False in auto)
    then show ?thesis using False 1(3-7) by auto
  next
    case True
    show ?thesis
    proof (cases "n \<ge> 8")
      case c: True
      have e: "clear_host_bytes a byte n = clear_host_bytes (a[nat byte := 0]) (byte - 1) (n - 8)"
        using True c by (subst clear_host_bytes.simps) simp
      have "bit (fst (clear_host_bytes (a[nat byte := 0]) (byte - 1) (n - 8)) ! i) (7 - j)
        \<longleftrightarrow> bit (a[nat byte := 0] ! i) (7 - j) \<and> (int i \<le> byte - 1 \<longrightarrow> 8 * int i + int j < 8 * (byte - 1 + 1) - (n - 8))"
        by (rule 1(1)[OF True c]) (use 1(3-7) c in auto)
      then show ?thesis unfolding e using True c 1(4-7) by (cases "i = nat byte") (auto simp: nth_list_update)
    next
      case c: False
      let ?v = "a ! nat byte AND ucast (push_bit (nat n) (0xffffffff :: u32))"
      have e: "clear_host_bytes a byte n = clear_host_bytes (a[nat byte := ?v]) (byte - 1) 0"
        using True c by (subst clear_host_bytes.simps) simp
      have "bit (fst (clear_host_bytes (a[nat byte := ?v]) (byte - 1) 0) ! i) (7 - j)
        \<longleftrightarrow> bit (a[nat byte := ?v] ! i) (7 - j) \<and> (int i \<le> byte - 1 \<longrightarrow> 8 * int i + int j < 8 * (byte - 1 + 1) - 0)"
        by (rule 1(2)[OF True c]) (use True 1(3-7) in auto)
      then show ?thesis unfolding e using True c 1(4-7) bit_clear_byte[OF 1(7), of "a ! nat byte" "nat n"]
        by (cases "i = nat byte") (auto simp: nth_list_update)
    qed
  qed
qed

lemma mask_host_bits:
  assumes "host_addr a" "length (ma_raw a) = MR_MAX_ADDR_LEN" "uint n \<le> 8 * uint (ma_len a)"
  shows "\<exists>k. mroute_addr_mask_host_bits (a\<lparr>ma_type := ma_type a OR MR_WITH_NETBITS, ma_netbits := n\<rparr>) = Some k
    \<and> ma_type k = ma_type a OR MR_WITH_NETBITS \<and> ma_netbits k = n \<and> ma_len k = ma_len a
    \<and> (\<forall>i < 8 * unat (ma_len a). addr_bit k i \<longleftrightarrow> addr_bit a i \<and> i < unat n)"
  using assms(1) unfolding host_addr_def
proof (elim disjE conjE)
  assume t: "ma_type a = MR_ADDR_IPV4" "ma_len a = 4"
  let ?m = "netbits_to_netmask (uint n)" and ?w = "ntohl (take 4 (ma_raw a))"
  let ?k = "a\<lparr>ma_type := ma_type a OR MR_WITH_NETBITS, ma_netbits := n, ma_raw := poke (ma_raw a) 0 (htonl (?w AND ?m))\<rparr>"
  have n: "0 \<le> uint n" "uint n \<le> 32" using assms(3) t(2) by simp_all
  have l: "length (take 4 (ma_raw a)) = 4" using assms(2) by (simp add: MR_MAX_ADDR_LEN_def)
  have "addr_bit ?k i \<longleftrightarrow> addr_bit a i \<and> i < unat n" if i: "i < 32" for i
  proof -
    have d: "i div 8 < 4" "i mod 8 < 8" "8 * (i div 8) + i mod 8 = i" using i by auto
    have "addr_bit ?k i = bit (htonl (?w AND ?m) ! (i div 8)) (7 - i mod 8)"
      using d(1) by (simp add: addr_bit_def poke_def nth_append)
    also have "\<dots> = (bit ?w (31 - i) \<and> bit ?m (31 - i))"
      unfolding bit_htonl[OF d(1,2)] d(3) by (simp add: bit_and_iff)
    also have "bit ?w (31 - i) = bit (htonl ?w ! (i div 8)) (7 - i mod 8)"
      unfolding bit_htonl[OF d(1,2)] d(3) ..
    also have "\<dots> = addr_bit a i" unfolding htonl_ntohl[OF l] using d(1) by (simp add: addr_bit_def)
    finally show ?thesis using bit_netmask[OF n, of "31 - i"] i n(2) by (auto simp: nat_le_iff)
  qed
  then show ?thesis using t
    by (intro exI[of _ ?k]) (simp add: mroute_addr_mask_host_bits_def type_consts)
next
  assume t: "ma_type a = MR_ADDR_IPV6" "ma_len a = 16"
  obtain ra z where c: "clear_host_bytes (ma_raw a) 15 (128 - uint n) = (ra, z)" by (cases "clear_host_bytes (ma_raw a) 15 (128 - uint n)")
  have b: "0 \<le> 128 - uint n" "128 - uint n \<le> 8 * (15 + 1)" using assms(3) t(2) by simp_all
  have z: "z = 0" using clear_host_bytes_done[OF b, of "ma_raw a"] c by simp
  let ?k = "a\<lparr>ma_type := ma_type a OR MR_WITH_NETBITS, ma_netbits := n, ma_raw := ra\<rparr>"
  have "addr_bit ?k i \<longleftrightarrow> addr_bit a i \<and> i < unat n" if i: "i < 128" for i
  proof -
    have d: "i div 8 < length (ma_raw a)" "(15 :: int) < int (length (ma_raw a))" "i mod 8 < 8"
      using i assms(2) by (auto simp: MR_MAX_ADDR_LEN_def)
    have m: "int (i div 8) \<le> 15" using i by auto
    have "8 * (i div 8) + i mod 8 = i" by simp
    then have m2: "8 * int (i div 8) + int (i mod 8) = int i" by linarith
    have "(int i < uint n) = (i < unat n)" by (metis of_nat_less_iff uint_nat)
    then show ?thesis
      using clear_host_bytes_bits[OF b d(2,1,3)] c m m2 by (simp add: addr_bit_def)
  qed
  then show ?thesis using t c z type_consts(7)[symmetric]
    by (intro exI[of _ ?k]) (simp add: mroute_addr_mask_host_bits_def type_consts)
qed

text \<open>
  C19. Masking the host bits of an address is exact. For an IPv4 address and a prefix length up to 32,
  and for an IPv6 address and a prefix length up to 128, the key of the prefix has the type with
  the flag for a prefix, the prefix length, and those bits of the address that are inside the
  prefix, from the most significant one; all others are zero.
\<close>

theorem prefix_key_bits:
  assumes "host_addr a" "length (ma_raw a) = MR_MAX_ADDR_LEN" "uint n \<le> 8 * uint (ma_len a)"
  shows "\<exists>k. mroute_addr_mask_host_bits (a\<lparr>ma_type := ma_type a OR MR_WITH_NETBITS, ma_netbits := n\<rparr>) = Some k
    \<and> ma_type k = ma_type a OR MR_WITH_NETBITS \<and> ma_netbits k = n \<and> ma_len k = ma_len a
    \<and> (\<forall>i < 8 * unat (ma_len a). addr_bit k i \<longleftrightarrow> addr_bit a i \<and> i < unat n)"
  using assms by (rule mask_host_bits)

lemma prefix_key_bits_witness:
  "\<exists>k. mroute_addr_mask_host_bits ((host6 [1, 2, 3, 4, 5, 6, 7, 255, 9, 10, 11, 12, 13, 14, 15, 16])
      \<lparr>ma_type := MR_ADDR_IPV6 OR MR_WITH_NETBITS, ma_netbits := 60\<rparr>) = Some k \<and> addr_bit k 59 \<and> \<not> addr_bit k 60"
proof -
  let ?a = "host6 [1, 2, 3, 4, 5, 6, 7, 255, 9, 10, 11, 12, 13, 14, 15, 16]"
  have "addr_bit ?a 59" by code_simp
  then show ?thesis
    using prefix_key_bits[of ?a 60] by (auto simp: host_addr_def host6_def MR_MAX_ADDR_LEN_def)
qed

section \<open>The prefixes of an address\<close>

text \<open>
  The key \<open>k\<close> of a prefix contains the address \<open>a\<close>: inside the prefix its bits are those of the
  address, and its host bits are zero.
\<close>

definition prefix_of :: "mroute_addr \<Rightarrow> mroute_addr \<Rightarrow> bool" where
  "prefix_of k a \<longleftrightarrow> ma_type k = ma_type a OR MR_WITH_NETBITS \<and> ma_len k = ma_len a
     \<and> length (ma_raw k) = MR_MAX_ADDR_LEN \<and> uint (ma_netbits k) \<le> 8 * uint (ma_len a)
     \<and> (\<forall>i < 8 * unat (ma_len a). addr_bit k i \<longleftrightarrow> i < unat (ma_netbits k) \<and> addr_bit a i)"

lemma addr_bits_eq:
  assumes "n \<le> length (ma_raw a)" "n \<le> length (ma_raw b)" "\<And>i. i < 8 * n \<Longrightarrow> addr_bit a i = addr_bit b i"
  shows "take n (ma_raw a) = take n (ma_raw b)"
proof (rule nth_equalityI)
  fix j assume "j < length (take n (ma_raw a))"
  then have j: "j < n" by simp
  have "bit (ma_raw a ! j) c = bit (ma_raw b ! j) c" if c: "c < 8" for c
  proof -
    have "8 * j + (7 - c) < 8 * n" using j c by linarith
    moreover have "(8 * j + (7 - c)) div 8 = j" "(8 * j + (7 - c)) mod 8 = 7 - c" by (auto simp: div_nat_eqI)
    ultimately show ?thesis using assms(3)[of "8 * j + (7 - c)"] c by (simp add: addr_bit_def)
  qed
  then have "ma_raw a ! j = ma_raw b ! j" by (intro bit_word_eqI) simp
  then show "take n (ma_raw a) ! j = take n (ma_raw b) ! j" using j by simp
qed (use assms in simp)

lemma prefix_key_length:
  assumes "host_addr a" "length (ma_raw a) = MR_MAX_ADDR_LEN" "uint n \<le> 128" "prefix_key a n = Some k"
  shows "length (ma_raw k) = MR_MAX_ADDR_LEN"
proof -
  have "0 \<le> 128 - uint n" "128 - uint n \<le> 8 * (15 + 1)" using assms(3) by simp_all
  from clear_host_bytes_done[OF this, of "ma_raw a"]
  have "length (fst (clear_host_bytes (ma_raw a) 15 (128 - uint n))) = length (ma_raw a)" by blast
  then show ?thesis using assms
    by (auto simp: host_addr_def prefix_key_def mroute_addr_mask_host_bits_def type_consts MR_MAX_ADDR_LEN_def poke_def
        aborts split: prod.splits if_splits)
qed

lemma prefix_of_key:
  assumes "host_addr a" "length (ma_raw a) = MR_MAX_ADDR_LEN" "uint n \<le> 8 * uint (ma_len a)"
  shows "prefix_of (the (prefix_key a n)) a"
    "prefix_of k a \<Longrightarrow> ma_netbits k = n \<Longrightarrow> mroute_addr_equal k (the (prefix_key a n))"
proof -
  obtain k0 where k0: "prefix_key a n = Some k0" "ma_type k0 = ma_type a OR MR_WITH_NETBITS" "ma_netbits k0 = n"
    "ma_len k0 = ma_len a" "\<forall>i < 8 * unat (ma_len a). addr_bit k0 i \<longleftrightarrow> addr_bit a i \<and> i < unat n"
    using mask_host_bits[OF assms] unfolding prefix_key_def by blast
  have "uint n \<le> 128" using assms(1,3) by (auto simp: host_addr_def)
  note l = prefix_key_length[OF assms(1,2) this k0(1)]
  show "prefix_of (the (prefix_key a n)) a" using k0 l assms(3) by (auto simp: prefix_of_def)
  assume k: "prefix_of k a" "ma_netbits k = n"
  have len: "unat (ma_len a) \<le> MR_MAX_ADDR_LEN" using assms(1) by (auto simp: host_addr_def MR_MAX_ADDR_LEN_def)
  have "take (unat (ma_len a)) (ma_raw k) = take (unat (ma_len a)) (ma_raw k0)"
    using k k0(5) l len by (intro addr_bits_eq) (auto simp: prefix_of_def)
  then show "mroute_addr_equal k (the (prefix_key a n))"
    using k k0 by (simp add: mroute_addr_equal_def prefix_of_def)
qed

end
