(* ===== verification/Multi_Route_Lpm.thy ===== *)
theory Multi_Route_Lpm
  imports Multi_Route_Run
begin

text \<open>
  Longest prefix match: the reference function of the lookup, which looks at the permanent routes
  only and tries every prefix length, and the invariant that makes the cached host routes agree
  with it.
\<close>

section \<open>The reference\<close>

definition open_inst :: "'z multi_context_scheme \<Rightarrow> nat \<Rightarrow> bool" where
  "open_inst m i \<longleftrightarrow> (\<exists>mi. m_store m i = Some mi \<and> \<not> mi_halt mi)"

text \<open>The client that owns a permanent route with this key.\<close>

definition perm_owner :: "'z multi_context_scheme \<Rightarrow> mroute_addr \<Rightarrow> nat option" where
  "perm_owner m k = (case hash_map (m_vhash m) k of
       None \<Rightarrow> None
     | Some r \<Rightarrow> if mr_flags r = 0 \<and> open_inst m (mr_instance r) then Some (mr_instance r) else None)"

fun first_owner :: "('n \<Rightarrow> nat option) \<Rightarrow> 'n list \<Rightarrow> nat option" where
  "first_owner f [] = None"
| "first_owner f (n # ns) = (case f n of Some i \<Rightarrow> Some i | None \<Rightarrow> first_owner f ns)"

text \<open>The owner of the longest prefix that contains the address, over all lengths from 128 to 0.\<close>

definition longest_prefix_owner :: "'z multi_context_scheme \<Rightarrow> mroute_addr \<Rightarrow> nat option" where
  "longest_prefix_owner m addr =
     first_owner (\<lambda>n. perm_owner m (the (prefix_key addr (of_nat n)))) (rev [0..<MR_HELPER_NET_LEN])"

definition route_owner :: "'z multi_context_scheme \<Rightarrow> mroute_addr \<Rightarrow> nat option" where
  "route_owner m addr =
     (if mroute_addr_equal addr (m_local m) then None
      else case perm_owner m addr of Some i \<Rightarrow> Some i | None \<Rightarrow> longest_prefix_owner m addr)"

lemma first_owner_cong: "(\<And>n. n \<in> set ns \<Longrightarrow> f n = g n) \<Longrightarrow> first_owner f ns = first_owner g ns"
  by (induction ns) (auto split: option.split)

lemma first_owner_filter: "(\<And>n. n \<in> set ns \<Longrightarrow> \<not> P n \<Longrightarrow> f n = None) \<Longrightarrow> first_owner f (filter P ns) = first_owner f ns"
  by (induction ns) (auto split: option.split)

lemma first_owner_map: "first_owner f (map g ns) = first_owner (f \<circ> g) ns"
  by (induction ns) (auto split: option.split)

text \<open>When owners disappear, the first owner stays if it does not.\<close>

lemma first_owner_shrink:
  "first_owner f ns = Some i \<Longrightarrow> (\<And>n. n \<in> set ns \<Longrightarrow> f n = Some i \<Longrightarrow> g n = Some i)
    \<Longrightarrow> (\<And>n. n \<in> set ns \<Longrightarrow> f n = None \<Longrightarrow> g n = None) \<Longrightarrow> first_owner g ns = Some i"
  by (induction ns) (auto split: option.splits)

lemma net_owner_first: "net_owner now m addr ns = first_owner (\<lambda>n. exact_owner now m (the (prefix_key addr n))) ns"
  by (induction ns) (auto split: option.split)

section \<open>The invariant\<close>

abbreviation CACHED :: u32 where "CACHED \<equiv> MULTI_ROUTE_CACHE OR MULTI_ROUTE_AGEABLE"

abbreviation generation :: "'z multi_context_scheme \<Rightarrow> u32" where
  "generation m \<equiv> cache_generation (m_route_helper m)"

text \<open>Permanent routes and cached ones; what a cached route may say.\<close>

definition kind_ok :: "'z multi_context_scheme \<Rightarrow> multi_route \<Rightarrow> bool" where
  "kind_ok m r \<longleftrightarrow> mr_flags r = 0
     \<or> mr_flags r = CACHED \<and> mr_cache_generation r \<le> generation m \<and> host_addr (mr_addr r) \<and> \<not> mroute_addr_equal (mr_addr r) (m_local m)"

definition net_ok :: "'z multi_context_scheme \<Rightarrow> multi_route \<Rightarrow> bool" where
  "net_ok m r \<longleftrightarrow> (mr_flags r = 0 \<and> ma_type (mr_addr r) AND MR_WITH_NETBITS \<noteq> 0 \<longrightarrow>
     uint (ma_netbits (mr_addr r)) \<le> 8 * uint (ma_len (mr_addr r)) \<and>
     (\<forall>mi. m_store m (mr_instance r) = Some mi \<longrightarrow> mi_halt mi \<or> mi_did_iroutes mi \<and> uint (ma_netbits (mr_addr r)) \<in> set (netlist mi)))"

definition coherent :: "'z multi_context_scheme \<Rightarrow> multi_route \<Rightarrow> bool" where
  "coherent m r \<longleftrightarrow> (mr_flags r = CACHED \<and> mr_cache_generation r = generation m \<and> open_inst m (mr_instance r)
     \<longrightarrow> longest_prefix_owner m (mr_addr r) = Some (mr_instance r))"

definition lpm_inv :: "'z multi_context_scheme \<Rightarrow> bool" where
  "lpm_inv m \<longleftrightarrow> (\<forall>k r. hash_map (m_vhash m) k = Some r \<longrightarrow> kind_ok m r \<and> net_ok m r \<and> coherent m r)"

lemma lpm_invD:
  assumes "lpm_inv m" "hash_map (m_vhash m) k = Some r"
  shows "kind_ok m r" "net_ok m r" "coherent m r"
  using assms by (auto simp: lpm_inv_def)

lemma flag_consts: "CACHED \<noteq> 0" "CACHED AND MULTI_ROUTE_CACHE \<noteq> 0" "CACHED AND MULTI_ROUTE_AGEABLE \<noteq> 0" "(0 :: u32) AND x = 0"
  by (simp_all add: MULTI_ROUTE_CACHE_def MULTI_ROUTE_AGEABLE_def)

lemma host_no_net: "host_addr a \<Longrightarrow> ma_type a AND MR_WITH_NETBITS = 0"
  by (auto simp: host_addr_def type_consts)

lemma addr_eq_type: "addr_eq a b \<Longrightarrow> ma_type a = ma_type b" "addr_eq a b \<Longrightarrow> ma_netbits a = ma_netbits b"
  by (simp_all add: addr_eq_iff)

lemma prefix_key_at:
  assumes "host_addr a" "n < MR_HELPER_NET_LEN"
  shows "prefix_key a (of_nat n) = Some (the (prefix_key a (of_nat n)))" "ma_netbits (the (prefix_key a (of_nat n))) = of_nat n"
    "ma_type (the (prefix_key a (of_nat n))) AND MR_WITH_NETBITS \<noteq> 0" "uint (of_nat n :: u8) = int n"
proof -
  have u: "unat (of_nat n :: u8) = n" using assms(2) by (intro unat_of_nat_small) (simp add: MR_HELPER_NET_LEN_def)
  then have "uint (of_nat n :: u8) = int n" by (metis uint_nat)
  moreover then have "uint (of_nat n :: u8) \<le> 128" using assms(2) by (simp add: MR_HELPER_NET_LEN_def)
  ultimately show "prefix_key a (of_nat n) = Some (the (prefix_key a (of_nat n)))" "ma_netbits (the (prefix_key a (of_nat n))) = of_nat n"
    "ma_type (the (prefix_key a (of_nat n))) AND MR_WITH_NETBITS \<noteq> 0" "uint (of_nat n :: u8) = int n"
    using prefix_key_spec[OF assms(1), of "of_nat n"] by auto
qed

text \<open>Only permanent routes have prefixes, so their owner does not depend on the time.\<close>

lemma exact_perm_net:
  assumes "lpm_inv m" "mem_inv m" "ma_type k AND MR_WITH_NETBITS \<noteq> 0"
  shows "exact_owner now m k = perm_owner m k"
proof (cases "hash_map (m_vhash m) k")
  case (Some r)
  have "ma_type (mr_addr r) = ma_type k" using addr_eq_type(1)[OF map_store(2)[OF assms(2) Some]] by simp
  then have "\<not> host_addr (mr_addr r)" using host_no_net[of "mr_addr r"] assms(3) by auto
  then have f: "mr_flags r = 0" using lpm_invD(1)[OF assms(1) Some] by (simp add: kind_ok_def)
  obtain mi where mi: "m_store m (mr_instance r) = Some mi" using map_store(1)[OF assms(2) Some] by blast
  then have "in_force now m r = (\<not> mi_halt mi)" using f by (simp add: in_force_def multi_route_defined_def)
  then show ?thesis using Some mi f by (simp add: exact_owner_def perm_owner_def open_inst_def)
qed (simp add: exact_owner_def perm_owner_def)

text \<open>The prefix lengths of the helper suffice.\<close>

lemma net_owner_longest:
  assumes "run_inv m" "lpm_inv m" "host_addr addr"
  shows "net_owner now m addr (nets m) = longest_prefix_owner m addr"
proof -
  note I = run_invD[OF assms(1)]
  let ?rc = "net_len_refcount (m_route_helper m)"
  let ?f = "\<lambda>n. perm_owner m (the (prefix_key addr (of_nat n)))"
  have none: "?f n = None" if n: "n < MR_HELPER_NET_LEN" "\<not> ?rc ! n > 0" for n
  proof (rule ccontr)
    let ?k = "the (prefix_key addr (of_nat n))"
    assume "?f n \<noteq> None"
    then obtain r where r: "hash_map (m_vhash m) ?k = Some r" "mr_flags r = 0" "open_inst m (mr_instance r)"
      by (auto simp: perm_owner_def split: option.splits if_splits)
    have e: "addr_eq ?k (mr_addr r)" using map_store(2)[OF I(1) r(1)] .
    note pk = prefix_key_at[OF assms(3) n(1)]
    have t: "ma_type (mr_addr r) AND MR_WITH_NETBITS \<noteq> 0" "uint (ma_netbits (mr_addr r)) = int n"
      using addr_eq_type[OF e] pk by auto
    obtain mi where mi: "m_store m (mr_instance r) = Some mi" "\<not> mi_halt mi" using r(3) by (auto simp: open_inst_def)
    have "mi_did_iroutes mi" "int n \<in> set (netlist mi)"
      using lpm_invD(2)[OF assms(2) r(1)] r(2) t mi by (auto simp: net_ok_def)
    then have a: "active m (mr_instance r) = netlist mi" "0 < count_list (netlist mi) (int n)"
      using mi count_list_0_iff[of "netlist mi" "int n"] by (auto simp: active_def)
    have fin: "finite {i. active m i \<noteq> []}" and "?rc ! n = total (active m) (int n)"
      using I(3) n(1) by (simp_all add: net_counts_def)
    then show False using n(2) total_split(1)[OF fin, of "int n" "mr_instance r"] total_nonneg a by (smt (verit) of_nat_0_less_iff)
  qed
  have "net_owner now m addr (nets m) = first_owner (\<lambda>n. exact_owner now m (the (prefix_key addr (of_nat n))))
      (filter (\<lambda>i. ?rc ! i > 0) (rev [0..<MR_HELPER_NET_LEN]))"
    unfolding net_owner_first helper_nets(1)[OF I(2)] used_lengths_def first_owner_map o_def ..
  also have "\<dots> = first_owner ?f (filter (\<lambda>i. ?rc ! i > 0) (rev [0..<MR_HELPER_NET_LEN]))"
    by (rule first_owner_cong) (use exact_perm_net[OF assms(2) I(1)] prefix_key_at(3)[OF assms(3)] in auto)
  also have "\<dots> = longest_prefix_owner m addr"
    unfolding longest_prefix_owner_def by (rule first_owner_filter) (use none in auto)
  finally show ?thesis .
qed

section \<open>What the operations do to the reference\<close>

lemma frame_open_inst: "frame m m' \<Longrightarrow> open_inst m' i = open_inst m i"
  unfolding open_inst_def by (metis frame_inst frame_open same_inst_simps(1))

lemma longest_cong:
  assumes "\<And>n. n < MR_HELPER_NET_LEN \<Longrightarrow> perm_owner m' (the (prefix_key a (of_nat n))) = perm_owner m (the (prefix_key a (of_nat n)))"
  shows "longest_prefix_owner m' a = longest_prefix_owner m a"
  unfolding longest_prefix_owner_def by (rule first_owner_cong) (use assms in auto)

lemma net_ok_frame:
  assumes "frame m m'" "net_ok m s"
  shows "net_ok m' s"
  unfolding net_ok_def
proof (intro impI conjI allI)
  assume "mr_flags s = 0 \<and> ma_type (mr_addr s) AND MR_WITH_NETBITS \<noteq> 0"
  then show "uint (ma_netbits (mr_addr s)) \<le> 8 * uint (ma_len (mr_addr s))" using assms(2) by (simp add: net_ok_def)
next
  fix mi' assume s: "mr_flags s = 0 \<and> ma_type (mr_addr s) AND MR_WITH_NETBITS \<noteq> 0" "m_store m' (mr_instance s) = Some mi'"
  obtain mi where mi: "m_store m (mr_instance s) = Some mi" "same_inst mi mi'" using frame_inst[OF assms(1) s(2)] by blast
  then show "mi_halt mi' \<or> mi_did_iroutes mi' \<and> uint (ma_netbits (mr_addr s)) \<in> set (netlist mi')"
    using assms(2) s(1) same_inst_simps[OF mi(2)] by (auto simp: net_ok_def netlist_def)
qed

text \<open>A step that keeps the instances and changes the route of one host address only.\<close>

lemma lpm_inv_host_update:
  assumes "lpm_inv m" "frame m m'" "mem_inv m'" "learnt_as a r m m'" "host_addr a" "mr_addr r = a"
    and "kind_ok m r" "coherent m r" 
  shows "lpm_inv m'" "\<And>b. host_addr b \<Longrightarrow> longest_prefix_owner m' b = longest_prefix_owner m b"
proof -
  have mp: "hash_map (m_vhash m') k = (if addr_eq a k then Some r else hash_map (m_vhash m) k)" for k
    using assms(4) by (simp add: learnt_as_def)
  show l: "longest_prefix_owner m' b = longest_prefix_owner m b" if b: "host_addr b" for b
  proof (rule longest_cong)
    fix n assume n: "n < MR_HELPER_NET_LEN"
    have "\<not> addr_eq a (the (prefix_key b (of_nat n)))"
      using prefix_key_at(3)[OF b n] host_no_net[OF assms(5)] addr_eq_type(1) by metis
    then show "perm_owner m' (the (prefix_key b (of_nat n))) = perm_owner m (the (prefix_key b (of_nat n)))"
      unfolding perm_owner_def mp using frame_open_inst[OF assms(2)] by (simp cong: option.case_cong)
  qed
  have same: "kind_ok m' s = kind_ok m s" "kind_ok m s \<Longrightarrow> coherent m' s = coherent m s" for s
    using frame_fields[OF assms(2)] frame_open_inst[OF assms(2)] l flag_consts(1) by (auto simp: kind_ok_def coherent_def)
  note net = net_ok_frame[OF assms(2)]
  have "net_ok m r" using host_no_net[OF assms(5)] assms(6) by (simp add: net_ok_def)
  show "lpm_inv m'"
    unfolding lpm_inv_def mp
    using assms(1,7,8) \<open>net_ok m r\<close> same net by (auto simp: lpm_inv_def split: if_splits)
qed

lemma lpm_inv_same_map:
  assumes "lpm_inv m" "frame m m'" "hash_map (m_vhash m') = hash_map (m_vhash m)"
  shows "lpm_inv m'"
proof -
  have "perm_owner m' = perm_owner m" using assms(3) frame_open_inst[OF assms(2)] by (simp add: perm_owner_def fun_eq_iff cong: option.case_cong)
  then have l: "longest_prefix_owner m' = longest_prefix_owner m" by (simp add: longest_prefix_owner_def fun_eq_iff)
  have same: "kind_ok m' s = kind_ok m s" "coherent m' s = coherent m s" for s
    using frame_fields[OF assms(2)] frame_open_inst[OF assms(2)] l by (auto simp: kind_ok_def coherent_def)
  note net = net_ok_frame[OF assms(2)]
  show ?thesis using assms(1) same net unfolding lpm_inv_def assms(3) by blast
qed

text \<open>When the generation has just changed, no cached route is current.\<close>

definition no_current :: "'z multi_context_scheme \<Rightarrow> bool" where
  "no_current m \<longleftrightarrow> (\<forall>k r. hash_map (m_vhash m) k = Some r \<and> mr_flags r = CACHED \<longrightarrow> mr_cache_generation r < generation m)"

lemma bump_generation:
  assumes "lpm_inv m" "cache_generation rh = generation m + of_nat d" "unat (generation m) + d < 2 ^ 32" "0 < d"
  shows "lpm_inv (m\<lparr>m_route_helper := rh\<rparr>)" "no_current (m\<lparr>m_route_helper := rh\<rparr>)"
    "unat (cache_generation rh) = unat (generation m) + d"
proof -
  have d: "unat (of_nat d :: u32) = d" using assms(3) by (intro unat_of_nat_small) simp
  show u: "unat (cache_generation rh) = unat (generation m) + d"
    using assms(3) d unfolding assms(2) by (subst unat_add_lem[THEN iffD1]) simp_all
  have lt: "mr_cache_generation r < cache_generation rh" if "mr_cache_generation r \<le> generation m" for r
    using that u assms(4) by (simp add: word_le_nat_alt word_less_nat_alt)
  have k: "kind_ok m r \<Longrightarrow> kind_ok (m\<lparr>m_route_helper := rh\<rparr>) r \<and> coherent (m\<lparr>m_route_helper := rh\<rparr>) r
      \<and> (mr_flags r = CACHED \<longrightarrow> mr_cache_generation r < cache_generation rh)" for r
    using lt[of r] flag_consts(1) by (auto simp: kind_ok_def coherent_def)
  show "lpm_inv (m\<lparr>m_route_helper := rh\<rparr>)" "no_current (m\<lparr>m_route_helper := rh\<rparr>)"
    using assms(1) k unfolding lpm_inv_def no_current_def net_ok_def by (auto simp del: not_all)
qed

lemma no_current_coherent: "lpm_inv m \<Longrightarrow> no_current m \<Longrightarrow> hash_map (m_vhash m) k = Some r \<Longrightarrow> mr_flags r = CACHED
    \<Longrightarrow> mr_cache_generation r \<noteq> generation m"
  unfolding no_current_def by (metis less_irrefl)

lemma lpm_inv_net_update:
  assumes "lpm_inv m" "no_current m" "frame m m'" "learnt_as k0 r m m'" "mr_flags r = 0" "net_ok m r"
  shows "lpm_inv m'" "no_current m'"
proof -
  have mp: "hash_map (m_vhash m') k = (if addr_eq k0 k then Some r else hash_map (m_vhash m) k)" for k
    using assms(4) by (simp add: learnt_as_def)
  have g: "generation m' = generation m" "m_local m' = m_local m" using frame_fields[OF assms(3)] by simp_all
  have "kind_ok m' s \<and> net_ok m' s \<and> coherent m' s" if "hash_map (m_vhash m') k = Some s" for k s
  proof (cases "addr_eq k0 k")
    case True
    then have "s = r" using that mp by simp
    then show ?thesis using assms(5) net_ok_frame[OF assms(3,6)] flag_consts(1) by (simp add: kind_ok_def coherent_def)
  next
    case False
    then have s: "hash_map (m_vhash m) k = Some s" using that mp by simp
    have "kind_ok m' s" using lpm_invD(1)[OF assms(1) s] g by (simp add: kind_ok_def)
    moreover have "coherent m' s"
      unfolding coherent_def using no_current_coherent[OF assms(1,2) s] g(1) by metis
    ultimately show ?thesis using net_ok_frame[OF assms(3)] lpm_invD(2)[OF assms(1) s] by blast
  qed
  then show "lpm_inv m'" unfolding lpm_inv_def by blast
  show "no_current m'" using assms(2,5) flag_consts(1) g unfolding no_current_def mp by (auto split: if_splits)
qed

lemma no_current_same_map:
  "no_current m \<Longrightarrow> frame m m' \<Longrightarrow> hash_map (m_vhash m') = hash_map (m_vhash m) \<Longrightarrow> no_current m'"
  using frame_fields(1)[of m m'] by (simp add: no_current_def)

text \<open>Owners disappear when an instance is closed or routes that are not in force are deleted.\<close>

lemma longest_shrink:
  assumes "longest_prefix_owner m a = Some i"
    and "\<And>k. perm_owner m k = Some i \<Longrightarrow> perm_owner m' k = Some i" "\<And>k. perm_owner m k = None \<Longrightarrow> perm_owner m' k = None"
  shows "longest_prefix_owner m' a = Some i"
  using assms(1) unfolding longest_prefix_owner_def by (rule first_owner_shrink) (use assms(2,3) in auto)

lemma lpm_inv_close:
  assumes "lpm_inv m" "run_inv m" and mi: "m_store m i = Some mi" "\<not> mi_halt mi"
    and m': "m_vhash m' = m_vhash m" "m_local m' = m_local m" "m_store m' = (m_store m)(i := x)"
      "\<And>mj. x = Some mj \<Longrightarrow> mi_halt mj"
      "generation m' = generation m + of_nat d" "unat (generation m) + d < 2 ^ 32"
  shows "lpm_inv m'"
proof -
  have op: "open_inst m' j = (open_inst m j \<and> j \<noteq> i)" for j using m'(3,4) by (auto simp: open_inst_def)
  have po: "perm_owner m' k = (if perm_owner m k = Some i then None else perm_owner m k)" for k
    unfolding perm_owner_def m'(1) op by (auto split: option.split)
  have gu: "unat (generation m') = unat (generation m) + d"
  proof -
    have "unat (of_nat d :: u32) = d" using m'(6) by (intro unat_of_nat_small) simp
    then show ?thesis using m'(6) unfolding m'(5) by (subst unat_add_lem[THEN iffD1]) simp_all
  qed
  have "kind_ok m' r \<and> net_ok m' r \<and> coherent m' r" if r: "hash_map (m_vhash m') k = Some r" for k r
  proof (intro conjI)
    have r0: "hash_map (m_vhash m) k = Some r" using r m'(1) by simp
    note L = lpm_invD[OF assms(1) r0]
    have "mr_cache_generation r \<le> generation m'" if "mr_cache_generation r \<le> generation m"
      using that gu by (simp add: word_le_nat_alt)
    then show "kind_ok m' r" using L(1) m'(2) by (auto simp: kind_ok_def)
    show "net_ok m' r" using L(2) m'(3,4) by (auto simp: net_ok_def split: if_splits)
    show "coherent m' r"
      unfolding coherent_def
    proof
      assume a: "mr_flags r = CACHED \<and> mr_cache_generation r = generation m' \<and> open_inst m' (mr_instance r)"
      then have "mr_cache_generation r \<le> generation m" using L(1) flag_consts(1) by (auto simp: kind_ok_def)
      then have "unat (generation m') \<le> unat (generation m)" using a by (simp add: word_le_nat_alt)
      then have "generation m' = generation m" using gu by (simp add: word_unat_eq_iff)
      then have "longest_prefix_owner m (mr_addr r) = Some (mr_instance r)" using L(3) a op by (simp add: coherent_def)
      then show "longest_prefix_owner m' (mr_addr r) = Some (mr_instance r)"
        by (rule longest_shrink) (use a op po in auto)
    qed
  qed
  then show ?thesis unfolding lpm_inv_def by blast
qed

lemma lpm_inv_delete:
  assumes "lpm_inv m" "frame m m'"
    and sub: "\<And>k r. hash_map (m_vhash m') k = Some r \<Longrightarrow> hash_map (m_vhash m) k = Some r"
    and keep: "\<And>k r. hash_map (m_vhash m) k = Some r \<Longrightarrow> hash_map (m_vhash m') k = None \<Longrightarrow> mr_flags r = 0 \<Longrightarrow> \<not> open_inst m (mr_instance r)"
  shows "lpm_inv m'"
proof -
  have po: "perm_owner m' k = perm_owner m k" for k
  proof (cases "hash_map (m_vhash m') k")
    case None
    then show ?thesis using keep[of k] by (auto simp: perm_owner_def split: option.split)
  next
    case (Some r)
    then show ?thesis using sub[OF Some] frame_open_inst[OF assms(2)] by (simp add: perm_owner_def)
  qed
  then have l: "longest_prefix_owner m' a = longest_prefix_owner m a" for a by (intro longest_cong) simp
  have "kind_ok m' s = kind_ok m s" "coherent m' s = coherent m s" for s
    using frame_fields[OF assms(2)] frame_open_inst[OF assms(2)] l by (auto simp: kind_ok_def coherent_def)
  then show ?thesis using assms(1) sub net_ok_frame[OF assms(2)] unfolding lpm_inv_def by blast
qed

lemma lpm_inv_open:
  assumes "lpm_inv m" "mem_inv m" "m_store m i = None" "m' = m\<lparr>m_store := (m_store m)(i \<mapsto> mi)\<rparr>"
  shows "lpm_inv m'"
proof -
  have ne: "mr_instance r \<noteq> i" if "hash_map (m_vhash m) k = Some r" for k r
    using map_store(1)[OF assms(2) that] assms(3) by auto
  have op: "open_inst m' j = open_inst m j" if "j \<noteq> i" for j using that assms(4) by (simp add: open_inst_def)
  have "perm_owner m' k = perm_owner m k" for k
  proof (cases "hash_map (m_vhash m) k")
    case (Some r)
    then show ?thesis using op[OF ne[OF Some]] assms(4) by (simp add: perm_owner_def)
  qed (simp add: perm_owner_def assms(4))
  then have l: "longest_prefix_owner m' a = longest_prefix_owner m a" for a by (intro longest_cong) simp
  show ?thesis
    unfolding lpm_inv_def
  proof (intro allI impI)
    fix k r assume "hash_map (m_vhash m') k = Some r"
    then have r: "hash_map (m_vhash m) k = Some r" using assms(4) by simp
    show "kind_ok m' r \<and> net_ok m' r \<and> coherent m' r"
      using lpm_invD[OF assms(1) r] ne[OF r] op[OF ne[OF r]] l assms(4) by (simp add: kind_ok_def net_ok_def coherent_def)
  qed
qed

section \<open>Equal addresses\<close>

lemma hash_map_eq_key:
  assumes "hash_ok h" "compare_function h a b"
  shows "hash_map h a = hash_map h b"
proof -
  have eq: "compare_function h a x = compare_function h b x" for x
    using bucket_of(1)[OF assms(1)] assms(2) unfolding cmp_ok_def by (metis equivp_def)
  have "hash_map h a = Some v \<longleftrightarrow> hash_map h b = Some v" for v
    unfolding hash_map_bag[OF assms(1)] eq ..
  then show ?thesis by (metis not_Some_eq)
qed

lemma clear_host_bytes_take:
  "byte < 16 \<Longrightarrow> take 16 (fst (clear_host_bytes a byte n)) = fst (clear_host_bytes (take 16 a) byte n)"
proof (induction a byte n rule: clear_host_bytes.induct)
  case (1 a byte n)
  show ?case
  proof (cases "byte \<ge> 0 \<and> n > 0")
    case True
    then have "nat byte < 16" using 1(3) by simp
    then show ?thesis
      using 1 True by (cases "n \<ge> 8") (simp_all add: clear_host_bytes.simps[of a byte n] clear_host_bytes.simps[of "take 16 a" byte n]
          take_update_swap)
  next
    case False
    have "clear_host_bytes x byte n = (x, n)" for x by (subst clear_host_bytes.simps) (use False in auto)
    then show ?thesis by simp
  qed
qed

lemma clear_host_bytes_snd: "snd (clear_host_bytes a byte n) = snd (clear_host_bytes b byte n)"
proof (induction a byte n arbitrary: b rule: clear_host_bytes.induct)
  case (1 a byte n)
  show ?case
  proof (cases "byte \<ge> 0 \<and> n > 0")
    case True
    then show ?thesis
      using 1(1)[OF True, of "b[nat byte := 0]"] 1(2)[OF True]
      by (cases "n \<ge> 8") (simp_all add: clear_host_bytes.simps[of a byte n] clear_host_bytes.simps[of b byte n])
  next
    case False
    have "clear_host_bytes x byte n = (x, n)" for x by (subst clear_host_bytes.simps) (use False in auto)
    then show ?thesis by simp
  qed
qed

lemma addr_eq_host: "addr_eq a b \<Longrightarrow> host_addr a \<Longrightarrow> host_addr b"
  by (auto simp: addr_eq_iff host_addr_def)

lemma prefix_key_cong:
  assumes "addr_eq a b" "host_addr a"
  shows "addr_eq (the (prefix_key a n)) (the (prefix_key b n))"
proof -
  have e: "ma_type b = ma_type a" "ma_len b = ma_len a" "ma_addr b = ma_addr a" using assms(1) unfolding addr_eq_iff by (elim conjE, simp)+
  show ?thesis
  proof (cases "ma_type a = MR_ADDR_IPV4")
    case True
    then have "ma_len a = 4" using assms(2) type_consts(7) unfolding host_addr_def by metis
    then show ?thesis using e True
      by (simp add: prefix_key_def mroute_addr_mask_host_bits_def type_consts addr_eq_iff poke_def)
  next
    case False
    then have t: "ma_type a = MR_ADDR_IPV6" "ma_len a = 16" using assms(2) by (auto simp: host_addr_def)
    then have "take 16 (ma_raw b) = take 16 (ma_raw a)" using e by simp
    then have "take 16 (fst (clear_host_bytes (ma_raw a) 15 k)) = take 16 (fst (clear_host_bytes (ma_raw b) 15 k))" for k
      by (simp add: clear_host_bytes_take)
    moreover obtain ra k rb where r: "clear_host_bytes (ma_raw a) 15 (128 - uint n) = (ra, k)"
      "clear_host_bytes (ma_raw b) 15 (128 - uint n) = (rb, k)"
      using clear_host_bytes_snd[of "ma_raw a" 15 "128 - uint n" "ma_raw b"] by (metis prod.collapse)
    ultimately have "take 16 ra = take 16 rb" by (metis fst_conv)
    then show ?thesis using e t r type_consts(7)[symmetric]
      by (cases "k = 0") (simp_all add: prefix_key_def mroute_addr_mask_host_bits_def type_consts addr_eq_iff)
  qed
qed

lemma perm_owner_cong: "mem_inv m \<Longrightarrow> addr_eq a b \<Longrightarrow> perm_owner m a = perm_owner m b"
  unfolding perm_owner_def using hash_map_eq_key[of "m_vhash m" a b] mem_invD(2,3)[of m] by simp

lemma longest_addr_eq:
  assumes "mem_inv m" "addr_eq a b" "host_addr a"
  shows "longest_prefix_owner m a = longest_prefix_owner m b"
  unfolding longest_prefix_owner_def
  by (rule first_owner_cong) (rule perm_owner_cong[OF assms(1) prefix_key_cong[OF assms(2,3)]])

end
