(* ===== verification/Multi_Route_Props.thy ===== *)
theory Multi_Route_Props
  imports Multi_Route_Lpm Mroute_Mask
begin

text \<open>
  Runs of the server over its routing operations, and what holds in every state they reach: no
  operation touches freed memory or fails an assertion, the reference counts and quotas are exact,
  the lookup is the longest prefix match, and reaping leaves the routes in force only.
\<close>

section \<open>Runs\<close>

datatype routing_op =
    Open_Client nat multi_instance
  | Learn nat mroute_addr
  | Add_Iroutes nat
  | Lookup mroute_addr bool
  | Close_Client nat
  | Reap
  | Reap_All
  | Check_Stale

fun do_op :: "int \<Rightarrow> (string \<Rightarrow> mroute_addr \<Rightarrow> bool) \<Rightarrow> routing_op \<Rightarrow> multi_context \<Rightarrow> (multi_context \<times> nat option) option" where
  "do_op now script (Open_Client i mi) m = Some (m\<lparr>m_store := (m_store m)(i \<mapsto> mi)\<rparr>, None)"
| "do_op now script (Learn i a) m = multi_learn_addr now script i a 0 m"
| "do_op now script (Add_Iroutes i) m = map_option (\<lambda>m. (m, None)) (multi_add_iroutes now script i m)"
| "do_op now script (Lookup a cidr) m = multi_get_instance_by_virtual_addr now script a cidr m"
| "do_op now script (Close_Client i) m = map_option (\<lambda>m. (m, None)) (close_routes False i m)"
| "do_op now script Reap m = map_option (\<lambda>m. (m, None)) (multi_reap_process now m)"
| "do_op now script Reap_All m = map_option (\<lambda>m. (m, None)) (multi_reap_all now m)"
| "do_op now script Check_Stale m = map_option (\<lambda>m. (m, None)) (check_stale_routes now m)"

definition did_iroutes :: "multi_context \<Rightarrow> nat \<Rightarrow> bool" where
  "did_iroutes m i = (case m_store m i of None \<Rightarrow> False | Some mi \<Rightarrow> mi_did_iroutes mi)"

lemma open_inst_code [code]: "open_inst m i = (case m_store m i of None \<Rightarrow> False | Some mi \<Rightarrow> \<not> mi_halt mi)"
  by (simp add: open_inst_def split: option.split)

text \<open>
  When the server performs an operation. In a restricted run only host addresses are learnt and
  looked up, prefixes come from the internal routes, and stale routes are not dropped by age.
\<close>

fun op_ok :: "bool \<Rightarrow> multi_context \<Rightarrow> routing_op \<Rightarrow> bool" where
  "op_ok restricted m (Open_Client i mi) \<longleftrightarrow> m_store m i = None \<and> valid_nets mi
     \<and> mi = new_instance (mi_tunnel_type mi) (mi_max_routes_per_client mi) (mi_iroutes mi) (mi_iroutes_ipv6 mi)"
| "op_ok restricted m (Learn i a) \<longleftrightarrow> open_inst m i \<and> (restricted \<longrightarrow> host_addr a)"
| "op_ok restricted m (Add_Iroutes i) \<longleftrightarrow> open_inst m i \<and> \<not> did_iroutes m i"
| "op_ok restricted m (Lookup a cidr) \<longleftrightarrow> (cidr \<or> restricted \<longrightarrow> host_addr a)"
| "op_ok restricted m (Close_Client i) \<longleftrightarrow> open_inst m i"
| "op_ok restricted m Check_Stale \<longleftrightarrow> \<not> restricted"
| "op_ok restricted m _ \<longleftrightarrow> True"

text \<open>How many prefixes an operation adds to or takes from the helper.\<close>

fun op_updates :: "multi_context \<Rightarrow> routing_op \<Rightarrow> nat" where
  "op_updates m (Add_Iroutes i) = length (netlist (the (m_store m i)))"
| "op_updates m (Close_Client i) = length (active m i)"
| "op_updates m _ = 0"

inductive routing_run :: "bool \<Rightarrow> nat \<Rightarrow> multi_context \<Rightarrow> bool" for restricted where
  start: "multi_init_routes now vsize iv ageing local = Some m \<Longrightarrow> vsize \<le> 2 ^ 30 \<Longrightarrow> routing_run restricted 0 m"
| step: "routing_run restricted n m \<Longrightarrow> op_ok restricted m op \<Longrightarrow> do_op now script op m = Some (m', ret)
    \<Longrightarrow> routing_run restricted (n + op_updates m op) m'"

section \<open>The invariant of runs\<close>

definition gen_ok :: "nat \<Rightarrow> int list \<Rightarrow> multi_context \<Rightarrow> bool" where
  "gen_ok n due m \<longleftrightarrow> lpm_inv m \<and> unat (generation m) + length due = n"

definition route_inv :: "bool \<Rightarrow> nat \<Rightarrow> multi_context \<Rightarrow> bool" where
  "route_inv restricted n m \<longleftrightarrow> run_inv m \<and> (restricted \<and> n < 2 ^ 32 \<longrightarrow> gen_ok n [] m)"

lemma route_invD:
  assumes "route_inv restricted n m"
  shows "run_inv m" "mem_inv m" "restricted \<Longrightarrow> n < 2 ^ 32 \<Longrightarrow> lpm_inv m"
  using assms run_invD(1) by (auto simp: route_inv_def gen_ok_def)

text \<open>Steps that change the table and the counts only.\<close>

lemma route_inv_frame:
  assumes "route_inv restricted n m" "frame m m'" "mem_inv m'" "lpm_inv m \<Longrightarrow> restricted \<Longrightarrow> n < 2 ^ 32 \<Longrightarrow> lpm_inv m'"
  shows "route_inv restricted n m'"
  using assms(1,4) run_inv_frame[OF route_invD(1)[OF assms(1)] assms(2,3)] frame_fields(1)[OF assms(2)]
  by (simp add: route_inv_def gen_ok_def)

lemma empty_bag:
  assumes "hash_ok h" "hash_map h = Map.empty"
  shows "hash_bag h = {#}"
proof (rule ccontr)
  assume "hash_bag h \<noteq> {#}"
  then obtain e where e: "e \<in># hash_bag h" by (meson multiset_nonemptyE)
  have "compare_function h (key_of e) (key_of e)"
    using bucket_of(1)[OF assms(1)] unfolding cmp_ok_def by (metis equivp_reflp)
  then have "hash_map h (key_of e) = Some (he_value e)" using e hash_map_bag[OF assms(1)] by blast
  then show False using assms(2) by simp
qed

lemma hash_init_pos: "hash_init n iv hf cmp = Some h \<Longrightarrow> 0 < n"
  by (simp add: hash_init_def split: if_splits)

lemma init_inv:
  assumes "multi_init_routes now vsize iv ageing local = Some m" "vsize \<le> 2 ^ 30"
  shows "route_inv restricted 0 m"
proof -
  obtain h where h0: "hash_init vsize iv mroute_addr_hash_function addr_eq = Some h"
    and m: "m = \<lparr>m_vhash = h, m_route_helper = mroute_helper_init MULTI_CACHE_ROUTE_TTL,
       m_reaper = multi_reap_new now (reap_buckets_per_pass vsize), m_local = mroute_extract_in_addr_t mroute_addr_init local,
       m_store = Map.empty, m_stale_routes_ageing_time = ageing\<rparr>"
    using assms(1) by (auto simp: multi_init_routes_def aborts)
  have "0 < vsize" by (rule hash_init_pos[OF h0])
  have hc: "hash_ok h \<and> hash_map h = Map.empty \<and> compare_function h = addr_eq"
  proof (rule hash_init_ok[of vsize addr_eq mroute_addr_hash_function iv])
    show "0 < vsize" by fact
    show "vsize \<le> 2 ^ 30" by fact
    show "equivp addr_eq" by (rule addr_eq_equiv)
    show "mroute_addr_hash_function a iv = mroute_addr_hash_function b iv" if "addr_eq a b" for a b
      using that by (rule addr_eq_hash)
    fix h' :: "(mroute_addr, multi_route) hash"
    assume "hash_init vsize iv mroute_addr_hash_function addr_eq = Some h'" "hash_ok h'" "hash_map h' = Map.empty" "compare_function h' = addr_eq"
    then show ?thesis using h0 by simp
  qed
  then have h: "hash_ok h" "hash_map h = Map.empty" "compare_function h = addr_eq" by simp_all
  note b = empty_bag[OF h(1,2)]
  have "mem_inv m" using h b by (simp add: m mem_inv_def vhash_ok_def refs_def)
  moreover have "active m = (\<lambda>_. [])" by (simp add: m active_def fun_eq_iff)
  then have "net_counts m []" by (simp add: net_counts_def m total_def mroute_helper_init_def)
  moreover have "lpm_inv m" using h(2) by (simp add: m lpm_inv_def)
  moreover have "0 \<le> buckets_per_pass (m_reaper m)"
    by (simp add: m multi_reap_new_def reap_buckets_per_pass_def constrain_int_def REAP_MIN_def REAP_MAX_def)
  ultimately show ?thesis using helper_init_ok
    by (simp add: route_inv_def run_inv_due_def gen_ok_def m multi_reap_new_def mroute_helper_init_def)
qed

lemma open_inv:
  assumes "route_inv restricted n m" "m_store m i = None" "valid_nets mi" "mi = new_instance t q irs irs6"
  shows "route_inv restricted n (m\<lparr>m_store := (m_store m)(i \<mapsto> mi)\<rparr>)"
proof -
  let ?m = "m\<lparr>m_store := (m_store m)(i \<mapsto> mi)\<rparr>"
  note I = run_invD[OF route_invD(1)[OF assms(1)]] and M = mem_invD[OF route_invD(2)[OF assms(1)]]
  have "refs ?m (routes_on (hash_bag (m_vhash m)))"
    unfolding refs_def
  proof
    fix j
    have "ref_ok (m_store m j) (routes_on (hash_bag (m_vhash m)) j)" using M(4) by (simp add: refs_def)
    then show "ref_ok (m_store ?m j) (routes_on (hash_bag (m_vhash m)) j)"
      using assms(2,4) by (cases "j = i") (auto simp: new_instance_def)
  qed
  moreover have "mi_route_count mj \<le> max 0 (mi_max_routes_per_client mj)" if "m_store ?m j = Some mj" for j mj
    using that M(6) assms(4) by (auto simp: new_instance_def split: if_splits)
  ultimately have "mem_inv ?m" using M(1) by (simp add: mem_inv_def)
  moreover have "active ?m = active m" using assms(2,4) by (auto simp: active_def new_instance_def fun_eq_iff)
  then have "net_counts ?m []" using I(3) by (simp add: net_counts_def)
  ultimately have "run_inv ?m" using I(2,4,5,6) assms(3) by (simp add: run_inv_due_def)
  moreover have "lpm_inv ?m" if "lpm_inv m" by (rule lpm_inv_open[OF that I(1) assms(2) refl])
  ultimately show ?thesis using assms(1) by (simp add: route_inv_def gen_ok_def)
qed

lemma open_instE:
  assumes "open_inst m i"
  obtains mi where "m_store m i = Some mi" "\<not> mi_halt mi"
  using assms by (auto simp: open_inst_def)

lemma perm_route:
  "kind_ok m (new_route now i a 0 m)" "coherent m (new_route now i a 0 m)"
  using flag_consts(1) by (auto simp: kind_ok_def coherent_def)

lemma learn_inv:
  assumes "route_inv restricted n m" "open_inst m i" "restricted \<Longrightarrow> host_addr a"
  shows "\<exists>m' owner. multi_learn_addr now script i a 0 m = Some (m', owner) \<and> route_inv restricted n m'"
proof -
  obtain mi where mi: "m_store m i = Some mi" "\<not> mi_halt mi" using assms(2) by (rule open_instE)
  obtain m' owner where l: "multi_learn_addr now script i a 0 m = Some (m', owner)" "mem_inv m'" "frame m m'"
    "hash_map (m_vhash m') = hash_map (m_vhash m) \<and> owner = exact_owner now m a
     \<or> learnt_as a (new_route now i a 0 m) m m' \<and> owner = Some i \<and> exact_owner now m a \<noteq> Some i
       \<and> mroute_learnable_address a \<and> \<not> mroute_addr_equal a (m_local m)"
    by (rule learn_spec[OF route_invD(2)[OF assms(1)] mi])
  have "lpm_inv m'" if "lpm_inv m" restricted
    using l(4)
  proof (elim disjE conjE)
    assume "learnt_as a (new_route now i a 0 m) m m'"
    then show ?thesis
      by (rule lpm_inv_host_update(1)[OF that(1) l(3,2) _ assms(3)[OF that(2)]]) (simp_all add: perm_route)
  qed (rule lpm_inv_same_map[OF that(1) l(3)])
  then have "route_inv restricted n m'" by (rule route_inv_frame[OF assms(1) l(3,2)])
  then show ?thesis using l(1) by blast
qed

section \<open>Internal routes\<close>

text \<open>The state while the internal routes of \<open>i\<close> are added; \<open>due\<close> are still to come.\<close>

definition adding :: "bool \<Rightarrow> nat \<Rightarrow> nat \<Rightarrow> int list \<Rightarrow> multi_context \<Rightarrow> bool" where
  "adding restricted n i due m \<longleftrightarrow> run_inv_due due m \<and> (restricted \<and> n < 2 ^ 32 \<longrightarrow> gen_ok n due m)
     \<and> (\<exists>mi. m_store m i = Some mi \<and> \<not> mi_halt mi \<and> mi_did_iroutes mi \<and> set due \<subseteq> set (netlist mi))"

lemma same_netlist: "same_inst mi mi' \<Longrightarrow> netlist mi' = netlist mi"
  using same_inst_simps[of mi mi'] by (simp add: netlist_def)

lemma run_inv_helper_add:
  assumes "run_inv_due (k # due) m" "0 \<le> k" "k \<le> 128"
  shows "\<exists>rh. mroute_helper_add_iroute46 (m_route_helper m) k = Some rh \<and> run_inv_due due (m\<lparr>m_route_helper := rh\<rparr>)
    \<and> cache_generation rh = generation m + of_nat 1"
proof -
  note I = run_invD[OF assms(1)]
  obtain rh where rh: "mroute_helper_add_iroute46 (m_route_helper m) k = Some rh" "helper_ok rh" "cache_generation rh = generation m + 1"
    "net_len_refcount rh = (net_len_refcount (m_route_helper m))[nat k := net_len_refcount (m_route_helper m) ! nat k + 1]"
    using helper_add_spec[OF I(2) assms(2)] assms(3) by (auto simp: MR_HELPER_NET_LEN_def)
  have l: "length (net_len_refcount (m_route_helper m)) = MR_HELPER_NET_LEN" using I(2) by (simp add: helper_ok_def)
  have act: "active (m\<lparr>m_route_helper := rh\<rparr>) = active m" by (simp add: active_def fun_eq_iff)
  have "net_len_refcount rh ! x + int (count_list due (int x)) = total (active m) (int x)" if x: "x < MR_HELPER_NET_LEN" for x
  proof -
    have "net_len_refcount (m_route_helper m) ! x + int (count_list (k # due) (int x)) = total (active m) (int x)"
      using I(3) x by (simp add: net_counts_def)
    then show ?thesis using x l assms(2) unfolding rh(4) by (cases "k = int x") (auto simp: nth_list_update)
  qed
  then have "net_counts (m\<lparr>m_route_helper := rh\<rparr>) due" using I(3) act by (simp add: net_counts_def)
  moreover have "mem_inv (m\<lparr>m_route_helper := rh\<rparr>)" using I(1) by (simp add: mem_inv_def refs_def)
  ultimately show ?thesis using rh(1,2,3) I(4,5,6) by (simp add: run_inv_due_def)
qed

lemma adding_step:
  assumes Q: "adding restricted n i (x # due) m" and x: "0 \<le> x" "x \<le> 128" and k: "uint (ma_netbits k) = x" "ma_type k AND MR_WITH_NETBITS \<noteq> 0"
      "x \<le> 8 * uint (ma_len k)"
  shows "\<exists>rh m' owner. mroute_helper_add_iroute46 (m_route_helper m) x = Some rh
    \<and> multi_learn_addr now script i k 0 (m\<lparr>m_route_helper := rh\<rparr>) = Some (m', owner) \<and> adding restricted n i due m'"
proof -
  have R: "run_inv_due (x # due) m" and G: "restricted \<Longrightarrow> n < 2 ^ 32 \<Longrightarrow> gen_ok n (x # due) m" using Q by (simp_all add: adding_def)
  obtain mi where mi: "m_store m i = Some mi" "\<not> mi_halt mi" "mi_did_iroutes mi" "set (x # due) \<subseteq> set (netlist mi)"
    using Q by (auto simp: adding_def)
  obtain rh where rh: "mroute_helper_add_iroute46 (m_route_helper m) x = Some rh" "run_inv_due due (m\<lparr>m_route_helper := rh\<rparr>)"
    "cache_generation rh = generation m + of_nat 1" using run_inv_helper_add[OF R x] by blast
  let ?m = "m\<lparr>m_route_helper := rh\<rparr>" and ?new = "new_route now i k 0 (m\<lparr>m_route_helper := rh\<rparr>)"
  have mi': "m_store ?m i = Some mi" using mi(1) by simp
  obtain m' owner where l: "multi_learn_addr now script i k 0 ?m = Some (m', owner)" "mem_inv m'" "frame ?m m'"
    "hash_map (m_vhash m') = hash_map (m_vhash ?m) \<and> owner = exact_owner now ?m k
     \<or> learnt_as k ?new ?m m' \<and> owner = Some i \<and> exact_owner now ?m k \<noteq> Some i
       \<and> mroute_learnable_address k \<and> \<not> mroute_addr_equal k (m_local ?m)"
    by (rule learn_spec[OF run_invD(1)[OF rh(2)] mi' mi(2)])
  have "gen_ok n due m'" if restricted "n < 2 ^ 32"
  proof -
    have g: "lpm_inv m" "unat (generation m) + length (x # due) = n" using G[OF that] by (simp_all add: gen_ok_def)
    have b: "unat (generation m) + 1 < 2 ^ 32 \<or> due = [] \<and> unat (generation m) + 1 = n" using g(2) that(2) by auto
    then have lt: "unat (generation m) + 1 < 2 ^ 32" using that(2) by auto
    note B = bump_generation[OF g(1) rh(3) lt zero_less_one]
    have "net_ok ?m ?new" using mi k by (auto simp: net_ok_def)
    then have "lpm_inv m'"
      using l(4) lpm_inv_net_update(1)[OF B(1,2) l(3)] lpm_inv_same_map[OF B(1) l(3)] by auto
    then show ?thesis using g(2) B(3) frame_fields(1)[OF l(3)] by (simp add: gen_ok_def)
  qed
  moreover have "run_inv_due due m'" by (rule run_inv_frame[OF rh(2) l(3,2)])
  moreover obtain mi2 where "m_store m' i = Some mi2" "same_inst mi mi2" "\<not> mi_halt mi2" by (rule frame_open[OF l(3) mi' mi(2)])
  ultimately have "adding restricted n i due m'"
    using mi(3,4) same_netlist[of mi mi2] same_inst_simps(5)[of mi mi2] by (auto simp: adding_def)
  then show ?thesis using rh(1) l(1) by blast
qed

lemma lpm_inv_did:
  assumes "lpm_inv m" "m_store m i = Some mi" "\<not> mi_halt mi" "\<not> mi_did_iroutes mi"
  shows "lpm_inv (m\<lparr>m_store := (m_store m)(i \<mapsto> mi\<lparr>mi_did_iroutes := True\<rparr>)\<rparr>)"
proof -
  let ?m = "m\<lparr>m_store := (m_store m)(i \<mapsto> mi\<lparr>mi_did_iroutes := True\<rparr>)\<rparr>"
  have op: "open_inst ?m j = open_inst m j" for j using assms(2,3) by (auto simp: open_inst_def)
  then have "perm_owner ?m k = perm_owner m k" for k by (simp add: perm_owner_def cong: option.case_cong if_cong)
  then have l: "longest_prefix_owner ?m a = longest_prefix_owner m a" for a by (intro longest_cong)
  have "kind_ok ?m r = kind_ok m r" "coherent ?m r = coherent m r" "net_ok m r \<Longrightarrow> net_ok ?m r" for r
    using l op assms(2-4) by (auto simp: kind_ok_def coherent_def net_ok_def)
  then show ?thesis using assms(1) by (auto simp: lpm_inv_def)
qed

lemma add_inv:
  assumes inv: "route_inv restricted n m" and op: "open_inst m i" "\<not> did_iroutes m i"
  shows "\<exists>m'. multi_add_iroutes now script i m = Some m' \<and> route_inv restricted (n + op_updates m (Add_Iroutes i)) m'"
proof -
  obtain mi where mi: "m_store m i = Some mi" "\<not> mi_halt mi" using op(1) by (rule open_instE)
  have nd: "\<not> mi_did_iroutes mi" using op(2) mi(1) by (simp add: did_iroutes_def)
  note I = run_invD[OF route_invD(1)[OF inv]]
  have v: "valid_nets mi" by (rule I(4)[OF mi(1)])
  let ?N = "n + length (netlist mi)"
  let ?m = "m\<lparr>m_store := (m_store m)(i \<mapsto> mi\<lparr>mi_did_iroutes := True\<rparr>)\<rparr>"
  have nl: "netlist (mi\<lparr>mi_did_iroutes := True\<rparr>) = netlist mi" by (simp add: netlist_def)
  have "adding restricted ?N i (netlist mi) ?m"
  proof -
    have "refs ?m (routes_on (hash_bag (m_vhash m)))"
      unfolding refs_def
    proof
      fix j
      have "ref_ok (m_store m j) (routes_on (hash_bag (m_vhash m)) j)" using mem_invD(4)[OF I(1)] by (simp add: refs_def)
      then show "ref_ok (m_store ?m j) (routes_on (hash_bag (m_vhash m)) j)" using mi by (cases "j = i") auto
    qed
    moreover have "mi_route_count mj \<le> max 0 (mi_max_routes_per_client mj)" if "m_store ?m j = Some mj" for j mj
      using that mem_invD(6)[OF I(1)] mi(1) by (auto split: if_splits)
    ultimately have "mem_inv ?m" using mem_invD(1)[OF I(1)] by (simp add: mem_inv_def)
    moreover have a: "active ?m = (active m)(i := netlist mi)" using mi nl by (auto simp: active_def fun_eq_iff)
    have z: "active m i = []" using mi nd by (simp add: active_def)
    have "finite {i. active m i \<noteq> []}" using I(3) by (simp add: net_counts_def)
    note t = total_upd[OF this z, of "netlist mi"]
    have "net_counts ?m (netlist mi)" using I(3) t unfolding net_counts_def a by simp
    moreover have "valid_nets mj" if "m_store ?m j = Some mj" for j mj
      using that I(4) v by (auto simp: valid_nets_def split: if_splits)
    ultimately have "run_inv_due (netlist mi) ?m" using I(2,5,6) by (simp add: run_inv_due_def)
    moreover have "gen_ok ?N (netlist mi) ?m" if restricted "?N < 2 ^ 32"
      using inv that lpm_inv_did[OF _ mi nd] by (simp add: route_inv_def gen_ok_def)
    ultimately show ?thesis using mi nl by (auto simp: adding_def)
  qed
  then have "adding restricted ?N i (map ir_netbits (mi_iroutes mi) @ map (\<lambda>ir. sint (ir6_netbits ir)) (mi_iroutes_ipv6 mi)) ?m"
    by (simp add: netlist_def)
  note Q = this
  have v4: "\<forall>ir \<in> set (mi_iroutes mi). 0 \<le> ir_netbits ir \<and> ir_netbits ir \<le> 32"
    and v6: "\<forall>ir \<in> set (mi_iroutes_ipv6 mi). 0 \<le> sint (ir6_netbits ir) \<and> sint (ir6_netbits ir) \<le> 128"
    using v unfolding valid_nets_def by blast+
  have "\<exists>m1. add_iroutes4 now script i (mi_iroutes mi) ?m = Some m1
      \<and> adding restricted ?N i (map (\<lambda>ir. sint (ir6_netbits ir)) (mi_iroutes_ipv6 mi)) m1"
    by (rule add_iroutes4_inv[where Q = "adding restricted ?N i", OF _ Q v4]) (rule adding_step)
  then obtain m1 where m1: "add_iroutes4 now script i (mi_iroutes mi) ?m = Some m1"
    "adding restricted ?N i (map (\<lambda>ir. sint (ir6_netbits ir)) (mi_iroutes_ipv6 mi) @ []) m1" unfolding append_Nil2 by blast
  have "\<exists>m2. add_iroutes6 now script i (mi_iroutes_ipv6 mi) m1 = Some m2 \<and> adding restricted ?N i [] m2"
    by (rule add_iroutes6_inv[where Q = "adding restricted ?N i", OF _ m1(2) v6]) (rule adding_step)
  then obtain m2 where m2: "add_iroutes6 now script i (mi_iroutes_ipv6 mi) m1 = Some m2" "adding restricted ?N i [] m2" by blast
  have "multi_add_iroutes now script i m = Some m2"
    using mi(1) v m1(1) m2(1) by (simp add: multi_add_iroutes_def valid_nets_def)
  moreover have "route_inv restricted ?N m2" using m2(2) by (simp add: adding_def route_inv_def)
  ultimately show ?thesis using mi(1) by simp
qed

section \<open>Lookup\<close>

lemma nets_defined:
  assumes "run_inv m" "host_addr a"
  shows "\<forall>n \<in> set (nets m). prefix_key a n \<noteq> None"
  using prefix_key_spec[OF assms(2)] nets_bound[OF run_invD(2)[OF assms(1)]] by fastforce

lemma perm_in_force: "mr_flags r = 0 \<Longrightarrow> open_inst m (mr_instance r) \<Longrightarrow> in_force now m r"
  by (auto simp: in_force_def multi_route_defined_def open_inst_def)

lemma exact_perm_owner:
  assumes "mem_inv m" "exact_owner now m a = None"
  shows "perm_owner m a = None"
proof (rule ccontr)
  assume "perm_owner m a \<noteq> None"
  then obtain r where r: "hash_map (m_vhash m) a = Some r" "mr_flags r = 0" "open_inst m (mr_instance r)"
    by (auto simp: perm_owner_def split: option.splits if_splits)
  then have "in_force now m r" by (intro perm_in_force)
  then show False using assms(2) r(1) by (simp add: exact_owner_def)
qed

text \<open>A cached route in force says what the reference says.\<close>

lemma exact_route_owner:
  assumes "mem_inv m" "lpm_inv m" "host_addr a" "\<not> mroute_addr_equal a (m_local m)" "exact_owner now m a = Some i"
  shows "route_owner m a = Some i"
proof -
  obtain r where r: "hash_map (m_vhash m) a = Some r" "in_force now m r" "mr_instance r = i"
    using assms(5) by (auto simp: exact_owner_def split: option.splits if_splits)
  have op: "open_inst m i" using in_force_store[OF r(2)] r(3) by (simp add: open_inst_def)
  show ?thesis
  proof (cases "mr_flags r = 0")
    case True
    then show ?thesis using r(1,3) op assms(4) by (simp add: route_owner_def perm_owner_def)
  next
    case False
    then have c: "mr_flags r = CACHED" using lpm_invD(1)[OF assms(2) r(1)] by (simp add: kind_ok_def)
    obtain mi where mi: "m_store m i = Some mi" "\<not> mi_halt mi" using op by (rule open_instE)
    have "mr_cache_generation r = generation m"
      using r(2,3) mi c flag_consts(2) by (auto simp: in_force_def multi_route_defined_def split: if_splits)
    then have "longest_prefix_owner m (mr_addr r) = Some i"
      using lpm_invD(3)[OF assms(2) r(1)] c r(3) op by (simp add: coherent_def)
    then have "longest_prefix_owner m a = Some i"
      using longest_addr_eq[OF assms(1) map_store(2)[OF assms(1) r(1)] assms(3)] by simp
    moreover have "perm_owner m a = None" using r(1) False by (simp add: perm_owner_def)
    ultimately show ?thesis using assms(4) by (simp add: route_owner_def)
  qed
qed

text \<open>A lookup keeps the invariant, and in a restricted run it is the reference and leaves it alone.\<close>

lemma lookup_inv:
  assumes inv: "route_inv restricted n m" and ok: "cidr \<or> restricted \<Longrightarrow> host_addr a"
  shows "\<exists>m' ret. multi_get_instance_by_virtual_addr now script a cidr m = Some (m', ret) \<and> route_inv restricted n m'
    \<and> (restricted \<and> n < 2 ^ 32 \<longrightarrow> (cidr \<longrightarrow> ret = route_owner m a) \<and> (\<forall>b. host_addr b \<longrightarrow> route_owner m' b = route_owner m b))"
proof -
  note R = route_invD[OF inv]
  have p: "\<forall>x \<in> set (nets m). prefix_key a x \<noteq> None" if cidr using nets_defined[OF R(1) ok] that by blast
  obtain m' ret where g: "multi_get_instance_by_virtual_addr now script a cidr m = Some (m', ret)" "mem_inv m'" "frame m m'"
    "mroute_addr_equal a (m_local m) \<and> m' = m \<and> ret = None
     \<or> \<not> mroute_addr_equal a (m_local m) \<and> exact_owner now m a = ret \<and> ret \<noteq> None
       \<and> (\<exists>r. hash_map (m_vhash m) a = Some r \<and> learnt_as (mr_addr r) (r\<lparr>mr_last_reference := now\<rparr>) m m')
     \<or> \<not> mroute_addr_equal a (m_local m) \<and> exact_owner now m a = None
       \<and> ret = (if cidr then net_owner now m a (nets m) else None)
       \<and> (hash_map (m_vhash m') = hash_map (m_vhash m) \<or> (\<exists>i. ret = Some i \<and> learnt_as a (new_route now i a CACHED m) m m'))"
    by (rule get_spec[OF R(2) p])
  have L: "lpm_inv m' \<and> (cidr \<longrightarrow> ret = route_owner m a) \<and> (\<forall>b. host_addr b \<longrightarrow> route_owner m' b = route_owner m b)"
    if s: restricted "n < 2 ^ 32"
  proof -
    have lpm: "lpm_inv m" by (rule R(3)[OF s])
    have host: "host_addr a" using ok s(1) by blast
    have loc: "m_local m' = m_local m" by (rule frame_fields(2)[OF g(3)])
    have po: "perm_owner m' b = perm_owner m b" if "hash_map (m_vhash m') b = hash_map (m_vhash m) b" for b
      unfolding perm_owner_def that using frame_open_inst[OF g(3)] by (simp cong: option.case_cong)
    show ?thesis
      using g(4)
    proof (elim disjE conjE exE)
      assume "mroute_addr_equal a (m_local m)" "m' = m" "ret = None"
      then show ?thesis using lpm by (simp add: route_owner_def)
    next
      fix r assume a: "\<not> mroute_addr_equal a (m_local m)" "exact_owner now m a = ret" "ret \<noteq> None"
        "hash_map (m_vhash m) a = Some r" "learnt_as (mr_addr r) (r\<lparr>mr_last_reference := now\<rparr>) m m'"
      let ?r = "r\<lparr>mr_last_reference := now\<rparr>"
      have h: "host_addr (mr_addr r)" using addr_eq_host[OF map_store(2)[OF R(2) a(4)] host] .
      have k: "kind_ok m ?r" "coherent m ?r" using lpm_invD(1,3)[OF lpm a(4)] by (simp_all add: kind_ok_def coherent_def)
      note U = lpm_inv_host_update[OF lpm g(3,2) a(5) h _ k, simplified]
      have "perm_owner m' b = perm_owner m b" for b
      proof (cases "addr_eq (mr_addr r) b")
        case True
        then have "addr_eq b (mr_addr r)" using addr_eq_sym by blast
        moreover have "addr_eq a (mr_addr r)" by (rule map_store(2)[OF R(2) a(4)])
        ultimately have "perm_owner m b = perm_owner m a" using perm_owner_cong[OF R(2)] by metis
        moreover have "perm_owner m' b = (if mr_flags r = 0 \<and> open_inst m' (mr_instance r) then Some (mr_instance r) else None)"
          using a(5) True by (simp add: perm_owner_def learnt_as_def)
        ultimately show ?thesis using a(4) frame_open_inst[OF g(3)] by (simp add: perm_owner_def)
      next
        case False
        then show ?thesis using a(5) by (intro po) (simp add: learnt_as_def)
      qed
      then have "route_owner m' b = route_owner m b" if "host_addr b" for b
        using U(2)[OF that] loc by (simp add: route_owner_def cong: option.case_cong)
      moreover obtain i where "ret = Some i" using a(3) by blast
      ultimately show ?thesis using U(1) exact_route_owner[OF R(2) lpm host a(1), of now i] a(2) by auto
    next
      assume a: "\<not> mroute_addr_equal a (m_local m)" "exact_owner now m a = None"
        "ret = (if cidr then net_owner now m a (nets m) else None)" "hash_map (m_vhash m') = hash_map (m_vhash m)"
      have ret: "cidr \<longrightarrow> ret = longest_prefix_owner m a" using a(3) net_owner_longest[OF R(1) lpm host] by simp
      have p: "perm_owner m' = perm_owner m" using po a(4) by (simp add: fun_eq_iff)
      then have "longest_prefix_owner m' = longest_prefix_owner m" by (simp add: longest_prefix_owner_def fun_eq_iff)
      then have "route_owner m' = route_owner m" using p loc by (simp add: route_owner_def fun_eq_iff cong: option.case_cong)
      then show ?thesis
        using lpm_inv_same_map[OF lpm g(3) a(4)] ret exact_perm_owner[OF R(2) a(2)] a(1) by (simp add: route_owner_def)
    next
      fix i assume a: "\<not> mroute_addr_equal a (m_local m)" "exact_owner now m a = None"
        "ret = (if cidr then net_owner now m a (nets m) else None)" "ret = Some i" "learnt_as a (new_route now i a CACHED m) m m'"
      have ret: "longest_prefix_owner m a = Some i"
        using a(3,4) net_owner_longest[OF R(1) lpm host] by (simp split: if_splits)
      have k: "kind_ok m (new_route now i a CACHED m)" "coherent m (new_route now i a CACHED m)"
        using host a(1) ret flag_consts(2) by (simp_all add: kind_ok_def coherent_def new_route_def)
      note U = lpm_inv_host_update[OF lpm g(3,2) a(5) host _ k, simplified]
      have pa: "perm_owner m a = None" by (rule exact_perm_owner[OF R(2) a(2)])
      have "perm_owner m' b = perm_owner m b" for b
      proof (cases "addr_eq a b")
        case True
        then have "perm_owner m b = None" using perm_owner_cong[OF R(2) True] pa by simp
        moreover have "perm_owner m' b = None" using a(5) True flag_consts(1) by (simp add: perm_owner_def learnt_as_def)
        ultimately show ?thesis by simp
      next
        case False
        then show ?thesis using a(5) by (intro po) (simp add: learnt_as_def)
      qed
      then have "route_owner m' b = route_owner m b" if "host_addr b" for b
        using U(2)[OF that] loc by (simp add: route_owner_def cong: option.case_cong)
      then show ?thesis using U(1) ret pa a(1,4) by (simp add: route_owner_def)
    qed
  qed
  then have "route_inv restricted n m'" by (intro route_inv_frame[OF inv g(3,2)]) blast
  then show ?thesis using g(1) L by blast
qed

section \<open>Closing and reaping\<close>

lemma close_inv:
  assumes inv: "route_inv restricted n m" and op: "open_inst m i"
  shows "\<exists>m'. close_routes False i m = Some m' \<and> route_inv restricted (n + op_updates m (Close_Client i)) m'"
proof -
  obtain mi where mi: "m_store m i = Some mi" "\<not> mi_halt mi" using op by (rule open_instE)
  note R = route_invD[OF inv]
  obtain m' where c: "close_routes False i m = Some m'" "run_inv m'" "m_vhash m' = m_vhash m" "m_local m' = m_local m"
    "generation m' = generation m + of_nat (length (active m i))"
    "m_store m' = (m_store m)(i := if routes_on (hash_bag (m_vhash m)) i = 0 then None
        else Some (mi\<lparr>mi_halt := True, mi_did_iroutes := False, mi_refcount := mi_refcount mi - 1\<rparr>))"
    using close_routes_spec[OF R(1) mi] by blast
  have "gen_ok (n + length (active m i)) [] m'" if s: restricted "n + length (active m i) < 2 ^ 32"
  proof -
    have g: "lpm_inv m" "unat (generation m) = n" using inv s by (simp_all add: route_inv_def gen_ok_def)
    have "unat (generation m) + length (active m i) < 2 ^ 32" using s(2) g(2) by simp
    then have "lpm_inv m'" by (intro lpm_inv_close[OF g(1) R(1) mi c(3,4,6) _ c(5)]) (auto split: if_splits)
    moreover have "unat (generation m') = n + length (active m i)"
      unfolding c(5) using s(2) g(2) by (subst unat_add_lem[THEN iffD1]) (simp_all add: unat_of_nat_small)
    ultimately show ?thesis by (simp add: gen_ok_def)
  qed
  then show ?thesis using c(1,2) by (simp add: route_inv_def)
qed

lemma frame_reaper:
  assumes "route_inv restricted n m" "0 \<le> bucket_base mr" "0 \<le> buckets_per_pass mr"
  shows "route_inv restricted n (m\<lparr>m_reaper := mr\<rparr>)"
proof -
  let ?m = "m\<lparr>m_reaper := mr\<rparr>"
  have "active ?m = active m" "open_inst ?m = open_inst m" by (simp_all add: active_def open_inst_def fun_eq_iff)
  moreover from this have "perm_owner ?m = perm_owner m" by (simp add: perm_owner_def fun_eq_iff cong: option.case_cong if_cong)
  moreover from this have "longest_prefix_owner ?m = longest_prefix_owner m" by (simp add: longest_prefix_owner_def fun_eq_iff)
  ultimately have "lpm_inv ?m = lpm_inv m" "net_counts ?m [] = net_counts m []"
    by (simp_all add: lpm_inv_def kind_ok_def net_ok_def coherent_def net_counts_def)
  then show ?thesis using assms by (simp add: route_inv_def gen_ok_def run_inv_due_def mem_inv_def refs_def)
qed

lemma defined_frame:
  assumes "frame m m'" "m_store m' (mr_instance r) \<noteq> None"
  shows "multi_route_defined now m' r = Some (in_force now m r)"
  using defined_Some[of m' r _ now] frame_in_force[OF assms(1)] assms(2) by (cases "m_store m' (mr_instance r)") auto

lemma lpm_inv_reaped:
  assumes "lpm_inv m" "frame m m'"
    and mp: "\<And>k r. hash_map (m_vhash m') k = Some r \<longleftrightarrow> hash_map (m_vhash m) k = Some r \<and> \<not> (\<not> in_force now m r \<and> B k)"
  shows "lpm_inv m'"
proof (rule lpm_inv_delete[OF assms(1,2)])
  show "hash_map (m_vhash m) k = Some r" if "hash_map (m_vhash m') k = Some r" for k r using that mp by blast
  fix k r assume a: "hash_map (m_vhash m) k = Some r" "hash_map (m_vhash m') k = None" "mr_flags r = 0"
  then have "\<not> in_force now m r" using mp by (metis option.distinct(1))
  then show "\<not> open_inst m (mr_instance r)" using a(3) perm_in_force by blast
qed

lemma hash_range_init:
  "0 \<le> start \<Longrightarrow> start \<le> fin \<Longrightarrow> start \<le> h_n_buckets h \<Longrightarrow> \<exists>hi. hash_iterator_init_range h start fin = Some hi"
  by (simp add: hash_iterator_init_range_def Let_def)

lemma reap_range_spec:
  assumes inv: "route_inv restricted n m" and r: "(s, f) = (if start < 0 then (0, hash_n_buckets (m_vhash m)) else (start, fin))"
    and b: "0 \<le> s" "s \<le> f" "s \<le> h_n_buckets (m_vhash m)"
  obtains m' where "multi_reap_range now start fin m = Some m'" "route_inv restricted n m'" "frame m m'"
    "h_n_buckets (m_vhash m') = h_n_buckets (m_vhash m)"
    "\<And>k r. hash_map (m_vhash m') k = Some r \<longleftrightarrow> hash_map (m_vhash m) k = Some r
        \<and> \<not> (\<not> in_force now m r \<and> nat s \<le> hash_bucket (m_vhash m) (hash_value (m_vhash m) k)
              \<and> hash_bucket (m_vhash m) (hash_value (m_vhash m) k) < nat (min f (h_n_buckets (m_vhash m))))"
proof -
  obtain hi where hi: "hash_iterator_init_range (m_vhash m) s f = Some hi" using hash_range_init[OF b] by blast
  let ?P = "\<lambda>(m :: multi_context) r. map_option Not (multi_route_defined now m r)"
  have P: "?P m' r = Some (\<not> in_force now m r)" if "frame m m'" "m_store m' (mr_instance r) \<noteq> None" for m' r
    using defined_frame[OF that] by simp
  obtain m' where m': "route_delete_loop ?P m hi = Some m'" "mem_inv m'" "frame m m'"
    "\<And>k r. hash_map (m_vhash m') k = Some r \<longleftrightarrow> hash_map (m_vhash m) k = Some r
        \<and> \<not> (\<not> in_force now m r \<and> nat s \<le> hash_bucket (m_vhash m) (hash_value (m_vhash m) k)
              \<and> hash_bucket (m_vhash m) (hash_value (m_vhash m) k) < nat (min f (h_n_buckets (m_vhash m))))"
    "h_n_buckets (m_vhash m') = h_n_buckets (m_vhash m)"
    using route_delete_loop_spec[OF route_invD(2)[OF inv] hi, of ?P "\<lambda>r. \<not> in_force now m r", OF P] by blast
  have "multi_reap_range now start fin m = Some m'"
    using m'(1) hi unfolding multi_reap_range_def r[symmetric] by simp
  moreover have "route_inv restricted n m'"
    by (rule route_inv_frame[OF inv m'(3,2)]) (rule lpm_inv_reaped[OF _ m'(3,4)])
  ultimately show ?thesis using that m'(3,4,5) by blast
qed

lemma buckets_pos: "mem_inv m \<Longrightarrow> 0 < h_n_buckets (m_vhash m)"
  using mem_invD(2)[of m] by (auto simp: hash_ok_def)

lemma bucket_below:
  assumes "mem_inv m"
  shows "hash_bucket (m_vhash m) hv < nat (h_n_buckets (m_vhash m))"
proof -
  have "int (length (h_buckets (m_vhash m))) = h_n_buckets (m_vhash m)" using mem_invD(2)[OF assms] by (simp add: hash_ok_def)
  then show ?thesis using bucket_in_range[OF mem_invD(2)[OF assms], of hv] by linarith
qed

lemma reap_all_spec:
  assumes inv: "route_inv restricted n m"
  obtains m' where "multi_reap_all now m = Some m'" "route_inv restricted n m'" "frame m m'"
    "\<And>k r. hash_map (m_vhash m') k = Some r \<longleftrightarrow> hash_map (m_vhash m) k = Some r \<and> in_force now m r"
proof -
  note M = route_invD(2)[OF inv]
  note b = bucket_below[OF M]
  show ?thesis
    by (rule reap_range_spec[OF inv, of 0 "h_n_buckets (m_vhash m)" "- 1" 0 now])
      (use that b buckets_pos[OF M] in \<open>auto simp: multi_reap_all_def hash_n_buckets_def\<close>)
qed

lemma reap_inv:
  assumes inv: "route_inv restricted n m"
  shows "\<exists>m'. multi_reap_process now m = Some m' \<and> route_inv restricted n m'"
proof (cases "last_call (m_reaper m) = now")
  case True
  then show ?thesis using inv by (simp add: multi_reap_process_def)
next
  case False
  note R = run_invD(5,6)[OF route_invD(1)[OF inv]] and M = route_invD(2)[OF inv]
  define mr where "mr = (if bucket_base (m_reaper m) \<ge> hash_n_buckets (m_vhash m) then m_reaper m\<lparr>bucket_base := 0\<rparr> else m_reaper m)"
  have mr: "0 \<le> bucket_base mr" "bucket_base mr < h_n_buckets (m_vhash m)" "0 \<le> buckets_per_pass mr"
    using R buckets_pos[OF M] by (auto simp: mr_def hash_n_buckets_def)
  obtain m' where m': "multi_reap_range now (bucket_base mr) (bucket_base mr + buckets_per_pass mr) m = Some m'" "route_inv restricted n m'"
    by (rule reap_range_spec[OF inv, of "bucket_base mr" "bucket_base mr + buckets_per_pass mr" "bucket_base mr"
        "bucket_base mr + buckets_per_pass mr" now]) (use mr in auto)
  then have "multi_reap_process now m = Some (m'\<lparr>m_reaper := mr\<lparr>bucket_base := bucket_base mr + buckets_per_pass mr, last_call := now\<rparr>\<rparr>)"
    using False by (simp add: multi_reap_process_def multi_reap_process_dowork_def mr_def Let_def)
  then show ?thesis using frame_reaper[OF m'(2)] mr by simp
qed

definition stale :: "int \<Rightarrow> multi_context \<Rightarrow> multi_route \<Rightarrow> bool" where
  "stale now m r \<longleftrightarrow> in_force now m r \<and> now - mr_last_reference r \<ge> m_stale_routes_ageing_time m"

lemma stale_spec:
  assumes inv: "route_inv restricted n m"
  obtains m' where "check_stale_routes now m = Some m'" "restricted \<or> route_inv restricted n m'" "frame m m'"
    "\<And>k r. hash_map (m_vhash m') k = Some r \<longleftrightarrow> hash_map (m_vhash m) k = Some r \<and> \<not> stale now m r"
proof -
  note M = route_invD(2)[OF inv]
  let ?h = "m_vhash m"
  obtain hi where hi: "hash_iterator_init_range ?h 0 (hash_n_buckets ?h) = Some hi"
    using hash_range_init[of 0 "hash_n_buckets ?h" ?h] buckets_pos[OF M] by (auto simp: hash_n_buckets_def)
  let ?P = "\<lambda>(m :: multi_context) r. do { d \<leftarrow> multi_route_defined now m r; Some (d \<and> now - mr_last_reference r \<ge> m_stale_routes_ageing_time m) }"
  have P: "?P m' r = Some (stale now m r)" if "frame m m'" "m_store m' (mr_instance r) \<noteq> None" for m' r
    using defined_frame[OF that] frame_fields(4)[OF that(1)] by (simp add: stale_def)
  note b = bucket_below[OF M]
  obtain m' where m': "route_delete_loop ?P m hi = Some m'" "mem_inv m'" "frame m m'"
    "\<And>k r. hash_map (m_vhash m') k = Some r \<longleftrightarrow> hash_map ?h k = Some r
        \<and> \<not> (stale now m r \<and> nat 0 \<le> hash_bucket ?h (hash_value ?h k)
              \<and> hash_bucket ?h (hash_value ?h k) < nat (min (hash_n_buckets ?h) (h_n_buckets ?h)))"
    by (rule route_delete_loop_spec[OF M hi, of ?P "stale now m", OF P]) (assumption | rule that)+
  have c: "check_stale_routes now m = Some m'" using m'(1) hi by (simp add: check_stale_routes_def)
  have "route_inv restricted n m'" if "\<not> restricted" by (rule route_inv_frame[OF inv m'(3,2)]) (use that in blast)
  then have i: "restricted \<or> route_inv restricted n m'" by blast
  have "hash_map (m_vhash m') k = Some r \<longleftrightarrow> hash_map ?h k = Some r \<and> \<not> stale now m r" for k r
    using m'(4)[of k r] b[of "hash_value ?h k"] by (simp add: hash_n_buckets_def)
  then show ?thesis by (rule that[OF c i m'(3)])
qed

section \<open>The invariant holds in every run\<close>

lemma op_inv:
  assumes "route_inv restricted n m" "op_ok restricted m op"
  shows "\<exists>m' ret. do_op now script op m = Some (m', ret) \<and> route_inv restricted (n + op_updates m op) m'"
proof (cases op)
  case (Open_Client i mi)
  then show ?thesis using assms open_inv[OF assms(1), of i mi "mi_tunnel_type mi" "mi_max_routes_per_client mi" "mi_iroutes mi" "mi_iroutes_ipv6 mi"] by simp
next
  case (Learn i a)
  then show ?thesis using assms learn_inv[OF assms(1), of i a now script] by auto
next
  case (Add_Iroutes i)
  then show ?thesis using assms add_inv[OF assms(1), of i now script] by fastforce
next
  case (Lookup a cidr)
  then show ?thesis using assms lookup_inv[OF assms(1), of cidr a now script] by fastforce
next
  case (Close_Client i)
  then show ?thesis using assms close_inv[OF assms(1), of i] by fastforce
next
  case Reap
  then show ?thesis using reap_inv[OF assms(1), of now] by auto
next
  case Reap_All
  then show ?thesis by simp (rule reap_all_spec[OF assms(1), of now], auto)
next
  case Check_Stale
  then show ?thesis using assms(2) by simp (rule stale_spec[OF assms(1), of now], auto)
qed

lemma routing_run_inv: "routing_run restricted n m \<Longrightarrow> route_inv restricted n m"
proof (induction rule: routing_run.induct)
  case (step n m op now script m' ret)
  then show ?case using op_inv[of restricted n m op now script] by auto
qed (rule init_inv)

lemma run_weaken: "routing_run True n m \<Longrightarrow> routing_run False n m"
proof (induction rule: routing_run.induct)
  case (step n m op now script m' ret)
  have "op_ok False m op" using step.hyps(2) by (cases op) auto
  then show ?case using step by (blast intro: routing_run.step)
qed (rule routing_run.start)

section \<open>The reference as a statement about prefixes\<close>

lemma first_owner_down:
  "first_owner f (rev [0..<N]) = Some i \<Longrightarrow> \<exists>n < N. f n = Some i \<and> (\<forall>n'. n < n' \<and> n' < N \<longrightarrow> f n' = None)"
  "first_owner f (rev [0..<N]) = None \<Longrightarrow> n < N \<Longrightarrow> f n = None"
  by (induction N) (auto split: option.splits simp: less_Suc_eq)

lemma unat_of_int_le: "unat (w :: u8) \<le> n \<longleftrightarrow> uint w \<le> int n"
  by (metis of_nat_le_iff uint_nat)

text \<open>A prefix that contains the address is one of the keys that the reference tries.\<close>

lemma prefix_of_owner:
  assumes "mem_inv m" "host_addr a" "length (ma_raw a) = MR_MAX_ADDR_LEN" "prefix_of k a"
  shows "unat (ma_netbits k) < MR_HELPER_NET_LEN"
    "perm_owner m (the (prefix_key a (of_nat (unat (ma_netbits k))))) = perm_owner m k"
proof -
  have n: "uint (ma_netbits k) \<le> 8 * uint (ma_len a)" using assms(4) by (simp add: prefix_of_def)
  then have "uint (ma_netbits k) \<le> int 128" using assms(2) by (auto simp: host_addr_def)
  then show "unat (ma_netbits k) < MR_HELPER_NET_LEN" unfolding unat_of_int_le[symmetric] by (simp add: MR_HELPER_NET_LEN_def)
  have "addr_eq k (the (prefix_key a (ma_netbits k)))"
    using prefix_of_key(2)[OF assms(2,3) n assms(4) refl] by (simp add: mroute_addr_compare_function_def)
  then show "perm_owner m (the (prefix_key a (of_nat (unat (ma_netbits k))))) = perm_owner m k"
    using perm_owner_cong[OF assms(1)] by simp
qed

lemma long_prefix_unowned:
  assumes "mem_inv m" "lpm_inv m" "host_addr a" "n < MR_HELPER_NET_LEN" "perm_owner m (the (prefix_key a (of_nat n))) = Some i"
  shows "int n \<le> 8 * uint (ma_len a)"
proof -
  let ?k = "the (prefix_key a (of_nat n))"
  obtain r where r: "hash_map (m_vhash m) ?k = Some r" "mr_flags r = 0"
    using assms(5) by (auto simp: perm_owner_def split: option.splits if_splits)
  note pk = prefix_key_at[OF assms(3,4)]
  have e: "addr_eq ?k (mr_addr r)" using map_store(2)[OF assms(1) r(1)] .
  have "ma_len ?k = ma_len a"
    using prefix_key_spec[OF assms(3), of "of_nat n"] pk(1,4) assms(4) by (auto simp: MR_HELPER_NET_LEN_def)
  moreover have "ma_len (mr_addr r) = ma_len ?k" using e by (simp add: addr_eq_iff)
  ultimately show ?thesis
    using lpm_invD(2)[OF assms(2) r(1)] r(2) addr_eq_type[OF e] pk by (auto simp: net_ok_def)
qed

text \<open>The client owns the longest of the permanent prefixes that contain the address.\<close>

definition longest_match :: "multi_context \<Rightarrow> mroute_addr \<Rightarrow> nat \<Rightarrow> bool" where
  "longest_match m a i \<longleftrightarrow> (\<exists>k. prefix_of k a \<and> perm_owner m k = Some i
     \<and> (\<forall>k'. prefix_of k' a \<and> perm_owner m k' \<noteq> None \<longrightarrow> uint (ma_netbits k') \<le> uint (ma_netbits k)))"

lemma longest_prefix_owner_match:
  assumes "mem_inv m" "lpm_inv m" "host_addr a" "length (ma_raw a) = MR_MAX_ADDR_LEN"
  shows "longest_prefix_owner m a = Some i \<Longrightarrow> longest_match m a i"
    "longest_prefix_owner m a = None \<Longrightarrow> prefix_of k a \<Longrightarrow> perm_owner m k = None"
proof -
  note P = prefix_of_owner[OF assms(1,3,4)]
  assume "longest_prefix_owner m a = Some i"
  then obtain n where n: "n < MR_HELPER_NET_LEN" "perm_owner m (the (prefix_key a (of_nat n))) = Some i"
    "\<And>n'. n < n' \<Longrightarrow> n' < MR_HELPER_NET_LEN \<Longrightarrow> perm_owner m (the (prefix_key a (of_nat n'))) = None"
    using first_owner_down(1) unfolding longest_prefix_owner_def by blast
  let ?k = "the (prefix_key a (of_nat n))"
  note pk = prefix_key_at[OF assms(3) n(1)]
  have "uint (of_nat n :: u8) \<le> 8 * uint (ma_len a)" using long_prefix_unowned[OF assms(1-3) n(1,2)] pk(4) by simp
  then have "prefix_of ?k a" by (rule prefix_of_key(1)[OF assms(3,4)])
  moreover have "uint (ma_netbits k') \<le> uint (ma_netbits ?k)" if "prefix_of k' a" "perm_owner m k' \<noteq> None" for k'
  proof (rule ccontr)
    assume "\<not> ?thesis"
    then have "\<not> uint (ma_netbits k') \<le> int n" using pk(2,4) by simp
    then have "n < unat (ma_netbits k')" unfolding unat_of_int_le[symmetric] by simp
    from n(3)[OF this P(1)[OF that(1)]] show False using P(2)[OF that(1)] that(2) by simp
  qed
  ultimately show "longest_match m a i" using n(2) unfolding longest_match_def by blast
next
  assume "longest_prefix_owner m a = None" "prefix_of k a"
  then show "perm_owner m k = None"
    using first_owner_down(2) prefix_of_owner[OF assms(1,3,4)] unfolding longest_prefix_owner_def by metis
qed

text \<open>The answer that the routes of the open clients call for.\<close>

definition right_answer :: "multi_context \<Rightarrow> mroute_addr \<Rightarrow> nat option \<Rightarrow> bool" where
  "right_answer m a ret \<longleftrightarrow>
     (if mroute_addr_equal a (m_local m) then ret = None
      else case perm_owner m a of
        Some i \<Rightarrow> ret = Some i
      | None \<Rightarrow> (case ret of
          Some i \<Rightarrow> longest_match m a i
        | None \<Rightarrow> \<forall>k. prefix_of k a \<longrightarrow> perm_owner m k = None))"

lemma route_owner_right:
  assumes "mem_inv m" "lpm_inv m" "host_addr a" "length (ma_raw a) = MR_MAX_ADDR_LEN"
  shows "right_answer m a (route_owner m a)"
  using longest_prefix_owner_match[OF assms] by (auto simp: right_answer_def route_owner_def split: option.split)

text \<open>
  The pass over stale routes keeps a cached route that was used recently, and the lookup answers by it,
  whether or not the pass has deleted the prefix it was made from.
\<close>

lemma stale_pass_keeps_cached:
  assumes "routing_run False n m" "check_stale_routes now m = Some m'" "hash_map (m_vhash m) a = Some r" "\<not> stale now m r"
    and "in_force now' m r" "host_addr a" "\<not> mroute_addr_equal a (m_local m)"
  shows "\<exists>m2. multi_get_instance_by_virtual_addr now' script a True m' = Some (m2, Some (mr_instance r))"
proof -
  obtain m1 where m1: "check_stale_routes now m = Some m1" "route_inv False n m1" "frame m m1"
    "\<And>k r. hash_map (m_vhash m1) k = Some r \<longleftrightarrow> hash_map (m_vhash m) k = Some r \<and> \<not> stale now m r"
    by (rule stale_spec[OF routing_run_inv[OF assms(1)], of now]) blast
  have e: "m1 = m'" using m1(1) assms(2) by simp
  have "hash_map (m_vhash m') a = Some r" using m1(4) e assms(3,4) by simp
  moreover have "in_force now' m' r" using frame_in_force[OF m1(3)] assms(5) e by simp
  ultimately have x: "exact_owner now' m' a = Some (mr_instance r)" by (simp add: exact_owner_def)
  have l: "\<not> mroute_addr_equal a (m_local m')" using frame_fields(2)[OF m1(3)] assms(7) e by simp
  note R = route_invD[OF m1(2)]
  have p: "\<forall>x \<in> set (nets m'). prefix_key a x \<noteq> None" using nets_defined[OF R(1) assms(6)] e by simp
  show ?thesis
    by (rule get_spec[of m' True a now' script]) (use R(2) e p x l in auto)
qed

section \<open>Executing runs\<close>

text \<open>Equations by which runs are evaluated in the kernel.\<close>

lemma of_nat_word_code [code_unfold]: "(of_nat n :: 'a::len word) = word_of_int (int n)"
  by simp

fun hash_end :: "nat \<Rightarrow> bytes \<times> u32 \<times> u32 \<times> u32 \<Rightarrow> u32" where
  "hash_end n (k', a, b, c) = snd (snd (mix
     (a + last_byte k' 3 24 + last_byte k' 2 16 + last_byte k' 1 8 + last_byte k' 0 0,
      b + last_byte k' 7 24 + last_byte k' 6 16 + last_byte k' 5 8 + last_byte k' 4 0,
      c + of_nat n + last_byte k' 10 24 + last_byte k' 9 16 + last_byte k' 8 8)))"

lemma hash_func_code [code]: "hash_func k initval = hash_end (length k) (hash_blocks k (0x9e3779b9, 0x9e3779b9, initval))"
  by (simp add: hash_func_def Let_def split: prod.split)


fun run_ops ::
  "bool \<Rightarrow> (int \<times> routing_op) list \<Rightarrow> (string \<Rightarrow> mroute_addr \<Rightarrow> bool) \<Rightarrow> nat \<times> multi_context \<Rightarrow> (nat \<times> multi_context) option" where
  "run_ops restricted [] script nm = Some nm"
| "run_ops restricted ((now, op) # ops) script (n, m) =
     (if op_ok restricted m op then
        (case do_op now script op m of
           None \<Rightarrow> None
         | Some (m', ret) \<Rightarrow> run_ops restricted ops script (n + op_updates m op, m'))
      else None)"

lemma run_ops_run:
  "run_ops restricted ops script (n, m) = Some (n', m') \<Longrightarrow> routing_run restricted n m \<Longrightarrow> routing_run restricted n' m'"
proof (induction ops arbitrary: n m)
  case (Cons o1 ops)
  then show ?case by (cases o1) (auto split: if_splits option.splits intro: routing_run.step)
qed simp

definition sample_init :: multi_context where
  "sample_init = the (multi_init_routes 0 4 0 600 0x0a080001)"

definition sample_client :: multi_instance where
  "sample_client = new_instance DEV_TYPE_TUN 16 [\<lparr>ir_network = 0x0a090000, ir_netbits = 16\<rparr>] []"

abbreviation sample_ops :: "(int \<times> routing_op) list" where
  "sample_ops \<equiv> [(1, Open_Client 7 sample_client), (2, Learn 7 (key4 0x0a080006 (- 1))), (3, Add_Iroutes 7),
     (4, Lookup (key4 0x0a090102 (- 1)) True)]"

definition sample_server :: multi_context where
  "sample_server = snd (the (run_ops True sample_ops (\<lambda>_ _. True) (0, sample_init)))"

lemma sample_facts:
  "Option.is_none (multi_init_routes 0 4 0 600 0x0a080001) = False"
  "map_option fst (run_ops True sample_ops (\<lambda>_ _. True) (0, sample_init)) = Some 1"
  by code_simp+

lemma sample_lookup:
  "map_option snd (multi_get_instance_by_virtual_addr 5 (\<lambda>_ _. True) (key4 0x0a090103 (- 1)) True sample_server) = Some (Some 7)"
  by code_simp

lemma sample_runs:
  "routing_run True 0 sample_init" "routing_run True 1 sample_server" "routing_run False 1 sample_server"
proof -
  obtain m where m: "multi_init_routes 0 4 0 600 0x0a080001 = Some m"
    using sample_facts(1) by (cases "multi_init_routes 0 4 0 600 0x0a080001") auto
  have s: "routing_run r 0 sample_init" for r
    using routing_run.start[OF m] m by (simp add: sample_init_def)
  obtain m1 where e: "run_ops True sample_ops (\<lambda>_ _. True) (0, sample_init) = Some (1, m1)"
    using sample_facts(2) by (cases "run_ops True sample_ops (\<lambda>_ _. True) (0, sample_init)") auto
  have "sample_server = m1" unfolding sample_server_def e by simp
  then show "routing_run True 1 sample_server" using run_ops_run[OF e s] by simp
  show "routing_run True 0 sample_init" by (rule s)
  show "routing_run False 1 sample_server" by (rule run_weaken) fact
qed

lemma routes_on_posE:
  assumes "0 < routes_on b i"
  obtains e where "e \<in># b" "mr_instance (he_value e) = i"
proof -
  obtain e where "e \<in># filter_mset (\<lambda>e. mr_instance (he_value e) = i) b"
    using assms by (metis routes_on_def multiset_nonemptyE nonempty_has_size)
  then show ?thesis using that by auto
qed

section \<open>Properties\<close>

text \<open>
  C5. The routing operations of the server are safe in every order of events. In any state reached by
  clients coming, learning addresses, adding their internal routes and leaving, by lookups and by
  the three passes that delete routes, the next operation returns: it reads no freed instance,
  fails no assertion and its loops end. Afterwards the count of references of each instance is
  one if it is open plus the number of its routes in the table, it is never zero while the
  instance exists, the count of routes is that number and within the quota of the client, and a
  freed instance has no route in the table.
\<close>

theorem routing_operations_safe:
  assumes "routing_run restricted n m" "op_ok restricted m op"
  shows "\<exists>m' ret. do_op now script op m = Some (m', ret) \<and>
    (\<forall>i. let routes = routes_on (hash_bag (m_vhash m')) i in
       case m_store m' i of
         None \<Rightarrow> routes = 0
       | Some mi \<Rightarrow> mi_refcount mi = (if mi_halt mi then 0 else 1) + int routes \<and> 0 < mi_refcount mi
           \<and> mi_route_count mi = int routes \<and> mi_route_count mi \<le> max 0 (mi_max_routes_per_client mi))"
proof -
  obtain m' ret where m': "do_op now script op m = Some (m', ret)" "route_inv restricted (n + op_updates m op) m'"
    using op_inv[OF routing_run_inv[OF assms(1)] assms(2)] by blast
  note M = mem_invD(4,6)[OF route_invD(2)[OF m'(2)]]
  have r: "ref_ok (m_store m' i) (routes_on (hash_bag (m_vhash m')) i)" for i using M(1) by (simp add: refs_def)
  have "let routes = routes_on (hash_bag (m_vhash m')) i in
       case m_store m' i of
         None \<Rightarrow> routes = 0
       | Some mi \<Rightarrow> mi_refcount mi = (if mi_halt mi then 0 else 1) + int routes \<and> 0 < mi_refcount mi
           \<and> mi_route_count mi = int routes \<and> mi_route_count mi \<le> max 0 (mi_max_routes_per_client mi)" for i
    using r[of i] M(2)[of i] by (cases "m_store m' i") (auto simp: Let_def)
  then show ?thesis using m'(1) by blast
qed

lemma routing_operations_safe_witness:
  "\<exists>m' ret. do_op 9 (\<lambda>_ _. False) (Close_Client 7) sample_server = Some (m', ret) \<and>
    (\<forall>i. let routes = routes_on (hash_bag (m_vhash m')) i in
       case m_store m' i of
         None \<Rightarrow> routes = 0
       | Some mi \<Rightarrow> mi_refcount mi = (if mi_halt mi then 0 else 1) + int routes \<and> 0 < mi_refcount mi
           \<and> mi_route_count mi = int routes \<and> mi_route_count mi \<le> max 0 (mi_max_routes_per_client mi))"
  by (rule routing_operations_safe[OF sample_runs(2)]) code_simp

text \<open>
  C4. The lookup is the longest prefix match. Take a tunnel server that does not drop stale routes
  (restricted runs: \<open>check_stale_routes\<close>, which \<open>--stale-routes-check\<close> enables, may leave cached
  routes to a prefix it deletes, see \<open>stale_pass_keeps_cached\<close>), in any state it reaches while
  fewer than 2^32 prefixes have been added or removed. The lookup of an IPv4 or IPv6 address in
  the table, with its cache of host routes that are dropped by a generation count and by age, gives
  nothing for the address of the server; the client with a permanent route for the address itself
  if there is one; otherwise the client that owns the longest of the prefixes that contain the
  address among the permanent routes of the open clients, and nothing when there is none. A
  prefix contains the address when its bits are those of the address and its host bits are zero:
  an IPv4 internal route that is configured with host bits set never matches. The
  lookup, which moves elements and learns cached routes, does not change the answers.
\<close>

theorem lookup_longest_prefix:
  assumes "routing_run True n m" "n < 2 ^ 32" "host_addr a" "length (ma_raw a) = MR_MAX_ADDR_LEN"
  shows "\<exists>m'. multi_get_instance_by_virtual_addr now script a True m = Some (m', route_owner m a)
    \<and> right_answer m a (route_owner m a)
    \<and> (\<forall>b. host_addr b \<longrightarrow> route_owner m' b = route_owner m b)"
proof -
  note inv = routing_run_inv[OF assms(1)]
  have "right_answer m a (route_owner m a)"
    by (rule route_owner_right[OF route_invD(2)[OF inv] route_invD(3)[OF inv _ assms(2)] assms(3,4)]) simp
  then show ?thesis using lookup_inv[OF inv, of True a now script] assms(2,3) by fastforce
qed

lemma lookup_longest_prefix_witness:
  "route_owner sample_server (key4 0x0a090103 (- 1)) = Some 7 \<and> right_answer sample_server (key4 0x0a090103 (- 1)) (Some 7)"
proof -
  have "host_addr (key4 0x0a090103 (- 1))" "length (ma_raw (key4 0x0a090103 (- 1))) = MR_MAX_ADDR_LEN"
    by (simp_all add: host_addr_def key4_def MR_MAX_ADDR_LEN_def)
  then obtain m' where m': "multi_get_instance_by_virtual_addr 5 (\<lambda>_ _. True) (key4 0x0a090103 (- 1)) True sample_server
      = Some (m', route_owner sample_server (key4 0x0a090103 (- 1)))"
    "right_answer sample_server (key4 0x0a090103 (- 1)) (route_owner sample_server (key4 0x0a090103 (- 1)))"
    using lookup_longest_prefix[OF sample_runs(2), of "key4 0x0a090103 (- 1)" 5 "\<lambda>_ _. True"] by auto
  then have "route_owner sample_server (key4 0x0a090103 (- 1)) = Some 7" using sample_lookup by simp
  then show ?thesis using m'(2) by simp
qed

text \<open>
  C20. The helper of the lookup knows the prefixes. In every reachable state the count for a
  prefix length is the number of internal routes of that length of the open clients whose
  routes have been added, and the list that a lookup tries has exactly the lengths with a
  positive count, the longest first.
\<close>

theorem helper_counts_prefixes:
  assumes "routing_run restricted n m"
  shows "(\<forall>k < MR_HELPER_NET_LEN. net_len_refcount (m_route_helper m) ! k = total (active m) (int k))
    \<and> nets m = map of_nat (filter (\<lambda>k. 0 < total (active m) (int k)) (rev [0..<MR_HELPER_NET_LEN]))"
proof -
  note I = run_invD[OF route_invD(1)[OF routing_run_inv[OF assms]]]
  have c: "net_len_refcount (m_route_helper m) ! k = total (active m) (int k)" if "k < MR_HELPER_NET_LEN" for k
    using I(3) that by (simp add: net_counts_def)
  have "nets m = map of_nat (filter (\<lambda>k. 0 < net_len_refcount (m_route_helper m) ! k) (rev [0..<MR_HELPER_NET_LEN]))"
    using helper_nets(1)[OF I(2)] by (simp add: used_lengths_def)
  also have "\<dots> = map of_nat (filter (\<lambda>k. 0 < total (active m) (int k)) (rev [0..<MR_HELPER_NET_LEN]))"
    by (rule arg_cong[where f = "map of_nat"], rule filter_cong) (simp_all add: c)
  finally show ?thesis using c by blast
qed

lemma helper_counts_prefixes_witness: "total (active sample_server) 16 = 1 \<and> nets sample_server = [16]"
proof -
  have e: "net_len_refcount (m_route_helper sample_server) ! 16 = 1" "nets sample_server = [16]" by code_simp+
  have "net_len_refcount (m_route_helper sample_server) ! 16 = total (active sample_server) (int 16)"
    using helper_counts_prefixes[OF sample_runs(2)] by (auto simp: MR_HELPER_NET_LEN_def)
  then show ?thesis using e by simp
qed

text \<open>
  C22. Reaping frees what closed clients leave behind. From every reachable state the pass over the
  whole table returns, the routes left are exactly those in force, and the instances left are
  exactly the open ones: closed instances have been freed.
\<close>

theorem reap_all_frees:
  assumes "routing_run restricted n m"
  shows "\<exists>m'. multi_reap_all now m = Some m'
    \<and> (\<forall>k r. hash_map (m_vhash m') k = Some r \<longleftrightarrow> hash_map (m_vhash m) k = Some r \<and> in_force now m r)
    \<and> (\<forall>i. m_store m' i \<noteq> None \<longleftrightarrow> open_inst m i)"
proof -
  obtain m' where m': "multi_reap_all now m = Some m'" "route_inv restricted n m'" "frame m m'"
    "\<And>k r. hash_map (m_vhash m') k = Some r \<longleftrightarrow> hash_map (m_vhash m) k = Some r \<and> in_force now m r"
    by (rule reap_all_spec[OF routing_run_inv[OF assms], of now]) (assumption | rule that)+
  note M = mem_invD[OF route_invD(2)[OF m'(2)]]
  have "\<not> mi_halt mi" if mi: "m_store m' i = Some mi" for i mi
  proof
    assume h: "mi_halt mi"
    have "ref_ok (m_store m' i) (routes_on (hash_bag (m_vhash m')) i)" using M(4) by (simp add: refs_def)
    then have "0 < routes_on (hash_bag (m_vhash m')) i" using mi h by simp
    then obtain e where e: "e \<in># hash_bag (m_vhash m')" "mr_instance (he_value e) = i" by (rule routes_on_posE)
    have "compare_function (m_vhash m') (key_of e) (key_of e)" using M(3) by simp
    then have "hash_map (m_vhash m') (key_of e) = Some (he_value e)" using e(1) hash_map_bag[OF M(2)] by blast
    then have "in_force now m' (he_value e)" using m'(4) frame_in_force[OF m'(3)] by blast
    then show False using in_force_store e(2) mi h by fastforce
  qed
  then have "m_store m' i \<noteq> None \<longleftrightarrow> open_inst m i" for i
    using frame_open_inst[OF m'(3), of i] by (auto simp: open_inst_def)
  then show ?thesis using m'(1,4) by blast
qed

lemma reap_all_frees_witness:
  "\<exists>m1 m2. close_routes False 7 sample_server = Some m1 \<and> m_store m1 7 \<noteq> None
    \<and> multi_reap_all 9 m1 = Some m2 \<and> m_store m2 7 = None"
proof -
  have "map_option (\<lambda>m. (Option.is_none (m_store m 7), open_inst m 7)) (close_routes False 7 sample_server) = Some (False, False)"
    by code_simp
  then obtain m1 where m1: "close_routes False 7 sample_server = Some m1" "\<not> Option.is_none (m_store m1 7)" "\<not> open_inst m1 7" by auto
  have "op_ok True sample_server (Close_Client 7)" by code_simp
  from routing_run.step[OF sample_runs(2) this, of 8 "\<lambda>_ _. True" m1 None] have "\<exists>n. routing_run True n m1" using m1(1) by auto
  then obtain m2 where "multi_reap_all 9 m1 = Some m2" "m_store m2 7 = None" using reap_all_frees[of True _ m1 9] m1(3) by blast
  then show ?thesis using m1(1,2) by (auto simp: Option.is_none_def)
qed

text \<open>
  C23. The pass over stale routes terminates. The loop deletes elements of the table while it
  iterates over it and frees instances whose last route goes; from every reachable state it
  returns, having visited every route once: the routes that are gone are exactly those in force whose
  last reference is older than the ageing time.
\<close>

theorem check_stale_routes_returns:
  assumes "routing_run False n m"
  shows "\<exists>m'. check_stale_routes now m = Some m'
    \<and> (\<forall>k r. hash_map (m_vhash m') k = Some r \<longleftrightarrow> hash_map (m_vhash m) k = Some r
         \<and> \<not> (in_force now m r \<and> now - mr_last_reference r \<ge> m_stale_routes_ageing_time m))"
  by (rule stale_spec[OF routing_run_inv[OF assms], of now]) (auto simp: stale_def)

lemma check_stale_routes_returns_witness: "\<exists>m'. check_stale_routes 700 sample_server = Some m'"
  using check_stale_routes_returns[OF sample_runs(3), of 700] by blast

end
