(* ===== verification/Spec2Isabelle.thy ===== *)
theory Spec2Isabelle
  imports Packet_Id_Props Data_Channel_Props C_Integer Circ_List Buffer C_Time Control_Channel Fragment_Props Schedule_Props Hash_Props Base64 Clinat Mbuf_Props Stream_Props Ip_Pool_Props Mroute_Mask Multi_Route_Props
begin

text \<open>
  A model of the core of OpenVPN, the C program that the application of this repository runs as its
  tunnel, with the theorems that make it correct. The sources are under
  \<open>src/vpn/src/main/cpp/openvpn/src/openvpn\<close>; file names below are relative to it.

  \<^bold>\<open>The program.\<close> A tunnel has two channels over one socket. The control channel runs TLS over a
  reliability layer and negotiates keys; the data channel encrypts the packets of the virtual
  network device with them and checks that none is replayed. On their way to the wire packets may
  be rewritten (address translation, MSS clamping), cut into fragments, and framed for TCP. A
  server holds one instance per client: it leases addresses from a pool, routes packets between
  its clients by a table of addresses and prefixes, queues what it cannot send at once, and wakes its
  clients up in the order of their timers.

  \<^bold>\<open>Conventions\<close> (theory \<open>Prelude\<close>). A structure is a record with the fields of the code, a machine word
  a word of its width where it can wrap, and \<open>int\<close> where it stays far from its limits. A failed
  \<open>ASSERT\<close>, a fatal message and a use of freed memory are \<open>None\<close>; an error that the code reports and
  survives is a value next to the new state. State is passed explicitly, the clock \<open>now\<close> is an argument. Pointers
  that alias (the treap of the scheduler, shared packet buffers, client instances) are addresses in an
  explicit store. Code outside the repository is a parameter: the crypto library is a record of functions,
  \<open>getaddr\<close>, \<open>get_ipv6_addr\<close> and \<open>inet_ntop\<close> are functions, the verdict of the learn-address script
  is a function, random numbers and received bytes are arguments.

  \<^bold>\<open>Foundations.\<close>
  \<^item> \<open>C_Integer\<close>: \<open>integer.h\<close>. Index arithmetic on a circle and rounding up to a power of two.
  \<^item> \<open>Circ_List\<close>: \<open>circ_list.h\<close>, the array that holds the replay window. Its contract is the locale \<open>circ_window\<close>.
  \<^item> \<open>Buffer\<close>: \<open>buffer.h\<close>, \<open>buffer.c\<close>. A block of memory with a window; the locale \<open>byte_store\<close> says that
    operations append, prepend or take bytes, or fail and change nothing; \<open>buffer_codec\<close> is the contract of a
    wire form that is read back.
  \<^item> \<open>C_Time\<close>: \<open>otime.c\<close>, \<open>otime.h\<close>, \<open>interval.h\<close>, \<open>interval.c\<close>, part of \<open>shaper.c\<close>. Timers fire on time, the rate
    limiter keeps its bound, and \<open>tv_add\<close> carries in units of 2^20 microseconds, which is a defect.
  \<^item> \<open>Hash_Table\<close>, \<open>Hash_Props\<close>, \<open>Hash_Elems\<close>: \<open>list.h\<close>, \<open>list.c\<close>. The table refines a map up to the
    comparison of keys (locale \<open>keyed_store\<close>); deleting while iterating is exact; as a bag of elements
    it carries the reference counts of the routing table.
  \<^item> \<open>Base64\<close>: \<open>base64.c\<close>. Round trip, and exactly what the decoder makes of characters outside the alphabet.
  \<^item> \<open>Session_Id\<close>: \<open>session_id.h\<close>.
  \<^item> \<open>Status_File\<close>: \<open>status.c\<close> and \<open>buf_parse\<close>, text files read and written by lines.

  \<^bold>\<open>Data channel.\<close>
  \<^item> \<open>Packet_Id\<close>, \<open>Replay\<close>, \<open>Packet_Id_Props\<close>: \<open>packet_id.h\<close>, \<open>packet_id.c\<close> and the replay check of \<open>crypto.c\<close>.
    No identifier is accepted twice in any run (locale \<open>replay_guard\<close>), a sender never repeats one, the
    wire form is read back, and what a persisted state protects.
  \<^item> \<open>Crypto\<close>, \<open>Crypto_Props\<close>: sealing and opening in \<open>crypto.c\<close> over a crypto library with the documented behaviour.
  \<^item> \<open>Key_State\<close>, \<open>Key_State_Props\<close>: the slots for keys of \<open>ssl.c\<close> and \<open>ssl_common.h\<close>, soft resets, the lame
    duck, and the choice of the key for a packet.
  \<^item> \<open>Data_Channel\<close>, \<open>Data_Channel_Props\<close>: \<open>encrypt_sign\<close> and \<open>process_incoming_data\<close> of \<open>forward.c\<close> put
    together: the receiver gets the payload or nothing, and arbitrary packets do no harm.
  \<^item> \<open>Fragment\<close>, \<open>Fragment_Props\<close>: \<open>fragment.c\<close>. A datagram is returned exactly when its last part arrives.
  \<^item> \<open>Stream_Buf\<close>, \<open>Stream_Props\<close>: packets over TCP in \<open>socket.c\<close>, for every way the stream is cut.
  \<^item> \<open>Inet\<close>, \<open>Mss\<close>, \<open>Clinat\<close>: \<open>proto.c\<close>, \<open>mss.c\<close>, \<open>clinat.c\<close>. Checksums verify, and keep up with what is rewritten.

  \<^bold>\<open>Control channel.\<close>
  \<^item> \<open>Reliable\<close>, \<open>Reliable_Ack\<close>: \<open>reliable.c\<close>. Windows, retransmission, acknowledgement records and their cache.
  \<^item> \<open>Control_Channel\<close>: the loops of \<open>ssl.c\<close> that queue, send, accept and deliver, as a step relation with a
    network that loses, duplicates and reorders: delivery is in order and complete, and never deadlocks.

  \<^bold>\<open>Server.\<close>
  \<^item> \<open>Schedule\<close>, \<open>Schedule_Props\<close>: \<open>schedule.c\<close>. The treap of pointers refines a priority queue (locale \<open>event_queue\<close>).
  \<^item> \<open>Mbuf\<close>, \<open>Mbuf_Props\<close>: \<open>mbuf.c\<close> and its callers in \<open>multi.c\<close>. A FIFO of shared buffers (locale \<open>packet_queue\<close>).
  \<^item> \<open>Ip_Pool\<close>, \<open>Ip_Pool_Props\<close>: \<open>pool.c\<close>. Leases never collide, and the database file gives them back.
  \<^item> \<open>Mroute\<close>, \<open>Mroute_Mask\<close>: \<open>mroute.c\<close>, \<open>mroute.h\<close>. Addresses, prefixes as bits, the prefix lengths in use.
  \<^item> \<open>Multi_Route\<close> and \<open>Multi_Route_Mem\<close>, \<open>_Run\<close>, \<open>_Lpm\<close>, \<open>_Props\<close>: routing between clients in \<open>multi.c\<close>. Ownership
    and reference counts (\<open>Mem\<close>), the counts of prefixes (\<open>Run\<close>), the cached lookup against longest
    prefix match (\<open>Lpm\<close>), and runs over all operations (\<open>Props\<close>).

  \<^bold>\<open>Loops.\<close> Most loops are recursions with a measure. The loops over pointers (\<open>Schedule\<close>) and those that
  delete while they iterate (\<open>Hash_Table\<close>, \<open>Multi_Route\<close>) may in principle run forever: they are partial
  functions into \<open>option\<close>, and the theorems show that they return from every state that satisfies the
  invariant. The only fuel is the 65 rounds of \<open>adjust_power_of_2\<close>: a 64 bit word is doubled to zero in
  64, and the lemma \<open>adjust_power_of_2_total\<close> shows that fuel never runs out.

  \<^bold>\<open>Bounds.\<close> The hypotheses of the theorems on runs name the limits they need: hash tables of at most 2^30 buckets,
  fewer than 2^32 changes of the prefixes while cached routes are compared by generation, packets of at most 65535
  bytes, buffers below 1000000 bytes.

  \<^bold>\<open>Not modelled.\<close> The wire format of control packets and the TLS handshake (\<open>ssl_pkt.c\<close> and the rest of \<open>ssl.c\<close>), which
  drive the TLS library; the glue to crypto libraries, sockets, devices, routes and name servers, which
  are system calls; options, push messages, the management interface and plugins; compression, frame sizes and
  VLAN tags; accepting, authenticating and closing of clients beyond what concerns routing; logging, and
  failures of \<open>malloc\<close>. The vendored libraries and the Android application around the program are not
  modelled either.
\<close>

end
